(* ===== verification/NF_Prelude.thy ===== *)
theory NF_Prelude
  imports Main "HOL-Library.Word" "HOL-Library.Finite_Map"
begin

text \<open>
  Shared vocabulary of the development: the Rust types the crates use (fixed-width
  integers, byte vectors, UTF-8 strings, hash maps, instants and durations), the functions
  of the Rust standard library that the modelled code calls, and the generic lemmas the
  component theories build on.

  \<^item> A Rust \<open>String\<close> or \<open>&str\<close> is its UTF-8 byte sequence, written as an Isabelle
    \<^typ>\<open>string\<close> (a \<^typ>\<open>char\<close> is one byte), so \<open>len()\<close> is \<^const>\<open>length\<close> and a slice that
    does not fall on a character boundary can be told apart.
  \<^item> A \<open>HashMap\<close> is a finite map; its \<open>retain\<close> is \<open>fm_retain\<close>.
  \<^item> A fallible function returns \<open>'e + 'a\<close>: \<open>Inl\<close> the error, \<open>Inr\<close> the value. Where the
    code can panic the error type has a constructor for it.
  \<^item> \<open>Instant\<close> and \<open>Duration\<close> are nanosecond counts; \<open>SystemTime\<close> is a nanosecond count
    relative to the Unix epoch and may be negative.
\<close>

type_synonym u8 = "8 word"
type_synonym u16 = "16 word"
type_synonym u32 = "32 word"
type_synonym u64 = "64 word"
type_synonym u128 = "128 word"
type_synonym i64 = "64 word"
type_synonym bytes = "u8 list"
type_synonym instant = nat
type_synonym duration = nat
type_synonym system_time = int

named_theorems codec_simps \<open>unfolding of the byte-level encoders\<close>
named_theorems lookup_simps \<open>lookups in updated hash maps\<close>

section \<open>Results\<close>

definition res_bind :: "'e + 'a \<Rightarrow> ('a \<Rightarrow> 'e + 'b) \<Rightarrow> 'e + 'b" where
  "res_bind m f = (case m of Inl e \<Rightarrow> Inl e | Inr x \<Rightarrow> f x)"

definition ok_or :: "'e \<Rightarrow> 'a option \<Rightarrow> 'e + 'a" where
  "ok_or e m = (case m of None \<Rightarrow> Inl e | Some x \<Rightarrow> Inr x)"

lemma res_bind_simps [simp]:
  "res_bind (Inl e) f = Inl e"
  "res_bind (Inr x) f = f x"
  by (simp_all add: res_bind_def)

lemma ok_or_simps [simp]:
  "ok_or e None = Inl e"
  "ok_or e (Some x) = Inr x"
  by (simp_all add: ok_or_def)

lemma res_bind_Inr_iff: "res_bind m f = Inr y \<longleftrightarrow> (\<exists>x. m = Inr x \<and> f x = Inr y)"
  by (cases m) auto

lemma ok_or_Inr_iff: "ok_or e m = Inr x \<longleftrightarrow> m = Some x"
  by (cases m) auto

section \<open>Big-endian integers\<close>

text \<open>\<open>to_be_bytes\<close> and \<open>from_be_bytes\<close> of the unsigned integer types.\<close>

fun be_put :: "nat \<Rightarrow> nat \<Rightarrow> bytes" where
  "be_put 0 x = []"
| "be_put (Suc n) x = be_put n (x div 256) @ [of_nat x]"

definition be_get :: "bytes \<Rightarrow> nat" where
  "be_get bs = foldl (\<lambda>a b. a * 256 + unat b) 0 bs"

definition be16 :: "u16 \<Rightarrow> bytes" where "be16 x = be_put 2 (unat x)"
definition be32 :: "u32 \<Rightarrow> bytes" where "be32 x = be_put 4 (unat x)"
definition be64 :: "u64 \<Rightarrow> bytes" where "be64 x = be_put 8 (unat x)"
definition get16 :: "bytes \<Rightarrow> u16" where "get16 bs = of_nat (be_get bs)"
definition get32 :: "bytes \<Rightarrow> u32" where "get32 bs = of_nat (be_get bs)"
definition get64 :: "bytes \<Rightarrow> u64" where "get64 bs = of_nat (be_get bs)"

lemma byte_lt: "unat (b :: u8) < 256"
  using unsigned_less [of b, where 'a = nat] by simp

lemma length_be_put [simp]: "length (be_put n x) = n"
  by (induction n arbitrary: x) auto

lemma be_get_snoc [simp]: "be_get (bs @ [b]) = be_get bs * 256 + unat b"
  by (simp add: be_get_def)

lemma be_get_Nil [simp]: "be_get [] = 0"
  by (simp add: be_get_def)

lemma be_get_put: "be_get (be_put n x) = x mod 256 ^ n"
proof (induction n arbitrary: x)
  case 0
  then show ?case by simp
next
  case (Suc n)
  have "x mod 256 ^ Suc n = (x div 256) mod 256 ^ n * 256 + x mod 256"
    using mod_mult2_eq [of x 256 "256 ^ n"] by (simp add: mult.commute)
  with Suc show ?case by (simp add: unat_of_nat)
qed

lemma be_get_bound: "be_get bs < 256 ^ length bs"
proof (induction bs rule: rev_induct)
  case Nil
  then show ?case by simp
next
  case (snoc b bs)
  have "unat b < 256" by (rule byte_lt)
  with snoc show ?case by simp
qed

lemma be_put_get: "be_put (length bs) (be_get bs) = bs"
proof (induction bs rule: rev_induct)
  case Nil
  then show ?case by simp
next
  case (snoc b bs)
  have b: "unat b < 256" by (rule byte_lt)
  then have "(be_get bs * 256 + unat b) div 256 = be_get bs" by simp
  moreover have "(of_nat (be_get bs * 256 + unat b) :: u8) = b"
  proof -
    have "(be_get bs * 256 + unat b) mod 256 = unat b" using b by simp
    then have "unat (of_nat (be_get bs * 256 + unat b) :: u8) = unat b"
      by (simp only: unat_of_nat) simp
    then show ?thesis by (simp add: word_unat_eq_iff)
  qed
  ultimately show ?case using snoc by simp
qed

lemma length_be [simp]:
  "length (be16 x) = 2" "length (be32 y) = 4" "length (be64 z) = 8"
  by (simp_all add: be16_def be32_def be64_def)

lemma get_be [simp]:
  "get16 (be16 x) = x" "get32 (be32 y) = y" "get64 (be64 z) = z"
proof -
  have "unat x < 256 ^ 2" "unat y < 256 ^ 4" "unat z < 256 ^ 8"
    using unsigned_less [of x, where 'a = nat] unsigned_less [of y, where 'a = nat]
      unsigned_less [of z, where 'a = nat] by simp_all
  then show "get16 (be16 x) = x" "get32 (be32 y) = y" "get64 (be64 z) = z"
    by (simp_all add: get16_def be16_def get32_def be32_def get64_def be64_def be_get_put)
qed

lemma be_inj [simp]:
  "be16 x = be16 x' \<longleftrightarrow> x = x'" "be32 y = be32 y' \<longleftrightarrow> y = y'" "be64 z = be64 z' \<longleftrightarrow> z = z'"
  by (metis get_be(1), metis get_be(2), metis get_be(3))

lemma be_nonempty [simp]: "be16 x \<noteq> []" "be32 y \<noteq> []" "be64 z \<noteq> []"
  by (metis length_be(1) list.size(3) zero_neq_numeral,
      metis length_be(2) list.size(3) zero_neq_numeral,
      metis length_be(3) list.size(3) zero_neq_numeral)

lemma length_two: "length xs = 2 \<Longrightarrow> \<exists>a b. xs = [a, b]"
  by (auto simp: numeral_2_eq_2 length_Suc_conv)

lemma be16_split: "\<exists>a b. be16 x = [a, b]"
  by (rule length_two) simp

lemma be64_split: "\<exists>a b c d e f g h. be64 x = [a, b, c, d, e, f, g, h]"
proof -
  have "length (be64 x) = Suc (Suc (Suc (Suc (Suc (Suc (Suc (Suc 0)))))))" by simp
  then show ?thesis unfolding length_Suc_conv by auto
qed

lemma be_get_append_same:
  "length bs = length cs \<Longrightarrow> be_get bs = be_get cs \<longleftrightarrow> bs = cs"
  by (metis be_put_get)

section \<open>Bytes and UTF-8 strings\<close>

definition byte_of :: "char \<Rightarrow> u8" where "byte_of c = of_nat (of_char c)"
definition char_of_byte :: "u8 \<Rightarrow> char" where "char_of_byte b = char_of (unat b)"
definition as_bytes :: "string \<Rightarrow> bytes" where "as_bytes s = map byte_of s"
definition str_of :: "bytes \<Rightarrow> string" where "str_of bs = map char_of_byte bs"

lemma char_code_lt: "(of_char c :: nat) < 256"
  by (rule nat_of_char_less_256)

lemma char_of_byte_of [simp]: "char_of_byte (byte_of c) = c"
  using char_code_lt [of c] by (simp add: char_of_byte_def byte_of_def unat_of_nat)

lemma byte_of_char_of_byte [simp]: "byte_of (char_of_byte b) = b"
proof -
  have "unat b < 256" by (rule byte_lt)
  then show ?thesis by (simp add: char_of_byte_def byte_of_def)
qed

lemma str_of_as_bytes [simp]: "str_of (as_bytes s) = s"
  by (induction s) (auto simp: str_of_def as_bytes_def)

lemma as_bytes_str_of [simp]: "as_bytes (str_of bs) = bs"
  by (induction bs) (auto simp: str_of_def as_bytes_def)

lemma as_bytes_inj [simp]: "as_bytes s = as_bytes t \<longleftrightarrow> s = t"
  by (metis str_of_as_bytes)

lemma length_as_bytes [simp]: "length (as_bytes s) = length s"
  by (simp add: as_bytes_def)

lemma as_bytes_append [simp]: "as_bytes (s @ t) = as_bytes s @ as_bytes t"
  by (simp add: as_bytes_def)

lemma as_bytes_Nil [simp]: "as_bytes [] = []" "as_bytes s = [] \<longleftrightarrow> s = []"
  by (simp_all add: as_bytes_def)

text \<open>A byte of the form \<open>10xxxxxx\<close> continues a character; slicing a \<open>str\<close> at one panics.\<close>

definition is_cont :: "char \<Rightarrow> bool" where
  "is_cont c \<longleftrightarrow> 128 \<le> (of_char c :: nat) \<and> (of_char c :: nat) < 192"

definition is_char_boundary :: "string \<Rightarrow> nat \<Rightarrow> bool" where
  "is_char_boundary s i \<longleftrightarrow>
     i = 0 \<or> i = length s \<or> (i < length s \<and> \<not> is_cont (s ! i))"

text \<open>\<open>&s[i..j]\<close>; \<open>None\<close> is the panic.\<close>

definition str_slice :: "string \<Rightarrow> nat \<Rightarrow> nat \<Rightarrow> string option" where
  "str_slice s i j =
     (if i \<le> j \<and> is_char_boundary s i \<and> is_char_boundary s j
      then Some (take (j - i) (drop i s)) else None)"

definition is_ascii :: "char \<Rightarrow> bool" where "is_ascii c \<longleftrightarrow> (of_char c :: nat) < 128"

lemma ascii_boundary: "list_all is_ascii s \<Longrightarrow> i \<le> length s \<Longrightarrow> is_char_boundary s i"
  by (force simp: is_char_boundary_def is_cont_def is_ascii_def list_all_length not_le)

end
