(* ===== verification/Rust_Std.thy ===== *)
theory Rust_Std
  imports NF_Prelude
begin

text \<open>
  The functions of the Rust standard library the modelled code calls on strings and
  numbers: \<open>split\<close>, \<open>split_once\<close>, \<open>trim\<close>, ASCII case folding, decimal and hexadecimal
  printing, and \<open>parse\<close>/\<open>from_str_radix\<close> with their quirks (a leading \<open>+\<close> is accepted).
\<close>

section \<open>Splitting and joining\<close>

fun split_on :: "'a \<Rightarrow> 'a list \<Rightarrow> 'a list list" where
  "split_on c [] = [[]]"
| "split_on c (x # xs) =
     (if x = c then [] # split_on c xs
      else (x # hd (split_on c xs)) # tl (split_on c xs))"

fun split_once :: "'a \<Rightarrow> 'a list \<Rightarrow> ('a list \<times> 'a list) option" where
  "split_once c [] = None"
| "split_once c (x # xs) =
     (if x = c then Some ([], xs)
      else map_option (\<lambda>(a, b). (x # a, b)) (split_once c xs))"

fun join_with :: "'a list \<Rightarrow> 'a list list \<Rightarrow> 'a list" where
  "join_with sep [] = []"
| "join_with sep [x] = x"
| "join_with sep (x # y # ys) = x @ sep @ join_with sep (y # ys)"

lemma split_on_nonempty [simp]: "split_on c xs \<noteq> []"
  by (cases xs) auto

text \<open>For evaluation: the recursive call once.\<close>

lemma split_on_code [code]:
  "split_on c [] = [[]]"
  "split_on c (x # xs) =
     (case split_on c xs of p # ps \<Rightarrow> if x = c then [] # p # ps else (x # p) # ps | [] \<Rightarrow> [])"
  using split_on_nonempty [of c xs] by (simp_all split: list.split)

lemma split_on_free: "c \<notin> set xs \<Longrightarrow> split_on c xs = [xs]"
  by (induction xs) auto

lemma split_on_append_sep: "c \<notin> set xs \<Longrightarrow> split_on c (xs @ c # ys) = xs # split_on c ys"
  by (induction xs) auto

lemma split_on_join:
  "\<forall>x \<in> set xs. c \<notin> set x \<Longrightarrow> xs \<noteq> [] \<Longrightarrow> split_on c (join_with [c] xs) = xs"
proof (induction "[c]" xs rule: join_with.induct)
  case (2 x)
  then show ?case by (simp add: split_on_free)
next
  case (3 x y ys)
  then show ?case by (simp add: split_on_append_sep)
qed simp

lemma split_once_free: "c \<notin> set xs \<Longrightarrow> split_once c xs = None"
  by (induction xs) auto

lemma split_once_sep: "c \<notin> set xs \<Longrightarrow> split_once c (xs @ c # ys) = Some (xs, ys)"
  by (induction xs) auto

lemma length_join_with:
  "length (join_with [c] xs) = sum_list (map length xs) + (length xs - 1)"
  by (induction "[c]" xs rule: join_with.induct) auto

section \<open>Digits\<close>

definition to_digit :: "nat \<Rightarrow> char \<Rightarrow> nat option" where
  "to_digit radix c =
     (let n = (of_char c :: nat);
          d = (if 48 \<le> n \<and> n \<le> 57 then n - 48
               else if 97 \<le> n \<and> n \<le> 122 then n - 87
               else if 65 \<le> n \<and> n \<le> 90 then n - 55 else 36)
      in if d < radix \<and> d < 36 then Some d else None)"

definition digit_char :: "nat \<Rightarrow> char" where
  "digit_char d = (if d < 10 then char_of (48 + d) else char_of (87 + d))"

fun digits_val :: "nat \<Rightarrow> nat \<Rightarrow> string \<Rightarrow> nat option" where
  "digits_val r acc [] = Some acc"
| "digits_val r acc (c # cs) =
     (case to_digit r c of None \<Rightarrow> None | Some d \<Rightarrow> digits_val r (acc * r + d) cs)"

text \<open>\<open>uN::from_str_radix\<close>; \<open>bound\<close> is \<open>2 ^ N\<close>, and both error kinds are \<open>None\<close>.\<close>

definition from_str_radix :: "nat \<Rightarrow> nat \<Rightarrow> string \<Rightarrow> nat option" where
  "from_str_radix bound r s =
     (case s of [] \<Rightarrow> None
      | c # cs \<Rightarrow>
          (if (c = CHR ''+'' \<or> c = CHR ''-'') \<and> cs = [] then None
           else case digits_val r 0 (if c = CHR ''+'' then cs else s) of
                  None \<Rightarrow> None
                | Some v \<Rightarrow> if v < bound then Some v else None))"

definition parse_u8 :: "string \<Rightarrow> u8 option" where
  "parse_u8 s = map_option of_nat (from_str_radix (2 ^ 8) 10 s)"
definition parse_u16 :: "string \<Rightarrow> u16 option" where
  "parse_u16 s = map_option of_nat (from_str_radix (2 ^ 16) 10 s)"
definition parse_u64 :: "string \<Rightarrow> u64 option" where
  "parse_u64 s = map_option of_nat (from_str_radix (2 ^ 64) 10 s)"

fun show_nat :: "nat \<Rightarrow> string" where
  "show_nat n = (if n < 10 then [digit_char n] else show_nat (n div 10) @ [digit_char (n mod 10)])"

declare show_nat.simps [simp del]

definition hex_byte :: "u8 \<Rightarrow> string" where
  "hex_byte b = [digit_char (unat b div 16), digit_char (unat b mod 16)]"

lemma to_digit_digit_char:
  assumes "d < r" "r \<le> 36"
  shows "to_digit r (digit_char d) = Some d"
proof -
  have "d < 36" using assms by simp
  then have "(of_char (digit_char d) :: nat) = (if d < 10 then 48 + d else 87 + d)"
    by (auto simp: digit_char_def)
  with assms show ?thesis by (auto simp: to_digit_def Let_def)
qed

lemma digits_val_append:
  "digits_val r a (xs @ ys) =
     (case digits_val r a xs of None \<Rightarrow> None | Some b \<Rightarrow> digits_val r b ys)"
  by (induction xs arbitrary: a) (auto split: option.splits)

lemma digits_val_show_nat: "digits_val 10 0 (show_nat n) = Some n"
proof (induction n rule: show_nat.induct)
  case (1 n)
  then show ?case
    by (cases "n < 10")
       (simp_all add: show_nat.simps [of n] digits_val_append to_digit_digit_char)
qed

lemma show_nat_nonempty [simp]: "show_nat n \<noteq> []"
  by (subst show_nat.simps) simp

lemma digit_char_code:
  "d < 16 \<Longrightarrow> (of_char (digit_char d) :: nat) = (if d < 10 then 48 + d else 87 + d)"
  by (auto simp: digit_char_def)

lemma digit_char_ascii: "d < 16 \<Longrightarrow> is_ascii (digit_char d)"
  by (simp add: is_ascii_def digit_char_code)

lemma digit_char_neq:
  assumes "d < 16" "(of_char c :: nat) < 48"
  shows "digit_char d \<noteq> c"
proof
  assume "digit_char d = c"
  with digit_char_code [OF assms(1)] assms(2) show False by (simp split: if_splits)
qed

lemma show_nat_chars: "c \<in> set (show_nat n) \<Longrightarrow> \<exists>d < 10. c = digit_char d"
proof (induction n rule: show_nat.induct)
  case (1 n)
  show ?case
  proof (cases "n < 10")
    case True
    with "1.prems" show ?thesis by (auto simp: show_nat.simps [of n])
  next
    case False
    with "1.prems" consider "c \<in> set (show_nat (n div 10))" | "c = digit_char (n mod 10)"
      by (auto simp: show_nat.simps [of n])
    then show ?thesis using "1.IH" False by cases (auto intro: exI [of _ "n mod 10"])
  qed
qed

lemma show_nat_no_low: "(of_char c :: nat) < 48 \<Longrightarrow> c \<notin> set (show_nat n)"
proof
  assume c: "(of_char c :: nat) < 48" and "c \<in> set (show_nat n)"
  then obtain d where "d < 10" "c = digit_char d" using show_nat_chars by blast
  with c show False using digit_char_neq [of d c] by simp
qed

lemma from_str_radix_show_nat: "n < bound \<Longrightarrow> from_str_radix bound 10 (show_nat n) = Some n"
proof -
  assume n: "n < bound"
  obtain c cs where s: "show_nat n = c # cs" by (cases "show_nat n") auto
  have "CHR ''+'' \<notin> set (show_nat n)" "CHR ''-'' \<notin> set (show_nat n)"
    by (rule show_nat_no_low, simp)+
  with s have "c \<noteq> CHR ''+''" "c \<noteq> CHR ''-''" by auto
  with s n digits_val_show_nat [of n] show ?thesis by (simp add: from_str_radix_def)
qed

lemma parse_show_nat:
  "parse_u16 (show_nat (unat p)) = Some p" "parse_u64 (show_nat (unat q)) = Some q"
  using unsigned_less [of p, where 'a = nat] unsigned_less [of q, where 'a = nat]
  by (simp_all add: parse_u16_def parse_u64_def from_str_radix_show_nat)

lemma from_str_radix_hex_byte: "from_str_radix 256 16 (hex_byte b) = Some (unat b)"
proof -
  have b: "unat b < 256" by (rule byte_lt)
  then have d: "unat b div 16 < 16" "unat b mod 16 < 16" by auto
  have "digit_char (unat b div 16) \<noteq> CHR ''+''" "digit_char (unat b div 16) \<noteq> CHR ''-''"
    by (rule digit_char_neq [OF d(1)], simp)+
  with b d show ?thesis
    by (simp add: from_str_radix_def hex_byte_def to_digit_digit_char)
qed

section \<open>Whitespace and case\<close>

text \<open>
  \<open>str::trim\<close> removes characters with the Unicode property \<open>White_Space\<close>. On UTF-8 bytes:
  the length of the white-space character a string starts with (0 if none), and the same at
  the end, reading the reversed string.
\<close>

definition ws_head :: "nat list \<Rightarrow> nat" where
  "ws_head bs =
     (case bs of
        [] \<Rightarrow> 0
      | a # r \<Rightarrow>
         if (9 \<le> a \<and> a \<le> 13) \<or> a = 32 then 1
         else if a = 194 \<and> (r \<noteq> [] \<and> hd r \<in> {133, 160}) then 2
         else if take 3 bs = [225, 154, 128] then 3
         else if a = 226 \<and> length r \<ge> 2 \<and> r ! 0 = 128
                \<and> ((128 \<le> r ! 1 \<and> r ! 1 \<le> 138) \<or> r ! 1 \<in> {168, 169, 175}) then 3
         else if take 3 bs = [226, 129, 159] \<or> take 3 bs = [227, 128, 128] then 3
         else 0)"

definition ws_last :: "nat list \<Rightarrow> nat" where
  "ws_last rbs =
     (if ws_head (take 1 rbs) = 1 then 1
      else if ws_head (rev (take 2 rbs)) = 2 then 2
      else if ws_head (rev (take 3 rbs)) = 3 then 3 else 0)"

function trim_codes :: "(nat list \<Rightarrow> nat) \<Rightarrow> nat list \<Rightarrow> nat list" where
  "trim_codes ws bs = (if 0 < ws bs \<and> bs \<noteq> [] then trim_codes ws (drop (ws bs) bs) else bs)"
  by pat_completeness auto
termination
  by (relation "measure (\<lambda>(ws, bs). length bs)") auto

declare trim_codes.simps [simp del]

definition trim :: "string \<Rightarrow> string" where
  "trim s = map char_of (rev (trim_codes ws_last (rev (trim_codes ws_head (map of_char s)))))"

definition ascii_lower :: "char \<Rightarrow> char" where
  "ascii_lower c =
     (let n = (of_char c :: nat) in if 65 \<le> n \<and> n \<le> 90 then char_of (n + 32) else c)"

definition to_ascii_lowercase :: "string \<Rightarrow> string" where
  "to_ascii_lowercase s = map ascii_lower s"

definition ascii_upper :: "char \<Rightarrow> char" where
  "ascii_upper c = (let n = (of_char c :: nat) in if 97 \<le> n \<and> n \<le> 122 then char_of (n - 32) else c)"

definition to_ascii_uppercase :: "string \<Rightarrow> string" where
  "to_ascii_uppercase s = map ascii_upper s"

definition eq_ignore_ascii_case :: "string \<Rightarrow> string \<Rightarrow> bool" where
  "eq_ignore_ascii_case s t \<longleftrightarrow> to_ascii_lowercase s = to_ascii_lowercase t"

definition str_strip_prefix :: "string \<Rightarrow> string \<Rightarrow> string option" where
  "str_strip_prefix p s = (if take (length p) s = p then Some (drop (length p) s) else None)"

definition trim_end_matches :: "char \<Rightarrow> string \<Rightarrow> string" where
  "trim_end_matches c s = rev (dropWhile (\<lambda>x. x = c) (rev s))"

lemma str_strip_prefix_Some: "str_strip_prefix p s = Some r \<longleftrightarrow> s = p @ r"
  by (auto simp: str_strip_prefix_def) (metis append_take_drop_id)

lemma trim_end_matches_id: "s = [] \<or> last s \<noteq> c \<Longrightarrow> trim_end_matches c s = s"
  by (cases s rule: rev_cases) (auto simp: trim_end_matches_def)

definition no_edge_ws :: "string \<Rightarrow> bool" where
  "no_edge_ws s \<longleftrightarrow> ws_head (map of_char s) = 0 \<and> ws_last (rev (map of_char s)) = 0"

lemma trim_id: "no_edge_ws s \<Longrightarrow> trim s = s"
  by (simp add: trim_def no_edge_ws_def trim_codes.simps [of ws_head] trim_codes.simps [of ws_last]
      comp_def)

definition graphic :: "char \<Rightarrow> bool" where
  "graphic c \<longleftrightarrow> 33 \<le> (of_char c :: nat) \<and> (of_char c :: nat) < 128"

lemma ws_head_graphic: "33 \<le> a \<Longrightarrow> a < 128 \<Longrightarrow> ws_head (a # r) = 0"
  by (auto simp: ws_head_def)

lemma ws_last_graphic:
  assumes "33 \<le> a" "a < 128"
  shows "ws_last (a # r) = 0"
proof -
  have "ws_head [a] = 0" using assms by (rule ws_head_graphic)
  moreover have "ws_head (rev (take 2 (a # r))) \<noteq> 2"
    using assms by (cases r) (auto simp: ws_head_def)
  moreover have "ws_head (rev (take 3 (a # r))) \<noteq> 3"
    using assms
    by (cases r; cases "tl r") (auto simp: ws_head_def numeral_3_eq_3 numeral_2_eq_2)
  ultimately show ?thesis by (simp add: ws_last_def)
qed

text \<open>A string that is empty or starts and ends with a printable ASCII character.\<close>

definition tight :: "string \<Rightarrow> bool" where
  "tight s \<longleftrightarrow> s = [] \<or> (graphic (hd s) \<and> graphic (last s))"

lemma trim_tight: "tight s \<Longrightarrow> trim s = s"
proof (rule trim_id)
  assume "tight s"
  then consider "s = []" | "s \<noteq> []" "graphic (hd s)" "graphic (last s)" by (auto simp: tight_def)
  then show "no_edge_ws s"
  proof cases
    case 1
    then show ?thesis by (simp add: no_edge_ws_def ws_head_def ws_last_def)
  next
    case 2
    obtain c cs where s: "s = c # cs" using 2(1) by (cases s) auto
    obtain ds d where t: "s = ds @ [d]" using 2(1) by (cases s rule: rev_cases) auto
    have "ws_head (map of_char s) = 0"
      using 2(2) s by (simp add: graphic_def ws_head_graphic)
    moreover have "ws_last (rev (map of_char s)) = 0"
      using 2(3) t by (simp add: graphic_def ws_last_graphic)
    ultimately show ?thesis by (simp add: no_edge_ws_def)
  qed
qed

text \<open>Equations on the bits of a character, by which strings are evaluated.\<close>

lemma graphic_code [code]:
  "graphic (Char b0 b1 b2 b3 b4 b5 b6 b7) \<longleftrightarrow> \<not> b7 \<and> (b6 \<or> b5 \<and> (b0 \<or> b1 \<or> b2 \<or> b3 \<or> b4))"
  by (cases b0; cases b1; cases b2; cases b3; cases b4; cases b5; cases b6; cases b7) (simp_all add: graphic_def)

lemma ascii_lower_code [code]:
  "ascii_lower (Char b0 b1 b2 b3 b4 b5 b6 b7) =
     Char b0 b1 b2 b3 b4
       (b5 \<or> \<not> b7 \<and> b6 \<and> (b0 \<or> b1 \<or> b2 \<or> b3 \<or> b4) \<and> \<not> (b4 \<and> b3 \<and> (b2 \<or> b1 \<and> b0))) b6 b7"
  by (cases b0; cases b1; cases b2; cases b3; cases b4; cases b5; cases b6; cases b7)
    (simp_all add: ascii_lower_def char_of_def bit_0)

lemma trim_code [code]:
  "trim s = (if tight s then s else map char_of (rev (trim_codes ws_last (rev (trim_codes ws_head (map of_char s))))))"
  using trim_tight [of s] by (simp add: trim_def)

lemma list_all_show_nat: "(\<And>d. d < 16 \<Longrightarrow> P (digit_char d)) \<Longrightarrow> list_all P (show_nat n)"
  using show_nat_chars by (fastforce simp: list_all_iff)

lemma list_all_join: "list_all P sep \<Longrightarrow> list_all (list_all P) xs \<Longrightarrow> list_all P (join_with sep xs)"
  by (induction sep xs rule: join_with.induct) auto

lemma tight_list_all: "list_all graphic s \<Longrightarrow> tight s"
  by (cases s) (auto simp: tight_def list_all_iff)

lemma graphic_show_nat: "list_all graphic (show_nat n)"
  by (rule list_all_show_nat) (simp add: graphic_def digit_char_code)

lemma trim_show_nat [simp]: "trim (show_nat n) = show_nat n"
  by (rule trim_tight, rule tight_list_all, rule graphic_show_nat)

lemma ascii_lower_idem [simp]: "ascii_lower (ascii_lower c) = ascii_lower c"
proof -
  have "(of_char c :: nat) < 256" by (rule char_code_lt)
  then show ?thesis by (auto simp: ascii_lower_def Let_def)
qed

lemma to_ascii_lowercase_idem [simp]:
  "to_ascii_lowercase (to_ascii_lowercase s) = to_ascii_lowercase s"
  by (simp add: to_ascii_lowercase_def)

lemma eq_ignore_ascii_case_refl [simp]: "eq_ignore_ascii_case s s"
  by (simp add: eq_ignore_ascii_case_def)

lemma eq_ignore_ascii_case_lower [simp]:
  "eq_ignore_ascii_case (to_ascii_lowercase s) t = eq_ignore_ascii_case s t"
  "eq_ignore_ascii_case s (to_ascii_lowercase t) = eq_ignore_ascii_case s t"
  by (simp_all add: eq_ignore_ascii_case_def)

section \<open>UTF-8\<close>

text \<open>
  One step of the decoder behind \<open>from_utf8\<close> and \<open>from_utf8_lossy\<close> on a non-empty buffer:
  how many bytes it consumes and whether they are a well-formed character. An ill-formed
  sequence is cut after its longest prefix that could have started a character.
\<close>

definition is_cont_code :: "nat \<Rightarrow> bool" where
  "is_cont_code x \<longleftrightarrow> 128 \<le> x \<and> x < 192"

definition utf8_class :: "nat \<Rightarrow> nat \<Rightarrow> nat \<Rightarrow> nat \<Rightarrow> nat \<times> bool" where
  "utf8_class a b c d =
     (if a < 128 then (1, True)
      else if 194 \<le> a \<and> a \<le> 223 then if is_cont_code b then (2, True) else (1, False)
      else if 224 \<le> a \<and> a \<le> 239 then
        if is_cont_code b \<and> (a = 224 \<longrightarrow> 160 \<le> b) \<and> (a = 237 \<longrightarrow> b < 160)
        then if is_cont_code c then (3, True) else (2, False)
        else (1, False)
      else if 240 \<le> a \<and> a \<le> 244 then
        if is_cont_code b \<and> (a = 240 \<longrightarrow> 144 \<le> b) \<and> (a = 244 \<longrightarrow> b < 144)
        then if is_cont_code c then if is_cont_code d then (4, True) else (3, False) else (2, False)
        else (1, False)
      else (1, False))"

definition byte_at :: "nat list \<Rightarrow> nat \<Rightarrow> nat" where
  "byte_at bs i = (if i < length bs then bs ! i else 0)"

definition utf8_step :: "nat list \<Rightarrow> nat \<times> bool" where
  "utf8_step bs = utf8_class (byte_at bs 0) (byte_at bs 1) (byte_at bs 2) (byte_at bs 3)"

lemma utf8_step_pos: "0 < fst (utf8_step bs)"
  by (simp add: utf8_step_def utf8_class_def)

function utf8_lossy :: "nat list \<Rightarrow> nat list" where
  "utf8_lossy bs =
     (if bs = [] then []
      else (if snd (utf8_step bs) then take (fst (utf8_step bs)) bs else [239, 191, 189])
           @ utf8_lossy (drop (fst (utf8_step bs)) bs))"
  by pat_completeness auto
termination
  by (relation "measure length") (simp_all add: utf8_step_pos)

function is_utf8 :: "nat list \<Rightarrow> bool" where
  "is_utf8 bs =
     (if bs = [] then True
      else if snd (utf8_step bs) then is_utf8 (drop (fst (utf8_step bs)) bs) else False)"
  by pat_completeness auto
termination
  by (relation "measure length") (simp_all add: utf8_step_pos)

declare utf8_lossy.simps [simp del] is_utf8.simps [simp del]

lemma utf8_class_agree:
  "utf8_class a b c d = (n, True) \<Longrightarrow> (2 \<le> n \<longrightarrow> b' = b) \<Longrightarrow> (3 \<le> n \<longrightarrow> c' = c) \<Longrightarrow>
     (4 \<le> n \<longrightarrow> d' = d) \<Longrightarrow> utf8_class a b' c' d' = (n, True)"
  by (auto simp: utf8_class_def split: if_split_asm)

lemma utf8_class_cont:
  "utf8_class a b c d = (n, True) \<Longrightarrow>
     n \<le> 4 \<and> (2 \<le> n \<longrightarrow> is_cont_code b) \<and> (3 \<le> n \<longrightarrow> is_cont_code c) \<and> (4 \<le> n \<longrightarrow> is_cont_code d)"
  by (auto simp: utf8_class_def split: if_split_asm)

lemma byte_at_cont: "is_cont_code (byte_at bs i) \<Longrightarrow> i < length bs"
  by (auto simp: byte_at_def is_cont_code_def split: if_splits)

lemma byte_at_append: "i < length bs \<Longrightarrow> byte_at (bs @ cs) i = byte_at bs i"
  by (simp add: byte_at_def nth_append)

lemma utf8_step_append:
  assumes "bs \<noteq> []" "utf8_step bs = (n, True)"
  shows "utf8_step (bs @ cs) = (n, True)" "n \<le> length bs"
proof -
  have c: "utf8_class (byte_at bs 0) (byte_at bs 1) (byte_at bs 2) (byte_at bs 3) = (n, True)"
    using assms(2) by (simp add: utf8_step_def)
  note k = utf8_class_cont [OF c]
  have l: "2 \<le> n \<longrightarrow> 1 < length bs" "3 \<le> n \<longrightarrow> 2 < length bs" "4 \<le> n \<longrightarrow> 3 < length bs"
    using k byte_at_cont by blast+
  then show "utf8_step (bs @ cs) = (n, True)"
    using assms(1) utf8_class_agree [OF c] by (simp add: utf8_step_def byte_at_append)
  have "Suc 0 \<le> length bs" using assms(1) by (simp add: Suc_le_eq)
  moreover have "n = 0 \<or> n = 1 \<or> n = 2 \<or> n = 3 \<or> n = 4" using k by linarith
  ultimately show "n \<le> length bs" using l by auto
qed

lemma utf8_step_ascii: "a < 128 \<Longrightarrow> utf8_step (a # r) = (1, True)"
  by (simp add: utf8_step_def utf8_class_def byte_at_def)

definition from_utf8_lossy :: "bytes \<Rightarrow> string" where
  "from_utf8_lossy bs = map char_of (utf8_lossy (map unat bs))"

definition from_utf8 :: "bytes \<Rightarrow> string option" where
  "from_utf8 bs = (if is_utf8 (map unat bs) then Some (str_of bs) else None)"

definition valid_str :: "string \<Rightarrow> bool" where
  "valid_str s \<longleftrightarrow> is_utf8 (map of_char s)"

lemma utf8_lossy_valid: "is_utf8 bs \<Longrightarrow> utf8_lossy bs = bs"
proof (induction bs rule: is_utf8.induct)
  case (1 bs)
  then show ?case
    by (cases "bs = []"; cases "snd (utf8_step bs)")
       (simp_all add: utf8_lossy.simps [of bs] utf8_lossy.simps [of "[]"] is_utf8.simps [of bs])
qed

lemma map_unat_as_bytes: "map unat (as_bytes s) = map of_char s"
proof -
  have "unat (byte_of c) = of_char c" for c
    using char_code_lt [of c] by (simp add: byte_of_def unat_of_nat)
  then show ?thesis by (simp add: as_bytes_def)
qed

lemma from_utf8_lossy_as_bytes: "valid_str s \<Longrightarrow> from_utf8_lossy (as_bytes s) = s"
  by (simp add: from_utf8_lossy_def valid_str_def map_unat_as_bytes utf8_lossy_valid comp_def)

lemma from_utf8_as_bytes: "valid_str s \<Longrightarrow> from_utf8 (as_bytes s) = Some s"
  by (simp add: from_utf8_def valid_str_def map_unat_as_bytes)

lemma is_utf8_ascii: "\<forall>b \<in> set bs. b < 128 \<Longrightarrow> is_utf8 bs"
proof (induction bs)
  case Nil
  then show ?case by (simp add: is_utf8.simps [of "[]"])
next
  case (Cons b bs)
  then show ?case by (subst is_utf8.simps) (simp add: utf8_step_ascii)
qed

lemma valid_str_ascii: "list_all is_ascii s \<Longrightarrow> valid_str s"
  unfolding valid_str_def by (rule is_utf8_ascii) (simp add: is_ascii_def list_all_iff)

lemma is_utf8_append: "is_utf8 bs \<Longrightarrow> is_utf8 cs \<Longrightarrow> is_utf8 (bs @ cs)"
proof (induction bs rule: is_utf8.induct)
  case (1 bs)
  show ?case
  proof (cases "bs = []")
    case False
    obtain n valid where st: "utf8_step bs = (n, valid)" by (cases "utf8_step bs")
    with "1.prems"(1) False have v: "valid" "is_utf8 (drop n bs)"
      by (simp_all add: is_utf8.simps [of bs] split: if_splits)
    have "utf8_step (bs @ cs) = (n, True)" "n \<le> length bs"
      using utf8_step_append [of bs n] False st v(1) by simp_all
    moreover have "is_utf8 (drop n bs @ cs)"
      using "1.IH" False st v "1.prems"(2) by simp
    ultimately show ?thesis using False by (simp add: is_utf8.simps [of "bs @ cs"])
  qed (simp add: 1)
qed

lemma valid_str_append: "valid_str s \<Longrightarrow> valid_str t \<Longrightarrow> valid_str (s @ t)"
  by (simp add: valid_str_def is_utf8_append)

lemma valid_str_Nil [simp]: "valid_str []"
  by (simp add: valid_str_ascii)

lemma valid_str_join:
  "list_all is_ascii sep \<Longrightarrow> list_all valid_str xs \<Longrightarrow> valid_str (join_with sep xs)"
  by (induction sep xs rule: join_with.induct) (simp_all add: valid_str_append valid_str_ascii)

text \<open>\<open>str::lines\<close>: split after each newline, drop the newline and a carriage return before it.\<close>

definition strip_cr :: "string \<Rightarrow> string" where
  "strip_cr s = (if s \<noteq> [] \<and> last s = CHR 13 then butlast s else s)"

definition str_lines :: "string \<Rightarrow> string list" where
  "str_lines s =
     (let ls = split_on (CHR 10) s
      in map strip_cr (butlast ls) @ (if last ls = [] then [] else [last ls]))"

section \<open>Searching\<close>

text \<open>\<open>find\<close>, \<open>contains\<close> and \<open>replace\<close> with a non-empty pattern, \<open>split\<close> at a two-character
  separator, \<open>split_whitespace\<close>.\<close>

fun find_from :: "'a list \<Rightarrow> nat \<Rightarrow> 'a list \<Rightarrow> nat option" where
  "find_from pat i [] = None"
| "find_from pat i (x # xs) =
     (if take (length pat) (x # xs) = pat then Some i else find_from pat (i + 1) xs)"

definition str_contains :: "string \<Rightarrow> string \<Rightarrow> bool" where
  "str_contains s pat \<longleftrightarrow> find_from pat 0 s \<noteq> None"

function replace_all :: "'a list \<Rightarrow> 'a list \<Rightarrow> 'a list \<Rightarrow> 'a list" where
  "replace_all pat to [] = []"
| "replace_all pat to (x # xs) =
     (if pat \<noteq> [] \<and> take (length pat) (x # xs) = pat then to @ replace_all pat to (drop (length pat) (x # xs))
      else x # replace_all pat to xs)"
  by pat_completeness auto
termination
  by (relation "measure (\<lambda>(pat, to, xs). length xs)") auto

fun split_on2 :: "'a \<Rightarrow> 'a \<Rightarrow> 'a list \<Rightarrow> 'a list list" where
  "split_on2 a b [] = [[]]"
| "split_on2 a b [x] = [[x]]"
| "split_on2 a b (x # y # xs) =
     (if x = a \<and> y = b then [] # split_on2 a b xs
      else (x # hd (split_on2 a b (y # xs))) # tl (split_on2 a b (y # xs)))"

fun split_any :: "('a \<Rightarrow> bool) \<Rightarrow> 'a list \<Rightarrow> 'a list list" where
  "split_any P [] = [[]]"
| "split_any P (x # xs) =
     (if P x then [] # split_any P xs else (x # hd (split_any P xs)) # tl (split_any P xs))"

lemma split_on2_nonempty [simp]: "split_on2 a b xs \<noteq> []"
  by (induction a b xs rule: split_on2.induct) auto

lemma split_any_nonempty [simp]: "split_any P xs \<noteq> []"
  by (induction xs) auto

lemma split_on2_code [code]:
  "split_on2 a b [] = [[]]"
  "split_on2 a b [x] = [[x]]"
  "split_on2 a b (x # y # xs) =
     (if x = a \<and> y = b then [] # split_on2 a b xs
      else case split_on2 a b (y # xs) of p # ps \<Rightarrow> (x # p) # ps | [] \<Rightarrow> [])"
  using split_on2_nonempty [of a b "y # xs"] by (simp_all split: list.split)

lemma split_any_code [code]:
  "split_any P [] = [[]]"
  "split_any P (x # xs) =
     (case split_any P xs of p # ps \<Rightarrow> if P x then [] # p # ps else (x # p) # ps | [] \<Rightarrow> [])"
  using split_any_nonempty [of P xs] by (simp_all split: list.split)

function ws_words :: "nat list \<Rightarrow> nat list \<Rightarrow> nat list list" where
  "ws_words acc bs =
     (if bs = [] then (if acc = [] then [] else [rev acc])
      else if 0 < ws_head bs
      then (if acc = [] then [] else [rev acc]) @ ws_words [] (drop (ws_head bs) bs)
      else ws_words (hd bs # acc) (tl bs))"
  by pat_completeness auto
termination
  by (relation "measure (\<lambda>(acc, bs). length bs)") (auto simp: length_greater_0_conv [symmetric] simp del: length_greater_0_conv)

declare ws_words.simps [simp del]

definition split_whitespace :: "string \<Rightarrow> string list" where
  "split_whitespace s = map (map char_of) (ws_words [] (map of_char s))"

definition nth_opt :: "'a list \<Rightarrow> nat \<Rightarrow> 'a option" where
  "nth_opt xs n = (if n < length xs then Some (xs ! n) else None)"

section \<open>Hash maps\<close>

definition fm_retain :: "('k \<Rightarrow> 'v \<Rightarrow> bool) \<Rightarrow> ('k, 'v) fmap \<Rightarrow> ('k, 'v) fmap" where
  "fm_retain P m =
     fmfilter (\<lambda>k. case fmlookup m k of Some v \<Rightarrow> P k v | None \<Rightarrow> False) m"

definition fm_len :: "('k, 'v) fmap \<Rightarrow> nat" where
  "fm_len m = fcard (fmdom m)"

lemma fm_retain_lookup [lookup_simps, simp]:
  "fmlookup (fm_retain P m) k =
     (case fmlookup m k of None \<Rightarrow> None | Some v \<Rightarrow> if P k v then Some v else None)"
  by (simp add: fm_retain_def split: option.splits)

lemma fm_retain_retain:
  "fm_retain P (fm_retain Q m) = fm_retain (\<lambda>k v. P k v \<and> Q k v) m"
  by (rule fmap_ext) (simp split: option.splits)

lemma fm_retain_cong:
  "(\<And>k v. fmlookup m k = Some v \<Longrightarrow> P k v = Q k v) \<Longrightarrow> fm_retain P m = fm_retain Q m"
  by (rule fmap_ext) (simp split: option.splits)

lemma fm_retain_upd:
  "fm_retain P (fmupd k v m) = (if P k v then fmupd k v (fm_retain P m) else fmdrop k (fm_retain P m))"
  by (rule fmap_ext) (auto split: option.splits)

lemma fm_retain_empty [simp]: "fm_retain P fmempty = fmempty"
  by (rule fmap_ext) simp

lemma fm_len_empty [simp]: "fm_len fmempty = 0"
  by (simp add: fm_len_def)

lemma fm_len_0_iff: "fm_len m = 0 \<longleftrightarrow> m = fmempty"
proof -
  have "fm_len m = 0 \<longleftrightarrow> fmdom m = {||}"
    unfolding fm_len_def by (metis fcard_0_eq)
  also have "\<dots> \<longleftrightarrow> m = fmempty" by (metis fmdom_empty fmdrop_fset_fmdom fmdrop_fset_null)
  finally show ?thesis .
qed

lemma fm_len_retain_le: "fm_len (fm_retain P m) \<le> fm_len m"
  unfolding fm_len_def by (rule fcard_mono) (auto simp: fmlookup_dom_iff split: option.splits)

section \<open>Clocks and signed integers\<close>

text \<open>\<open>duration_since(UNIX_EPOCH).unwrap_or_default().as_secs()\<close>.\<close>

definition unix_secs :: "system_time \<Rightarrow> u64" where
  "unix_secs now = (if now < 0 then 0 else of_int (now div 10 ^ 9))"

text \<open>\<open>i64\<close> is a 64-bit word read with \<open>sint\<close>; \<open>as\<close> between \<open>u64\<close> and \<open>i64\<close> keeps the bits.\<close>

definition clamp_i64 :: "int \<Rightarrow> i64" where
  "clamp_i64 x = of_int (max (- (2 ^ 63)) (min (2 ^ 63 - 1) x))"

definition saturating_sub_i64 :: "i64 \<Rightarrow> i64 \<Rightarrow> i64" where
  "saturating_sub_i64 a b = clamp_i64 (sint a - sint b)"

definition saturating_abs_i64 :: "i64 \<Rightarrow> i64" where
  "saturating_abs_i64 a = clamp_i64 \<bar>sint a\<bar>"

definition show_i64 :: "i64 \<Rightarrow> string" where
  "show_i64 a = (if sint a < 0 then CHR ''-'' # show_nat (nat (- sint a)) else show_nat (nat (sint a)))"

lemma sint_clamp_i64: "sint (clamp_i64 x) = max (- (2 ^ 63)) (min (2 ^ 63 - 1) x)"
  unfolding clamp_i64_def by (simp add: signed_of_int signed_take_bit_int_eq_self)

lemma sint_i64_bounds: "- (2 ^ 63) \<le> sint (a :: i64)" "sint (a :: i64) < 2 ^ 63"
  using sint_ge [of a] sint_lt [of a] by simp_all

lemma sint_u64: "sint (a :: 64 word) = (if unat a < 2 ^ 63 then int (unat a) else int (unat a) - 2 ^ 64)"
proof -
  have b: "uint a < 2 ^ 64" "0 \<le> uint a" "int (unat a) = uint a"
    using unsigned_less [of a, where 'a = int] by simp_all
  have s: "sint a = signed_take_bit 63 (uint a)"
    unfolding sint_uint [of a] by (simp only: len_bit0 len_num1) simp
  show ?thesis
  proof (cases "uint a < 2 ^ 63")
    case True
    then have "sint a = uint a"
      unfolding s using b(2) by (intro signed_take_bit_int_eq_self) linarith+
    moreover have "unat a < 2 ^ 63" using True unfolding b(3) [symmetric] by (simp del: of_nat_unat)
    ultimately show ?thesis using b(3) by simp
  next
    case False
    have "signed_take_bit 63 (uint a) = signed_take_bit 63 (uint a - 2 ^ 64)"
      by (rule signed_take_bit_eq_iff_take_bit_eq [THEN iffD2]) (simp add: take_bit_eq_mod)
    also have "\<dots> = uint a - 2 ^ 64"
      using False b(1) by (intro signed_take_bit_int_eq_self) simp_all
    finally have "sint a = uint a - 2 ^ 64" unfolding s .
    moreover have "\<not> unat a < 2 ^ 63" using False unfolding b(3) [symmetric] by (simp del: of_nat_unat)
    ultimately show ?thesis using b(3) by simp
  qed
qed

end
