(* ===== verification/NLink_Caps.thy ===== *)
theory NLink_Caps
  imports Rust_Std
begin

unbundle bit_operations_syntax

text \<open>
  NLink capability negotiation (\<open>common/src/nlink/mod.rs\<close>): the capability bitmap, the two
  switches (compiled in / enabled at run time), the acknowledgement echoed in \<open>LoginResp\<close>
  and the parser of feature names. \<open>cfg!(feature = "nlink")\<close> is the boolean argument of
  \<open>compiled_caps\<close>.
\<close>

definition PROTOCOL_VERSION :: u8 where "PROTOCOL_VERSION = 1"
definition MAGIC :: bytes where "MAGIC = as_bytes ''NFRPLNK1''"
definition V2_FRAME_TYPE :: u16 where "V2_FRAME_TYPE = 0x4E"
definition V1_TYPE_BYTE :: u8 where "V1_TYPE_BYTE = 0x7F"

definition CAP_QUIC :: u64 where "CAP_QUIC = 2 ^ 0"
definition CAP_QUIC_MIGRATION :: u64 where "CAP_QUIC_MIGRATION = 2 ^ 1"
definition CAP_NAT_ADAPTIVE :: u64 where "CAP_NAT_ADAPTIVE = 2 ^ 2"
definition CAP_IDENTITY :: u64 where "CAP_IDENTITY = 2 ^ 3"
definition CAP_RATE_LIMIT :: u64 where "CAP_RATE_LIMIT = 2 ^ 4"
definition CAP_TRACE :: u64 where "CAP_TRACE = 2 ^ 5"
definition CAP_BATCH_WORK :: u64 where "CAP_BATCH_WORK = 2 ^ 6"
definition CAP_RESUME :: u64 where "CAP_RESUME = 2 ^ 7"
definition CAP_PORT_KNOCK :: u64 where "CAP_PORT_KNOCK = 2 ^ 8"
definition CAP_XTCP_POLICY :: u64 where "CAP_XTCP_POLICY = 2 ^ 9"
definition CAP_COMPAT_PROBE :: u64 where "CAP_COMPAT_PROBE = 2 ^ 10"

lemmas cap_bit_defs = CAP_QUIC_def CAP_QUIC_MIGRATION_def CAP_NAT_ADAPTIVE_def CAP_IDENTITY_def
  CAP_RATE_LIMIT_def CAP_TRACE_def CAP_BATCH_WORK_def CAP_RESUME_def CAP_PORT_KNOCK_def
  CAP_XTCP_POLICY_def CAP_COMPAT_PROBE_def

definition ALL_CAPS :: u64 where
  "ALL_CAPS = CAP_QUIC OR CAP_QUIC_MIGRATION OR CAP_NAT_ADAPTIVE OR CAP_IDENTITY
     OR CAP_RATE_LIMIT OR CAP_TRACE OR CAP_BATCH_WORK OR CAP_RESUME OR CAP_PORT_KNOCK
     OR CAP_XTCP_POLICY OR CAP_COMPAT_PROBE"

definition FLAG_ENABLED :: u8 where "FLAG_ENABLED = 2 ^ 0"
definition FLAG_RESUME :: u8 where "FLAG_RESUME = 2 ^ 1"
definition FLAG_QUIC :: u8 where "FLAG_QUIC = 2 ^ 2"

datatype caps = Caps (bits: u64)

definition CAPS_EMPTY :: caps where "CAPS_EMPTY = Caps 0"
definition CAPS_ALL :: caps where "CAPS_ALL = Caps ALL_CAPS"

definition caps_new :: "u64 \<Rightarrow> caps" where "caps_new b = Caps (b AND ALL_CAPS)"

definition caps_contains :: "caps \<Rightarrow> u64 \<Rightarrow> bool" where
  "caps_contains c b \<longleftrightarrow> bits c AND b \<noteq> 0"

definition caps_any :: "caps \<Rightarrow> bool" where "caps_any c \<longleftrightarrow> bits c \<noteq> 0"

definition caps_agree :: "caps \<Rightarrow> caps \<Rightarrow> caps \<Rightarrow> caps" where
  "caps_agree ours theirs enabled = Caps (bits ours AND bits theirs AND bits enabled)"

definition cap_table :: "(u64 \<times> string) list" where
  "cap_table =
     [(CAP_QUIC, ''quic''), (CAP_QUIC_MIGRATION, ''quic-migration''),
      (CAP_NAT_ADAPTIVE, ''nat-adaptive''), (CAP_IDENTITY, ''identity''),
      (CAP_RATE_LIMIT, ''rate-limit''), (CAP_TRACE, ''trace''),
      (CAP_BATCH_WORK, ''batch-work-conn''), (CAP_RESUME, ''resume''),
      (CAP_PORT_KNOCK, ''port-knock''), (CAP_XTCP_POLICY, ''xtcp-policy''),
      (CAP_COMPAT_PROBE, ''compat-probe'')]"

definition caps_names :: "caps \<Rightarrow> string list" where
  "caps_names c = map snd (filter (\<lambda>(b, _). caps_contains c b) cap_table)"

definition caps_display :: "caps \<Rightarrow> string" where
  "caps_display c =
     (let ns = caps_names c in if ns = [] then ''none'' else join_with '','' ns)"

record feature_set =
  compiled :: caps
  enabled :: caps

definition fs_active :: "feature_set \<Rightarrow> caps" where
  "fs_active f = Caps (bits (compiled f) AND bits (enabled f))"

definition fs_agree :: "feature_set \<Rightarrow> caps \<Rightarrow> caps" where
  "fs_agree f theirs = caps_agree (compiled f) theirs (enabled f)"

definition compiled_caps :: "bool \<Rightarrow> caps" where
  "compiled_caps nlink = (if nlink then CAPS_ALL else CAPS_EMPTY)"

record login_ack =
  ack_version :: u8
  ack_caps :: u64
  ack_trace_id :: string
  ack_session :: string

definition login_ack_caps :: "login_ack \<Rightarrow> caps" where
  "login_ack_caps a = caps_new (ack_caps a)"

definition feature_table :: "(string \<times> u64) list" where
  "feature_table =
     [(''quic'', CAP_QUIC), (''quic-migration'', CAP_QUIC_MIGRATION),
      (''nat-adaptive'', CAP_NAT_ADAPTIVE), (''identity'', CAP_IDENTITY),
      (''rate-limit'', CAP_RATE_LIMIT), (''trace'', CAP_TRACE),
      (''batch-work-conn'', CAP_BATCH_WORK), (''resume'', CAP_RESUME),
      (''port-knock'', CAP_PORT_KNOCK), (''xtcp-policy'', CAP_XTCP_POLICY),
      (''compat-probe'', CAP_COMPAT_PROBE), (''all'', ALL_CAPS)]"

fun parse_features_loop :: "string list \<Rightarrow> u64 \<Rightarrow> string list \<Rightarrow> u64 \<times> string list" where
  "parse_features_loop [] b unknown = (b, unknown)"
| "parse_features_loop (name # names) b unknown =
     (case find (\<lambda>(n, _). n = trim name) feature_table of
        Some (_, f) \<Rightarrow> parse_features_loop names (b OR f) unknown
      | None \<Rightarrow> parse_features_loop names b (unknown @ [name]))"

definition parse_features :: "string list \<Rightarrow> caps \<times> string list" where
  "parse_features names =
     (let (b, unknown) = parse_features_loop names 0 [] in (Caps (b AND ALL_CAPS), unknown))"

section \<open>Lemmas\<close>

lemma caps_contains_pow: "caps_contains c (2 ^ n) \<longleftrightarrow> bit (bits c) n"
proof -
  have "bits c AND 2 ^ n = (if bit (bits c) n then 2 ^ n else 0)"
    by (rule bit_eqI) (auto simp: bit_simps)
  moreover have "(2 :: u64) ^ n = 0 \<Longrightarrow> \<not> bit (bits c) n"
    by (metis bit_imp_le_length exp_eq_zero_iff not_le)
  ultimately show ?thesis by (auto simp: caps_contains_def)
qed

text \<open>What one name contributes to the bitmap.\<close>

definition feature_bits :: "string \<Rightarrow> u64 option" where
  "feature_bits name = map_option snd (find (\<lambda>(n, _). n = trim name) feature_table)"

lemma parse_features_loop_eq:
  "parse_features_loop names b unknown =
     (foldl (OR) b (List.map_filter feature_bits names),
      unknown @ filter (\<lambda>n. feature_bits n = None) names)"
  by (induction names arbitrary: b unknown)
     (auto simp: feature_bits_def List.map_filter_simps split: option.splits)

lemma foldl_or_bit: "bit (foldl (OR) (b :: u64) xs) n \<longleftrightarrow> bit b n \<or> (\<exists>x \<in> set xs. bit x n)"
  by (induction xs arbitrary: b) (auto simp: bit_or_iff)

lemma set_map_filter: "set (List.map_filter f xs) = {y. \<exists>x \<in> set xs. f x = Some y}"
  by (force simp: List.map_filter_def)

lemma parse_features_bit:
  "bit (bits (fst (parse_features names))) n \<longleftrightarrow>
     bit ALL_CAPS n \<and> (\<exists>nm \<in> set names. \<exists>f. feature_bits nm = Some f \<and> bit f n)"
  by (auto simp: parse_features_def parse_features_loop_eq bit_and_iff foldl_or_bit
      set_map_filter)

lemma parse_features_unknown:
  "snd (parse_features names) = filter (\<lambda>n. feature_bits n = None) names"
  by (simp add: parse_features_def parse_features_loop_eq)

lemma ALL_CAPS_bit: "bit ALL_CAPS n \<longleftrightarrow> n \<le> 10"
proof -
  have "ALL_CAPS = mask 11" by (simp add: ALL_CAPS_def cap_bit_defs mask_eq_exp_minus_1)
  moreover have "bit (mask 11 :: u64) n \<longleftrightarrow> n < 11" by (simp add: bit_mask_iff) linarith
  ultimately show ?thesis by simp linarith
qed

lemma feature_bits_tight:
  "tight nm \<Longrightarrow> feature_bits nm = map_of feature_table nm"
  by (simp add: feature_bits_def trim_tight feature_table_def)

lemma cap_table_index:
  "list_all (\<lambda>i. fst (cap_table ! i) = 2 ^ i \<and> feature_bits (snd (cap_table ! i)) = Some (2 ^ i))
     [0..<11]"
  by (simp add: upt_rec cap_table_def cap_bit_defs feature_bits_tight tight_def graphic_def
      feature_table_def)

lemma cap_table_nth:
  "i \<le> 10 \<Longrightarrow> fst (cap_table ! i) = 2 ^ i \<and> feature_bits (snd (cap_table ! i)) = Some (2 ^ i)"
  using cap_table_index by (auto simp: list_all_iff)

lemma length_cap_table: "length cap_table = 11"
  by (simp add: cap_table_def)

lemma cap_table_iff:
  "(b, nm) \<in> set cap_table \<longleftrightarrow> (\<exists>i \<le> 10. b = 2 ^ i \<and> nm = snd (cap_table ! i))"
proof
  assume "(b, nm) \<in> set cap_table"
  then obtain i where "i < 11" "cap_table ! i = (b, nm)"
    by (auto simp: in_set_conv_nth length_cap_table)
  then show "\<exists>i \<le> 10. b = 2 ^ i \<and> nm = snd (cap_table ! i)"
    using cap_table_nth [of i] by (intro exI [of _ i]) auto
next
  assume "\<exists>i \<le> 10. b = 2 ^ i \<and> nm = snd (cap_table ! i)"
  then obtain i where "i \<le> 10" "b = 2 ^ i" "nm = snd (cap_table ! i)" by blast
  then have "cap_table ! i = (b, nm)" "i < length cap_table"
    using cap_table_nth [of i] by (auto simp: length_cap_table prod_eq_iff)
  then show "(b, nm) \<in> set cap_table" by (metis nth_mem)
qed

lemma caps_names_iff:
  "nm \<in> set (caps_names c) \<longleftrightarrow> (\<exists>i \<le> 10. nm = snd (cap_table ! i) \<and> bit (bits c) i)"
proof -
  have "nm \<in> set (caps_names c) \<longleftrightarrow> (\<exists>b. (b, nm) \<in> set cap_table \<and> caps_contains c b)"
    by (force simp: caps_names_def)
  then show ?thesis by (auto simp: cap_table_iff caps_contains_pow)
qed

lemma caps_names_feature_bits:
  "nm \<in> set (caps_names c) \<Longrightarrow> \<exists>i \<le> 10. feature_bits nm = Some (2 ^ i) \<and> bit (bits c) i"
  using cap_table_nth by (auto simp: caps_names_iff)

lemma caps_names_known: "nm \<in> set (caps_names c) \<Longrightarrow> feature_bits nm \<noteq> None"
  using caps_names_feature_bits by force

section \<open>Properties\<close>

text \<open>Rendering a capability set as names and parsing the names back yields the set,
  with no name unknown; on any bitmap the round trip keeps exactly the known bits.\<close>

theorem parse_features_names: "parse_features (caps_names c) = (caps_new (bits c), [])"
proof -
  have "bit (bits (fst (parse_features (caps_names c)))) n = bit (bits (caps_new (bits c))) n" for n
  proof -
    have "bit (bits (fst (parse_features (caps_names c)))) n \<longleftrightarrow> n \<le> 10 \<and> bit (bits c) n"
    proof
      assume "bit (bits (fst (parse_features (caps_names c)))) n"
      then obtain nm f where n: "n \<le> 10" and f: "nm \<in> set (caps_names c)"
        "feature_bits nm = Some f" "bit f n"
        by (auto simp: parse_features_bit ALL_CAPS_bit)
      from caps_names_feature_bits [OF f(1)] f(2,3) n show "n \<le> 10 \<and> bit (bits c) n"
        by (auto simp: bit_simps)
    next
      assume n: "n \<le> 10 \<and> bit (bits c) n"
      then have "snd (cap_table ! n) \<in> set (caps_names c)" by (auto simp: caps_names_iff)
      moreover have "bit ((2 :: u64) ^ n) n" using n by (auto simp: bit_simps)
      ultimately show "bit (bits (fst (parse_features (caps_names c)))) n"
        using n cap_table_nth [of n] by (auto simp: parse_features_bit ALL_CAPS_bit)
    qed
    then show ?thesis by (simp add: caps_new_def bit_and_iff ALL_CAPS_bit conj_commute)
  qed
  then have "bits (fst (parse_features (caps_names c))) = bits (caps_new (bits c))"
    by (rule bit_eqI)
  then have "fst (parse_features (caps_names c)) = caps_new (bits c)"
    by (rule caps.expand)
  moreover have "snd (parse_features (caps_names c)) = []"
    by (auto simp: parse_features_unknown filter_empty_conv dest: caps_names_known)
  ultimately show ?thesis by (simp add: prod_eq_iff)
qed

text \<open>A capability is agreed exactly when it is compiled in, enabled locally and declared
  by the peer; without the crate feature nothing is ever agreed, and nothing is agreed with a
  peer that declares nothing.\<close>

theorem fs_agree_exact:
  "(caps_contains (fs_agree f theirs) (2 ^ n) \<longleftrightarrow>
      caps_contains (compiled f) (2 ^ n) \<and> caps_contains (enabled f) (2 ^ n)
      \<and> caps_contains theirs (2 ^ n))
   \<and> \<not> caps_any (fs_agree (f\<lparr>compiled := compiled_caps False\<rparr>) theirs)
   \<and> \<not> caps_any (fs_agree f CAPS_EMPTY)"
  by (auto simp: caps_contains_pow fs_agree_def caps_agree_def bit_and_iff caps_any_def
      compiled_caps_def CAPS_EMPTY_def)

end
