(* ===== verification/NLink_Ids.thy ===== *)
theory NLink_Ids
  imports Rust_Std "HOL-Library.List_Lexorder"
begin

unbundle bit_operations_syntax

text \<open>
  Connection and trace identifiers (\<open>common/src/nlink/session.rs\<close>, first part) and the
  hexadecimal helpers of the same file. Slicing a \<open>str\<close> off a character boundary panics in
  Rust; the parsers below return that as \<open>Inl CharBoundary\<close>.
\<close>

datatype panic = CharBoundary | IndexOutOfBounds | ArithmeticOverflow

datatype connection_id = ConnectionId (cid_bytes: bytes)
datatype trace_id = TraceId (trace_bytes: bytes)

text \<open>The derived \<open>Ord\<close> of the newtype is the lexicographic order of its bytes.\<close>

instantiation connection_id :: linorder
begin

definition less_eq_connection_id :: "connection_id \<Rightarrow> connection_id \<Rightarrow> bool" where
  "less_eq_connection_id a b \<longleftrightarrow> cid_bytes a \<le> cid_bytes b"

definition less_connection_id :: "connection_id \<Rightarrow> connection_id \<Rightarrow> bool" where
  "less_connection_id a b \<longleftrightarrow> cid_bytes a < cid_bytes b"

instance
  by standard
     (auto simp: less_eq_connection_id_def less_connection_id_def connection_id.expand)

end

text \<open>\<open>random\<close> with the sixteen bytes of the generator as its argument.\<close>

definition connection_id_random :: "bytes \<Rightarrow> connection_id" where
  "connection_id_random b =
     ConnectionId ((b[6 := (b ! 6 AND 0x0f) OR 0x40])[8 := (b ! 8 AND 0x3f) OR 0x80])"

definition trace_id_random :: "bytes \<Rightarrow> trace_id" where
  "trace_id_random b = TraceId (cid_bytes (connection_id_random b))"

definition hex :: "bytes \<Rightarrow> string" where
  "hex b = concat (map hex_byte b)"

definition connection_id_to_hex :: "connection_id \<Rightarrow> string" where
  "connection_id_to_hex c = concat (map hex_byte (cid_bytes c))"

definition trace_id_to_hex :: "trace_id \<Rightarrow> string" where
  "trace_id_to_hex t = concat (map hex_byte (trace_bytes t))"

text \<open>The pairs of digits from index \<open>i\<close> on; a digit pair that does not parse ends the loop.\<close>

fun hex_pairs :: "string \<Rightarrow> nat \<Rightarrow> nat \<Rightarrow> panic + bytes option" where
  "hex_pairs s i 0 = Inr (Some [])"
| "hex_pairs s i (Suc k) =
     (case str_slice s (i * 2) (i * 2 + 2) of
        None \<Rightarrow> Inl CharBoundary
      | Some d \<Rightarrow>
          (case from_str_radix (2 ^ 8) 16 d of
             None \<Rightarrow> Inr None
           | Some v \<Rightarrow>
               (case hex_pairs s (Suc i) k of
                  Inl p \<Rightarrow> Inl p
                | Inr None \<Rightarrow> Inr None
                | Inr (Some vs) \<Rightarrow> Inr (Some (of_nat v # vs)))))"

definition unhex :: "string \<Rightarrow> panic + bytes option" where
  "unhex s = (if length s mod 2 \<noteq> 0 then Inr None else hex_pairs s 0 (length s div 2))"

definition trace_id_parse :: "string \<Rightarrow> panic + trace_id option" where
  "trace_id_parse s =
     (let clean = filter (\<lambda>c. c \<noteq> CHR ''-'') s in
      if length clean \<noteq> 32 then Inr None
      else case hex_pairs clean 0 16 of
             Inl p \<Rightarrow> Inl p
           | Inr None \<Rightarrow> Inr None
           | Inr (Some out) \<Rightarrow> Inr (Some (TraceId out)))"

section \<open>Lemmas\<close>

lemma length_hex_byte [simp]: "length (hex_byte b) = 2"
  by (simp add: hex_byte_def)

lemma length_hex [simp]: "length (hex b) = 2 * length b"
  by (induction b) (auto simp: hex_def)

lemma hex_append: "hex (a @ b) = hex a @ hex b"
  by (simp add: hex_def)

lemma hex_byte_digits: "\<exists>d e. d < 16 \<and> e < 16 \<and> hex_byte b = [digit_char d, digit_char e]"
proof -
  have "unat b < 256" by (rule byte_lt)
  then have "unat b div 16 < 16" "unat b mod 16 < 16" by auto
  then show ?thesis unfolding hex_byte_def by blast
qed

lemma hex_chars: "c \<in> set (hex b) \<Longrightarrow> \<exists>d < 16. c = digit_char d"
proof (induction b)
  case Nil
  then show ?case by (simp add: hex_def)
next
  case (Cons x b)
  obtain d e where "d < 16" "e < 16" "hex_byte x = [digit_char d, digit_char e]"
    using hex_byte_digits by blast
  with Cons show ?case by (auto simp: hex_def)
qed

lemma hex_ascii: "list_all is_ascii (hex b)"
  by (auto simp: list_all_iff dest!: hex_chars intro: digit_char_ascii)

lemma hex_no_low: "(of_char c :: nat) < 48 \<Longrightarrow> c \<notin> set (hex b)"
  using hex_chars digit_char_neq by blast

lemma hex_pairs_hex:
  "hex_pairs (hex (pre @ b)) (length pre) (length b) = Inr (Some b)"
proof (induction b arbitrary: pre)
  case Nil
  then show ?case by simp
next
  case (Cons x b)
  let ?s = "hex (pre @ x # b)"
  have s: "?s = hex pre @ hex_byte x @ hex b" by (simp add: hex_def)
  have "is_char_boundary ?s (length pre * 2)" "is_char_boundary ?s (length pre * 2 + 2)"
    by (rule ascii_boundary [OF hex_ascii], simp)+
  moreover have "take 2 (drop (length pre * 2) ?s) = hex_byte x"
    by (simp add: s mult.commute)
  ultimately have "str_slice ?s (length pre * 2) (length pre * 2 + 2) = Some (hex_byte x)"
    by (simp add: str_slice_def)
  moreover have "hex_pairs ?s (Suc (length pre)) (length b) = Inr (Some b)"
    using Cons.IH [of "pre @ [x]"] by simp
  ultimately show ?case using from_str_radix_hex_byte [of x] by simp
qed

lemma unhex_hex: "unhex (hex b) = Inr (Some b)"
  using hex_pairs_hex [of "[]" b] by (simp add: unhex_def)

lemma hex_pairs_length: "hex_pairs s i k = Inr (Some vs) \<Longrightarrow> length vs = k"
  by (induction s i k arbitrary: vs rule: hex_pairs.induct)
     (auto split: option.splits sum.splits)

lemma hex_pairs_ascii_no_panic:
  "list_all is_ascii s \<Longrightarrow> (i + k) * 2 \<le> length s \<Longrightarrow> hex_pairs s i k \<noteq> Inl p"
proof (induction k arbitrary: i)
  case 0
  then show ?case by simp
next
  case (Suc k)
  have "is_char_boundary s (i * 2)" "is_char_boundary s (i * 2 + 2)"
    using Suc.prems by (auto intro: ascii_boundary)
  then have "str_slice s (i * 2) (i * 2 + 2) \<noteq> None" by (simp add: str_slice_def)
  with Suc show ?case by (auto split: option.splits sum.splits)
qed

section \<open>Properties\<close>

text \<open>An identifier written as hexadecimal, with or without the dashes of the UUID form,
  parses back to itself.\<close>

theorem trace_id_parse_to_hex:
  assumes "length b = 16" and "filter (\<lambda>c. c \<noteq> CHR ''-'') s = trace_id_to_hex (TraceId b)"
  shows "trace_id_parse s = Inr (Some (TraceId b))"
proof -
  have "trace_id_to_hex (TraceId b) = hex b" by (simp add: trace_id_to_hex_def hex_def)
  with assms hex_pairs_hex [of "[]" b] show ?thesis by (simp add: trace_id_parse_def)
qed

theorem trace_id_parse_to_hex_witness:
  "trace_id_parse ''00000000-0000-0000-0000-0000000000ff'' = Inr (Some (TraceId (replicate 15 0 @ [255])))"
proof (rule trace_id_parse_to_hex)
  show "length (replicate 15 (0 :: u8) @ [255]) = 16" by simp
  show "filter (\<lambda>c. c \<noteq> CHR ''-'') ''00000000-0000-0000-0000-0000000000ff''
    = trace_id_to_hex (TraceId (replicate 15 0 @ [255]))" by code_simp
qed

text \<open>The hexadecimal decoder used on tokens received from the network panics on some
  input of even byte length that holds a multi-byte character, although it returns an
  \<open>Option\<close>; on ASCII input it never panics.\<close>

theorem unhex_panics_only_off_ascii:
  "unhex [CHR ''0'', CHR 0xC3, CHR 0xA9, CHR ''0''] = Inl CharBoundary
   \<and> (list_all is_ascii s \<longrightarrow> (\<forall>p. unhex s \<noteq> Inl p))"
proof
  show "unhex [CHR ''0'', CHR 0xC3, CHR 0xA9, CHR ''0''] = Inl CharBoundary" by code_simp
  show "list_all is_ascii s \<longrightarrow> (\<forall>p. unhex s \<noteq> Inl p)"
    using hex_pairs_ascii_no_panic [of s 0 "length s div 2"] by (simp add: unhex_def)
qed

theorem unhex_panics_only_off_ascii_witness:
  "list_all is_ascii ''0aFg'' \<and> (\<forall>p. unhex ''0aFg'' \<noteq> Inl p)"
  using unhex_panics_only_off_ascii [of "''0aFg''"] by (simp add: is_ascii_def)

end
