(* ===== verification/Codec.thy ===== *)
theory Codec
  imports Rust_Std
begin

text \<open>
  Interfaces shared by the wire formats.

  \<^item> \<open>prefix_codec\<close>: a self-delimiting encoding, with a decoder that consumes exactly one
    item; a stream of items decodes to the items, and no encoding is a proper prefix of
    another.
  \<^item> \<open>u8_enum\<close>: a fieldless Rust \<open>enum\<close> with \<open>as_u8\<close> and a partial \<open>from_u8\<close>.
\<close>

section \<open>Self-delimiting encodings\<close>

text \<open>Decode items until the buffer is empty; a decoder that consumes nothing is stopped.\<close>

function decode_many :: "(bytes \<Rightarrow> 'e + 'a \<times> bytes) \<Rightarrow> bytes \<Rightarrow> 'e + 'a list" where
  "decode_many dec bs =
     (if bs = [] then Inr []
      else case dec bs of
             Inl e \<Rightarrow> Inl e
           | Inr (x, rest) \<Rightarrow>
               (if length rest < length bs
                then case decode_many dec rest of Inl e \<Rightarrow> Inl e | Inr xs \<Rightarrow> Inr (x # xs)
                else Inr [x]))"
  by pat_completeness auto
termination
  by (relation "measure (\<lambda>(dec, bs). length bs)") auto

declare decode_many.simps [simp del]

lemma decode_many_Nil [simp]: "decode_many dec [] = Inr []"
  by (simp add: decode_many.simps)

locale prefix_codec =
  fixes enc :: "'a \<Rightarrow> bytes"
    and dec :: "bytes \<Rightarrow> 'e + 'a \<times> bytes"
    and ok :: "'a \<Rightarrow> bool"
  assumes dec_enc: "ok x \<Longrightarrow> dec (enc x @ rest) = Inr (x, rest)"
    and enc_nonempty: "ok x \<Longrightarrow> enc x \<noteq> []"
begin

lemma prefix_free: "ok x \<Longrightarrow> ok y \<Longrightarrow> enc x @ r = enc y @ s \<Longrightarrow> x = y \<and> r = s"
  by (metis Inr_inject dec_enc prod.inject)

lemma enc_inj: "ok x \<Longrightarrow> ok y \<Longrightarrow> enc x = enc y \<Longrightarrow> x = y"
  using prefix_free [of x y "[]" "[]"] by simp

lemma decode_many_cons:
  "ok x \<Longrightarrow> decode_many dec (enc x @ rest) =
     (case decode_many dec rest of Inl e \<Rightarrow> Inl e | Inr xs \<Rightarrow> Inr (x # xs))"
  using dec_enc [of x rest] enc_nonempty [of x]
  by (subst decode_many.simps) auto

lemma decode_many_stream: "list_all ok xs \<Longrightarrow> decode_many dec (concat (map enc xs)) = Inr xs"
  by (induction xs) (auto simp: decode_many_cons)

lemma stream_inj:
  "list_all ok xs \<Longrightarrow> list_all ok ys \<Longrightarrow> concat (map enc xs) = concat (map enc ys) \<Longrightarrow> xs = ys"
  by (metis Inr_inject decode_many_stream)

end

section \<open>Numbered enumerations\<close>

locale u8_enum =
  fixes as_u8 :: "'k \<Rightarrow> u8"
    and from_u8 :: "u8 \<Rightarrow> 'k option"
  assumes from_as: "from_u8 (as_u8 k) = Some k"
    and as_from: "from_u8 v = Some k \<Longrightarrow> as_u8 k = v"
begin

lemma as_u8_inj: "as_u8 k = as_u8 k' \<longleftrightarrow> k = k'"
  by (metis from_as option.inject)

lemma from_u8_iff: "from_u8 v = Some k \<longleftrightarrow> v = as_u8 k"
  using as_from from_as by auto

lemma from_u8_None: "from_u8 v = None \<longleftrightarrow> v \<notin> range as_u8"
  by (metis from_u8_iff not_None_eq rangeE rangeI)

end

end
