(* ===== verification/NLink_Frame.thy ===== *)
theory NLink_Frame
  imports NLink_Caps NLink_Ids Codec
begin

text \<open>
  NLink extension frames (\<open>common/src/nlink/frame.rs\<close>): TLV lists, the frame header, the
  preamble, and the splitting and reassembly of a \<open>ResumeCommit\<close> name list. The byte
  positions of the Rust loops are kept; \<open>tlv_item_dec\<close> is the specification they refine.
\<close>

datatype frame_error =
    TlvValueTooLong
  | TlvHeaderShort nat
  | TlvLenOverrun nat nat
  | FrameHeaderShort nat
  | PreambleShort nat
  | PreambleTlvOverrun nat
  | CommitTotalZero
  | CommitTooManyChunks u16
  | CommitIndexOutOfRange u16 u16
  | CommitOverBudget nat
  | FramePanic panic

definition MAX_FRAME :: nat where "MAX_FRAME = 8192"

definition TAG_BASE :: u16 where "TAG_BASE = 0x4E00"
definition TAG_DETAIL :: u16 where "TAG_DETAIL = TAG_BASE + 17"
definition TAG_CHUNK :: u16 where "TAG_CHUNK = TAG_BASE + 19"
definition TAG_CHUNKS :: u16 where "TAG_CHUNKS = TAG_BASE + 20"
definition TAG_RESUME_TOKEN :: u16 where "TAG_RESUME_TOKEN = TAG_BASE + 21"
definition TAG_TRACE_ID :: u16 where "TAG_TRACE_ID = TAG_BASE + 1"

definition COMMIT_CHUNK_BUDGET :: nat where
  "COMMIT_CHUNK_BUDGET = MAX_FRAME - 4 - (6 + 2) * 2 - 6 - 16"

definition MAX_COMMIT_BYTES :: nat where "MAX_COMMIT_BYTES = 8 * 1024 * 1024"

definition MAX_COMMIT_CHUNKS :: u16 where
  "MAX_COMMIT_CHUNKS =
     (let n = (MAX_COMMIT_BYTES + COMMIT_CHUNK_BUDGET - 1) div COMMIT_CHUNK_BUDGET
      in if n > 65535 then 65535 else of_nat n)"

section \<open>TLV lists\<close>

record tlv =
  tlv_tag :: u16
  tlv_value :: bytes

type_synonym tlv_map = "tlv list"

definition tlv_push :: "tlv_map \<Rightarrow> u16 \<Rightarrow> bytes \<Rightarrow> tlv_map" where
  "tlv_push m t v = m @ [\<lparr>tlv_tag = t, tlv_value = v\<rparr>]"

definition tlv_push_u32 :: "tlv_map \<Rightarrow> u16 \<Rightarrow> u32 \<Rightarrow> tlv_map" where
  "tlv_push_u32 m t v = tlv_push m t (be32 v)"

definition tlv_push_u64 :: "tlv_map \<Rightarrow> u16 \<Rightarrow> u64 \<Rightarrow> tlv_map" where
  "tlv_push_u64 m t v = tlv_push m t (be64 v)"

definition tlv_get :: "tlv_map \<Rightarrow> u16 \<Rightarrow> bytes option" where
  "tlv_get m t = map_option tlv_value (find (\<lambda>x. tlv_tag x = t) m)"

text \<open>\<open>v.get(..n)\<close>: the first \<open>n\<close> bytes, if there are that many.\<close>

definition get_prefix :: "nat \<Rightarrow> bytes \<Rightarrow> bytes option" where
  "get_prefix n v = (if n \<le> length v then Some (take n v) else None)"

definition tlv_get_u32 :: "tlv_map \<Rightarrow> u16 \<Rightarrow> u32 option" where
  "tlv_get_u32 m t = map_option get32 (Option.bind (tlv_get m t) (get_prefix 4))"

definition tlv_get_u64 :: "tlv_map \<Rightarrow> u16 \<Rightarrow> u64 option" where
  "tlv_get_u64 m t = map_option get64 (Option.bind (tlv_get m t) (get_prefix 8))"

definition tlv_len :: "tlv_map \<Rightarrow> nat" where "tlv_len m = length m"
definition tlv_is_empty :: "tlv_map \<Rightarrow> bool" where "tlv_is_empty m \<longleftrightarrow> m = []"

text \<open>\<open>encode_into\<close> appends to its buffer and stops at a value it cannot describe.\<close>

fun tlv_encode_into :: "tlv_map \<Rightarrow> bytes \<Rightarrow> bytes \<times> (frame_error + unit)" where
  "tlv_encode_into [] out = (out, Inr ())"
| "tlv_encode_into (x # xs) out =
     (if length (tlv_value x) > 2 ^ 32 - 1 then (out, Inl TlvValueTooLong)
      else tlv_encode_into xs
        (out @ be16 (tlv_tag x) @ be32 (of_nat (length (tlv_value x))) @ tlv_value x))"

function tlv_decode_from :: "bytes \<Rightarrow> nat \<Rightarrow> tlv_map \<Rightarrow> frame_error + tlv_map" where
  "tlv_decode_from buf pos m =
     (if pos < length buf then
        if length buf - pos < 6 then Inl (TlvHeaderShort (length buf - pos))
        else
          let t = get16 [buf ! pos, buf ! (pos + 1)];
              len = unat (get32 [buf ! (pos + 2), buf ! (pos + 3), buf ! (pos + 4), buf ! (pos + 5)]);
              pos = pos + 6
          in if length buf - pos < len then Inl (TlvLenOverrun len (length buf - pos))
             else tlv_decode_from buf (pos + len)
                    (m @ [\<lparr>tlv_tag = t, tlv_value = take len (drop pos buf)\<rparr>])
      else Inr m)"
  by pat_completeness auto
termination
  by (relation "measure (\<lambda>(buf, pos, m). length buf - pos)") auto

declare tlv_decode_from.simps [simp del]

definition tlv_decode_all :: "bytes \<Rightarrow> nat \<Rightarrow> frame_error + tlv_map" where
  "tlv_decode_all buf pos = tlv_decode_from buf pos []"

definition commit_chunk_info :: "tlv_map \<Rightarrow> (u16 \<times> u16) option" where
  "commit_chunk_info m =
     (case map_option get16 (Option.bind (tlv_get m TAG_CHUNK) (get_prefix 2)) of
        None \<Rightarrow> None
      | Some idx \<Rightarrow>
          (case map_option get16 (Option.bind (tlv_get m TAG_CHUNKS) (get_prefix 2)) of
             None \<Rightarrow> None
           | Some tot \<Rightarrow> Some (idx, tot)))"

section \<open>Frames\<close>

datatype frame_kind =
    Trace | Knock | BatchReq | BatchResp | ResumeReq | ResumeResp | Identity | RateLimit
  | NatProbe | NatResult | XtcpPolicyFrame | Failure | CompatProbe | CompatResp | ResumeCommit

fun frame_kind_as_u8 :: "frame_kind \<Rightarrow> u8" where
  "frame_kind_as_u8 Trace = 1"
| "frame_kind_as_u8 Knock = 2"
| "frame_kind_as_u8 BatchReq = 3"
| "frame_kind_as_u8 BatchResp = 4"
| "frame_kind_as_u8 ResumeReq = 5"
| "frame_kind_as_u8 ResumeResp = 6"
| "frame_kind_as_u8 Identity = 7"
| "frame_kind_as_u8 RateLimit = 8"
| "frame_kind_as_u8 NatProbe = 9"
| "frame_kind_as_u8 NatResult = 10"
| "frame_kind_as_u8 XtcpPolicyFrame = 11"
| "frame_kind_as_u8 Failure = 12"
| "frame_kind_as_u8 CompatProbe = 13"
| "frame_kind_as_u8 CompatResp = 14"
| "frame_kind_as_u8 ResumeCommit = 15"

definition frame_kind_from_u8 :: "u8 \<Rightarrow> frame_kind option" where
  "frame_kind_from_u8 v =
     (if v = 1 then Some Trace else if v = 2 then Some Knock
      else if v = 3 then Some BatchReq else if v = 4 then Some BatchResp
      else if v = 5 then Some ResumeReq else if v = 6 then Some ResumeResp
      else if v = 7 then Some Identity else if v = 8 then Some RateLimit
      else if v = 9 then Some NatProbe else if v = 10 then Some NatResult
      else if v = 11 then Some XtcpPolicyFrame else if v = 12 then Some Failure
      else if v = 13 then Some CompatProbe else if v = 14 then Some CompatResp
      else if v = 15 then Some ResumeCommit else None)"

record frame =
  frame_kind :: frame_kind
  frame_flags :: u16
  frame_tlvs :: tlv_map

datatype 'a decoded = Known 'a | Unknown (unknown_version: u8) (unknown_kind: u8)

definition frame_new :: "frame_kind \<Rightarrow> frame" where
  "frame_new k = \<lparr>frame_kind = k, frame_flags = 0, frame_tlvs = []\<rparr>"

definition frame_with :: "frame \<Rightarrow> u16 \<Rightarrow> bytes \<Rightarrow> frame" where
  "frame_with f t v = f\<lparr>frame_tlvs := tlv_push (frame_tlvs f) t v\<rparr>"

definition frame_encode :: "frame \<Rightarrow> bytes" where
  "frame_encode f =
     fst (tlv_encode_into (frame_tlvs f)
       ([PROTOCOL_VERSION, frame_kind_as_u8 (frame_kind f)] @ be16 (frame_flags f)))"

definition frame_decode :: "bytes \<Rightarrow> frame_error + frame decoded" where
  "frame_decode buf =
     (if length buf < 4 then Inl (FrameHeaderShort (length buf))
      else
        let version = buf ! 0; kind = buf ! 1; flags = get16 [buf ! 2, buf ! 3] in
        if version \<noteq> PROTOCOL_VERSION then Inr (Unknown version kind)
        else case frame_kind_from_u8 kind of
               None \<Rightarrow> Inr (Unknown version kind)
             | Some k \<Rightarrow>
                 res_bind (tlv_decode_all buf 4)
                   (\<lambda>tlvs. Inr (Known \<lparr>frame_kind = k, frame_flags = flags, frame_tlvs = tlvs\<rparr>)))"

section \<open>Preamble\<close>

record preamble =
  pre_version :: u8
  pre_caps :: caps
  pre_flags :: u8
  pre_session :: connection_id
  pre_tlvs :: tlv_map

definition PREAMBLE_FIXED :: nat where "PREAMBLE_FIXED = 36"

definition preamble_new :: "caps \<Rightarrow> connection_id \<Rightarrow> preamble" where
  "preamble_new c s =
     \<lparr>pre_version = PROTOCOL_VERSION, pre_caps = c, pre_flags = FLAG_ENABLED,
      pre_session = s, pre_tlvs = []\<rparr>"

definition preamble_encode :: "preamble \<Rightarrow> bytes" where
  "preamble_encode p =
     (let body = fst (tlv_encode_into (pre_tlvs p) [])
      in MAGIC @ [pre_version p] @ be64 (bits (pre_caps p)) @ [pre_flags p]
         @ cid_bytes (pre_session p) @ be16 (of_nat (length body)) @ body)"

definition preamble_decode_after_magic :: "bytes \<Rightarrow> frame_error + preamble" where
  "preamble_decode_after_magic buf =
     (if length buf < PREAMBLE_FIXED - 8 then Inl (PreambleShort (length buf))
      else
        let version = buf ! 0;
            c = get64 [buf ! 1, buf ! 2, buf ! 3, buf ! 4, buf ! 5, buf ! 6, buf ! 7, buf ! 8];
            flags = buf ! 9;
            sid = take 16 (drop 10 buf);
            tlv_len = unat (get16 [buf ! 26, buf ! 27])
        in if length buf < 28 + tlv_len then Inl (PreambleTlvOverrun tlv_len)
           else res_bind (tlv_decode_all (take tlv_len (drop 28 buf)) 0)
                  (\<lambda>tlvs. Inr \<lparr>pre_version = version, pre_caps = caps_new c, pre_flags = flags,
                               pre_session = ConnectionId sid, pre_tlvs = tlvs\<rparr>))"

definition preamble_enabled :: "preamble \<Rightarrow> bool" where
  "preamble_enabled p \<longleftrightarrow> pre_flags p AND FLAG_ENABLED \<noteq> 0"

definition preamble_wants_resume :: "preamble \<Rightarrow> bool" where
  "preamble_wants_resume p \<longleftrightarrow> pre_flags p AND FLAG_RESUME \<noteq> 0"

definition preamble_wants_quic :: "preamble \<Rightarrow> bool" where
  "preamble_wants_quic p \<longleftrightarrow> pre_flags p AND FLAG_QUIC \<noteq> 0"

section \<open>Lemmas: TLV items\<close>

text \<open>One item on the wire, and the decoder of one item at the head of a buffer.\<close>

definition tlv_item_enc :: "tlv \<Rightarrow> bytes" where
  "tlv_item_enc x = be16 (tlv_tag x) @ be32 (of_nat (length (tlv_value x))) @ tlv_value x"

definition tlv_item_dec :: "bytes \<Rightarrow> frame_error + tlv \<times> bytes" where
  "tlv_item_dec bs =
     (if length bs < 6 then Inl (TlvHeaderShort (length bs))
      else let len = unat (get32 (take 4 (drop 2 bs))); body = drop 6 bs in
        if length body < len then Inl (TlvLenOverrun len (length body))
        else Inr (\<lparr>tlv_tag = get16 (take 2 bs), tlv_value = take len body\<rparr>, drop len body))"

definition tlv_ok :: "tlv \<Rightarrow> bool" where
  "tlv_ok x \<longleftrightarrow> length (tlv_value x) < 2 ^ 32"

interpretation tlv_codec: prefix_codec tlv_item_enc tlv_item_dec tlv_ok
proof
  fix x rest
  assume ok: "tlv_ok x"
  then have "unat (of_nat (length (tlv_value x)) :: u32) = length (tlv_value x)"
    by (simp add: tlv_ok_def unat_of_nat)
  then show "tlv_item_dec (tlv_item_enc x @ rest) = Inr (x, rest)"
    by (simp add: tlv_item_dec_def tlv_item_enc_def)
next
  fix x
  show "tlv_item_enc x \<noteq> []" by (simp add: tlv_item_enc_def)
qed

interpretation frame_kind: u8_enum frame_kind_as_u8 frame_kind_from_u8
proof
  fix k
  show "frame_kind_from_u8 (frame_kind_as_u8 k) = Some k"
    by (cases k) (simp_all add: frame_kind_from_u8_def)
next
  fix v k
  show "frame_kind_from_u8 v = Some k \<Longrightarrow> frame_kind_as_u8 k = v"
    by (auto simp: frame_kind_from_u8_def split: if_splits)
qed

lemma tlv_encode_into_ok:
  "list_all tlv_ok m \<Longrightarrow> tlv_encode_into m out = (out @ concat (map tlv_item_enc m), Inr ())"
  by (induction m arbitrary: out) (auto simp: tlv_ok_def tlv_item_enc_def)

lemma take_two: "pos + 2 \<le> length buf \<Longrightarrow> take 2 (drop pos buf) = [buf ! pos, buf ! (pos + 1)]"
  by (simp add: numeral_2_eq_2 take_Suc_conv_app_nth drop_Suc nth_tl tl_drop hd_drop_conv_nth
      Cons_nth_drop_Suc [symmetric])

lemma take_four:
  "pos + 4 \<le> length buf \<Longrightarrow>
     take 4 (drop pos buf) = [buf ! pos, buf ! (pos + 1), buf ! (pos + 2), buf ! (pos + 3)]"
proof -
  assume a: "pos + 4 \<le> length buf"
  have "take 4 (drop pos buf) = take 2 (drop pos buf) @ take 2 (drop (pos + 2) buf)"
    using take_add [of 2 2 "drop pos buf"] by (simp add: add.commute)
  also have "take 2 (drop pos buf) = [buf ! pos, buf ! (pos + 1)]"
    using a by (intro take_two) simp
  also have "take 2 (drop (pos + 2) buf) = [buf ! (pos + 2), buf ! (pos + 2 + 1)]"
    using a by (intro take_two) simp
  finally show ?thesis by (simp add: eval_nat_numeral)
qed

text \<open>One turn of the position loop is one item decoded at the head of the rest.\<close>

lemma tlv_decode_from_step:
  "tlv_decode_from buf pos m =
     (if drop pos buf = [] then Inr m
      else case tlv_item_dec (drop pos buf) of
             Inl e \<Rightarrow> Inl e
           | Inr (x, rest) \<Rightarrow> tlv_decode_from buf (length buf - length rest) (m @ [x]))"
proof (cases "pos < length buf \<and> \<not> length buf - pos < 6")
  case False
  then show ?thesis
    by (cases "pos < length buf")
       (simp_all add: tlv_decode_from.simps [of buf pos m] tlv_item_dec_def)
next
  case guards: True
  then have True: "pos < length buf \<and> \<not> length buf - pos < 6" "pos + 6 \<le> length buf" by auto
  let ?bs = "drop pos buf"
  define t where "t = get16 (take 2 ?bs)"
  define len where "len = unat (get32 (take 4 (drop 2 ?bs)))"
  have t: "get16 [buf ! pos, buf ! (pos + 1)] = t"
    unfolding t_def using True by (subst take_two) auto
  have "take 4 (drop 2 ?bs) = take 4 (drop (pos + 2) buf)" by (simp add: add.commute)
  also have "\<dots> = [buf ! (pos + 2), buf ! (pos + 2 + 1), buf ! (pos + 2 + 2), buf ! (pos + 2 + 3)]"
    using True by (intro take_four) simp
  also have "\<dots> = [buf ! (pos + 2), buf ! (pos + 3), buf ! (pos + 4), buf ! (pos + 5)]"
    by (simp add: eval_nat_numeral)
  finally have len:
    "unat (get32 [buf ! (pos + 2), buf ! (pos + 3), buf ! (pos + 4), buf ! (pos + 5)]) = len"
    by (simp only: len_def)
  have drop6: "drop 6 ?bs = drop (pos + 6) buf" by (simp add: add.commute)
  have ne: "?bs \<noteq> []" "\<not> length ?bs < 6" using True by auto
  have lhs: "tlv_decode_from buf pos m =
     (if length buf - (pos + 6) < len then Inl (TlvLenOverrun len (length buf - (pos + 6)))
      else tlv_decode_from buf (pos + 6 + len)
             (m @ [\<lparr>tlv_tag = t, tlv_value = take len (drop (pos + 6) buf)\<rparr>]))"
    unfolding tlv_decode_from.simps [of buf pos m] t len Let_def using True by (simp only: if_True if_False)
  have rhs: "tlv_item_dec ?bs =
     (if length buf - (pos + 6) < len then Inl (TlvLenOverrun len (length buf - (pos + 6)))
      else Inr (\<lparr>tlv_tag = t, tlv_value = take len (drop (pos + 6) buf)\<rparr>,
                drop len (drop (pos + 6) buf)))"
    unfolding tlv_item_dec_def Let_def len_def [symmetric] t_def [symmetric] drop6 length_drop
    using True by simp
  show ?thesis
  proof (cases "length buf - (pos + 6) < len")
    case True
    with lhs rhs ne show ?thesis by simp
  next
    case False
    with True have "length buf - length (drop len (drop (pos + 6) buf)) = pos + 6 + len" by simp
    with lhs rhs ne False show ?thesis by (simp add: add.commute add.left_commute)
  qed
qed

lemma tlv_item_dec_rest:
  "tlv_item_dec bs = Inr (x, rest) \<Longrightarrow>
     length rest < length bs \<and> rest = drop (length bs - length rest) bs"
  by (auto simp: tlv_item_dec_def Let_def split: if_splits)

text \<open>The position loop is the generic stream decoder over the item decoder.\<close>

lemma tlv_decode_from_spec:
  "pos \<le> length buf \<Longrightarrow> tlv_decode_from buf pos m =
     (case decode_many tlv_item_dec (drop pos buf) of Inl e \<Rightarrow> Inl e | Inr xs \<Rightarrow> Inr (m @ xs))"
proof (induction "length buf - pos" arbitrary: pos m rule: less_induct)
  case less
  let ?bs = "drop pos buf"
  show ?case
  proof (cases "?bs = []")
    case True
    then show ?thesis by (subst tlv_decode_from_step) simp
  next
    case ne: False
    show ?thesis
    proof (cases "tlv_item_dec ?bs")
      case (Inl e)
      with ne show ?thesis by (subst tlv_decode_from_step) (simp add: decode_many.simps [of _ ?bs])
    next
      case (Inr p)
      obtain x rest where p: "p = (x, rest)" by (cases p)
      with Inr have r: "length rest < length ?bs" "rest = drop (length ?bs - length rest) ?bs"
        using tlv_item_dec_rest by blast+
      let ?pos = "length buf - length rest"
      have pos: "length buf - ?pos < length buf - pos" "?pos \<le> length buf" using r(1) by auto
      have rest: "rest = drop ?pos buf"
      proof -
        have "length buf - pos - length rest + pos = ?pos" using r(1) by simp
        with r(2) show ?thesis by simp
      qed
      have "tlv_decode_from buf pos m = tlv_decode_from buf ?pos (m @ [x])"
        using ne Inr p by (subst tlv_decode_from_step) simp
      also have "\<dots> = (case decode_many tlv_item_dec rest of
          Inl e \<Rightarrow> Inl e | Inr xs \<Rightarrow> Inr ((m @ [x]) @ xs))"
        using less.hyps [OF pos] rest by simp
      also have "\<dots> = (case decode_many tlv_item_dec ?bs of Inl e \<Rightarrow> Inl e | Inr xs \<Rightarrow> Inr (m @ xs))"
        using ne Inr p r(1) by (simp add: decode_many.simps [of _ ?bs] split: sum.splits)
      finally show ?thesis .
    qed
  qed
qed

lemma tlv_decode_all_spec:
  "pos \<le> length buf \<Longrightarrow> tlv_decode_all buf pos = decode_many tlv_item_dec (drop pos buf)"
  by (simp add: tlv_decode_all_def tlv_decode_from_spec split: sum.splits)

lemma tlv_roundtrip:
  "list_all tlv_ok m \<Longrightarrow>
     tlv_decode_all (pre @ fst (tlv_encode_into m [])) (length pre) = Inr m"
  by (simp add: tlv_decode_all_spec tlv_encode_into_ok tlv_codec.decode_many_stream)

lemma tlv_encode_into_prefix:
  "list_all tlv_ok m \<Longrightarrow> fst (tlv_encode_into m out) = out @ fst (tlv_encode_into m [])"
  by (simp add: tlv_encode_into_ok)

lemma tlv_get_push: "tlv_get (tlv_push m t v) t' =
  (case tlv_get m t' of Some w \<Rightarrow> Some w | None \<Rightarrow> if t = t' then Some v else None)"
  by (induction m) (auto simp: tlv_get_def tlv_push_def)

lemma tlv_get_Nil [simp]: "tlv_get [] t = None"
  by (simp add: tlv_get_def)

lemma frame_with_simps [simp]:
  "frame_kind (frame_with f t v) = frame_kind f"
  "frame_flags (frame_with f t v) = frame_flags f"
  "frame_tlvs (frame_with f t v) = tlv_push (frame_tlvs f) t v"
  "frame_kind (frame_new k) = k" "frame_tlvs (frame_new k) = []" "frame_flags (frame_new k) = 0"
  by (simp_all add: frame_with_def frame_new_def)

section \<open>Properties\<close>

definition frame_ok :: "frame \<Rightarrow> bool" where
  "frame_ok f \<longleftrightarrow> list_all tlv_ok (frame_tlvs f)"

text \<open>Every frame whose values have lengths that fit the 32-bit length field decodes to
  itself, whatever its kind, flags, number of items and repeated tags.\<close>

theorem frame_roundtrip: "frame_ok f \<Longrightarrow> frame_decode (frame_encode f) = Inr (Known f)"
proof -
  assume ok: "frame_ok f"
  let ?body = "fst (tlv_encode_into (frame_tlvs f) [])"
  obtain a b where ab: "be16 (frame_flags f) = [a, b]"
    using be16_split by blast
  define h where "h = [PROTOCOL_VERSION, frame_kind_as_u8 (frame_kind f), a, b]"
  have buf: "frame_encode f = h @ ?body"
    using ok by (simp add: h_def frame_encode_def frame_ok_def tlv_encode_into_ok ab)
  have h: "length h = 4" "h ! 0 = PROTOCOL_VERSION" "h ! 1 = frame_kind_as_u8 (frame_kind f)"
    "h ! 2 = a" "h ! 3 = b" by (simp_all add: h_def)
  have tlvs: "tlv_decode_all (h @ ?body) 4 = Inr (frame_tlvs f)"
    using ok tlv_roundtrip [of "frame_tlvs f" h] h(1) by (simp add: frame_ok_def)
  have nths: "(h @ ?body) ! 0 = PROTOCOL_VERSION" "(h @ ?body) ! 1 = frame_kind_as_u8 (frame_kind f)"
    "(h @ ?body) ! 2 = a" "(h @ ?body) ! 3 = b" "\<not> length (h @ ?body) < 4"
    using h by (simp_all add: nth_append)
  have flags: "get16 [a, b] = frame_flags f" using get_be(1) [of "frame_flags f"] ab by simp
  have "frame_decode (h @ ?body) = Inr (Known f)"
    unfolding frame_decode_def Let_def nths flags tlvs frame_kind.from_as
    using nths(5) by simp
  then show ?thesis by (simp add: buf)
qed

theorem frame_roundtrip_witness:
  "frame_decode (frame_encode (frame_with (frame_new ResumeCommit) TAG_DETAIL (as_bytes ''web'')))
     = Inr (Known (frame_with (frame_new ResumeCommit) TAG_DETAIL (as_bytes ''web'')))"
  by (rule frame_roundtrip) (simp add: frame_ok_def tlv_push_def tlv_ok_def)

text \<open>Forward compatibility. A frame of another protocol version, or of a kind this version
  does not define, is never an error: it is reported as unknown, whatever follows the header.\<close>

theorem frame_decode_forward_compatible:
  assumes "4 \<le> length buf"
    and "buf ! 0 \<noteq> PROTOCOL_VERSION \<or> buf ! 1 \<notin> range frame_kind_as_u8"
  shows "frame_decode buf = Inr (Unknown (buf ! 0) (buf ! 1))"
  using assms frame_kind.from_u8_None [of "buf ! 1"] by (auto simp: frame_decode_def Let_def)

theorem frame_decode_forward_compatible_witness:
  "frame_decode [1, 99, 0, 0, 255, 255] = Inr (Unknown 1 99)"
proof -
  have "(99 :: u8) \<notin> range frame_kind_as_u8"
    using frame_kind.from_u8_None [of 99] by (simp add: frame_kind_from_u8_def)
  then show ?thesis
    using frame_decode_forward_compatible [of "[1, 99, 0, 0, 255, 255]"] by simp
qed

text \<open>The preamble round trip. What follows the magic decodes to the preamble that was
  encoded, with unknown capability bits dropped, and bytes after it are left alone.\<close>

theorem preamble_roundtrip:
  assumes "list_all tlv_ok (pre_tlvs p)"
    and "length (fst (tlv_encode_into (pre_tlvs p) [])) < 2 ^ 16"
    and "length (cid_bytes (pre_session p)) = 16"
  shows "preamble_decode_after_magic (drop 8 (preamble_encode p) @ rest)
           = Inr (p\<lparr>pre_caps := caps_new (bits (pre_caps p))\<rparr>)
         \<and> take 8 (preamble_encode p) = MAGIC"
proof -
  let ?body = "fst (tlv_encode_into (pre_tlvs p) [])"
  let ?sid = "cid_bytes (pre_session p)"
  let ?caps = "be64 (bits (pre_caps p))" and ?len = "be16 (of_nat (length ?body))"
  have magic: "length MAGIC = 8" by (simp add: MAGIC_def)
  let ?buf = "[pre_version p] @ ?caps @ [pre_flags p] @ ?sid @ ?len @ ?body @ rest"
  have buf: "drop 8 (preamble_encode p) @ rest = ?buf"
    using magic by (simp add: preamble_encode_def Let_def)
  obtain c1 c2 c3 c4 c5 c6 c7 c8 where c: "?caps = [c1, c2, c3, c4, c5, c6, c7, c8]"
    using be64_split by blast
  obtain l1 l2 where l: "?len = [l1, l2]"
    using be16_split by blast
  obtain s where s: "?sid = s" "length s = 16" using assms(3) by simp
  have nth26: "?buf ! 26 = l1" "?buf ! 27 = l2"
    using s by (simp_all add: c l nth_append)
  have len: "unat (get16 [l1, l2]) = length ?body"
    using assms(2) get_be(1) [of "of_nat (length ?body)"] l by (simp add: unat_of_nat)
  have caps: "get64 [c1, c2, c3, c4, c5, c6, c7, c8] = bits (pre_caps p)"
    using get_be(3) [of "bits (pre_caps p)"] c by simp
  have sid: "take 16 (drop 10 ?buf) = s" using s by (simp add: c)
  have tl: "take (length ?body) (drop 28 ?buf) = ?body" using s by (simp add: c l)
  have tlvs: "tlv_decode_all ?body 0 = Inr (pre_tlvs p)"
    using tlv_roundtrip [OF assms(1), of "[]"] by simp
  have lenbuf: "length ?buf = 28 + length ?body + length rest" using s by (simp add: c l)
  have nths: "?buf ! 0 = pre_version p" "?buf ! 9 = pre_flags p"
    "[?buf ! 1, ?buf ! 2, ?buf ! 3, ?buf ! 4, ?buf ! 5, ?buf ! 6, ?buf ! 7, ?buf ! 8]
       = [c1, c2, c3, c4, c5, c6, c7, c8]"
    by (simp_all add: c)
  have "preamble_decode_after_magic ?buf = Inr (p\<lparr>pre_caps := caps_new (bits (pre_caps p))\<rparr>)"
    unfolding preamble_decode_after_magic_def Let_def nths nth26 sid len caps tl tlvs lenbuf
    using s by (cases p) (auto simp: PREAMBLE_FIXED_def)
  with buf magic show ?thesis by (simp add: preamble_encode_def Let_def)
qed

theorem preamble_roundtrip_witness:
  "preamble_decode_after_magic
     (drop 8 (preamble_encode (preamble_new CAPS_ALL (ConnectionId (replicate 16 7)))) @ [123])
   = Inr ((preamble_new CAPS_ALL (ConnectionId (replicate 16 7)))\<lparr>pre_caps := caps_new ALL_CAPS\<rparr>)"
  using preamble_roundtrip [of "preamble_new CAPS_ALL (ConnectionId (replicate 16 7))" "[123]"]
  by (simp add: preamble_new_def CAPS_ALL_def)

end
