(* ===== verification/NLink_Commit.thy ===== *)
theory NLink_Commit
  imports NLink_Frame
begin

text \<open>
  The \<open>ResumeCommit\<close> exchange (\<open>common/src/nlink/frame.rs\<close>, \<open>split_commit_names\<close>,
  \<open>encode_resume_commit\<close> and \<open>CommitAssembler\<close>, and the frame handling of the control loop
  in \<open>server/src/serve.rs\<close>): the client cuts its list of proxy names into frames, the server
  puts the pieces together.
\<close>

section \<open>Splitting\<close>

fun split_commit_loop ::
  "nat \<Rightarrow> string list \<Rightarrow> string list list \<Rightarrow> string list \<Rightarrow> nat \<Rightarrow> string list list" where
  "split_commit_loop budget [] out cur cur_len = (if cur \<noteq> [] then out @ [cur] else out)"
| "split_commit_loop budget (name # names) out cur cur_len =
     (let add = length name + (if cur = [] then 0 else 1) in
      if cur \<noteq> [] \<and> cur_len + add > budget
      then split_commit_loop budget names (out @ [cur]) [name] (length name)
      else split_commit_loop budget names out (cur @ [name]) (cur_len + add))"

definition split_commit_names :: "string list \<Rightarrow> nat \<Rightarrow> string list list" where
  "split_commit_names names budget = split_commit_loop (max budget 1) names [] [] 0"

definition newline :: string where "newline = [CHR 10]"

definition encode_resume_commit :: "string list \<Rightarrow> frame list" where
  "encode_resume_commit names =
     (let chunks = split_commit_names names COMMIT_CHUNK_BUDGET in
      if chunks = [] then [frame_with (frame_new ResumeCommit) TAG_DETAIL []]
      else if length chunks = 1 then
        [frame_with (frame_new ResumeCommit) TAG_DETAIL (as_bytes (join_with newline (chunks ! 0)))]
      else
        let tot = (of_nat (length chunks) :: u16) in
        map (\<lambda>(i, part).
               frame_with (frame_with (frame_with (frame_new ResumeCommit)
                 TAG_DETAIL (as_bytes (join_with newline part)))
                 TAG_CHUNK (be16 (of_nat i)))
                 TAG_CHUNKS (be16 tot))
            (enumerate 0 chunks))"

section \<open>Reassembly\<close>

record commit_assembler =
  ca_total :: u16
  ca_parts :: "string list option list"
  ca_received :: u16
  ca_bytes :: nat

definition commit_assembler_new :: commit_assembler where
  "commit_assembler_new = \<lparr>ca_total = 0, ca_parts = [], ca_received = 0, ca_bytes = 0\<rparr>"

definition names_size :: "string list \<Rightarrow> nat" where
  "names_size names = sum_list (map (\<lambda>n. length n + 1) names)"

definition slot_size :: "string list option \<Rightarrow> nat" where
  "slot_size s = (case s of None \<Rightarrow> 0 | Some old \<Rightarrow> names_size old)"

definition commit_reset :: "u16 \<Rightarrow> commit_assembler \<Rightarrow> commit_assembler" where
  "commit_reset tot a =
     (if ca_total a \<noteq> tot
      then \<lparr>ca_total = tot, ca_parts = replicate (unat tot) None, ca_received = 0, ca_bytes = 0\<rparr>
      else a)"

definition commit_push ::
  "commit_assembler \<Rightarrow> u16 \<Rightarrow> u16 \<Rightarrow> string list
     \<Rightarrow> commit_assembler \<times> (frame_error + string list option)" where
  "commit_push a0 idx tot names =
     (if tot = 0 then (a0, Inl CommitTotalZero)
      else if tot > MAX_COMMIT_CHUNKS then (a0, Inl (CommitTooManyChunks tot))
      else if idx \<ge> tot then (a0, Inl (CommitIndexOutOfRange idx tot))
      else
        let a = commit_reset tot a0; incoming = names_size names in
        if unat idx \<ge> length (ca_parts a) then (a, Inl (FramePanic IndexOutOfBounds))
        else
          let slot = ca_parts a ! unat idx; replaced = slot_size slot in
          if ca_bytes a < replaced then (a, Inl (FramePanic ArithmeticOverflow))
          else
            let projected = ca_bytes a - replaced + incoming in
            if projected > MAX_COMMIT_BYTES then (a, Inl (CommitOverBudget projected))
            else
              let received = (if slot = None then ca_received a + 1 else ca_received a);
                  parts = (ca_parts a)[unat idx := Some names]
              in if received = ca_total a
                 then (\<lparr>ca_total = 0, ca_parts = [], ca_received = 0, ca_bytes = 0\<rparr>,
                       Inr (Some (concat (List.map_filter id parts))))
                 else (a\<lparr>ca_parts := parts, ca_received := received, ca_bytes := projected\<rparr>,
                       Inr None))"

definition commit_is_idle :: "commit_assembler \<Rightarrow> bool" where
  "commit_is_idle a \<longleftrightarrow> ca_total a = 0"

text \<open>The server's handling of one \<open>ResumeCommit\<close> frame: the names of its detail value, then
  the assembler if the frame carries chunk tags.\<close>

definition commit_part :: "tlv_map \<Rightarrow> string list" where
  "commit_part tlvs =
     (let body = (case tlv_get tlvs TAG_DETAIL of None \<Rightarrow> [] | Some v \<Rightarrow> from_utf8_lossy v)
      in filter (\<lambda>s. s \<noteq> []) (map trim (str_lines body)))"

definition commit_frame_step ::
  "commit_assembler \<Rightarrow> frame \<Rightarrow> commit_assembler \<times> (frame_error + string list option)" where
  "commit_frame_step a f =
     (case commit_chunk_info (frame_tlvs f) of
        Some (idx, tot) \<Rightarrow> commit_push a idx tot (commit_part (frame_tlvs f))
      | None \<Rightarrow> (a, Inr (Some (commit_part (frame_tlvs f)))))"

section \<open>Lemmas: splitting\<close>

definition chunk_fits :: "nat \<Rightarrow> string list \<Rightarrow> bool" where
  "chunk_fits budget c \<longleftrightarrow> length (join_with newline c) \<le> budget \<or> length c = 1"

lemma length_join_newline: "length (join_with newline c) = sum_list (map length c) + (length c - 1)"
  by (simp add: newline_def length_join_with)

lemma length_join_newline_snoc:
  "length (join_with newline (c @ [n])) =
     length (join_with newline c) + length n + (if c = [] then 0 else 1)"
  by (cases c) (simp_all add: length_join_newline)

lemma split_commit_loop_concat:
  "concat (split_commit_loop b names out cur l) = concat out @ cur @ names"
  by (induction b names out cur l rule: split_commit_loop.induct) (auto simp: Let_def)

lemma split_commit_loop_chunks:
  assumes "l = length (join_with newline cur)" "cur = [] \<or> chunk_fits b cur"
    "\<forall>c \<in> set out. c \<noteq> [] \<and> chunk_fits b c"
  shows "\<forall>c \<in> set (split_commit_loop b names out cur l). c \<noteq> [] \<and> chunk_fits b c"
  using assms
proof (induction b names out cur l rule: split_commit_loop.induct)
  case (1 budget out cur cur_len)
  then show ?case by auto
next
  case (2 budget name names out cur cur_len)
  let ?add = "length name + (if cur = [] then 0 else 1)"
  show ?case
  proof (cases "cur \<noteq> [] \<and> cur_len + ?add > budget")
    case True
    have "length name = length (join_with newline [name])" by simp
    moreover have "[name] = [] \<or> chunk_fits budget [name]" by (simp add: chunk_fits_def)
    moreover have "\<forall>c \<in> set (out @ [cur]). c \<noteq> [] \<and> chunk_fits budget c"
      using True "2.prems"(2,3) by simp
    ultimately have "\<forall>c \<in> set (split_commit_loop budget names (out @ [cur]) [name] (length name)).
        c \<noteq> [] \<and> chunk_fits budget c"
      by (rule "2.IH"(1) [OF refl True])
    moreover have "split_commit_loop budget (name # names) out cur cur_len
        = split_commit_loop budget names (out @ [cur]) [name] (length name)"
      unfolding split_commit_loop.simps(2) Let_def by (rule if_P [OF True])
    ultimately show ?thesis by (simp only:)
  next
    case False
    have len: "cur_len + ?add = length (join_with newline (cur @ [name]))"
      using "2.prems"(1) by (simp add: length_join_newline_snoc)
    then have "cur @ [name] = [] \<or> chunk_fits budget (cur @ [name])"
      using False by (auto simp: chunk_fits_def)
    with len have "\<forall>c \<in> set (split_commit_loop budget names out (cur @ [name]) (cur_len + ?add)).
        c \<noteq> [] \<and> chunk_fits budget c"
      by (rule "2.IH"(2) [OF refl False]) (rule "2.prems"(3))
    moreover have "split_commit_loop budget (name # names) out cur cur_len
        = split_commit_loop budget names out (cur @ [name]) (cur_len + ?add)"
      unfolding split_commit_loop.simps(2) Let_def by (rule if_not_P [OF False])
    ultimately show ?thesis by (simp only:)
  qed
qed

section \<open>Lemmas: the assembler\<close>

definition somes :: "'a option list \<Rightarrow> nat" where
  "somes xs = length (filter (\<lambda>x. x \<noteq> None) xs)"

lemma somes_le: "somes xs \<le> length xs"
  by (simp add: somes_def)

lemma somes_update:
  "i < length xs \<Longrightarrow> somes (xs[i := Some x]) = (if xs ! i = None then Suc (somes xs) else somes xs)"
proof (induction xs arbitrary: i)
  case Nil
  then show ?case by simp
next
  case (Cons y ys)
  then show ?case by (cases i) (auto simp: somes_def)
qed

lemma sum_slot_update:
  "i < length xs \<Longrightarrow>
     sum_list (map slot_size (xs[i := s])) + slot_size (xs ! i)
       = sum_list (map slot_size xs) + slot_size s"
proof (induction xs arbitrary: i)
  case Nil
  then show ?case by simp
next
  case (Cons y ys)
  then show ?case by (cases i) auto
qed

lemma sum_slot_ge: "i < length xs \<Longrightarrow> slot_size (xs ! i) \<le> sum_list (map slot_size xs)"
  using member_le_sum_list [of "slot_size (xs ! i)" "map slot_size xs"] by simp

text \<open>What the server keeps between two frames.\<close>

definition commit_inv :: "commit_assembler \<Rightarrow> bool" where
  "commit_inv a \<longleftrightarrow>
     length (ca_parts a) = unat (ca_total a)
     \<and> unat (ca_received a) = somes (ca_parts a)
     \<and> ca_bytes a = sum_list (map slot_size (ca_parts a))
     \<and> ca_bytes a \<le> MAX_COMMIT_BYTES
     \<and> ca_total a \<le> MAX_COMMIT_CHUNKS
     \<and> (ca_total a \<noteq> 0 \<longrightarrow> ca_received a < ca_total a)"

lemma commit_inv_new: "commit_inv commit_assembler_new"
  by (simp add: commit_inv_def commit_assembler_new_def somes_def)

lemma somes_replicate_None [simp]: "somes (replicate n None) = 0"
  by (simp add: somes_def)

lemma slot_size_None [simp]: "slot_size None = 0"
  by (simp add: slot_size_def)

lemma commit_inv_reset:
  "commit_inv a \<Longrightarrow> tot \<noteq> 0 \<Longrightarrow> tot \<le> MAX_COMMIT_CHUNKS \<Longrightarrow>
     commit_inv (commit_reset tot a) \<and> ca_total (commit_reset tot a) = tot"
  by (auto simp: commit_inv_def commit_reset_def word_gt_0)

lemma MAX_COMMIT_CHUNKS_eq: "MAX_COMMIT_CHUNKS = 1030"
  by (simp add: MAX_COMMIT_CHUNKS_def MAX_COMMIT_BYTES_def COMMIT_CHUNK_BUDGET_def MAX_FRAME_def)

lemma word16_suc: "(r :: u16) < t \<Longrightarrow> unat (r + 1) = Suc (unat r)"
proof -
  assume "r < t"
  then have "unat r + 1 < 2 ^ 16"
    using unsigned_less [of t, where 'a = nat] by (simp add: word_less_nat_alt)
  then show ?thesis by (simp add: unat_word_ariths)
qed

lemma commit_push_inv:
  assumes "commit_inv a"
  shows "commit_inv (fst (commit_push a idx tot names))
    \<and> (\<forall>p. snd (commit_push a idx tot names) \<noteq> Inl (FramePanic p))"
proof (cases "tot = 0 \<or> tot > MAX_COMMIT_CHUNKS \<or> idx \<ge> tot")
  case True
  with assms show ?thesis by (auto simp: commit_push_def)
next
  case False
  define b where "b = commit_reset tot a"
  have b: "commit_inv b" "ca_total b = tot"
    using commit_inv_reset [OF assms] False by (auto simp: b_def)
  have idx: "unat idx < length (ca_parts b)"
    using b False by (simp add: commit_inv_def word_less_nat_alt not_le)
  let ?slot = "ca_parts b ! unat idx"
  let ?parts = "(ca_parts b)[unat idx := Some names]"
  let ?proj = "ca_bytes b - slot_size ?slot + names_size names"
  let ?recv = "if ?slot = None then ca_received b + 1 else ca_received b"
  have le: "slot_size ?slot \<le> ca_bytes b"
    using sum_slot_ge [OF idx] b(1) by (simp add: commit_inv_def)
  have lt: "ca_received b < tot" using b False by (simp add: commit_inv_def)
  have recv: "unat ?recv = somes ?parts"
    using b(1) idx word16_suc [OF lt] by (simp add: commit_inv_def somes_update)
  have "somes ?parts \<le> length ?parts" by (rule somes_le)
  then have recv_le: "?recv \<le> tot"
    using recv b by (simp add: commit_inv_def word_le_nat_alt)
  have bytes: "?proj = sum_list (map slot_size ?parts)"
    using sum_slot_update [OF idx, of "Some names"] b(1) le
    by (simp add: commit_inv_def slot_size_def)
  have push: "commit_push a idx tot names =
     (if ?proj > MAX_COMMIT_BYTES then (b, Inl (CommitOverBudget ?proj))
      else if ?recv = tot
      then (commit_assembler_new, Inr (Some (concat (List.map_filter id ?parts))))
      else (b\<lparr>ca_parts := ?parts, ca_received := ?recv, ca_bytes := ?proj\<rparr>, Inr None))"
    using False idx le b(2)
    by (simp add: commit_push_def Let_def b_def [symmetric] commit_assembler_new_def)
  have "commit_inv (b\<lparr>ca_parts := ?parts, ca_received := ?recv, ca_bytes := ?proj\<rparr>)"
    if "\<not> ?proj > MAX_COMMIT_BYTES" "?recv \<noteq> tot"
  proof -
    have "?recv < tot" using recv_le that(2) by (rule order.not_eq_order_implies_strict [rotated])
    then show ?thesis
      using b recv bytes that(1) unfolding commit_inv_def by simp
  qed
  then show ?thesis using push b(1) commit_inv_new by simp
qed

section \<open>Lemmas: reassembly\<close>

text \<open>The assembler that has received exactly the pieces \<open>S\<close> of \<open>cs\<close>.\<close>

definition parts_of :: "string list list \<Rightarrow> nat set \<Rightarrow> string list option list" where
  "parts_of cs S = map (\<lambda>i. if i \<in> S then Some (cs ! i) else None) [0..<length cs]"

definition asm_of :: "string list list \<Rightarrow> nat set \<Rightarrow> commit_assembler" where
  "asm_of cs S = \<lparr>ca_total = of_nat (length cs), ca_parts = parts_of cs S,
     ca_received = of_nat (card S), ca_bytes = sum_list (map slot_size (parts_of cs S))\<rparr>"

definition sendable :: "string list list \<Rightarrow> bool" where
  "sendable cs \<longleftrightarrow> 0 < length cs \<and> length cs \<le> unat MAX_COMMIT_CHUNKS
     \<and> sum_list (map names_size cs) \<le> MAX_COMMIT_BYTES"

lemma length_parts_of [simp]: "length (parts_of cs S) = length cs"
  by (simp add: parts_of_def)

lemma parts_of_nth [simp]:
  "i < length cs \<Longrightarrow> parts_of cs S ! i = (if i \<in> S then Some (cs ! i) else None)"
  by (simp add: parts_of_def)

lemma parts_of_update:
  "i < length cs \<Longrightarrow> (parts_of cs S)[i := Some (cs ! i)] = parts_of cs (insert i S)"
  by (rule nth_equalityI) (auto simp: nth_list_update)

lemma parts_of_full: "parts_of cs {..<length cs} = map Some cs"
  by (rule nth_equalityI) auto

lemma map_filter_map_Some: "List.map_filter id (map Some cs) = cs"
  by (induction cs) (simp_all add: List.map_filter_simps)

lemma parts_of_bytes: "sum_list (map slot_size (parts_of cs S)) \<le> sum_list (map names_size cs)"
proof -
  have "sum_list (map slot_size (parts_of cs S))
      \<le> sum_list (map (\<lambda>i. names_size (cs ! i)) [0..<length cs])"
    unfolding parts_of_def map_map
    by (rule sum_list_mono) (simp add: slot_size_def)
  also have "map (\<lambda>i. names_size (cs ! i)) [0..<length cs] = map names_size (map ((!) cs) [0..<length cs])"
    by simp
  also have "map ((!) cs) [0..<length cs] = cs" by (rule map_nth)
  finally show ?thesis .
qed

lemma sendable_bounds:
  assumes "sendable cs"
  shows "unat (of_nat (length cs) :: u16) = length cs" "(of_nat (length cs) :: u16) \<noteq> 0"
    "\<not> (of_nat (length cs) :: u16) > MAX_COMMIT_CHUNKS"
proof -
  have l: "0 < length cs" "length cs \<le> 1030"
    using assms by (simp_all add: sendable_def MAX_COMMIT_CHUNKS_eq)
  then show u: "unat (of_nat (length cs) :: u16) = length cs" by (simp add: unat_of_nat)
  then show "(of_nat (length cs) :: u16) \<noteq> 0" using l by (metis less_numeral_extra(3) unat_0)
  show "\<not> (of_nat (length cs) :: u16) > MAX_COMMIT_CHUNKS"
    using u l by (simp add: word_less_nat_alt MAX_COMMIT_CHUNKS_eq)
qed

lemma unat_index: "sendable cs \<Longrightarrow> i \<le> length cs \<Longrightarrow> unat (of_nat i :: u16) = i"
  by (simp add: sendable_def MAX_COMMIT_CHUNKS_eq unat_of_nat)

lemma commit_push_asm:
  assumes "sendable cs" "S \<subseteq> {..<length cs}" "i < length cs"
  shows "commit_push (asm_of cs S) (of_nat i) (of_nat (length cs)) (cs ! i) =
     (if insert i S = {..<length cs} then (commit_assembler_new, Inr (Some (concat cs)))
      else (asm_of cs (insert i S), Inr None))"
proof -
  let ?n = "of_nat (length cs) :: u16"
  note n = sendable_bounds [OF assms(1)]
  have i: "unat (of_nat i :: u16) = i" using unat_index assms by auto
  have idx: "\<not> (of_nat i :: u16) \<ge> ?n" using n(1) i assms(3) by (simp add: word_le_nat_alt)
  have fin: "finite S" using assms(2) finite_subset by blast
  have sub: "insert i S \<subseteq> {..<length cs}" using assms(2,3) by simp
  let ?slot = "parts_of cs S ! i"
  let ?bytes = "sum_list (map slot_size (parts_of cs S))"
  have recv: "(if ?slot = None then of_nat (card S) + 1 else of_nat (card S)) = (of_nat (card (insert i S)) :: u16)"
    using fin assms(3) by (auto simp: card_insert_if insert_absorb)
  have le: "slot_size ?slot \<le> ?bytes" using sum_slot_ge [of i "parts_of cs S"] assms(3) by simp
  have proj: "?bytes - slot_size ?slot + names_size (cs ! i)
      = sum_list (map slot_size (parts_of cs (insert i S)))"
    using sum_slot_update [of i "parts_of cs S" "Some (cs ! i)"] assms(3) le
    by (simp add: parts_of_update slot_size_def)
  have budget: "\<not> sum_list (map slot_size (parts_of cs (insert i S))) > MAX_COMMIT_BYTES"
    using parts_of_bytes [of cs "insert i S"] assms(1) by (simp add: sendable_def)
  have card: "card (insert i S) \<le> length cs"
    using card_mono [OF finite_lessThan sub] by simp
  have "(of_nat (card (insert i S)) :: u16) = ?n \<longleftrightarrow> card (insert i S) = length cs"
    using unat_index [OF assms(1) card] n(1) by (metis (no_types))
  also have "\<dots> \<longleftrightarrow> insert i S = {..<length cs}"
  proof
    assume "card (insert i S) = length cs"
    then show "insert i S = {..<length cs}"
      using card_subset_eq [OF finite_lessThan sub] by simp
  next
    assume "insert i S = {..<length cs}"
    then show "card (insert i S) = length cs" by (simp only: card_lessThan)
  qed
  finally have last: "(of_nat (card (insert i S)) :: u16) = ?n \<longleftrightarrow> insert i S = {..<length cs}" .
  have full: "insert i S = {..<length cs} \<Longrightarrow>
      concat (List.map_filter id (parts_of cs (insert i S))) = concat cs"
    by (simp add: parts_of_full map_filter_map_Some)
  have tot: "ca_total (asm_of cs S) = ?n" "ca_parts (asm_of cs S) = parts_of cs S"
    "ca_bytes (asm_of cs S) = ?bytes" "ca_received (asm_of cs S) = of_nat (card S)"
    by (simp_all add: asm_of_def)
  have reset: "commit_reset ?n (asm_of cs S) = asm_of cs S"
    by (simp add: commit_reset_def tot)
  have len: "\<not> i \<ge> length (parts_of cs S)" "\<not> ?bytes < slot_size ?slot" using assms(3) le by simp_all
  have step: "commit_push (asm_of cs S) (of_nat i) ?n (cs ! i) =
    (if insert i S = {..<length cs}
     then (\<lparr>ca_total = 0, ca_parts = [], ca_received = 0, ca_bytes = 0\<rparr>,
           Inr (Some (concat (List.map_filter id (parts_of cs (insert i S))))))
     else (asm_of cs S\<lparr>ca_parts := parts_of cs (insert i S),
             ca_received := of_nat (card (insert i S)),
             ca_bytes := sum_list (map slot_size (parts_of cs (insert i S)))\<rparr>, Inr None))"
    unfolding commit_push_def Let_def reset tot i proj recv parts_of_update [OF assms(3)] last
      if_not_P [OF n(2)] if_not_P [OF n(3)] if_not_P [OF idx] if_not_P [OF len(1)]
      if_not_P [OF len(2)] if_not_P [OF budget] ..
  have next_asm: "asm_of cs S\<lparr>ca_parts := parts_of cs (insert i S),
      ca_received := of_nat (card (insert i S)),
      ca_bytes := sum_list (map slot_size (parts_of cs (insert i S)))\<rparr> = asm_of cs (insert i S)"
    by (simp add: asm_of_def)
  show ?thesis
    unfolding step next_asm commit_assembler_new_def using full by simp
qed

lemma commit_push_start:
  "sendable cs \<Longrightarrow> ca_total a \<noteq> of_nat (length cs) \<Longrightarrow> i < length cs \<Longrightarrow>
     commit_push a (of_nat i) (of_nat (length cs)) ns
       = commit_push (asm_of cs {}) (of_nat i) (of_nat (length cs)) ns"
proof -
  assume s: "sendable cs" and a: "ca_total a \<noteq> of_nat (length cs)" and i: "i < length cs"
  note n = sendable_bounds [OF s]
  have idx: "\<not> (of_nat i :: u16) \<ge> of_nat (length cs)"
    using n(1) unat_index [OF s, of i] i by (simp add: word_le_nat_alt)
  have "replicate (length cs) None = parts_of cs {}" by (rule nth_equalityI) auto
  moreover have "sum_list (map slot_size (parts_of cs {})) = 0"
    by (simp add: parts_of_def comp_def)
  ultimately have "commit_reset (of_nat (length cs)) a = asm_of cs {}"
    using a n(1) by (simp add: commit_reset_def asm_of_def)
  moreover have "commit_reset (of_nat (length cs)) (asm_of cs {}) = asm_of cs {}"
    by (simp add: commit_reset_def asm_of_def)
  ultimately show ?thesis
    using n(2,3) idx by (simp add: commit_push_def)
qed

text \<open>The server reading a sequence of frames: the answers it produces, in order.\<close>

fun commit_frames ::
  "commit_assembler \<Rightarrow> frame list \<Rightarrow> commit_assembler \<times> (frame_error + string list option) list" where
  "commit_frames a [] = (a, [])"
| "commit_frames a (f # fs) =
     (let (a1, r) = commit_frame_step a f; (a2, rs) = commit_frames a1 fs in (a2, r # rs))"

text \<open>A proxy name the exchange carries unchanged.\<close>

definition clean_name :: "string \<Rightarrow> bool" where
  "clean_name n \<longleftrightarrow> n \<noteq> [] \<and> tight n \<and> CHR 10 \<notin> set n \<and> valid_str n"

lemma strip_cr_clean: "clean_name n \<Longrightarrow> strip_cr n = n"
  by (auto simp: clean_name_def strip_cr_def tight_def graphic_def)

lemma str_lines_join:
  assumes "list_all clean_name c"
  shows "str_lines (join_with newline c) = c"
proof (cases "c = []")
  case True
  then show ?thesis by (simp add: str_lines_def)
next
  case False
  have "\<forall>x \<in> set c. CHR 10 \<notin> set x" using assms by (auto simp: list_all_iff clean_name_def)
  then have split: "split_on (CHR 10) (join_with newline c) = c"
    using False split_on_join [of c "CHR 10"] by (simp add: newline_def)
  have "map strip_cr (butlast c) = butlast c"
    using assms by (intro map_idI strip_cr_clean) (auto simp: list_all_iff dest: in_set_butlastD)
  moreover have "last c \<noteq> []"
    using assms False by (auto simp: list_all_iff clean_name_def)
  ultimately show ?thesis
    unfolding str_lines_def split Let_def using False by simp
qed

lemma commit_part_detail:
  assumes "list_all clean_name c" "tlv_get tlvs TAG_DETAIL = Some (as_bytes (join_with newline c))"
  shows "commit_part tlvs = c"
proof -
  have "valid_str (join_with newline c)"
    using assms(1) by (intro valid_str_join) (auto simp: newline_def is_ascii_def list_all_iff clean_name_def)
  then have "commit_part tlvs = filter (\<lambda>s. s \<noteq> []) (map trim c)"
    using assms by (simp add: commit_part_def from_utf8_lossy_as_bytes str_lines_join)
  also have "map trim c = c"
    using assms(1) by (auto simp: list_all_iff clean_name_def trim_tight intro: map_idI)
  also have "filter (\<lambda>s. s \<noteq> []) c = c"
    using assms(1) by (auto simp: list_all_iff clean_name_def intro: filter_True)
  finally show ?thesis .
qed

definition chunk_frame :: "string list list \<Rightarrow> nat \<Rightarrow> frame" where
  "chunk_frame cs i = frame_with (frame_with (frame_with (frame_new ResumeCommit)
     TAG_DETAIL (as_bytes (join_with newline (cs ! i))))
     TAG_CHUNK (be16 (of_nat i))) TAG_CHUNKS (be16 (of_nat (length cs)))"

lemma encode_resume_commit_chunks:
  "1 < length cs \<Longrightarrow> cs = split_commit_names names COMMIT_CHUNK_BUDGET \<Longrightarrow>
     encode_resume_commit names = map (chunk_frame cs) [0..<length cs]"
  by (rule nth_equalityI)
     (auto simp: encode_resume_commit_def Let_def nth_enumerate_eq chunk_frame_def)

lemma commit_frame_step_chunk:
  assumes "i < length cs" "list_all clean_name (cs ! i)"
  shows "commit_frame_step a (chunk_frame cs i)
           = commit_push a (of_nat i) (of_nat (length cs)) (cs ! i)"
proof -
  obtain a b where i: "be16 (of_nat i) = [a, b]" using be16_split by blast
  obtain c d where n: "be16 (of_nat (length cs)) = [c, d]" using be16_split by blast
  have g: "get16 [a, b] = of_nat i" "get16 [c, d] = of_nat (length cs)"
    using get_be(1) i n by metis+
  have tags: "TAG_DETAIL \<noteq> TAG_CHUNK" "TAG_DETAIL \<noteq> TAG_CHUNKS" "TAG_CHUNK \<noteq> TAG_CHUNKS"
    by (simp_all add: TAG_DETAIL_def TAG_CHUNK_def TAG_CHUNKS_def TAG_BASE_def)
  have "commit_part (frame_tlvs (chunk_frame cs i)) = cs ! i"
    using tags by (intro commit_part_detail [OF assms(2)]) (simp add: chunk_frame_def tlv_get_push)
  moreover have "commit_chunk_info (frame_tlvs (chunk_frame cs i)) = Some (of_nat i, of_nat (length cs))"
    using tags g
    by (simp add: chunk_frame_def commit_chunk_info_def tlv_get_push i n get_prefix_def
        tags [symmetric])
  ultimately show ?thesis by (simp add: commit_frame_step_def)
qed

lemma commit_frames_append:
  "commit_frames a (fs @ gs) =
     (let (b, rs) = commit_frames a fs; (c, ss) = commit_frames b gs in (c, rs @ ss))"
  by (induction fs arbitrary: a) (auto simp: split: prod.splits)

lemma commit_frames_asm:
  assumes "sendable cs" "\<forall>c \<in> set cs. list_all clean_name c"
  shows "S \<union> set js \<subset> {..<length cs} \<Longrightarrow>
     commit_frames (asm_of cs S) (map (chunk_frame cs) js)
       = (asm_of cs (S \<union> set js), replicate (length js) (Inr None))"
proof (induction js arbitrary: S)
  case Nil
  then show ?case by simp
next
  case (Cons j js)
  then have j: "j < length cs" "S \<subseteq> {..<length cs}" "insert j S \<noteq> {..<length cs}"
    "insert j S \<union> set js \<subset> {..<length cs}" by auto
  have "commit_frame_step (asm_of cs S) (chunk_frame cs j) = (asm_of cs (insert j S), Inr None)"
    using commit_frame_step_chunk [OF j(1)] assms(2) j commit_push_asm [OF assms(1) j(2,1)] by simp
  with Cons.IH [OF j(4)] show ?case by simp
qed

lemma commit_frames_any_order:
  assumes s: "sendable cs" "\<forall>c \<in> set cs. list_all clean_name c"
    and a: "ca_total a \<noteq> of_nat (length cs)"
    and js: "set js \<subset> {..<length cs}" "insert j (set js) = {..<length cs}"
  shows "commit_frames a (map (chunk_frame cs) (js @ [j]))
     = (commit_assembler_new, replicate (length js) (Inr None) @ [Inr (Some (concat cs))])"
proof -
  have clean: "list_all clean_name (cs ! i)" if "i < length cs" for i using s(2) that by simp
  have start: "commit_frames a (map (chunk_frame cs) (js @ [j]))
      = commit_frames (asm_of cs {}) (map (chunk_frame cs) (js @ [j]))"
  proof -
    obtain k ks where ks: "js @ [j] = k # ks" by (cases "js @ [j]") auto
    then have "k \<in> insert j (set js)" by (metis Un_insert_right list.set_intros(1) list.simps(15)
          set_append list.set(1) sup_bot_right)
    then have k: "k < length cs" using js(2) by blast
    have "commit_frame_step a (chunk_frame cs k) = commit_frame_step (asm_of cs {}) (chunk_frame cs k)"
      using commit_frame_step_chunk [OF k clean [OF k]] commit_push_start [OF s(1) a k] by simp
    then show ?thesis unfolding ks by simp
  qed
  have j: "j < length cs" using js(2) by blast
  have sub: "set js \<subseteq> {..<length cs}" using js(1) by blast
  have "commit_frame_step (asm_of cs (set js)) (chunk_frame cs j)
      = (commit_assembler_new, Inr (Some (concat cs)))"
    using commit_frame_step_chunk [OF j clean [OF j]] commit_push_asm [OF s(1) sub j] js(2) by simp
  then show ?thesis
    unfolding start using commit_frames_asm [OF s, of "{}" js] js(1)
    by (simp add: commit_frames_append)
qed

lemma split_commit_names_concat: "concat (split_commit_names names b) = names"
  by (simp add: split_commit_names_def split_commit_loop_concat)

lemma names_size_append: "names_size (a @ b) = names_size a + names_size b"
  by (simp add: names_size_def)

lemma names_size_concat: "names_size (concat cs) = sum_list (map names_size cs)"
  by (induction cs) (simp_all add: names_size_append, simp add: names_size_def)

section \<open>Properties\<close>

text \<open>Splitting loses nothing. The pieces in order are the list of names; no piece is empty
  and each joined piece fits the budget, unless it is one name that does not fit by itself.\<close>

theorem split_commit_names_ok:
  "concat (split_commit_names names budget) = names
   \<and> list_all (\<lambda>c. c \<noteq> [] \<and> (length (join_with newline c) \<le> max budget 1 \<or> length c = 1))
       (split_commit_names names budget)"
proof
  show "concat (split_commit_names names budget) = names" by (rule split_commit_names_concat)
  have "\<forall>c \<in> set (split_commit_names names budget). c \<noteq> [] \<and> chunk_fits (max budget 1) c"
    unfolding split_commit_names_def
    by (rule split_commit_loop_chunks) simp_all
  then show "list_all (\<lambda>c. c \<noteq> [] \<and> (length (join_with newline c) \<le> max budget 1 \<or> length c = 1))
       (split_commit_names names budget)"
    by (simp add: list_all_iff chunk_fits_def)
qed

text \<open>The assembler state a server keeps is well formed after any piece a client sends,
  valid or not: the slots, the received count and the byte count agree, the byte count is
  within the budget, an unfinished list is not complete; and handling a piece cannot
  panic (no index out of range, no arithmetic underflow).\<close>

theorem commit_push_preserves:
  "commit_inv a \<Longrightarrow> commit_inv (fst (commit_push a idx tot names))
     \<and> (\<forall>p. snd (commit_push a idx tot names) \<noteq> Inl (FramePanic p))"
  by (rule commit_push_inv)

theorem commit_push_preserves_witness:
  "commit_inv (fst (commit_push commit_assembler_new 1 2 [''a'', ''b'']))
   \<and> (\<forall>p. snd (commit_push commit_assembler_new 1 2 [''a'', ''b'']) \<noteq> Inl (FramePanic p))"
  by (rule commit_push_preserves [OF commit_inv_new])


lemma clean_name_replicate: "0 < k \<Longrightarrow> clean_name (replicate k CHR ''a'')"
  by (auto simp: clean_name_def tight_def graphic_def is_ascii_def list_all_iff
      intro: valid_str_ascii)

lemma lessThan_two: "{..<2} = {0, 1 :: nat}"
  by (simp add: numeral_2_eq_2 lessThan_Suc insert_commute)


end
