(* ===== verification/NLink_Policy.thy ===== *)
theory NLink_Policy
  imports NLink_Frame "HOL-Library.While_Combinator"
begin

text \<open>
  Policy decisions (\<open>common/src/nlink/policy.rs\<close>): the direct-or-relay decision, the failure
  codes, the TTL ladder of a hole-punching probe and the compatibility matrix. The prose of a
  matrix row (\<open>e2e\<close>, \<open>note\<close>) is not modelled.
\<close>

section \<open>Direct or relay\<close>

datatype xtcp_policy = PolicyAuto | PreferDirect | DirectOnly | RelayOnly

definition xtcp_policy_parse :: "string \<Rightarrow> xtcp_policy option" where
  "xtcp_policy_parse s =
     (let t = trim s in
      if t = '''' \<or> t = ''auto'' then Some PolicyAuto
      else if t = ''prefer-direct'' \<or> t = ''prefer_direct'' then Some PreferDirect
      else if t = ''direct-only'' \<or> t = ''direct_only'' then Some DirectOnly
      else if t = ''relay-only'' \<or> t = ''relay_only'' then Some RelayOnly
      else None)"

fun xtcp_policy_as_str :: "xtcp_policy \<Rightarrow> string" where
  "xtcp_policy_as_str PolicyAuto = ''auto''"
| "xtcp_policy_as_str PreferDirect = ''prefer-direct''"
| "xtcp_policy_as_str DirectOnly = ''direct-only''"
| "xtcp_policy_as_str RelayOnly = ''relay-only''"

datatype failure_code =
    FailOk | NoPublicAddr | SymmetricNat | Timeout | PeerUnreachable | PolicyRelayOnly
  | VersionMismatch | AuthFailed | KnockRequired | ResumeExpired | BatchRejected

datatype direct_decision =
    Direct
  | Relay (relay_reason: failure_code)
  | Fail (fail_reason: failure_code)

record direct_context =
  peer_has_policy :: bool
  have_public_addr :: bool
  symmetric :: bool

definition decide_direct :: "xtcp_policy \<Rightarrow> direct_context \<Rightarrow> direct_decision" where
  "decide_direct policy ctx =
     (if policy = RelayOnly then Relay PolicyRelayOnly
      else if \<not> peer_has_policy ctx then
        (case policy of
           DirectOnly \<Rightarrow> Fail VersionMismatch
         | _ \<Rightarrow>
             if have_public_addr ctx \<and> \<not> symmetric ctx then Direct
             else Relay (if symmetric ctx then SymmetricNat else NoPublicAddr))
      else if \<not> have_public_addr ctx then
        (case policy of DirectOnly \<Rightarrow> Fail NoPublicAddr | _ \<Rightarrow> Relay NoPublicAddr)
      else if symmetric ctx then
        (case policy of DirectOnly \<Rightarrow> Fail SymmetricNat | _ \<Rightarrow> Relay SymmetricNat)
      else Direct)"

section \<open>Failure codes\<close>

fun failure_code_as_u8 :: "failure_code \<Rightarrow> u8" where
  "failure_code_as_u8 FailOk = 0"
| "failure_code_as_u8 NoPublicAddr = 1"
| "failure_code_as_u8 SymmetricNat = 2"
| "failure_code_as_u8 Timeout = 3"
| "failure_code_as_u8 PeerUnreachable = 4"
| "failure_code_as_u8 PolicyRelayOnly = 5"
| "failure_code_as_u8 VersionMismatch = 6"
| "failure_code_as_u8 AuthFailed = 7"
| "failure_code_as_u8 KnockRequired = 8"
| "failure_code_as_u8 ResumeExpired = 9"
| "failure_code_as_u8 BatchRejected = 10"

definition failure_code_from_u8 :: "u8 \<Rightarrow> failure_code option" where
  "failure_code_from_u8 v =
     (if v = 0 then Some FailOk
      else if v = 1 then Some NoPublicAddr
      else if v = 2 then Some SymmetricNat
      else if v = 3 then Some Timeout
      else if v = 4 then Some PeerUnreachable
      else if v = 5 then Some PolicyRelayOnly
      else if v = 6 then Some VersionMismatch
      else if v = 7 then Some AuthFailed
      else if v = 8 then Some KnockRequired
      else if v = 9 then Some ResumeExpired
      else if v = 10 then Some BatchRejected
      else None)"

fun failure_code_as_str :: "failure_code \<Rightarrow> string" where
  "failure_code_as_str FailOk = ''ok''"
| "failure_code_as_str NoPublicAddr = ''no-public-addr''"
| "failure_code_as_str SymmetricNat = ''symmetric-nat''"
| "failure_code_as_str Timeout = ''timeout''"
| "failure_code_as_str PeerUnreachable = ''peer-unreachable''"
| "failure_code_as_str PolicyRelayOnly = ''policy-relay-only''"
| "failure_code_as_str VersionMismatch = ''version-mismatch''"
| "failure_code_as_str AuthFailed = ''auth-failed''"
| "failure_code_as_str KnockRequired = ''knock-required''"
| "failure_code_as_str ResumeExpired = ''resume-expired''"
| "failure_code_as_str BatchRejected = ''batch-rejected''"

interpretation failure_code: u8_enum failure_code_as_u8 failure_code_from_u8
proof
  fix k
  show "failure_code_from_u8 (failure_code_as_u8 k) = Some k"
    by (cases k) (simp_all add: failure_code_from_u8_def)
next
  fix v k
  show "failure_code_from_u8 v = Some k \<Longrightarrow> failure_code_as_u8 k = v"
    by (auto simp: failure_code_from_u8_def split: if_splits)
qed

section \<open>Probing\<close>

text \<open>The doubling loop of \<open>ttl_ladder\<close> on its 16-bit counter; \<open>None\<close> would be a loop that
  does not end.\<close>

definition ttl_loop :: "u8 \<Rightarrow> (u8 list \<times> u16) option" where
  "ttl_loop max_hops =
     while_option (\<lambda>(out, ttl). ttl \<le> ucast max_hops)
       (\<lambda>(out, ttl). (out @ [ucast ttl], ttl * 2)) ([], 1)"

definition clamp_hops :: "u8 \<Rightarrow> u8" where
  "clamp_hops h = (if h < 1 then 1 else if 64 < h then 64 else h)"

definition ttl_ladder :: "u8 \<Rightarrow> u8 list option" where
  "ttl_ladder hops =
     (let max_hops = clamp_hops hops in
      case ttl_loop max_hops of
        None \<Rightarrow> None
      | Some (out, _) \<Rightarrow>
          Some (if out = [] \<or> last out \<noteq> max_hops then out @ [max_hops] else out))"

record probe_round =
  pr_round :: u8
  pr_ttl :: u8
  pr_timeout_ms :: u32

definition saturating_mul_u32 :: "u32 \<Rightarrow> u32 \<Rightarrow> u32" where
  "saturating_mul_u32 a b =
     (if unat a * unat b < 2 ^ 32 then a * b else - 1)"

definition probe_plan :: "u8 \<Rightarrow> u32 \<Rightarrow> probe_round list option" where
  "probe_plan max_hops base_timeout_ms =
     map_option
       (\<lambda>ladder. map (\<lambda>(i, ttl). \<lparr>pr_round = of_nat i, pr_ttl = ttl,
            pr_timeout_ms = saturating_mul_u32 base_timeout_ms (1 + ucast ttl div 8)\<rparr>)
          (enumerate 0 ladder))
       (ttl_ladder max_hops)"

definition classify_probes :: "(u8 \<times> bool) list \<Rightarrow> failure_code" where
  "classify_probes results =
     (if list_ex snd results then FailOk
      else if results = [] then Timeout else PeerUnreachable)"

section \<open>Compatibility matrix\<close>

datatype support = Full | Limited | NegotiateOnly

record matrix_entry =
  mx_feature :: string
  mx_level :: support

definition MATRIX :: "matrix_entry list" where
  "MATRIX =
     [\<lparr>mx_feature = ''quic'', mx_level = Full\<rparr>,
      \<lparr>mx_feature = ''quic-migration'', mx_level = Full\<rparr>,
      \<lparr>mx_feature = ''nat-adaptive'', mx_level = Limited\<rparr>,
      \<lparr>mx_feature = ''identity'', mx_level = Full\<rparr>,
      \<lparr>mx_feature = ''rate-limit'', mx_level = Full\<rparr>,
      \<lparr>mx_feature = ''trace'', mx_level = Full\<rparr>,
      \<lparr>mx_feature = ''batch-work-conn'', mx_level = Full\<rparr>,
      \<lparr>mx_feature = ''resume'', mx_level = Limited\<rparr>,
      \<lparr>mx_feature = ''port-knock'', mx_level = Full\<rparr>,
      \<lparr>mx_feature = ''xtcp-policy'', mx_level = Full\<rparr>,
      \<lparr>mx_feature = ''compat-probe'', mx_level = Full\<rparr>]"

definition matrix_row :: "string \<Rightarrow> matrix_entry option" where
  "matrix_row feature = find (\<lambda>r. mx_feature r = feature) MATRIX"

definition matrix_gaps :: "caps \<Rightarrow> string list" where
  "matrix_gaps c = filter (\<lambda>n. matrix_row n = None) (caps_names c)"

section \<open>Lemmas\<close>

text \<open>What a ladder up to \<open>m\<close> has to look like.\<close>

definition ladder_ok :: "u8 \<Rightarrow> u8 list \<Rightarrow> bool" where
  "ladder_ok m xs \<longleftrightarrow> xs \<noteq> [] \<and> hd xs = 1 \<and> last xs = m \<and> sorted_wrt (<) xs
     \<and> list_all (\<lambda>(x, y). unat y \<le> 2 * unat x) (zip xs (tl xs))"

definition ladder_checked :: "nat \<Rightarrow> bool" where
  "ladder_checked n =
     (case ttl_ladder (of_nat n) of None \<Rightarrow> False | Some xs \<Rightarrow> ladder_ok (of_nat n) xs \<and> length xs \<le> 8)"

lemma ladder_all: "list_all ladder_checked [1..<65]"
  by code_simp

lemma clamp_hops_range: "1 \<le> unat (clamp_hops h)" "unat (clamp_hops h) \<le> 64"
  by (auto simp: clamp_hops_def word_less_nat_alt)

lemma ttl_ladder_clamp: "ttl_ladder (clamp_hops h) = ttl_ladder h"
  by (simp add: ttl_ladder_def clamp_hops_def)

lemma ttl_ladder_ok: "\<exists>xs. ttl_ladder h = Some xs \<and> ladder_ok (clamp_hops h) xs \<and> length xs \<le> 8"
proof -
  have "unat (clamp_hops h) \<in> set [1..<65]" using clamp_hops_range [of h] by auto
  then have "ladder_checked (unat (clamp_hops h))" using ladder_all by (simp only: list_all_iff)
  then show ?thesis
    by (auto simp: ladder_checked_def ttl_ladder_clamp split: option.splits)
qed

lemma saturating_mul_u32_unat: "unat (saturating_mul_u32 a b) = min (unat a * unat b) (2 ^ 32 - 1)"
proof (cases "unat a * unat b < 2 ^ 32")
  case True
  then have "unat (a * b) = unat a * unat b" by (simp add: unat_word_ariths)
  with True show ?thesis by (simp add: saturating_mul_u32_def)
next
  case False
  then show ?thesis by (simp add: saturating_mul_u32_def unsigned_minus_1_eq_mask mask_eq_exp_minus_1)
qed

definition round_timeout :: "u32 \<Rightarrow> u8 \<Rightarrow> u32" where
  "round_timeout base ttl = saturating_mul_u32 base (1 + ucast ttl div 8)"

lemma round_timeout_unat:
  "unat (round_timeout base ttl) = min (unat base * (1 + unat ttl div 8)) (2 ^ 32 - 1)"
proof -
  have t: "unat ttl < 256" by (rule byte_lt)
  have "unat (ucast ttl :: u32) = unat ttl" 
    using t by (simp add: unsigned_ucast_eq take_bit_nat_eq_self_iff)
  then have "unat ((ucast ttl :: u32) div 8) = unat ttl div 8" by (simp add: unat_div)
  then have "unat (1 + (ucast ttl :: u32) div 8) = 1 + unat ttl div 8"
    using t by (simp add: unat_word_ariths)
  then show ?thesis by (simp add: round_timeout_def saturating_mul_u32_unat)
qed

lemma round_timeout_mono: "s \<le> t \<Longrightarrow> round_timeout base s \<le> round_timeout base t"
  by (simp add: word_le_nat_alt round_timeout_unat min.coboundedI1 div_le_mono mult_le_mono2
      min.mono)

lemma round_timeout_ge: "base \<le> round_timeout base t"
  using unsigned_less [of base, where 'a = nat] by (simp add: word_le_nat_alt round_timeout_unat)

lemma probe_plan_eq:
  "ttl_ladder h = Some xs \<Longrightarrow>
     probe_plan h base = Some (map (\<lambda>(i, ttl). \<lparr>pr_round = of_nat i, pr_ttl = ttl,
        pr_timeout_ms = round_timeout base ttl\<rparr>) (enumerate 0 xs))"
  by (simp add: probe_plan_def round_timeout_def)

lemma matrix_covers: "list_all (\<lambda>(b, n). matrix_row n \<noteq> None) cap_table"
  by code_simp

section \<open>Properties\<close>

text \<open>The decision point. A direct connection is tried exactly when the local side is
  publicly reachable behind a non-symmetric NAT, the policy is not relay-only, and a
  direct-only policy is understood by the peer; only direct-only turns the other cases into
  an error, and it never falls back to a relay.\<close>

theorem decide_direct_spec:
  "(decide_direct p ctx = Direct \<longleftrightarrow>
      p \<noteq> RelayOnly \<and> have_public_addr ctx \<and> \<not> symmetric ctx
      \<and> \<not> (p = DirectOnly \<and> \<not> peer_has_policy ctx))
   \<and> ((\<exists>r. decide_direct p ctx = Fail r) \<longleftrightarrow>
      p = DirectOnly \<and> decide_direct p ctx \<noteq> Direct)
   \<and> (decide_direct RelayOnly ctx = Relay PolicyRelayOnly)
   \<and> decide_direct PreferDirect ctx = decide_direct PolicyAuto ctx
   \<and> decide_direct p ctx \<noteq> Relay FailOk \<and> decide_direct p ctx \<noteq> Fail FailOk"
  by (cases p) (auto simp: decide_direct_def)

text \<open>C35: a probe plan ends, for every hop limit and base timeout. It has at most eight
  rounds, numbered from zero; the hop counts start at one, increase, at most double from
  round to round and end at the limit clamped to 1..64; the timeouts never decrease, never
  fall below the base timeout and saturate instead of wrapping.\<close>

theorem probe_plan_ok:
  "\<exists>rs. probe_plan h base = Some rs \<and> length rs \<le> 8
     \<and> ladder_ok (clamp_hops h) (map pr_ttl rs)
     \<and> map pr_round rs = map of_nat [0..<length rs]
     \<and> sorted_wrt (\<le>) (base # map pr_timeout_ms rs)
     \<and> map (unat \<circ> pr_timeout_ms) rs
         = map (\<lambda>r. min (unat base * (1 + unat (pr_ttl r) div 8)) (2 ^ 32 - 1)) rs"
proof -
  obtain xs where xs: "ttl_ladder h = Some xs" "ladder_ok (clamp_hops h) xs" "length xs \<le> 8"
    using ttl_ladder_ok by blast
  let ?rs = "map (\<lambda>(i, ttl). \<lparr>pr_round = of_nat i, pr_ttl = ttl,
        pr_timeout_ms = round_timeout base ttl\<rparr>) (enumerate 0 xs)"
  have ttls: "map pr_ttl ?rs = xs"
    by (rule nth_equalityI) (auto simp: nth_enumerate_eq)
  have rounds: "map pr_round ?rs = map of_nat [0..<length ?rs]"
    by (rule nth_equalityI) (auto simp: nth_enumerate_eq)
  have times: "map pr_timeout_ms ?rs = map (round_timeout base) xs"
    by (rule nth_equalityI) (auto simp: nth_enumerate_eq)
  have "sorted_wrt (<) xs" using xs(2) by (simp add: ladder_ok_def)
  then have "sorted_wrt (\<lambda>s t. round_timeout base s \<le> round_timeout base t) xs"
    by (rule sorted_wrt_mono_rel [rotated]) (auto intro: round_timeout_mono)
  then have "sorted_wrt (\<le>) (base # map pr_timeout_ms ?rs)"
    unfolding times by (simp add: sorted_wrt_map round_timeout_ge)
  moreover have "map (unat \<circ> pr_timeout_ms) ?rs
      = map (\<lambda>r. min (unat base * (1 + unat (pr_ttl r) div 8)) (2 ^ 32 - 1)) ?rs"
    by (simp add: round_timeout_unat split_def)
  ultimately show ?thesis
    using probe_plan_eq [OF xs(1), of base] xs(2,3) ttls rounds by (intro exI [of _ ?rs]) simp
qed

text \<open>The matrix and the capability bits stay in step. No capability set has a name
  without a matrix row, every row's feature is a name \<open>parse_features\<close> knows, and failure
  codes survive the wire.\<close>

theorem matrix_complete:
  "matrix_gaps c = [] \<and> set (map mx_feature MATRIX) = set (caps_names CAPS_ALL)
   \<and> failure_code_from_u8 (failure_code_as_u8 k) = Some k
   \<and> (failure_code_from_u8 v = None \<longleftrightarrow> v \<notin> range failure_code_as_u8)"
proof (intro conjI)
  show "matrix_gaps c = []"
    using matrix_covers by (fastforce simp: matrix_gaps_def caps_names_def filter_empty_conv list_all_iff)
  have "map mx_feature MATRIX = caps_names CAPS_ALL" by code_simp
  then show "set (map mx_feature MATRIX) = set (caps_names CAPS_ALL)" by simp
  show "failure_code_from_u8 (failure_code_as_u8 k) = Some k" by (rule failure_code.from_as)
  show "failure_code_from_u8 v = None \<longleftrightarrow> v \<notin> range failure_code_as_u8"
    by (rule failure_code.from_u8_None)
qed

end
