(* ===== verification/Rust_Net.thy ===== *)
theory Rust_Net
  imports Rust_Std
begin

unbundle bit_operations_syntax

text \<open>
  The part of \<open>std::net\<close> the modelled code uses: addresses, their \<open>Display\<close> form and the
  parser behind \<open>IpAddr::from_str\<close>. An IPv4 address is its 32-bit value, an IPv6 address its
  128-bit value.
\<close>

datatype ip_addr = V4 u32 | V6 u128

record socket_addr =
  sa_ip :: ip_addr
  sa_port :: u16

definition be128 :: "u128 \<Rightarrow> bytes" where "be128 x = be_put 16 (unat x)"
definition get128 :: "bytes \<Rightarrow> u128" where "get128 bs = of_nat (be_get bs)"

lemma length_be128 [simp]: "length (be128 x) = 16"
  by (simp add: be128_def)

lemma get_be128 [simp]: "get128 (be128 x) = x"
  using unsigned_less [of x, where 'a = nat] by (simp add: get128_def be128_def be_get_put)

fun ip_octets :: "ip_addr \<Rightarrow> bytes" where
  "ip_octets (V4 a) = be32 a"
| "ip_octets (V6 a) = be128 a"

definition v6_segments :: "u128 \<Rightarrow> nat list" where
  "v6_segments a = map (\<lambda>i. unat a div 65536 ^ (7 - i) mod 65536) [0..<8]"

definition v6_of_segments :: "nat list \<Rightarrow> u128" where
  "v6_of_segments segs = of_nat (foldl (\<lambda>acc s. acc * 65536 + s) 0 segs)"

section \<open>Display\<close>

fun show_hex :: "nat \<Rightarrow> string" where
  "show_hex n = (if n < 16 then [digit_char n] else show_hex (n div 16) @ [digit_char (n mod 16)])"

declare show_hex.simps [simp del]

definition show_ipv4 :: "u32 \<Rightarrow> string" where
  "show_ipv4 a = join_with ''.'' (map (\<lambda>b. show_nat (unat b)) (be32 a))"

text \<open>The first longest run of zero segments, as start and length.\<close>

fun zero_runs :: "nat list \<Rightarrow> nat \<Rightarrow> nat \<times> nat \<Rightarrow> nat \<times> nat \<Rightarrow> nat \<times> nat" where
  "zero_runs [] i cur longest = longest"
| "zero_runs (s # segs) i (cs, cl) (ls, ll) =
     (if s = 0
      then let c = (if cl = 0 then i else cs, cl + 1)
           in zero_runs segs (i + 1) c (if snd c > ll then c else (ls, ll))
      else zero_runs segs (i + 1) (0, 0) (ls, ll))"

definition show_ipv6 :: "u128 \<Rightarrow> string" where
  "show_ipv6 a =
     (let segs = v6_segments a in
      if take 6 segs = [0, 0, 0, 0, 0, 65535] then ''::ffff:'' @ show_ipv4 (ucast a)
      else let (st, len) = zero_runs segs 0 (0, 0) (0, 0) in
        if len > 1
        then join_with '':'' (map show_hex (take st segs)) @ ''::''
               @ join_with '':'' (map show_hex (drop (st + len) segs))
        else join_with '':'' (map show_hex segs))"

fun show_ip :: "ip_addr \<Rightarrow> string" where
  "show_ip (V4 a) = show_ipv4 a"
| "show_ip (V6 a) = show_ipv6 a"

section \<open>Parsing\<close>

text \<open>Each reader returns what it read and the rest of the input, or nothing.\<close>

fun read_digits :: "nat \<Rightarrow> string \<Rightarrow> nat \<Rightarrow> nat \<Rightarrow> nat \<times> nat \<times> string" where
  "read_digits radix [] acc n = (acc, n, [])"
| "read_digits radix (c # cs) acc n =
     (case to_digit radix c of
        None \<Rightarrow> (acc, n, c # cs)
      | Some d \<Rightarrow> read_digits radix cs (acc * radix + d) (n + 1))"

definition read_number :: "nat \<Rightarrow> nat \<Rightarrow> nat \<Rightarrow> bool \<Rightarrow> string \<Rightarrow> (nat \<times> string) option" where
  "read_number radix max_digits bound allow_zero_prefix s =
     (let (v, n, rest) = read_digits radix s 0 0 in
      if n > max_digits \<or> n = 0 \<or> (\<not> allow_zero_prefix \<and> hd s = CHR ''0'' \<and> n > 1) \<or> v \<ge> bound
      then None else Some (v, rest))"

definition read_sep :: "char \<Rightarrow> nat \<Rightarrow> string \<Rightarrow> string option" where
  "read_sep sep i s =
     (if i = 0 then Some s
      else case s of [] \<Rightarrow> None | c # cs \<Rightarrow> if c = sep then Some cs else None)"

definition read_octet :: "nat \<Rightarrow> string \<Rightarrow> (nat \<times> string) option" where
  "read_octet i s = Option.bind (read_sep CHR ''.'' i s) (read_number 10 3 256 False)"

definition read_ipv4 :: "string \<Rightarrow> (u32 \<times> string) option" where
  "read_ipv4 s =
     Option.bind (read_octet 0 s) (\<lambda>(a, s).
     Option.bind (read_octet 1 s) (\<lambda>(b, s).
     Option.bind (read_octet 2 s) (\<lambda>(c, s).
     Option.bind (read_octet 3 s) (\<lambda>(d, s).
       Some (get32 [of_nat a, of_nat b, of_nat c, of_nat d], s)))))"

text \<open>\<open>read_groups\<close>: the groups read, whether they end in an embedded IPv4 address, the rest.\<close>

fun read_groups :: "nat \<Rightarrow> nat \<Rightarrow> nat \<Rightarrow> string \<Rightarrow> nat list \<times> bool \<times> string" where
  "read_groups 0 i limit s = ([], False, s)"
| "read_groups (Suc k) i limit s =
     (case (if i < limit - 1 then Option.bind (read_sep CHR '':'' i s) read_ipv4 else None) of
        Some (v4, rest) \<Rightarrow>
          ([unat v4 div 65536, unat v4 mod 65536], True, rest)
      | None \<Rightarrow>
          (case Option.bind (read_sep CHR '':'' i s) (read_number 16 4 65536 True) of
             Some (g, rest) \<Rightarrow>
               (let (gs, v4, rest') = read_groups k (i + 1) limit rest in (g # gs, v4, rest'))
           | None \<Rightarrow> ([], False, s)))"

definition read_ipv6 :: "string \<Rightarrow> (u128 \<times> string) option" where
  "read_ipv6 s =
     (let (head, head_v4, s1) = read_groups 8 0 8 s in
      if length head = 8 then Some (v6_of_segments head, s1)
      else if head_v4 then None
      else case s1 of
        c1 # c2 # s2 \<Rightarrow>
          if c1 = CHR '':'' \<and> c2 = CHR '':'' then
            let limit = 8 - (length head + 1);
                (tail, _, s3) = read_groups limit 0 limit s2
            in Some (v6_of_segments
                       (head @ replicate (8 - length head - length tail) 0 @ tail), s3)
          else None
      | _ \<Rightarrow> None)"

definition parse_ip :: "string \<Rightarrow> ip_addr option" where
  "parse_ip s =
     (case (case read_ipv4 s of
              Some (a, r) \<Rightarrow> Some (V4 a, r)
            | None \<Rightarrow> map_option (\<lambda>(a, r). (V6 a, r)) (read_ipv6 s)) of
        Some (ip, []) \<Rightarrow> Some ip
      | _ \<Rightarrow> None)"

definition parse_ipv4 :: "string \<Rightarrow> u32 option" where
  "parse_ipv4 s =
     (if length s > 15 then None
      else case read_ipv4 s of Some (a, []) \<Rightarrow> Some a | _ \<Rightarrow> None)"

definition parse_ipv6 :: "string \<Rightarrow> u128 option" where
  "parse_ipv6 s = (case read_ipv6 s of Some (a, []) \<Rightarrow> Some a | _ \<Rightarrow> None)"

section \<open>Lemmas\<close>

lemma read_digits_show_nat:
  assumes "case rest of [] \<Rightarrow> True | c # _ \<Rightarrow> to_digit 10 c = None"
  shows "read_digits 10 (show_nat n @ rest) 0 0 = (n, length (show_nat n), rest)"
proof -
  have end_rest: "read_digits 10 rest acc k = (acc, k, rest)" for acc k
    using assms by (cases rest) auto
  have digs: "digits_val 10 acc cs = Some v \<Longrightarrow>
      read_digits 10 (cs @ rest) acc k = (v, k + length cs, rest)" for cs acc k v
    by (induction cs arbitrary: acc k) (auto simp: end_rest split: option.splits)
  show ?thesis using digs [OF digits_val_show_nat [of n], of 0] by simp
qed

lemma show_nat_hd: "0 < n \<Longrightarrow> hd (show_nat n) \<noteq> CHR ''0''"
proof (induction n rule: show_nat.induct)
  case (1 n)
  show ?case
  proof (cases "n < 10")
    case True
    have "digit_char n \<noteq> CHR ''0''"
    proof
      assume "digit_char n = CHR ''0''"
      then have "(of_char (digit_char n) :: nat) = 48" by simp
      with True 1(2) show False by (simp add: digit_char_code)
    qed
    with True show ?thesis by (simp add: show_nat.simps [of n])
  next
    case False
    with 1 show ?thesis by (simp add: show_nat.simps [of n])
  qed
qed

lemma length_show_nat_byte: "n < 256 \<Longrightarrow> length (show_nat n) \<le> 3"
  by (simp add: show_nat.simps [of n] show_nat.simps [of "n div 10"]
      show_nat.simps [of "n div 10 div 10"])

lemma read_number_show_nat:
  assumes "n < 256" "case rest of [] \<Rightarrow> True | c # _ \<Rightarrow> to_digit 10 c = None"
  shows "read_number 10 3 256 False (show_nat n @ rest) = Some (n, rest)"
proof -
  have "\<not> (hd (show_nat n @ rest) = CHR ''0'' \<and> length (show_nat n) > 1)"
    using show_nat_hd [of n] by (cases "n = 0") (auto simp: show_nat.simps [of 0])
  then show ?thesis
    using read_digits_show_nat [OF assms(2), of n] length_show_nat_byte [OF assms(1)] assms(1)
    by (auto simp: read_number_def)
qed

lemma be32_split: "\<exists>a b c d. be32 x = [a, b, c, d]"
proof -
  have "length (be32 x) = Suc (Suc (Suc (Suc 0)))" by simp
  then show ?thesis unfolding length_Suc_conv by auto
qed

lemma read_ipv4_show:
  assumes "case rest of [] \<Rightarrow> True | c # _ \<Rightarrow> to_digit 10 c = None"
  shows "read_ipv4 (show_ipv4 a @ rest) = Some (a, rest)"
proof -
  obtain p q r s where b: "be32 a = [p, q, r, s]" using be32_split by blast
  have dot: "to_digit 10 CHR ''.'' = None" by code_simp
  have a: "get32 [p, q, r, s] = a" using get_be(2) [of a] b by simp
  have n: "read_number 10 3 256 False (show_nat (unat x) @ CHR ''.'' # t) = Some (unat x, CHR ''.'' # t)"
    for x :: u8 and t
    by (rule read_number_show_nat) (simp_all add: byte_lt dot)
  have l: "read_number 10 3 256 False (show_nat (unat s) @ rest) = Some (unat s, rest)"
    by (rule read_number_show_nat [OF byte_lt assms])
  show ?thesis
    by (simp add: read_ipv4_def show_ipv4_def b read_octet_def read_sep_def n l a)
qed

lemma parse_ip_show_v4: "parse_ip (show_ip (V4 a)) = Some (V4 a)"
  using read_ipv4_show [of "[]" a] by (simp add: parse_ip_def)

lemma length_show_ipv4: "length (show_ipv4 a) \<le> 15"
proof -
  obtain p q r s where b: "be32 a = [p, q, r, s]" using be32_split by blast
  have "length (show_nat (unat x)) \<le> 3" for x :: u8
    by (rule length_show_nat_byte [OF byte_lt])
  from this [of p] this [of q] this [of r] this [of s] show ?thesis
    by (simp add: show_ipv4_def b)
qed

lemma parse_ipv4_show: "parse_ipv4 (show_ipv4 a) = Some a"
  using read_ipv4_show [of "[]" a] length_show_ipv4 [of a] by (simp add: parse_ipv4_def)

section \<open>Lemmas: IPv6\<close>

lemma digits_base:
  "(b :: nat) > 0 \<Longrightarrow> foldl (\<lambda>acc s. acc * b + s) 0 (map (\<lambda>i. n div b ^ (k - 1 - i) mod b) [0..<k]) = n mod b ^ k"
proof (induction k arbitrary: n)
  case 0
  then show ?case by simp
next
  case (Suc k)
  have eq: "map (\<lambda>i. n div b ^ (k - i) mod b) [0..<k]
      = map (\<lambda>i. (n div b) div b ^ (k - 1 - i) mod b) [0..<k]"
  proof (rule map_cong [OF refl])
    fix i assume "i \<in> set [0..<k]"
    then have "b ^ (k - i) = b * b ^ (k - 1 - i)" by (simp flip: power_Suc add: Suc_diff_Suc)
    then show "n div b ^ (k - i) mod b = n div b div b ^ (k - 1 - i) mod b"
      by (simp add: div_mult2_eq)
  qed
  have "foldl (\<lambda>acc s. acc * b + s) 0 (map (\<lambda>i. n div b ^ (k - i) mod b) [0..<k])
      = (n div b) mod b ^ k"
    unfolding eq by (rule Suc.IH [OF Suc.prems])
  then have "foldl (\<lambda>acc s. acc * b + s) 0 (map (\<lambda>i. n div b ^ (k - i) mod b) [0..<Suc k])
      = (n div b) mod b ^ k * b + n mod b"
    by simp
  also have "\<dots> = n mod b ^ Suc k"
    using mod_mult2_eq [of n b "b ^ k"] by (simp add: mult.commute)
  finally show ?case by simp
qed

lemma v6_of_segments_of [simp]: "v6_of_segments (v6_segments a) = a"
proof -
  have "unat a < 65536 ^ 8" using unsigned_less [of a, where 'a = nat] by simp
  moreover have "foldl (\<lambda>acc s. acc * 65536 + s) 0 (v6_segments a) = unat a mod 65536 ^ 8"
    using digits_base [of 65536 "unat a" 8] by (simp add: v6_segments_def)
  ultimately show ?thesis by (simp add: v6_of_segments_def)
qed

lemma length_v6_segments [simp]: "length (v6_segments a) = 8"
  by (simp add: v6_segments_def)

lemma v6_segments_lt: "list_all (\<lambda>g. g < 65536) (v6_segments a)"
  by (simp add: v6_segments_def list_all_iff)

lemma digits_val_show_hex: "digits_val 16 0 (show_hex n) = Some n"
proof (induction n rule: show_hex.induct)
  case (1 n)
  then show ?case
    by (cases "n < 16")
       (simp_all add: show_hex.simps [of n] digits_val_append to_digit_digit_char)
qed

lemma show_hex_nonempty [simp]: "show_hex n \<noteq> []"
  by (subst show_hex.simps) simp

lemma length_show_hex: "n < 65536 \<Longrightarrow> length (show_hex n) \<le> 4"
  by (simp add: show_hex.simps [of n] show_hex.simps [of "n div 16"]
      show_hex.simps [of "n div 16 div 16"] show_hex.simps [of "n div 16 div 16 div 16"])

definition hex_end :: "string \<Rightarrow> bool" where
  "hex_end rest \<longleftrightarrow> (case rest of [] \<Rightarrow> True | c # _ \<Rightarrow> c = CHR '':'' \<or> c = CHR '']'')"

lemma colon_no_digit: "to_digit r CHR '':'' = None" "to_digit r CHR '']'' = None"
  by (simp_all add: to_digit_def)

lemma read_number_show_hex:
  assumes "n < 65536" "hex_end rest"
  shows "read_number 16 4 65536 True (show_hex n @ rest) = Some (n, rest)"
proof -
  have end_rest: "read_digits 16 rest acc k = (acc, k, rest)" for acc k
    using assms(2) by (cases rest) (auto simp: hex_end_def colon_no_digit)
  have digs: "digits_val 16 acc cs = Some v \<Longrightarrow>
      read_digits 16 (cs @ rest) acc k = (v, k + length cs, rest)" for cs acc k v
    by (induction cs arbitrary: acc k) (auto simp: end_rest split: option.splits)
  show ?thesis
    using digs [OF digits_val_show_hex [of n], of 0] length_show_hex [OF assms(1)] assms(1)
    by (auto simp: read_number_def)
qed

lemma read_digits_rest: "read_digits r s acc n = (v, k, rest) \<Longrightarrow> set rest \<subseteq> set s"
  by (induction r s acc n rule: read_digits.induct) (auto split: option.splits)

lemma read_number_rest: "read_number r m b z s = Some (v, rest) \<Longrightarrow> set rest \<subseteq> set s"
  by (auto simp: read_number_def Let_def dest: read_digits_rest split: prod.splits if_splits)

lemma read_ipv4_no_dot: "CHR ''.'' \<notin> set s \<Longrightarrow> read_ipv4 s = None"
proof -
  assume dot: "CHR ''.'' \<notin> set s"
  have "read_octet 1 r = None" if "read_octet 0 s = Some (v, r)" for v r
  proof -
    have "set r \<subseteq> set s" using that read_number_rest by (simp add: read_octet_def read_sep_def)
    with dot show ?thesis by (cases r) (auto simp: read_octet_def read_sep_def)
  qed
  then show ?thesis by (cases "read_octet 0 s") (auto simp: read_ipv4_def)
qed

text \<open>The text of groups at index \<open>i\<close> and after.\<close>

fun groups_text :: "nat \<Rightarrow> nat list \<Rightarrow> string" where
  "groups_text i [] = []"
| "groups_text i (g # gs) = (if i = 0 then [] else '':'') @ show_hex g @ groups_text (Suc i) gs"

lemma groups_text_join: "join_with '':'' (map show_hex gs) = groups_text 0 gs"
proof -
  have later: "i > 0 \<Longrightarrow> gs \<noteq> [] \<Longrightarrow> groups_text i gs = '':'' @ join_with '':'' (map show_hex gs)" for i gs
  proof (induction i gs rule: groups_text.induct)
    case (2 i g gs)
    then show ?case by (cases gs) auto
  qed simp
  show ?thesis
  proof (cases gs)
    case (Cons a bs)
    show ?thesis
    proof (cases bs)
      case (Cons b cs)
      have "join_with '':'' (map show_hex (b # cs)) = show_hex b @ groups_text (Suc (Suc 0)) cs"
        using later [of "Suc 0" "b # cs"] by simp
      then show ?thesis using \<open>gs = a # bs\<close> Cons by simp
    qed (simp add: \<open>gs = a # bs\<close>)
  qed simp
qed

lemma show_hex_no_dot: "CHR ''.'' \<notin> set (show_hex n)"
proof (induction n rule: show_hex.induct)
  case (1 n)
  have "digit_char d \<noteq> CHR ''.''" if "d < 16" for d using that by (intro digit_char_neq) auto
  then have "digit_char n \<noteq> CHR ''.''" if "n < 16" "digit_char (n mod 16) \<noteq> CHR ''.''" using that by simp
  moreover have "digit_char (n mod 16) \<noteq> CHR ''.''" by (rule digit_char_neq) auto
  ultimately show ?case using 1 by (auto simp: show_hex.simps [of n])
qed

lemma groups_text_no_dot: "CHR ''.'' \<notin> set (groups_text i gs)"
  by (induction i gs rule: groups_text.induct) (auto simp: show_hex_no_dot)

text \<open>Where the group reader stops: at the end, at \<open>::\<close> or at a bracket.\<close>

definition groups_end :: "string \<Rightarrow> bool" where
  "groups_end rest \<longleftrightarrow> rest = [] \<or> (\<exists>r. rest = '':'' @ '':'' @ r) \<or> (\<exists>r. rest = '']'' @ r)"

text \<open>What may follow a printed address: nothing, or a bracket.\<close>

definition ip_end :: "string \<Rightarrow> bool" where
  "ip_end rest \<longleftrightarrow> (rest = [] \<or> (\<exists>r. rest = '']'' @ r)) \<and> CHR ''.'' \<notin> set rest"

lemma read_number_colon:
  "read_number 16 4 65536 z (CHR '':'' # r) = None" "read_number 16 4 65536 z (CHR '']'' # r) = None"
  by (simp_all add: read_number_def colon_no_digit)

lemma read_groups_end:
  "groups_end rest \<Longrightarrow> CHR ''.'' \<notin> set rest \<Longrightarrow> read_groups k i limit rest = ([], False, rest)"
proof (cases k)
  case (Suc k')
  assume r: "groups_end rest" "CHR ''.'' \<notin> set rest"
  have v4: "Option.bind (read_sep CHR '':'' i rest) read_ipv4 = None"
    using r by (auto simp: groups_end_def read_sep_def intro!: read_ipv4_no_dot split: option.splits)
  have "Option.bind (read_sep CHR '':'' i rest) (read_number 16 4 65536 True) = None"
    using r(1) by (auto simp: groups_end_def read_sep_def read_number_colon)
      (auto simp: read_number_def)
  with v4 Suc show ?thesis by simp
qed simp

lemma read_groups_text:
  "list_all (\<lambda>g. g < 65536) gs \<Longrightarrow> length gs \<le> k \<Longrightarrow> groups_end rest \<Longrightarrow> CHR ''.'' \<notin> set rest \<Longrightarrow>
     read_groups k i limit (groups_text i gs @ rest) = (gs, False, rest)"
proof (induction gs arbitrary: k i)
  case Nil
  then show ?case by (simp add: read_groups_end)
next
  case (Cons g gs)
  then obtain k' where k: "k = Suc k'" "length gs \<le> k'" by (cases k) auto
  let ?r = "groups_text (Suc i) gs @ rest"
  have sep: "read_sep CHR '':'' i (groups_text i (g # gs) @ rest) = Some (show_hex g @ ?r)"
    by (simp add: read_sep_def)
  have "CHR ''.'' \<notin> set (show_hex g @ ?r)"
    using show_hex_no_dot groups_text_no_dot Cons.prems(4) by simp
  then have v4: "read_ipv4 (show_hex g @ ?r) = None" by (rule read_ipv4_no_dot)
  have "hex_end ?r"
    using Cons.prems(3) by (cases gs) (auto simp: hex_end_def groups_end_def)
  then have num: "read_number 16 4 65536 True (show_hex g @ ?r) = Some (g, ?r)"
    using Cons.prems(1) by (intro read_number_show_hex) simp_all
  have "read_groups k' (i + 1) limit ?r = (gs, False, rest)"
    using Cons.IH [of k' "Suc i"] Cons.prems k by simp
  then show ?case by (simp only: k read_groups.simps sep) (simp add: v4 num)
qed

text \<open>The run that is compressed is a run of zeros.\<close>

lemma zero_runs_ok:
  assumes "zero_runs segs i (cs, cl) (ls, ll) = (st, len)"
    and "i = length pre" "cl = 0 \<or> (cs + cl = i \<and> drop cs pre = replicate cl 0)"
    and "ll = 0 \<or> (ls + ll \<le> i \<and> take ll (drop ls pre) = replicate ll 0)"
  shows "len = 0 \<or> (st + len \<le> length (pre @ segs) \<and> take len (drop st (pre @ segs)) = replicate len 0)"
  using assms
proof (induction segs arbitrary: i cs cl ls ll pre)
  case Nil
  then show ?case by auto
next
  case (Cons s segs)
  have grow: "ll = 0 \<or> (ls + ll \<le> Suc i \<and> take ll (drop ls (pre @ [s])) = replicate ll 0)"
    using Cons.prems(2,4) by auto
  show ?case
  proof (cases "s = 0")
    case False
    then show ?thesis
      using Cons.IH [of "Suc i" 0 0 ls ll "pre @ [s]"] Cons.prems grow by simp
  next
    case True
    let ?cs = "if cl = 0 then i else cs"
    have cur: "?cs + Suc cl = Suc i" "drop ?cs (pre @ [s]) = replicate (Suc cl) 0"
      using True Cons.prems(2,3) by (auto simp: replicate_append_same)
    have lg: "Suc cl = 0 \<or> (?cs + Suc cl \<le> Suc i
        \<and> take (Suc cl) (drop ?cs (pre @ [s])) = replicate (Suc cl) 0)"
      using cur by simp
    show ?thesis
      using Cons.IH [of "Suc i" ?cs "Suc cl" ?cs "Suc cl" "pre @ [s]"]
        Cons.IH [of "Suc i" ?cs "Suc cl" ls ll "pre @ [s]"] Cons.prems(1,2) True cur grow lg
      by (simp add: Let_def split: if_splits)
  qed
qed

lemma read_ipv4_colon: "read_ipv4 (CHR '':'' # r) = None"
  by (simp add: read_ipv4_def read_octet_def read_sep_def read_number_def colon_no_digit)

lemma replicate_5: "replicate 5 x = [x, x, x, x, x]"
  by (simp add: eval_nat_numeral)

lemma v6_mapped_segments:
  assumes "take 6 (v6_segments a) = [0, 0, 0, 0, 0, 65535]"
  shows "v6_segments a = replicate 5 0 @ [65535, unat (ucast a :: u32) div 65536, unat (ucast a :: u32) mod 65536]"
proof -
  have u: "unat (ucast a :: u32) = unat a mod 2 ^ 32"
    by (simp add: unsigned_ucast_eq take_bit_eq_mod)
  have "v6_segments a = take 6 (v6_segments a) @ drop 6 (v6_segments a)" by simp
  also have "drop 6 (v6_segments a) = [unat a div 65536 mod 65536, unat a mod 65536]"
    by (simp add: v6_segments_def upt_rec)
  also have "unat a div 65536 mod 65536 = unat (ucast a :: u32) div 65536"
  proof -
    have "unat a mod 2 ^ 32 = 65536 * (unat a div 65536 mod 65536) + unat a mod 65536"
      using mod_mult2_eq [of "unat a" 65536 65536] by simp
    then show ?thesis unfolding u by simp
  qed
  also have "unat a mod 65536 = unat (ucast a :: u32) mod 65536"
    unfolding u by (rule mod_mod_cancel [symmetric]) simp
  finally show ?thesis unfolding assms replicate_5 by simp
qed

lemma read_groups_mapped:
  assumes "ip_end rest"
  shows "read_groups 7 0 7 (''ffff:'' @ show_ipv4 x @ rest) = ([65535, unat x div 65536, unat x mod 65536], True, rest)"
proof -
  have d: "to_digit 10 CHR ''f'' = None" "to_digit 16 CHR ''f'' = Some 15"
    by (simp_all add: to_digit_def)
  have v4f: "read_ipv4 (''ffff:'' @ s) = None" for s
    by (simp add: read_ipv4_def read_octet_def read_sep_def read_number_def d)
  have num: "read_number 16 4 65536 True (''ffff:'' @ s) = Some (65535, '':'' @ s)" for s
    by (simp add: read_number_def d colon_no_digit)
  have v4: "read_ipv4 (show_ipv4 x @ rest) = Some (x, rest)"
    using assms by (intro read_ipv4_show) (auto simp: ip_end_def colon_no_digit)
  have "read_groups (Suc k) 1 7 ('':'' @ show_ipv4 x @ rest) = ([unat x div 65536, unat x mod 65536], True, rest)"
    for k by (simp add: read_sep_def v4)
  then have "read_groups (Suc (Suc k)) 0 7 (''ffff:'' @ show_ipv4 x @ rest)
      = ([65535, unat x div 65536, unat x mod 65536], True, rest)" for k
    by (subst read_groups.simps) (simp add: read_sep_def v4f [simplified] num [simplified] del: read_groups.simps)
  then have "read_groups (Suc (Suc 5)) 0 7 (''ffff:'' @ show_ipv4 x @ rest)
      = ([65535, unat x div 65536, unat x mod 65536], True, rest)" by blast
  moreover have "Suc (Suc 5) = 7" by simp
  ultimately show ?thesis by (simp only:)
qed

lemma read_groups_colon: "read_groups k 0 limit (CHR '':'' # r) = ([], False, CHR '':'' # r)"
  by (cases k) (simp_all add: read_sep_def read_ipv4_colon read_number_colon)

lemma read_ipv6_show:
  assumes "ip_end rest"
  shows "read_ipv6 (show_ipv6 a @ rest) = Some (a, rest)"
proof -
  let ?segs = "v6_segments a"
  have ends: "groups_end rest" "CHR ''.'' \<notin> set rest" using assms by (auto simp: ip_end_def groups_end_def)
  show ?thesis
  proof (cases "take 6 ?segs = [0, 0, 0, 0, 0, 65535]")
    case True
    let ?x = "ucast a :: u32"
    have s: "show_ipv6 a = '':'' @ '':'' @ ''ffff:'' @ show_ipv4 ?x"
      using True by (simp add: show_ipv6_def)
    have head: "read_groups 8 0 8 (show_ipv6 a @ rest) = ([], False, show_ipv6 a @ rest)"
      unfolding s by (simp add: read_groups_colon del: read_groups.simps)
    have "v6_of_segments (replicate 5 0 @ [65535, unat ?x div 65536, unat ?x mod 65536]) = a"
      using v6_of_segments_of [of a] unfolding v6_mapped_segments [OF True] .
    then show ?thesis
      unfolding read_ipv6_def head using read_groups_mapped [OF assms, of ?x]
      by (simp add: s del: read_groups.simps)
  next
    case False
    obtain st len where z: "zero_runs ?segs 0 (0, 0) (0, 0) = (st, len)" by fastforce
    have lt: "list_all (\<lambda>g. g < 65536) ?segs" by (rule v6_segments_lt)
    show ?thesis
    proof (cases "len > 1")
      case comp: True
      define h where "h = take st ?segs"
      define t where "t = drop (st + len) ?segs"
      have run: "st + len \<le> 8" "take len (drop st ?segs) = replicate len 0"
        using zero_runs_ok [OF z, of "[]"] comp by auto
      have segs: "?segs = h @ replicate len 0 @ t"
        using run by (metis append_take_drop_id drop_drop add.commute h_def t_def)
      have len: "length h = st" "length t = 8 - st - len" using run(1) by (simp_all add: h_def t_def)
      have lth: "list_all (\<lambda>g. g < 65536) h" "list_all (\<lambda>g. g < 65536) t"
        using lt unfolding segs by simp_all
      have s: "show_ipv6 a = groups_text 0 h @ '':'' @ '':'' @ groups_text 0 t"
        using False z comp by (simp add: show_ipv6_def Let_def groups_text_join h_def t_def)
      have "read_groups 8 0 8 (groups_text 0 h @ '':'' @ '':'' @ groups_text 0 t @ rest)
          = (h, False, '':'' @ '':'' @ groups_text 0 t @ rest)"
        using lth(1) len run(1) ends(2)
        by (intro read_groups_text) (auto simp: groups_end_def groups_text_no_dot)
      then have "read_groups 8 0 8 (show_ipv6 a @ rest) = (h, False, '':'' @ '':'' @ groups_text 0 t @ rest)"
        unfolding s by (simp only: append_assoc)
      moreover have "read_groups (7 - st) 0 (7 - st) (groups_text 0 t @ rest) = (t, False, rest)"
        using read_groups_text [of t "7 - st" rest 0 "7 - st"] lth(2) len comp ends
        by (simp del: read_groups.simps)
      moreover have "v6_of_segments (h @ replicate len 0 @ t) = a"
        using v6_of_segments_of [of a] segs by simp
      moreover have "8 - st - (8 - st - len) = len" using run(1) by simp
      ultimately show ?thesis
        using len run(1) comp by (simp add: read_ipv6_def del: read_groups.simps)
    next
      case full: False
      have s: "show_ipv6 a = groups_text 0 ?segs"
        using False z full by (simp add: show_ipv6_def Let_def groups_text_join)
      have "read_groups 8 0 8 (show_ipv6 a @ rest) = (?segs, False, rest)"
        unfolding s using read_groups_text [of ?segs 8 rest 0 8] lt ends
        by (simp del: read_groups.simps)
      then show ?thesis by (simp add: read_ipv6_def del: read_groups.simps)
    qed
  qed
qed

lemma ip_end_Nil [simp]: "ip_end []"
  by (simp add: ip_end_def)

lemma read_ipv4_show_v6: "read_ipv4 (show_ipv6 a) = None"
proof (cases "take 6 (v6_segments a) = [0, 0, 0, 0, 0, 65535]")
  case True
  then show ?thesis by (simp add: show_ipv6_def read_ipv4_colon)
next
  case False
  then show ?thesis
    by (intro read_ipv4_no_dot)
       (auto simp: show_ipv6_def Let_def groups_text_join groups_text_no_dot split: prod.splits)
qed

text \<open>Printing and parsing addresses.\<close>

lemma parse_show_ip [simp]: "parse_ip (show_ip ip) = Some ip"
  by (cases ip) (simp_all add: parse_ip_show_v4 [simplified] parse_ip_def read_ipv4_show_v6 read_ipv6_show [of "[]", simplified]
      read_ipv4_show [of "[]", simplified])

lemma show_ip_inj [simp]: "show_ip a = show_ip b \<longleftrightarrow> a = b"
  by (metis option.inject parse_show_ip)

text \<open>The characters of a printed address.\<close>

lemma list_all_show_hex: "(\<And>d. d < 16 \<Longrightarrow> P (digit_char d)) \<Longrightarrow> list_all P (show_hex n)"
proof (induction n rule: show_hex.induct)
  case (1 n)
  then show ?case by (cases "n < 16") (simp_all add: show_hex.simps [of n])
qed

lemma list_all_show_ip:
  assumes d: "\<And>d. d < 16 \<Longrightarrow> P (digit_char d)" and "P CHR ''.''" "P CHR '':''"
  shows "list_all P (show_ip ip)"
proof -
  have v4: "list_all P (show_ipv4 a)" for a
    unfolding show_ipv4_def
    by (rule list_all_join) (use assms(2) list_all_show_nat [of P, OF d] in \<open>simp_all add: list.pred_map o_def list.pred_set\<close>)
  have h: "list_all P (join_with '':'' (map show_hex gs))" for gs
    by (rule list_all_join) (use assms(3) list_all_show_hex [of P, OF d] in \<open>simp_all add: list.pred_map o_def list.pred_set\<close>)
  have "P CHR ''f''" using d [of 15] by (simp add: digit_char_def char_of_def bit_iff_odd)
  then show ?thesis using v4 h assms(3)
    by (cases ip) (auto simp: show_ipv6_def Let_def split: prod.splits)
qed

end
