(* ===== verification/Expiring.thy ===== *)
theory Expiring
  imports Rust_Std
begin

text \<open>
  Tables whose entries expire. Several components keep a hash map that drops its dead entries
  (\<open>retain\<close>) at the start of most operations. The locale shows that the pruning cannot be
  observed: at any later time such a table answers like one that never prunes.
\<close>

definition prune :: "('v \<Rightarrow> instant \<Rightarrow> bool) \<Rightarrow> instant \<Rightarrow> ('k, 'v) fmap \<Rightarrow> ('k, 'v) fmap" where
  "prune alive now m = fm_retain (\<lambda>_ v. alive v now) m"

definition live :: "('v \<Rightarrow> instant \<Rightarrow> bool) \<Rightarrow> instant \<Rightarrow> ('k, 'v) fmap \<Rightarrow> 'k \<Rightarrow> 'v option" where
  "live alive now m k =
     (case fmlookup m k of None \<Rightarrow> None | Some v \<Rightarrow> if alive v now then Some v else None)"

lemma prune_lookup [lookup_simps]: "fmlookup (prune alive now m) k = live alive now m k"
  by (simp add: prune_def live_def)

lemma live_empty [simp]: "live alive now fmempty k = None"
  by (simp add: live_def)

lemma live_upd: "live alive now (fmupd k v m) j =
    (if j = k then if alive v now then Some v else None else live alive now m j)"
  by (simp add: live_def)

lemma live_drop: "live alive now (fmdrop k m) j = (if j = k then None else live alive now m j)"
  by (simp add: live_def)

lemma live_lookup: "live alive now m k = Some v \<Longrightarrow> fmlookup m k = Some v \<and> alive v now"
  by (auto simp: live_def split: option.splits if_splits)

text \<open>Two tables with the same live entries from \<open>now\<close> on.\<close>

definition same_live ::
  "('v \<Rightarrow> instant \<Rightarrow> bool) \<Rightarrow> instant \<Rightarrow> ('k, 'v) fmap \<Rightarrow> ('k, 'v) fmap \<Rightarrow> bool" where
  "same_live alive now m n \<longleftrightarrow> (\<forall>k. live alive now m k = live alive now n k)"

locale expiring =
  fixes alive :: "'v \<Rightarrow> instant \<Rightarrow> bool"
  assumes alive_antimono: "now \<le> later \<Longrightarrow> alive v later \<Longrightarrow> alive v now"
begin

lemma live_prune:
  "now \<le> later \<Longrightarrow> live alive later (prune alive now m) k = live alive later m k"
  by (auto simp: live_def prune_lookup split: option.splits dest: alive_antimono)

lemma prune_prune:
  "now \<le> later \<Longrightarrow> prune alive later (prune alive now m) = prune alive later m"
  by (rule fmap_ext) (simp add: prune_lookup live_prune)

lemma live_later:
  "now \<le> later \<Longrightarrow> live alive later m k = Some v \<Longrightarrow> live alive now m k = Some v"
  by (auto simp: live_def split: option.splits if_splits dest: alive_antimono)

lemma same_live_refl: "same_live alive now m m"
  by (simp add: same_live_def)

lemma same_live_later:
  assumes "now \<le> later" "same_live alive now m n"
  shows "same_live alive later m n"
proof -
  have "live alive later m k = live alive later n k" for k
    using assms(2) [unfolded same_live_def, rule_format, of k] alive_antimono [OF assms(1)]
    by (auto simp: live_def split: option.splits if_splits)
  then show ?thesis by (simp add: same_live_def)
qed

lemma same_live_prune:
  "now \<le> later \<Longrightarrow> same_live alive later (prune alive now m) n = same_live alive later m n"
  by (simp add: same_live_def live_prune)

lemma same_live_upd: "same_live alive now m n \<Longrightarrow> same_live alive now (fmupd k v m) (fmupd k v n)"
  by (simp add: same_live_def live_upd)

lemma same_live_drop: "same_live alive now m n \<Longrightarrow> same_live alive now (fmdrop k m) (fmdrop k n)"
  by (simp add: same_live_def live_drop)

lemma same_live_prune_eq: "same_live alive now m n \<Longrightarrow> prune alive now m = prune alive now n"
  by (rule fmap_ext) (simp add: prune_lookup same_live_def)

lemma len_prune_antimono:
  "now \<le> later \<Longrightarrow> fm_len (prune alive later m) \<le> fm_len (prune alive now m)"
  using fm_len_retain_le [of _ "prune alive now m"] prune_prune [of now later m]
  by (metis prune_def)

end

end
