(* ===== verification/Const_Time.thy ===== *)
theory Const_Time
  imports NF_Prelude
begin

text \<open>
  Comparison without an early exit: the loops of \<open>common/src/nlink/session.rs\<close> and
  \<open>knock.rs\<close> over two MACs, and \<open>constant_time_eq\<close> of \<open>common/src/frp/msg.rs\<close>.
\<close>

unbundle bit_operations_syntax

text \<open>The comparison loop over the two byte strings, as the code accumulates it.\<close>

definition ct_diff :: "bytes \<Rightarrow> bytes \<Rightarrow> u8" where
  "ct_diff got want = foldl (\<lambda>diff (a, b). diff OR (a XOR b)) 0 (zip got want)"

definition constant_time_eq :: "string \<Rightarrow> string \<Rightarrow> bool" where
  "constant_time_eq a b \<longleftrightarrow>
     (if length a \<noteq> length b then False else ct_diff (as_bytes a) (as_bytes b) = 0)"

lemma foldl_or_eq_0:
  "foldl (\<lambda>diff (a, b). diff OR (a XOR b)) (d :: u8) ps = 0 \<longleftrightarrow> d = 0 \<and> (\<forall>(a, b) \<in> set ps. a = b)"
proof (induction ps arbitrary: d)
  case Nil
  then show ?case by simp
next
  case (Cons p ps)
  obtain a b where p: "p = (a, b)" by (cases p)
  have "d OR (a XOR b) = 0 \<longleftrightarrow> d = 0 \<and> a = b"
  proof
    assume 0: "d OR (a XOR b) = 0"
    have "\<not> bit d n \<and> (bit a n \<longleftrightarrow> bit b n)" for n
      using arg_cong [OF 0, of "\<lambda>w. bit w n"] by (auto simp: bit_or_iff bit_xor_iff)
    then show "d = 0 \<and> a = b" by (auto intro!: bit_eqI)
  qed simp
  then show ?case using Cons p by auto
qed

lemma ct_diff_eq: "length got = length want \<Longrightarrow> ct_diff got want = 0 \<longleftrightarrow> got = want"
  by (simp add: ct_diff_def foldl_or_eq_0 list_eq_iff_zip_eq)

lemma constant_time_eq_iff [simp]: "constant_time_eq a b \<longleftrightarrow> a = b"
proof (cases "length a = length b")
  case True
  then have "ct_diff (as_bytes a) (as_bytes b) = 0 \<longleftrightarrow> a = b"
    using ct_diff_eq [of "as_bytes a" "as_bytes b"] by simp
  with True show ?thesis by (simp add: constant_time_eq_def)
qed (auto simp: constant_time_eq_def)

end
