(* ===== verification/NLink_Tokens.thy ===== *)
theory NLink_Tokens
  imports NLink_Frame Expiring Const_Time
begin

text \<open>
  Identity tokens, one-time resume tokens and the resume registry
  (\<open>common/src/nlink/session.rs\<close>). SHA-256 and HMAC-SHA-256 are external crates: they are the
  arguments \<open>sha256\<close> and \<open>hmac\<close> of the definitions. Each time the Rust code reads a clock, the
  model takes the reading as an argument. Additions on \<open>u64\<close> wrap, as in the release profile.
\<close>

datatype token_error =
    TokenFormat | TokenExpNotNumber | TokenExpired | TokenNonceNotHex | TokenNonceLen
  | TokenSigNotHex | TokenSigLen | TokenSigMismatch
  | TokenNotPending | TokenPendingExpired | TokenNotTheIssued
  | TokenPanic panic

type_synonym hash_fn = "bytes \<Rightarrow> bytes"
type_synonym hmac_fn = "bytes \<Rightarrow> bytes \<Rightarrow> bytes"

datatype identity_key = IdentityKey (ik_bytes: bytes)
datatype resume_key = ResumeKey (rk_bytes: bytes)

text \<open>\<open>Duration::as_secs\<close> and \<open>Duration::from_secs\<close>.\<close>

definition dur_secs :: "duration \<Rightarrow> u64" where
  "dur_secs d = of_nat (d div 10 ^ 9)"

definition from_secs :: "u64 \<Rightarrow> duration" where
  "from_secs s = unat s * 10 ^ 9"

section \<open>Identity tokens\<close>

definition identity_key_derive :: "hash_fn \<Rightarrow> string \<Rightarrow> identity_key" where
  "identity_key_derive sha256 secret =
     IdentityKey (sha256 (as_bytes ''nlink-identity|'' @ as_bytes secret))"

definition identity_message :: "string \<Rightarrow> string \<Rightarrow> u64 \<Rightarrow> bytes" where
  "identity_message run_id user e =
     as_bytes ''nlink-identity-v1'' @ [0] @ as_bytes run_id @ [0] @ as_bytes user @ [0] @ be64 e"

definition identity_issue ::
  "hmac_fn \<Rightarrow> identity_key \<Rightarrow> string \<Rightarrow> string \<Rightarrow> duration \<Rightarrow> system_time \<Rightarrow> string" where
  "identity_issue hmac key run_id user ttl now =
     (let e = unix_secs now + max (dur_secs ttl) 1;
          mac = hmac (ik_bytes key) (identity_message run_id user e)
      in ''v1.'' @ show_nat (unat e) @ ''.'' @ hex mac)"

definition check_sig :: "bytes \<Rightarrow> string \<Rightarrow> token_error + unit" where
  "check_sig want sig =
     (case unhex sig of
        Inl p \<Rightarrow> Inl (TokenPanic p)
      | Inr None \<Rightarrow> Inl TokenSigNotHex
      | Inr (Some got) \<Rightarrow>
          if length got \<noteq> length want then Inl TokenSigLen
          else if ct_diff got want \<noteq> 0 then Inl TokenSigMismatch
          else Inr ())"

definition identity_verify ::
  "hmac_fn \<Rightarrow> identity_key \<Rightarrow> string \<Rightarrow> string \<Rightarrow> string \<Rightarrow> system_time \<Rightarrow> token_error + unit" where
  "identity_verify hmac key token run_id user now =
     (case split_on CHR ''.'' token of
        [v, e, sig] \<Rightarrow>
          if v \<noteq> ''v1'' then Inl TokenFormat
          else (case parse_u64 e of
             None \<Rightarrow> Inl TokenExpNotNumber
           | Some exp \<Rightarrow>
               if unix_secs now > exp + 30 then Inl TokenExpired
               else check_sig (hmac (ik_bytes key) (identity_message run_id user exp)) sig)
      | _ \<Rightarrow> Inl TokenFormat)"

section \<open>Resume tokens\<close>

definition resume_key_derive :: "hash_fn \<Rightarrow> string \<Rightarrow> resume_key" where
  "resume_key_derive sha256 secret =
     ResumeKey (sha256 (as_bytes ''nlink-resume|'' @ as_bytes secret))"

definition resume_message ::
  "connection_id \<Rightarrow> string \<Rightarrow> string \<Rightarrow> u64 \<Rightarrow> bytes \<Rightarrow> bytes" where
  "resume_message session user client_id e nonce =
     as_bytes ''nlink-resume-v1'' @ [0] @ cid_bytes session @ be64 e @ nonce @ [0]
       @ as_bytes user @ [0] @ as_bytes client_id"

text \<open>\<open>issue\<close>, with the sixteen random bytes as its argument.\<close>

definition resume_issue ::
  "hmac_fn \<Rightarrow> resume_key \<Rightarrow> bytes \<Rightarrow> connection_id \<Rightarrow> string \<Rightarrow> string \<Rightarrow> duration \<Rightarrow> system_time
     \<Rightarrow> string" where
  "resume_issue hmac key nonce session user client_id ttl now =
     (let e = unix_secs now + max (dur_secs ttl) 1;
          sig = hmac (rk_bytes key) (resume_message session user client_id e nonce)
      in ''r1.'' @ show_nat (unat e) @ ''.'' @ hex nonce @ ''.'' @ hex sig)"

definition resume_verify ::
  "hmac_fn \<Rightarrow> resume_key \<Rightarrow> string \<Rightarrow> connection_id \<Rightarrow> string \<Rightarrow> string \<Rightarrow> system_time
     \<Rightarrow> token_error + unit" where
  "resume_verify hmac key token session user client_id now =
     (case split_on CHR ''.'' token of
        [v, e, nonce_hex, sig] \<Rightarrow>
          if v \<noteq> ''r1'' then Inl TokenFormat
          else (case parse_u64 e of
             None \<Rightarrow> Inl TokenExpNotNumber
           | Some exp \<Rightarrow>
               if unix_secs now > exp + 30 then Inl TokenExpired
               else (case unhex nonce_hex of
                  Inl p \<Rightarrow> Inl (TokenPanic p)
                | Inr None \<Rightarrow> Inl TokenNonceNotHex
                | Inr (Some nonce) \<Rightarrow>
                    if length nonce \<noteq> 16 then Inl TokenNonceLen
                    else check_sig
                           (hmac (rk_bytes key) (resume_message session user client_id exp nonce)) sig))
      | _ \<Rightarrow> Inl TokenFormat)"

section \<open>The resume registry\<close>

record resume_entry =
  re_run_id :: string
  re_user :: string
  re_trace :: trace_id
  re_proxies :: "string list"
  re_expires_at :: instant

definition resume_alive :: "resume_entry \<Rightarrow> instant \<Rightarrow> bool" where
  "resume_alive e now \<longleftrightarrow> now < re_expires_at e"

type_synonym resume_registry = "(connection_id, resume_entry) fmap"

definition rr_put ::
  "instant \<Rightarrow> resume_registry \<Rightarrow> connection_id \<Rightarrow> resume_entry \<Rightarrow> duration \<Rightarrow> resume_registry" where
  "rr_put now g cid entry ttl =
     fmupd cid (entry\<lparr>re_expires_at := now + ttl\<rparr>) (prune resume_alive now g)"

definition rr_take ::
  "instant \<Rightarrow> resume_registry \<Rightarrow> connection_id \<Rightarrow> resume_registry \<times> resume_entry option" where
  "rr_take now g cid =
     (let g' = prune resume_alive now g in (fmdrop cid g', fmlookup g' cid))"

definition rr_len :: "instant \<Rightarrow> resume_registry \<Rightarrow> resume_registry \<times> nat" where
  "rr_len now g = (let g' = prune resume_alive now g in (g', fm_len g'))"

definition rr_is_empty :: "instant \<Rightarrow> resume_registry \<Rightarrow> resume_registry \<times> bool" where
  "rr_is_empty now g = (let (g', n) = rr_len now g in (g', n = 0))"

definition rr_sweep :: "instant \<Rightarrow> resume_registry \<Rightarrow> resume_registry \<times> nat" where
  "rr_sweep now g = (let g' = prune resume_alive now g in (g', fm_len g - fm_len g'))"

section \<open>Pending resume tokens\<close>

record issued_token =
  it_token :: string
  it_session :: connection_id
  it_expires_at :: instant

definition issued_alive :: "issued_token \<Rightarrow> instant \<Rightarrow> bool" where
  "issued_alive v now \<longleftrightarrow> it_expires_at v > now"

type_synonym pending_tokens = "(connection_id, issued_token) fmap"

definition pt_issue ::
  "instant \<Rightarrow> pending_tokens \<Rightarrow> connection_id \<Rightarrow> string \<Rightarrow> duration \<Rightarrow> pending_tokens \<times> bool" where
  "pt_issue now g session token ttl =
     (fmupd session \<lparr>it_token = token, it_session = session, it_expires_at = now + ttl\<rparr>
        (prune issued_alive now g), True)"

definition pt_consume ::
  "hmac_fn \<Rightarrow> instant \<Rightarrow> pending_tokens \<Rightarrow> connection_id \<Rightarrow> string \<Rightarrow> string \<Rightarrow> string \<Rightarrow> resume_key
     \<Rightarrow> system_time \<Rightarrow> pending_tokens \<times> (token_error + unit)" where
  "pt_consume hmac inst g session token user client_id key now =
     (case fmlookup g session of
        None \<Rightarrow> (g, Inl TokenNotPending)
      | Some entry \<Rightarrow>
          if it_expires_at entry \<le> inst then (fmdrop session g, Inl TokenPendingExpired)
          else (case resume_verify hmac key token session user client_id now of
             Inl e \<Rightarrow> (g, Inl e)
           | Inr _ \<Rightarrow>
               if it_token entry \<noteq> token then (g, Inl TokenNotTheIssued)
               else (fmdrop session g, Inr ())))"

definition pt_len :: "instant \<Rightarrow> pending_tokens \<Rightarrow> pending_tokens \<times> nat" where
  "pt_len now g = (let g' = prune issued_alive now g in (g', fm_len g'))"

definition pt_is_empty :: "instant \<Rightarrow> pending_tokens \<Rightarrow> pending_tokens \<times> bool" where
  "pt_is_empty now g = (let (g', n) = pt_len now g in (g', n = 0))"

definition pt_sweep :: "instant \<Rightarrow> pending_tokens \<Rightarrow> pending_tokens \<times> nat" where
  "pt_sweep now g = (let g' = prune issued_alive now g in (g', fm_len g - fm_len g'))"

definition pt_forget :: "pending_tokens \<Rightarrow> connection_id \<Rightarrow> pending_tokens" where
  "pt_forget g session = fmdrop session g"

interpretation resume_store: expiring resume_alive
  by unfold_locales (simp add: resume_alive_def)

interpretation issued_store: expiring issued_alive
  by unfold_locales (simp add: issued_alive_def)

section \<open>Lemmas: signatures\<close>

lemma check_sig_iff: "check_sig want sig = Inr () \<longleftrightarrow> unhex sig = Inr (Some want)"
  by (auto simp: check_sig_def ct_diff_eq split: sum.splits option.splits)

lemma show_nat_no_dot: "CHR ''.'' \<notin> set (show_nat n)"
  by (rule show_nat_no_low) simp

lemma hex_no_dot: "CHR ''.'' \<notin> set (hex b)"
  by (rule hex_no_low) simp

lemma identity_verify_iff:
  "identity_verify hmac key token run_id user now = Inr () \<longleftrightarrow>
     (\<exists>e exp sig. split_on CHR ''.'' token = [''v1'', e, sig] \<and> parse_u64 e = Some exp
        \<and> unix_secs now \<le> exp + 30
        \<and> unhex sig = Inr (Some (hmac (ik_bytes key) (identity_message run_id user exp))))"
  unfolding identity_verify_def
  by (auto simp: check_sig_iff not_less split: list.splits option.splits if_splits)

lemma resume_verify_iff:
  "resume_verify hmac key token session user client_id now = Inr () \<longleftrightarrow>
     (\<exists>e exp n nonce sig. split_on CHR ''.'' token = [''r1'', e, n, sig] \<and> parse_u64 e = Some exp
        \<and> unix_secs now \<le> exp + 30 \<and> unhex n = Inr (Some nonce) \<and> length nonce = 16
        \<and> unhex sig = Inr (Some (hmac (rk_bytes key) (resume_message session user client_id exp nonce))))"
  unfolding resume_verify_def
  by (auto simp: check_sig_iff not_less split: list.splits option.splits if_splits sum.splits)

lemma split_identity_token:
  "split_on CHR ''.'' (''v1.'' @ show_nat n @ ''.'' @ hex mac) = [''v1'', show_nat n, hex mac]"
  using split_on_append_sep [OF show_nat_no_dot, of n "hex mac"] hex_no_dot [of mac]
  by (simp add: split_on_free)

lemma split_resume_token:
  "split_on CHR ''.'' (''r1.'' @ show_nat n @ ''.'' @ hex nonce @ ''.'' @ hex mac)
     = [''r1'', show_nat n, hex nonce, hex mac]"
  using split_on_append_sep [OF show_nat_no_dot, of n "hex nonce @ ''.'' @ hex mac"]
    split_on_append_sep [OF hex_no_dot, of nonce "hex mac"] hex_no_dot [of mac]
  by (simp add: split_on_free)

lemma append_nul_eq:
  assumes "(0 :: u8) \<notin> set a" "0 \<notin> set b"
  shows "a @ 0 # r = b @ 0 # s \<longleftrightarrow> a = b \<and> r = s"
proof
  assume "a @ 0 # r = b @ 0 # s"
  then have "split_once 0 (a @ 0 # r) = split_once 0 (b @ 0 # s)" by (rule arg_cong)
  then show "a = b \<and> r = s" unfolding split_once_sep [OF assms(1)] split_once_sep [OF assms(2)] by simp
qed simp

definition no_nul :: "string \<Rightarrow> bool" where
  "no_nul s \<longleftrightarrow> 0 \<notin> set (as_bytes s)"

lemma identity_message_inj:
  "no_nul r \<Longrightarrow> no_nul r' \<Longrightarrow> no_nul u \<Longrightarrow> no_nul u' \<Longrightarrow>
     identity_message r u e = identity_message r' u' e' \<longleftrightarrow> r = r' \<and> u = u' \<and> e = e'"
  by (auto simp: identity_message_def append_nul_eq no_nul_def)

lemma resume_message_inj:
  assumes "no_nul u" "no_nul u'" "length (cid_bytes s) = 16" "length (cid_bytes s') = 16"
    "length n = 16" "length n' = 16"
  shows "resume_message s u c e n = resume_message s' u' c' e' n'
           \<longleftrightarrow> s = s' \<and> u = u' \<and> c = c' \<and> e = e' \<and> n = n'"
  using assms
  by (auto simp: resume_message_def append_nul_eq no_nul_def connection_id.expand)

lemma identity_verify_issued:
  "identity_verify hmac key (identity_issue hmac key r u ttl t0) r' u' t = Inr () \<longleftrightarrow>
     (let e = unix_secs t0 + max (dur_secs ttl) 1 in
      unix_secs t \<le> e + 30
      \<and> hmac (ik_bytes key) (identity_message r u e) = hmac (ik_bytes key) (identity_message r' u' e))"
  unfolding identity_verify_iff identity_issue_def Let_def split_identity_token
  by (auto simp: parse_show_nat unhex_hex)

lemma resume_verify_issued:
  assumes "length nonce = 16"
  shows "resume_verify hmac key (resume_issue hmac key nonce s u c ttl t0) s' u' c' t = Inr () \<longleftrightarrow>
     (let e = unix_secs t0 + max (dur_secs ttl) 1 in
      unix_secs t \<le> e + 30
      \<and> hmac (rk_bytes key) (resume_message s u c e nonce)
          = hmac (rk_bytes key) (resume_message s' u' c' e nonce))"
  unfolding resume_verify_iff resume_issue_def Let_def split_resume_token
  using assms by (auto simp: parse_show_nat unhex_hex)

text \<open>The moment a token issued at \<open>t0\<close> stops being accepted, as a number.\<close>

definition last_second :: "system_time \<Rightarrow> duration \<Rightarrow> nat" where
  "last_second t0 ttl = unat (unix_secs t0) + max (unat (dur_secs ttl)) 1 + 30"

lemma unat_max64: "unat (max (a :: u64) b) = max (unat a) (unat b)"
  by (simp add: max_def word_le_nat_alt)

lemma last_second_word:
  assumes "last_second t0 ttl < 2 ^ 64"
  shows "unix_secs t \<le> unix_secs t0 + max (dur_secs ttl) 1 + 30
           \<longleftrightarrow> unat (unix_secs t) \<le> last_second t0 ttl"
proof -
  let ?m = "max (dur_secs ttl) 1"
  have m: "unat ?m = max (unat (dur_secs ttl)) 1" by (simp add: unat_max64)
  have 1: "unat (unix_secs t0 + ?m) = unat (unix_secs t0) + unat ?m"
    using assms unfolding last_second_def m by (subst unat_word_ariths) (simp add: m)
  have "unat (unix_secs t0 + ?m + 30) = last_second t0 ttl"
    using assms unfolding last_second_def by (subst unat_word_ariths) (simp add: 1 m)
  then show ?thesis by (simp add: word_le_nat_alt)
qed

section \<open>Lemmas: runs of the token table\<close>

datatype pt_op =
    PtIssue connection_id string duration
  | PtConsume connection_id string string string system_time
  | PtSweep
  | PtLen
  | PtForget connection_id

datatype pt_event =
    Issued connection_id string
  | Accepted connection_id string
  | Forgotten connection_id

fun event_session :: "pt_event \<Rightarrow> connection_id" where
  "event_session (Issued s tok) = s"
| "event_session (Accepted s tok) = s"
| "event_session (Forgotten s) = s"

fun pt_step ::
  "hmac_fn \<Rightarrow> resume_key \<Rightarrow> instant \<Rightarrow> pending_tokens \<Rightarrow> pt_op \<Rightarrow> pending_tokens \<times> pt_event list" where
  "pt_step hmac key now g (PtIssue s tok ttl) = (fst (pt_issue now g s tok ttl), [Issued s tok])"
| "pt_step hmac key now g (PtConsume s tok user client wall) =
     (case pt_consume hmac now g s tok user client key wall of
        (g', Inr _) \<Rightarrow> (g', [Accepted s tok])
      | (g', Inl _) \<Rightarrow> (g', []))"
| "pt_step hmac key now g PtSweep = (fst (pt_sweep now g), [])"
| "pt_step hmac key now g PtLen = (fst (pt_len now g), [])"
| "pt_step hmac key now g (PtForget s) = (pt_forget g s, [Forgotten s])"

fun pt_run ::
  "hmac_fn \<Rightarrow> resume_key \<Rightarrow> pending_tokens \<Rightarrow> (instant \<times> pt_op) list
     \<Rightarrow> pending_tokens \<times> pt_event list" where
  "pt_run hmac key g [] = (g, [])"
| "pt_run hmac key g ((now, op) # ops) =
     (let (g1, ev) = pt_step hmac key now g op; (g2, evs) = pt_run hmac key g1 ops in (g2, ev @ evs))"

text \<open>The token a session could still redeem after a sequence of events.\<close>

fun redeemable :: "pt_event list \<Rightarrow> connection_id \<Rightarrow> string option" where
  "redeemable [] s = None"
| "redeemable (e # es) s =
     (case redeemable es s of
        Some tok \<Rightarrow> Some tok
      | None \<Rightarrow>
          if \<exists>x \<in> set es. event_session x = s then None
          else (case e of Issued s' tok \<Rightarrow> if s' = s then Some tok else None | _ \<Rightarrow> None))"

lemma redeemable_snoc:
  "redeemable (es @ [e]) s =
     (case e of
        Issued s' tok \<Rightarrow> if s' = s then Some tok else redeemable es s
      | Accepted s' tok \<Rightarrow> if s' = s then None else redeemable es s
      | Forgotten s' \<Rightarrow> if s' = s then None else redeemable es s)"
  by (induction es) (auto split: option.splits pt_event.splits)

lemma redeemable_issued:
  "redeemable es s = Some tok \<Longrightarrow>
     \<exists>a b. es = a @ Issued s tok # b \<and> (\<forall>x \<in> set b. event_session x \<noteq> s)"
proof (induction es)
  case Nil
  then show ?case by simp
next
  case (Cons e es)
  show ?case
  proof (cases "redeemable es s")
    case None
    with Cons.prems have "e = Issued s tok" "\<forall>x \<in> set es. event_session x \<noteq> s"
      by (auto split: if_splits pt_event.splits)
    then show ?thesis by (intro exI [of _ "[]"] exI [of _ es]) simp
  next
    case (Some tok')
    with Cons obtain a b where "es = a @ Issued s tok # b" "\<forall>x \<in> set b. event_session x \<noteq> s"
      by auto
    then show ?thesis by (intro exI [of _ "e # a"] exI [of _ b]) simp
  qed
qed

definition tracks :: "pending_tokens \<Rightarrow> pt_event list \<Rightarrow> bool" where
  "tracks g es \<longleftrightarrow>
     (\<forall>s e. fmlookup g s = Some e \<longrightarrow> redeemable es s = Some (it_token e))"

lemma tracks_prune: "tracks g es \<Longrightarrow> tracks (prune issued_alive now g) es"
  by (auto simp: tracks_def prune_lookup dest: live_lookup)

lemma tracks_drop: "tracks g es \<Longrightarrow> tracks (fmdrop s g) es"
  by (simp add: tracks_def)

lemma pt_consume_accepted:
  "pt_consume hmac now g s tok user client key wall = (g', Inr u) \<Longrightarrow>
     g' = fmdrop s g \<and> (\<exists>e. fmlookup g s = Some e \<and> it_token e = tok)"
  by (auto simp: pt_consume_def split: option.splits if_splits sum.splits)

lemma pt_consume_rejected:
  "pt_consume hmac now g s tok user client key wall = (g', Inl err) \<Longrightarrow>
     g' = g \<or> g' = fmdrop s g"
  by (auto simp: pt_consume_def split: option.splits if_splits sum.splits)

lemma pt_step_tracks:
  assumes "tracks g es" "pt_step hmac key now g op = (g', ev)"
  shows "tracks g' (es @ ev)"
    and "Accepted s tok \<in> set ev \<Longrightarrow> ev = [Accepted s tok] \<and> redeemable es s = Some tok"
proof -
  have "tracks g' (es @ ev) \<and>
    (Accepted s tok \<in> set ev \<longrightarrow> ev = [Accepted s tok] \<and> redeemable es s = Some tok)"
  proof (cases op)
    case (PtIssue s' tok' ttl)
    then have g': "g' = fmupd s' \<lparr>it_token = tok', it_session = s', it_expires_at = now + ttl\<rparr>
        (prune issued_alive now g)" "ev = [Issued s' tok']"
      using assms(2) by (auto simp: pt_issue_def)
    show ?thesis
      using tracks_prune [OF assms(1), of now]
      unfolding g' by (auto simp: tracks_def redeemable_snoc)
  next
    case (PtConsume s' tok' user client wall)
    show ?thesis
    proof (cases "pt_consume hmac now g s' tok' user client key wall")
      case (Pair g1 r)
      show ?thesis
      proof (cases r)
        case (Inl err)
        then have "g' = g1" "ev = []" using PtConsume Pair assms(2) by auto
        moreover have "g1 = g \<or> g1 = fmdrop s' g"
          using pt_consume_rejected Pair Inl by blast
        ultimately show ?thesis using assms(1) by (auto intro: tracks_drop)
      next
        case (Inr u)
        then have e: "g' = g1" "ev = [Accepted s' tok']" using PtConsume Pair assms(2) by auto
        obtain e where "g1 = fmdrop s' g" "fmlookup g s' = Some e" "it_token e = tok'"
          using pt_consume_accepted Pair Inr by blast
        with e assms(1) show ?thesis by (auto simp: tracks_def redeemable_snoc)
      qed
    qed
  next
    case (PtForget s')
    then have "g' = fmdrop s' g" "ev = [Forgotten s']"
      using assms(2) by (auto simp: pt_forget_def)
    with assms(1) show ?thesis by (auto simp: tracks_def redeemable_snoc)
  qed (use assms in \<open>auto simp: pt_sweep_def pt_len_def Let_def intro: tracks_prune\<close>)
  then show "tracks g' (es @ ev)"
    "Accepted s tok \<in> set ev \<Longrightarrow> ev = [Accepted s tok] \<and> redeemable es s = Some tok" by blast+
qed

lemma pt_step_event: "pt_step hmac key now g op = (g', ev) \<Longrightarrow> length ev \<le> 1"
  by (cases op) (auto split: prod.splits sum.splits)

lemma pt_run_tracks:
  assumes "tracks g es" "pt_run hmac key g ops = (g', evs)" "evs = pre @ Accepted s tok # post"
  shows "redeemable (es @ pre) s = Some tok"
  using assms
proof (induction ops arbitrary: g es evs pre)
  case Nil
  then show ?case by simp
next
  case (Cons p ops)
  obtain now op where p: "p = (now, op)" by (cases p)
  obtain g1 ev where st: "pt_step hmac key now g op = (g1, ev)" by fastforce
  obtain evs' where run: "pt_run hmac key g1 ops = (g', evs')" and evs: "evs = ev @ evs'"
    using Cons.prems(2) p st by (auto split: prod.splits)
  note tr = pt_step_tracks [OF Cons.prems(1) st]
  consider "ev = []" | x where "ev = [x]"
    using pt_step_event [OF st] by (cases ev) auto
  then show ?case
  proof cases
    case 1
    then have "tracks g1 es" using tr(1) by simp
    then show ?thesis using Cons.IH [OF _ run, of es pre] evs 1 Cons.prems(3) by simp
  next
    case 2
    show ?thesis
    proof (cases pre)
      case Nil
      then have "ev = [Accepted s tok]" using 2 evs Cons.prems(3) by simp
      then show ?thesis using tr(2) Nil by simp
    next
      case (Cons y pre')
      then have "y = x" "evs' = pre' @ Accepted s tok # post" using 2 evs Cons.prems(3) by auto
      then show ?thesis
        using Cons.IH [OF tr(1) run, of pre'] Cons 2 by simp
    qed
  qed
qed

text \<open>Failed attempts of others leave a pending token alone.\<close>

definition harmless ::
  "hmac_fn \<Rightarrow> resume_key \<Rightarrow> connection_id \<Rightarrow> string \<Rightarrow> pt_op \<Rightarrow> bool" where
  "harmless hmac key s tok op =
     (case op of
        PtIssue s' _ _ \<Rightarrow> s' \<noteq> s
      | PtForget s' \<Rightarrow> s' \<noteq> s
      | PtConsume s' tok' user client wall \<Rightarrow>
          s' \<noteq> s \<or> tok' \<noteq> tok \<or> resume_verify hmac key tok' s' user client wall \<noteq> Inr ()
      | _ \<Rightarrow> True)"

lemma pt_step_harmless:
  assumes "fmlookup g s = Some e" "now < it_expires_at e" "harmless hmac key s (it_token e) op"
  shows "fmlookup (fst (pt_step hmac key now g op)) s = Some e"
proof (cases op)
  case (PtConsume s' tok' user client wall)
  have "fmlookup (fst (pt_consume hmac now g s' tok' user client key wall)) s = Some e"
    using assms PtConsume
    by (auto simp: pt_consume_def harmless_def split: option.splits sum.splits)
  then show ?thesis using PtConsume by (auto split: prod.splits sum.splits)
qed (use assms in \<open>auto simp: pt_issue_def pt_sweep_def pt_len_def pt_forget_def harmless_def
        Let_def prune_lookup live_def issued_alive_def\<close>)

lemma pt_run_harmless:
  "fmlookup g s = Some e \<Longrightarrow> list_all (\<lambda>(now, op). now < it_expires_at e \<and> harmless hmac key s (it_token e) op) ops
     \<Longrightarrow> fmlookup (fst (pt_run hmac key g ops)) s = Some e"
proof (induction ops arbitrary: g)
  case Nil
  then show ?case by simp
next
  case (Cons p ops)
  obtain now op where p: "p = (now, op)" by (cases p)
  have "fmlookup (fst (pt_step hmac key now g op)) s = Some e"
    using Cons.prems p by (intro pt_step_harmless) auto
  then show ?case
    using Cons.IH [of "fst (pt_step hmac key now g op)"] Cons.prems(2) p by (simp add: split_def Let_def)
qed

section \<open>Lemmas: runs of the resume registry\<close>

datatype rr_op =
    RrPut connection_id resume_entry duration
  | RrTake connection_id
  | RrLen
  | RrIsEmpty
  | RrSweep

datatype rr_out = OutUnit | OutEntry "resume_entry option" | OutLen nat | OutBool bool

fun rr_step :: "instant \<Rightarrow> resume_registry \<Rightarrow> rr_op \<Rightarrow> resume_registry \<times> rr_out" where
  "rr_step now g (RrPut c e ttl) = (rr_put now g c e ttl, OutUnit)"
| "rr_step now g (RrTake c) = (let (g', r) = rr_take now g c in (g', OutEntry r))"
| "rr_step now g RrLen = (let (g', n) = rr_len now g in (g', OutLen n))"
| "rr_step now g RrIsEmpty = (let (g', b) = rr_is_empty now g in (g', OutBool b))"
| "rr_step now g RrSweep = (fst (rr_sweep now g), OutUnit)"

fun rr_run :: "resume_registry \<Rightarrow> (instant \<times> rr_op) list \<Rightarrow> rr_out list" where
  "rr_run g [] = []"
| "rr_run g ((now, op) # ops) = (let (g', r) = rr_step now g op in r # rr_run g' ops)"

text \<open>The specification: a table that is never pruned; an entry counts while it is alive.\<close>

fun rr_spec_step :: "instant \<Rightarrow> resume_registry \<Rightarrow> rr_op \<Rightarrow> resume_registry \<times> rr_out" where
  "rr_spec_step now a (RrPut c e ttl) = (fmupd c (e\<lparr>re_expires_at := now + ttl\<rparr>) a, OutUnit)"
| "rr_spec_step now a (RrTake c) = (fmdrop c a, OutEntry (live resume_alive now a c))"
| "rr_spec_step now a RrLen = (a, OutLen (fm_len (prune resume_alive now a)))"
| "rr_spec_step now a RrIsEmpty = (a, OutBool (\<forall>c |\<in>| fmdom a. live resume_alive now a c = None))"
| "rr_spec_step now a RrSweep = (a, OutUnit)"

fun rr_spec_run :: "resume_registry \<Rightarrow> (instant \<times> rr_op) list \<Rightarrow> rr_out list" where
  "rr_spec_run a [] = []"
| "rr_spec_run a ((now, op) # ops) =
     (let (a', r) = rr_spec_step now a op in r # rr_spec_run a' ops)"

lemma prune_empty_iff:
  "prune alive now a = fmempty \<longleftrightarrow> (\<forall>c |\<in>| fmdom a. live alive now a c = None)"
proof
  assume "prune alive now a = fmempty"
  then show "\<forall>c |\<in>| fmdom a. live alive now a c = None"
    by (metis prune_lookup fmempty_lookup)
next
  assume l: "\<forall>c |\<in>| fmdom a. live alive now a c = None"
  show "prune alive now a = fmempty"
  proof (rule fmap_ext)
    fix c
    show "fmlookup (prune alive now a) c = fmlookup fmempty c"
      using l by (cases "c |\<in>| fmdom a") (auto simp: prune_lookup live_def fmlookup_dom_iff split: option.splits)
  qed
qed

lemma rr_step_sim:
  assumes "same_live resume_alive now g a"
  shows "snd (rr_step now g op) = snd (rr_spec_step now a op)"
    and "same_live resume_alive now (fst (rr_step now g op)) (fst (rr_spec_step now a op))"
proof -
  have eq: "prune resume_alive now g = prune resume_alive now a"
    by (rule resume_store.same_live_prune_eq [OF assms])
  have pr: "same_live resume_alive now (prune resume_alive now g) a"
    using resume_store.same_live_prune [of now now g a] assms by simp
  show "snd (rr_step now g op) = snd (rr_spec_step now a op)"
    by (cases op) (simp_all add: rr_take_def rr_len_def rr_is_empty_def Let_def eq prune_lookup
        fm_len_0_iff prune_empty_iff)
  show "same_live resume_alive now (fst (rr_step now g op)) (fst (rr_spec_step now a op))"
    by (cases op)
       (simp_all add: rr_put_def rr_take_def rr_len_def rr_is_empty_def rr_sweep_def Let_def pr
          resume_store.same_live_upd resume_store.same_live_drop)
qed

lemma rr_run_sim:
  "sorted (map fst ops) \<Longrightarrow> (\<forall>t \<in> set (map fst ops). t0 \<le> t) \<Longrightarrow> same_live resume_alive t0 g a \<Longrightarrow>
     rr_run g ops = rr_spec_run a ops"
proof (induction ops arbitrary: g a t0)
  case Nil
  then show ?case by simp
next
  case (Cons p ops)
  obtain now op where p: "p = (now, op)" by (cases p)
  have "same_live resume_alive now g a"
    using resume_store.same_live_later [of t0 now g a] Cons.prems p by simp
  note sim = rr_step_sim [OF this, of op]
  have "rr_run (fst (rr_step now g op)) ops = rr_spec_run (fst (rr_spec_step now a op)) ops"
    using Cons.IH [of now, OF _ _ sim(2)] Cons.prems(1) p by simp
  with sim(1) p show ?case by (simp add: split_def Let_def)
qed

section \<open>Properties\<close>

text \<open>An identity token is bound to its run id, its user and its lifetime. A token issued at
  \<open>t0\<close> is accepted at \<open>t\<close> for a run id and user exactly when they are the ones it was issued
  for and \<open>t\<close> is at most thirty seconds past its expiry, given that the MAC does not collide on
  the two messages and the names hold no NUL byte.\<close>

theorem identity_token_exact:
  assumes "last_second t0 ttl < 2 ^ 64"
    and "no_nul r" "no_nul u" "no_nul r'" "no_nul u'"
    and "inj_on (hmac (ik_bytes key))
           {identity_message r u (unix_secs t0 + max (dur_secs ttl) 1),
            identity_message r' u' (unix_secs t0 + max (dur_secs ttl) 1)}"
  shows "identity_verify hmac key (identity_issue hmac key r u ttl t0) r' u' t = Inr ()
     \<longleftrightarrow> r' = r \<and> u' = u \<and> unat (unix_secs t) \<le> last_second t0 ttl"
proof -
  have "hmac (ik_bytes key) (identity_message r u (unix_secs t0 + max (dur_secs ttl) 1))
      = hmac (ik_bytes key) (identity_message r' u' (unix_secs t0 + max (dur_secs ttl) 1))
    \<longleftrightarrow> r' = r \<and> u' = u"
    using inj_on_eq_iff [OF assms(6)] identity_message_inj [OF assms(2,4,3,5)] by auto
  then show ?thesis
    unfolding identity_verify_issued Let_def last_second_word [OF assms(1)] by blast
qed

lemma witness_times:
  "unix_secs 0 = 0" "dur_secs 1000000000 = 1" "last_second 0 1000000000 = 31"
  "inj_on ((@) k) S"
  by (simp_all add: unix_secs_def dur_secs_def last_second_def inj_on_def)

lemma witness_names: "no_nul ''r''" "no_nul ''u''" "no_nul ''v''"
  by (simp_all add: no_nul_def as_bytes_def byte_of_def)

theorem identity_token_exact_witness:
  "(let tok = identity_issue (\<lambda>k m. k @ m) (IdentityKey [1]) ''r'' ''u'' 1000000000 0 in
      identity_verify (\<lambda>k m. k @ m) (IdentityKey [1]) tok ''r'' ''u'' 0 = Inr ()
      \<and> identity_verify (\<lambda>k m. k @ m) (IdentityKey [1]) tok ''r'' ''v'' 0 \<noteq> Inr ())"
  using identity_token_exact [of 0 1000000000 "''r''" "''u''" "''r''" "''u''" "\<lambda>k m. k @ m" "IdentityKey [1]" 0]
    identity_token_exact [of 0 1000000000 "''r''" "''u''" "''r''" "''v''" "\<lambda>k m. k @ m" "IdentityKey [1]" 0]
  by (simp add: witness_times witness_names Let_def del: inj_on_insert)



text \<open>C26: a resume token works once. In any run of the token table from empty, whatever the
  clients send and whenever, each accepted token was issued to that session before, and between
  the issue and the acceptance the session had no newer token, no other acceptance and was not
  forgotten; so no token is accepted twice and a superseded token never is.\<close>

theorem resume_token_one_shot:
  assumes "snd (pt_run hmac key fmempty ops) = pre @ Accepted s tok # post"
  shows "\<exists>a b. pre = a @ Issued s tok # b \<and> (\<forall>x \<in> set b. event_session x \<noteq> s)"
proof -
  have "tracks fmempty []" by (simp add: tracks_def)
  then have "redeemable ([] @ pre) s = Some tok"
    by (rule pt_run_tracks [where evs = "snd (pt_run hmac key fmempty ops)", OF _ surjective_pairing assms])
  then show ?thesis using redeemable_issued by simp
qed

definition demo_token :: string where
  "demo_token = resume_issue (\<lambda>k m. k @ m) (ResumeKey [1]) (replicate 16 3)
     (ConnectionId (replicate 16 7)) ''u'' ''c'' 1000000000 0"

lemma demo_token_verifies:
  "resume_verify (\<lambda>k m. k @ m) (ResumeKey [1]) demo_token (ConnectionId (replicate 16 7)) ''u'' ''c'' 0
     = Inr ()"
  by (simp add: demo_token_def resume_verify_issued witness_times)

theorem resume_token_one_shot_witness:
  "\<exists>a b. [Issued (ConnectionId (replicate 16 7)) demo_token]
       = a @ Issued (ConnectionId (replicate 16 7)) demo_token # b
     \<and> (\<forall>x \<in> set b. event_session x \<noteq> ConnectionId (replicate 16 7))"
proof (rule resume_token_one_shot)
  let ?s = "ConnectionId (replicate 16 7)"
  let ?use = "(3, PtConsume ?s demo_token ''u'' ''c'' 0)"
  show "snd (pt_run (\<lambda>k m. k @ m) (ResumeKey [1]) fmempty
          [(0, PtIssue ?s demo_token 100), ?use, ?use])
      = [Issued ?s demo_token] @ Accepted ?s demo_token # []"
    using demo_token_verifies by (simp add: pt_issue_def pt_consume_def prune_lookup)
qed

text \<open>A pending token survives what others do. After a token is issued, no sequence of other
  sessions' operations, sweeps and failed attempts on this session before its expiry uses it
  up: the genuine client is accepted.\<close>

theorem pending_token_survives:
  assumes "list_all (\<lambda>(now, op). now < t0 + ttl \<and> harmless hmac key s tok op) ops"
    and "inst < t0 + ttl" "resume_verify hmac key tok s user client wall = Inr ()"
  shows "snd (pt_consume hmac inst (fst (pt_run hmac key (fst (pt_issue t0 g s tok ttl)) ops))
           s tok user client key wall) = Inr ()"
proof -
  let ?e = "\<lparr>it_token = tok, it_session = s, it_expires_at = t0 + ttl\<rparr>"
  have "fmlookup (fst (pt_run hmac key (fst (pt_issue t0 g s tok ttl)) ops)) s = Some ?e"
    using assms(1) by (intro pt_run_harmless) (simp_all add: pt_issue_def)
  then show ?thesis using assms(2,3) by (simp add: pt_consume_def)
qed

theorem pending_token_survives_witness:
  "snd (pt_consume (\<lambda>k m. k @ m) 5 (fst (pt_run (\<lambda>k m. k @ m) (ResumeKey [1])
       (fst (pt_issue 0 fmempty (ConnectionId (replicate 16 7)) demo_token 100))
       [(3, PtConsume (ConnectionId (replicate 16 7)) ''forged'' ''u'' ''c'' 0)]))
     (ConnectionId (replicate 16 7)) demo_token ''u'' ''c'' (ResumeKey [1]) 0) = Inr ()"
proof (rule pending_token_survives)
  have "demo_token \<noteq> ''forged''" by (simp add: demo_token_def resume_issue_def Let_def)
  then show "list_all (\<lambda>(now, op). now < (0 :: nat) + 100 \<and>
      harmless (\<lambda>k m. k @ m) (ResumeKey [1]) (ConnectionId (replicate 16 7)) demo_token op)
      [(3, PtConsume (ConnectionId (replicate 16 7)) ''forged'' ''u'' ''c'' 0)]"
    by (simp add: harmless_def)
qed (simp, rule demo_token_verifies)

text \<open>Pruning cannot be seen. On any run whose clock does not go back, the resume registry
  answers like a table that never drops an entry and only looks at its expiry time.\<close>

theorem resume_registry_refines:
  "sorted (map fst ops) \<Longrightarrow> rr_run fmempty ops = rr_spec_run fmempty ops"
  by (rule rr_run_sim [of _ 0]) (simp_all add: resume_store.same_live_refl)

theorem resume_registry_refines_witness:
  "rr_run fmempty
     [(0, RrPut (ConnectionId (replicate 16 7)) \<lparr>re_run_id = ''r'', re_user = ''u'',
         re_trace = TraceId (replicate 16 1), re_proxies = [''p''], re_expires_at = 0\<rparr> 10),
      (5, RrTake (ConnectionId (replicate 16 7))), (6, RrTake (ConnectionId (replicate 16 7)))]
   = [OutUnit,
      OutEntry (Some \<lparr>re_run_id = ''r'', re_user = ''u'', re_trace = TraceId (replicate 16 1),
         re_proxies = [''p''], re_expires_at = 10\<rparr>),
      OutEntry None]"
  by (subst resume_registry_refines) (simp_all add: live_def resume_alive_def)

end
