(* ===== verification/NLink_Knock.thy ===== *)
theory NLink_Knock
  imports Rust_Net NLink_Tokens
begin

text \<open>
  Port knocking (\<open>common/src/nlink/knock.rs\<close> and \<open>try_knock\<close> of \<open>server/src/nlink.rs\<close>): the
  knock sequence, its verification and the table of admitted sources. HMAC is the argument
  \<open>hmac\<close>; a clock reading is an argument.
\<close>

definition KNOCK_MAGIC :: bytes where "KNOCK_MAGIC = as_bytes ''NFRPKNOCK''"
definition KNOCK_LEN :: nat where "KNOCK_LEN = length KNOCK_MAGIC + 8 + 16"

record knock_rule =
  kr_port :: u16
  kr_secret :: string
  kr_window :: u64

definition default_window :: u64 where "default_window = 30"

definition knock_rule_effective :: "knock_rule \<Rightarrow> bool" where
  "knock_rule_effective r \<longleftrightarrow> kr_secret r \<noteq> [] \<and> kr_window r > 0 \<and> kr_port r > 0"

datatype knock_error = KnockDisabled | KnockLen nat | KnockMagic | KnockStale u64 | KnockSig

definition knock_message :: "ip_addr \<Rightarrow> u16 \<Rightarrow> u64 \<Rightarrow> bytes" where
  "knock_message ip port ts =
     as_bytes ''nlink-knock-v1|'' @ as_bytes (show_ip ip) @ as_bytes ''|'' @ be16 port
       @ as_bytes ''|'' @ be64 ts"

definition knock_mac :: "hmac_fn \<Rightarrow> string \<Rightarrow> ip_addr \<Rightarrow> u16 \<Rightarrow> u64 \<Rightarrow> bytes" where
  "knock_mac hmac secret ip port ts = take 16 (hmac (as_bytes secret) (knock_message ip port ts))"

definition build_knock :: "hmac_fn \<Rightarrow> string \<Rightarrow> ip_addr \<Rightarrow> u16 \<Rightarrow> system_time \<Rightarrow> bytes" where
  "build_knock hmac secret ip port now =
     (let ts = unix_secs now in KNOCK_MAGIC @ be64 ts @ knock_mac hmac secret ip port ts)"

definition abs_diff :: "u64 \<Rightarrow> u64 \<Rightarrow> u64" where
  "abs_diff a b = (if a < b then b - a else a - b)"

definition verify_knock ::
  "hmac_fn \<Rightarrow> knock_rule \<Rightarrow> bytes \<Rightarrow> ip_addr \<Rightarrow> system_time \<Rightarrow> knock_error + unit" where
  "verify_knock hmac rule seq ip now =
     (if \<not> knock_rule_effective rule then Inl KnockDisabled
      else if length seq \<noteq> KNOCK_LEN then Inl (KnockLen (length seq))
      else if take (length KNOCK_MAGIC) seq \<noteq> KNOCK_MAGIC then Inl KnockMagic
      else
        let ts = get64 (take 8 (drop 9 seq)); now_secs = unix_secs now in
        if abs_diff now_secs ts > kr_window rule then Inl (KnockStale (abs_diff now_secs ts))
        else if ct_diff (take 16 (drop 17 seq)) (knock_mac hmac (kr_secret rule) ip (kr_port rule) ts) \<noteq> 0
        then Inl KnockSig
        else Inr ())"

section \<open>The table of admitted sources\<close>

type_synonym knock_table = "(ip_addr \<times> u16, instant) fmap"

definition knock_alive :: "instant \<Rightarrow> instant \<Rightarrow> bool" where
  "knock_alive e now \<longleftrightarrow> e > now"

definition ka_allow :: "instant \<Rightarrow> knock_table \<Rightarrow> ip_addr \<Rightarrow> u16 \<Rightarrow> duration \<Rightarrow> knock_table" where
  "ka_allow now g ip port window = fmupd (ip, port) (now + window) (prune knock_alive now g)"

definition ka_is_allowed :: "instant \<Rightarrow> knock_table \<Rightarrow> ip_addr \<Rightarrow> u16 \<Rightarrow> knock_table \<times> bool" where
  "ka_is_allowed now g ip port =
     (let g' = prune knock_alive now g in (g', fmlookup g' (ip, port) \<noteq> None))"

definition ka_revoke :: "knock_table \<Rightarrow> ip_addr \<Rightarrow> u16 \<Rightarrow> knock_table" where
  "ka_revoke g ip port = fmdrop (ip, port) g"

definition ka_len :: "instant \<Rightarrow> knock_table \<Rightarrow> knock_table \<times> nat" where
  "ka_len now g = (let g' = prune knock_alive now g in (g', fm_len g'))"

definition ka_is_empty :: "instant \<Rightarrow> knock_table \<Rightarrow> knock_table \<times> bool" where
  "ka_is_empty now g = (let (g', n) = ka_len now g in (g', n = 0))"

text \<open>\<open>try_knock\<close> once the read has ended: \<open>None\<close> for a timeout, an error or a short read.\<close>

definition clamp_u64 :: "u64 \<Rightarrow> u64 \<Rightarrow> u64 \<Rightarrow> u64" where
  "clamp_u64 lo hi x = (if x < lo then lo else if hi < x then hi else x)"

definition try_knock ::
  "hmac_fn \<Rightarrow> bytes option \<Rightarrow> knock_rule \<Rightarrow> ip_addr \<Rightarrow> system_time \<Rightarrow> instant \<Rightarrow> knock_table
     \<Rightarrow> knock_table \<times> bool" where
  "try_knock hmac read rule peer wall now auth =
     (case read of
        None \<Rightarrow> (auth, False)
      | Some buf \<Rightarrow>
          (case verify_knock hmac rule buf peer wall of
             Inr _ \<Rightarrow> (ka_allow now auth peer (kr_port rule)
                        (from_secs (clamp_u64 1 3600 (kr_window rule))), True)
           | Inl _ \<Rightarrow> (auth, False)))"

interpretation knock_store: expiring knock_alive
  by unfold_locales (simp add: knock_alive_def)

section \<open>Lemmas\<close>

lemma show_nat_no_bar: "c \<in> set (show_nat n) \<Longrightarrow> c \<noteq> CHR ''|''"
proof
  assume "c \<in> set (show_nat n)" "c = CHR ''|''"
  then obtain d where "d < 10" "CHR ''|'' = digit_char d" using show_nat_chars by blast
  then have "(of_char CHR ''|'' :: nat) = of_char (digit_char d)" by simp
  with \<open>d < 10\<close> show False by (simp add: digit_char_code)
qed

lemma show_hex_chars: "c \<in> set (show_hex n) \<Longrightarrow> \<exists>d < 16. c = digit_char d"
proof (induction n rule: show_hex.induct)
  case (1 n)
  show ?case
  proof (cases "n < 16")
    case True
    with "1.prems" show ?thesis by (auto simp: show_hex.simps [of n])
  next
    case False
    with "1.prems" consider "c \<in> set (show_hex (n div 16))" | "c = digit_char (n mod 16)"
      by (auto simp: show_hex.simps [of n])
    then show ?thesis using "1.IH" False by cases (auto intro: exI [of _ "n mod 16"])
  qed
qed

lemma show_hex_no_bar: "c \<in> set (show_hex n) \<Longrightarrow> c \<noteq> CHR ''|''"
proof
  assume "c \<in> set (show_hex n)" "c = CHR ''|''"
  then obtain d where "d < 16" "CHR ''|'' = digit_char d" using show_hex_chars by blast
  then have "(of_char CHR ''|'' :: nat) = of_char (digit_char d)" by simp
  with \<open>d < 16\<close> show False by (simp add: digit_char_code split: if_splits)
qed

lemma set_join_with: "set (join_with sep xs) \<subseteq> set sep \<union> \<Union> (set ` set xs)"
  by (induction sep xs rule: join_with.induct) auto

lemma show_ipv4_no_bar: "CHR ''|'' \<notin> set (show_ipv4 a)"
  using set_join_with [of "''.''" "map (\<lambda>b. show_nat (unat b)) (be32 a)"]
  by (auto simp: show_ipv4_def dest: show_nat_no_bar)

lemma join_hex_no_bar: "CHR ''|'' \<notin> set (join_with '':'' (map show_hex xs))"
  using set_join_with [of "'':''" "map show_hex xs"] by (auto dest: show_hex_no_bar)

lemma show_ip_no_bar: "CHR ''|'' \<notin> set (show_ip ip)"
  by (cases ip)
     (simp_all add: show_ipv4_no_bar show_ipv6_def join_hex_no_bar Let_def split: prod.splits)

lemma as_bytes_no_bar: "CHR ''|'' \<notin> set s \<Longrightarrow> byte_of CHR ''|'' \<notin> set (as_bytes s)"
  by (auto simp: as_bytes_def) (metis char_of_byte_of)

lemma knock_message_inj:
  "knock_message ip p t = knock_message ip' p' t' \<longleftrightarrow> show_ip ip = show_ip ip' \<and> p = p' \<and> t = t'"
proof
  let ?bar = "byte_of CHR ''|''"
  have bar: "as_bytes ''|'' = [?bar]" by (simp add: as_bytes_def)
  assume eq: "knock_message ip p t = knock_message ip' p' t'"
  then have "as_bytes (show_ip ip) @ ?bar # (be16 p @ ?bar # be64 t)
      = as_bytes (show_ip ip') @ ?bar # (be16 p' @ ?bar # be64 t')"
    by (simp add: knock_message_def bar)
  then have "split_once ?bar (as_bytes (show_ip ip) @ ?bar # (be16 p @ ?bar # be64 t))
      = split_once ?bar (as_bytes (show_ip ip') @ ?bar # (be16 p' @ ?bar # be64 t'))"
    by (rule arg_cong)
  then show "show_ip ip = show_ip ip' \<and> p = p' \<and> t = t'"
    unfolding split_once_sep [OF as_bytes_no_bar [OF show_ip_no_bar]] by simp
qed (simp add: knock_message_def)

lemma length_knock_mac: "(\<forall>k m. length (hmac k m) = 32) \<Longrightarrow> length (knock_mac hmac s ip p t) = 16"
  by (simp add: knock_mac_def)

lemma KNOCK_consts: "length KNOCK_MAGIC = 9" "KNOCK_LEN = 33"
  by (simp_all add: KNOCK_MAGIC_def KNOCK_LEN_def)

text \<open>What a sequence has to be to pass.\<close>

lemma verify_knock_iff:
  assumes "\<forall>k m. length (hmac k m) = 32"
  shows "verify_knock hmac rule seq ip now = Inr () \<longleftrightarrow>
     knock_rule_effective rule \<and>
     (\<exists>ts. abs_diff (unix_secs now) ts \<le> kr_window rule
        \<and> seq = KNOCK_MAGIC @ be64 ts @ knock_mac hmac (kr_secret rule) ip (kr_port rule) ts)"
proof
  assume v: "verify_knock hmac rule seq ip now = Inr ()"
  define ts where "ts = get64 (take 8 (drop 9 seq))"
  let ?mac = "knock_mac hmac (kr_secret rule) ip (kr_port rule) ts"
  from v have len: "knock_rule_effective rule" "length seq = 33" "take 9 seq = KNOCK_MAGIC"
    and rest: "abs_diff (unix_secs now) ts \<le> kr_window rule" "ct_diff (take 16 (drop 17 seq)) ?mac = 0"
    by (auto simp: verify_knock_def KNOCK_consts Let_def ts_def not_less split: if_splits)
  have mac: "take 16 (drop 17 seq) = ?mac"
    using rest(2) ct_diff_eq [of "take 16 (drop 17 seq)" ?mac] length_knock_mac [OF assms] len(2) by simp
  have "be64 ts = take 8 (drop 9 seq)"
    using be_put_get [of "take 8 (drop 9 seq)"] be_get_bound [of "take 8 (drop 9 seq)"] len(2)
    by (simp add: ts_def get64_def be64_def unat_of_nat)
  then have "seq = take 9 seq @ be64 ts @ take 16 (drop 17 seq)"
    using len(2) append_take_drop_id [of 9 seq] append_take_drop_id [of 8 "drop 9 seq"] by simp
  then show "knock_rule_effective rule \<and>
     (\<exists>ts. abs_diff (unix_secs now) ts \<le> kr_window rule
        \<and> seq = KNOCK_MAGIC @ be64 ts @ knock_mac hmac (kr_secret rule) ip (kr_port rule) ts)"
    using len rest(1) mac by metis
next
  assume "knock_rule_effective rule \<and>
     (\<exists>ts. abs_diff (unix_secs now) ts \<le> kr_window rule
        \<and> seq = KNOCK_MAGIC @ be64 ts @ knock_mac hmac (kr_secret rule) ip (kr_port rule) ts)"
  then obtain ts where r: "knock_rule_effective rule" "abs_diff (unix_secs now) ts \<le> kr_window rule"
    "seq = KNOCK_MAGIC @ be64 ts @ knock_mac hmac (kr_secret rule) ip (kr_port rule) ts" by blast
  have d: "take 8 (drop 9 seq) = be64 ts"
    "take 16 (drop 17 seq) = knock_mac hmac (kr_secret rule) ip (kr_port rule) ts"
    "length seq = 33" "take 9 seq = KNOCK_MAGIC"
    using length_knock_mac [OF assms] KNOCK_consts(1) unfolding r(3) by simp_all
  show "verify_knock hmac rule seq ip now = Inr ()"
    using r(1,2) by (simp add: verify_knock_def KNOCK_consts d Let_def ct_diff_eq)
qed

section \<open>Lemmas: runs of the table\<close>

datatype knock_op =
    KnockAllow ip_addr u16 duration
  | KnockQuery ip_addr u16
  | KnockRevoke ip_addr u16
  | KnockCount

fun knock_step :: "instant \<Rightarrow> knock_table \<Rightarrow> knock_op \<Rightarrow> knock_table" where
  "knock_step now g (KnockAllow ip port w) = ka_allow now g ip port w"
| "knock_step now g (KnockQuery ip port) = fst (ka_is_allowed now g ip port)"
| "knock_step now g (KnockRevoke ip port) = ka_revoke g ip port"
| "knock_step now g KnockCount = fst (ka_len now g)"

definition knock_run :: "(instant \<times> knock_op) list \<Rightarrow> knock_table" where
  "knock_run ops = foldl (\<lambda>g (now, op). knock_step now g op) fmempty ops"

text \<open>Until when the history admits a source: its last grant, unless revoked since.\<close>

fun grant_step :: "ip_addr \<times> u16 \<Rightarrow> instant option \<Rightarrow> instant \<times> knock_op \<Rightarrow> instant option" where
  "grant_step k acc (now, KnockAllow ip port w) = (if (ip, port) = k then Some (now + w) else acc)"
| "grant_step k acc (now, KnockRevoke ip port) = (if (ip, port) = k then None else acc)"
| "grant_step k acc (now, KnockQuery ip port) = acc"
| "grant_step k acc (now, KnockCount) = acc"

definition granted_until :: "(instant \<times> knock_op) list \<Rightarrow> ip_addr \<Rightarrow> u16 \<Rightarrow> instant option" where
  "granted_until ops ip port = foldl (grant_step (ip, port)) None ops"

definition not_before :: "instant \<Rightarrow> instant option \<Rightarrow> instant option" where
  "not_before t e = (case e of Some x \<Rightarrow> if t < x then Some x else None | None \<Rightarrow> None)"

lemma granted_snoc:
  "granted_until (ops @ [q]) ip port = grant_step (ip, port) (granted_until ops ip port) q"
  by (simp add: granted_until_def)

lemma live_knock_upd:
  "live knock_alive t (fmupd k v m) j =
     (if j = k then not_before t (Some v) else live knock_alive t m j)"
  by (simp add: live_def not_before_def knock_alive_def)

lemma not_before_None [simp]: "not_before t None = None"
  by (simp add: not_before_def)

lemma knock_run_live:
  "sorted (map fst ops) \<Longrightarrow> \<forall>s \<in> set (map fst ops). s \<le> t \<Longrightarrow>
     live knock_alive t (knock_run ops) (ip, port) = not_before t (granted_until ops ip port)"
proof (induction ops arbitrary: t rule: rev_induct)
  case Nil
  then show ?case by (simp add: knock_run_def granted_until_def not_before_def)
next
  case (snoc p ops)
  obtain now op where p: "p = (now, op)" by (cases p)
  let ?g = "knock_run ops"
  have le: "now \<le> t" using snoc.prems(2) p by simp
  have s: "sorted (map fst ops)" "\<forall>s \<in> set (map fst ops). s \<le> t"
    using snoc.prems by (auto simp: sorted_append)
  have IH: "live knock_alive t ?g (ip, port) = not_before t (granted_until ops ip port)"
    by (rule snoc.IH [OF s])
  have pr: "live knock_alive t (prune knock_alive now ?g) k = live knock_alive t ?g k" for k
    by (rule knock_store.live_prune [OF le])
  have step: "knock_run (ops @ [p]) = knock_step now ?g op" by (simp add: knock_run_def p)
  show ?case
    unfolding step
    by (cases op)
       (auto simp: p granted_snoc
          ka_allow_def ka_is_allowed_def ka_revoke_def ka_len_def Let_def live_knock_upd live_drop pr IH)
qed

section \<open>Properties\<close>

text \<open>A knock opens only the door it was made for. A sequence built at \<open>t0\<close> for an address
  and a port passes at \<open>t\<close>, for the source \<open>ip'\<close> under an effective rule with the same secret,
  exactly when the source is that address, the port is the rule's and the two clocks
  differ by at most the rule's window; given that truncated MACs do not collide on the two
  messages. A rule without secret, window or port admits nothing.\<close>

theorem knock_exact:
  assumes "\<forall>k m. length (hmac k m) = 32"
    and "inj_on (\<lambda>m. take 16 (hmac (as_bytes (kr_secret rule)) m))
           {knock_message ip port (unix_secs t0), knock_message ip' (kr_port rule) (unix_secs t0)}"
  shows "verify_knock hmac rule (build_knock hmac (kr_secret rule) ip port t0) ip' t = Inr ()
     \<longleftrightarrow> knock_rule_effective rule \<and> ip' = ip \<and> kr_port rule = port
        \<and> abs_diff (unix_secs t) (unix_secs t0) \<le> kr_window rule"
proof -
  let ?s = "kr_secret rule" and ?ts = "unix_secs t0"
  have mac: "knock_mac hmac ?s ip port ?ts = knock_mac hmac ?s ip' (kr_port rule) ?ts
      \<longleftrightarrow> ip' = ip \<and> kr_port rule = port"
    using inj_on_eq_iff [OF assms(2)] knock_message_inj [of ip port ?ts ip' "kr_port rule" ?ts]
    by (auto simp: knock_mac_def)
  have build: "build_knock hmac ?s ip port t0 = KNOCK_MAGIC @ be64 ts @ knock_mac hmac ?s ip' (kr_port rule) ts
      \<longleftrightarrow> ts = ?ts \<and> knock_mac hmac ?s ip port ?ts = knock_mac hmac ?s ip' (kr_port rule) ts" for ts
    by (auto simp: build_knock_def Let_def)
  show ?thesis
    unfolding verify_knock_iff [OF assms(1)] build using mac by metis
qed

theorem knock_exact_witness:
  "verify_knock (\<lambda>k m. take 32 (drop 15 m @ replicate 32 0))
     \<lparr>kr_port = 22, kr_secret = ''s'', kr_window = 30\<rparr>
     (build_knock (\<lambda>k m. take 32 (drop 15 m @ replicate 32 0)) ''s'' (V4 0x0a000001) 22 0)
     (V4 0x0a000001) 30000000000 = Inr ()"
  using knock_exact [of "\<lambda>k m. take 32 (drop 15 m @ replicate 32 0)"
      "\<lparr>kr_port = 22, kr_secret = ''s'', kr_window = 30\<rparr>" "V4 0x0a000001" 22 0 "V4 0x0a000001" 30000000000]
  by (simp add: knock_rule_effective_def abs_diff_def unix_secs_def min_def del: take_append)

text \<open>The admission table answers by history. After any sequence of grants, queries,
  revocations and counts on a clock that does not go back, a source is admitted to a port
  exactly while its last grant lasts, unless it was revoked since.\<close>

theorem knock_table_by_history:
  assumes "sorted (map fst ops)" "\<forall>s \<in> set (map fst ops). s \<le> t"
  shows "snd (ka_is_allowed t (knock_run ops) ip port)
     \<longleftrightarrow> (case granted_until ops ip port of None \<Rightarrow> False | Some e \<Rightarrow> t < e)"
  using knock_run_live [OF assms, of ip port]
  by (simp add: ka_is_allowed_def Let_def prune_lookup not_before_def split: option.splits)

theorem knock_table_by_history_witness:
  "\<not> snd (ka_is_allowed 40 (knock_run [(0, KnockAllow (V4 1) 22 30), (10, KnockAllow (V4 2) 22 90)])
          (V4 1) 22)"
  using knock_table_by_history
    [of "[(0, KnockAllow (V4 1) 22 30), (10, KnockAllow (V4 2) 22 90)]" 40 "V4 1" 22]
  by (simp add: granted_until_def)

end
