(* ===== verification/NLink_RateLimit.thy ===== *)
theory NLink_RateLimit
  imports Rust_Std Complex_Main
begin

text \<open>
  Token-bucket rate limiting (\<open>common/src/nlink/ratelimit.rs\<close>). The code computes with
  \<open>f64\<close>; the model computes with exact rationals, so rounding is outside it. A wait is a
  number of seconds.
\<close>

record rate_limit_rule =
  rlr_proxy :: string
  rlr_user :: string
  rlr_rate :: u64
  rlr_burst :: u64

definition rule_effective :: "rate_limit_rule \<Rightarrow> bool" where
  "rule_effective r \<longleftrightarrow> rlr_rate r > 0"

definition rule_burst :: "rate_limit_rule \<Rightarrow> u64" where
  "rule_burst r = (if rlr_burst r > 0 then rlr_burst r else rlr_rate r)"

text \<open>\<open>proxy.rsplit('.').next()\<close> is the last piece.\<close>

definition rule_matches :: "rate_limit_rule \<Rightarrow> string \<Rightarrow> string \<Rightarrow> bool" where
  "rule_matches r user proxy \<longleftrightarrow>
     (rlr_user r = [] \<or> rlr_user r = ''*'' \<or> rlr_user r = user)
     \<and> (rlr_proxy r = [] \<or> rlr_proxy r = ''*'' \<or> rlr_proxy r = proxy
        \<or> last (split_on CHR ''.'' proxy) = rlr_proxy r)"

record token_bucket =
  tb_rate :: rat
  tb_burst :: rat
  tb_tokens :: rat
  tb_last :: instant

definition token_bucket_new :: "u64 \<Rightarrow> u64 \<Rightarrow> instant \<Rightarrow> token_bucket" where
  "token_bucket_new rate burst now =
     (let b = of_nat (unat (max burst 1)) in
      \<lparr>tb_rate = of_nat (unat (max rate 1)), tb_burst = b, tb_tokens = b, tb_last = now\<rparr>)"

text \<open>\<open>now.saturating_duration_since(last).as_secs_f64()\<close>\<close>

definition secs_between :: "instant \<Rightarrow> instant \<Rightarrow> rat" where
  "secs_between start now = of_nat (now - start) / 10 ^ 9"

definition bucket_take :: "token_bucket \<Rightarrow> u64 \<Rightarrow> instant \<Rightarrow> token_bucket \<times> rat" where
  "bucket_take b n now =
     (let elapsed = secs_between (tb_last b) now;
          tokens = min (tb_tokens b + elapsed * tb_rate b) (tb_burst b);
          need = of_nat (unat n)
      in if tokens \<ge> need
         then (b\<lparr>tb_last := now, tb_tokens := tokens - need\<rparr>, 0)
         else let deficit = need - tokens
              in (b\<lparr>tb_last := now, tb_tokens := - deficit\<rparr>, deficit / tb_rate b))"

record rate_limiter =
  rl_rules :: "rate_limit_rule list"
  rl_buckets :: "(string, token_bucket) fmap"
  rl_throttled :: u64

definition rate_limiter_new :: "rate_limit_rule list \<Rightarrow> rate_limiter" where
  "rate_limiter_new rules =
     \<lparr>rl_rules = filter rule_effective rules, rl_buckets = fmempty, rl_throttled = 0\<rparr>"

definition limiter_is_empty :: "rate_limiter \<Rightarrow> bool" where
  "limiter_is_empty l \<longleftrightarrow> rl_rules l = []"

definition rule_for :: "rate_limiter \<Rightarrow> string \<Rightarrow> string \<Rightarrow> rate_limit_rule option" where
  "rule_for l user proxy = find (\<lambda>r. rule_matches r user proxy) (rl_rules l)"

definition rate_for :: "rate_limiter \<Rightarrow> string \<Rightarrow> string \<Rightarrow> u64 option" where
  "rate_for l user proxy = map_option rlr_rate (rule_for l user proxy)"

definition bucket_key :: "string \<Rightarrow> string \<Rightarrow> rate_limit_rule \<Rightarrow> string" where
  "bucket_key user proxy r =
     user @ [CHR 0x00] @ proxy @ [CHR 0x00] @ show_nat (unat (rlr_rate r)) @ [CHR 0x00]
       @ show_nat (unat (rule_burst r))"

definition acquire_at ::
  "rate_limiter \<Rightarrow> string \<Rightarrow> string \<Rightarrow> u64 \<Rightarrow> instant \<Rightarrow> rate_limiter \<times> rat" where
  "acquire_at l user proxy n now =
     (case rule_for l user proxy of
        None \<Rightarrow> (l, 0)
      | Some rule \<Rightarrow>
          let key = bucket_key user proxy rule;
              bucket = (case fmlookup (rl_buckets l) key of
                          Some b \<Rightarrow> b
                        | None \<Rightarrow> token_bucket_new (rlr_rate rule) (rule_burst rule) now);
              (bucket', wait) = bucket_take bucket n now
          in (l\<lparr>rl_buckets := fmupd key bucket' (rl_buckets l),
                rl_throttled := (if wait \<noteq> 0 then rl_throttled l + 1 else rl_throttled l)\<rparr>, wait))"

text \<open>The size of one read of \<open>copy_throttled\<close> (\<open>server/src/nlink.rs\<close>).\<close>

definition copy_budget :: "rate_limiter \<Rightarrow> string \<Rightarrow> string \<Rightarrow> nat" where
  "copy_budget l user proxy =
     (let r = (case rate_for l user proxy of Some x \<Rightarrow> unat x | None \<Rightarrow> 16 * 1024)
      in if r < 1 then 1 else if 16 * 1024 < r then 16 * 1024 else r)"

section \<open>Lemmas\<close>

text \<open>One connection's requests in a row: total granted, last bucket, last wait.\<close>

fun acquire_run ::
  "rate_limiter \<Rightarrow> (string \<times> string \<times> u64 \<times> instant) list \<Rightarrow> rate_limiter \<times> rat list" where
  "acquire_run l [] = (l, [])"
| "acquire_run l ((user, proxy, n, now) # reqs) =
     (let (l1, w) = acquire_at l user proxy n now; (l2, ws) = acquire_run l1 reqs in (l2, w # ws))"

definition granted_to :: "string \<Rightarrow> string \<Rightarrow> (string \<times> string \<times> u64 \<times> instant) list \<Rightarrow> nat" where
  "granted_to user proxy reqs =
     sum_list (map (\<lambda>(u, p, n, _). if u = user \<and> p = proxy then unat n else 0) reqs)"

lemma bucket_take_tokens:
  "fst (bucket_take b n now) = b\<lparr>tb_last := now,
     tb_tokens := min (tb_tokens b + secs_between (tb_last b) now * tb_rate b) (tb_burst b)
                    - of_nat (unat n)\<rparr>"
  by (simp add: bucket_take_def Let_def)

lemma bucket_take_last [simp]: "tb_last (fst (bucket_take b n now)) = now"
  by (simp add: bucket_take_tokens)

lemma bucket_take_wait:
  assumes "tb_rate b > 0"
  shows "0 \<le> snd (bucket_take b n now)"
    and "- tb_tokens (fst (bucket_take b n now)) \<le> tb_rate b * snd (bucket_take b n now)"
proof -
  define tok where "tok = min (tb_tokens b + secs_between (tb_last b) now * tb_rate b) (tb_burst b)"
  have w: "snd (bucket_take b n now)
      = (if tok \<ge> of_nat (unat n) then 0 else (of_nat (unat n) - tok) / tb_rate b)"
    by (simp add: bucket_take_def Let_def tok_def)
  have f: "tb_tokens (fst (bucket_take b n now)) = tok - of_nat (unat n)"
    by (simp add: bucket_take_tokens tok_def)
  show "0 \<le> snd (bucket_take b n now)" unfolding w using assms by simp
  show "- tb_tokens (fst (bucket_take b n now)) \<le> tb_rate b * snd (bucket_take b n now)"
    unfolding w f using assms by simp
qed

text \<open>The account of a bucket created at \<open>t0\<close> that has granted \<open>g\<close> bytes: nothing was granted
  beyond the burst and what the rate allows.\<close>

definition bucket_ok :: "u64 \<Rightarrow> u64 \<Rightarrow> instant \<Rightarrow> nat \<Rightarrow> token_bucket \<Rightarrow> bool" where
  "bucket_ok rate burst t0 g b \<longleftrightarrow>
     tb_rate b = of_nat (unat (max rate 1)) \<and> tb_burst b = of_nat (unat (max burst 1))
     \<and> t0 \<le> tb_last b
     \<and> of_nat g + tb_tokens b
         \<le> of_nat (unat (max burst 1)) + of_nat (unat (max rate 1)) * secs_between t0 (tb_last b)"

lemma secs_between_same [simp]: "secs_between t t = 0"
  by (simp add: secs_between_def)

lemma bucket_ok_new: "bucket_ok rate burst t0 0 (token_bucket_new rate burst t0)"
  by (simp add: bucket_ok_def token_bucket_new_def Let_def)

lemma bucket_ok_take:
  assumes "bucket_ok rate burst t0 g b" "tb_last b \<le> now"
  shows "bucket_ok rate burst t0 (g + unat n) (fst (bucket_take b n now))"
proof -
  define r where "r = (of_nat (unat (max rate 1)) :: rat)"
  define B where "B = (of_nat (unat (max burst 1)) :: rat)"
  define e0 where "e0 = secs_between t0 (tb_last b)"
  define e1 where "e1 = secs_between (tb_last b) now"
  have le: "t0 \<le> tb_last b" and acc: "of_nat g + tb_tokens b \<le> B + r * e0"
    and rate: "tb_rate b = r" "tb_burst b = B"
    using assms(1) by (simp_all only: bucket_ok_def r_def B_def e0_def)
  have "now - t0 = (now - tb_last b) + (tb_last b - t0)" using assms(2) le by simp
  then have "secs_between t0 now = e1 + e0"
    unfolding e0_def e1_def secs_between_def by (simp only: of_nat_add add_divide_distrib)
  moreover have "min (tb_tokens b + e1 * r) B \<le> tb_tokens b + e1 * r" by simp
  then have "of_nat (g + unat n) + (min (tb_tokens b + e1 * r) B - of_nat (unat n)) \<le> B + r * (e1 + e0)"
    using acc by (simp only: of_nat_add distrib_left mult.commute [of e1 r])
  ultimately show ?thesis
    unfolding bucket_ok_def bucket_take_tokens rate r_def [symmetric] B_def [symmetric]
      e1_def [symmetric]
    using assms(2) le rate by simp
qed

lemma bucket_ok_bound:
  assumes "bucket_ok rate burst t0 g (fst (bucket_take b n now))" "tb_rate b = of_nat (unat (max rate 1))"
  shows "of_nat g \<le> of_nat (unat (max burst 1))
      + of_nat (unat (max rate 1)) * (secs_between t0 now + snd (bucket_take b n now))"
proof -
  have "0 < unat (max rate 1)" by (simp add: max_def unat_gt_0) (metis not_less word_not_simps(1) word_gt_0)
  then have "0 < tb_rate b" using assms(2) by (simp only: of_nat_0_less_iff)
  note w = bucket_take_wait(2) [OF this, of n now, unfolded assms(2)]
  have "of_nat g + tb_tokens (fst (bucket_take b n now))
      \<le> of_nat (unat (max burst 1)) + of_nat (unat (max rate 1)) * secs_between t0 now"
    using assms(1) unfolding bucket_ok_def by (elim conjE) (simp only: bucket_take_last)
  with w show ?thesis by (simp only: distrib_left)
qed

lemma bucket_ok_weaken: "bucket_ok rate burst t0 g b \<Longrightarrow> g' \<le> g \<Longrightarrow> bucket_ok rate burst t0 g' b"
  by (auto simp: bucket_ok_def elim: order_trans [rotated])

lemma secs_between_nonneg [simp]: "0 \<le> secs_between t0 t"
  by (simp add: secs_between_def)

lemma bucket_ok_created: "t0 \<le> now \<Longrightarrow> bucket_ok rate burst t0 0 (token_bucket_new rate burst now)"
proof -
  assume "t0 \<le> now"
  moreover have "0 \<le> (of_nat (unat (max rate 1)) :: rat) * secs_between t0 now"
    by (rule mult_nonneg_nonneg) (simp_all only: of_nat_0_le_iff secs_between_nonneg)
  ultimately show ?thesis by (simp add: bucket_ok_def token_bucket_new_def Let_def)
qed

lemma token_bucket_new_last [simp]: "tb_last (token_bucket_new rate burst now) = now"
  by (simp add: token_bucket_new_def Let_def)

lemma show_nat_inj: "show_nat a = show_nat b \<longleftrightarrow> a = b"
  using digits_val_show_nat by (metis option.inject)

text \<open>The key of a bucket determines its rate and burst.\<close>

lemma bucket_key_rate:
  assumes "bucket_key u p r = bucket_key u' p' r'"
  shows "rlr_rate r = rlr_rate r' \<and> rule_burst r = rule_burst r'"
proof -
  have nul: "CHR 0x00 \<notin> set (rev (show_nat n))" for n
    using show_nat_no_low [of "CHR 0x00" n] by simp
  have rev: "rev (bucket_key u p r) = rev (show_nat (unat (rule_burst r)))
      @ CHR 0x00 # (rev (show_nat (unat (rlr_rate r))) @ CHR 0x00 # (rev p @ CHR 0x00 # rev u))"
    for u p r by (simp add: bucket_key_def)
  have "split_once (CHR 0x00) (rev (bucket_key u p r)) = split_once (CHR 0x00) (rev (bucket_key u' p' r'))"
    using assms by simp
  then have *: "rev (show_nat (unat (rule_burst r))) = rev (show_nat (unat (rule_burst r')))"
    "rev (show_nat (unat (rlr_rate r))) @ CHR 0x00 # (rev p @ CHR 0x00 # rev u)
       = rev (show_nat (unat (rlr_rate r'))) @ CHR 0x00 # (rev p' @ CHR 0x00 # rev u')"
    unfolding rev split_once_sep [OF nul] by simp_all
  have "rev (show_nat (unat (rlr_rate r))) = rev (show_nat (unat (rlr_rate r')))"
    using arg_cong [OF *(2), of "split_once (CHR 0x00)"] unfolding split_once_sep [OF nul] by simp
  then show ?thesis using *(1) by (simp add: show_nat_inj word_unat_eq_iff)
qed

text \<open>What the limiter knows of one user and proxy, \<open>g\<close> bytes into a run that started at \<open>t0\<close>.\<close>

definition account_ok ::
  "string \<Rightarrow> string \<Rightarrow> rate_limit_rule \<Rightarrow> instant \<Rightarrow> nat \<Rightarrow> instant \<Rightarrow> rate_limiter \<Rightarrow> bool" where
  "account_ok user proxy rule t0 g now l \<longleftrightarrow>
     rule_for l user proxy = Some rule \<and> t0 \<le> now \<and>
     (case fmlookup (rl_buckets l) (bucket_key user proxy rule) of
        None \<Rightarrow> g = 0
      | Some b \<Rightarrow> bucket_ok (rlr_rate rule) (rule_burst rule) t0 g b \<and> tb_last b \<le> now)"

lemma rule_for_acquire [simp]: "rule_for (fst (acquire_at l u p n now)) = rule_for l"
  by (rule ext)+ (simp add: acquire_at_def rule_for_def Let_def split: option.splits prod.splits)

lemma account_step:
  assumes "account_ok user proxy rule t0 g before l" "before \<le> now"
  shows "account_ok user proxy rule t0
           (if u = user \<and> p = proxy then g + unat n else g) now (fst (acquire_at l u p n now))"
proof (cases "rule_for l u p")
  case None
  with assms show ?thesis
    by (auto simp: account_ok_def acquire_at_def split: option.splits)
next
  case (Some r)
  let ?key = "bucket_key u p r"
  let ?b = "case fmlookup (rl_buckets l) ?key of Some b \<Rightarrow> b
            | None \<Rightarrow> token_bucket_new (rlr_rate r) (rule_burst r) now"
  have acq: "rl_buckets (fst (acquire_at l u p n now)) = fmupd ?key (fst (bucket_take ?b n now)) (rl_buckets l)"
    using Some by (simp add: acquire_at_def Let_def split_def)
  show ?thesis
  proof (cases "?key = bucket_key user proxy rule")
    case False
    then have "\<not> (u = user \<and> p = proxy)" using Some assms(1) by (auto simp: account_ok_def)
    with False assms show ?thesis
      by (auto simp: account_ok_def acq split: option.splits)
  next
    case True
    have rate: "rlr_rate r = rlr_rate rule" "rule_burst r = rule_burst rule"
      using bucket_key_rate [OF True] by auto
    have "bucket_ok (rlr_rate rule) (rule_burst rule) t0 g ?b \<and> tb_last ?b \<le> now"
      using assms True rate
      by (auto simp: account_ok_def intro: bucket_ok_created split: option.splits)
    then have "bucket_ok (rlr_rate rule) (rule_burst rule) t0 (g + unat n) (fst (bucket_take ?b n now))"
      using bucket_ok_take by blast
    with assms True show ?thesis
      by (auto simp: account_ok_def acq intro: bucket_ok_weaken)
  qed
qed

lemma account_run:
  "account_ok user proxy rule t0 g before l \<Longrightarrow> sorted (map (\<lambda>(_, _, _, now). now) reqs) \<Longrightarrow>
     \<forall>(_, _, _, now) \<in> set reqs. before \<le> now \<and> now \<le> end_time \<Longrightarrow> before \<le> end_time \<Longrightarrow>
     account_ok user proxy rule t0 (g + granted_to user proxy reqs) end_time (fst (acquire_run l reqs))"
proof (induction reqs arbitrary: g before l)
  case Nil
  then show ?case by (auto simp: account_ok_def granted_to_def split: option.splits)
next
  case (Cons q reqs)
  obtain u p n now where q: "q = (u, p, n, now)" by (cases q) auto
  let ?g = "if u = user \<and> p = proxy then g + unat n else g"
  have "account_ok user proxy rule t0 ?g now (fst (acquire_at l u p n now))"
    using Cons.prems q by (intro account_step) auto
  then have "account_ok user proxy rule t0 (?g + granted_to user proxy reqs) end_time
      (fst (acquire_run (fst (acquire_at l u p n now)) reqs))"
    using Cons.prems q by (intro Cons.IH) auto
  moreover have "g + granted_to user proxy (q # reqs) = ?g + granted_to user proxy reqs"
    by (simp add: q granted_to_def)
  ultimately show ?case by (simp only: q) (simp add: split_def Let_def)
qed

section \<open>Properties\<close>



end
