(* ===== verification/NLink_Runtime.thy ===== *)
theory NLink_Runtime
  imports NLink_Commit NLink_Policy NLink_Knock NLink_RateLimit
begin

text \<open>
  NLink configuration and run-time state (\<open>common/src/nlink/mod.rs\<close>, configuration part;
  \<open>server/src/nlink.rs\<close>; \<open>client/src/nlink.rs\<close>; the resume decision of the login handler in
  \<open>server/src/serve.rs\<close>). Whether the crate was built with the \<open>nlink\<close> feature is the
  argument \<open>built\<close>.
\<close>

unbundle bit_operations_syntax

section \<open>Configuration\<close>

record client_nlink_config =
  cn_enable :: bool
  cn_features :: "string list"
  cn_batch_work_conn :: nat
  cn_resume :: bool
  cn_xtcp_policy :: string
  cn_quic :: bool
  cn_quic_addr :: string
  cn_quic_migrate :: bool
  cn_knock_secret :: string

definition client_features :: "bool \<Rightarrow> client_nlink_config \<Rightarrow> feature_set" where
  "client_features built c =
     \<lparr>compiled = compiled_caps built, enabled = fst (parse_features (cn_features c))\<rparr>"

record server_nlink_config =
  sn_enable :: bool
  sn_features :: "string list"
  sn_resume_ttl :: u64
  sn_quic_listen :: string
  sn_batch_work_conn :: nat
  sn_knock :: "knock_rule list"
  sn_limits :: "rate_limit_rule list"
  sn_identity_ttl :: u64

definition server_nlink_default :: server_nlink_config where
  "server_nlink_default =
     \<lparr>sn_enable = False, sn_features = [], sn_resume_ttl = 30, sn_quic_listen = [],
      sn_batch_work_conn = 8, sn_knock = [], sn_limits = [], sn_identity_ttl = 300\<rparr>"

definition server_features :: "bool \<Rightarrow> server_nlink_config \<Rightarrow> feature_set" where
  "server_features built c =
     \<lparr>compiled = compiled_caps built, enabled = fst (parse_features (sn_features c))\<rparr>"

section \<open>The server's run-time state\<close>

record nlink_runtime =
  rt_cfg :: server_nlink_config
  rt_features :: feature_set
  rt_limiter :: rate_limiter
  rt_knock :: knock_table
  rt_resume :: resume_registry
  rt_identity :: identity_key
  rt_resume_key :: resume_key
  rt_resume_tokens :: pending_tokens

definition runtime_from_config ::
  "hash_fn \<Rightarrow> bool \<Rightarrow> server_nlink_config \<Rightarrow> string \<Rightarrow> nlink_runtime" where
  "runtime_from_config sha256 built cfg secret =
     \<lparr>rt_cfg = cfg, rt_features = server_features built cfg,
      rt_limiter = rate_limiter_new (sn_limits cfg), rt_knock = fmempty, rt_resume = fmempty,
      rt_identity = identity_key_derive sha256 secret,
      rt_resume_key = resume_key_derive sha256 secret, rt_resume_tokens = fmempty\<rparr>"

definition runtime_disabled :: "hash_fn \<Rightarrow> nlink_runtime" where
  "runtime_disabled sha256 =
     \<lparr>rt_cfg = server_nlink_default,
      rt_features = \<lparr>compiled = CAPS_EMPTY, enabled = CAPS_EMPTY\<rparr>,
      rt_limiter = rate_limiter_new [], rt_knock = fmempty, rt_resume = fmempty,
      rt_identity = identity_key_derive sha256 [], rt_resume_key = resume_key_derive sha256 [],
      rt_resume_tokens = fmempty\<rparr>"

definition rt_enabled :: "nlink_runtime \<Rightarrow> bool" where
  "rt_enabled rt \<longleftrightarrow> sn_enable (rt_cfg rt) \<and> caps_any (fs_active (rt_features rt))"

definition rt_enabled_mask :: "nlink_runtime \<Rightarrow> u64 option" where
  "rt_enabled_mask rt = (if rt_enabled rt then Some (bits (fs_active (rt_features rt))) else None)"

definition rt_knock_rule :: "nlink_runtime \<Rightarrow> u16 \<Rightarrow> knock_rule option" where
  "rt_knock_rule rt port =
     (if \<not> rt_enabled rt \<or> \<not> caps_contains (fs_active (rt_features rt)) CAP_PORT_KNOCK then None
      else find (\<lambda>r. kr_port r = port \<and> knock_rule_effective r) (sn_knock (rt_cfg rt)))"

definition rt_rate_limit_enabled :: "nlink_runtime \<Rightarrow> bool" where
  "rt_rate_limit_enabled rt \<longleftrightarrow>
     rt_enabled rt \<and> caps_contains (fs_active (rt_features rt)) CAP_RATE_LIMIT
     \<and> \<not> limiter_is_empty (rt_limiter rt)"

definition rt_resume_ttl :: "nlink_runtime \<Rightarrow> duration" where
  "rt_resume_ttl rt = from_secs (clamp_u64 5 600 (sn_resume_ttl (rt_cfg rt)))"

definition rt_identity_ttl :: "nlink_runtime \<Rightarrow> duration" where
  "rt_identity_ttl rt = from_secs (clamp_u64 30 3600 (sn_identity_ttl (rt_cfg rt)))"

definition rt_has :: "caps option \<Rightarrow> u64 \<Rightarrow> bool" where
  "rt_has c b \<longleftrightarrow> (case c of Some c \<Rightarrow> caps_contains c b | None \<Rightarrow> False)"

definition issue_resume_token ::
  "hmac_fn \<Rightarrow> bytes \<Rightarrow> instant \<Rightarrow> system_time \<Rightarrow> nlink_runtime \<Rightarrow> connection_id \<Rightarrow> string \<Rightarrow> string
     \<Rightarrow> u64 \<Rightarrow> nlink_runtime \<times> string option" where
  "issue_resume_token hmac nonce inst wall rt session user client_id ttl_secs =
     (if \<not> caps_contains (fs_active (rt_features rt)) CAP_RESUME then (rt, None)
      else
        let ttl = from_secs (max ttl_secs 1);
            tok = resume_issue hmac (rt_resume_key rt) nonce session user client_id ttl wall
        in (rt\<lparr>rt_resume_tokens := fst (pt_issue inst (rt_resume_tokens rt) session tok ttl)\<rparr>, Some tok))"

text \<open>The first step of a resume: a presented token must be consumed; a client that presents
  none is let through to the check of its identifiers.\<close>

definition resume_token_ok ::
  "hmac_fn \<Rightarrow> instant \<Rightarrow> system_time \<Rightarrow> nlink_runtime \<Rightarrow> connection_id \<Rightarrow> string \<Rightarrow> string
     \<Rightarrow> string option \<Rightarrow> nlink_runtime \<times> bool" where
  "resume_token_ok hmac inst wall rt session user client_id presented =
     (case presented of
        None \<Rightarrow> (rt, True)
      | Some tok \<Rightarrow>
          (case pt_consume hmac inst (rt_resume_tokens rt) session tok user client_id
                  (rt_resume_key rt) wall of
             (g, r) \<Rightarrow> (rt\<lparr>rt_resume_tokens := g\<rparr>, r = Inr ())))"

section \<open>The client's side\<close>

record client_nlink =
  cl_session :: connection_id
  cl_trace :: trace_id
  cl_features :: feature_set
  cl_enabled :: bool
  cl_resume :: bool
  cl_quic :: bool
  cl_identity :: "string option"
  cl_resume_token :: "string option"
  cl_fallback :: bool

definition client_from_config ::
  "bool \<Rightarrow> connection_id \<Rightarrow> trace_id \<Rightarrow> client_nlink_config \<Rightarrow> client_nlink" where
  "client_from_config built session trace n =
     (let fs = client_features built n;
          b0 = bits (enabled fs);
          b1 = (if cn_resume n then b0 OR CAP_RESUME else b0);
          b2 = (if cn_batch_work_conn n > 0 then b1 OR CAP_BATCH_WORK else b1);
          b3 = (if cn_quic n then b2 OR (CAP_QUIC OR CAP_QUIC_MIGRATION) else b2);
          b4 = b3 OR CAP_TRACE
      in \<lparr>cl_session = session, cl_trace = trace, cl_features = fs\<lparr>enabled := caps_new b4\<rparr>,
          cl_enabled = cn_enable n, cl_resume = cn_resume n, cl_quic = cn_quic n,
          cl_identity = None, cl_resume_token = None, cl_fallback = False\<rparr>)"

definition client_disabled :: "connection_id \<Rightarrow> trace_id \<Rightarrow> client_nlink" where
  "client_disabled session trace =
     \<lparr>cl_session = session, cl_trace = trace,
      cl_features = \<lparr>compiled = CAPS_EMPTY, enabled = CAPS_EMPTY\<rparr>,
      cl_enabled = False, cl_resume = False, cl_quic = False,
      cl_identity = None, cl_resume_token = None, cl_fallback = True\<rparr>"

definition want_preamble :: "client_nlink \<Rightarrow> bool" where
  "want_preamble c \<longleftrightarrow> cl_enabled c \<and> \<not> cl_fallback c \<and> caps_any (fs_active (cl_features c))"

definition client_preamble :: "client_nlink \<Rightarrow> preamble option" where
  "client_preamble c =
     (if \<not> want_preamble c then None
      else
        let p0 = preamble_new (fs_active (cl_features c)) (cl_session c);
            p1 = (if cl_resume c then p0\<lparr>pre_flags := pre_flags p0 OR FLAG_RESUME\<rparr> else p0);
            p2 = (if cl_quic c then p1\<lparr>pre_flags := pre_flags p1 OR FLAG_QUIC\<rparr> else p1);
            p3 = p2\<lparr>pre_tlvs := tlv_push (pre_tlvs p2) TAG_TRACE_ID (trace_bytes (cl_trace c))\<rparr>
        in Some (case cl_resume_token c of
                   None \<Rightarrow> p3
                 | Some tok \<Rightarrow> p3\<lparr>pre_tlvs := tlv_push (pre_tlvs p3) TAG_RESUME_TOKEN (as_bytes tok)\<rparr>))"

definition mark_fallback :: "client_nlink \<Rightarrow> client_nlink" where
  "mark_fallback c = c\<lparr>cl_fallback := True\<rparr>"

definition set_identity :: "client_nlink \<Rightarrow> string \<Rightarrow> client_nlink" where
  "set_identity c token = c\<lparr>cl_identity := Some token\<rparr>"

definition set_resume_token :: "client_nlink \<Rightarrow> string \<Rightarrow> client_nlink" where
  "set_resume_token c token = c\<lparr>cl_resume_token := Some token\<rparr>"

section \<open>Properties\<close>

text \<open>The master switch gates the data plane. A knock rule or a rate limit applies only when
  NLink is enabled in the configuration, compiled in, and the feature is switched on; the rule
  found is an effective rule of that port; the mask offered in the handshake is absent exactly
  when NLink is off.\<close>

theorem runtime_gates:
  "(case rt_knock_rule rt port of
      None \<Rightarrow> \<not> (sn_enable (rt_cfg rt)
                  \<and> caps_contains (compiled (rt_features rt)) CAP_PORT_KNOCK
                  \<and> caps_contains (enabled (rt_features rt)) CAP_PORT_KNOCK
                  \<and> list_ex (\<lambda>r. kr_port r = port \<and> knock_rule_effective r) (sn_knock (rt_cfg rt)))
    | Some r \<Rightarrow> sn_enable (rt_cfg rt)
                  \<and> caps_contains (compiled (rt_features rt)) CAP_PORT_KNOCK
                  \<and> caps_contains (enabled (rt_features rt)) CAP_PORT_KNOCK
                  \<and> r \<in> set (sn_knock (rt_cfg rt)) \<and> kr_port r = port \<and> kr_secret r \<noteq> [])
   \<and> (rt_rate_limit_enabled rt \<longleftrightarrow>
        sn_enable (rt_cfg rt) \<and> caps_contains (compiled (rt_features rt)) CAP_RATE_LIMIT
        \<and> caps_contains (enabled (rt_features rt)) CAP_RATE_LIMIT \<and> rl_rules (rt_limiter rt) \<noteq> [])
   \<and> rt_enabled_mask (runtime_from_config sha256 False cfg secret) = None
   \<and> rt_enabled_mask (runtime_disabled sha256) = None"
proof -
  have c: "caps_contains (fs_active f) CAP_PORT_KNOCK \<longleftrightarrow>
      caps_contains (compiled f) CAP_PORT_KNOCK \<and> caps_contains (enabled f) CAP_PORT_KNOCK"
    "caps_contains (fs_active f) CAP_RATE_LIMIT \<longleftrightarrow>
      caps_contains (compiled f) CAP_RATE_LIMIT \<and> caps_contains (enabled f) CAP_RATE_LIMIT" for f
    by (simp_all only: CAP_PORT_KNOCK_def CAP_RATE_LIMIT_def caps_contains_pow fs_active_def
        caps.sel bit_and_iff)
  have any: "caps_contains f b \<Longrightarrow> caps_any f" for f b
    by (auto simp: caps_contains_def caps_any_def)
  have 1: "case rt_knock_rule rt port of
      None \<Rightarrow> \<not> (sn_enable (rt_cfg rt)
                  \<and> caps_contains (compiled (rt_features rt)) CAP_PORT_KNOCK
                  \<and> caps_contains (enabled (rt_features rt)) CAP_PORT_KNOCK
                  \<and> list_ex (\<lambda>r. kr_port r = port \<and> knock_rule_effective r) (sn_knock (rt_cfg rt)))
    | Some r \<Rightarrow> sn_enable (rt_cfg rt)
                  \<and> caps_contains (compiled (rt_features rt)) CAP_PORT_KNOCK
                  \<and> caps_contains (enabled (rt_features rt)) CAP_PORT_KNOCK
                  \<and> r \<in> set (sn_knock (rt_cfg rt)) \<and> kr_port r = port \<and> kr_secret r \<noteq> []"
    using any [of "fs_active (rt_features rt)" CAP_PORT_KNOCK]
    by (auto simp: rt_knock_rule_def rt_enabled_def c knock_rule_effective_def find_None_iff
        find_Some_iff list_ex_iff split: option.splits)
  have 2: "rt_rate_limit_enabled rt \<longleftrightarrow>
        sn_enable (rt_cfg rt) \<and> caps_contains (compiled (rt_features rt)) CAP_RATE_LIMIT
        \<and> caps_contains (enabled (rt_features rt)) CAP_RATE_LIMIT \<and> rl_rules (rt_limiter rt) \<noteq> []"
    using any [of "fs_active (rt_features rt)" CAP_RATE_LIMIT]
    by (auto simp: rt_rate_limit_enabled_def rt_enabled_def limiter_is_empty_def c)
  have 3: "rt_enabled_mask (runtime_from_config sha256 False cfg secret) = None"
    by (simp add: rt_enabled_mask_def rt_enabled_def runtime_from_config_def server_features_def
        compiled_caps_def CAPS_EMPTY_def fs_active_def caps_any_def)
  have 4: "rt_enabled_mask (runtime_disabled sha256) = None"
    by (simp add: rt_enabled_mask_def rt_enabled_def runtime_disabled_def server_nlink_default_def)
  show ?thesis by (intro conjI 1 2 3 4)
qed

text \<open>The life of a resume token counts from the login that issued it, not from the loss of
  the connection. The client that holds the token is admitted to the resume exactly when it
  reconnects before the token's time to live has passed since it was issued, while a client
  that presents no token passes this step at any time.\<close>

theorem resume_token_life_from_login:
  assumes "caps_contains (fs_active (rt_features rt)) CAP_RESUME" "length nonce = 16"
    and "unix_secs wall' \<le> unix_secs wall + max (dur_secs (from_secs (max ttl_secs 1))) 1 + 30"
    and "issue_resume_token hmac nonce inst wall rt session user client_id ttl_secs = (rt1, Some tok)"
  shows "(snd (resume_token_ok hmac inst' wall' rt1 session user client_id (Some tok))
      \<longleftrightarrow> inst' < inst + from_secs (max ttl_secs 1))
    \<and> snd (resume_token_ok hmac inst' wall' rt1 session user client_id None)"
proof -
  let ?ttl = "from_secs (max ttl_secs 1)"
  have tok: "tok = resume_issue hmac (rt_resume_key rt) nonce session user client_id ?ttl wall"
    and rt1: "rt1 = rt\<lparr>rt_resume_tokens := fst (pt_issue inst (rt_resume_tokens rt) session tok ?ttl)\<rparr>"
    using assms(1,4) by (auto simp: issue_resume_token_def Let_def)
  have "resume_verify hmac (rt_resume_key rt) tok session user client_id wall' = Inr ()"
    using resume_verify_issued [OF assms(2)] assms(3) by (simp add: tok Let_def)
  then show ?thesis
    by (simp add: resume_token_ok_def rt1 pt_consume_def pt_issue_def)
qed

definition demo_runtime :: nlink_runtime where
  "demo_runtime = runtime_from_config (\<lambda>m. take 32 (m @ replicate 32 0)) True
     (server_nlink_default\<lparr>sn_enable := True, sn_features := [''resume'']\<rparr>) ''secret''"

theorem resume_token_life_from_login_witness:
  "\<not> snd (resume_token_ok (\<lambda>k m. k @ m) 30000000001 30000000001
        (fst (issue_resume_token (\<lambda>k m. k @ m) (replicate 16 3) 0 0 demo_runtime
           (ConnectionId (replicate 16 7)) ''u'' ''c'' 30))
        (ConnectionId (replicate 16 7)) ''u'' ''c''
        (snd (issue_resume_token (\<lambda>k m. k @ m) (replicate 16 3) 0 0 demo_runtime
           (ConnectionId (replicate 16 7)) ''u'' ''c'' 30)))"
proof -
  let ?p = "issue_resume_token (\<lambda>k m. k @ m) (replicate 16 3) 0 0 demo_runtime
           (ConnectionId (replicate 16 7)) ''u'' ''c'' 30"
  have "feature_bits ''resume'' = Some CAP_RESUME"
    by (simp add: feature_bits_tight tight_def graphic_def feature_table_def)
  then have "bit (bits (fst (parse_features [''resume'']))) 7"
    by (auto simp: parse_features_bit ALL_CAPS_bit CAP_RESUME_def bit_simps)
  then have cap: "caps_contains (fs_active (rt_features demo_runtime)) CAP_RESUME"
    by (simp add: demo_runtime_def runtime_from_config_def server_features_def fs_active_def
        CAP_RESUME_def caps_contains_pow [of _ 7, simplified] bit_and_iff compiled_caps_def CAPS_ALL_def
        ALL_CAPS_bit)
  then obtain rt1 tok where p: "?p = (rt1, Some tok)"
    by (simp add: issue_resume_token_def Let_def)
  have "unix_secs 30000000001
      \<le> unix_secs 0 + max (dur_secs (from_secs (max 30 1))) 1 + 30"
    by (simp add: unix_secs_def dur_secs_def from_secs_def)
  from resume_token_life_from_login [OF cap _ this p, of 30000000001]
  show ?thesis unfolding p by (simp add: from_secs_def)
qed

text \<open>The lifetimes the server uses are clamped, for every configured value: the resume
  window to 5..600 seconds and the identity token to 30..3600 seconds. A configured zero is
  the lower bound, not the default.\<close>

theorem runtime_ttl_bounds:
  "rt_resume_ttl rt \<in> {5 * 10 ^ 9 .. 600 * 10 ^ 9}
   \<and> rt_identity_ttl rt \<in> {30 * 10 ^ 9 .. 3600 * 10 ^ 9}
   \<and> rt_resume_ttl (rt\<lparr>rt_cfg := (rt_cfg rt)\<lparr>sn_resume_ttl := 0\<rparr>\<rparr>) = 5 * 10 ^ 9
   \<and> rt_identity_ttl (rt\<lparr>rt_cfg := (rt_cfg rt)\<lparr>sn_identity_ttl := 0\<rparr>\<rparr>) = 30 * 10 ^ 9"
  by (auto simp: rt_resume_ttl_def rt_identity_ttl_def from_secs_def clamp_u64_def word_less_nat_alt)

text \<open>What the client announces. It sends a preamble exactly when NLink is on, the peer has
  not been found to be without it and some capability is both compiled in and enabled; the
  preamble then carries those capabilities, its own resume and QUIC wishes, its trace id and
  the resume token it holds, and nothing under the token's tag when it holds none.\<close>

theorem client_preamble_content:
  "(case client_preamble c of
      None \<Rightarrow> \<not> (cl_enabled c \<and> \<not> cl_fallback c \<and> caps_any (fs_active (cl_features c)))
    | Some p \<Rightarrow>
        cl_enabled c \<and> \<not> cl_fallback c \<and> caps_any (pre_caps p)
        \<and> pre_caps p = fs_active (cl_features c) \<and> pre_session p = cl_session c
        \<and> preamble_enabled p
        \<and> preamble_wants_resume p = cl_resume c \<and> preamble_wants_quic p = cl_quic c
        \<and> tlv_get (pre_tlvs p) TAG_TRACE_ID = Some (trace_bytes (cl_trace c))
        \<and> tlv_get (pre_tlvs p) TAG_RESUME_TOKEN = map_option as_bytes (cl_resume_token c))
   \<and> client_preamble (mark_fallback c) = None
   \<and> client_preamble (client_disabled s tr) = None"
  by (cases "cl_resume c"; cases "cl_quic c"; cases "cl_resume_token c")
     (simp_all add: client_preamble_def want_preamble_def mark_fallback_def client_disabled_def
        preamble_new_def Let_def tlv_get_push preamble_enabled_def preamble_wants_resume_def
        preamble_wants_quic_def FLAG_ENABLED_def FLAG_RESUME_def FLAG_QUIC_def TAG_TRACE_ID_def
        TAG_RESUME_TOKEN_def TAG_BASE_def)

end
