(* ===== verification/Proxy_Protocol.thy ===== *)
theory Proxy_Protocol
  imports Rust_Net
begin

unbundle bit_operations_syntax

text \<open>
  PROXY protocol v1 and v2 (\<open>common/src/proxy_protocol.rs\<close>): encoders, decoders and the sniffer
  of a connection's first bytes. A \<open>SocketAddr\<close> is its address and port; the flow label and
  scope of an IPv6 socket address are not modelled (the encoders drop them).
\<close>

datatype pp_error =
    FamilyMismatch
  | V1TooLong nat
  | V1NoEnd
  | V1NotUtf8
  | V1BadMagic
  | V1BadProto
  | V1TooManyFields
  | V1BadIp
  | V1WrongFamily
  | V1BadPort
  | V2Short
  | V2BadSignature
  | V2BadVersion
  | V2Truncated
  | V2BadCommand
  | V2BadTransport
  | V2V4Short
  | V2V6Short
  | V2BadFamily

definition V1_MAX_LEN :: nat where "V1_MAX_LEN = 107"

definition V2_SIGNATURE :: bytes where
  "V2_SIGNATURE = [0x0D, 0x0A, 0x0D, 0x0A, 0x00, 0x0D, 0x0A, 0x51, 0x55, 0x49, 0x54, 0x0A]"

definition V2_CMD_PROXY :: u8 where "V2_CMD_PROXY = 0x21"
definition V2_CMD_LOCAL :: u8 where "V2_CMD_LOCAL = 0x20"
definition V2_FAM_INET :: u8 where "V2_FAM_INET = 1"
definition V2_FAM_INET6 :: u8 where "V2_FAM_INET6 = 2"
definition V2_PROTO_STREAM :: u8 where "V2_PROTO_STREAM = 1"
definition V2_PROTO_DGRAM :: u8 where "V2_PROTO_DGRAM = 2"

lemmas v2_consts = V2_CMD_PROXY_def V2_CMD_LOCAL_def V2_FAM_INET_def V2_FAM_INET6_def
  V2_PROTO_STREAM_def V2_PROTO_DGRAM_def

datatype transport = Stream | Datagram

fun transport_nibble :: "transport \<Rightarrow> u8" where
  "transport_nibble Stream = V2_PROTO_STREAM"
| "transport_nibble Datagram = V2_PROTO_DGRAM"

datatype pp_header =
    ProxyHeader (hd_src: socket_addr) (hd_dst: socket_addr) (hd_transport: transport)
  | UnknownHeader

fun header_src :: "pp_header \<Rightarrow> socket_addr option" where
  "header_src (ProxyHeader src dst tr) = Some src"
| "header_src UnknownHeader = None"

fun header_dst :: "pp_header \<Rightarrow> socket_addr option" where
  "header_dst (ProxyHeader src dst tr) = Some dst"
| "header_dst UnknownHeader = None"

section \<open>Encoding\<close>

definition encode_v1 :: "socket_addr \<Rightarrow> socket_addr \<Rightarrow> pp_error + bytes" where
  "encode_v1 src dst =
     (case (case (sa_ip src, sa_ip dst) of
              (V4 _, V4 _) \<Rightarrow> Inr ''TCP4''
            | (V6 _, V6 _) \<Rightarrow> Inr ''TCP6''
            | _ \<Rightarrow> Inl FamilyMismatch) of
        Inl e \<Rightarrow> Inl e
      | Inr family \<Rightarrow>
          let text = ''PROXY '' @ family @ '' '' @ show_ip (sa_ip src) @ '' '' @ show_ip (sa_ip dst)
                 @ '' '' @ show_nat (unat (sa_port src)) @ '' '' @ show_nat (unat (sa_port dst))
                 @ [CHR 0x0D, CHR 0x0A]
          in if length text > V1_MAX_LEN then Inl (V1TooLong (length text)) else Inr (as_bytes text))"

definition encode_v2 :: "socket_addr \<Rightarrow> socket_addr \<Rightarrow> transport \<Rightarrow> pp_error + bytes" where
  "encode_v2 src dst tr =
     (case (case (sa_ip src, sa_ip dst) of
              (V4 s, V4 d) \<Rightarrow> Inr (V2_FAM_INET, be32 s, be32 d)
            | (V6 s, V6 d) \<Rightarrow> Inr (V2_FAM_INET6, be128 s, be128 d)
            | _ \<Rightarrow> Inl FamilyMismatch) of
        Inl e \<Rightarrow> Inl e
      | Inr (family, src_bytes, dst_bytes) \<Rightarrow>
          let addr_len = (of_nat (length src_bytes + length dst_bytes + 4) :: u16) in
          Inr (V2_SIGNATURE @ [V2_CMD_PROXY] @ [push_bit 4 family OR transport_nibble tr]
                 @ be16 addr_len @ src_bytes @ dst_bytes @ be16 (sa_port src) @ be16 (sa_port dst)))"

definition encode_header :: "socket_addr \<Rightarrow> socket_addr \<Rightarrow> string \<Rightarrow> pp_error + bytes" where
  "encode_header src dst version =
     (if eq_ignore_ascii_case version ''v1'' then encode_v1 src dst else encode_v2 src dst Stream)"

definition encode_v2_local :: bytes where
  "encode_v2_local = V2_SIGNATURE @ [V2_CMD_LOCAL] @ [0] @ be16 0"

section \<open>Decoding\<close>

fun find_crlf_from :: "nat \<Rightarrow> bytes \<Rightarrow> nat option" where
  "find_crlf_from i (a # b # bs) =
     (if a = 13 \<and> b = 10 then Some i else find_crlf_from (Suc i) (b # bs))"
| "find_crlf_from i _ = None"

definition find_crlf :: "bytes \<Rightarrow> nat option" where
  "find_crlf buf = find_crlf_from 0 buf"

definition parse_v1_addr :: "string \<Rightarrow> string \<Rightarrow> bool \<Rightarrow> pp_error + socket_addr" where
  "parse_v1_addr ip port v6 =
     (case parse_ip ip of
        None \<Rightarrow> Inl V1BadIp
      | Some a \<Rightarrow>
          if (case a of V4 _ \<Rightarrow> True | V6 _ \<Rightarrow> False) = v6 then Inl V1WrongFamily
          else (case parse_u16 port of
             None \<Rightarrow> Inl V1BadPort
           | Some p \<Rightarrow> Inr \<lparr>sa_ip = a, sa_port = p\<rparr>))"

text \<open>\<open>it.next().unwrap_or_default()\<close> for the \<open>i\<close>-th field.\<close>

definition field_at :: "string list \<Rightarrow> nat \<Rightarrow> string" where
  "field_at fs i = (if i < length fs then fs ! i else [])"

definition decode_v1 :: "bytes \<Rightarrow> pp_error + (pp_header \<times> nat) option" where
  "decode_v1 buf =
     (case find_crlf buf of
        None \<Rightarrow> if length buf > V1_MAX_LEN then Inl V1NoEnd else Inr None
      | Some e \<Rightarrow>
          (case from_utf8 (take e buf) of
             None \<Rightarrow> Inl V1NotUtf8
           | Some line \<Rightarrow>
               let tot = e + 2; fs = split_on CHR '' '' line; proto = field_at fs 1 in
               if \<not> eq_ignore_ascii_case (field_at fs 0) ''PROXY'' then Inl V1BadMagic
               else if eq_ignore_ascii_case proto ''UNKNOWN'' then Inr (Some (UnknownHeader, tot))
               else
                 let v4 = eq_ignore_ascii_case proto ''TCP4''; v6 = eq_ignore_ascii_case proto ''TCP6'' in
                 if \<not> v4 \<and> \<not> v6 then Inl V1BadProto
                 else if length fs > 6 then Inl V1TooManyFields
                 else res_bind (parse_v1_addr (field_at fs 2) (field_at fs 4) v6) (\<lambda>src.
                      res_bind (parse_v1_addr (field_at fs 3) (field_at fs 5) v6) (\<lambda>dst.
                        Inr (Some (ProxyHeader src dst Stream, tot))))))"

definition decode_v2 :: "bytes \<Rightarrow> pp_error + pp_header \<times> nat" where
  "decode_v2 buf =
     (if length buf < 16 then Inl V2Short
      else if take 12 buf \<noteq> V2_SIGNATURE then Inl V2BadSignature
      else if drop_bit 4 (buf ! 12) \<noteq> 2 then Inl V2BadVersion
      else
        let cmd = buf ! 12 AND 0x0f; fam_proto = buf ! 13;
            addr_len = unat (get16 [buf ! 14, buf ! 15]); tot = 16 + addr_len in
        if length buf < tot then Inl V2Truncated
        else if cmd = 0 then Inr (UnknownHeader, tot)
        else if cmd \<noteq> 1 then Inl V2BadCommand
        else
          let family = drop_bit 4 fam_proto; proto = fam_proto AND 0x0f;
              body = take (tot - 16) (drop 16 buf) in
          res_bind (if proto = V2_PROTO_STREAM then Inr Stream
                    else if proto = V2_PROTO_DGRAM then Inr Datagram else Inl V2BadTransport) (\<lambda>tr.
            if family = V2_FAM_INET then
              if length body < 12 then Inl V2V4Short
              else Inr (ProxyHeader
                     \<lparr>sa_ip = V4 (get32 (take 4 body)), sa_port = get16 (take 2 (drop 8 body))\<rparr>
                     \<lparr>sa_ip = V4 (get32 (take 4 (drop 4 body))), sa_port = get16 (take 2 (drop 10 body))\<rparr>
                     tr, tot)
            else if family = V2_FAM_INET6 then
              if length body < 36 then Inl V2V6Short
              else Inr (ProxyHeader
                     \<lparr>sa_ip = V6 (get128 (take 16 body)), sa_port = get16 (take 2 (drop 32 body))\<rparr>
                     \<lparr>sa_ip = V6 (get128 (take 16 (drop 16 body))), sa_port = get16 (take 2 (drop 34 body))\<rparr>
                     tr, tot)
            else Inl V2BadFamily))"

definition sniff :: "bytes \<Rightarrow> (pp_header \<times> nat) option" where
  "sniff buf =
     (let sig_probe = min (length buf) (length V2_SIGNATURE) in
      if take sig_probe buf = take sig_probe V2_SIGNATURE then
        if length buf < 16 then Some (UnknownHeader, 0)
        else (case decode_v2 buf of Inr (h, n) \<Rightarrow> Some (h, n) | Inl _ \<Rightarrow> Some (UnknownHeader, 0))
      else
        let probe = min (length buf) 6 in
        if eq_ignore_ascii_case (str_of (take probe buf)) (take probe ''PROXY '') then
          if probe < 6 then Some (UnknownHeader, 0)
          else (case decode_v1 buf of
             Inr (Some (h, n)) \<Rightarrow> Some (h, n)
           | Inr None \<Rightarrow> Some (UnknownHeader, 0)
           | Inl _ \<Rightarrow> Some (UnknownHeader, 0))
        else None)"

section \<open>Lemmas: version 2\<close>

lemma fam_proto_bits:
  "drop_bit 4 (push_bit 4 V2_FAM_INET OR transport_nibble tr) = V2_FAM_INET"
  "drop_bit 4 (push_bit 4 V2_FAM_INET6 OR transport_nibble tr) = V2_FAM_INET6"
  "(push_bit 4 V2_FAM_INET OR transport_nibble tr) AND 0x0f = transport_nibble tr"
  "(push_bit 4 V2_FAM_INET6 OR transport_nibble tr) AND 0x0f = transport_nibble tr"
  by (cases tr; simp add: v2_consts)+

lemma nibble_cases:
  "(if transport_nibble tr = V2_PROTO_STREAM then Inr Stream
    else if transport_nibble tr = V2_PROTO_DGRAM then Inr Datagram else Inl V2BadTransport) = Inr tr"
  by (cases tr) (simp_all add: v2_consts)

lemma length_V2_SIGNATURE: "length V2_SIGNATURE = 12"
  by (simp add: V2_SIGNATURE_def)

text \<open>A v2 header as its fixed part and its address block.\<close>

definition v2_bytes :: "u8 \<Rightarrow> u8 \<Rightarrow> bytes \<Rightarrow> bytes" where
  "v2_bytes cmd fam body = V2_SIGNATURE @ [cmd] @ [fam] @ be16 (of_nat (length body)) @ body"

lemma v2_bytes_parts:
  assumes "length body < 65536"
  shows "length (v2_bytes cmd fam body @ rest) = 16 + length body + length rest"
    "take 12 (v2_bytes cmd fam body @ rest) = V2_SIGNATURE"
    "(v2_bytes cmd fam body @ rest) ! 12 = cmd" "(v2_bytes cmd fam body @ rest) ! 13 = fam"
    "unat (get16 [(v2_bytes cmd fam body @ rest) ! 14, (v2_bytes cmd fam body @ rest) ! 15]) = length body"
    "take (length body) (drop 16 (v2_bytes cmd fam body @ rest)) = body"
proof -
  obtain a b where l: "be16 (of_nat (length body)) = [a, b]" using be16_split by blast
  have g: "unat (get16 [a, b]) = length body"
    using get_be(1) [of "of_nat (length body)"] l assms by (simp add: unat_of_nat)
  have s: "v2_bytes cmd fam body @ rest = V2_SIGNATURE @ [cmd, fam, a, b] @ body @ rest"
    by (simp add: v2_bytes_def l)
  show "length (v2_bytes cmd fam body @ rest) = 16 + length body + length rest"
    "take 12 (v2_bytes cmd fam body @ rest) = V2_SIGNATURE"
    "(v2_bytes cmd fam body @ rest) ! 12 = cmd" "(v2_bytes cmd fam body @ rest) ! 13 = fam"
    "unat (get16 [(v2_bytes cmd fam body @ rest) ! 14, (v2_bytes cmd fam body @ rest) ! 15]) = length body"
    "take (length body) (drop 16 (v2_bytes cmd fam body @ rest)) = body"
    unfolding s using g by (simp_all add: length_V2_SIGNATURE nth_append)
qed

lemma encode_v2_form:
  assumes "encode_v2 src dst tr = Inr header"
  shows "\<exists>fam body. header = v2_bytes V2_CMD_PROXY (push_bit 4 fam OR transport_nibble tr) body
     \<and> length body < 65536
     \<and> ((\<exists>s d. fam = V2_FAM_INET \<and> sa_ip src = V4 s \<and> sa_ip dst = V4 d
            \<and> body = be32 s @ be32 d @ be16 (sa_port src) @ be16 (sa_port dst))
        \<or> (\<exists>s d. fam = V2_FAM_INET6 \<and> sa_ip src = V6 s \<and> sa_ip dst = V6 d
            \<and> body = be128 s @ be128 d @ be16 (sa_port src) @ be16 (sa_port dst)))"
  using assms
  by (cases "sa_ip src"; cases "sa_ip dst") (auto simp: encode_v2_def v2_bytes_def Let_def)

text \<open>Decoding the address block of a \<open>PROXY\<close> command.\<close>

definition v2_addresses :: "u8 \<Rightarrow> bytes \<Rightarrow> transport \<Rightarrow> nat \<Rightarrow> pp_error + pp_header \<times> nat" where
  "v2_addresses family body tr tot =
     (if family = V2_FAM_INET then
        if length body < 12 then Inl V2V4Short
        else Inr (ProxyHeader
               \<lparr>sa_ip = V4 (get32 (take 4 body)), sa_port = get16 (take 2 (drop 8 body))\<rparr>
               \<lparr>sa_ip = V4 (get32 (take 4 (drop 4 body))), sa_port = get16 (take 2 (drop 10 body))\<rparr>
               tr, tot)
      else if family = V2_FAM_INET6 then
        if length body < 36 then Inl V2V6Short
        else Inr (ProxyHeader
               \<lparr>sa_ip = V6 (get128 (take 16 body)), sa_port = get16 (take 2 (drop 32 body))\<rparr>
               \<lparr>sa_ip = V6 (get128 (take 16 (drop 16 body))), sa_port = get16 (take 2 (drop 34 body))\<rparr>
               tr, tot)
      else Inl V2BadFamily)"

lemma decode_v2_proxy:
  assumes "length body < 65536" "fam AND 0x0f = transport_nibble tr"
  shows "decode_v2 (v2_bytes V2_CMD_PROXY fam body @ rest)
           = v2_addresses (drop_bit 4 fam) body tr (16 + length body)"
proof -
  note parts = v2_bytes_parts [OF assms(1)]
  have cmd: "drop_bit 4 V2_CMD_PROXY = 2" "V2_CMD_PROXY AND 0x0f = 1" by (simp_all add: v2_consts)
  have nums: "\<not> 16 + length body + length rest < 16" "\<not> 16 + length body + length rest < 16 + length body"
    "16 + length body - 16 = length body" by simp_all
  have ones: "(1 :: u8) \<noteq> 0" by simp
  show ?thesis
    unfolding decode_v2_def parts Let_def cmd nums assms(2) nibble_cases res_bind_simps
      v2_addresses_def if_not_P [OF ones]
    by (simp only: simp_thms if_False if_True nums(1,2))
qed

lemma v2_addresses_v4:
  "v2_addresses V2_FAM_INET (be32 s @ be32 d @ be16 p @ be16 q) tr tot
     = Inr (ProxyHeader \<lparr>sa_ip = V4 s, sa_port = p\<rparr> \<lparr>sa_ip = V4 d, sa_port = q\<rparr> tr, tot)"
  by (simp add: v2_addresses_def)

lemma v2_addresses_v6:
  "v2_addresses V2_FAM_INET6 (be128 s @ be128 d @ be16 p @ be16 q) tr tot
     = Inr (ProxyHeader \<lparr>sa_ip = V6 s, sa_port = p\<rparr> \<lparr>sa_ip = V6 d, sa_port = q\<rparr> tr, tot)"
proof -
  have "V2_FAM_INET6 \<noteq> V2_FAM_INET" by (simp add: v2_consts)
  then show ?thesis by (simp add: v2_addresses_def)
qed

lemma length_v2_bytes: "length (v2_bytes cmd fam body) = 16 + length body"
  by (simp add: v2_bytes_def length_V2_SIGNATURE)

lemma decode_encode_v2:
  assumes "encode_v2 src dst tr = Inr header"
  shows "decode_v2 (header @ rest) = Inr (ProxyHeader src dst tr, length header)"
proof -
  obtain fam body where h: "header = v2_bytes V2_CMD_PROXY (push_bit 4 fam OR transport_nibble tr) body"
    and len: "length body < 65536"
    and fam: "(\<exists>s d. fam = V2_FAM_INET \<and> sa_ip src = V4 s \<and> sa_ip dst = V4 d
            \<and> body = be32 s @ be32 d @ be16 (sa_port src) @ be16 (sa_port dst))
        \<or> (\<exists>s d. fam = V2_FAM_INET6 \<and> sa_ip src = V6 s \<and> sa_ip dst = V6 d
            \<and> body = be128 s @ be128 d @ be16 (sa_port src) @ be16 (sa_port dst))"
    using encode_v2_form [OF assms] by blast
  have "(push_bit 4 fam OR transport_nibble tr) AND 0x0f = transport_nibble tr"
    "drop_bit 4 (push_bit 4 fam OR transport_nibble tr) = fam"
    using fam fam_proto_bits by blast+
  then have "decode_v2 (header @ rest) = v2_addresses fam body tr (length header)"
    using decode_v2_proxy [OF len] by (simp add: h length_v2_bytes)
  also have "\<dots> = Inr (ProxyHeader src dst tr, length header)"
    using fam
  proof (elim disjE exE conjE)
    fix s d
    assume f: "fam = V2_FAM_INET" "sa_ip src = V4 s" "sa_ip dst = V4 d"
      "body = be32 s @ be32 d @ be16 (sa_port src) @ be16 (sa_port dst)"
    show ?thesis
      unfolding f(1,4) v2_addresses_v4 f(2,3) [symmetric] by simp
  next
    fix s d
    assume f: "fam = V2_FAM_INET6" "sa_ip src = V6 s" "sa_ip dst = V6 d"
      "body = be128 s @ be128 d @ be16 (sa_port src) @ be16 (sa_port dst)"
    show ?thesis
      unfolding f(1,4) v2_addresses_v6 f(2,3) [symmetric] by simp
  qed
  finally show ?thesis .
qed

section \<open>Lemmas: version 1\<close>

lemma byte_of_inj: "byte_of c = byte_of d \<longleftrightarrow> c = d"
  by (metis char_of_byte_of)

lemma byte_of_13: "byte_of CHR 0x0D = 13" "byte_of CHR 0x0A = 10"
  by (simp_all add: byte_of_def)

lemma find_crlf_from_free:
  "13 \<notin> set bs \<Longrightarrow> find_crlf_from i (bs @ 13 # 10 # rest) = Some (i + length bs)"
proof (induction bs arbitrary: i)
  case Nil
  then show ?case by simp
next
  case (Cons b bs)
  then show ?case by (cases bs) auto
qed

lemma find_crlf_from_none: "13 \<notin> set bs \<Longrightarrow> find_crlf_from i bs = None"
proof (induction bs arbitrary: i)
  case Nil
  then show ?case by simp
next
  case (Cons b bs)
  then show ?case by (cases bs) auto
qed

lemma find_crlf_from_last: "13 \<notin> set bs \<Longrightarrow> find_crlf_from i (bs @ [13]) = None"
proof (induction bs arbitrary: i)
  case Nil
  then show ?case by simp
next
  case (Cons b bs)
  then show ?case by (cases bs) auto
qed

text \<open>The characters of a v1 line: printable ASCII, and no space inside a field.\<close>

definition plain :: "string \<Rightarrow> bool" where
  "plain s \<longleftrightarrow> list_all (\<lambda>c. 33 \<le> (of_char c :: nat) \<and> (of_char c :: nat) < 128) s"

lemma plain_simps [simp]:
  "plain []" "plain (s @ t) \<longleftrightarrow> plain s \<and> plain t"
  "plain (c # s) \<longleftrightarrow> (33 \<le> (of_char c :: nat) \<and> (of_char c :: nat) < 128) \<and> plain s"
  by (simp_all add: plain_def)

lemma plain_no_low: "plain s \<Longrightarrow> (of_char c :: nat) < 33 \<Longrightarrow> c \<notin> set s"
  by (auto simp: plain_def list_all_iff)

lemma plain_show_nat [simp]: "plain (show_nat n)"
  unfolding plain_def by (rule list_all_show_nat) (simp add: digit_char_code)

lemma plain_show_ip [simp]: "plain (show_ip ip)"
  unfolding plain_def by (rule list_all_show_ip) (simp_all add: digit_char_code)

lemma length_groups_text: "list_all (\<lambda>g. g < 65536) gs \<Longrightarrow> length (groups_text i gs) \<le> 5 * length gs"
proof (induction i gs rule: groups_text.induct)
  case (2 i g gs)
  then show ?case using length_show_hex [of g] by (cases "i = 0") simp_all
qed simp

lemma length_show_ip: "length (show_ip ip) \<le> 40"
proof (cases ip)
  case (V4 a)
  then show ?thesis using length_show_ipv4 [of a] by simp
next
  case (V6 a)
  obtain st len where z: "zero_runs (v6_segments a) 0 (0, 0) (0, 0) = (st, len)" by fastforce
  have lt: "list_all (\<lambda>g. g < 65536) (take k (v6_segments a))"
    "list_all (\<lambda>g. g < 65536) (drop k (v6_segments a))" for k
    using v6_segments_lt [of a] by (auto simp: list_all_iff dest: in_set_takeD in_set_dropD)
  have full: "length (groups_text 0 (v6_segments a)) \<le> 40"
    using length_groups_text [OF v6_segments_lt, of 0 a] by simp
  have parts: "length (groups_text 0 (take st (v6_segments a)))
      + length (groups_text 0 (drop (st + len) (v6_segments a))) \<le> 30" if "1 < len"
  proof -
    have "st + len \<le> 8" using zero_runs_ok [OF z, of "[]"] that by simp
    then show ?thesis
      using length_groups_text [OF lt(1), of 0 st] length_groups_text [OF lt(2), of 0 "st + len"] that
      by simp
  qed
  show ?thesis
    using V6 z full parts length_show_ipv4 [of "ucast a"]
    by (cases "1 < len") (simp_all add: show_ipv6_def Let_def groups_text_join)
qed

lemma length_show_nat: "0 < k \<Longrightarrow> n < 10 ^ k \<Longrightarrow> length (show_nat n) \<le> k"
proof (induction k arbitrary: n)
  case (Suc k)
  show ?case
  proof (cases "n < 10")
    case True
    then show ?thesis by (simp add: show_nat.simps [of n])
  next
    case False
    then have "0 < k" using Suc.prems(2) by (cases k) auto
    moreover have "n div 10 < 10 ^ k" using Suc.prems(2) by (simp add: less_mult_imp_div_less mult.commute)
    ultimately show ?thesis using Suc.IH [of "n div 10"] False by (simp add: show_nat.simps [of n])
  qed
qed simp

text \<open>The six fields of a v1 line.\<close>

definition v1_fields :: "socket_addr \<Rightarrow> socket_addr \<Rightarrow> string list" where
  "v1_fields src dst =
     [''PROXY'', (case sa_ip src of V4 _ \<Rightarrow> ''TCP4'' | V6 _ \<Rightarrow> ''TCP6''), show_ip (sa_ip src),
      show_ip (sa_ip dst), show_nat (unat (sa_port src)), show_nat (unat (sa_port dst))]"

definition same_family :: "ip_addr \<Rightarrow> ip_addr \<Rightarrow> bool" where
  "same_family a b \<longleftrightarrow>
     (case (a, b) of (V4 _, V4 _) \<Rightarrow> True | (V6 _, V6 _) \<Rightarrow> True | _ \<Rightarrow> False)"

lemma v1_fields_plain: "list_all plain (v1_fields src dst)"
  by (simp add: v1_fields_def split: ip_addr.splits)

lemma length_show_port: "length (show_nat (unat (p :: u16))) \<le> 5"
  using unsigned_less [of p, where 'a = nat] by (intro length_show_nat) simp_all

lemma encode_v1_form:
  "encode_v1 src dst =
     (if same_family (sa_ip src) (sa_ip dst)
      then Inr (as_bytes (join_with '' '' (v1_fields src dst)) @ [13, 10]) else Inl FamilyMismatch)"
  using length_show_ip [of "sa_ip src"] length_show_ip [of "sa_ip dst"]
    length_show_port [of "sa_port src"] length_show_port [of "sa_port dst"]
  by (cases "sa_ip src"; cases "sa_ip dst")
     (simp_all add: encode_v1_def v1_fields_def same_family_def V1_MAX_LEN_def byte_of_13 as_bytes_def Let_def)

definition v1_line :: "socket_addr \<Rightarrow> socket_addr \<Rightarrow> string" where
  "v1_line src dst = join_with '' '' (v1_fields src dst)"

lemma v1_line_chars: "c \<in> set (v1_line src dst) \<Longrightarrow> 32 \<le> (of_char c :: nat) \<and> (of_char c :: nat) < 128"
proof -
  assume c: "c \<in> set (v1_line src dst)"
  have "set (join_with sep xs) \<subseteq> set sep \<union> \<Union> (set ` set xs)" for sep :: string and xs
    by (induction sep xs rule: join_with.induct) auto
  from this [of "'' ''" "v1_fields src dst"] c
  consider "c = CHR '' ''" | f where "f \<in> set (v1_fields src dst)" "c \<in> set f"
    unfolding v1_line_def by auto
  then show ?thesis
  proof cases
    case 2
    then have "plain f" using v1_fields_plain by (simp add: list_all_iff)
    with 2 show ?thesis by (auto simp: plain_def list_all_iff)
  qed simp
qed

lemma v1_line_no_cr: "13 \<notin> set (as_bytes (v1_line src dst))"
proof
  assume "13 \<in> set (as_bytes (v1_line src dst))"
  then obtain c where c: "c \<in> set (v1_line src dst)" "byte_of c = 13" by (auto simp: as_bytes_def)
  then have "c = CHR 0x0D" using byte_of_inj byte_of_13 by metis
  with v1_line_chars [OF c(1)] show False by simp
qed

lemma v1_line_utf8: "from_utf8 (as_bytes (v1_line src dst)) = Some (v1_line src dst)"
  by (rule from_utf8_as_bytes, rule valid_str_ascii)
     (auto simp: list_all_iff is_ascii_def dest: v1_line_chars)

lemma v1_line_split: "split_on CHR '' '' (v1_line src dst) = v1_fields src dst"
  unfolding v1_line_def
proof (rule split_on_join)
  show "\<forall>x \<in> set (v1_fields src dst). CHR '' '' \<notin> set x"
  proof
    fix x assume "x \<in> set (v1_fields src dst)"
    then have "plain x" using v1_fields_plain [of src dst] by (simp add: list_all_iff)
    then show "CHR '' '' \<notin> set x" by (rule plain_no_low) simp
  qed
  show "v1_fields src dst \<noteq> []" by (simp add: v1_fields_def)
qed

lemma parse_v1_addr_show:
  "parse_v1_addr (show_ip (sa_ip a)) (show_nat (unat (sa_port a))) v6
     = (if (case sa_ip a of V4 _ \<Rightarrow> True | V6 _ \<Rightarrow> False) = v6 then Inl V1WrongFamily else Inr a)"
  by (simp add: parse_v1_addr_def parse_show_nat)

lemma decode_encode_v1:
  assumes "encode_v1 src dst = Inr header"
  shows "decode_v1 (header @ rest) = Inr (Some (ProxyHeader src dst Stream, length header))"
proof -
  have fam: "same_family (sa_ip src) (sa_ip dst)"
    and h: "header = as_bytes (v1_line src dst) @ [13, 10]"
    using assms by (auto simp: encode_v1_form v1_line_def split: if_splits)
  let ?n = "length (v1_line src dst)"
  have crlf: "find_crlf (header @ rest) = Some ?n"
    using find_crlf_from_free [OF v1_line_no_cr, of 0 src dst rest] by (simp add: find_crlf_def h)
  have line: "take ?n (header @ rest) = as_bytes (v1_line src dst)" by (simp add: h)
  have ic: "eq_ignore_ascii_case ''PROXY'' ''PROXY''"
    "\<not> eq_ignore_ascii_case ''TCP4'' ''UNKNOWN''" "\<not> eq_ignore_ascii_case ''TCP6'' ''UNKNOWN''"
    "\<not> eq_ignore_ascii_case ''TCP4'' ''TCP6''" "\<not> eq_ignore_ascii_case ''TCP6'' ''TCP4''"
    "eq_ignore_ascii_case ''TCP4'' ''TCP4''" "eq_ignore_ascii_case ''TCP6'' ''TCP6''"
    by (simp_all add: eq_ignore_ascii_case_def to_ascii_lowercase_def ascii_lower_def)
  have fields: "field_at (v1_fields src dst) 0 = ''PROXY''"
    "field_at (v1_fields src dst) 1 = (case sa_ip src of V4 _ \<Rightarrow> ''TCP4'' | V6 _ \<Rightarrow> ''TCP6'')"
    "field_at (v1_fields src dst) 2 = show_ip (sa_ip src)"
    "field_at (v1_fields src dst) 3 = show_ip (sa_ip dst)"
    "field_at (v1_fields src dst) 4 = show_nat (unat (sa_port src))"
    "field_at (v1_fields src dst) 5 = show_nat (unat (sa_port dst))"
    "\<not> length (v1_fields src dst) > 6"
    by (simp_all add: field_at_def v1_fields_def)
  have len: "length header = ?n + 2" by (simp add: h)
  show ?thesis
    unfolding decode_v1_def crlf option.case line v1_line_utf8 v1_line_split Let_def fields
      parse_v1_addr_show len
    using fam ic by (cases "sa_ip src"; cases "sa_ip dst") (simp_all add: same_family_def fields(7))
qed

section \<open>Lemmas: sniffing\<close>

lemma sniff_signature:
  "16 \<le> length buf \<Longrightarrow> take 12 buf = V2_SIGNATURE \<Longrightarrow>
     sniff buf = (case decode_v2 buf of Inr (h, n) \<Rightarrow> Some (h, n) | Inl _ \<Rightarrow> Some (UnknownHeader, 0))"
  by (simp add: sniff_def length_V2_SIGNATURE Let_def min_def)

lemma sniff_v2_prefix:
  assumes "encode_v2 src dst tr = Inr header" "k < length header"
  shows "sniff (take k header) = Some (UnknownHeader, 0)"
proof -
  obtain fam body where h: "header = v2_bytes V2_CMD_PROXY fam body" and len: "length body < 65536"
    using encode_v2_form [OF assms(1)] by blast
  note parts = v2_bytes_parts [OF len, where rest = "[]", unfolded append_Nil2]
  show ?thesis
  proof (cases "k < 16")
    case True
    have "take (min k 12) header = take (min k 12) V2_SIGNATURE"
      by (simp add: h v2_bytes_def length_V2_SIGNATURE)
    with True assms(2) show ?thesis
      by (simp add: sniff_def length_V2_SIGNATURE Let_def min.commute)
  next
    case False
    then have sig: "take 12 (take k header) = V2_SIGNATURE" "16 \<le> length (take k header)"
      using parts(2) assms(2) by (simp_all add: h min_def)
    have "take k header ! 14 = header ! 14" "take k header ! 15 = header ! 15" using False by simp_all
    then have "unat (get16 [take k header ! 14, take k header ! 15]) = length body"
      using parts(5) by (simp add: h)
    moreover have "length (take k header) < 16 + length body"
      using assms(2) by (simp add: h length_v2_bytes)
    ultimately have "\<exists>e. decode_v2 (take k header) = Inl e"
      using sig by (simp add: decode_v2_def Let_def)
    then show ?thesis using sniff_signature [OF sig(2,1)] by auto
  qed
qed

lemma sniff_v2:
  assumes "encode_v2 src dst tr = Inr header"
  shows "sniff (header @ rest) = Some (ProxyHeader src dst tr, length header)"
proof -
  obtain fam body where h: "header = v2_bytes V2_CMD_PROXY fam body" and len: "length body < 65536"
    using encode_v2_form [OF assms] by blast
  have "16 \<le> length (header @ rest)" "take 12 (header @ rest) = V2_SIGNATURE"
    using v2_bytes_parts(1,2) [OF len] by (simp_all add: h)
  then show ?thesis using decode_encode_v2 [OF assms] by (simp add: sniff_signature)
qed

lemma v1_header_start: "\<exists>s. as_bytes (v1_line src dst) @ bs = as_bytes ''PROXY '' @ s"
  by (simp add: v1_line_def v1_fields_def as_bytes_def)

lemma str_of_take_as_bytes: "str_of (take n (as_bytes s)) = take n s"
proof -
  have "take n (as_bytes s) = as_bytes (take n s)" by (simp add: as_bytes_def take_map)
  then show ?thesis by simp
qed

lemma eq_ignore_refl_take: "eq_ignore_ascii_case (take n s) (take n s)"
  by simp

lemma sniff_v1_text:
  assumes "buf = take k (as_bytes ''PROXY '' @ s)"
  shows "sniff buf =
     (if length buf < 6 then Some (UnknownHeader, 0)
      else case decode_v1 buf of Inr (Some (h, n)) \<Rightarrow> Some (h, n) | _ \<Rightarrow> Some (UnknownHeader, 0))"
proof (cases "buf = []")
  case True
  then show ?thesis by (simp add: sniff_def)
next
  case False
  have six: "length (as_bytes ''PROXY '') = 6" by simp
  have probe: "take (min (length buf) 6) buf = take (min (length buf) 6) (as_bytes ''PROXY '')"
    using assms six by (cases "k \<le> 6") (simp_all add: min_def)
  have "hd buf = byte_of CHR ''P''" using assms False by (cases k) (simp_all add: as_bytes_def)
  moreover have "byte_of CHR ''P'' \<noteq> 0x0D" by (simp add: byte_of_def)
  ultimately have "take (min (length buf) 12) buf \<noteq> take (min (length buf) 12) V2_SIGNATURE"
    using False by (cases buf) (simp_all add: V2_SIGNATURE_def min_def split: if_splits)
  moreover have "(min (length buf) 6 < 6) = (length buf < 6)" by auto
  ultimately show ?thesis
    unfolding sniff_def Let_def length_V2_SIGNATURE probe str_of_take_as_bytes
    by (simp only: if_False if_True eq_ignore_ascii_case_refl split: sum.splits option.splits prod.splits)
qed

lemma sniff_v1:
  assumes "encode_v1 src dst = Inr header"
  shows "sniff (header @ rest) = Some (ProxyHeader src dst Stream, length header)"
proof -
  obtain s where s: "header @ rest = as_bytes ''PROXY '' @ s"
    using assms v1_header_start [of src dst "[13, 10] @ rest"]
    by (auto simp: encode_v1_form v1_line_def split: if_splits)
  have t: "header @ rest = take (length (header @ rest)) (as_bytes ''PROXY '' @ s)"
    by (simp add: s [symmetric])
  have "\<not> length (header @ rest) < 6" unfolding s by simp
  then show ?thesis
    unfolding sniff_v1_text [OF t] decode_encode_v1 [OF assms] by simp
qed

lemma sniff_v1_prefix:
  assumes "encode_v1 src dst = Inr header" "k < length header"
  shows "sniff (take k header) = Some (UnknownHeader, 0)"
proof -
  have h: "header = as_bytes (v1_line src dst) @ [13, 10]"
    using assms(1) by (auto simp: encode_v1_form v1_line_def split: if_splits)
  obtain s where s: "header = as_bytes ''PROXY '' @ s"
    using v1_header_start [of src dst "[13, 10]"] h by auto
  have "find_crlf (take k header) = None"
  proof (cases "k \<le> length (v1_line src dst)")
    case True
    then have "take k header = take k (as_bytes (v1_line src dst))" by (simp add: h)
    moreover have "13 \<notin> set (take k (as_bytes (v1_line src dst)))"
      using v1_line_no_cr by (auto dest: in_set_takeD)
    ultimately show ?thesis by (simp add: find_crlf_def find_crlf_from_none)
  next
    case False
    then have "k = length (v1_line src dst) + 1" using assms(2) by (simp add: h)
    then have "take k header = as_bytes (v1_line src dst) @ [13]" by (simp add: h)
    then show ?thesis using find_crlf_from_last [OF v1_line_no_cr] by (simp add: find_crlf_def)
  qed
  then have "\<not> (\<exists>h. decode_v1 (take k header) = Inr (Some h))" by (simp add: decode_v1_def)
  then show ?thesis
    using sniff_v1_text [of "take k header" k s] s by (auto split: sum.splits option.splits)
qed

lemma find_crlf_from_bound: "find_crlf_from i bs = Some e \<Longrightarrow> i \<le> e \<and> e + 2 \<le> i + length bs"
  by (induction i bs rule: find_crlf_from.induct) (auto split: if_splits)

lemma decode_v1_bound: "decode_v1 buf = Inr (Some (h, n)) \<Longrightarrow> n \<le> length buf"
  by (auto simp: decode_v1_def find_crlf_def Let_def res_bind_Inr_iff dest!: find_crlf_from_bound
      split: option.splits if_splits)

lemma decode_v2_bound: "decode_v2 buf = Inr (h, n) \<Longrightarrow> 16 \<le> n \<and> n \<le> length buf"
  by (auto simp: decode_v2_def Let_def res_bind_Inr_iff split: if_splits)

section \<open>Properties\<close>

text \<open>C32: the PROXY header round trip, both versions. Whatever follows the header on the
  connection, the sniffer finds it, gives back the addresses and ports it was made from and
  its exact length, so the payload starts where it should; and encoding fails exactly when the
  two addresses are of different families (the v1 length limit is never hit).\<close>

theorem proxy_header_roundtrip:
  "case encode_header src dst version of
     Inr header \<Rightarrow> sniff (header @ payload) = Some (ProxyHeader src dst Stream, length header)
       \<and> same_family (sa_ip src) (sa_ip dst)
   | Inl e \<Rightarrow> e = FamilyMismatch \<and> \<not> same_family (sa_ip src) (sa_ip dst)"
proof (cases "eq_ignore_ascii_case version ''v1''")
  case True
  then show ?thesis
    using sniff_v1 [of src dst _ payload]
    by (auto simp: encode_header_def encode_v1_form split: sum.splits if_splits)
next
  case False
  show ?thesis
  proof (cases "encode_v2 src dst Stream")
    case (Inl e)
    with False show ?thesis
      by (cases "sa_ip src"; cases "sa_ip dst")
         (auto simp: encode_header_def encode_v2_def same_family_def Let_def)
  next
    case (Inr header)
    have "same_family (sa_ip src) (sa_ip dst)"
      using encode_v2_form [OF Inr] by (auto simp: same_family_def)
    with False Inr sniff_v2 [OF Inr] show ?thesis by (simp add: encode_header_def)
  qed
qed

text \<open>A header that has not fully arrived is never taken for application data or for a
  shorter header: on every proper prefix of a header the sniffer asks for more bytes.\<close>

theorem proxy_header_prefix:
  "encode_header src dst version = Inr header \<Longrightarrow> k < length header \<Longrightarrow>
     sniff (take k header) = Some (UnknownHeader, 0)"
  by (auto simp: encode_header_def sniff_v1_prefix sniff_v2_prefix split: if_splits)

theorem proxy_header_prefix_witness:
  "\<exists>header. encode_header \<lparr>sa_ip = V4 0x0a000001, sa_port = 8080\<rparr> \<lparr>sa_ip = V4 0x0a000002, sa_port = 80\<rparr> ''v2''
      = Inr header \<and> sniff (take 20 header) = Some (UnknownHeader, 0)"
proof -
  let ?src = "\<lparr>sa_ip = V4 0x0a000001, sa_port = 8080\<rparr>" and ?dst = "\<lparr>sa_ip = V4 0x0a000002, sa_port = 80\<rparr>"
  have "\<not> eq_ignore_ascii_case ''v2'' ''v1''"
    by (simp add: eq_ignore_ascii_case_def to_ascii_lowercase_def ascii_lower_def)
  then obtain header where h: "encode_header ?src ?dst ''v2'' = Inr header" "length header = 28"
    by (simp add: encode_header_def encode_v2_def Let_def length_V2_SIGNATURE)
  then show ?thesis using proxy_header_prefix [OF h(1), of 20] by simp
qed

text \<open>The sniffer never tells its caller to skip past the bytes that have arrived, whatever
  the buffer holds.\<close>

theorem sniff_within_buffer:
  "case sniff buf of Some (h, n) \<Rightarrow> n \<le> length buf | None \<Rightarrow> buf \<noteq> []"
proof (cases "buf = []")
  case True
  then show ?thesis by (simp add: sniff_def)
next
  case False
  have v1: "case (case decode_v1 buf of Inr (Some (h, n)) \<Rightarrow> Some (h, n)
      | Inr None \<Rightarrow> Some (UnknownHeader, 0) | Inl _ \<Rightarrow> Some (UnknownHeader, 0)) of
    Some (h, n) \<Rightarrow> n \<le> length buf | None \<Rightarrow> buf \<noteq> []"
    using decode_v1_bound [of buf] by (simp split: sum.split option.split)
  have v2: "case (case decode_v2 buf of Inr (h, n) \<Rightarrow> Some (h, n) | Inl _ \<Rightarrow> Some (UnknownHeader, 0)) of
    Some (h, n) \<Rightarrow> n \<le> length buf | None \<Rightarrow> buf \<noteq> []"
    using decode_v2_bound [of buf] by (simp split: sum.split)
  from v1 v2 False show ?thesis by (simp add: sniff_def Let_def)
qed

end
