(* ===== verification/Framing.thy ===== *)
theory Framing
  imports NF_Prelude
begin

text \<open>
  Reading frames from a stream that arrives in pieces of any size. The read loops of the code
  append what arrives to a buffer and call a \<open>take_frame\<close> that yields the frame at the head of
  the buffer with the bytes after it, nothing while the frame is incomplete, or an error.
\<close>

section \<open>The read loop\<close>

text \<open>Take frames until none is complete; a reader that consumes nothing is stopped.\<close>

function drain_frames :: "(bytes \<Rightarrow> ('e + 'f option) \<times> bytes) \<Rightarrow> bytes \<Rightarrow> ('e + 'f list) \<times> bytes" where
  "drain_frames take1 buf =
     (case take1 buf of
        (Inl e, rest) \<Rightarrow> (Inl e, rest)
      | (Inr None, rest) \<Rightarrow> (Inr [], rest)
      | (Inr (Some f), rest) \<Rightarrow>
          (if length rest < length buf
           then case drain_frames take1 rest of
                  (Inl e, r) \<Rightarrow> (Inl e, r)
                | (Inr fs, r) \<Rightarrow> (Inr (f # fs), r)
           else (Inr [f], rest)))"
  by pat_completeness auto
termination
  by (relation "measure (\<lambda>(take1, buf). length buf)") auto

declare drain_frames.simps [simp del]

fun feed_chunks ::
  "(bytes \<Rightarrow> ('e + 'f option) \<times> bytes) \<Rightarrow> bytes \<Rightarrow> bytes list \<Rightarrow> ('e + 'f list) \<times> bytes" where
  "feed_chunks take1 buf [] = (Inr [], buf)"
| "feed_chunks take1 buf (c # cs) =
     (case drain_frames take1 (buf @ c) of
        (Inl e, r) \<Rightarrow> (Inl e, r)
      | (Inr fs, r) \<Rightarrow>
          (case feed_chunks take1 r cs of
             (Inl e, r') \<Rightarrow> (Inl e, r')
           | (Inr gs, r') \<Rightarrow> (Inr (fs @ gs), r')))"

section \<open>The contract of a reader\<close>

text \<open>An encoder may choose something that the reader does not report, such as a mask; \<open>val\<close> is what it
  reports of a frame.\<close>

locale keyed_reader =
  fixes take1 :: "bytes \<Rightarrow> ('e + 'f option) \<times> bytes"
    and enc :: "'g \<Rightarrow> bytes"
    and val :: "'g \<Rightarrow> 'f"
    and ok :: "'g \<Rightarrow> bool"
  assumes take_nil: "take1 [] = (Inr None, [])"
    and take_enc: "ok f \<Longrightarrow> take1 (enc f @ rest) = (Inr (Some (val f)), rest)"
    and take_prefix: "ok f \<Longrightarrow> k < length (enc f) \<Longrightarrow> take1 (take k (enc f)) = (Inr None, take k (enc f))"
    and enc_nonempty: "enc f \<noteq> []"
begin

text \<open>The bytes held back are less than the next frame, and none when there is no next frame.\<close>

definition held_back :: "bytes \<Rightarrow> 'g list \<Rightarrow> bool" where
  "held_back b hs \<longleftrightarrow> (if hs = [] then b = [] else length b < length (enc (hd hs)))"

lemma drain_cons:
  "ok f \<Longrightarrow> drain_frames take1 (enc f @ rest) =
     (case drain_frames take1 rest of (Inl e, r) \<Rightarrow> (Inl e, r) | (Inr fs, r) \<Rightarrow> (Inr (val f # fs), r))"
  using take_enc [of f rest] enc_nonempty [of f]
  by (subst drain_frames.simps) simp

text \<open>Draining any prefix of a stream of frames takes the complete ones and keeps the rest.\<close>

lemma drain_prefix:
  "list_all ok fs \<Longrightarrow> k \<le> length (concat (map enc fs)) \<Longrightarrow>
     \<exists>gs hs b. fs = gs @ hs \<and> drain_frames take1 (take k (concat (map enc fs))) = (Inr (map val gs), b)
       \<and> take k (concat (map enc fs)) = concat (map enc gs) @ b \<and> held_back b hs"
proof (induction fs arbitrary: k)
  case Nil
  then show ?case by (simp add: drain_frames.simps [of take1 "[]"] take_nil held_back_def)
next
  case (Cons f fs)
  let ?n = "length (enc f)"
  show ?case
  proof (cases "k < ?n")
    case True
    have "take1 (take k (enc f)) = (Inr None, take k (enc f))"
      using take_prefix [of f k] Cons.prems(1) True by simp
    then have "drain_frames take1 (take k (enc f)) = (Inr [], take k (enc f))"
      by (simp add: drain_frames.simps [of take1 "take k (enc f)"])
    with True show ?thesis
      by (intro exI [of _ "[]"] exI [of _ "f # fs"] exI [of _ "take k (enc f)"])
         (simp add: held_back_def)
  next
    case False
    have "\<exists>gs hs b. fs = gs @ hs \<and> drain_frames take1 (take (k - ?n) (concat (map enc fs))) = (Inr (map val gs), b)
        \<and> take (k - ?n) (concat (map enc fs)) = concat (map enc gs) @ b \<and> held_back b hs"
      using Cons.prems by (intro Cons.IH) auto
    then obtain gs hs b where IH: "fs = gs @ hs"
      "drain_frames take1 (take (k - ?n) (concat (map enc fs))) = (Inr (map val gs), b)"
      "take (k - ?n) (concat (map enc fs)) = concat (map enc gs) @ b" "held_back b hs"
      by blast
    have t: "take k (concat (map enc (f # fs))) = enc f @ take (k - ?n) (concat (map enc fs))"
      using False by simp
    have "drain_frames take1 (take k (concat (map enc (f # fs)))) = (Inr (map val (f # gs)), b)"
      unfolding t using drain_cons [of f] Cons.prems(1) IH(2) by simp
    moreover have "take k (concat (map enc (f # fs))) = concat (map enc (f # gs)) @ b"
      unfolding t IH(3) by simp
    ultimately show ?thesis
      using IH(1,4) by (intro exI [of _ "f # gs"] exI [of _ hs] exI [of _ b] conjI) simp_all
  qed
qed

lemma feed_held:
  "list_all ok fs \<Longrightarrow> buf @ concat cs = concat (map enc fs) \<Longrightarrow> held_back buf fs \<Longrightarrow>
     feed_chunks take1 buf cs = (Inr (map val fs), [])"
proof (induction cs arbitrary: buf fs)
  case Nil
  then show ?case by (cases fs) (auto simp: held_back_def)
next
  case (Cons c cs)
  let ?s = "concat (map enc fs)"
  have pre: "buf @ c = take (length (buf @ c)) ?s" "length (buf @ c) \<le> length ?s"
    using Cons.prems(2) by (metis append.assoc append_eq_conv_conj concat.simps(2),
        metis append.assoc concat.simps(2) length_append le_add1)
  obtain gs hs b where d: "fs = gs @ hs" "drain_frames take1 (buf @ c) = (Inr (map val gs), b)"
    "buf @ c = concat (map enc gs) @ b" "held_back b hs"
    using drain_prefix [OF Cons.prems(1) pre(2)] unfolding pre(1) [symmetric] by blast
  have "buf @ c @ concat cs = concat (map enc gs) @ concat (map enc hs)"
    using Cons.prems(2) d(1) by simp
  then have "b @ concat cs = concat (map enc hs)"
    using d(3) by (metis append.assoc same_append_eq)
  then have "feed_chunks take1 b cs = (Inr (map val hs), [])"
    using Cons.IH Cons.prems(1) d(1,4) by simp
  then show ?case using d(1,2) by simp
qed

theorem feed_all:
  assumes "list_all ok fs" "concat cs = concat (map enc fs)"
  shows "feed_chunks take1 [] cs = (Inr (map val fs), [])"
  using feed_held [of fs "[]" cs] assms enc_nonempty by (simp add: held_back_def)

end

text \<open>The common case: the reader reports the frame itself.\<close>

locale frame_reader = keyed_reader take1 enc "\<lambda>f. f" ok
  for take1 :: "bytes \<Rightarrow> ('e + 'f option) \<times> bytes" and enc :: "'f \<Rightarrow> bytes" and ok :: "'f \<Rightarrow> bool"
begin

theorem feed_stream:
  assumes "list_all ok fs" "concat cs = concat (map enc fs)"
  shows "feed_chunks take1 [] cs = (Inr fs, [])"
  using feed_all [OF assms] by simp

end

end
