(* ===== verification/Wire.thy ===== *)
theory Wire
  imports Codec Framing
begin

unbundle bit_operations_syntax

text \<open>
  frp v2 framing and hello negotiation (\<open>common/src/frp/wire.rs\<close>, \<open>take_frame\<close> of
  \<open>common/src/frp/conn.rs\<close>). The base64 crate is the argument \<open>engines\<close> (the decoders the code
  tries, in order) and \<open>b64_encode\<close>; random bytes are arguments.
\<close>

section \<open>Frames\<close>

datatype wire_error = BadFlags u16 | PayloadTooLarge nat

definition FRAME_CLIENT_HELLO :: u16 where "FRAME_CLIENT_HELLO = 1"
definition FRAME_SERVER_HELLO :: u16 where "FRAME_SERVER_HELLO = 2"
definition FRAME_MESSAGE :: u16 where "FRAME_MESSAGE = 16"
definition MAX_FRAME_PAYLOAD :: nat where "MAX_FRAME_PAYLOAD = 64 * 1024"
definition CRYPTO_RANDOM_SIZE :: nat where "CRYPTO_RANDOM_SIZE = 32"

definition encode_frame :: "u16 \<Rightarrow> bytes \<Rightarrow> bytes" where
  "encode_frame frame_type payload =
     be16 frame_type @ be16 0 @ be32 (of_nat (length payload)) @ payload"

text \<open>\<open>take_frame\<close>: the frame at the head of the buffer and the buffer after it is drained;
  \<open>None\<close> while the frame is incomplete.\<close>

definition take_frame :: "bytes \<Rightarrow> (wire_error + (u16 \<times> bytes) option) \<times> bytes" where
  "take_frame buf =
     (if length buf < 8 then (Inr None, buf)
      else
        let frame_type = get16 (take 2 buf); flags = get16 (take 2 (drop 2 buf)) in
        if flags \<noteq> 0 then (Inl (BadFlags flags), buf)
        else
          let len = unat (get32 (take 4 (drop 4 buf))) in
          if len > MAX_FRAME_PAYLOAD then (Inl (PayloadTooLarge len), buf)
          else if length buf < 8 + len then (Inr None, buf)
          else (Inr (Some (frame_type, take len (drop 8 buf))), drop (8 + len) buf))"

section \<open>Hello negotiation\<close>

definition MESSAGE_CODEC_JSON :: string where "MESSAGE_CODEC_JSON = ''json''"
definition UDP_PACKET_CODEC_BINARY :: string where "UDP_PACKET_CODEC_BINARY = ''binary-v1''"
definition AEAD_AES_256_GCM :: string where "AEAD_AES_256_GCM = ''aes-256-gcm''"
definition AEAD_XCHACHA20_POLY1305 :: string where "AEAD_XCHACHA20_POLY1305 = ''xchacha20-poly1305''"

record bootstrap_info =
  bi_transport :: string
  bi_tls :: bool
  bi_tcp_mux :: bool

record message_capabilities =
  mc_codecs :: "string list"
  mc_udp_packet_codecs :: "string list"

record crypto_capabilities =
  cc_algorithms :: "string list"
  cc_client_random :: string

record client_hello =
  ch_bootstrap :: bootstrap_info
  ch_message :: message_capabilities
  ch_crypto :: crypto_capabilities

record server_hello =
  sh_codec :: string
  sh_udp_packet_codec :: string
  sh_algorithm :: string
  sh_server_random :: string
  sh_error :: string

datatype hello_error =
    UnsupportedCodec
  | EmptyClientRandom
  | ShortClientRandom nat
  | BadClientRandom
  | NoSupportedAlgorithm
  | UnsupportedSelectedCodec string
  | UnknownSelectedAlgorithm string
  | AlgorithmNotAdvertised string

definition new_client_hello ::
  "(bytes \<Rightarrow> string) \<Rightarrow> bytes \<Rightarrow> string \<Rightarrow> bool \<Rightarrow> bool \<Rightarrow> client_hello" where
  "new_client_hello b64_encode rnd transport tls tcp_mux =
     \<lparr>ch_bootstrap = \<lparr>bi_transport = transport, bi_tls = tls, bi_tcp_mux = tcp_mux\<rparr>,
      ch_message = \<lparr>mc_codecs = [MESSAGE_CODEC_JSON], mc_udp_packet_codecs = [UDP_PACKET_CODEC_BINARY]\<rparr>,
      ch_crypto = \<lparr>cc_algorithms = [AEAD_AES_256_GCM], cc_client_random = b64_encode rnd\<rparr>\<rparr>"

fun decode_client_random :: "(string \<Rightarrow> bytes option) list \<Rightarrow> string \<Rightarrow> bytes option" where
  "decode_client_random [] s = None"
| "decode_client_random (eng # engines) s =
     (case eng s of Some v \<Rightarrow> Some v | None \<Rightarrow> decode_client_random engines s)"

fun select_algorithm :: "string list \<Rightarrow> string option" where
  "select_algorithm [] = None"
| "select_algorithm (a # as) =
     (if a = AEAD_AES_256_GCM then Some AEAD_AES_256_GCM else select_algorithm as)"

definition validate_client_hello ::
  "(string \<Rightarrow> bytes option) list \<Rightarrow> client_hello \<Rightarrow> hello_error + unit" where
  "validate_client_hello engines hello =
     (if \<not> list_ex (\<lambda>c. c = MESSAGE_CODEC_JSON) (mc_codecs (ch_message hello)) then Inl UnsupportedCodec
      else
        let random = cc_client_random (ch_crypto hello) in
        if random = [] then Inl EmptyClientRandom
        else res_bind (case decode_client_random engines random of
               Some bs \<Rightarrow> if length bs \<ge> 16 then Inr () else Inl (ShortClientRandom (length bs))
             | None \<Rightarrow> Inl BadClientRandom) (\<lambda>_.
          if select_algorithm (cc_algorithms (ch_crypto hello)) = None then Inl NoSupportedAlgorithm
          else Inr ()))"

definition new_server_hello ::
  "(string \<Rightarrow> bytes option) list \<Rightarrow> (bytes \<Rightarrow> string) \<Rightarrow> bytes \<Rightarrow> client_hello
     \<Rightarrow> hello_error + server_hello" where
  "new_server_hello engines b64_encode rnd hello =
     res_bind (validate_client_hello engines hello) (\<lambda>_.
     res_bind (ok_or NoSupportedAlgorithm (select_algorithm (cc_algorithms (ch_crypto hello)))) (\<lambda>algorithm.
       let udp_codec =
         (if list_ex (\<lambda>c. c = UDP_PACKET_CODEC_BINARY) (mc_udp_packet_codecs (ch_message hello))
          then UDP_PACKET_CODEC_BINARY else [])
       in Inr \<lparr>sh_codec = MESSAGE_CODEC_JSON, sh_udp_packet_codec = udp_codec,
               sh_algorithm = algorithm, sh_server_random = b64_encode rnd, sh_error = []\<rparr>))"

definition validate_server_hello :: "client_hello \<Rightarrow> server_hello \<Rightarrow> hello_error + unit" where
  "validate_server_hello ch sh =
     (if sh_codec sh \<noteq> MESSAGE_CODEC_JSON then Inl (UnsupportedSelectedCodec (sh_codec sh))
      else
        let algo = sh_algorithm sh in
        if algo \<noteq> AEAD_AES_256_GCM \<and> algo \<noteq> AEAD_XCHACHA20_POLY1305 then Inl (UnknownSelectedAlgorithm algo)
        else if \<not> list_ex (\<lambda>a. a = algo) (cc_algorithms (ch_crypto ch)) then Inl (AlgorithmNotAdvertised algo)
        else Inr ())"

section \<open>Lemmas: frames\<close>

datatype frame_stop = Incomplete | Refused wire_error

text \<open>The decoder of one frame at the head of a buffer, as a codec.\<close>

definition frame_dec :: "bytes \<Rightarrow> frame_stop + (u16 \<times> bytes) \<times> bytes" where
  "frame_dec buf =
     (case take_frame buf of
        (Inl e, _) \<Rightarrow> Inl (Refused e)
      | (Inr None, _) \<Rightarrow> Inl Incomplete
      | (Inr (Some f), rest) \<Rightarrow> Inr (f, rest))"

definition frame_enc :: "u16 \<times> bytes \<Rightarrow> bytes" where
  "frame_enc f = encode_frame (fst f) (snd f)"

definition payload_ok :: "u16 \<times> bytes \<Rightarrow> bool" where
  "payload_ok f \<longleftrightarrow> length (snd f) \<le> MAX_FRAME_PAYLOAD"

lemma take_frame_encode:
  "payload_ok (t, p) \<Longrightarrow> take_frame (encode_frame t p @ rest) = (Inr (Some (t, p)), rest)"
proof -
  assume "payload_ok (t, p)"
  then have l: "length p \<le> 65536" by (simp add: payload_ok_def MAX_FRAME_PAYLOAD_def)
  then have u: "unat (of_nat (length p) :: u32) = length p" by (simp add: unat_of_nat)
  show ?thesis
    using l by (simp add: take_frame_def encode_frame_def Let_def u MAX_FRAME_PAYLOAD_def)
qed

interpretation frames: prefix_codec frame_enc frame_dec payload_ok
proof
  fix f rest
  assume "payload_ok f"
  then show "frame_dec (frame_enc f @ rest) = Inr (f, rest)"
    by (cases f) (simp add: frame_dec_def frame_enc_def take_frame_encode)
next
  fix f
  show "frame_enc f \<noteq> []" by (simp add: frame_enc_def encode_frame_def)
qed

text \<open>A buffer whose head is a proper prefix of a well-formed frame yields nothing yet.\<close>

lemma take_frame_prefix:
  assumes "payload_ok (t, p)" "k < length (encode_frame t p)"
  shows "take_frame (take k (encode_frame t p)) = (Inr None, take k (encode_frame t p))"
proof (cases "k < 8")
  case True
  then have "length (take k (encode_frame t p)) < 8" by simp
  then show ?thesis unfolding take_frame_def by (rule if_P)
next
  case False
  let ?b = "take k (encode_frame t p)"
  have l: "length p \<le> 65536" using assms(1) by (simp add: payload_ok_def MAX_FRAME_PAYLOAD_def)
  then have u: "unat (of_nat (length p) :: u32) = length p" by (simp add: unat_of_nat)
  have b: "?b = be16 t @ be16 0 @ be32 (of_nat (length p)) @ take (k - 8) p"
    using False by (simp add: encode_frame_def)
  have "k < 8 + length p" using assms(2) by (simp add: encode_frame_def)
  then have short: "length ?b < 8 + length p" "\<not> length ?b < 8"
    using False assms(2) by (simp_all add: min_def)
  have parts: "take 2 (drop 2 ?b) = be16 0" "take 4 (drop 4 ?b) = be32 (of_nat (length p))"
    unfolding b by simp_all
  show ?thesis
    unfolding take_frame_def Let_def parts get_be u using short l by (simp add: MAX_FRAME_PAYLOAD_def)
qed

interpretation reader: frame_reader take_frame frame_enc payload_ok
proof
  show "take_frame [] = (Inr None, [])" by (simp add: take_frame_def)
next
  fix f rest
  assume "payload_ok f"
  then show "take_frame (frame_enc f @ rest) = (Inr (Some f), rest)"
    by (cases f) (simp add: frame_enc_def take_frame_encode)
next
  fix f k
  assume "payload_ok f" "k < length (frame_enc f)"
  then show "take_frame (take k (frame_enc f)) = (Inr None, take k (frame_enc f))"
    using take_frame_prefix [of "fst f" "snd f" k] by (simp add: frame_enc_def)
next
  fix f
  show "frame_enc f \<noteq> []" by (simp add: frame_enc_def encode_frame_def)
qed

section \<open>Properties\<close>

text \<open>C30: framing does not depend on how the stream is cut. However the bytes of a sequence of
  frames are divided into reads, the reader delivers exactly those frames, in order, with
  nothing left over; and a stream of frames determines the frames.\<close>

theorem frames_any_chunking:
  assumes "list_all (\<lambda>(t, p). length p \<le> 64 * 1024) fs"
    and "concat chunks = concat (map (\<lambda>(t, p). encode_frame t p) fs)"
  shows "feed_chunks take_frame [] chunks = (Inr fs, [])"
proof (rule reader.feed_stream)
  show "list_all payload_ok fs"
    using assms(1) by (auto simp: payload_ok_def MAX_FRAME_PAYLOAD_def list_all_iff)
  have "frame_enc = (\<lambda>(t, p). encode_frame t p)" by (auto simp: frame_enc_def)
  then show "concat chunks = concat (map frame_enc fs)" using assms(2) by simp
qed

theorem frames_any_chunking_witness:
  "feed_chunks take_frame [] [take 5 (encode_frame 16 [1, 2, 3]), drop 5 (encode_frame 16 [1, 2, 3]) @ encode_frame 1 []]
     = (Inr [(16, [1, 2, 3]), (1, [])], [])"
  by (rule frames_any_chunking) simp_all

text \<open>The hello negotiation agrees. When the server accepts a client hello, the hello it
  answers passes the client's validation against that same client hello; it selects JSON and
  AES-256-GCM, carries no error, and offers the binary UDP codec exactly when the client
  announced it. When it refuses, it is for the reason the validation gives.\<close>

theorem negotiation_agrees:
  "case new_server_hello engines b64_encode rnd hello of
     Inr sh \<Rightarrow> validate_server_hello hello sh = Inr ()
       \<and> sh_codec sh = MESSAGE_CODEC_JSON \<and> sh_algorithm sh = AEAD_AES_256_GCM \<and> sh_error sh = []
       \<and> (sh_udp_packet_codec sh = UDP_PACKET_CODEC_BINARY
            \<longleftrightarrow> UDP_PACKET_CODEC_BINARY \<in> set (mc_udp_packet_codecs (ch_message hello)))
   | Inl e \<Rightarrow> validate_client_hello engines hello = Inl e"
proof -
  have sel: "select_algorithm as = (if AEAD_AES_256_GCM \<in> set as then Some AEAD_AES_256_GCM else None)" for as
    by (induction as) auto
  have ne: "UDP_PACKET_CODEC_BINARY \<noteq> []" by (simp add: UDP_PACKET_CODEC_BINARY_def)
  show ?thesis
  proof (cases "validate_client_hello engines hello")
    case (Inl e)
    then show ?thesis by (simp add: new_server_hello_def)
  next
    case (Inr u)
    then have "AEAD_AES_256_GCM \<in> set (cc_algorithms (ch_crypto hello))"
      by (auto simp: validate_client_hello_def Let_def res_bind_Inr_iff sel split: if_splits)
    then show ?thesis
      using Inr ne by (simp add: new_server_hello_def sel validate_server_hello_def Let_def list_ex_iff)
  qed
qed

text \<open>A client of this implementation is always accepted: its hello, with thirty-two random
  bytes encoded as base64, passes the server's validation, given that the standard decoder
  inverts the encoder and encodes no such value as the empty string.\<close>

theorem own_client_accepted:
  assumes "standard (b64_encode rnd) = Some rnd" "b64_encode rnd \<noteq> []" "length rnd = CRYPTO_RANDOM_SIZE"
  shows "\<exists>sh. new_server_hello (standard # others) b64_encode srnd
           (new_client_hello b64_encode rnd transport tls tcp_mux) = Inr sh
         \<and> sh_udp_packet_codec sh = UDP_PACKET_CODEC_BINARY"
  using assms
  by (simp add: new_server_hello_def new_client_hello_def validate_client_hello_def Let_def
      CRYPTO_RANDOM_SIZE_def)

theorem own_client_accepted_witness:
  "\<exists>sh. new_server_hello [\<lambda>s. Some (as_bytes s)] str_of [1, 2, 3]
         (new_client_hello str_of (replicate 32 65) ''tcp'' True True) = Inr sh
     \<and> sh_udp_packet_codec sh = UDP_PACKET_CODEC_BINARY"
  by (rule own_client_accepted) (simp, simp add: str_of_def, simp add: CRYPTO_RANDOM_SIZE_def)

end
