(* ===== verification/Sni.thy ===== *)
theory Sni
  imports Rust_Std
begin

text \<open>
  The TLS ClientHello sniffer (\<open>common/src/frp/sni.rs\<close>). The stream is the list of the bytes
  the peer sends before it closes; every index or slice of the code that could be out of range
  is a \<open>Panicked\<close> branch of the model.
\<close>

datatype sni_error =
    RecordHeaderEof
  | NotHandshake u8
  | HelloTooLarge
  | RecordBodyEof
  | NotClientHello u8
  | HelloTruncated
  | HelloIncomplete
  | Panicked

definition MAX_RECORDS :: nat where "MAX_RECORDS = 4"
definition MAX_BYTES :: nat where "MAX_BYTES = 32 * 1024"

definition byte_ix :: "bytes \<Rightarrow> nat \<Rightarrow> sni_error + nat" where
  "byte_ix b i = (if i < length b then Inr (unat (b ! i)) else Inl Panicked)"

definition u16_ix :: "bytes \<Rightarrow> nat \<Rightarrow> sni_error + nat" where
  "u16_ix b i = res_bind (byte_ix b i) (\<lambda>x. res_bind (byte_ix b (i + 1)) (\<lambda>y. Inr (x * 256 + y)))"

definition slice_ix :: "bytes \<Rightarrow> nat \<Rightarrow> nat \<Rightarrow> sni_error + bytes" where
  "slice_ix b i j = (if i \<le> j \<and> j \<le> length b then Inr (take (j - i) (drop i b)) else Inl Panicked)"

definition need :: "bytes \<Rightarrow> nat \<Rightarrow> nat \<Rightarrow> sni_error + unit" where
  "need body i n = (if i + n > length body then Inl HelloTruncated else Inr ())"

text \<open>The loop over the names of a \<open>server_name\<close> extension.\<close>

function name_loop :: "bytes \<Rightarrow> nat \<Rightarrow> nat \<Rightarrow> sni_error + string option" where
  "name_loop data e j =
     (if j + 3 \<le> e then
        res_bind (byte_ix data j) (\<lambda>name_type.
        res_bind (u16_ix data (j + 1)) (\<lambda>name_len.
          if j + 3 + name_len > e then Inr None
          else if name_type = 0 then
            res_bind (slice_ix data (j + 3) (j + 3 + name_len)) (\<lambda>b. Inr (Some (from_utf8_lossy b)))
          else name_loop data e (j + 3 + name_len)))
      else Inr None)"
  by pat_completeness auto
termination
  by (relation "measure (\<lambda>(data, e, j). e - j)") auto

text \<open>The loop over the extensions.\<close>

function ext_loop :: "bytes \<Rightarrow> nat \<Rightarrow> nat \<Rightarrow> sni_error + string option" where
  "ext_loop body ext_end i =
     (if i + 4 \<le> ext_end then
        res_bind (u16_ix body i) (\<lambda>ext_type.
        res_bind (u16_ix body (i + 2)) (\<lambda>ext_len.
          if i + 4 + ext_len > ext_end then Inr None
          else if ext_type = 0 then
            res_bind (slice_ix body (i + 4) (i + 4 + ext_len)) (\<lambda>data.
              if length data < 2 then Inr None
              else res_bind (u16_ix data 0) (\<lambda>list_len.
                     name_loop data (min (2 + list_len) (length data)) 2))
          else ext_loop body ext_end (i + 4 + ext_len)))
      else Inr None)"
  by pat_completeness auto
termination
  by (relation "measure (\<lambda>(body, e, i). e - i)") auto

declare name_loop.simps [simp del] ext_loop.simps [simp del]

definition parse_sni :: "bytes \<Rightarrow> sni_error + string option" where
  "parse_sni body =
     (let i0 = 4 in
      res_bind (need body i0 2) (\<lambda>_. let i1 = i0 + 2 in
      res_bind (need body i1 32) (\<lambda>_. let i2 = i1 + 32 in
      res_bind (need body i2 1) (\<lambda>_.
      res_bind (byte_ix body i2) (\<lambda>sid_len. let i3 = i2 + (1 + sid_len) in
      res_bind (need body i3 2) (\<lambda>_.
      res_bind (u16_ix body i3) (\<lambda>cs_len. let i4 = i3 + (2 + cs_len) in
      res_bind (need body i4 1) (\<lambda>_.
      res_bind (byte_ix body i4) (\<lambda>comp_len. let i5 = i4 + (1 + comp_len) in
        if i5 + 2 > length body then Inr None
        else res_bind (u16_ix body i5) (\<lambda>ext_total. let i6 = i5 + 2 in
               ext_loop body (min (i6 + ext_total) (length body)) i6))))))))))"

text \<open>\<open>sniff_client_hello\<close>: \<open>need_len\<close> is the total handshake length once four bytes are in;
  the result pairs the name with the raw bytes to forward, and gives the rest of the stream.\<close>

definition handshake_need :: "bytes \<Rightarrow> sni_error + nat option" where
  "handshake_need payload =
     (if length payload \<ge> 4 then
        if payload ! 0 \<noteq> 1 then Inl (NotClientHello (payload ! 0))
        else Inr (Some (4 + (unat (payload ! 1) * 65536 + unat (payload ! 2) * 256 + unat (payload ! 3))))
      else Inr None)"

fun sniff_records ::
  "nat \<Rightarrow> bytes \<Rightarrow> bytes \<Rightarrow> nat option \<Rightarrow> bytes \<Rightarrow> sni_error + (string option \<times> bytes) \<times> bytes" where
  "sniff_records 0 raw payload need_len stream = Inl HelloIncomplete"
| "sniff_records (Suc k) raw payload need_len stream =
     (if length stream < 5 then Inl RecordHeaderEof
      else
        let header = take 5 stream; rest = drop 5 stream in
        if header ! 0 \<noteq> 0x16 then Inl (NotHandshake (header ! 0))
        else
          let rec_len = unat (get16 [header ! 3, header ! 4]) in
          if length raw + 5 + rec_len > MAX_BYTES then Inl HelloTooLarge
          else if length rest < rec_len then Inl RecordBodyEof
          else
            let body = take rec_len rest; rest' = drop rec_len rest;
                raw' = raw @ header @ body; payload' = payload @ body in
            res_bind (handshake_need payload') (\<lambda>n.
              let need_len' = (case n of Some m \<Rightarrow> Some m | None \<Rightarrow> need_len) in
              case need_len' of
                Some m \<Rightarrow>
                  if length payload' \<ge> m
                  then res_bind (parse_sni (take m payload')) (\<lambda>name. Inr ((name, raw'), rest'))
                  else sniff_records k raw' payload' need_len' rest'
              | None \<Rightarrow> sniff_records k raw' payload' need_len' rest'))"

declare sniff_records.simps(2) [simp del]

definition sniff_client_hello :: "bytes \<Rightarrow> sni_error + (string option \<times> bytes) \<times> bytes" where
  "sniff_client_hello stream = sniff_records MAX_RECORDS [] [] None stream"

section \<open>Lemmas: no panic\<close>

lemma byte_ix_ok: "i < length b \<Longrightarrow> byte_ix b i = Inr (unat (b ! i))"
  by (simp add: byte_ix_def)

lemma u16_ix_ok: "i + 1 < length b \<Longrightarrow> u16_ix b i = Inr (unat (b ! i) * 256 + unat (b ! (i + 1)))"
  by (simp add: u16_ix_def byte_ix_ok)

lemma slice_ix_ok: "i \<le> j \<Longrightarrow> j \<le> length b \<Longrightarrow> slice_ix b i j = Inr (take (j - i) (drop i b))"
  by (simp add: slice_ix_def)

lemma name_loop_safe: "e \<le> length data \<Longrightarrow> \<exists>r. name_loop data e j = Inr r"
proof (induction data e j rule: name_loop.induct)
  case (1 data e j)
  show ?case
  proof (cases "j + 3 \<le> e")
    case False
    then show ?thesis by (simp add: name_loop.simps [of data e j])
  next
    case True
    with 1(2) have ix: "byte_ix data j = Inr (unat (data ! j))"
      "u16_ix data (j + 1) = Inr (unat (data ! (j + 1)) * 256 + unat (data ! (j + 1 + 1)))"
      by (simp_all add: byte_ix_ok u16_ix_ok)
    let ?n = "unat (data ! (j + 1)) * 256 + unat (data ! (j + 1 + 1))"
    consider "j + 3 + ?n > e" | "\<not> j + 3 + ?n > e" "unat (data ! j) = 0"
      | "\<not> j + 3 + ?n > e" "unat (data ! j) \<noteq> 0" by blast
    then show ?thesis
    proof cases
      case 1
      then show ?thesis unfolding name_loop.simps [of data e j] ix by simp
    next
      case 2
      then show ?thesis
        using \<open>e \<le> length data\<close> unfolding name_loop.simps [of data e j] ix by (simp add: slice_ix_ok)
    next
      case 3
      have "\<exists>r. name_loop data e (j + 3 + ?n) = Inr r"
        using 1(1) [OF True, of ?n "unat (data ! j)"] 3 1(2) by simp
      then show ?thesis
        using 3 True unfolding name_loop.simps [of data e j] ix by simp
    qed
  qed
qed

lemma ext_loop_safe: "e \<le> length body \<Longrightarrow> \<exists>r. ext_loop body e i = Inr r"
proof (induction body e i rule: ext_loop.induct)
  case (1 body e i)
  show ?case
  proof (cases "i + 4 \<le> e")
    case False
    then show ?thesis by (simp add: ext_loop.simps [of body e i])
  next
    case True
    let ?t = "unat (body ! i) * 256 + unat (body ! (i + 1))"
    let ?n = "unat (body ! (i + 2)) * 256 + unat (body ! (i + 2 + 1))"
    from True 1(2) have ix: "u16_ix body i = Inr ?t" "u16_ix body (i + 2) = Inr ?n"
      by (simp_all add: u16_ix_ok)
    consider "i + 4 + ?n > e" | "\<not> i + 4 + ?n > e" "?t = 0" | "\<not> i + 4 + ?n > e" "?t \<noteq> 0" by blast
    then show ?thesis
    proof cases
      case 1
      then show ?thesis unfolding ext_loop.simps [of body e i] ix by simp
    next
      case 2
      define d where "d = take ?n (drop (i + 4) body)"
      have s: "slice_ix body (i + 4) (i + 4 + ?n) = Inr d"
        using 2 \<open>e \<le> length body\<close> by (simp add: slice_ix_ok d_def)
      show ?thesis
      proof (cases "length d < 2")
        case True
        with 2 \<open>i + 4 \<le> e\<close> s show ?thesis unfolding ext_loop.simps [of body e i] ix by simp
      next
        case False
        then have "u16_ix d 0 = Inr (unat (d ! 0) * 256 + unat (d ! (0 + 1)))"
          by (intro u16_ix_ok) linarith
        moreover have "\<exists>r. name_loop d (min m (length d)) 2 = Inr r" for m
          by (rule name_loop_safe) simp
        ultimately show ?thesis
          using 2 \<open>i + 4 \<le> e\<close> s False
          unfolding ext_loop.simps [of body e i] ix by simp
      qed
    next
      case 3
      have "\<exists>r. ext_loop body e (i + 4 + ?n) = Inr r"
        using 1(1) [OF True, of ?n ?t] 3 1(2) by simp
      then show ?thesis
        using 3 True unfolding ext_loop.simps [of body e i] ix by auto
    qed
  qed
qed

lemma ext_loop_no_error: "ext_loop body (min n (length body)) i \<noteq> Inl x"
  using ext_loop_safe [of "min n (length body)" body i] by auto

lemma parse_sni_safe: "parse_sni body \<noteq> Inl Panicked"
  by (auto simp: parse_sni_def need_def Let_def byte_ix_def u16_ix_ok res_bind_def ext_loop_no_error
      split: sum.splits if_splits)

lemma handshake_need_safe: "handshake_need p \<noteq> Inl Panicked"
  by (simp add: handshake_need_def)

text \<open>What one turn of the record loop does once a record has been read.\<close>

definition after_record ::
  "nat \<Rightarrow> bytes \<Rightarrow> bytes \<Rightarrow> nat option \<Rightarrow> bytes \<Rightarrow> sni_error + (string option \<times> bytes) \<times> bytes" where
  "after_record k raw payload need_len rest =
     res_bind (handshake_need payload) (\<lambda>n.
       case (case n of Some m \<Rightarrow> Some m | None \<Rightarrow> need_len) of
         Some m \<Rightarrow>
           if length payload \<ge> m
           then res_bind (parse_sni (take m payload)) (\<lambda>name. Inr ((name, raw), rest))
           else sniff_records k raw payload (case n of Some m \<Rightarrow> Some m | None \<Rightarrow> need_len) rest
       | None \<Rightarrow> sniff_records k raw payload (case n of Some m \<Rightarrow> Some m | None \<Rightarrow> need_len) rest)"

lemma sniff_records_step:
  assumes "stream = header @ body @ rest" "length header = 5" "header ! 0 = 0x16"
    "unat (get16 [header ! 3, header ! 4]) = length body"
    "length raw + 5 + length body \<le> MAX_BYTES"
  shows "sniff_records (Suc k) raw payload n stream
           = after_record k (raw @ header @ body) (payload @ body) n rest"
proof -
  have f: "take 5 stream = header" "drop 5 stream = body @ rest" "\<not> length stream < 5"
    "\<not> length raw + 5 + length body > MAX_BYTES" "\<not> length (body @ rest) < length body"
    "take (length body) (body @ rest) = body" "drop (length body) (body @ rest) = rest"
    using assms by simp_all
  show ?thesis
    unfolding sniff_records.simps(2) Let_def after_record_def f(1,2) assms(3,4) f(6,7)
      if_not_P [OF f(3)] if_not_P [OF f(4)] if_not_P [OF f(5)] by simp
qed

lemma sniff_records_cases:
  "(\<exists>e. sniff_records (Suc k) raw payload n stream = Inl e \<and> e \<noteq> Panicked)
   \<or> (\<exists>header body rest. stream = header @ body @ rest \<and> length (raw @ header @ body) \<le> MAX_BYTES
        \<and> sniff_records (Suc k) raw payload n stream
            = after_record k (raw @ header @ body) (payload @ body) n rest)"
proof (cases "length stream < 5 \<or> take 5 stream ! 0 \<noteq> 0x16
    \<or> length raw + 5 + unat (get16 [take 5 stream ! 3, take 5 stream ! 4]) > MAX_BYTES
    \<or> length (drop 5 stream) < unat (get16 [take 5 stream ! 3, take 5 stream ! 4])")
  case True
  then show ?thesis by (auto simp: Let_def sniff_records.simps(2))
next
  case False
  let ?h = "take 5 stream"
  let ?len = "unat (get16 [?h ! 3, ?h ! 4])"
  let ?b = "take ?len (drop 5 stream)" and ?r = "drop ?len (drop 5 stream)"
  have s: "stream = ?h @ ?b @ ?r" by (simp only: append_take_drop_id)
  have l: "length ?h = 5" "?h ! 0 = 0x16" "?len = length ?b" "length raw + 5 + length ?b \<le> MAX_BYTES"
    using False by simp_all
  have "length (raw @ ?h @ ?b) \<le> MAX_BYTES" using l(1,4) by simp
  with s sniff_records_step [OF s l] show ?thesis by blast
qed

lemma sniff_records_safe: "sniff_records k raw payload n stream \<noteq> Inl Panicked"
proof (induction k arbitrary: raw payload n stream)
  case (Suc k)
  have "after_record k r p m rest \<noteq> Inl Panicked" for r p m rest
    using Suc parse_sni_safe handshake_need_safe
    by (auto simp: after_record_def res_bind_def split: sum.splits option.splits)
  then show ?case using sniff_records_cases [of k raw payload n stream] by auto
qed simp

lemma after_record_Inr:
  assumes "after_record k raw payload n rest = Inr ((name, raw'), rest')"
  shows "(raw' = raw \<and> rest' = rest) \<or> (\<exists>m. sniff_records k raw payload m rest = Inr ((name, raw'), rest'))"
proof -
  obtain n' where "(case (case n' of Some m \<Rightarrow> Some m | None \<Rightarrow> n) of
         Some m \<Rightarrow>
           if length payload \<ge> m
           then res_bind (parse_sni (take m payload)) (\<lambda>name. Inr ((name, raw), rest))
           else sniff_records k raw payload (case n' of Some m \<Rightarrow> Some m | None \<Rightarrow> n) rest
       | None \<Rightarrow> sniff_records k raw payload (case n' of Some m \<Rightarrow> Some m | None \<Rightarrow> n) rest)
     = Inr ((name, raw'), rest')"
    using assms unfolding after_record_def res_bind_Inr_iff by blast
  then show ?thesis
    by (cases "case n' of Some m \<Rightarrow> Some m | None \<Rightarrow> n")
       (auto simp: res_bind_Inr_iff split: if_split_asm)
qed

lemma sniff_records_raw:
  "sniff_records k raw payload n stream = Inr ((name, raw'), rest) \<Longrightarrow>
     raw @ stream = raw' @ rest \<and> length raw' \<le> MAX_BYTES"
proof (induction k arbitrary: raw payload n stream)
  case (Suc k)
  have "\<not> (\<exists>e. sniff_records (Suc k) raw payload n stream = Inl e \<and> e \<noteq> Panicked)"
    unfolding Suc.prems by blast
  then obtain header body rest' where r: "stream = header @ body @ rest'"
    "length (raw @ header @ body) \<le> MAX_BYTES"
    "sniff_records (Suc k) raw payload n stream = after_record k (raw @ header @ body) (payload @ body) n rest'"
    using sniff_records_cases [of k raw payload n stream] by blast
  have "after_record k (raw @ header @ body) (payload @ body) n rest' = Inr ((name, raw'), rest)"
    unfolding r(3) [symmetric] by (rule Suc.prems)
  from after_record_Inr [OF this] show ?case
  proof
    assume *: "raw' = raw @ header @ body \<and> rest = rest'"
    then show ?thesis using r(1,2) by simp
  next
    assume "\<exists>m. sniff_records k (raw @ header @ body) (payload @ body) m rest' = Inr ((name, raw'), rest)"
    then obtain m where "sniff_records k (raw @ header @ body) (payload @ body) m rest' = Inr ((name, raw'), rest)" ..
    from Suc.IH [OF this] show ?thesis unfolding r(1) by simp
  qed
qed simp

section \<open>Lemmas: reading a well-formed hello\<close>

lemma byte_ix_at: "byte_ix (p @ x # q) (length p) = Inr (unat x)"
  by (simp add: byte_ix_def)

lemma u16_ix_at: "u16_ix (p @ be16 n @ q) (length p) = Inr (unat n)"
proof -
  obtain a b where ab: "be16 n = [a, b]" using be16_split by blast
  have "unat n = be_get [a, b]"
    using ab be_get_put [of 2 "unat n"] unsigned_less [of n, where 'a = nat] by (simp add: be16_def)
  also have "\<dots> = unat a * 256 + unat b" by (simp add: be_get_def)
  finally show ?thesis using ab by (simp add: u16_ix_def byte_ix_def nth_append)
qed

lemma slice_ix_at: "slice_ix (p @ d @ q) (length p) (length p + length d) = Inr d"
  by (simp add: slice_ix_def)

lemma need_at: "n \<le> length q \<Longrightarrow> need (p @ q) (length p) n = Inr ()"
  by (simp add: need_def)

text \<open>A \<open>server_name\<close> extension, an extension, and a hello as bytes.\<close>

definition sni_data :: "string \<Rightarrow> bytes" where
  "sni_data name = be16 (of_nat (length name + 3)) @ [0] @ be16 (of_nat (length name)) @ as_bytes name"

definition ext_bytes :: "u16 \<times> bytes \<Rightarrow> bytes" where
  "ext_bytes e = be16 (fst e) @ be16 (of_nat (length (snd e))) @ snd e"

definition hello_bytes ::
  "bytes \<Rightarrow> bytes \<Rightarrow> bytes \<Rightarrow> bytes \<Rightarrow> (u16 \<times> bytes) list \<Rightarrow> bytes" where
  "hello_bytes rnd sid suites cmps exts =
     (let e = concat (map ext_bytes exts);
          body = [3, 3] @ rnd @ [of_nat (length sid)] @ sid @ be16 (of_nat (length suites)) @ suites
                   @ [of_nat (length cmps)] @ cmps @ be16 (of_nat (length e)) @ e
      in [1, of_nat (length body div 65536), of_nat (length body div 256), of_nat (length body)] @ body)"

lemma name_loop_name:
  assumes "length name + 5 < 65536" "valid_str name"
  shows "name_loop (sni_data name) (min (2 + (length name + 3)) (length (sni_data name))) 2 = Inr (Some name)"
proof -
  let ?d = "sni_data name"
  have len: "length ?d = length name + 5" by (simp add: sni_data_def)
  have nl: "unat (of_nat (length name) :: u16) = length name" using assms(1) by (simp add: unat_of_nat)
  have d1: "?d = be16 (of_nat (length name + 3)) @ 0 # (be16 (of_nat (length name)) @ as_bytes name)"
    by (simp add: sni_data_def)
  have d2: "?d = (be16 (of_nat (length name + 3)) @ [0]) @ be16 (of_nat (length name)) @ as_bytes name"
    by (simp add: sni_data_def)
  have d3: "?d = (be16 (of_nat (length name + 3)) @ [0] @ be16 (of_nat (length name))) @ as_bytes name @ []"
    by (simp add: sni_data_def)
  have ix: "byte_ix ?d 2 = Inr 0"
    unfolding d1 using byte_ix_at [of "be16 (of_nat (length name + 3))" 0] by simp
  have nlen: "u16_ix ?d (2 + 1) = Inr (length name)"
    unfolding d2 using u16_ix_at [of "be16 (of_nat (length name + 3)) @ [0]" "of_nat (length name)"] nl by simp
  have sl: "slice_ix ?d (2 + 3) (2 + 3 + length name) = Inr (as_bytes name)"
    unfolding d3
    using slice_ix_at [of "be16 (of_nat (length name + 3)) @ [0] @ be16 (of_nat (length name))" "as_bytes name" "[]"]
    by simp
  show ?thesis
    unfolding name_loop.simps [of ?d _ 2] ix nlen sl len res_bind_simps
    using from_utf8_lossy_as_bytes [OF assms(2)] by simp
qed

lemma ext_loop_skip:
  assumes "fst x \<noteq> 0" "length (snd x) < 65536" "length p + length (ext_bytes x) \<le> e"
  shows "ext_loop (p @ ext_bytes x @ q) e (length p) = ext_loop (p @ ext_bytes x @ q) e (length (p @ ext_bytes x))"
proof -
  let ?b = "p @ ext_bytes x @ q"
  have l: "unat (of_nat (length (snd x)) :: u16) = length (snd x)" using assms(2) by (simp add: unat_of_nat)
  have t: "u16_ix ?b (length p) = Inr (unat (fst x))"
    using u16_ix_at [of p "fst x"] by (simp add: ext_bytes_def)
  have n: "u16_ix ?b (length p + 2) = Inr (length (snd x))"
    using u16_ix_at [of "p @ be16 (fst x)" "of_nat (length (snd x))"] l by (simp add: ext_bytes_def)
  have "unat (fst x) \<noteq> 0" using assms(1) by (simp add: unat_eq_0)
  moreover have e: "length (p @ ext_bytes x) = length p + 4 + length (snd x)"
    by (simp add: ext_bytes_def)
  moreover have "length p + 4 \<le> e" "\<not> length p + 4 + length (snd x) > e"
    using assms(3) by (simp_all add: ext_bytes_def)
  ultimately show ?thesis
    unfolding ext_loop.simps [of ?b e "length p"] t n res_bind_simps e
    by (simp only: if_True if_False)
qed

lemma ext_loop_skips:
  "list_all (\<lambda>x. fst x \<noteq> 0 \<and> length (snd x) < 65536) xs \<Longrightarrow>
     length p + length (concat (map ext_bytes xs)) \<le> e \<Longrightarrow>
     ext_loop (p @ concat (map ext_bytes xs) @ q) e (length p)
       = ext_loop (p @ concat (map ext_bytes xs) @ q) e (length (p @ concat (map ext_bytes xs)))"
proof (induction xs arbitrary: p)
  case Nil
  then show ?case by simp
next
  case (Cons x xs)
  have "ext_loop (p @ ext_bytes x @ (concat (map ext_bytes xs) @ q)) e (length p)
      = ext_loop (p @ ext_bytes x @ (concat (map ext_bytes xs) @ q)) e (length (p @ ext_bytes x))"
    using Cons.prems by (intro ext_loop_skip) auto
  also have "\<dots> = ext_loop ((p @ ext_bytes x) @ concat (map ext_bytes xs) @ q) e
      (length ((p @ ext_bytes x) @ concat (map ext_bytes xs)))"
    using Cons.IH [of "p @ ext_bytes x"] Cons.prems by simp
  finally show ?case by simp
qed

lemma ext_loop_sni:
  assumes "length name + 9 < 65536" "valid_str name" "length p + length (ext_bytes (0, sni_data name)) \<le> e"
  shows "ext_loop (p @ ext_bytes (0, sni_data name) @ q) e (length p) = Inr (Some name)"
proof -
  let ?d = "sni_data name"
  let ?b = "p @ ext_bytes (0, ?d) @ q"
  have dl: "length ?d = length name + 5" by (simp add: sni_data_def)
  then have "length ?d < 65536" using assms(1) by simp
  then have l: "unat (of_nat (length ?d) :: u16) = length ?d" by (simp add: unat_of_nat)
  have t: "u16_ix ?b (length p) = Inr 0"
    using u16_ix_at [of p 0] by (simp add: ext_bytes_def)
  have n: "u16_ix ?b (length p + 2) = Inr (length ?d)"
    using u16_ix_at [of "p @ be16 0" "of_nat (length ?d)"] l by (simp add: ext_bytes_def)
  have s: "slice_ix ?b (length p + 4) (length p + 4 + length ?d) = Inr ?d"
    using slice_ix_at [of "p @ be16 0 @ be16 (of_nat (length ?d))" ?d q] by (simp add: ext_bytes_def)
  have u: "unat (of_nat (length name + 3) :: u16) = length name + 3"
    by (subst unat_of_nat) (use assms(1) in simp)
  have ll: "u16_ix ?d 0 = Inr (length name + 3)"
    using u16_ix_at [of "[]" "of_nat (length name + 3)"]
    unfolding sni_data_def u by (simp del: of_nat_add)
  have nl: "name_loop ?d (min (2 + (length name + 3)) (length ?d)) 2 = Inr (Some name)"
    using assms(1,2) by (intro name_loop_name) simp_all
  have le: "length p + 4 \<le> e" "\<not> length p + 4 + length ?d > e" "\<not> length ?d < 2"
    using assms(3) dl by (simp_all add: ext_bytes_def)
  show ?thesis
    unfolding ext_loop.simps [of ?b e "length p"] t n s ll nl res_bind_simps
      if_P [OF le(1)] if_not_P [OF le(2)] if_not_P [OF le(3)] by simp
qed

text \<open>The hello whose extensions are \<open>pre\<close>, the server name, then \<open>post\<close>.\<close>

definition hello_exts :: "(u16 \<times> bytes) list \<Rightarrow> string \<Rightarrow> (u16 \<times> bytes) list \<Rightarrow> (u16 \<times> bytes) list" where
  "hello_exts pre name post = pre @ [(0, sni_data name)] @ post"

definition hello_fits ::
  "bytes \<Rightarrow> bytes \<Rightarrow> bytes \<Rightarrow> bytes \<Rightarrow> (u16 \<times> bytes) list \<Rightarrow> string \<Rightarrow> (u16 \<times> bytes) list \<Rightarrow> bool" where
  "hello_fits rnd sid suites cmps pre name post \<longleftrightarrow>
     length rnd = 32 \<and> length sid < 256 \<and> length suites < 65536 \<and> length cmps < 256
     \<and> length (concat (map ext_bytes (hello_exts pre name post))) < 65536
     \<and> list_all (\<lambda>x. fst x \<noteq> 0) pre \<and> valid_str name"

lemma length_ext_bytes: "length (ext_bytes x) = length (snd x) + 4"
  by (simp add: ext_bytes_def)

lemma hello_sizes:
  assumes "hello_fits rnd sid suites cmps pre name post"
  shows "length name + 9 < 65536" "list_all (\<lambda>x. fst x \<noteq> 0 \<and> length (snd x) < 65536) pre"
proof -
  have l: "length (concat (map ext_bytes pre)) + length name + 9 < 65536"
    using assms by (simp add: hello_fits_def hello_exts_def length_ext_bytes sni_data_def)
  then show "length name + 9 < 65536" by simp
  have "length (snd x) \<le> length (concat (map ext_bytes pre))" if "x \<in> set pre" for x
  proof -
    have "length (ext_bytes x) \<le> sum_list (map length (map ext_bytes pre))"
      using that by (intro member_le_sum_list) auto
    then show ?thesis by (simp add: length_concat length_ext_bytes comp_def)
  qed
  then show "list_all (\<lambda>x. fst x \<noteq> 0 \<and> length (snd x) < 65536) pre"
    using l assms by (fastforce simp: hello_fits_def list_all_iff)
qed

lemma parse_sni_body:
  assumes "hello_fits rnd sid suites cmps pre name post" "length h = 4"
  shows "parse_sni (h @ [3, 3] @ rnd @ [of_nat (length sid)] @ sid @ be16 (of_nat (length suites)) @ suites
            @ [of_nat (length cmps)] @ cmps
            @ be16 (of_nat (length (concat (map ext_bytes (hello_exts pre name post)))))
            @ concat (map ext_bytes (hello_exts pre name post))) = Inr (Some name)"
    (is "parse_sni ?b = _")
proof -
  let ?E = "concat (map ext_bytes (hello_exts pre name post))"
  define p1 where "p1 = h @ [3, 3] @ rnd"
  define p2 where "p2 = p1 @ [of_nat (length sid)] @ sid"
  define p3 where "p3 = p2 @ be16 (of_nat (length suites)) @ suites"
  define p4 where "p4 = p3 @ [of_nat (length cmps)] @ cmps"
  define p5 where "p5 = p4 @ be16 (of_nat (length ?E))"
  note fits = assms(1) [unfolded hello_fits_def]
  have lens: "length p1 = 38" "length p2 = 38 + (1 + length sid)" "length p3 = length p2 + (2 + length suites)"
    "length p4 = length p3 + (1 + length cmps)" "length p5 = length p4 + 2"
    using assms(2) fits by (simp_all add: p1_def p2_def p3_def p4_def p5_def)
  have b1: "?b = p1 @ of_nat (length sid) # (sid @ be16 (of_nat (length suites)) @ suites
      @ [of_nat (length cmps)] @ cmps @ be16 (of_nat (length ?E)) @ ?E)" by (simp add: p1_def)
  have b2: "?b = p2 @ be16 (of_nat (length suites)) @ suites @ [of_nat (length cmps)] @ cmps
      @ be16 (of_nat (length ?E)) @ ?E" by (simp add: p2_def p1_def)
  have b3: "?b = p3 @ of_nat (length cmps) # (cmps @ be16 (of_nat (length ?E)) @ ?E)"
    by (simp add: p3_def p2_def p1_def)
  have b4: "?b = p4 @ be16 (of_nat (length ?E)) @ ?E" by (simp add: p4_def p3_def p2_def p1_def)
  have b5: "?b = p5 @ ?E" by (simp add: p5_def p4_def p3_def p2_def p1_def)
  have lb: "length ?b = length p5 + length ?E" unfolding b5 by simp
  define b where "b = ?b"
  have n: "need b 4 2 = Inr ()" "need b (4 + 2) 32 = Inr ()" "need b (4 + 2 + 32) 1 = Inr ()"
    "need b (4 + 2 + 32 + (1 + length sid)) 2 = Inr ()"
    "need b (4 + 2 + 32 + (1 + length sid) + (2 + length suites)) 1 = Inr ()"
    "\<not> 4 + 2 + 32 + (1 + length sid) + (2 + length suites) + (1 + length cmps) + 2 > length b"
    using lens lb unfolding b_def need_def by simp_all
  have i1: "byte_ix b (4 + 2 + 32) = Inr (length sid)"
    unfolding b_def b1 using byte_ix_at [of p1 "of_nat (length sid)"] lens(1) fits
    by (simp add: unat_of_nat)
  have i2: "u16_ix b (4 + 2 + 32 + (1 + length sid)) = Inr (length suites)"
    unfolding b_def b2 using u16_ix_at [of p2 "of_nat (length suites)"] lens(2) fits
    by (simp add: unat_of_nat)
  have i3: "byte_ix b (4 + 2 + 32 + (1 + length sid) + (2 + length suites)) = Inr (length cmps)"
    unfolding b_def b3 using byte_ix_at [of p3 "of_nat (length cmps)"] lens(2,3) fits
    by (simp add: unat_of_nat)
  have i4: "u16_ix b (4 + 2 + 32 + (1 + length sid) + (2 + length suites) + (1 + length cmps)) = Inr (length ?E)"
    unfolding b_def b4 using u16_ix_at [of p4 "of_nat (length ?E)"] lens(2,3,4) fits
    by (simp add: unat_of_nat)
  have i5: "4 + 2 + 32 + (1 + length sid) + (2 + length suites) + (1 + length cmps) + 2 = length p5"
    using lens by simp
  have e: "min (length p5 + length ?E) (length b) = length p5 + length ?E" using lb by (simp add: b_def)
  have E: "?E = concat (map ext_bytes pre) @ ext_bytes (0, sni_data name) @ concat (map ext_bytes post)"
    by (simp add: hello_exts_def)
  have "b = p5 @ ?E" unfolding b_def by (rule b5)
  then have bb: "b = p5 @ concat (map ext_bytes pre) @ ext_bytes (0, sni_data name) @ concat (map ext_bytes post)"
    by (simp only: E)
  have le: "length p5 + length (concat (map ext_bytes pre)) + length (ext_bytes (0, sni_data name))
      \<le> length p5 + length ?E" unfolding E by simp
  have "ext_loop b (length p5 + length ?E) (length p5)
      = ext_loop b (length p5 + length ?E) (length (p5 @ concat (map ext_bytes pre)))"
    unfolding bb by (rule ext_loop_skips [OF hello_sizes(2) [OF assms(1)]]) (use le in simp)
  also have "\<dots> = Inr (Some name)"
    unfolding bb
    using ext_loop_sni [OF hello_sizes(1) [OF assms(1)], of "p5 @ concat (map ext_bytes pre)"
        "length p5 + length ?E" "concat (map ext_bytes post)"] fits le
    by (simp only: append_assoc length_append simp_thms)
  finally have loop: "ext_loop b (length p5 + length ?E) (length p5) = Inr (Some name)" .
  have "\<not> length p5 > length b" using lb by (simp add: b_def)
  then have "parse_sni b = Inr (Some name)"
    unfolding parse_sni_def Let_def n(1-5) i1 i2 i3 i4 res_bind_simps i5 e loop by (rule if_not_P)
  then show ?thesis by (simp only: b_def)
qed

definition record_bytes :: "bytes \<Rightarrow> bytes" where
  "record_bytes b = [0x16, 3, 1] @ be16 (of_nat (length b)) @ b"

lemma hello_bytes_form:
  assumes "hello_fits rnd sid suites cmps pre name post"
  shows "parse_sni (hello_bytes rnd sid suites cmps (hello_exts pre name post)) = Inr (Some name)"
    and "\<exists>a b c body. hello_bytes rnd sid suites cmps (hello_exts pre name post) = [1, a, b, c] @ body
           \<and> unat a * 65536 + unat b * 256 + unat c = length body"
proof -
  let ?E = "concat (map ext_bytes (hello_exts pre name post))"
  let ?body = "[3, 3] @ rnd @ [of_nat (length sid)] @ sid @ be16 (of_nat (length suites)) @ suites
      @ [of_nat (length cmps)] @ cmps @ be16 (of_nat (length ?E)) @ ?E"
  let ?h = "[1, of_nat (length ?body div 65536), of_nat (length ?body div 256), of_nat (length ?body)] :: bytes"
  have h: "hello_bytes rnd sid suites cmps (hello_exts pre name post) = ?h @ ?body"
    by (simp add: hello_bytes_def Let_def)
  show "parse_sni (hello_bytes rnd sid suites cmps (hello_exts pre name post)) = Inr (Some name)"
    unfolding h by (rule parse_sni_body [OF assms]) simp
  define L where "L = length ?body"
  have L: "L < 16777216" using assms by (simp add: L_def hello_fits_def)
  have "L mod 65536 = (L div 256 mod 256) * 256 + L mod 256"
    using mod_mult2_eq [of L 256 256] by (simp add: mult.commute)
  then have "unat (of_nat (L div 65536) :: u8) * 65536 + unat (of_nat (L div 256) :: u8) * 256
      + unat (of_nat L :: u8) = L"
    using L div_mult_mod_eq [of L 65536] by (simp add: unat_of_nat)
  then show "\<exists>a b c body. hello_bytes rnd sid suites cmps (hello_exts pre name post) = [1, a, b, c] @ body
           \<and> unat a * 65536 + unat b * 256 + unat c = length body"
    unfolding h L_def by blast
qed

lemma handshake_need_prefix:
  assumes "h = [1, a, b, c] @ body" "unat a * 65536 + unat b * 256 + unat c = length body" "h = p @ q"
  shows "handshake_need p = Inr (if length p \<ge> 4 then Some (length h) else None)"
proof (cases "length p \<ge> 4")
  case True
  then have "p ! i = h ! i" if "i < 4" for i using assms(3) that by (simp add: nth_append)
  then have "p ! 0 = 1" "p ! 1 = a" "p ! 2 = b" "p ! 3 = c"
    using assms(1) by simp_all
  with True show ?thesis using assms(1,2) by (simp add: handshake_need_def)
qed (simp add: handshake_need_def)

lemma sniff_records_stream:
  assumes h: "h = [1, a, b, c] @ body" "unat a * 65536 + unat b * 256 + unat c = length body"
    and parse: "parse_sni h = Inr (Some name)"
  shows "payload @ concat bs = h \<Longrightarrow> bs \<noteq> [] \<Longrightarrow> length bs \<le> k \<Longrightarrow>
     list_all (\<lambda>r. r \<noteq> [] \<and> length r < 65536) bs \<Longrightarrow>
     length (raw @ concat (map record_bytes bs)) \<le> MAX_BYTES \<Longrightarrow> n \<in> {None, Some (length h)} \<Longrightarrow>
     sniff_records k raw payload n (concat (map record_bytes bs) @ rest)
       = Inr ((Some name, raw @ concat (map record_bytes bs)), rest)"
proof (induction bs arbitrary: k raw payload n)
  case (Cons r bs)
  obtain k' where k: "k = Suc k'" "length bs \<le> k'" using Cons.prems(3) by (cases k) auto
  let ?hd = "[0x16, 3, 1] @ be16 (of_nat (length r)) :: bytes"
  let ?rest = "concat (map record_bytes bs) @ rest"
  obtain x y where xy: "be16 (of_nat (length r)) = [x, y]" using be16_split by blast
  have "length r < 65536" using Cons.prems(4) by simp
  then have len: "unat (get16 [x, y]) = length r"
    using get_be(1) [of "of_nat (length r)"] xy by (simp add: unat_of_nat)
  have step: "sniff_records k raw payload n (concat (map record_bytes (r # bs)) @ rest)
      = after_record k' (raw @ ?hd @ r) (payload @ r) n ?rest"
    unfolding k(1)
  proof (rule sniff_records_step)
    show "concat (map record_bytes (r # bs)) @ rest = ?hd @ r @ ?rest" by (simp add: record_bytes_def [of r])
    show "length ?hd = 5" "?hd ! 0 = 0x16" by simp_all
    show "unat (get16 [?hd ! 3, ?hd ! 4]) = length r" unfolding xy using len by simp
    show "length raw + 5 + length r \<le> MAX_BYTES" using Cons.prems(5) by (simp add: record_bytes_def [of r])
  qed
  have pre: "h = (payload @ r) @ concat bs" using Cons.prems(1) by simp
  let ?need = "if length (payload @ r) \<ge> 4 then Some (length h) else None"
  let ?m = "case ?need of Some m \<Rightarrow> Some m | None \<Rightarrow> n"
  have need: "handshake_need (payload @ r) = Inr ?need"
    by (rule handshake_need_prefix [OF h pre])
  show ?case
  proof (cases "bs = []")
    case True
    then have whole: "payload @ r = h" using pre by simp
    have "4 \<le> length h" using h(1) by simp
    then show ?thesis
      unfolding step after_record_def need res_bind_simps using whole parse True
      by (simp add: record_bytes_def [of r])
  next
    case False
    have "concat bs \<noteq> []" using False Cons.prems(4) by (cases bs) auto
    then have lt: "length (payload @ r) < length h" using pre by simp
    have m: "?m \<in> {None, Some (length h)}" using Cons.prems(6) by auto
    have raw: "length ((raw @ ?hd @ r) @ concat (map record_bytes bs)) \<le> MAX_BYTES"
      using Cons.prems(5) by (simp add: record_bytes_def [of r])
    have "sniff_records k' (raw @ ?hd @ r) (payload @ r) ?m ?rest
        = Inr ((Some name, (raw @ ?hd @ r) @ concat (map record_bytes bs)), rest)"
      by (rule Cons.IH [OF pre [symmetric] False k(2) _ raw m]) (use Cons.prems(4) in simp)
    moreover have "after_record k' (raw @ ?hd @ r) (payload @ r) n ?rest
        = sniff_records k' (raw @ ?hd @ r) (payload @ r) ?m ?rest"
      using m lt unfolding after_record_def need res_bind_simps by (auto split: option.splits)
    ultimately show ?thesis unfolding step by (simp add: record_bytes_def [of r])
  qed
qed simp

section \<open>Properties\<close>

text \<open>The sniffer is safe on any input. It never reads out of bounds, whatever the peer sends;
  when it succeeds, the bytes it hands on are exactly the bytes it took from the stream, so
  the backend sees an unchanged handshake, and they are at most 32 KiB.\<close>

theorem sniff_client_hello_safe:
  "sniff_client_hello stream \<noteq> Inl Panicked
   \<and> (case sniff_client_hello stream of
        Inr ((name, raw), rest) \<Rightarrow> stream = raw @ rest \<and> length raw \<le> 32768
      | Inl e \<Rightarrow> True)"
  using sniff_records_safe sniff_records_raw [of MAX_RECORDS "[]" "[]" None stream]
  by (auto simp: sniff_client_hello_def MAX_BYTES_def split: sum.splits)

text \<open>C31: the name is found however the handshake is fragmented. A well-formed hello carries its
  server name among any other extensions; cut into one to four non-empty records that fit the
  limit, the sniffer returns that name and hands on exactly those records.\<close>

theorem sniff_finds_name:
  assumes "hello_fits rnd sid suites cmps pre name post"
    and "concat bs = hello_bytes rnd sid suites cmps (hello_exts pre name post)"
    and "list_all (\<lambda>r. r \<noteq> [] \<and> length r < 65536) bs" "length bs \<le> MAX_RECORDS"
    and "length (concat (map record_bytes bs)) \<le> MAX_BYTES"
  shows "sniff_client_hello (concat (map record_bytes bs) @ rest)
           = Inr ((Some name, concat (map record_bytes bs)), rest)"
proof -
  obtain a b c body where h: "hello_bytes rnd sid suites cmps (hello_exts pre name post) = [1, a, b, c] @ body"
    "unat a * 65536 + unat b * 256 + unat c = length body"
    using hello_bytes_form(2) [OF assms(1)] by blast
  have "bs \<noteq> []" using assms(2) h(1) by auto
  then show ?thesis
    unfolding sniff_client_hello_def
    using sniff_records_stream [OF h hello_bytes_form(1) [OF assms(1)], of "[]" bs MAX_RECORDS "[]" None rest]
      assms(2-5) by simp
qed

theorem sniff_finds_name_witness:
  "\<exists>b1 b2. sniff_client_hello (concat (map record_bytes [b1, b2]) @ [99])
     = Inr ((Some ''a.io'', concat (map record_bytes [b1, b2])), [99])"
proof -
  let ?h = "hello_bytes (replicate 32 7) [] [0, 1] [0] (hello_exts [(5, [1, 2])] ''a.io'' [(11, [])])"
  have fits: "hello_fits (replicate 32 7) [] [0, 1] [0] [(5, [1, 2])] ''a.io'' [(11, [])]"
    by (auto simp: hello_fits_def hello_exts_def length_ext_bytes sni_data_def is_ascii_def intro!: valid_str_ascii)
  have len: "length ?h = 70"
    by (simp add: hello_bytes_def Let_def hello_exts_def length_ext_bytes sni_data_def)
  have cut: "concat [take 3 ?h, drop 3 ?h] = ?h" by simp
  have sized: "r \<noteq> [] \<and> length r < 65536" if "length r = 3 \<or> length r = 67" for r :: bytes
    using that by auto
  have "length (take 3 ?h) = 3" "length (drop 3 ?h) = 67" unfolding length_take length_drop len by simp_all
  then have "take 3 ?h \<noteq> [] \<and> length (take 3 ?h) < 65536" "drop 3 ?h \<noteq> [] \<and> length (drop 3 ?h) < 65536"
    using sized [of "take 3 ?h"] sized [of "drop 3 ?h"] by blast+
  then have ne: "list_all (\<lambda>r. r \<noteq> [] \<and> length r < 65536) [take 3 ?h, drop 3 ?h]"
    by (simp only: list.pred_inject simp_thms)
  have two: "length [take 3 ?h, drop 3 ?h] \<le> MAX_RECORDS" by (simp add: MAX_RECORDS_def)
  have small: "length (concat (map record_bytes [take 3 ?h, drop 3 ?h])) \<le> MAX_BYTES"
    using len by (simp add: record_bytes_def MAX_BYTES_def)
  show ?thesis using sniff_finds_name [OF fits cut ne two small, of "[99]"] by blast
qed

end
