(* ===== verification/Quotas.thy ===== *)
theory Quotas
  imports NF_Prelude
begin

text \<open>
  Quotas (\<open>server/src/limits.rs\<close>): a limit of zero means none, any other limit is a counting
  semaphore. The semaphore is tokio's, so its operations are an argument: \<open>semaphore\<close> names
  them and \<open>sem_ok\<close> says what their documentation promises. Dropping a permit is an
  operation here; a permit of an unlimited quota does nothing when it is dropped.
\<close>

record 's semaphore =
  sem_new :: "nat \<Rightarrow> 's"
  sem_try_acquire :: "'s \<Rightarrow> 's option"
  sem_add_permit :: "'s \<Rightarrow> 's"
  sem_available :: "'s \<Rightarrow> nat"

definition sem_ok :: "'s semaphore \<Rightarrow> bool" where
  "sem_ok sm \<longleftrightarrow>
     (\<forall>n. sem_available sm (sem_new sm n) = n)
     \<and> (\<forall>s. sem_try_acquire sm s = None \<longleftrightarrow> sem_available sm s = 0)
     \<and> (\<forall>s s'. sem_try_acquire sm s = Some s' \<longrightarrow> Suc (sem_available sm s') = sem_available sm s)
     \<and> (\<forall>s. sem_available sm (sem_add_permit sm s) = Suc (sem_available sm s))"

text \<open>The semaphore as a bare counter meets it.\<close>

definition counter_sem :: "nat semaphore" where
  "counter_sem =
     \<lparr>sem_new = (\<lambda>n. n), sem_try_acquire = (\<lambda>s. if s = 0 then None else Some (s - 1)),
      sem_add_permit = Suc, sem_available = (\<lambda>s. s)\<rparr>"

lemma counter_sem_ok: "sem_ok counter_sem"
  by (auto simp: sem_ok_def counter_sem_def split: if_splits)

datatype permit = Unlimited | Counted

text \<open>\<open>usize::MAX\<close> on a 64-bit target.\<close>

definition USIZE_MAX :: nat where "USIZE_MAX = 2 ^ 64 - 1"

definition unbounded :: "nat \<Rightarrow> nat" where
  "unbounded m = (if m = 0 then USIZE_MAX else m)"

record 's limit =
  lim_inner :: "'s option"
  lim_max :: nat

definition limit_new :: "'s semaphore \<Rightarrow> nat \<Rightarrow> 's limit" where
  "limit_new sm m = \<lparr>lim_inner = (if m > 0 then Some (sem_new sm m) else None), lim_max = m\<rparr>"

definition limit_unlimited :: "'s semaphore \<Rightarrow> 's limit" where
  "limit_unlimited sm = limit_new sm 0"

definition limit_is_enabled :: "'s limit \<Rightarrow> bool" where
  "limit_is_enabled l \<longleftrightarrow> lim_inner l \<noteq> None"

definition limit_try_acquire :: "'s semaphore \<Rightarrow> 's limit \<Rightarrow> 's limit \<times> permit option" where
  "limit_try_acquire sm l =
     (case lim_inner l of
        None \<Rightarrow> (l, Some Unlimited)
      | Some s \<Rightarrow>
          (case sem_try_acquire sm s of
             None \<Rightarrow> (l, None)
           | Some s' \<Rightarrow> (l\<lparr>lim_inner := Some s'\<rparr>, Some Counted)))"

definition permit_drop :: "'s semaphore \<Rightarrow> permit \<Rightarrow> 's limit \<Rightarrow> 's limit" where
  "permit_drop sm p l =
     (case p of
        Unlimited \<Rightarrow> l
      | Counted \<Rightarrow> l\<lparr>lim_inner := map_option (sem_add_permit sm) (lim_inner l)\<rparr>)"

definition limit_available :: "'s semaphore \<Rightarrow> 's limit \<Rightarrow> nat" where
  "limit_available sm l = (case lim_inner l of Some s \<Rightarrow> sem_available sm s | None \<Rightarrow> USIZE_MAX)"

definition limit_used :: "'s semaphore \<Rightarrow> 's limit \<Rightarrow> nat" where
  "limit_used sm l = (case lim_inner l of Some s \<Rightarrow> lim_max l - sem_available sm s | None \<Rightarrow> 0)"

section \<open>The quota contract\<close>

text \<open>What users of a quota rely on: \<open>held q n\<close> says that \<open>n\<close> permits of a quota of size \<open>m\<close>
  (zero for none) are out.\<close>

locale quota =
  fixes held :: "'q \<Rightarrow> nat \<Rightarrow> nat \<Rightarrow> bool"
    and acquire :: "'q \<Rightarrow> 'q \<times> 'p option"
    and release :: "'p \<Rightarrow> 'q \<Rightarrow> 'q"
    and open_quota :: "nat \<Rightarrow> 'q"
  assumes opened: "held (open_quota m) m 0"
    and granted: "held q m n \<Longrightarrow> acquire q = (q', Some p) \<Longrightarrow> held q' m (Suc n)"
    and refused: "held q m n \<Longrightarrow> acquire q = (q', None) \<Longrightarrow> q' = q \<and> m > 0 \<and> n = m"
    and returned: "held q m (Suc n) \<Longrightarrow> acquire r = (r', Some p) \<Longrightarrow> held r m k \<Longrightarrow> held (release p q) m n"
    and bounded: "held q m n \<Longrightarrow> m > 0 \<Longrightarrow> n \<le> m"
begin

lemma never_over: "held q m n \<Longrightarrow> acquire q = (q', Some p) \<Longrightarrow> m > 0 \<Longrightarrow> n < m"
  using granted bounded by (metis Suc_le_eq)

lemma refused_iff: "held q m n \<Longrightarrow> snd (acquire q) = None \<longleftrightarrow> m > 0 \<and> n = m"
  using never_over [of q m n] refused [of q m n]
  by (cases "acquire q"; cases "snd (acquire q)") auto

end

definition limit_held :: "'s semaphore \<Rightarrow> 's limit \<Rightarrow> nat \<Rightarrow> nat \<Rightarrow> bool" where
  "limit_held sm l m n \<longleftrightarrow>
     lim_max l = m \<and>
     (case lim_inner l of None \<Rightarrow> m = 0 | Some s \<Rightarrow> m > 0 \<and> sem_available sm s + n = m)"

lemma limit_held_new: "sem_ok sm \<Longrightarrow> limit_held sm (limit_new sm m) m 0"
  by (auto simp: limit_held_def limit_new_def sem_ok_def)

lemma limit_held_acquire:
  "sem_ok sm \<Longrightarrow> limit_held sm l m n \<Longrightarrow> limit_try_acquire sm l = (l', Some p) \<Longrightarrow>
     limit_held sm l' m (Suc n) \<and> (p = Unlimited \<longleftrightarrow> m = 0)"
  by (cases "lim_inner l")
     (fastforce simp: limit_held_def limit_try_acquire_def sem_ok_def split: option.splits)+

lemma limit_held_refuse:
  "sem_ok sm \<Longrightarrow> limit_held sm l m n \<Longrightarrow> limit_try_acquire sm l = (l', None) \<Longrightarrow>
     l' = l \<and> m > 0 \<and> n = m"
  by (fastforce simp: limit_held_def limit_try_acquire_def sem_ok_def split: option.splits)

lemma limit_held_drop:
  "sem_ok sm \<Longrightarrow> limit_held sm l m (Suc n) \<Longrightarrow> (p = Unlimited \<longleftrightarrow> m = 0) \<Longrightarrow>
     limit_held sm (permit_drop sm p l) m n"
  by (cases p) (auto simp: limit_held_def permit_drop_def sem_ok_def split: option.splits)

lemma limit_held_le: "limit_held sm l m n \<Longrightarrow> m > 0 \<Longrightarrow> n \<le> m"
  by (auto simp: limit_held_def split: option.splits)

lemma limit_quota:
  assumes "sem_ok sm"
  shows "quota (limit_held sm) (limit_try_acquire sm) (permit_drop sm) (limit_new sm)"
proof
  fix q q' r r' :: "'a limit" and m n k p
  show "limit_held sm (limit_new sm m) m 0" using assms by (rule limit_held_new)
  show "limit_held sm q m n \<Longrightarrow> limit_try_acquire sm q = (q', Some p) \<Longrightarrow> limit_held sm q' m (Suc n)"
    using limit_held_acquire [OF assms] by blast
  show "limit_held sm q m n \<Longrightarrow> limit_try_acquire sm q = (q', None) \<Longrightarrow> q' = q \<and> m > 0 \<and> n = m"
    by (rule limit_held_refuse [OF assms])
  show "limit_held sm q m (Suc n) \<Longrightarrow> limit_try_acquire sm r = (r', Some p) \<Longrightarrow> limit_held sm r m k \<Longrightarrow>
      limit_held sm (permit_drop sm p q) m n"
    using limit_held_drop [OF assms] limit_held_acquire [OF assms] by blast
  show "limit_held sm q m n \<Longrightarrow> m > 0 \<Longrightarrow> n \<le> m" by (rule limit_held_le)
qed

locale counted =
  fixes sm :: "'s semaphore"
  assumes sem: "sem_ok sm"

sublocale counted \<subseteq> quota "limit_held sm" "limit_try_acquire sm" "permit_drop sm" "limit_new sm"
  by (rule limit_quota [OF sem])

interpretation counter: counted counter_sem
  by unfold_locales (rule counter_sem_ok)

section \<open>Runs\<close>

text \<open>Requests for a permit, and drops of the \<open>i\<close>-th permit still out.\<close>

datatype quota_op = Take | Give nat

fun quota_step :: "'s semaphore \<Rightarrow> 's limit \<times> permit list \<Rightarrow> quota_op \<Rightarrow> 's limit \<times> permit list" where
  "quota_step sm (l, ps) Take =
     (case limit_try_acquire sm l of (l', Some p) \<Rightarrow> (l', p # ps) | (l', None) \<Rightarrow> (l', ps))"
| "quota_step sm (l, ps) (Give i) =
     (if i < length ps then (permit_drop sm (ps ! i) l, take i ps @ drop (Suc i) ps) else (l, ps))"

definition quota_run :: "'s semaphore \<Rightarrow> nat \<Rightarrow> quota_op list \<Rightarrow> 's limit \<times> permit list" where
  "quota_run sm m ops = foldl (quota_step sm) (limit_new sm m, []) ops"

definition quota_inv :: "'s semaphore \<Rightarrow> nat \<Rightarrow> 's limit \<times> permit list \<Rightarrow> bool" where
  "quota_inv sm m st \<longleftrightarrow>
     limit_held sm (fst st) m (length (snd st)) \<and> (\<forall>p\<in>set (snd st). p = Unlimited \<longleftrightarrow> m = 0)"

lemma quota_inv_step:
  assumes "sem_ok sm" "quota_inv sm m st"
  shows "quota_inv sm m (quota_step sm st op)"
proof -
  obtain l ps where st: "st = (l, ps)" by (cases st)
  have h: "limit_held sm l m (length ps)" "\<forall>p\<in>set ps. p = Unlimited \<longleftrightarrow> m = 0"
    using assms(2) by (simp_all add: st quota_inv_def)
  show ?thesis
  proof (cases op)
    case Take
    obtain l' r where r: "limit_try_acquire sm l = (l', r)" by (cases "limit_try_acquire sm l")
    show ?thesis
    proof (cases r)
      case None
      then have "l' = l" using limit_held_refuse [OF assms(1) h(1)] r by simp
      then show ?thesis using r None h by (simp add: st Take quota_inv_def)
    next
      case (Some p)
      then show ?thesis
        using r h limit_held_acquire [OF assms(1) h(1), of l' p] by (simp add: st Take quota_inv_def)
    qed
  next
    case (Give i)
    show ?thesis
    proof (cases "i < length ps")
      case True
      then have "length ps = Suc (length (take i ps @ drop (Suc i) ps))" by simp
      then have "limit_held sm (permit_drop sm (ps ! i) l) m (length (take i ps @ drop (Suc i) ps))"
        using limit_held_drop [OF assms(1)] h True by (metis nth_mem)
      moreover have "set (take i ps @ drop (Suc i) ps) \<subseteq> set ps"
        by (auto dest: in_set_takeD in_set_dropD)
      ultimately show ?thesis using True h(2) by (auto simp: st Give quota_inv_def)
    qed (use h in \<open>simp add: st Give quota_inv_def\<close>)
  qed
qed

lemma quota_inv_run:
  assumes "sem_ok sm"
  shows "quota_inv sm m (quota_run sm m ops)"
proof -
  have "quota_inv sm m st \<Longrightarrow> quota_inv sm m (foldl (quota_step sm) st ops)" for st
    by (induction ops arbitrary: st) (use quota_inv_step [OF assms] in auto)
  moreover have "quota_inv sm m (limit_new sm m, [])"
    using limit_held_new [OF assms] by (simp add: quota_inv_def)
  ultimately show ?thesis by (simp add: quota_run_def)
qed

section \<open>Properties\<close>

text \<open>A quota of the server is exact. After any sequence of requests and drops, a
  limited quota has exactly the permits in use that were granted and not yet dropped, never
  more than its limit, and the rest are available; it refuses a request exactly when all are
  out. A limit of zero never refuses and counts nothing.\<close>

theorem quota_exact:
  assumes "sem_ok sm" and "quota_run sm m ops = (l, ps)"
  shows "(if m = 0
          then limit_used sm l = 0 \<and> limit_available sm l = USIZE_MAX \<and> snd (limit_try_acquire sm l) = Some Unlimited
          else limit_used sm l = length ps \<and> limit_available sm l + length ps = m
               \<and> (snd (limit_try_acquire sm l) = None \<longleftrightarrow> length ps = m))
         \<and> limit_is_enabled l = (m > 0)"
proof -
  have h: "limit_held sm l m (length ps)"
    using quota_inv_run [OF assms(1), of m ops] by (simp add: assms(2) quota_inv_def)
  have "snd (limit_try_acquire sm l) = None \<longleftrightarrow> m > 0 \<and> length ps = m"
    by (rule quota.refused_iff [OF limit_quota [OF assms(1)] h])
  then show ?thesis
    using h by (auto simp: limit_held_def limit_used_def limit_available_def limit_is_enabled_def
        limit_try_acquire_def split: option.splits)
qed

theorem quota_exact_witness:
  "\<exists>l. quota_run counter_sem 2 [Take, Take, Take, Give 1] = (l, [Counted])
     \<and> limit_used counter_sem l = 1 \<and> snd (limit_try_acquire counter_sem l) \<noteq> None"
proof -
  have r: "quota_run counter_sem 2 [Take, Take, Take, Give 1] = (\<lparr>lim_inner = Some 1, lim_max = 2\<rparr>, [Counted])"
    by (simp add: quota_run_def limit_new_def limit_try_acquire_def permit_drop_def counter_sem_def
        numeral_2_eq_2)
  show ?thesis using quota_exact [OF counter_sem_ok r] r by simp
qed

end
