(* ===== verification/Client_Ref.thy ===== *)
theory Client_Ref
  imports Main
begin

text \<open>
  A client of the server (\<open>Arc<ClientState>\<close> in \<open>server/src/pool.rs\<close>) as the tables of
  \<open>registry.rs\<close>, \<open>vhost.rs\<close> and \<open>visitor.rs\<close> refer to it. It is shared by reference, so it is
  named by its address; its run id may be rebound, so the current run ids are a function that the
  operations read.
\<close>

record client_ref =
  cr_ptr :: nat
  cr_user :: string

type_synonym run_ids = "nat \<Rightarrow> string"

definition same_client :: "run_ids \<Rightarrow> client_ref \<Rightarrow> client_ref \<Rightarrow> bool" where
  "same_client rid a b \<longleftrightarrow> cr_ptr a = cr_ptr b \<or> rid (cr_ptr a) = rid (cr_ptr b)"

end
