(* ===== verification/Ports.thy ===== *)
theory Ports
  imports Client_Ref Const_Time Rust_Std "HOL-Library.Multiset"
begin

text \<open>
  The public ports of the server and the groups of proxies behind them
  (\<open>server/src/registry.rs\<close>: \<open>PortGroup\<close>, \<open>Backend\<close>, \<open>LoadGuard\<close>, \<open>LbPolicy\<close> and the port methods
  of \<open>Registry\<close>). The load
  counter of a backend is shared with the guards that hold it, so the counters live in a store
  under a number of their own. A \<open>usize\<close> that wraps (the cursor, the counters) is a 64-bit word.
\<close>

datatype lb_policy = RoundRobin | LeastConn

definition lb_policy_from_u8 :: "u8 \<Rightarrow> lb_policy" where
  "lb_policy_from_u8 v = (if v = 1 then LeastConn else RoundRobin)"

fun lb_policy_as_u8 :: "lb_policy \<Rightarrow> u8" where
  "lb_policy_as_u8 RoundRobin = 0"
| "lb_policy_as_u8 LeastConn = 1"

definition lb_policy_parse :: "string \<Rightarrow> lb_policy" where
  "lb_policy_parse s =
     (let norm = filter (\<lambda>c. c \<noteq> CHR ''-'' \<and> c \<noteq> CHR ''_'') (to_ascii_lowercase (trim s)) in
      if norm = [] \<or> norm = ''roundrobin'' \<or> norm = ''rr'' then RoundRobin
      else if norm = ''leastconn'' \<or> norm = ''lc'' then LeastConn
      else RoundRobin)"

fun lb_policy_as_str :: "lb_policy \<Rightarrow> string" where
  "lb_policy_as_str RoundRobin = ''roundrobin''"
| "lb_policy_as_str LeastConn = ''leastconn''"

record backend =
  be_client :: client_ref
  be_proxy :: string
  be_load :: nat

record port_group =
  pg_name :: string
  pg_key :: string
  pg_owner :: string
  pg_members :: "backend list"
  pg_cursor :: u64
  pg_handle :: "nat option"

text \<open>The port part of the registry: the groups, the load counters and how many have been
  made, the policy byte.\<close>

record ports =
  po_groups :: "(u16, port_group) fmap"
  po_loads :: "nat \<Rightarrow> u64"
  po_next :: nat
  po_policy :: u8

definition ports_empty :: ports where
  "ports_empty = \<lparr>po_groups = fmempty, po_loads = (\<lambda>_. 0), po_next = 0, po_policy = lb_policy_as_u8 RoundRobin\<rparr>"

text \<open>A new backend with a counter of its own at zero.\<close>

definition new_backend :: "client_ref \<Rightarrow> string \<Rightarrow> ports \<Rightarrow> backend \<times> ports" where
  "new_backend client proxy_name st =
     (\<lparr>be_client = client, be_proxy = proxy_name, be_load = po_next st\<rparr>,
      st\<lparr>po_loads := (po_loads st)(po_next st := 0), po_next := po_next st + 1\<rparr>)"

definition pg_new :: "string \<Rightarrow> string \<Rightarrow> backend \<Rightarrow> port_group" where
  "pg_new name key b =
     \<lparr>pg_name = name, pg_key = key, pg_owner = cr_user (be_client b), pg_members = [b],
      pg_cursor = 0, pg_handle = None\<rparr>"

definition pg_remove :: "run_ids \<Rightarrow> client_ref \<Rightarrow> string \<Rightarrow> port_group \<Rightarrow> port_group" where
  "pg_remove rid client proxy_name pg =
     pg\<lparr>pg_members := filter (\<lambda>b. \<not> (same_client rid (be_client b) client \<and> be_proxy b = proxy_name))
                        (pg_members pg)\<rparr>"

definition pg_push :: "run_ids \<Rightarrow> backend \<Rightarrow> port_group \<Rightarrow> port_group" where
  "pg_push rid b pg =
     (let pg' = pg_remove rid (be_client b) (be_proxy b) pg
      in pg'\<lparr>pg_members := pg_members pg' @ [b]\<rparr>)"

definition pg_remove_all_of :: "run_ids \<Rightarrow> client_ref \<Rightarrow> port_group \<Rightarrow> port_group" where
  "pg_remove_all_of rid client pg =
     pg\<lparr>pg_members := filter (\<lambda>b. \<not> same_client rid (be_client b) client) (pg_members pg)\<rparr>"

definition pg_is_empty :: "port_group \<Rightarrow> bool" where "pg_is_empty pg \<longleftrightarrow> pg_members pg = []"
definition pg_len :: "port_group \<Rightarrow> nat" where "pg_len pg = length (pg_members pg)"

text \<open>\<open>pick\<close> moves the cursor and reads the counters.\<close>

fun least_from :: "(nat \<Rightarrow> u64) \<Rightarrow> backend list \<Rightarrow> nat \<Rightarrow> nat list \<Rightarrow> nat \<times> u64 \<Rightarrow> nat" where
  "least_from loads ms start [] (best, best_load) = best"
| "least_from loads ms start (k # ks) (best, best_load) =
     (let i = (start + k) mod length ms; l = loads (be_load (ms ! i)) in
      if l < best_load then least_from loads ms start ks (i, l)
      else least_from loads ms start ks (best, best_load))"

definition pg_pick ::
  "(nat \<Rightarrow> u64) \<Rightarrow> lb_policy \<Rightarrow> port_group \<Rightarrow> port_group \<times> backend option" where
  "pg_pick loads policy pg =
     (let n = length (pg_members pg) in
      if n = 0 then (pg, None)
      else
        let start = unat (pg_cursor pg) mod n; pg' = pg\<lparr>pg_cursor := pg_cursor pg + 1\<rparr> in
        if policy = RoundRobin then (pg', Some (pg_members pg ! start))
        else (pg', Some (pg_members pg !
                least_from loads (pg_members pg) start [1..<n]
                  (start, loads (be_load (pg_members pg ! start))))))"

section \<open>The port methods of the registry\<close>

datatype port_claim = Fresh | Joined

datatype port_refusal = HeldExclusively | NoGroup | OtherTenant | OtherGroup | BadGroupKey

text \<open>The refusal is logged with its reason; the client is told only that the port is taken.\<close>

definition reserve_port ::
  "run_ids \<Rightarrow> ports \<Rightarrow> u16 \<Rightarrow> string \<Rightarrow> string \<Rightarrow> string \<Rightarrow> client_ref
     \<Rightarrow> ports \<times> (port_refusal + port_claim)" where
  "reserve_port rid st port grp group_key proxy_name client =
     (case fmlookup (po_groups st) port of
        None \<Rightarrow>
          (let (b, st1) = new_backend client proxy_name st
           in (st1\<lparr>po_groups := fmupd port (pg_new grp group_key b) (po_groups st1)\<rparr>, Inr Fresh))
      | Some pg \<Rightarrow>
          if pg_name pg = [] then (st, Inl HeldExclusively)
          else if grp = [] then (st, Inl NoGroup)
          else if pg_owner pg \<noteq> cr_user client then (st, Inl OtherTenant)
          else if pg_name pg \<noteq> grp then (st, Inl OtherGroup)
          else if \<not> constant_time_eq (pg_key pg) group_key then (st, Inl BadGroupKey)
          else
            let (b, st1) = new_backend client proxy_name st
            in (st1\<lparr>po_groups := fmupd port (pg_push rid b pg) (po_groups st1)\<rparr>, Inr Joined))"

definition attach_listener :: "ports \<Rightarrow> u16 \<Rightarrow> nat \<Rightarrow> ports" where
  "attach_listener st port handle =
     (case fmlookup (po_groups st) port of
        None \<Rightarrow> st
      | Some pg \<Rightarrow> st\<lparr>po_groups := fmupd port (pg\<lparr>pg_handle := Some handle\<rparr>) (po_groups st)\<rparr>)"

text \<open>The releases give the listeners they abort.\<close>

definition abort_listener :: "port_group \<Rightarrow> nat list" where
  "abort_listener pg = (case pg_handle pg of None \<Rightarrow> [] | Some h \<Rightarrow> [h])"

definition release_port :: "run_ids \<Rightarrow> ports \<Rightarrow> u16 \<Rightarrow> client_ref \<Rightarrow> string \<Rightarrow> ports \<times> nat list" where
  "release_port rid st port client proxy_name =
     (case fmlookup (po_groups st) port of
        None \<Rightarrow> (st, [])
      | Some pg \<Rightarrow>
          let pg' = pg_remove rid client proxy_name pg in
          if pg_is_empty pg' then (st\<lparr>po_groups := fmdrop port (po_groups st)\<rparr>, abort_listener pg')
          else (st\<lparr>po_groups := fmupd port pg' (po_groups st)\<rparr>, []))"

definition release_ports_of :: "run_ids \<Rightarrow> ports \<Rightarrow> client_ref \<Rightarrow> ports \<times> nat set" where
  "release_ports_of rid st client =
     (let groups = fmmap (pg_remove_all_of rid client) (po_groups st)
      in (st\<lparr>po_groups := fm_retain (\<lambda>_ pg. \<not> pg_is_empty pg) groups\<rparr>,
          \<Union>pg \<in> fset (ffilter pg_is_empty (fmran groups)). set (abort_listener pg)))"

definition ports_lb_policy :: "ports \<Rightarrow> lb_policy" where
  "ports_lb_policy st = lb_policy_from_u8 (po_policy st)"

definition set_lb_policy :: "ports \<Rightarrow> lb_policy \<Rightarrow> ports" where
  "set_lb_policy st p = st\<lparr>po_policy := lb_policy_as_u8 p\<rparr>"

definition ports_pick :: "ports \<Rightarrow> u16 \<Rightarrow> ports \<times> backend option" where
  "ports_pick st port =
     (case fmlookup (po_groups st) port of
        None \<Rightarrow> (st, None)
      | Some pg \<Rightarrow>
          (case pg_pick (po_loads st) (ports_lb_policy st) pg of
             (pg', r) \<Rightarrow> (st\<lparr>po_groups := fmupd port pg' (po_groups st)\<rparr>, r)))"

definition backend_inflight :: "ports \<Rightarrow> backend \<Rightarrow> u64" where
  "backend_inflight st b = po_loads st (be_load b)"

definition backend_hold :: "ports \<Rightarrow> backend \<Rightarrow> ports" where
  "backend_hold st b = st\<lparr>po_loads := (po_loads st)(be_load b := po_loads st (be_load b) + 1)\<rparr>"

definition guard_drop :: "ports \<Rightarrow> nat \<Rightarrow> ports" where
  "guard_drop st g =
     st\<lparr>po_loads := (po_loads st)(g := (if po_loads st g = 0 then 0 else po_loads st g - 1))\<rparr>"

text \<open>The guard of a held backend is the number of its counter.\<close>

definition pick_and_hold :: "ports \<Rightarrow> u16 \<Rightarrow> ports \<times> (backend \<times> nat) option" where
  "pick_and_hold st port =
     (case ports_pick st port of
        (st1, None) \<Rightarrow> (st1, None)
      | (st1, Some b) \<Rightarrow> (backend_hold st1 b, Some (b, be_load b)))"

definition backend_loads :: "ports \<Rightarrow> u16 \<Rightarrow> (string \<times> u64) list" where
  "backend_loads st port =
     (case fmlookup (po_groups st) port of
        None \<Rightarrow> []
      | Some pg \<Rightarrow> map (\<lambda>b. (be_proxy b, backend_inflight st b)) (pg_members pg))"

definition backend_count :: "ports \<Rightarrow> u16 \<Rightarrow> nat" where
  "backend_count st port =
     (case fmlookup (po_groups st) port of None \<Rightarrow> 0 | Some pg \<Rightarrow> pg_len pg)"

definition reserved_ports :: "ports \<Rightarrow> u16 list" where
  "reserved_ports st = sorted_list_of_fset (fmdom (po_groups st))"

section \<open>Lemmas: picking\<close>

lemma pg_pick_members [simp]:
  "pg_members (fst (pg_pick loads policy pg)) = pg_members pg"
  "pg_name (fst (pg_pick loads policy pg)) = pg_name pg"
  "pg_key (fst (pg_pick loads policy pg)) = pg_key pg"
  "pg_owner (fst (pg_pick loads policy pg)) = pg_owner pg"
  by (simp_all add: pg_pick_def Let_def)

text \<open>The load met at the \<open>i\<close>-th place of the round that starts at \<open>start\<close>.\<close>

definition round_load :: "(nat \<Rightarrow> u64) \<Rightarrow> backend list \<Rightarrow> nat \<Rightarrow> nat \<Rightarrow> u64" where
  "round_load loads ms start i = loads (be_load (ms ! ((start + i) mod length ms)))"

lemma least_from_first:
  assumes "b < j" "j \<le> length ms" "\<forall>i<j. round_load loads ms start b \<le> round_load loads ms start i"
    "\<forall>i<b. round_load loads ms start b < round_load loads ms start i"
  shows "\<exists>r<length ms. least_from loads ms start [j..<length ms]
             ((start + b) mod length ms, round_load loads ms start b) = (start + r) mod length ms
           \<and> (\<forall>i<length ms. round_load loads ms start r \<le> round_load loads ms start i)
           \<and> (\<forall>i<r. round_load loads ms start r < round_load loads ms start i)"
  using assms
proof (induction "length ms - j" arbitrary: j b)
  case 0
  then show ?case by auto
next
  case (Suc d)
  then have j: "j < length ms" by simp
  show ?case
  proof (cases "round_load loads ms start j < round_load loads ms start b")
    case True
    have le: "\<forall>i<Suc j. round_load loads ms start j \<le> round_load loads ms start i"
      using True Suc.prems(3) by (metis less_Suc_eq less_le_trans order.order_iff_strict)
    have lt: "\<forall>i<j. round_load loads ms start j < round_load loads ms start i"
      using True Suc.prems(3) by (meson less_le_trans)
    have "length ms - Suc j = d" using Suc.hyps(2) by simp
    from Suc.hyps(1) [OF this [symmetric] _ _ le lt] j True show ?thesis
      by (simp add: upt_conv_Cons round_load_def Let_def)
  next
    case False
    have le: "\<forall>i<Suc j. round_load loads ms start b \<le> round_load loads ms start i"
      using False Suc.prems(3) by (metis less_Suc_eq not_less)
    have "length ms - Suc j = d" using Suc.hyps(2) by simp
    from Suc.hyps(1) [OF this [symmetric] _ _ le Suc.prems(4)] j False Suc.prems(1) show ?thesis
      by (simp add: upt_conv_Cons round_load_def Let_def)
  qed
qed

lemma pg_pick_least:
  assumes "pg_members pg \<noteq> []" "pg_pick loads LeastConn pg = (pg', r)"
  shows "\<exists>k<length (pg_members pg).
      r = Some (pg_members pg ! ((unat (pg_cursor pg) + k) mod length (pg_members pg)))
      \<and> (\<forall>i<length (pg_members pg). round_load loads (pg_members pg) (unat (pg_cursor pg)) k
                                     \<le> round_load loads (pg_members pg) (unat (pg_cursor pg)) i)
      \<and> (\<forall>i<k. round_load loads (pg_members pg) (unat (pg_cursor pg)) k
               < round_load loads (pg_members pg) (unat (pg_cursor pg)) i)"
proof -
  let ?ms = "pg_members pg" and ?s = "unat (pg_cursor pg) mod length (pg_members pg)"
  have f: "round_load loads ?ms ?s i = round_load loads ?ms (unat (pg_cursor pg)) i" for i
    by (simp add: round_load_def mod_add_left_eq)
  have one: "1 \<le> length ?ms" using assms(1) by (simp add: Suc_le_eq)
  obtain k where k: "k < length ?ms"
    "least_from loads ?ms ?s [1..<length ?ms] ((?s + 0) mod length ?ms, round_load loads ?ms ?s 0)
       = (?s + k) mod length ?ms"
    "\<forall>i<length ?ms. round_load loads ?ms ?s k \<le> round_load loads ?ms ?s i"
    "\<forall>i<k. round_load loads ?ms ?s k < round_load loads ?ms ?s i"
    using least_from_first [of 0 1 ?ms loads ?s] one by auto
  have "r = Some (?ms ! ((?s + k) mod length ?ms))"
    using assms k(2) one by (auto simp: pg_pick_def Let_def round_load_def)
  then show ?thesis using k(1,3,4) unfolding f by (auto simp: mod_add_left_eq)
qed

fun ports_picks :: "ports \<Rightarrow> u16 \<Rightarrow> nat \<Rightarrow> backend option list" where
  "ports_picks st port 0 = []"
| "ports_picks st port (Suc k) =
     (case ports_pick st port of (st', r) \<Rightarrow> r # ports_picks st' port k)"

lemma ports_pick_rr:
  assumes "fmlookup (po_groups st) port = Some pg" "ports_lb_policy st = RoundRobin" "pg_members pg \<noteq> []"
  shows "ports_pick st port =
    (st\<lparr>po_groups := fmupd port (pg\<lparr>pg_cursor := pg_cursor pg + 1\<rparr>) (po_groups st)\<rparr>,
     Some (pg_members pg ! (unat (pg_cursor pg) mod length (pg_members pg))))"
  using assms by (simp add: ports_pick_def pg_pick_def Let_def)

lemma ports_picks_rr:
  assumes "fmlookup (po_groups st) port = Some pg" "ports_lb_policy st = RoundRobin" "pg_members pg \<noteq> []"
    "unat (pg_cursor pg) + k \<le> 2 ^ 64"
  shows "ports_picks st port k
    = map (\<lambda>i. Some (pg_members pg ! ((unat (pg_cursor pg) + i) mod length (pg_members pg)))) [0..<k]"
  using assms
proof (induction k arbitrary: st pg)
  case (Suc k)
  let ?pg = "pg\<lparr>pg_cursor := pg_cursor pg + 1\<rparr>"
  let ?st = "st\<lparr>po_groups := fmupd port ?pg (po_groups st)\<rparr>"
  have tail: "ports_picks ?st port k
      = map (\<lambda>i. Some (pg_members pg ! ((unat (pg_cursor pg) + Suc i) mod length (pg_members pg)))) [0..<k]"
  proof (cases "k = 0")
    case False
    have "unat (pg_cursor pg) + 1 < 2 ^ LENGTH(64)" using Suc.prems(4) False by simp
    then have u: "unat (pg_cursor pg + 1) = unat (pg_cursor pg) + 1"
      by (simp add: unat_word_ariths)
    have "ports_lb_policy ?st = RoundRobin" using Suc.prems(2) by (simp add: ports_lb_policy_def)
    then show ?thesis using Suc.IH [of ?st ?pg] Suc.prems u by simp
  qed simp
  then show ?case
    unfolding ports_picks.simps ports_pick_rr [OF Suc.prems(1-3)] prod.case
    by (simp add: upt_conv_Cons map_Suc_upt [symmetric] comp_def del: upt_Suc)
qed simp

section \<open>Runs\<close>

text \<open>The operations of the server on its ports in the order they happen, the guards of the
  connections in progress, and the run ids as they are rebound.\<close>

datatype port_op =
    Reserve u16 string string string client_ref
  | Release u16 client_ref string
  | ReleaseAll client_ref
  | Attach u16 nat
  | HoldOne u16
  | DropGuard nat
  | SetPolicy lb_policy
  | Rebind nat string

record port_world =
  pw_ports :: ports
  pw_guards :: "nat list"
  pw_rid :: run_ids

fun port_step :: "port_world \<Rightarrow> port_op \<Rightarrow> port_world" where
  "port_step w (Reserve p g k name c) =
     w\<lparr>pw_ports := fst (reserve_port (pw_rid w) (pw_ports w) p g k name c)\<rparr>"
| "port_step w (Release p c name) = w\<lparr>pw_ports := fst (release_port (pw_rid w) (pw_ports w) p c name)\<rparr>"
| "port_step w (ReleaseAll c) = w\<lparr>pw_ports := fst (release_ports_of (pw_rid w) (pw_ports w) c)\<rparr>"
| "port_step w (Attach p h) = w\<lparr>pw_ports := attach_listener (pw_ports w) p h\<rparr>"
| "port_step w (HoldOne p) =
     (case pick_and_hold (pw_ports w) p of
        (st, None) \<Rightarrow> w\<lparr>pw_ports := st\<rparr>
      | (st, Some (b, g)) \<Rightarrow> w\<lparr>pw_ports := st, pw_guards := g # pw_guards w\<rparr>)"
| "port_step w (DropGuard g) =
     (if g \<in> set (pw_guards w)
      then w\<lparr>pw_ports := guard_drop (pw_ports w) g, pw_guards := remove1 g (pw_guards w)\<rparr> else w)"
| "port_step w (SetPolicy p) = w\<lparr>pw_ports := set_lb_policy (pw_ports w) p\<rparr>"
| "port_step w (Rebind i r) = w\<lparr>pw_rid := (pw_rid w)(i := r)\<rparr>"

definition port_run :: "run_ids \<Rightarrow> port_op list \<Rightarrow> port_world" where
  "port_run rid ops = foldl port_step \<lparr>pw_ports = ports_empty, pw_guards = [], pw_rid = rid\<rparr> ops"

section \<open>Lemmas: the invariant\<close>

definition group_ok :: "nat \<Rightarrow> port_group \<Rightarrow> bool" where
  "group_ok n pg \<longleftrightarrow>
     pg_members pg \<noteq> []
     \<and> (\<forall>b\<in>set (pg_members pg). cr_user (be_client b) = pg_owner pg \<and> be_load b < n)
     \<and> distinct (map be_load (pg_members pg))
     \<and> (pg_name pg = [] \<longrightarrow> length (pg_members pg) = 1)"

definition loads_of :: "(u16, port_group) fmap \<Rightarrow> u16 \<Rightarrow> nat set" where
  "loads_of G p = (case fmlookup G p of None \<Rightarrow> {} | Some pg \<Rightarrow> be_load ` set (pg_members pg))"

definition groups_ok :: "(u16, port_group) fmap \<Rightarrow> nat \<Rightarrow> bool" where
  "groups_ok G n \<longleftrightarrow>
     (\<forall>p pg. fmlookup G p = Some pg \<longrightarrow> group_ok n pg)
     \<and> (\<forall>p q. p \<noteq> q \<longrightarrow> loads_of G p \<inter> loads_of G q = {})"

definition loads_ok :: "ports \<Rightarrow> nat list \<Rightarrow> bool" where
  "loads_ok st gs \<longleftrightarrow>
     (\<forall>i. po_loads st i = of_nat (count_list gs i)) \<and> (\<forall>g\<in>set gs. g < po_next st)"

lemma group_ok_mono: "group_ok n pg \<Longrightarrow> n \<le> m \<Longrightarrow> group_ok m pg"
  by (fastforce simp: group_ok_def)

lemma loads_of_lt: "groups_ok G n \<Longrightarrow> i \<in> loads_of G p \<Longrightarrow> i < n"
  by (fastforce simp: loads_of_def groups_ok_def group_ok_def split: option.splits)

lemma loads_of_upd: "loads_of (fmupd p pg G) q = (if q = p then be_load ` set (pg_members pg) else loads_of G q)"
  by (simp add: loads_of_def)

lemma groups_ok_upd:
  assumes "groups_ok G n" "n \<le> m" "group_ok m pg" "be_load ` set (pg_members pg) \<subseteq> loads_of G p \<union> {n..<m}"
  shows "groups_ok (fmupd p pg G) m"
proof -
  have "loads_of (fmupd p pg G) q \<inter> loads_of (fmupd p pg G) r = {}" if "q \<noteq> r" for q r
  proof -
    have "be_load ` set (pg_members pg) \<inter> loads_of G s = {}" if "s \<noteq> p" for s
      using assms(4) loads_of_lt [OF assms(1), of _ s] assms(1) that by (fastforce simp: groups_ok_def)
    then show ?thesis
      using that assms(1) by (auto simp: loads_of_upd groups_ok_def)
  qed
  moreover have "group_ok m qg" if "fmlookup (fmupd p pg G) q = Some qg" for q qg
    using that assms(1,3) group_ok_mono [OF _ assms(2), of qg]
    by (auto simp: groups_ok_def split: if_splits)
  ultimately show ?thesis unfolding groups_ok_def by blast
qed

lemma groups_ok_sub:
  assumes "groups_ok G n"
    "\<And>p pg. fmlookup H p = Some pg \<Longrightarrow>
       group_ok n pg \<and> (\<exists>old. fmlookup G p = Some old \<and> set (pg_members pg) \<subseteq> set (pg_members old))"
  shows "groups_ok H n"
proof -
  have "loads_of H p \<subseteq> loads_of G p" for p
    using assms(2) [of p] by (cases "fmlookup H p") (auto simp: loads_of_def)
  then show ?thesis using assms unfolding groups_ok_def by blast
qed

lemma group_ok_filter:
  assumes "group_ok n pg" "filter P (pg_members pg) \<noteq> []"
  shows "group_ok n (pg\<lparr>pg_members := filter P (pg_members pg)\<rparr>)"
proof -
  have "length (filter P (pg_members pg)) = 1" if "length (pg_members pg) = 1"
    using that assms(2) length_filter_le [of P "pg_members pg"]
    by (metis le_antisym length_0_conv less_one linorder_not_le)
  then show ?thesis
    using assms by (auto simp: group_ok_def distinct_map inj_on_def)
qed

lemma group_ok_push:
  assumes "group_ok n pg" "be_load b = n" "cr_user (be_client b) = pg_owner pg" "pg_name pg \<noteq> []"
  shows "group_ok (Suc n) (pg_push rid b pg)"
  using assms by (fastforce simp: group_ok_def pg_push_def pg_remove_def Let_def distinct_map inj_on_def)

lemma reserve_port_ok:
  assumes "groups_ok (po_groups st) (po_next st)" "reserve_port rid st p g k name c = (st', r)"
  shows "groups_ok (po_groups st') (po_next st')"
proof (cases "fmlookup (po_groups st) p")
  case None
  have "groups_ok (fmupd p (pg_new g k (fst (new_backend c name st))) (po_groups st)) (Suc (po_next st))"
    by (rule groups_ok_upd [OF assms(1)]) (auto simp: pg_new_def new_backend_def group_ok_def)
  then show ?thesis using None assms(2) by (auto simp: reserve_port_def new_backend_def)
next
  case (Some pg)
  then have g: "group_ok (po_next st) pg" using assms(1) by (simp add: groups_ok_def)
  let ?b = "\<lparr>be_client = c, be_proxy = name, be_load = po_next st\<rparr>"
  have "groups_ok (fmupd p (pg_push rid ?b pg) (po_groups st)) (Suc (po_next st))"
    if "cr_user c = pg_owner pg" "pg_name pg \<noteq> []"
  proof (rule groups_ok_upd [OF assms(1)])
    show "group_ok (Suc (po_next st)) (pg_push rid ?b pg)"
      using that by (intro group_ok_push [OF g]) simp_all
    show "be_load ` set (pg_members (pg_push rid ?b pg)) \<subseteq> loads_of (po_groups st) p \<union> {po_next st..<Suc (po_next st)}"
      using Some by (auto simp: pg_push_def pg_remove_def loads_of_def Let_def)
  qed simp
  then show ?thesis
    using assms Some by (auto simp: reserve_port_def new_backend_def split: if_splits)
qed

lemma release_port_ok:
  assumes "groups_ok (po_groups st) n"
  shows "groups_ok (po_groups (fst (release_port rid st p c name))) n"
proof (cases "fmlookup (po_groups st) p")
  case None
  then show ?thesis using assms by (simp add: release_port_def)
next
  case (Some pg)
  have g: "group_ok n pg" using assms Some by (simp add: groups_ok_def)
  show ?thesis
  proof (rule groups_ok_sub [OF assms])
    fix q qg
    assume "fmlookup (po_groups (fst (release_port rid st p c name))) q = Some qg"
    then show "group_ok n qg \<and> (\<exists>old. fmlookup (po_groups st) q = Some old \<and> set (pg_members qg) \<subseteq> set (pg_members old))"
      using Some assms group_ok_filter [OF g]
      by (auto simp: release_port_def Let_def pg_is_empty_def pg_remove_def groups_ok_def split: if_splits)
  qed
qed

lemma release_all_ok:
  assumes "groups_ok (po_groups st) n"
  shows "groups_ok (po_groups (fst (release_ports_of rid st c))) n"
proof (rule groups_ok_sub [OF assms])
  fix q qg
  assume "fmlookup (po_groups (fst (release_ports_of rid st c))) q = Some qg"
  then obtain pg where pg: "fmlookup (po_groups st) q = Some pg" "qg = pg_remove_all_of rid c pg"
    "pg_members qg \<noteq> []"
    by (auto simp: release_ports_of_def Let_def pg_is_empty_def split: option.splits if_splits)
  moreover have "group_ok n pg" using assms pg(1) by (simp add: groups_ok_def)
  ultimately show "group_ok n qg \<and> (\<exists>old. fmlookup (po_groups st) q = Some old \<and> set (pg_members qg) \<subseteq> set (pg_members old))"
    using group_ok_filter [of n pg] by (auto simp: pg_remove_all_of_def)
qed

lemma groups_ok_same_members:
  assumes "groups_ok (po_groups st) n" "fmlookup (po_groups st) p = Some pg"
    "pg_members pg' = pg_members pg" "pg_name pg' = pg_name pg" "pg_owner pg' = pg_owner pg"
  shows "groups_ok (fmupd p pg' (po_groups st)) n"
proof (rule groups_ok_upd [OF assms(1) order_refl])
  have "group_ok n pg" using assms(1,2) by (simp add: groups_ok_def)
  then show "group_ok n pg'" using assms(3-5) by (simp add: group_ok_def)
  show "be_load ` set (pg_members pg') \<subseteq> loads_of (po_groups st) p \<union> {n..<n}"
    using assms(2,3) by (simp add: loads_of_def)
qed

lemma ports_pick_some:
  assumes "ports_pick st p = (st', Some b)"
  shows "\<exists>pg. fmlookup (po_groups st) p = Some pg \<and> b \<in> set (pg_members pg)"
proof -
  obtain pg where pg: "fmlookup (po_groups st) p = Some pg"
    using assms by (auto simp: ports_pick_def split: option.splits)
  obtain pg' r where p': "pg_pick (po_loads st) (ports_lb_policy st) pg = (pg', r)"
    by (cases "pg_pick (po_loads st) (ports_lb_policy st) pg")
  have r: "r = Some b" using assms pg p' by (simp add: ports_pick_def)
  have ne: "pg_members pg \<noteq> []" using p' r by (auto simp: pg_pick_def)
  have "b \<in> set (pg_members pg)"
  proof (cases "ports_lb_policy st")
    case RoundRobin
    then show ?thesis using p' r ne by (auto simp: pg_pick_def Let_def)
  next
    case LeastConn
    then show ?thesis using pg_pick_least [OF ne p' [unfolded LeastConn]] r ne by auto
  qed
  then show ?thesis using pg by blast
qed

lemma ports_pick_ok:
  assumes "groups_ok (po_groups st) n" "ports_pick st p = (st', r)"
  shows "groups_ok (po_groups st') n \<and> po_next st' = po_next st \<and> po_loads st' = po_loads st"
proof (cases "fmlookup (po_groups st) p")
  case None
  then show ?thesis using assms by (simp add: ports_pick_def)
next
  case (Some pg)
  then have "groups_ok (fmupd p (fst (pg_pick (po_loads st) (ports_lb_policy st) pg)) (po_groups st)) n"
    by (intro groups_ok_same_members [OF assms(1)]) simp_all
  then show ?thesis
    using assms Some by (auto simp: ports_pick_def split: prod.splits)
qed

lemma attach_listener_ok:
  "groups_ok (po_groups st) n \<Longrightarrow> groups_ok (po_groups (attach_listener st p h)) n"
  using groups_ok_same_members [of st n p]
  by (auto simp: attach_listener_def split: option.splits)

lemma count_list_remove1:
  "g \<in> set gs \<Longrightarrow> count_list (remove1 g gs) i = (if i = g then count_list gs g - 1 else count_list gs i)"
  by (induction gs) (auto simp: count_list_0_iff)

lemma count_list_pos: "g \<in> set gs \<Longrightarrow> 0 < count_list gs g"
  by (metis count_list_0_iff gr0I)

lemma loads_ok_drop:
  assumes "loads_ok st gs" "g \<in> set gs" "length gs < 2 ^ 64"
  shows "loads_ok (guard_drop st g) (remove1 g gs)"
proof -
  have "count_list gs g < 2 ^ 64" using count_le_length [of gs g] assms(3) by simp
  then have "unat (po_loads st g) = count_list gs g"
    using assms(1) by (simp add: loads_ok_def unat_of_nat)
  then have "po_loads st g \<noteq> 0" using count_list_pos [OF assms(2)] by (auto simp: unat_0)
  moreover have "po_loads st g - 1 = of_nat (count_list gs g - 1)"
    using assms(1) count_list_pos [OF assms(2)] by (simp add: loads_ok_def of_nat_diff Suc_le_eq)
  moreover have "set (remove1 g gs) \<subseteq> set gs" by (rule set_remove1_subset)
  ultimately show ?thesis
    using assms(1) by (auto simp: loads_ok_def guard_drop_def count_list_remove1 [OF assms(2)])
qed

lemma loads_ok_new:
  assumes "loads_ok st gs"
  shows "loads_ok (snd (new_backend c name st)) gs"
proof -
  have "count_list gs (po_next st) = 0"
    using assms by (auto simp: loads_ok_def count_list_0_iff)
  then show ?thesis using assms by (auto simp: loads_ok_def new_backend_def less_Suc_eq)
qed

lemma loads_ok_groups [simp]: "loads_ok (st\<lparr>po_groups := G\<rparr>) gs = loads_ok st gs"
  by (simp add: loads_ok_def)

lemma reserve_port_loads: "loads_ok st gs \<Longrightarrow> loads_ok (fst (reserve_port rid st p g k name c)) gs"
  using loads_ok_new [of st gs c name]
  by (auto simp: reserve_port_def split: option.splits prod.splits)

lemma hold_loads: "loads_ok st gs \<Longrightarrow> be_load b < po_next st \<Longrightarrow> loads_ok (backend_hold st b) (be_load b # gs)"
  by (auto simp: loads_ok_def backend_hold_def)

definition world_ok :: "port_world \<Rightarrow> bool" where
  "world_ok w \<longleftrightarrow>
     groups_ok (po_groups (pw_ports w)) (po_next (pw_ports w)) \<and> loads_ok (pw_ports w) (pw_guards w)"

lemma world_ok_step:
  assumes "world_ok w" "length (pw_guards w) < 2 ^ 64"
  shows "world_ok (port_step w op)"
proof -
  obtain st gs rid where w: "w = \<lparr>pw_ports = st, pw_guards = gs, pw_rid = rid\<rparr>" by (cases w)
  have g: "groups_ok (po_groups st) (po_next st)" and l: "loads_ok st gs"
    using assms(1) by (simp_all add: w world_ok_def)
  show ?thesis
  proof (cases op)
    case (Reserve p g' k name c)
    then show ?thesis
      using reserve_port_ok [OF g surjective_pairing] reserve_port_loads [OF l]
      by (simp add: w world_ok_def prod_eq_iff)
  next
    case (Release p c name)
    have "po_next (fst (release_port rid st p c name)) = po_next st"
      "loads_ok (fst (release_port rid st p c name)) gs"
      using l by (auto simp: release_port_def Let_def split: option.splits)
    then show ?thesis using Release release_port_ok [OF g] by (simp add: w world_ok_def)
  next
    case (ReleaseAll c)
    then show ?thesis
      using release_all_ok [OF g, of rid c] l by (simp add: w world_ok_def release_ports_of_def Let_def)
  next
    case (Attach p h)
    have "po_next (attach_listener st p h) = po_next st" "loads_ok (attach_listener st p h) gs"
      using l by (auto simp: attach_listener_def split: option.splits)
    then show ?thesis using Attach attach_listener_ok [OF g] by (simp add: w world_ok_def)
  next
    case (HoldOne p)
    obtain st1 r where pick: "ports_pick st p = (st1, r)" by (cases "ports_pick st p")
    note ok = ports_pick_ok [OF g pick]
    have l1: "loads_ok st1 gs" using l ok by (simp add: loads_ok_def)
    show ?thesis
    proof (cases r)
      case None
      then show ?thesis using HoldOne pick ok l1 by (simp add: w world_ok_def pick_and_hold_def)
    next
      case (Some b)
      then obtain pg where "fmlookup (po_groups st) p = Some pg" "b \<in> set (pg_members pg)"
        using ports_pick_some pick by blast
      then have "be_load b < po_next st1" using g ok by (auto simp: groups_ok_def group_ok_def)
      then show ?thesis
        using HoldOne pick ok Some hold_loads [OF l1]
        by (simp add: w world_ok_def pick_and_hold_def backend_hold_def)
    qed
  next
    case (DropGuard i)
    then show ?thesis
      using g l loads_ok_drop [OF l, of i] assms(2)
      by (auto simp: w world_ok_def guard_drop_def)
  next
    case (SetPolicy p)
    then show ?thesis using g l by (simp add: w world_ok_def set_lb_policy_def loads_ok_def)
  next
    case (Rebind i r)
    then show ?thesis using g l by (simp add: w world_ok_def)
  qed
qed

lemma guards_step: "length (pw_guards (port_step w op)) \<le> Suc (length (pw_guards w))"
  by (cases op) (auto simp: length_remove1 split: option.splits prod.splits)

lemma port_run_snoc: "port_run rid (ops @ [op]) = port_step (port_run rid ops) op"
  by (simp add: port_run_def)

lemma guards_run: "length (pw_guards (port_run rid ops)) \<le> length ops"
proof (induction ops rule: rev_induct)
  case (snoc op ops)
  then show ?case using guards_step [of "port_run rid ops" op] by (simp add: port_run_snoc)
qed (simp add: port_run_def)

lemma world_ok_run: "length ops \<le> 2 ^ 64 \<Longrightarrow> world_ok (port_run rid ops)"
proof (induction ops rule: rev_induct)
  case Nil
  show ?case by (simp add: port_run_def world_ok_def ports_empty_def groups_ok_def loads_ok_def loads_of_def)
next
  case (snoc op ops)
  then have "length (pw_guards (port_run rid ops)) < 2 ^ 64"
    using guards_run [of rid ops] by simp
  with snoc show ?case by (simp add: port_run_snoc world_ok_step)
qed

section \<open>The contract: who holds which port\<close>

text \<open>What the ports promise, without lists, cursors, counters and listeners: each taken port has a
  group name, a key, the user who took it and the set of registered client and proxy pairs.\<close>

type_synonym claim_table = "u16 \<Rightarrow> (string \<times> string \<times> string \<times> (client_ref \<times> string) set) option"

definition shrink :: "(client_ref \<times> string \<Rightarrow> bool) \<Rightarrow> string \<times> string \<times> string \<times> (client_ref \<times> string) set
     \<Rightarrow> (string \<times> string \<times> string \<times> (client_ref \<times> string) set) option" where
  "shrink out e =
     (case e of (g, k, u, M) \<Rightarrow> if {x \<in> M. \<not> out x} = {} then None else Some (g, k, u, {x \<in> M. \<not> out x}))"

definition spec_admits :: "claim_table \<Rightarrow> u16 \<Rightarrow> string \<Rightarrow> string \<Rightarrow> string \<Rightarrow> bool" where
  "spec_admits s p g k u \<longleftrightarrow> g \<noteq> [] \<and> (\<exists>M. s p = Some (g, k, u, M))"

fun spec_step :: "run_ids \<times> claim_table \<Rightarrow> port_op \<Rightarrow> run_ids \<times> claim_table" where
  "spec_step (rid, s) (Reserve p g k name c) =
     (rid, case s p of
        None \<Rightarrow> s(p := Some (g, k, cr_user c, {(c, name)}))
      | Some (g', k', u, M) \<Rightarrow>
          if spec_admits s p g k (cr_user c)
          then s(p := Some (g, k, u, insert (c, name) {x \<in> M. \<not> (same_client rid (fst x) c \<and> snd x = name)}))
          else s)"
| "spec_step (rid, s) (Release p c name) =
     (rid, s(p := Option.bind (s p) (shrink (\<lambda>x. same_client rid (fst x) c \<and> snd x = name))))"
| "spec_step (rid, s) (ReleaseAll c) =
     (rid, \<lambda>p. Option.bind (s p) (shrink (\<lambda>x. same_client rid (fst x) c)))"
| "spec_step (rid, s) (Rebind i r) = (rid(i := r), s)"
| "spec_step (rid, s) _ = (rid, s)"

definition spec_run :: "run_ids \<Rightarrow> port_op list \<Rightarrow> claim_table" where
  "spec_run rid ops = snd (foldl spec_step (rid, \<lambda>_. None) ops)"

definition regs :: "port_group \<Rightarrow> (client_ref \<times> string) set" where
  "regs pg = (\<lambda>b. (be_client b, be_proxy b)) ` set (pg_members pg)"

definition group_view :: "port_group \<Rightarrow> string \<times> string \<times> string \<times> (client_ref \<times> string) set" where
  "group_view pg = (pg_name pg, pg_key pg, pg_owner pg, regs pg)"

definition view :: "ports \<Rightarrow> claim_table" where
  "view st p = map_option group_view (fmlookup (po_groups st) p)"

definition world_view :: "port_world \<Rightarrow> run_ids \<times> claim_table" where
  "world_view w = (pw_rid w, view (pw_ports w))"

lemma regs_filter:
  "regs (pg\<lparr>pg_members := filter (\<lambda>b. \<not> P (be_client b, be_proxy b)) (pg_members pg)\<rparr>) = {x \<in> regs pg. \<not> P x}"
  by (auto simp: regs_def)

lemma regs_remove:
  "regs (pg_remove rid c name pg) = {x \<in> regs pg. \<not> (same_client rid (fst x) c \<and> snd x = name)}"
  "regs (pg_remove_all_of rid c pg) = {x \<in> regs pg. \<not> same_client rid (fst x) c}"
  by (auto simp: regs_def pg_remove_def pg_remove_all_of_def)

lemma regs_empty: "regs pg = {} \<longleftrightarrow> pg_is_empty pg"
  by (simp add: regs_def pg_is_empty_def)

lemma regs_push:
  "regs (pg_push rid b pg)
     = insert (be_client b, be_proxy b) {x \<in> regs pg. \<not> (same_client rid (fst x) (be_client b) \<and> snd x = be_proxy b)}"
  by (auto simp: regs_def pg_push_def pg_remove_def Let_def)

lemma group_view_simps [simp]:
  "group_view (pg\<lparr>pg_cursor := x\<rparr>) = group_view pg" "group_view (pg\<lparr>pg_handle := y\<rparr>) = group_view pg"
  by (simp_all add: group_view_def regs_def)

lemma group_view_pick [simp]: "group_view (fst (pg_pick loads policy pg)) = group_view pg"
  by (simp add: group_view_def regs_def)

lemma view_pick: "view (fst (ports_pick st p)) = view st"
  by (auto simp: view_def fun_eq_iff ports_pick_def split: option.splits prod.splits)
     (metis fst_conv group_view_pick)

lemma view_loads [simp]: "view (st\<lparr>po_loads := l\<rparr>) = view st"
  by (simp add: view_def fun_eq_iff)

lemma spec_admits_view:
  "fmlookup (po_groups st) p = Some pg \<Longrightarrow>
     spec_admits (view st) p g k u \<longleftrightarrow> g \<noteq> [] \<and> pg_name pg = g \<and> pg_key pg = k \<and> pg_owner pg = u"
  by (auto simp: spec_admits_def view_def group_view_def)

lemma reserve_port_claim:
  "snd (reserve_port rid st p g k name c)
     = (case view st p of
          None \<Rightarrow> Inr Fresh
        | Some _ \<Rightarrow> if spec_admits (view st) p g k (cr_user c) then Inr Joined
                    else snd (reserve_port rid st p g k name c))"
  "view st p \<noteq> None \<Longrightarrow>
     snd (reserve_port rid st p g k name c) = Inr Joined \<longleftrightarrow> spec_admits (view st) p g k (cr_user c)"
  "view st p \<noteq> None \<Longrightarrow> snd (reserve_port rid st p g k name c) \<noteq> Inr Fresh"
  by (auto simp: reserve_port_def new_backend_def spec_admits_def view_def group_view_def split: option.splits)

lemma view_reserve:
  "(rid, view (fst (reserve_port rid st p g k name c))) = spec_step (rid, view st) (Reserve p g k name c)"
proof (cases "fmlookup (po_groups st) p")
  case None
  then show ?thesis
    by (auto simp: reserve_port_def new_backend_def view_def fun_eq_iff group_view_def pg_new_def regs_def)
next
  case (Some pg)
  note adm = spec_admits_view [OF Some]
  show ?thesis
    using Some adm [of g k "cr_user c"]
    by (auto simp: reserve_port_def new_backend_def view_def fun_eq_iff group_view_def regs_push)
       (auto simp: pg_push_def pg_remove_def Let_def)
qed

lemma view_release:
  "(rid, view (fst (release_port rid st p c name))) = spec_step (rid, view st) (Release p c name)"
proof (cases "fmlookup (po_groups st) p")
  case (Some pg)
  have "pg_is_empty (pg_remove rid c name pg)
      \<longleftrightarrow> {x \<in> regs pg. \<not> (same_client rid (fst x) c \<and> snd x = name)} = {}"
    unfolding regs_empty [symmetric] regs_remove ..
  moreover have "group_view (pg_remove rid c name pg)
      = (pg_name pg, pg_key pg, pg_owner pg, {x \<in> regs pg. \<not> (same_client rid (fst x) c \<and> snd x = name)})"
    unfolding group_view_def regs_remove by (simp add: pg_remove_def)
  ultimately show ?thesis
    using Some by (auto simp: release_port_def Let_def view_def fun_eq_iff shrink_def group_view_def)
qed (simp add: release_port_def view_def fun_eq_iff)

lemma view_release_all:
  "(rid, view (fst (release_ports_of rid st c))) = spec_step (rid, view st) (ReleaseAll c)"
proof -
  have "pg_is_empty (pg_remove_all_of rid c pg) \<longleftrightarrow> {x \<in> regs pg. \<not> same_client rid (fst x) c} = {}" for pg
    unfolding regs_empty [symmetric] regs_remove ..
  moreover have "group_view (pg_remove_all_of rid c pg)
      = (pg_name pg, pg_key pg, pg_owner pg, {x \<in> regs pg. \<not> same_client rid (fst x) c})" for pg
    unfolding group_view_def regs_remove by (simp add: pg_remove_all_of_def)
  ultimately show ?thesis
    by (auto simp: release_ports_of_def Let_def view_def fun_eq_iff shrink_def group_view_def split: option.splits)
qed

lemma view_attach: "view (attach_listener st p h) = view st"
  by (auto simp: view_def attach_listener_def fun_eq_iff split: option.splits)

lemma world_view_step: "world_view (port_step w op) = spec_step (world_view w) op"
proof -
  obtain st gs rid where w: "w = \<lparr>pw_ports = st, pw_guards = gs, pw_rid = rid\<rparr>" by (cases w)
  show ?thesis
  proof (cases op)
    case (Reserve p g k name c)
    then show ?thesis unfolding w Reserve using view_reserve [of rid st p g k name c] by (simp add: world_view_def)
  next
    case (Release p c name)
    then show ?thesis unfolding w Release using view_release [of rid st p c name] by (simp add: world_view_def)
  next
    case (ReleaseAll c)
    then show ?thesis unfolding w ReleaseAll using view_release_all [of rid st c] by (simp add: world_view_def)
  next
    case (HoldOne p)
    have "view (fst (pick_and_hold st p)) = view st"
      using view_pick [of st p]
      by (auto simp: pick_and_hold_def backend_hold_def split: prod.splits option.splits)
    then show ?thesis unfolding w HoldOne by (auto simp: world_view_def split: prod.splits option.splits)
  next
    case (DropGuard g)
    then show ?thesis by (simp add: w world_view_def guard_drop_def)
  next
    case (SetPolicy p)
    then show ?thesis by (simp add: w world_view_def set_lb_policy_def view_def fun_eq_iff)
  qed (simp_all add: w world_view_def view_attach)
qed

lemma world_view_run: "world_view (port_run rid ops) = foldl spec_step (rid, \<lambda>_. None) ops"
proof (induction ops rule: rev_induct)
  case Nil
  show ?case by (simp add: port_run_def world_view_def view_def ports_empty_def fun_eq_iff)
qed (simp add: port_run_snoc world_view_step)

lemma view_run: "view (pw_ports (port_run rid ops)) = spec_run rid ops"
  using world_view_run [of rid ops] by (simp add: world_view_def spec_run_def prod_eq_iff)

section \<open>Properties\<close>

text \<open>C12: the ports stay well formed through any sequence of registrations, releases, rebound run
  ids, picks, dropped connections and policy changes. A reserved port has a backend; all its
  backends are of the tenant that took it; without a group name it has a single backend; no
  two backends share a load counter; and the in-flight count of a backend is the number of
  connections that hold it.\<close>

theorem ports_invariant:
  assumes "length ops \<le> 2 ^ 64" "port_run rid ops = w"
    and "fmlookup (po_groups (pw_ports w)) p = Some pg"
  shows "pg_members pg \<noteq> []
    \<and> list_all (\<lambda>b. cr_user (be_client b) = pg_owner pg
                    \<and> backend_inflight (pw_ports w) b = of_nat (count_list (pw_guards w) (be_load b))) (pg_members pg)
    \<and> distinct (map be_load (pg_members pg))
    \<and> (pg_name pg = [] \<longrightarrow> length (pg_members pg) = 1)
    \<and> (\<forall>q qg. fmlookup (po_groups (pw_ports w)) q = Some qg \<longrightarrow> q \<noteq> p \<longrightarrow>
          be_load ` set (pg_members pg) \<inter> be_load ` set (pg_members qg) = {})"
proof -
  have ok: "world_ok w" using world_ok_run [OF assms(1)] assms(2) by blast
  then have g: "group_ok (po_next (pw_ports w)) pg"
    using assms(3) by (simp add: world_ok_def groups_ok_def)
  have "be_load ` set (pg_members pg) \<inter> be_load ` set (pg_members qg) = {}"
    if "fmlookup (po_groups (pw_ports w)) q = Some qg" "q \<noteq> p" for q qg
  proof -
    have "loads_of (po_groups (pw_ports w)) p \<inter> loads_of (po_groups (pw_ports w)) q = {}"
      using ok that(2) by (auto simp: world_ok_def groups_ok_def)
    then show ?thesis using that(1) assms(3) by (simp add: loads_of_def)
  qed
  moreover have "list_all (\<lambda>b. cr_user (be_client b) = pg_owner pg
      \<and> backend_inflight (pw_ports w) b = of_nat (count_list (pw_guards w) (be_load b))) (pg_members pg)"
    using g ok by (simp add: group_ok_def list_all_iff backend_inflight_def world_ok_def loads_ok_def)
  ultimately show ?thesis using g unfolding group_ok_def by blast
qed

definition demo_client :: "nat \<Rightarrow> client_ref" where
  "demo_client i = \<lparr>cr_ptr = i, cr_user = ''alice''\<rparr>"

definition demo_ops :: "port_op list" where
  "demo_ops = [Reserve 80 ''web'' ''k'' ''a'' (demo_client 1), Reserve 80 ''web'' ''k'' ''b'' (demo_client 2),
     HoldOne 80]"

definition demo_rid :: run_ids where "demo_rid i = (if i = 1 then ''r1'' else ''r2'')"

lemma demo_run:
  "\<exists>pg. fmlookup (po_groups (pw_ports (port_run demo_rid demo_ops))) 80 = Some pg
     \<and> pg_members pg = [\<lparr>be_client = demo_client 1, be_proxy = ''a'', be_load = 0\<rparr>,
                        \<lparr>be_client = demo_client 2, be_proxy = ''b'', be_load = 1\<rparr>]
     \<and> pg_cursor pg = 1 \<and> pw_guards (port_run demo_rid demo_ops) = [0]
     \<and> ports_lb_policy (pw_ports (port_run demo_rid demo_ops)) = RoundRobin"
  by (simp add: port_run_def demo_ops_def demo_client_def demo_rid_def reserve_port_def ports_empty_def
      new_backend_def pg_new_def pg_push_def pg_remove_def same_client_def pick_and_hold_def ports_pick_def
      pg_pick_def ports_lb_policy_def lb_policy_from_u8_def backend_hold_def Let_def)

theorem ports_invariant_witness:
  "\<exists>pg. fmlookup (po_groups (pw_ports (port_run demo_rid demo_ops))) 80 = Some pg \<and> length (pg_members pg) = 2
     \<and> distinct (map be_load (pg_members pg))"
proof -
  obtain pg where pg: "fmlookup (po_groups (pw_ports (port_run demo_rid demo_ops))) 80 = Some pg"
    "length (pg_members pg) = 2"
    using demo_run by auto
  have "length demo_ops \<le> 2 ^ 64" by (simp add: demo_ops_def)
  from ports_invariant [OF this refl pg(1)] pg show ?thesis by blast
qed

text \<open>C13: the ports refine a table of claims. After any sequence of operations, each port shows
  exactly the group, key, tenant and registered client and proxy pairs that the history of
  registrations and releases gives; a registration opens the port exactly when it is free and
  joins it exactly when it names the same non-empty group with the key and tenant of the holder;
  and traffic is handed only to a registered pair.\<close>

theorem ports_refine_claims:
  assumes "port_run rid ops = w"
  shows "view (pw_ports w) = spec_run rid ops
    \<and> (snd (reserve_port (pw_rid w) (pw_ports w) p g k name c) = Inr Fresh \<longleftrightarrow> spec_run rid ops p = None)
    \<and> (snd (reserve_port (pw_rid w) (pw_ports w) p g k name c) = Inr Joined \<longleftrightarrow>
         spec_admits (spec_run rid ops) p g k (cr_user c))
    \<and> (case snd (ports_pick (pw_ports w) p) of
         Some b \<Rightarrow> \<exists>g k u M. spec_run rid ops p = Some (g, k, u, M) \<and> (be_client b, be_proxy b) \<in> M
       | None \<Rightarrow> True)"
proof -
  have v: "view (pw_ports w) = spec_run rid ops" using view_run [of rid ops] assms by simp
  have f: "snd (reserve_port (pw_rid w) (pw_ports w) p g k name c) = Inr Fresh \<longleftrightarrow> view (pw_ports w) p = None"
    using reserve_port_claim(1) [of "pw_rid w" "pw_ports w" p g k name c]
      reserve_port_claim(3) [of "pw_ports w" p "pw_rid w" g k name c]
    by (cases "view (pw_ports w) p") auto
  have j: "snd (reserve_port (pw_rid w) (pw_ports w) p g k name c) = Inr Joined
      \<longleftrightarrow> spec_admits (view (pw_ports w)) p g k (cr_user c)"
    using reserve_port_claim(1) [of "pw_rid w" "pw_ports w" p g k name c]
      reserve_port_claim(2) [of "pw_ports w" p "pw_rid w" g k name c]
    by (cases "view (pw_ports w) p") (auto simp: spec_admits_def)
  have b: "\<exists>g k u M. view (pw_ports w) p = Some (g, k, u, M) \<and> (be_client b, be_proxy b) \<in> M"
    if picked: "snd (ports_pick (pw_ports w) p) = Some b" for b
  proof -
    obtain pg where "fmlookup (po_groups (pw_ports w)) p = Some pg" "b \<in> set (pg_members pg)"
      using ports_pick_some [of "pw_ports w" p "fst (ports_pick (pw_ports w) p)" b] picked
      by (cases "ports_pick (pw_ports w) p") auto
    then show ?thesis by (auto simp: view_def group_view_def regs_def)
  qed
  show ?thesis using f j b unfolding v by (auto split: option.splits)
qed

theorem ports_refine_claims_witness:
  "view (pw_ports (port_run demo_rid demo_ops)) = spec_run demo_rid demo_ops
   \<and> spec_run demo_rid demo_ops 80 \<noteq> None"
proof -
  have "view (pw_ports (port_run demo_rid demo_ops)) 80 \<noteq> None"
    using demo_run by (auto simp: view_def)
  then show ?thesis
    using ports_refine_claims [OF refl, of demo_rid demo_ops 80 "[]" "[]" "[]" "demo_client 1"] by simp
qed

lemma mset_rotate: "mset (rotate n xs) = mset xs"
proof (induction n)
  case (Suc n)
  have "mset (rotate1 ys) = mset ys" for ys :: "'a list" by (cases ys) simp_all
  with Suc show ?case by simp
qed simp

text \<open>Round robin is fair. As many picks as the port has backends give every backend exactly
  once, in the order of registration, starting at the cursor (until the 64-bit cursor wraps).\<close>

theorem round_robin_fair:
  assumes "fmlookup (po_groups st) port = Some pg" "ports_lb_policy st = RoundRobin"
    and "pg_members pg \<noteq> []" "unat (pg_cursor pg) + length (pg_members pg) \<le> 2 ^ 64"
  shows "ports_picks st port (length (pg_members pg))
           = map Some (rotate (unat (pg_cursor pg)) (pg_members pg))
         \<and> mset (ports_picks st port (length (pg_members pg))) = mset (map Some (pg_members pg))"
proof -
  have "ports_picks st port (length (pg_members pg)) = map Some (rotate (unat (pg_cursor pg)) (pg_members pg))"
    unfolding ports_picks_rr [OF assms]
    by (rule nth_equalityI) (simp_all add: nth_rotate)
  then show ?thesis by (simp add: mset_rotate flip: rotate_map)
qed

theorem round_robin_fair_witness:
  "\<exists>pg. fmlookup (po_groups (pw_ports (port_run demo_rid demo_ops))) 80 = Some pg
     \<and> ports_picks (pw_ports (port_run demo_rid demo_ops)) 80 2 = map Some (rotate 1 (pg_members pg))"
proof -
  obtain pg where pg: "fmlookup (po_groups (pw_ports (port_run demo_rid demo_ops))) 80 = Some pg"
    "length (pg_members pg) = 2" "pg_cursor pg = 1"
    "ports_lb_policy (pw_ports (port_run demo_rid demo_ops)) = RoundRobin"
    using demo_run by auto
  have "pg_members pg \<noteq> []" "unat (pg_cursor pg) + length (pg_members pg) \<le> 2 ^ 64" using pg by auto
  from round_robin_fair [OF pg(1,4) this] pg show ?thesis by simp
qed

text \<open>Least connections picks a backend no other backend is less loaded than, and among the
  equally loaded the first one from the cursor on.\<close>

theorem least_conn_picks_least:
  assumes "fmlookup (po_groups st) port = Some pg" "ports_lb_policy st = LeastConn" "pg_members pg \<noteq> []"
  shows "\<exists>k<length (pg_members pg).
     snd (ports_pick st port) = Some (rotate (unat (pg_cursor pg)) (pg_members pg) ! k)
     \<and> list_all (\<lambda>b. backend_inflight st (rotate (unat (pg_cursor pg)) (pg_members pg) ! k) \<le> backend_inflight st b)
         (pg_members pg)
     \<and> list_all (\<lambda>b. backend_inflight st (rotate (unat (pg_cursor pg)) (pg_members pg) ! k) < backend_inflight st b)
         (take k (rotate (unat (pg_cursor pg)) (pg_members pg)))"
proof -
  let ?ms = "pg_members pg" and ?s = "unat (pg_cursor pg)"
  obtain pg' r where p: "pg_pick (po_loads st) LeastConn pg = (pg', r)" by (cases "pg_pick (po_loads st) LeastConn pg")
  have load: "round_load (po_loads st) ?ms ?s i = backend_inflight st (rotate ?s ?ms ! i)" if "i < length ?ms" for i
    using that by (simp add: round_load_def backend_inflight_def nth_rotate)
  obtain k where k: "k < length ?ms" "r = Some (?ms ! ((?s + k) mod length ?ms))"
    "\<forall>i<length ?ms. round_load (po_loads st) ?ms ?s k \<le> round_load (po_loads st) ?ms ?s i"
    "\<forall>i<k. round_load (po_loads st) ?ms ?s k < round_load (po_loads st) ?ms ?s i"
    using pg_pick_least [OF assms(3) p] by blast
  have "list_all (\<lambda>b. backend_inflight st (rotate ?s ?ms ! k) \<le> backend_inflight st b) (rotate ?s ?ms)"
    using k(1,3) load by (simp add: list_all_length)
  then have "list_all (\<lambda>b. backend_inflight st (rotate ?s ?ms ! k) \<le> backend_inflight st b) ?ms"
    by (simp add: list_all_iff)
  moreover have "list_all (\<lambda>b. backend_inflight st (rotate ?s ?ms ! k) < backend_inflight st b) (take k (rotate ?s ?ms))"
    using k(1,4) load by (simp add: list_all_length)
  moreover have "snd (ports_pick st port) = Some (rotate ?s ?ms ! k)"
    using assms(1,2) p k(1,2) by (simp add: ports_pick_def nth_rotate)
  ultimately show ?thesis using k(1) by blast
qed

theorem least_conn_picks_least_witness:
  "\<exists>st pg k. fmlookup (po_groups st) 80 = Some pg \<and> k < length (pg_members pg)
     \<and> snd (ports_pick st 80) = Some (rotate 1 (pg_members pg) ! k)"
proof -
  obtain pg where pg: "fmlookup (po_groups (pw_ports (port_run demo_rid demo_ops))) 80 = Some pg"
    "length (pg_members pg) = 2" "pg_cursor pg = 1"
    using demo_run by auto
  let ?st = "set_lb_policy (pw_ports (port_run demo_rid demo_ops)) LeastConn"
  have "fmlookup (po_groups ?st) 80 = Some pg" "ports_lb_policy ?st = LeastConn" "pg_members pg \<noteq> []"
    using pg by (auto simp: set_lb_policy_def ports_lb_policy_def lb_policy_from_u8_def)
  from least_conn_picks_least [OF this] this(1) pg(3) show ?thesis by auto
qed

end
