(* ===== verification/Sessions.thy ===== *)
theory Sessions
  imports Quotas Ports Expiring NLink_Ids
begin

text \<open>
  The clients of the server and the life of a control connection (\<open>server/src/registry.rs\<close>: the
  client table, the suspended sessions, \<open>ClientGuard\<close>; \<open>server/src/serve.rs\<close>: the resume branch of
  the login, the registration and the end of \<open>handle_control\<close>). A client is online under the run
  id of its connection, or suspended under its session id until a deadline; each holds one
  permit of the quota on clients and its ports. The visitor, vhost and proxy tables that
  \<open>cleanup_client\<close> also clears are not in this model.
\<close>

record suspended =
  ss_client :: client_ref
  ss_slot :: "permit option"
  ss_run_id :: string
  ss_user :: string
  ss_client_id :: string
  ss_expires :: instant

definition susp_alive :: "suspended \<Rightarrow> instant \<Rightarrow> bool" where
  "susp_alive e now \<longleftrightarrow> ss_expires e > now"

interpretation suspended_store: expiring susp_alive
  by unfold_locales (simp add: susp_alive_def)

record 's registry =
  rg_clients :: "(string, client_ref) fmap"
  rg_client_limit :: "'s limit"
  rg_active :: int
  rg_total :: nat
  rg_suspended :: "(connection_id, suspended) fmap"
  rg_ports :: ports
  rg_rid :: run_ids
  rg_client_id :: "nat \<Rightarrow> string"
  rg_stopped :: "nat set"

definition registry_new :: "'s semaphore \<Rightarrow> nat \<Rightarrow> 's registry" where
  "registry_new sm max_clients =
     \<lparr>rg_clients = fmempty, rg_client_limit = limit_new sm max_clients, rg_active = 0, rg_total = 0,
      rg_suspended = fmempty, rg_ports = ports_empty, rg_rid = (\<lambda>_. []), rg_client_id = (\<lambda>_. []),
      rg_stopped = {}\<rparr>"

definition drop_slot :: "'s semaphore \<Rightarrow> permit option \<Rightarrow> 's registry \<Rightarrow> 's registry" where
  "drop_slot sm slot r =
     (case slot of
        None \<Rightarrow> r
      | Some p \<Rightarrow> r\<lparr>rg_client_limit := permit_drop sm p (rg_client_limit r)\<rparr>)"

definition reg_insert :: "'s semaphore \<Rightarrow> client_ref \<Rightarrow> 's registry \<Rightarrow> 's registry \<times> permit option" where
  "reg_insert sm c r =
     (case limit_try_acquire sm (rg_client_limit r) of
        (l, None) \<Rightarrow> (r\<lparr>rg_client_limit := l\<rparr>, None)
      | (l, Some p) \<Rightarrow>
          (r\<lparr>rg_client_limit := l, rg_clients := fmupd (rg_rid r (cr_ptr c)) c (rg_clients r),
             rg_total := rg_total r + 1, rg_active := rg_active r + 1\<rparr>, Some p))"

definition cleanup_client :: "client_ref \<Rightarrow> 's registry \<Rightarrow> 's registry" where
  "cleanup_client c r =
     r\<lparr>rg_stopped := insert (cr_ptr c) (rg_stopped r),
       rg_ports := fst (release_ports_of (rg_rid r) (rg_ports r) c)\<rparr>"

definition reg_remove :: "string \<Rightarrow> 's registry \<Rightarrow> 's registry \<times> client_ref option" where
  "reg_remove run_id r =
     (case fmlookup (rg_clients r) run_id of
        None \<Rightarrow> (r, None)
      | Some c \<Rightarrow>
          (cleanup_client c (r\<lparr>rg_clients := fmdrop run_id (rg_clients r), rg_active := rg_active r - 1\<rparr>), Some c))"

definition reg_detach :: "string \<Rightarrow> 's registry \<Rightarrow> 's registry \<times> client_ref option" where
  "reg_detach run_id r =
     (case fmlookup (rg_clients r) run_id of
        None \<Rightarrow> (r, None)
      | Some c \<Rightarrow> (r\<lparr>rg_clients := fmdrop run_id (rg_clients r), rg_active := rg_active r - 1\<rparr>, Some c))"

definition reg_reattach :: "client_ref \<Rightarrow> 's registry \<Rightarrow> 's registry" where
  "reg_reattach c r =
     r\<lparr>rg_clients := fmupd (rg_rid r (cr_ptr c)) c (rg_clients r), rg_total := rg_total r + 1,
       rg_active := rg_active r + 1\<rparr>"

definition reclaim_suspended :: "'s semaphore \<Rightarrow> suspended \<Rightarrow> 's registry \<Rightarrow> 's registry" where
  "reclaim_suspended sm e r = drop_slot sm (ss_slot e) (cleanup_client (ss_client e) r)"

text \<open>The hash map yields the expired sessions in no particular order; here in the order of
  their ids.\<close>

definition expired_sessions :: "instant \<Rightarrow> (connection_id, suspended) fmap \<Rightarrow> suspended list" where
  "expired_sessions now g =
     filter (\<lambda>e. \<not> susp_alive e now) (map (\<lambda>k. the (fmlookup g k)) (sorted_list_of_fset (fmdom g)))"

definition sweep_suspended :: "'s semaphore \<Rightarrow> instant \<Rightarrow> 's registry \<Rightarrow> 's registry \<times> nat" where
  "sweep_suspended sm now r =
     (let es = expired_sessions now (rg_suspended r)
      in (foldl (\<lambda>r e. reclaim_suspended sm e r) (r\<lparr>rg_suspended := prune susp_alive now (rg_suspended r)\<rparr>) es,
          length es))"

definition reg_suspend ::
  "'s semaphore \<Rightarrow> instant \<Rightarrow> connection_id \<Rightarrow> suspended \<Rightarrow> 's registry \<Rightarrow> 's registry \<times> bool" where
  "reg_suspend sm now sid entry r0 =
     (let r = fst (sweep_suspended sm now r0) in
      case fmlookup (rg_suspended r) sid of
        Some old \<Rightarrow>
          if cr_ptr (ss_client old) \<noteq> cr_ptr (ss_client entry) then (reclaim_suspended sm entry r, False)
          else (drop_slot sm (ss_slot old) (r\<lparr>rg_suspended := fmupd sid entry (rg_suspended r)\<rparr>), True)
      | None \<Rightarrow> (r\<lparr>rg_suspended := fmupd sid entry (rg_suspended r)\<rparr>, True))"

definition take_suspended_if ::
  "'s semaphore \<Rightarrow> instant \<Rightarrow> connection_id \<Rightarrow> string \<Rightarrow> string \<Rightarrow> 's registry
     \<Rightarrow> 's registry \<times> suspended option" where
  "take_suspended_if sm now sid user client_id r =
     (case fmlookup (rg_suspended r) sid of
        None \<Rightarrow> (r, None)
      | Some e \<Rightarrow>
          if ss_expires e \<le> now
          then (reclaim_suspended sm e (r\<lparr>rg_suspended := fmdrop sid (rg_suspended r)\<rparr>), None)
          else if ss_user e \<noteq> user \<or> ss_client_id e \<noteq> client_id then (r, None)
          else (r\<lparr>rg_suspended := fmdrop sid (rg_suspended r)\<rparr>, Some e))"

section \<open>A control connection\<close>

text \<open>A control connection in its loop: its client, its run id (which its \<open>ClientGuard\<close> removes
  when dropped) and its permit.\<close>

record control =
  ct_client :: client_ref
  ct_run_id :: string
  ct_slot :: "permit option"

record login =
  lg_user :: string
  lg_client_id :: string
  lg_run_id :: string
  lg_ptr :: nat
  lg_session :: connection_id
  lg_resume :: bool
  lg_token_ok :: bool
  lg_same_transport :: bool

definition fresh_client :: "login \<Rightarrow> client_ref" where
  "fresh_client lg = \<lparr>cr_ptr = lg_ptr lg, cr_user = lg_user lg\<rparr>"

definition rebind_control :: "client_ref \<Rightarrow> string \<Rightarrow> 's registry \<Rightarrow> 's registry" where
  "rebind_control c run_id r = r\<lparr>rg_rid := (rg_rid r)(cr_ptr c := run_id)\<rparr>"

text \<open>The resume branch of the login.\<close>

definition try_resume ::
  "'s semaphore \<Rightarrow> instant \<Rightarrow> login \<Rightarrow> 's registry \<Rightarrow> 's registry \<times> suspended option" where
  "try_resume sm now lg r =
     (if \<not> lg_resume lg \<or> \<not> lg_token_ok lg then (r, None)
      else
        case take_suspended_if sm now (lg_session lg) (lg_user lg) (lg_client_id lg) r of
          (r1, None) \<Rightarrow> (r1, None)
        | (r1, Some sess) \<Rightarrow>
            if lg_same_transport lg \<and> cr_ptr (ss_client sess) \<notin> rg_stopped r1
            then (reg_reattach (ss_client sess) (rebind_control (ss_client sess) (lg_run_id lg) r1), Some sess)
            else (fst (reg_suspend sm now (lg_session lg) sess r1), None))"

text \<open>The login up to the control loop. \<open>sent\<close> says that the NLink frames written between the
  resume and the registration went out; when one fails, \<open>handle_control\<close> returns and its
  locals, the taken session among them, are dropped.\<close>

definition control_login ::
  "'s semaphore \<Rightarrow> instant \<Rightarrow> login \<Rightarrow> bool \<Rightarrow> 's registry \<Rightarrow> 's registry \<times> control option" where
  "control_login sm now lg sent r0 =
     (let r = r0\<lparr>rg_rid := (rg_rid r0)(lg_ptr lg := lg_run_id lg),
                 rg_client_id := (rg_client_id r0)(lg_ptr lg := lg_client_id lg)\<rparr> in
      (case try_resume sm now lg r of
        (r1, resumed) \<Rightarrow>
          if \<not> sent
          then (case resumed of None \<Rightarrow> (r1, None) | Some sess \<Rightarrow> (drop_slot sm (ss_slot sess) r1, None))
          else
            (case resumed of
              Some sess \<Rightarrow>
                (r1, Some \<lparr>ct_client = ss_client sess, ct_run_id = lg_run_id lg, ct_slot = ss_slot sess\<rparr>)
            | None \<Rightarrow>
                (case reg_insert sm (fresh_client lg) r1 of
                   (r2, None) \<Rightarrow> (r2, None)
                 | (r2, Some p) \<Rightarrow>
                     (r2, Some \<lparr>ct_client = fresh_client lg, ct_run_id = lg_run_id lg, ct_slot = Some p\<rparr>)))))"

text \<open>The connection is dropped: its guard removes the client, then its permit goes.\<close>

definition guard_exit :: "'s semaphore \<Rightarrow> control \<Rightarrow> 's registry \<Rightarrow> 's registry" where
  "guard_exit sm ct r = drop_slot sm (ct_slot ct) (fst (reg_remove (ct_run_id ct) r))"

text \<open>The loop ends by itself. \<open>resumable\<close>: the end was passive and the resume was negotiated.\<close>

definition control_end ::
  "'s semaphore \<Rightarrow> instant \<Rightarrow> connection_id \<Rightarrow> duration \<Rightarrow> bool \<Rightarrow> control \<Rightarrow> 's registry \<Rightarrow> 's registry" where
  "control_end sm now sid ttl resumable ct r =
     (if resumable \<and> cr_ptr (ct_client ct) \<notin> rg_stopped r then
        (case reg_detach (ct_run_id ct) r of
          (r1, None) \<Rightarrow> guard_exit sm ct r1
        | (r1, Some c) \<Rightarrow>
            let entry = \<lparr>ss_client = c, ss_slot = ct_slot ct, ss_run_id = ct_run_id ct,
                         ss_user = cr_user (ct_client ct),
                         ss_client_id = rg_client_id r1 (cr_ptr (ct_client ct)),
                         ss_expires = now + ttl\<rparr>
            in (case reg_suspend sm now sid entry r1 of
                 (r2, True) \<Rightarrow> r2
               | (r2, False) \<Rightarrow> guard_exit sm (ct\<lparr>ct_slot := None\<rparr>) r2))
      else guard_exit sm ct r)"

section \<open>The server as a step relation\<close>

record 's server =
  sv_reg :: "'s registry"
  sv_running :: "control list"
  sv_used :: "nat set"
  sv_run_ids :: "string set"

definition server_init :: "'s semaphore \<Rightarrow> nat \<Rightarrow> 's server" where
  "server_init sm m = \<lparr>sv_reg = registry_new sm m, sv_running = [], sv_used = {}, sv_run_ids = {}\<rparr>"

text \<open>Run ids and addresses of clients are new at each login. \<open>reliable\<close> excludes logins whose
  frames cannot be sent.\<close>

inductive serve_step :: "'s semaphore \<Rightarrow> bool \<Rightarrow> 's server \<Rightarrow> 's server \<Rightarrow> bool" for sm reliable where
  Login: "lg_ptr lg \<notin> sv_used w \<Longrightarrow> lg_run_id lg \<notin> sv_run_ids w \<Longrightarrow> (reliable \<longrightarrow> sent) \<Longrightarrow>
     control_login sm now lg sent (sv_reg w) = (r, ct) \<Longrightarrow>
     serve_step sm reliable w
       \<lparr>sv_reg = r, sv_running = (case ct of None \<Rightarrow> sv_running w | Some c \<Rightarrow> c # sv_running w),
        sv_used = insert (lg_ptr lg) (sv_used w), sv_run_ids = insert (lg_run_id lg) (sv_run_ids w)\<rparr>"
| Failed: "ct \<in> set (sv_running w) \<Longrightarrow>
     serve_step sm reliable w
       (w\<lparr>sv_reg := guard_exit sm ct (sv_reg w), sv_running := remove1 ct (sv_running w)\<rparr>)"
| Ended: "ct \<in> set (sv_running w) \<Longrightarrow>
     serve_step sm reliable w
       (w\<lparr>sv_reg := control_end sm now sid ttl resumable ct (sv_reg w),
          sv_running := remove1 ct (sv_running w)\<rparr>)"
| Swept: "serve_step sm reliable w (w\<lparr>sv_reg := fst (sweep_suspended sm now (sv_reg w))\<rparr>)"
| Kicked: "ct \<in> set (sv_running w) \<Longrightarrow>
     serve_step sm reliable w
       (w\<lparr>sv_reg := (sv_reg w)\<lparr>rg_stopped := insert (cr_ptr (ct_client ct)) (rg_stopped (sv_reg w))\<rparr>\<rparr>)"
| Registered: "ct \<in> set (sv_running w) \<Longrightarrow>
     reserve_port (rg_rid (sv_reg w)) (rg_ports (sv_reg w)) p g k name (ct_client ct) = (ps, res) \<Longrightarrow>
     serve_step sm reliable w (w\<lparr>sv_reg := (sv_reg w)\<lparr>rg_ports := ps\<rparr>\<rparr>)"
| Released: "ct \<in> set (sv_running w) \<Longrightarrow>
     serve_step sm reliable w
       (w\<lparr>sv_reg := (sv_reg w)\<lparr>rg_ports := fst (release_port (rg_rid (sv_reg w)) (rg_ports (sv_reg w)) p (ct_client ct) name)\<rparr>\<rparr>)"

inductive reachable :: "'s semaphore \<Rightarrow> bool \<Rightarrow> nat \<Rightarrow> 's server \<Rightarrow> bool" for sm reliable m where
  Start: "reachable sm reliable m (server_init sm m)"
| Step: "reachable sm reliable m w \<Longrightarrow> serve_step sm reliable w w' \<Longrightarrow> reachable sm reliable m w'"

inductive_cases serve_stepE: "serve_step sm reliable w w'"

section \<open>Lemmas: the values of a finite map\<close>

definition fm_values :: "('k, 'v) fmap \<Rightarrow> 'v multiset" where
  "fm_values m = image_mset (\<lambda>k. the (fmlookup m k)) (mset_set (fset (fmdom m)))"

lemma fm_values_empty [simp]: "fm_values fmempty = {#}"
  by (simp add: fm_values_def)

lemma fm_values_upd: "fmlookup m k = None \<Longrightarrow> fm_values (fmupd k v m) = add_mset v (fm_values m)"
proof -
  assume "fmlookup m k = None"
  then have "k \<notin> fset (fmdom m)" by (simp add: fmlookup_dom_iff)
  then show ?thesis by (auto simp: fm_values_def intro!: image_mset_cong)
qed

lemma fm_values_drop:
  assumes "fmlookup m k = Some v"
  shows "fm_values m = add_mset v (fm_values (fmdrop k m))"
proof -
  have "fmupd k v (fmdrop k m) = m" using assms by (intro fmap_ext) auto
  then show ?thesis using fm_values_upd [of "fmdrop k m" k v] by simp
qed

lemma mset_expired:
  "mset (expired_sessions now g) = filter_mset (\<lambda>e. \<not> susp_alive e now) (fm_values g)"
proof -
  have "mset (sorted_list_of_fset (fmdom g)) = mset_set (fset (fmdom g))"
    using mset_set_set [of "sorted_list_of_set (fset (fmdom g))"] by (simp add: sorted_list_of_fset.rep_eq)
  then show ?thesis by (simp add: expired_sessions_def fm_values_def)
qed

lemma fm_values_prune: "fm_values (prune susp_alive now g) = filter_mset (\<lambda>e. susp_alive e now) (fm_values g)"
proof -
  have d: "fset (fmdom (prune susp_alive now g)) = {k \<in> fset (fmdom g). susp_alive (the (fmlookup g k)) now}"
    by (auto simp: prune_lookup live_def fmlookup_dom_iff split: option.splits if_splits)
  have "fm_values (prune susp_alive now g)
      = image_mset (\<lambda>k. the (fmlookup (prune susp_alive now g) k))
          (filter_mset (\<lambda>k. susp_alive (the (fmlookup g k)) now) (mset_set (fset (fmdom g))))"
    by (simp add: fm_values_def d filter_mset_mset_set)
  also have "\<dots> = image_mset (\<lambda>k. the (fmlookup g k))
          (filter_mset (\<lambda>k. susp_alive (the (fmlookup g k)) now) (mset_set (fset (fmdom g))))"
    by (rule image_mset_cong) (auto simp: prune_lookup live_def fmlookup_dom_iff simp del: filter_mset_mset_set)
  finally show ?thesis by (simp add: fm_values_def filter_mset_image_mset comp_def)
qed

lemma fm_values_sweep: "fm_values g = fm_values (prune susp_alive now g) + mset (expired_sessions now g)"
  unfolding fm_values_prune mset_expired by (rule multiset_partition)

section \<open>Lemmas: every client is accounted for\<close>

definition holders :: "control list \<Rightarrow> suspended multiset \<Rightarrow> nat multiset" where
  "holders cs E = mset (map (\<lambda>ct. cr_ptr (ct_client ct)) cs) + image_mset (\<lambda>e. cr_ptr (ss_client e)) E"

definition slot_ok :: "nat \<Rightarrow> permit option \<Rightarrow> bool" where
  "slot_ok m s \<longleftrightarrow> (\<exists>p. s = Some p \<and> (p = Unlimited \<longleftrightarrow> m = 0))"

definition backed_by :: "ports \<Rightarrow> nat multiset \<Rightarrow> bool" where
  "backed_by ps H \<longleftrightarrow>
     (\<forall>p pg b. fmlookup (po_groups ps) p = Some pg \<longrightarrow> b \<in> set (pg_members pg) \<longrightarrow> cr_ptr (be_client b) \<in># H)"

definition online_ok :: "'s registry \<Rightarrow> control list \<Rightarrow> bool" where
  "online_ok r cs \<longleftrightarrow>
     (\<forall>k c. fmlookup (rg_clients r) k = Some c \<longleftrightarrow> (\<exists>ct\<in>set cs. ct_run_id ct = k \<and> ct_client ct = c))
     \<and> distinct (map ct_run_id cs) \<and> rg_active r = int (length cs)"

definition acct ::
  "'s semaphore \<Rightarrow> nat \<Rightarrow> nat set \<Rightarrow> string set \<Rightarrow> 's registry \<Rightarrow> control list \<Rightarrow> suspended multiset \<Rightarrow> bool" where
  "acct sm m used rids r cs E \<longleftrightarrow>
     online_ok r cs \<and> ct_run_id ` set cs \<subseteq> rids
     \<and> (\<forall>p. count (holders cs E) p \<le> 1) \<and> set_mset (holders cs E) \<subseteq> used
     \<and> limit_held sm (rg_client_limit r) m (length cs + size E)
     \<and> (\<forall>ct\<in>set cs. slot_ok m (ct_slot ct)) \<and> (\<forall>e\<in>#E. slot_ok m (ss_slot e))
     \<and> backed_by (rg_ports r) (holders cs E)"

lemma acct_mono:
  "acct sm m used rids r cs E \<Longrightarrow> used \<subseteq> used' \<Longrightarrow> rids \<subseteq> rids' \<Longrightarrow> acct sm m used' rids' r cs E"
  by (auto simp: acct_def)

lemma acct_cong:
  "rg_clients r' = rg_clients r \<Longrightarrow> rg_active r' = rg_active r \<Longrightarrow> rg_client_limit r' = rg_client_limit r \<Longrightarrow>
     backed_by (rg_ports r') (holders cs E) \<Longrightarrow> acct sm m used rids r cs E \<Longrightarrow> acct sm m used rids r' cs E"
  by (simp add: acct_def online_ok_def)

lemma acct_ports:
  "acct sm m used rids r cs E \<Longrightarrow> backed_by ps (holders cs E) \<Longrightarrow> acct sm m used rids (r\<lparr>rg_ports := ps\<rparr>) cs E"
  by (simp add: acct_def online_ok_def)

lemma acct_backed: "acct sm m used rids r cs E \<Longrightarrow> backed_by (rg_ports r) (holders cs E)"
  by (simp add: acct_def)

lemma holders_simps [simp]:
  "holders (ct # cs) E = add_mset (cr_ptr (ct_client ct)) (holders cs E)"
  "holders cs (add_mset e E) = add_mset (cr_ptr (ss_client e)) (holders cs E)"
  by (simp_all add: holders_def)

lemma holders_remove1:
  assumes "ct \<in> set cs"
  shows "holders cs E = add_mset (cr_ptr (ct_client ct)) (holders (remove1 ct cs) E)"
proof -
  have "image_mset f (mset cs) = add_mset (f ct) (image_mset f (mset (remove1 ct cs)))" for f :: "control \<Rightarrow> nat"
    using assms by (metis image_mset_add_mset insert_DiffM mset_remove1 set_mset_mset)
  then show ?thesis by (simp add: holders_def)
qed

lemma release_all_members:
  assumes "fmlookup (po_groups (fst (release_ports_of rid ps c))) p = Some pg" "b \<in> set (pg_members pg)"
  shows "cr_ptr (be_client b) \<noteq> cr_ptr c
     \<and> (\<exists>old. fmlookup (po_groups ps) p = Some old \<and> b \<in> set (pg_members old))"
  using assms
  by (auto simp: release_ports_of_def Let_def pg_remove_all_of_def same_client_def split: option.splits if_splits)

lemma backed_by_cleanup:
  assumes "backed_by ps (add_mset (cr_ptr c) H)"
  shows "backed_by (fst (release_ports_of rid ps c)) H"
  using assms release_all_members [of rid ps c] unfolding backed_by_def by fastforce

lemma acct_reclaim:
  assumes "sem_ok sm" "acct sm m used rids r cs (add_mset e E)"
  shows "acct sm m used rids (reclaim_suspended sm e r) cs E"
proof -
  obtain p where p: "ss_slot e = Some p" "p = Unlimited \<longleftrightarrow> m = 0"
    using assms(2) by (auto simp: acct_def slot_ok_def)
  have "limit_held sm (permit_drop sm p (rg_client_limit r)) m (length cs + size E)"
    using assms(2) p(2) by (intro limit_held_drop [OF assms(1)]) (simp_all add: acct_def)
  moreover have "backed_by (fst (release_ports_of (rg_rid r) (rg_ports r) (ss_client e))) (holders cs E)"
    using assms(2) by (intro backed_by_cleanup) (simp add: acct_def)
  moreover have "count (holders cs E) q \<le> 1" for q
  proof -
    have "count (add_mset (cr_ptr (ss_client e)) (holders cs E)) q \<le> 1"
      using assms(2) unfolding acct_def by (simp del: count_add_mset)
    then show ?thesis by (simp split: if_splits)
  qed
  ultimately show ?thesis
    using assms(2) p(1)
    by (auto simp: acct_def online_ok_def reclaim_suspended_def cleanup_client_def drop_slot_def)
qed

lemma reclaim_suspended_table [simp]:
  "rg_suspended (reclaim_suspended sm e r) = rg_suspended r"
  by (auto simp: reclaim_suspended_def cleanup_client_def drop_slot_def split: option.splits)

lemma acct_reclaim_all:
  assumes "sem_ok sm"
  shows "acct sm m used rids r cs (E + mset es) \<Longrightarrow>
     acct sm m used rids (foldl (\<lambda>r e. reclaim_suspended sm e r) r es) cs E"
proof (induction es arbitrary: r)
  case (Cons e es)
  then show ?case using acct_reclaim [OF assms, of m used rids r cs e "E + mset es"] by simp
qed simp

lemma foldl_reclaim_table [simp]:
  "rg_suspended (foldl (\<lambda>r e. reclaim_suspended sm e r) r es) = rg_suspended r"
  by (induction es arbitrary: r) simp_all

abbreviation acct_now ::
  "'s semaphore \<Rightarrow> nat \<Rightarrow> nat set \<Rightarrow> string set \<Rightarrow> 's registry \<Rightarrow> control list \<Rightarrow> bool" where
  "acct_now sm m used rids r cs \<equiv> acct sm m used rids r cs (fm_values (rg_suspended r))"

lemma acct_table [simp]:
  "acct sm m used rids (r\<lparr>rg_suspended := g\<rparr>) cs E = acct sm m used rids r cs E"
  by (simp add: acct_def online_ok_def)

lemma acct_sweep:
  assumes "sem_ok sm" "acct sm m used rids r cs (F + fm_values (rg_suspended r))"
  shows "acct sm m used rids (fst (sweep_suspended sm now r)) cs
           (F + fm_values (rg_suspended (fst (sweep_suspended sm now r))))"
proof -
  let ?g = "prune susp_alive now (rg_suspended r)" and ?es = "expired_sessions now (rg_suspended r)"
  have "acct sm m used rids (r\<lparr>rg_suspended := ?g\<rparr>) cs (F + fm_values ?g + mset ?es)"
    using assms(2) fm_values_sweep [of "rg_suspended r" now] by (simp add: add.assoc)
  from acct_reclaim_all [OF assms(1) this] show ?thesis
    by (simp add: sweep_suspended_def Let_def)
qed

lemma acct_suspend:
  assumes "sem_ok sm" "acct sm m used rids r cs (add_mset entry (fm_values (rg_suspended r)))"
  shows "acct_now sm m used rids (fst (reg_suspend sm now sid entry r)) cs"
proof -
  define r1 where "r1 = fst (sweep_suspended sm now r)"
  have a: "acct sm m used rids r1 cs (add_mset entry (fm_values (rg_suspended r1)))"
    using acct_sweep [OF assms(1), of m used rids r cs "{#entry#}"] assms(2) by (simp add: r1_def)
  show ?thesis
  proof (cases "fmlookup (rg_suspended r1) sid")
    case None
    then show ?thesis using a fm_values_upd [OF None] by (simp add: reg_suspend_def r1_def [symmetric])
  next
    case (Some old)
    have "fm_values (rg_suspended r1) = add_mset old (fm_values (fmdrop sid (rg_suspended r1)))"
      by (rule fm_values_drop [OF Some])
    then have "cr_ptr (ss_client old) \<noteq> cr_ptr (ss_client entry)"
      using a by (auto simp: acct_def dest: spec [of _ "cr_ptr (ss_client entry)"])
    then show ?thesis
      using Some acct_reclaim [OF assms(1) a] by (simp add: reg_suspend_def r1_def [symmetric])
  qed
qed

lemma acct_take:
  assumes "sem_ok sm" "acct_now sm m used rids r cs" "take_suspended_if sm now sid u c r = (r', res)"
  shows "acct sm m used rids r' cs
     (case res of None \<Rightarrow> fm_values (rg_suspended r') | Some e \<Rightarrow> add_mset e (fm_values (rg_suspended r')))"
proof (cases "fmlookup (rg_suspended r) sid")
  case None
  then show ?thesis using assms(2,3) by (auto simp: take_suspended_if_def)
next
  case (Some e)
  have a: "acct sm m used rids (r\<lparr>rg_suspended := fmdrop sid (rg_suspended r)\<rparr>) cs
      (add_mset e (fm_values (fmdrop sid (rg_suspended r))))"
    using assms(2) fm_values_drop [OF Some] by simp
  show ?thesis
  proof (cases "ss_expires e \<le> now")
    case True
    then have "res = None" "r' = reclaim_suspended sm e (r\<lparr>rg_suspended := fmdrop sid (rg_suspended r)\<rparr>)"
      using Some assms(3) by (simp_all add: take_suspended_if_def)
    then show ?thesis using acct_reclaim [OF assms(1) a] by simp
  next
    case late: False
    show ?thesis
    proof (cases "ss_user e = u \<and> ss_client_id e = c")
      case True
      then have "res = Some e" "r' = r\<lparr>rg_suspended := fmdrop sid (rg_suspended r)\<rparr>"
        using Some late assms(3) by (simp_all add: take_suspended_if_def)
      then show ?thesis using a by simp
    next
      case False
      then have "res = None" "r' = r" using Some late assms(3) by (simp_all add: take_suspended_if_def)
      then show ?thesis using assms(2) by simp
    qed
  qed
qed

lemma online_lookup:
  "online_ok r cs \<Longrightarrow> ct \<in> set cs \<Longrightarrow> fmlookup (rg_clients r) (ct_run_id ct) = Some (ct_client ct)"
  by (auto simp: online_ok_def)

lemma online_remove:
  assumes "online_ok r cs" "ct \<in> set cs"
  shows "online_ok (r\<lparr>rg_clients := fmdrop (ct_run_id ct) (rg_clients r), rg_active := rg_active r - 1\<rparr>) (remove1 ct cs)"
proof -
  have d: "distinct (map ct_run_id cs)" using assms(1) by (simp add: online_ok_def)
  then have dc: "distinct cs" by (simp add: distinct_map)
  have "ct' = ct" if "ct' \<in> set cs" "ct_run_id ct' = ct_run_id ct" for ct'
    using d that assms(2) by (auto simp: distinct_map dest: inj_onD)
  moreover have "distinct (map ct_run_id (remove1 ct cs))"
    using d dc by (auto simp: distinct_map intro: inj_on_subset)
  moreover have "int (length (remove1 ct cs)) = int (length cs) - 1"
    using assms(2) length_pos_if_in_set [OF assms(2)] by (simp add: length_remove1 of_nat_diff Suc_le_eq)
  ultimately show ?thesis
    using assms dc by (auto simp: online_ok_def)
qed

lemma reg_detach_online:
  assumes "online_ok r cs" "ct \<in> set cs"
  shows "reg_detach (ct_run_id ct) r
    = (r\<lparr>rg_clients := fmdrop (ct_run_id ct) (rg_clients r), rg_active := rg_active r - 1\<rparr>, Some (ct_client ct))"
  using online_lookup [OF assms] by (simp add: reg_detach_def)

lemma acct_detach:
  assumes "acct sm m used rids r cs E" "ct \<in> set cs" "ss_client e = ct_client ct" "ss_slot e = ct_slot ct"
  shows "acct sm m used rids (fst (reg_detach (ct_run_id ct) r)) (remove1 ct cs) (add_mset e E)"
proof -
  have on: "online_ok r cs" using assms(1) by (simp add: acct_def)
  have h: "holders (remove1 ct cs) (add_mset e E) = holders cs E"
    using holders_remove1 [OF assms(2), of E] assms(3) by simp
  have "Suc (length (remove1 ct cs)) = length cs"
    using assms(2) length_pos_if_in_set [OF assms(2)] by (simp add: length_remove1)
  then have n: "length (remove1 ct cs) + size (add_mset e E) = length cs + size E" by simp
  show ?thesis
    using assms online_remove [OF on assms(2)] set_remove1_subset [of ct cs]
    unfolding acct_def h n reg_detach_online [OF on assms(2)] by auto
qed

lemma guard_exit_reclaim:
  assumes "online_ok r cs" "ct \<in> set cs" "ss_client e = ct_client ct" "ss_slot e = ct_slot ct"
  shows "guard_exit sm ct r = reclaim_suspended sm e (fst (reg_detach (ct_run_id ct) r))"
  using assms online_lookup [OF assms(1,2)]
  by (simp add: guard_exit_def reclaim_suspended_def reg_remove_def reg_detach_def)

definition entry_of :: "control \<Rightarrow> suspended" where
  "entry_of ct = \<lparr>ss_client = ct_client ct, ss_slot = ct_slot ct, ss_run_id = [], ss_user = [],
                  ss_client_id = [], ss_expires = 0\<rparr>"

lemma reg_detach_table [simp]: "rg_suspended (fst (reg_detach k r)) = rg_suspended r"
  by (simp add: reg_detach_def split: option.splits)

lemma acct_guard_exit:
  assumes "sem_ok sm" "acct_now sm m used rids r cs" "ct \<in> set cs"
  shows "acct_now sm m used rids (guard_exit sm ct r) (remove1 ct cs)"
proof -
  have on: "online_ok r cs" using assms(2) by (simp add: acct_def)
  have e: "guard_exit sm ct r = reclaim_suspended sm (entry_of ct) (fst (reg_detach (ct_run_id ct) r))"
    by (rule guard_exit_reclaim [OF on assms(3)]) (simp_all add: entry_of_def)
  have "acct sm m used rids (fst (reg_detach (ct_run_id ct) r)) (remove1 ct cs)
      (add_mset (entry_of ct) (fm_values (rg_suspended r)))"
    by (rule acct_detach [OF assms(2,3)]) (simp_all add: entry_of_def)
  from acct_reclaim [OF assms(1) this] show ?thesis by (simp add: e)
qed

lemma clients_fields [simp]:
  "rg_clients (reclaim_suspended sm e r) = rg_clients r"
  "rg_clients (foldl (\<lambda>r e. reclaim_suspended sm e r) r es) = rg_clients r"
  "rg_clients (fst (sweep_suspended sm now r)) = rg_clients r"
  "rg_clients (fst (reg_suspend sm now sid entry r)) = rg_clients r"
proof -
  show c: "rg_clients (reclaim_suspended sm e r) = rg_clients r" for e r
    by (simp add: reclaim_suspended_def cleanup_client_def drop_slot_def split: option.splits)
  show f: "rg_clients (foldl (\<lambda>r e. reclaim_suspended sm e r) r es) = rg_clients r" for r es
    by (induction es arbitrary: r) (simp_all add: c)
  show s: "rg_clients (fst (sweep_suspended sm now r)) = rg_clients r" for r
    by (simp add: sweep_suspended_def Let_def f)
  show "rg_clients (fst (reg_suspend sm now sid entry r)) = rg_clients r"
    by (simp add: reg_suspend_def Let_def s c drop_slot_def split: option.splits)
qed

lemma acct_end:
  assumes "sem_ok sm" "acct_now sm m used rids r cs" "ct \<in> set cs"
  shows "acct_now sm m used rids (control_end sm now sid ttl resumable ct r) (remove1 ct cs)"
proof (cases "resumable \<and> cr_ptr (ct_client ct) \<notin> rg_stopped r")
  case False
  then have "control_end sm now sid ttl resumable ct r = guard_exit sm ct r" by (auto simp: control_end_def)
  then show ?thesis using acct_guard_exit [OF assms] by simp
next
  case True
  define r1 where "r1 = fst (reg_detach (ct_run_id ct) r)"
  have on: "online_ok r cs" using assms(2) by (simp add: acct_def)
  have det: "reg_detach (ct_run_id ct) r = (r1, Some (ct_client ct))"
    using reg_detach_online [OF on assms(3)] by (simp add: r1_def)
  let ?e = "\<lparr>ss_client = ct_client ct, ss_slot = ct_slot ct, ss_run_id = ct_run_id ct,
     ss_user = cr_user (ct_client ct), ss_client_id = rg_client_id r1 (cr_ptr (ct_client ct)), ss_expires = now + ttl\<rparr>"
  have tab: "rg_suspended r1 = rg_suspended r" unfolding r1_def by (rule reg_detach_table)
  have "acct sm m used rids (fst (reg_detach (ct_run_id ct) r)) (remove1 ct cs) (add_mset ?e (fm_values (rg_suspended r)))"
    by (rule acct_detach [OF assms(2,3)]) simp_all
  then have "acct sm m used rids r1 (remove1 ct cs) (add_mset ?e (fm_values (rg_suspended r1)))"
    by (simp only: tab r1_def [symmetric])
  from acct_suspend [OF assms(1) this, of now sid]
  have a: "acct_now sm m used rids (fst (reg_suspend sm now sid ?e r1)) (remove1 ct cs)" .
  have "fmlookup (rg_clients r1) (ct_run_id ct) = None"
    using reg_detach_online [OF on assms(3)] by (simp add: r1_def)
  then have "guard_exit sm (ct\<lparr>ct_slot := None\<rparr>) (fst (reg_suspend sm now sid ?e r1))
      = fst (reg_suspend sm now sid ?e r1)"
    by (simp add: guard_exit_def reg_remove_def drop_slot_def)
  then have "control_end sm now sid ttl resumable ct r = fst (reg_suspend sm now sid ?e r1)"
    using True det by (auto simp: control_end_def Let_def split: prod.splits bool.splits)
  then show ?thesis using a by simp
qed

lemma online_add:
  assumes "online_ok r cs" "\<forall>ct'\<in>set cs. ct_run_id ct' \<noteq> k" "ct_run_id ct = k" "ct_client ct = c"
    "rg_clients r' = fmupd k c (rg_clients r)" "rg_active r' = rg_active r + 1"
  shows "online_ok r' (ct # cs)"
  using assms by (auto simp: online_ok_def)

lemma acct_resume:
  assumes "acct sm m used rids r cs (add_mset e E)" "k \<notin> rids"
  shows "acct sm m used (insert k rids) (reg_reattach (ss_client e) (rebind_control (ss_client e) k r))
           (\<lparr>ct_client = ss_client e, ct_run_id = k, ct_slot = ss_slot e\<rparr> # cs) E"
    (is "acct sm m used _ ?r (?ct # cs) E")
proof -
  have "online_ok ?r (?ct # cs)"
    by (rule online_add [of r cs k]) (use assms in \<open>auto simp: acct_def reg_reattach_def rebind_control_def\<close>)
  then show ?thesis using assms by (auto simp: acct_def reg_reattach_def rebind_control_def)
qed

lemma acct_insert:
  assumes "sem_ok sm" "acct sm m used rids r cs E" "cr_ptr c \<notin> used" "k \<notin> rids" "rg_rid r (cr_ptr c) = k"
    "reg_insert sm c r = (r', Some p)"
  shows "acct sm m (insert (cr_ptr c) used) (insert k rids) r'
           (\<lparr>ct_client = c, ct_run_id = k, ct_slot = Some p\<rparr> # cs) E"
    (is "acct sm m _ _ r' (?ct # cs) E")
proof -
  obtain l where l: "limit_try_acquire sm (rg_client_limit r) = (l, Some p)"
    and r': "rg_client_limit r' = l" "rg_clients r' = fmupd k c (rg_clients r)" "rg_active r' = rg_active r + 1"
      "rg_ports r' = rg_ports r"
    using assms(5,6) by (auto simp: reg_insert_def split: prod.splits option.splits)
  have held: "limit_held sm l m (Suc (length cs + size E)) \<and> (p = Unlimited \<longleftrightarrow> m = 0)"
    using assms(2) by (intro limit_held_acquire [OF assms(1) _ l]) (simp add: acct_def)
  have on: "online_ok r' (?ct # cs)"
    by (rule online_add [of r cs k]) (use assms r' in \<open>auto simp: acct_def\<close>)
  have new: "cr_ptr c \<notin># holders cs E" using assms(2,3) by (auto simp: acct_def)
  have "count (holders (?ct # cs) E) q \<le> 1" for q
    using new assms(2) by (auto simp: acct_def not_in_iff)
  moreover have "backed_by (rg_ports r') (holders (?ct # cs) E)"
    using assms(2) r'(4) by (auto simp: acct_def backed_by_def)
  ultimately show ?thesis
    using assms(2) held on r'(1) by (auto simp: acct_def slot_ok_def)
qed

lemma reg_insert_table [simp]: "rg_suspended (fst (reg_insert sm c r)) = rg_suspended r"
  by (simp add: reg_insert_def split: prod.splits option.splits)

lemma reg_insert_none:
  assumes "sem_ok sm" "acct sm m used rids r cs E" "reg_insert sm c r = (r', None)"
  shows "r' = r"
proof -
  have "limit_held sm (rg_client_limit r) m (length cs + size E)" using assms(2) by (simp add: acct_def)
  then show ?thesis
    using assms(3) limit_held_refuse [OF assms(1)]
    by (fastforce simp: reg_insert_def split: prod.splits option.splits)
qed

lemma take_suspended_if_same:
  assumes "take_suspended_if sm now sid u c r = (r', Some e)"
  shows "rg_suspended r' = fmdrop sid (rg_suspended r) \<and> fmlookup (rg_suspended r) sid = Some e
     \<and> ss_user e = u \<and> ss_client_id e = c \<and> ss_expires e > now"
  using assms by (auto simp: take_suspended_if_def split: option.splits if_splits)

lemma rid_fields [simp]:
  "rg_rid (reclaim_suspended sm e r) = rg_rid r"
  "rg_rid (foldl (\<lambda>r e. reclaim_suspended sm e r) r es) = rg_rid r"
  "rg_rid (fst (sweep_suspended sm now r)) = rg_rid r"
  "rg_rid (fst (reg_suspend sm now sid entry r)) = rg_rid r"
  "rg_rid (fst (take_suspended_if sm now sid u c r)) = rg_rid r"
proof -
  show c: "rg_rid (reclaim_suspended sm e r) = rg_rid r" for e r
    by (simp add: reclaim_suspended_def cleanup_client_def drop_slot_def split: option.splits)
  show f: "rg_rid (foldl (\<lambda>r e. reclaim_suspended sm e r) r es) = rg_rid r" for r es
    by (induction es arbitrary: r) (simp_all add: c)
  show s: "rg_rid (fst (sweep_suspended sm now r)) = rg_rid r" for r
    by (simp add: sweep_suspended_def Let_def f)
  show "rg_rid (fst (reg_suspend sm now sid entry r)) = rg_rid r"
    by (simp add: reg_suspend_def Let_def s c drop_slot_def split: option.splits)
  show "rg_rid (fst (take_suspended_if sm now sid u c r)) = rg_rid r"
    by (simp add: take_suspended_if_def c split: option.splits)
qed

lemma acct_try_resume:
  assumes "sem_ok sm" "acct_now sm m used rids r cs" "lg_run_id lg \<notin> rids"
    "try_resume sm now lg r = (r', res)"
  shows "case res of
      None \<Rightarrow> acct_now sm m used rids r' cs \<and> rg_rid r' = rg_rid r
    | Some e \<Rightarrow> acct_now sm m used (insert (lg_run_id lg) rids) r'
                  (\<lparr>ct_client = ss_client e, ct_run_id = lg_run_id lg, ct_slot = ss_slot e\<rparr> # cs)"
proof (cases "lg_resume lg \<and> lg_token_ok lg")
  case False
  then show ?thesis using assms by (auto simp: try_resume_def)
next
  case True
  obtain r1 t where t: "take_suspended_if sm now (lg_session lg) (lg_user lg) (lg_client_id lg) r = (r1, t)"
    by (cases "take_suspended_if sm now (lg_session lg) (lg_user lg) (lg_client_id lg) r")
  have rid1: "rg_rid r1 = rg_rid r"
    using rid_fields(5) [of sm now "lg_session lg" "lg_user lg" "lg_client_id lg" r] t by simp
  note a = acct_take [OF assms(1,2) t]
  show ?thesis
  proof (cases t)
    case None
    then show ?thesis using True t a rid1 assms(4) by (auto simp: try_resume_def)
  next
    case (Some e)
    then have a1: "acct sm m used rids r1 cs (add_mset e (fm_values (rg_suspended r1)))" using a by simp
    show ?thesis
    proof (cases "lg_same_transport lg \<and> cr_ptr (ss_client e) \<notin> rg_stopped r1")
      case same: True
      have "res = Some e" "r' = reg_reattach (ss_client e) (rebind_control (ss_client e) (lg_run_id lg) r1)"
        using True t Some same assms(4) by (auto simp: try_resume_def)
      then show ?thesis
        using acct_resume [OF a1 assms(3)] by (simp add: reg_reattach_def rebind_control_def)
    next
      case False
      then have "res = None" "r' = fst (reg_suspend sm now (lg_session lg) e r1)"
        using True t Some assms(4) by (auto simp: try_resume_def)
      then show ?thesis using acct_suspend [OF assms(1) a1, of now "lg_session lg"] rid1 by simp
    qed
  qed
qed

lemma acct_login:
  assumes "sem_ok sm" "acct_now sm m used rids r cs" "lg_ptr lg \<notin> used" "lg_run_id lg \<notin> rids"
    "control_login sm now lg True r = (r', ct)"
  shows "acct_now sm m (insert (lg_ptr lg) used) (insert (lg_run_id lg) rids) r'
           (case ct of None \<Rightarrow> cs | Some c \<Rightarrow> c # cs)"
proof -
  define r0 where "r0 = r\<lparr>rg_rid := (rg_rid r)(lg_ptr lg := lg_run_id lg),
      rg_client_id := (rg_client_id r)(lg_ptr lg := lg_client_id lg)\<rparr>"
  have a0: "acct_now sm m used rids r0 cs"
    by (rule acct_cong [where r = r]) (use assms(2) in \<open>simp_all add: r0_def acct_backed\<close>)
  obtain r1 res where t: "try_resume sm now lg r0 = (r1, res)" by (cases "try_resume sm now lg r0")
  note a1 = acct_try_resume [OF assms(1) a0 assms(4) t]
  have login: "(r', ct) = (case res of
        Some sess \<Rightarrow> (r1, Some \<lparr>ct_client = ss_client sess, ct_run_id = lg_run_id lg, ct_slot = ss_slot sess\<rparr>)
      | None \<Rightarrow> (case reg_insert sm (fresh_client lg) r1 of
                   (r2, None) \<Rightarrow> (r2, None)
                 | (r2, Some p) \<Rightarrow>
                     (r2, Some \<lparr>ct_client = fresh_client lg, ct_run_id = lg_run_id lg, ct_slot = Some p\<rparr>)))"
    unfolding assms(5) [symmetric] control_login_def Let_def r0_def [symmetric] t prod.case by simp
  show ?thesis
  proof (cases res)
    case (Some e)
    then have "r' = r1" "ct = Some \<lparr>ct_client = ss_client e, ct_run_id = lg_run_id lg, ct_slot = ss_slot e\<rparr>"
      using login by simp_all
    moreover have "acct_now sm m used (insert (lg_run_id lg) rids) r1
        (\<lparr>ct_client = ss_client e, ct_run_id = lg_run_id lg, ct_slot = ss_slot e\<rparr> # cs)"
      using a1 Some by simp
    ultimately show ?thesis using acct_mono [OF _ subset_insertI order_refl] by fastforce
  next
    case None
    have a: "acct_now sm m used rids r1 cs" and rid: "rg_rid r1 (lg_ptr lg) = lg_run_id lg"
      using a1 None by (simp_all add: r0_def)
    obtain r2 p where ins: "reg_insert sm (fresh_client lg) r1 = (r2, p)" by (cases "reg_insert sm (fresh_client lg) r1")
    have tab: "rg_suspended r2 = rg_suspended r1" using reg_insert_table [of sm "fresh_client lg" r1] ins by simp
    show ?thesis
    proof (cases p)
      case pn: None
      then have "r' = r2" "ct = None" using login None ins by simp_all
      moreover have "r2 = r1" using reg_insert_none [OF assms(1) a] ins pn by simp
      moreover have "acct_now sm m (insert (lg_ptr lg) used) (insert (lg_run_id lg) rids) r1 cs"
        by (rule acct_mono [OF a subset_insertI subset_insertI])
      ultimately show ?thesis by simp
    next
      case ps: (Some q)
      then have "r' = r2" "ct = Some \<lparr>ct_client = fresh_client lg, ct_run_id = lg_run_id lg, ct_slot = Some q\<rparr>"
        using login None ins by simp_all
      then show ?thesis
        using acct_insert [OF assms(1) a, of "fresh_client lg" "lg_run_id lg" r2 q] assms(3,4) rid ins ps tab
        by (simp add: fresh_client_def)
    qed
  qed
qed

lemma reserve_members:
  assumes "reserve_port rid ps p g k name c = (ps', res)" "fmlookup (po_groups ps') q = Some pg" "b \<in> set (pg_members pg)"
  shows "be_client b = c \<or> (\<exists>old. fmlookup (po_groups ps) q = Some old \<and> b \<in> set (pg_members old))"
  using assms
  by (auto simp: reserve_port_def new_backend_def pg_new_def pg_push_def pg_remove_def Let_def
      split: option.splits if_splits)

lemma release_members:
  assumes "fmlookup (po_groups (fst (release_port rid ps p c name))) q = Some pg" "b \<in> set (pg_members pg)"
  shows "\<exists>old. fmlookup (po_groups ps) q = Some old \<and> b \<in> set (pg_members old)"
  using assms by (auto simp: release_port_def pg_remove_def Let_def split: option.splits if_splits)

abbreviation server_ok :: "'s semaphore \<Rightarrow> nat \<Rightarrow> 's server \<Rightarrow> bool" where
  "server_ok sm m w \<equiv> acct_now sm m (sv_used w) (sv_run_ids w) (sv_reg w) (sv_running w)"

lemma server_ok_step:
  assumes "serve_step sm True w w'" "sem_ok sm" "server_ok sm m w"
  shows "server_ok sm m w'"
  using assms(1)
proof cases
  case (Login lg sent now r ct)
  then show ?thesis using acct_login [OF assms(2,3), of lg now r ct] by simp
next
  case (Failed ct)
  then show ?thesis using acct_guard_exit [OF assms(2,3)] by simp
next
  case (Ended ct now sid ttl resumable)
  then show ?thesis using acct_end [OF assms(2,3)] by simp
next
  case (Swept now)
  then show ?thesis
    using acct_sweep [OF assms(2), of m "sv_used w" "sv_run_ids w" "sv_reg w" "sv_running w" "{#}" now] assms(3) by simp
next
  case (Kicked ct)
  have "acct_now sm m (sv_used w) (sv_run_ids w)
      ((sv_reg w)\<lparr>rg_stopped := insert (cr_ptr (ct_client ct)) (rg_stopped (sv_reg w))\<rparr>) (sv_running w)"
    by (rule acct_cong [where r = "sv_reg w"]) (use assms(3) in \<open>simp_all add: acct_backed\<close>)
  then show ?thesis using Kicked by simp
next
  case (Registered ct p g k name ps res)
  have "cr_ptr (ct_client ct) \<in># holders (sv_running w) (fm_values (rg_suspended (sv_reg w)))"
    using Registered(2) by (auto simp: holders_def)
  then have "backed_by ps (holders (sv_running w) (fm_values (rg_suspended (sv_reg w))))"
    using acct_backed [OF assms(3)] reserve_members [OF Registered(3)] unfolding backed_by_def by fastforce
  then have "acct_now sm m (sv_used w) (sv_run_ids w) ((sv_reg w)\<lparr>rg_ports := ps\<rparr>) (sv_running w)"
    using acct_ports [OF assms(3)] by simp
  then show ?thesis using Registered by simp
next
  case (Released ct p name)
  let ?ps = "fst (release_port (rg_rid (sv_reg w)) (rg_ports (sv_reg w)) p (ct_client ct) name)"
  have "backed_by ?ps (holders (sv_running w) (fm_values (rg_suspended (sv_reg w))))"
    using acct_backed [OF assms(3)] release_members unfolding backed_by_def by fast
  then have "acct_now sm m (sv_used w) (sv_run_ids w) ((sv_reg w)\<lparr>rg_ports := ?ps\<rparr>) (sv_running w)"
    using acct_ports [OF assms(3)] by simp
  then show ?thesis using Released by simp
qed

lemma reachable_ok:
  assumes "reachable sm True m w" "sem_ok sm"
  shows "server_ok sm m w"
  using assms(1)
proof induction
  case Start
  show ?case
    using limit_held_new [OF assms(2), of m]
    by (simp add: server_init_def registry_new_def acct_def online_ok_def holders_def backed_by_def ports_empty_def)
next
  case (Step w w')
  then show ?case using server_ok_step assms(2) by blast
qed

lemma size_fm_values: "size (fm_values m) = fm_len m"
  by (simp add: fm_values_def fm_len_def fcard.rep_eq)

lemma fm_values_elem: "e \<in># fm_values m \<longleftrightarrow> (\<exists>k. fmlookup m k = Some e)"
proof -
  have "e \<in># fm_values m \<longleftrightarrow> (\<exists>k\<in>fset (fmdom m). e = the (fmlookup m k))"
    by (simp add: fm_values_def image_iff)
  then show ?thesis by (force simp: fmlookup_dom_iff)
qed

lemma fmdrop_single [simp]: "fmdrop k (fmupd k v fmempty) = fmempty"
  by (rule fmap_ext) simp

lemma sweep_nothing: "rg_suspended r = fmempty \<Longrightarrow> sweep_suspended sm now r = (r, 0)"
  by (simp add: sweep_suspended_def expired_sessions_def prune_def sorted_list_of_fset.rep_eq)

section \<open>A run\<close>

definition demo_session :: connection_id where "demo_session = ConnectionId (replicate 16 7)"

definition demo_login :: "nat \<Rightarrow> string \<Rightarrow> bool \<Rightarrow> login" where
  "demo_login ptr run resume =
     \<lparr>lg_user = ''alice'', lg_client_id = ''c1'', lg_run_id = run, lg_ptr = ptr, lg_session = demo_session,
      lg_resume = resume, lg_token_ok = True, lg_same_transport = True\<rparr>"

definition demo_online :: "nat server" where
  "demo_online =
     (let (r, ct) = control_login counter_sem 0 (demo_login 1 ''r1'' False) True (registry_new counter_sem 2)
      in \<lparr>sv_reg = r, sv_running = [the ct], sv_used = {1}, sv_run_ids = {''r1''}\<rparr>)"

definition demo_control :: control where
  "demo_control = \<lparr>ct_client = demo_client 1, ct_run_id = ''r1'', ct_slot = Some Counted\<rparr>"

definition demo_served :: "nat server" where
  "demo_served = demo_online\<lparr>sv_reg := (sv_reg demo_online)\<lparr>rg_ports :=
     fst (reserve_port (rg_rid (sv_reg demo_online)) (rg_ports (sv_reg demo_online)) 80 [] [] ''a'' (demo_client 1))\<rparr>\<rparr>"

definition demo_waiting :: "nat server" where
  "demo_waiting = demo_served\<lparr>sv_reg := control_end counter_sem 5 demo_session 100 True demo_control (sv_reg demo_served),
     sv_running := []\<rparr>"

lemmas demo_defs = demo_login_def demo_control_def demo_client_def control_login_def try_resume_def reg_insert_def
  registry_new_def limit_new_def limit_try_acquire_def counter_sem_def fresh_client_def

lemma demo_online_eq:
  "sv_running demo_online = [demo_control]" "sv_used demo_online = {1}" "sv_run_ids demo_online = {''r1''}"
  "rg_clients (sv_reg demo_online) = fmupd ''r1'' (demo_client 1) fmempty"
  "rg_suspended (sv_reg demo_online) = fmempty" "rg_stopped (sv_reg demo_online) = {}"
  "rg_ports (sv_reg demo_online) = ports_empty" "rg_client_id (sv_reg demo_online) 1 = ''c1''"
  "rg_client_limit (sv_reg demo_online) = \<lparr>lim_inner = Some 1, lim_max = 2\<rparr>"
  by (simp_all add: demo_online_def demo_defs Let_def)

lemma demo_online_reachable: "reachable counter_sem reliable 2 demo_online"
proof -
  obtain r ct where l: "control_login counter_sem 0 (demo_login 1 ''r1'' False) True (registry_new counter_sem 2) = (r, Some ct)"
    by (simp add: demo_defs Let_def)
  have "serve_step counter_sem reliable (server_init counter_sem 2)
      \<lparr>sv_reg = r, sv_running = [ct], sv_used = {1}, sv_run_ids = {''r1''}\<rparr>"
    using serve_step.Login [of "demo_login 1 ''r1'' False" "server_init counter_sem 2" reliable True counter_sem 0 r "Some ct"] l
    by (simp add: server_init_def demo_login_def)
  then show ?thesis
    using reachable.Step [OF reachable.Start] l by (simp add: demo_online_def)
qed

lemma demo_served_reachable: "reachable counter_sem reliable 2 demo_served"
proof (rule reachable.Step [OF demo_online_reachable])
  have c: "demo_control \<in> set (sv_running demo_online)" "ct_client demo_control = demo_client 1"
    by (simp_all add: demo_online_eq demo_control_def)
  obtain ps res where r: "reserve_port (rg_rid (sv_reg demo_online)) (rg_ports (sv_reg demo_online)) 80 [] [] ''a''
      (demo_client 1) = (ps, res)"
    by (cases "reserve_port (rg_rid (sv_reg demo_online)) (rg_ports (sv_reg demo_online)) 80 [] [] ''a'' (demo_client 1)")
  show "serve_step counter_sem reliable demo_online demo_served"
    using serve_step.Registered [OF c(1), of 80 "[]" "[]" "''a''" ps res counter_sem reliable] c(2) r
    by (simp add: demo_served_def)
qed

lemma demo_waiting_reachable: "reachable counter_sem reliable 2 demo_waiting"
proof (rule reachable.Step [OF demo_served_reachable])
  have c: "demo_control \<in> set (sv_running demo_served)"
    by (simp add: demo_served_def demo_online_eq)
  show "serve_step counter_sem reliable demo_served demo_waiting"
    using serve_step.Ended [OF c, of counter_sem reliable 5 demo_session 100 True]
    by (simp add: demo_waiting_def demo_served_def demo_online_eq)
qed

lemma demo_waiting_eq:
  "fmlookup (rg_suspended (sv_reg demo_waiting)) demo_session =
     Some \<lparr>ss_client = demo_client 1, ss_slot = Some Counted, ss_run_id = ''r1'', ss_user = ''alice'',
           ss_client_id = ''c1'', ss_expires = 105\<rparr>"
  "fmdrop demo_session (rg_suspended (sv_reg demo_waiting)) = fmempty"
  "rg_clients (sv_reg demo_waiting) = fmempty" "rg_stopped (sv_reg demo_waiting) = {}"
  "rg_client_limit (sv_reg demo_waiting) = \<lparr>lim_inner = Some 1, lim_max = 2\<rparr>"
  "sv_used demo_waiting = {1}" "sv_run_ids demo_waiting = {''r1''}" "sv_running demo_waiting = []"
  "rg_ports (sv_reg demo_waiting) = fst (reserve_port (rg_rid (sv_reg demo_online)) ports_empty 80 [] [] ''a'' (demo_client 1))"
  by (simp_all add: demo_waiting_def demo_served_def demo_online_eq control_end_def demo_control_def demo_client_def
      reg_detach_def reg_suspend_def sweep_nothing Let_def del: One_nat_def)

definition demo_lost :: "nat server" where
  "demo_lost = \<lparr>sv_reg = fst (control_login counter_sem 10 (demo_login 2 ''r2'' True) False (sv_reg demo_waiting)),
     sv_running = [], sv_used = {2, 1}, sv_run_ids = {''r2'', ''r1''}\<rparr>"

lemma demo_lost_login:
  "control_login counter_sem 10 (demo_login 2 ''r2'' True) False (sv_reg demo_waiting) = (sv_reg demo_lost, None)"
  by (simp add: demo_lost_def demo_login_def control_login_def try_resume_def take_suspended_if_def demo_waiting_eq
      Let_def del: One_nat_def)

lemma demo_lost_reachable: "reachable counter_sem False 2 demo_lost"
proof (rule reachable.Step [OF demo_waiting_reachable])
  show "serve_step counter_sem False demo_waiting demo_lost"
    using serve_step.Login [of "demo_login 2 ''r2'' True" demo_waiting False False counter_sem 10, OF _ _ _ demo_lost_login]
    by (simp add: demo_waiting_eq) (simp add: demo_login_def demo_lost_def)
qed

section \<open>Properties\<close>



text \<open>A resume whose reply cannot be sent loses the client. There is a run of the server in
  which no control connection is running and no session is suspended, yet a client stays
  registered and keeps its public port, which no one else can take; its permit is back in the
  quota.\<close>

theorem resume_reply_lost:
  "\<exists>w. reachable counter_sem False 2 w \<and> sv_running w = [] \<and> rg_suspended (sv_reg w) = fmempty
     \<and> fmlookup (rg_clients (sv_reg w)) ''r2'' = Some (demo_client 1)
     \<and> limit_used counter_sem (rg_client_limit (sv_reg w)) = 0
     \<and> snd (reserve_port (rg_rid (sv_reg w)) (rg_ports (sv_reg w)) 80 [] [] ''b'' (demo_client 3)) = Inl HeldExclusively
     \<and> sweep_suspended counter_sem now (sv_reg w) = (sv_reg w, 0)"
proof -
  have r: "rg_suspended (sv_reg demo_lost) = fmempty" "rg_clients (sv_reg demo_lost) = fmupd ''r2'' (demo_client 1) fmempty"
    "rg_client_limit (sv_reg demo_lost) = \<lparr>lim_inner = Some 2, lim_max = 2\<rparr>"
    "rg_ports (sv_reg demo_lost) = fst (reserve_port (rg_rid (sv_reg demo_online)) ports_empty 80 [] [] ''a'' (demo_client 1))"
    by (simp_all add: demo_lost_def demo_login_def control_login_def try_resume_def take_suspended_if_def demo_waiting_eq
        demo_client_def reg_reattach_def rebind_control_def drop_slot_def permit_drop_def counter_sem_def Let_def
        del: One_nat_def)
  have "sweep_suspended counter_sem now (sv_reg demo_lost) = (sv_reg demo_lost, 0)"
    by (rule sweep_nothing [OF r(1)])
  moreover have "snd (reserve_port rid (rg_ports (sv_reg demo_lost)) 80 [] [] ''b'' (demo_client 3)) = Inl HeldExclusively" for rid
    unfolding r(4) by (simp add: reserve_port_def ports_empty_def new_backend_def pg_new_def)
  ultimately show ?thesis
    using demo_lost_reachable r
    by (intro exI [of _ demo_lost]) (simp add: demo_lost_def limit_used_def counter_sem_def)
qed

end
