(* ===== verification/Acl.thy ===== *)
theory Acl
  imports Rust_Net
begin

text \<open>
  The IP access list of \<open>common/src/security.rs\<close>: CIDR rules, their parser and match, and the
  list compiled from the configuration, with the \<open>check_ip\<close> of \<open>server/src/guard.rs\<close> that each
  control connection, work connection and public port asks.
\<close>

section \<open>CIDR rules\<close>

datatype acl_error = BadAddress | BadPrefix | PrefixTooLong

record cidr =
  ci_net :: ip_addr
  ci_bits :: u8

fun ip_bits :: "ip_addr \<Rightarrow> u8" where
  "ip_bits (V4 _) = 32"
| "ip_bits (V6 _) = 128"

definition cidr_parse :: "string \<Rightarrow> acl_error + cidr" where
  "cidr_parse s0 =
     (let s = trim s0;
          (addr_part, bits_part) =
            (case split_once CHR ''/'' s of Some (a, b) \<Rightarrow> (a, Some b) | None \<Rightarrow> (s, None)) in
      res_bind (ok_or BadAddress (parse_ip (trim addr_part))) (\<lambda>net.
        case bits_part of
          None \<Rightarrow> Inr \<lparr>ci_net = net, ci_bits = ip_bits net\<rparr>
        | Some b \<Rightarrow>
            res_bind (ok_or BadPrefix (parse_u8 (trim b))) (\<lambda>v.
              if v > ip_bits net then Inl PrefixTooLong else Inr \<lparr>ci_net = net, ci_bits = v\<rparr>)))"

text \<open>The two families are compared at their own width, and never with each other.\<close>

definition cidr_contains :: "cidr \<Rightarrow> ip_addr \<Rightarrow> bool" where
  "cidr_contains c ip =
     (case (ci_net c, ip) of
        (V4 net, V4 i) \<Rightarrow>
          if ci_bits c = 0 then True
          else let shift = 32 - unat (ci_bits c) in drop_bit shift net = drop_bit shift i
      | (V6 net, V6 i) \<Rightarrow>
          if ci_bits c = 0 then True
          else let shift = 128 - unat (ci_bits c) in drop_bit shift net = drop_bit shift i
      | _ \<Rightarrow> False)"

section \<open>The access list\<close>

record acl_config =
  ac_allow :: "string list"
  ac_deny :: "string list"

record compiled_acl =
  acl_allow :: "cidr list"
  acl_deny :: "cidr list"

definition acl_config_is_empty :: "acl_config \<Rightarrow> bool" where
  "acl_config_is_empty cfg \<longleftrightarrow> ac_allow cfg = [] \<and> ac_deny cfg = []"

fun cidr_parse_all :: "string list \<Rightarrow> acl_error + cidr list" where
  "cidr_parse_all [] = Inr []"
| "cidr_parse_all (s # ss) =
     res_bind (cidr_parse s) (\<lambda>c. res_bind (cidr_parse_all ss) (\<lambda>cs. Inr (c # cs)))"

definition acl_compile :: "acl_config \<Rightarrow> acl_error + compiled_acl" where
  "acl_compile cfg =
     res_bind (cidr_parse_all (ac_allow cfg)) (\<lambda>allow.
     res_bind (cidr_parse_all (ac_deny cfg)) (\<lambda>deny.
       Inr \<lparr>acl_allow = allow, acl_deny = deny\<rparr>))"

definition acl_is_empty :: "compiled_acl \<Rightarrow> bool" where
  "acl_is_empty acl \<longleftrightarrow> acl_allow acl = [] \<and> acl_deny acl = []"

definition acl_permits :: "compiled_acl \<Rightarrow> ip_addr \<Rightarrow> bool" where
  "acl_permits acl ip =
     (if list_ex (\<lambda>c. cidr_contains c ip) (acl_deny acl) then False
      else if acl_allow acl = [] then True
      else list_ex (\<lambda>c. cidr_contains c ip) (acl_allow acl))"

datatype acl_refusal = OnDenyList | NotOnAllowList

definition acl_check :: "compiled_acl \<Rightarrow> ip_addr \<Rightarrow> acl_refusal + unit" where
  "acl_check acl ip =
     (if list_ex (\<lambda>c. cidr_contains c ip) (acl_deny acl) then Inl OnDenyList
      else if acl_allow acl \<noteq> [] \<and> \<not> list_ex (\<lambda>c. cidr_contains c ip) (acl_allow acl)
      then Inl NotOnAllowList
      else Inr ())"

section \<open>Lemmas\<close>

text \<open>The addresses a rule names: an aligned block of \<open>2 ^ (width - bits)\<close> numbers.\<close>

definition block_of :: "nat \<Rightarrow> nat \<Rightarrow> nat \<Rightarrow> nat set" where
  "block_of w bits n = (let size = 2 ^ (w - bits); base = n - n mod size in {base ..< base + size})"

fun cidr_block :: "cidr \<Rightarrow> ip_addr set" where
  "cidr_block \<lparr>ci_net = V4 net, ci_bits = bits\<rparr> = V4 ` {a. unat a \<in> block_of 32 (unat bits) (unat net)}"
| "cidr_block \<lparr>ci_net = V6 net, ci_bits = bits\<rparr> = V6 ` {a. unat a \<in> block_of 128 (unat bits) (unat net)}"

lemma block_of_div: "i \<in> block_of w bits n \<longleftrightarrow> i div 2 ^ (w - bits) = n div 2 ^ (w - bits)"
proof -
  define h :: nat where "h = 2 ^ (w - bits)"
  have h: "h > 0" by (simp add: h_def)
  have base: "n - n mod h = n div h * h" by (simp add: minus_mod_eq_div_mult)
  have "i \<in> block_of w bits n \<longleftrightarrow> n div h * h \<le> i \<and> i < n div h * h + h"
    unfolding block_of_def Let_def h_def [symmetric] base by simp
  also have "\<dots> \<longleftrightarrow> i div h = n div h"
    using h by (metis add.commute div_nat_eqI dividend_less_times_div le_refl mult.commute mult_Suc_right
        times_div_less_eq_dividend)
  finally show ?thesis by (simp add: h_def)
qed

lemma drop_bit_eq_iff_div:
  fixes a b :: "'a::len word"
  shows "drop_bit k a = drop_bit k b \<longleftrightarrow> unat a div 2 ^ k = unat b div 2 ^ k"
  by (simp only: word_unat_eq_iff [of "drop_bit k a"] unat_drop_bit_eq) (simp add: drop_bit_eq_div)

lemma cidr_contains_block: "cidr_contains c ip \<longleftrightarrow> ip \<in> cidr_block c"
proof (cases c rule: cidr_block.cases)
  case (1 net bits)
  have "unat a div 2 ^ 32 = unat net div 2 ^ 32" for a :: u32
    using unsigned_less [of a, where 'a = nat] unsigned_less [of net, where 'a = nat] by simp
  then show ?thesis using 1
    by (cases ip) (auto simp: cidr_contains_def Let_def block_of_div drop_bit_eq_iff_div image_iff)
next
  case (2 net bits)
  have "unat a div 2 ^ 128 = unat net div 2 ^ 128" for a :: u128
    using unsigned_less [of a, where 'a = nat] unsigned_less [of net, where 'a = nat] by simp
  then show ?thesis using 2
    by (cases ip) (auto simp: cidr_contains_def Let_def block_of_div drop_bit_eq_iff_div image_iff)
qed

lemma cidr_parse_all_Inr: "cidr_parse_all ss = Inr cs \<longleftrightarrow> list_all2 (\<lambda>s c. cidr_parse s = Inr c) ss cs"
proof (induction ss arbitrary: cs)
  case (Cons s ss)
  then show ?case by (auto simp: res_bind_Inr_iff list_all2_Cons1)
qed auto

lemma acl_compile_Inr:
  "acl_compile cfg = Inr acl \<longleftrightarrow>
     list_all2 (\<lambda>s c. cidr_parse s = Inr c) (ac_allow cfg) (acl_allow acl)
     \<and> list_all2 (\<lambda>s c. cidr_parse s = Inr c) (ac_deny cfg) (acl_deny acl)"
  by (cases acl) (auto simp: acl_compile_def res_bind_Inr_iff cidr_parse_all_Inr)

lemma list_ex_parsed:
  assumes "list_all2 (\<lambda>s c. cidr_parse s = Inr c) ss cs"
  shows "list_ex P cs \<longleftrightarrow> (\<exists>s\<in>set ss. \<exists>c. cidr_parse s = Inr c \<and> P c)"
  using assms by (induction rule: list_all2_induct) auto

text \<open>The text of a rule.\<close>

definition cidr_ok :: "cidr \<Rightarrow> bool" where
  "cidr_ok c \<longleftrightarrow> ci_bits c \<le> ip_bits (ci_net c)"

lemma cidr_parse_ok: "cidr_parse s = Inr c \<Longrightarrow> cidr_ok c"
  by (auto simp: cidr_parse_def Let_def cidr_ok_def res_bind_Inr_iff split: prod.splits option.splits if_splits)

lemma graphic_show_ip: "list_all graphic (show_ip ip)"
  by (rule list_all_show_ip) (simp_all add: graphic_def digit_char_code)

lemma slash_show_ip: "CHR ''/'' \<notin> set (show_ip ip)"
proof -
  have "list_all (\<lambda>c. c \<noteq> CHR ''/'') (show_ip ip)"
  proof (rule list_all_show_ip)
    fix d :: nat assume "d < 16"
    then have "of_char (digit_char d) \<noteq> (47 :: nat)" by (auto simp: digit_char_code)
    then show "digit_char d \<noteq> CHR ''/''" by auto
  qed simp_all
  then show ?thesis by (auto simp: list_all_iff)
qed

lemma trim_show_ip [simp]: "trim (show_ip ip) = show_ip ip"
  by (rule trim_tight, rule tight_list_all, rule graphic_show_ip)

lemma cidr_parse_show:
  assumes "cidr_ok c"
  shows "cidr_parse (show_ip (ci_net c) @ ''/'' @ show_nat (unat (ci_bits c))) = Inr c"
proof -
  let ?t = "show_ip (ci_net c) @ ''/'' @ show_nat (unat (ci_bits c))"
  have "list_all graphic ?t" by (simp add: graphic_show_ip graphic_show_nat) (simp add: graphic_def)
  then have "trim ?t = ?t" by (intro trim_tight tight_list_all)
  moreover have "parse_u8 (show_nat (unat b)) = Some b" for b
    using unsigned_less [of b, where 'a = nat] by (simp add: parse_u8_def from_str_radix_show_nat)
  ultimately show ?thesis using assms
    by (simp add: cidr_parse_def split_once_sep [OF slash_show_ip] cidr_ok_def not_less)
qed

section \<open>Properties\<close>

text \<open>C25: the access list decides by ranges of addresses. A list compiled from the configuration
  admits an address exactly when no deny entry names a block that holds it and, if there are
  allow entries, one of them does; a block is the aligned range of the numbers that share the
  entry's prefix within its own address family, so entries of one family never match the other.
  The check with a reason agrees, and gives the deny list as the reason whenever it applies.\<close>

theorem acl_exact:
  assumes "acl_compile cfg = Inr acl"
  shows "(acl_permits acl ip \<longleftrightarrow>
      (\<nexists>s c. s \<in> set (ac_deny cfg) \<and> cidr_parse s = Inr c \<and> ip \<in> cidr_block c)
      \<and> (ac_allow cfg = [] \<or> (\<exists>s c. s \<in> set (ac_allow cfg) \<and> cidr_parse s = Inr c \<and> ip \<in> cidr_block c)))
    \<and> (acl_check acl ip = Inr () \<longleftrightarrow> acl_permits acl ip)
    \<and> (acl_check acl ip = Inl OnDenyList \<longleftrightarrow>
      (\<exists>s c. s \<in> set (ac_deny cfg) \<and> cidr_parse s = Inr c \<and> ip \<in> cidr_block c))"
proof -
  have a: "list_ex (\<lambda>c. cidr_contains c ip) (acl_allow acl) \<longleftrightarrow>
      (\<exists>s c. s \<in> set (ac_allow cfg) \<and> cidr_parse s = Inr c \<and> ip \<in> cidr_block c)"
    using assms unfolding acl_compile_Inr cidr_contains_block by (elim conjE) (simp only: list_ex_parsed, blast)
  have d: "list_ex (\<lambda>c. cidr_contains c ip) (acl_deny acl) \<longleftrightarrow>
      (\<exists>s c. s \<in> set (ac_deny cfg) \<and> cidr_parse s = Inr c \<and> ip \<in> cidr_block c)"
    using assms unfolding acl_compile_Inr cidr_contains_block by (elim conjE) (simp only: list_ex_parsed, blast)
  have e: "acl_allow acl = [] \<longleftrightarrow> ac_allow cfg = []"
    using assms by (auto simp: acl_compile_Inr)
  show ?thesis unfolding acl_check_def acl_permits_def a d e by simp blast
qed

definition demo_cidr :: cidr where
  "demo_cidr = \<lparr>ci_net = V4 0x0A000000, ci_bits = 8\<rparr>"

theorem acl_exact_witness:
  "\<exists>cfg acl. acl_compile cfg = Inr acl \<and> acl_permits acl (V4 0x0A010203) \<and> \<not> acl_permits acl (V4 0x0B010203)
     \<and> acl_check acl (V4 0x0A010203) = Inr ()"
proof -
  let ?s = "show_ip (V4 0x0A000000) @ ''/'' @ show_nat (unat (8 :: u8))"
  let ?cfg = "\<lparr>ac_allow = [?s], ac_deny = []\<rparr>" and ?acl = "\<lparr>acl_allow = [demo_cidr], acl_deny = []\<rparr>"
  have p: "cidr_parse ?s = Inr demo_cidr"
    using cidr_parse_show [of demo_cidr] by (simp add: demo_cidr_def cidr_ok_def)
  have c: "acl_compile ?cfg = Inr ?acl" unfolding acl_compile_def using p by simp
  have b: "V4 a \<in> cidr_block demo_cidr \<longleftrightarrow> unat a div 2 ^ 24 = 10" for a
    by (auto simp: demo_cidr_def block_of_div)
  have "acl_permits ?acl (V4 a) \<longleftrightarrow> unat a div 2 ^ 24 = 10" for a
    using acl_exact [OF c, of "V4 a"] p b [of a] by auto
  moreover have "acl_check ?acl (V4 0x0A010203) = Inr () \<longleftrightarrow> acl_permits ?acl (V4 0x0A010203)"
    using acl_exact [OF c, of "V4 0x0A010203"] by blast
  ultimately show ?thesis using c by (intro exI [of _ ?cfg] exI [of _ ?acl]) simp
qed

text \<open>Rules can be written down and read back. The address and the prefix length of a rule,
  printed with a slash between them, parse to that rule; a bare address parses to the rule of
  that address alone.\<close>

theorem cidr_text_roundtrip:
  assumes "cidr_ok c"
  shows "cidr_parse (show_ip (ci_net c) @ ''/'' @ show_nat (unat (ci_bits c))) = Inr c
    \<and> cidr_parse (show_ip ip) = Inr \<lparr>ci_net = ip, ci_bits = ip_bits ip\<rparr>
    \<and> cidr_block \<lparr>ci_net = ip, ci_bits = ip_bits ip\<rparr> = {ip}"
proof -
  have "cidr_parse (show_ip ip) = Inr \<lparr>ci_net = ip, ci_bits = ip_bits ip\<rparr>"
    by (simp add: cidr_parse_def split_once_free [OF slash_show_ip])
  moreover have "cidr_block \<lparr>ci_net = ip, ci_bits = ip_bits ip\<rparr> = {ip}"
    by (cases ip) (auto simp: block_of_div word_unat_eq_iff)
  ultimately show ?thesis using cidr_parse_show [OF assms] by simp
qed

theorem cidr_text_roundtrip_witness:
  "cidr_ok demo_cidr \<and> cidr_parse (show_ip (ci_net demo_cidr) @ ''/'' @ show_nat (unat (ci_bits demo_cidr))) = Inr demo_cidr"
proof -
  have "cidr_ok demo_cidr" by (simp add: cidr_ok_def demo_cidr_def)
  with cidr_text_roundtrip [OF this] show ?thesis by simp
qed

end
