(* ===== verification/Oidc.thy ===== *)
theory Oidc
  imports Rust_Std
begin

text \<open>
  The OIDC verifier of the server (\<open>common/src/auth/oidc.rs\<close>): the check of a JWT against the
  keys of the identity provider, its claims, and the table that binds the subject of a login to
  its session. Base64, JSON and the signature primitives are third-party crates; they are the
  fields of the record \<open>crates\<close> that the definitions take. The keys arrive over HTTP and are an
  argument. Clock readings are arguments.
\<close>

unbundle bit_operations_syntax

section \<open>Third-party code\<close>

text \<open>What the code uses of a JSON value: a member of an object, and the value as a string, an
  array or an \<open>i64\<close>.\<close>

record 'v json =
  js_get :: "'v \<Rightarrow> string \<Rightarrow> 'v option"
  js_str :: "'v \<Rightarrow> string option"
  js_array :: "'v \<Rightarrow> 'v list option"
  js_i64 :: "'v \<Rightarrow> i64 option"

datatype ring_alg =
    RSA_PKCS1_SHA256 | RSA_PKCS1_SHA384 | RSA_PKCS1_SHA512
  | RSA_PSS_SHA256 | RSA_PSS_SHA384 | RSA_PSS_SHA512
  | ECDSA_P256_SHA256_FIXED | ECDSA_P384_SHA384_FIXED

record jwt_header =
  jh_alg :: string
  jh_kid :: "string option"

record 'v crates =
  xt_no_pad :: "string \<Rightarrow> bytes option"
  xt_padded :: "string \<Rightarrow> bytes option"
  xt_header :: "bytes \<Rightarrow> jwt_header option"
  xt_payload :: "bytes \<Rightarrow> 'v option"
  xt_json :: "'v json"
  xt_verify :: "ring_alg \<Rightarrow> bytes \<Rightarrow> bytes \<Rightarrow> bytes \<Rightarrow> bool"

section \<open>Data\<close>

record oidc_config =
  oc_issuer :: string
  oc_audience :: string
  oc_skip_expiry :: bool
  oc_skip_issuer :: bool

record jwk =
  jk_kty :: string
  jk_kid :: string
  jk_alg :: string
  jk_n :: string
  jk_e :: string
  jk_crv :: string
  jk_x :: string
  jk_y :: string

record oidc_verifier =
  ov_cfg :: oidc_config
  ov_keys :: "jwk list option"
  ov_subjects :: "(string, string) fmap"

datatype oidc_error =
    NoIssuer | NotThreeParts | BadBase64 | BadHeader | BadPayload
  | AlgNone | AlgUnsupported | NoKeys | NoSuchKid
  | BadKeyMaterial | UnknownCurve | CoordinateLengths | UnknownKty | KtyAlgMismatch
  | SignatureMismatch | NoUsableKey
  | IssMissing | IssWrong | AudWrong | ExpNotNumber | ExpMissing | Expired | NbfNotNumber | NotYetValid
  | SubMissing | SubNotLoggedIn | SubOfOther | NoSession

section \<open>The verifier\<close>

definition oidc_new :: "oidc_config \<Rightarrow> oidc_error + oidc_verifier" where
  "oidc_new cfg =
     (if trim (oc_issuer cfg) = [] then Inl NoIssuer
      else Inr \<lparr>ov_cfg = cfg, ov_keys = None, ov_subjects = fmempty\<rparr>)"

definition SUPPORTED_ALGS :: "string list" where
  "SUPPORTED_ALGS =
     [''RS256'', ''RS384'', ''RS512'', ''PS256'', ''PS384'', ''PS512'', ''ES256'', ''ES384'']"

record 'v parsed_jwt =
  pj_header :: jwt_header
  pj_header_b64 :: string
  pj_payload_b64 :: string
  pj_payload :: 'v
  pj_signature :: bytes

definition b64url :: "'v crates \<Rightarrow> string \<Rightarrow> bytes option" where
  "b64url x s = (case xt_no_pad x s of Some bs \<Rightarrow> Some bs | None \<Rightarrow> xt_padded x s)"

definition parse_jwt :: "'v crates \<Rightarrow> string \<Rightarrow> oidc_error + 'v parsed_jwt" where
  "parse_jwt x token0 =
     (let token = (case str_strip_prefix ''Bearer '' (trim token0) of Some r \<Rightarrow> r | None \<Rightarrow> trim token0) in
      case split_on CHR ''.'' token of
        [h, p, s] \<Rightarrow>
          res_bind (ok_or BadBase64 (b64url x h)) (\<lambda>header_bytes.
          res_bind (ok_or BadBase64 (b64url x p)) (\<lambda>payload_bytes.
          res_bind (ok_or BadBase64 (b64url x s)) (\<lambda>signature.
          res_bind (ok_or BadHeader (xt_header x header_bytes)) (\<lambda>header.
          res_bind (ok_or BadPayload (xt_payload x payload_bytes)) (\<lambda>payload.
            Inr \<lparr>pj_header = header, pj_header_b64 = h, pj_payload_b64 = p, pj_payload = payload,
                 pj_signature = signature\<rparr>)))))
      | _ \<Rightarrow> Inl NotThreeParts)"

text \<open>DER, for the RSA public key.\<close>

fun der_len_bytes :: "nat \<Rightarrow> bytes" where
  "der_len_bytes v = (if v = 0 then [] else der_len_bytes (v div 256) @ [of_nat v])"

declare der_len_bytes.simps [simp del]

definition der_tlv :: "u8 \<Rightarrow> bytes \<Rightarrow> bytes" where
  "der_tlv tag content =
     (let n = length content in
      tag # (if n < 128 then [of_nat n]
             else let lb = der_len_bytes n in (0x80 OR of_nat (length lb)) # lb) @ content)"

definition der_seq :: "bytes list \<Rightarrow> bytes" where
  "der_seq parts = der_tlv 0x30 (concat parts)"

fun der_strip :: "bytes \<Rightarrow> bytes" where
  "der_strip (x # y # r) = (if x = 0 then der_strip (y # r) else x # y # r)"
| "der_strip bs = bs"

definition der_int :: "bytes \<Rightarrow> bytes" where
  "der_int be =
     (let body = der_strip be in
      if body \<noteq> [] \<and> hd body AND 0x80 \<noteq> 0 then der_tlv 2 (0 # body) else der_tlv 2 body)"

definition pick_algorithm :: "jwk \<Rightarrow> string \<Rightarrow> oidc_error + ring_alg" where
  "pick_algorithm k alg =
     (let kty = to_ascii_uppercase (jk_kty k); a = to_ascii_uppercase alg in
      if kty = ''RSA'' \<and> a = ''RS256'' then Inr RSA_PKCS1_SHA256
      else if kty = ''RSA'' \<and> a = ''RS384'' then Inr RSA_PKCS1_SHA384
      else if kty = ''RSA'' \<and> a = ''RS512'' then Inr RSA_PKCS1_SHA512
      else if kty = ''RSA'' \<and> a = ''PS256'' then Inr RSA_PSS_SHA256
      else if kty = ''RSA'' \<and> a = ''PS384'' then Inr RSA_PSS_SHA384
      else if kty = ''RSA'' \<and> a = ''PS512'' then Inr RSA_PSS_SHA512
      else if kty = ''EC'' \<and> a = ''ES256'' then Inr ECDSA_P256_SHA256_FIXED
      else if kty = ''EC'' \<and> a = ''ES384'' then Inr ECDSA_P384_SHA384_FIXED
      else Inl KtyAlgMismatch)"

definition jwk_to_ring_key :: "'v crates \<Rightarrow> jwk \<Rightarrow> oidc_error + bytes" where
  "jwk_to_ring_key x k =
     (let kty = to_ascii_uppercase (jk_kty k) in
      if kty = ''RSA'' then
        res_bind (ok_or BadKeyMaterial (b64url x (jk_n k))) (\<lambda>n.
        res_bind (ok_or BadKeyMaterial (b64url x (jk_e k))) (\<lambda>e.
          Inr (der_seq [der_int n, der_int e])))
      else if kty = ''EC'' then
        res_bind (ok_or BadKeyMaterial (b64url x (jk_x k))) (\<lambda>px.
        res_bind (ok_or BadKeyMaterial (b64url x (jk_y k))) (\<lambda>py.
          if jk_crv k \<noteq> ''P-256'' \<and> jk_crv k \<noteq> ''P-384'' then Inl UnknownCurve
          else if length px \<noteq> length py then Inl CoordinateLengths
          else Inr (4 # px @ py)))
      else Inl UnknownKty)"

definition verify_signature ::
  "'v crates \<Rightarrow> jwk \<Rightarrow> string \<Rightarrow> bytes \<Rightarrow> bytes \<Rightarrow> oidc_error + bool" where
  "verify_signature x k alg message sig =
     res_bind (jwk_to_ring_key x k) (\<lambda>key.
     res_bind (pick_algorithm k alg) (\<lambda>a.
       Inr (xt_verify x a key message sig)))"

definition check_iss :: "'v crates \<Rightarrow> oidc_config \<Rightarrow> 'v \<Rightarrow> oidc_error + unit" where
  "check_iss x cfg payload =
     (if oc_skip_issuer cfg then Inr ()
      else case Option.bind (js_get (xt_json x) payload ''iss'') (js_str (xt_json x)) of
        None \<Rightarrow> Inl IssMissing
      | Some iss \<Rightarrow>
          if trim_end_matches CHR ''/'' iss \<noteq> trim_end_matches CHR ''/'' (oc_issuer cfg) then Inl IssWrong else Inr ())"

definition check_aud :: "'v crates \<Rightarrow> oidc_config \<Rightarrow> 'v \<Rightarrow> oidc_error + unit" where
  "check_aud x cfg payload =
     (let j = xt_json x;
          aud_ok = (case js_get j payload ''aud'' of
                      None \<Rightarrow> False
                    | Some v \<Rightarrow>
                        (case js_str j v of
                           Some s \<Rightarrow> s = oc_audience cfg
                         | None \<Rightarrow>
                             (case js_array j v of
                                Some a \<Rightarrow> list_ex (\<lambda>e. js_str j e = Some (oc_audience cfg)) a
                              | None \<Rightarrow> False)))
      in if oc_audience cfg \<noteq> [] \<and> \<not> aud_ok then Inl AudWrong else Inr ())"

definition check_times :: "'v crates \<Rightarrow> system_time \<Rightarrow> oidc_config \<Rightarrow> 'v \<Rightarrow> oidc_error + unit" where
  "check_times x clock cfg payload =
     (if oc_skip_expiry cfg then Inr ()
      else
        let j = xt_json x; now = unix_secs clock in
        case js_get j payload ''exp'' of
          None \<Rightarrow> Inl ExpMissing
        | Some v \<Rightarrow>
            res_bind (ok_or ExpNotNumber (js_i64 j v)) (\<lambda>exp.
              if sint exp < sint now then Inl Expired
              else case js_get j payload ''nbf'' of
                None \<Rightarrow> Inr ()
              | Some v \<Rightarrow>
                  res_bind (ok_or NbfNotNumber (js_i64 j v)) (\<lambda>nbf.
                    if sint nbf > sint (now + 60) then Inl NotYetValid else Inr ())))"

definition check_claims :: "'v crates \<Rightarrow> system_time \<Rightarrow> oidc_config \<Rightarrow> 'v \<Rightarrow> oidc_error + unit" where
  "check_claims x clock cfg payload =
     res_bind (check_iss x cfg payload) (\<lambda>_.
     res_bind (check_aud x cfg payload) (\<lambda>_. check_times x clock cfg payload))"

text \<open>The candidate keys in turn, with the last error so far.\<close>

fun try_keys ::
  "'v crates \<Rightarrow> system_time \<Rightarrow> oidc_config \<Rightarrow> 'v parsed_jwt \<Rightarrow> jwk list \<Rightarrow> oidc_error option \<Rightarrow> oidc_error + 'v"
where
  "try_keys x clock cfg p [] last_err =
     Inl (case last_err of None \<Rightarrow> NoUsableKey | Some e \<Rightarrow> e)"
| "try_keys x clock cfg p (k # ks) last_err =
     (let alg = jh_alg (pj_header p) in
      if jk_alg k \<noteq> [] \<and> \<not> eq_ignore_ascii_case (jk_alg k) alg
      then try_keys x clock cfg p ks last_err
      else case verify_signature x k alg
                  (as_bytes (pj_header_b64 p @ ''.'' @ pj_payload_b64 p)) (pj_signature p) of
          Inr True \<Rightarrow> res_bind (check_claims x clock cfg (pj_payload p)) (\<lambda>_. Inr (pj_payload p))
        | Inr False \<Rightarrow> try_keys x clock cfg p ks (Some SignatureMismatch)
        | Inl e \<Rightarrow> try_keys x clock cfg p ks (Some e))"

definition verify_token :: "'v crates \<Rightarrow> system_time \<Rightarrow> oidc_verifier \<Rightarrow> string \<Rightarrow> oidc_error + 'v" where
  "verify_token x clock v token =
     res_bind (parse_jwt x token) (\<lambda>p.
       let alg = jh_alg (pj_header p) in
       if eq_ignore_ascii_case alg ''none'' then Inl AlgNone
       else if alg \<notin> set SUPPORTED_ALGS then Inl AlgUnsupported
       else case ov_keys v of
           None \<Rightarrow> Inl NoKeys
         | Some keys \<Rightarrow>
             let candidates = filter (\<lambda>k. case jh_kid (pj_header p) of
                                            Some kid \<Rightarrow> jk_kid k = kid | None \<Rightarrow> True) keys
             in if candidates = [] then Inl NoSuchKid
                else try_keys x clock (ov_cfg v) p candidates None)"

section \<open>Subjects and sessions\<close>

definition subject_of :: "'v crates \<Rightarrow> 'v \<Rightarrow> oidc_error + string" where
  "subject_of x payload =
     ok_or SubMissing (Option.bind (js_get (xt_json x) payload ''sub'') (js_str (xt_json x)))"

definition remember_subject ::
  "'v crates \<Rightarrow> system_time \<Rightarrow> string \<Rightarrow> string \<Rightarrow> oidc_verifier \<Rightarrow> oidc_verifier \<times> (oidc_error + string)" where
  "remember_subject x clock token run_id v =
     (case res_bind (verify_token x clock v token) (subject_of x) of
        Inl e \<Rightarrow> (v, Inl e)
      | Inr sub \<Rightarrow>
          (if run_id \<noteq> [] then v\<lparr>ov_subjects := fmupd run_id sub (ov_subjects v)\<rparr> else v, Inr sub))"

definition oidc_forget :: "string \<Rightarrow> oidc_verifier \<Rightarrow> oidc_verifier" where
  "oidc_forget run_id v = v\<lparr>ov_subjects := fmdrop run_id (ov_subjects v)\<rparr>"

definition verify_post_login ::
  "'v crates \<Rightarrow> system_time \<Rightarrow> oidc_verifier \<Rightarrow> string \<Rightarrow> string \<Rightarrow> oidc_error + string" where
  "verify_post_login x clock v token run_id =
     res_bind (res_bind (verify_token x clock v token) (subject_of x)) (\<lambda>sub.
       if run_id = [] then
         (if sub |\<in>| fmran (ov_subjects v) then Inr sub else Inl SubNotLoggedIn)
       else case fmlookup (ov_subjects v) run_id of
           None \<Rightarrow> Inl NoSession
         | Some bound \<Rightarrow> if bound = sub then Inr sub else Inl SubOfOther)"

definition subject_count :: "oidc_verifier \<Rightarrow> nat" where
  "subject_count v = fm_len (ov_subjects v)"

section \<open>Lemmas\<close>

lemma supported_not_none: "alg \<in> set SUPPORTED_ALGS \<Longrightarrow> \<not> eq_ignore_ascii_case alg ''none''"
  by (auto simp: SUPPORTED_ALGS_def eq_ignore_ascii_case_def to_ascii_lowercase_def)

lemma check_iss_Inr:
  "check_iss x cfg payload = Inr u \<longleftrightarrow>
     oc_skip_issuer cfg \<or>
     (\<exists>w iss. js_get (xt_json x) payload ''iss'' = Some w \<and> js_str (xt_json x) w = Some iss
        \<and> trim_end_matches CHR ''/'' iss = trim_end_matches CHR ''/'' (oc_issuer cfg))"
  by (auto simp: check_iss_def bind_eq_Some_conv split: option.splits)

lemma check_aud_Inr:
  "check_aud x cfg payload = Inr u \<longleftrightarrow>
     oc_audience cfg = [] \<or>
     (\<exists>w. js_get (xt_json x) payload ''aud'' = Some w
        \<and> (js_str (xt_json x) w = Some (oc_audience cfg)
           \<or> js_str (xt_json x) w = None
             \<and> (\<exists>a. js_array (xt_json x) w = Some a \<and> (\<exists>e\<in>set a. js_str (xt_json x) e = Some (oc_audience cfg)))))"
  by (auto simp: check_aud_def Let_def list_ex_iff split: option.splits)

lemma check_times_Inr:
  "check_times x clock cfg payload = Inr u \<longleftrightarrow>
     oc_skip_expiry cfg \<or>
     (\<exists>w e. js_get (xt_json x) payload ''exp'' = Some w \<and> js_i64 (xt_json x) w = Some e
        \<and> sint (unix_secs clock) \<le> sint e
        \<and> (js_get (xt_json x) payload ''nbf'' = None
           \<or> (\<exists>w' n. js_get (xt_json x) payload ''nbf'' = Some w' \<and> js_i64 (xt_json x) w' = Some n
                 \<and> sint n \<le> sint (unix_secs clock + 60))))"
  by (auto simp: check_times_def Let_def res_bind_Inr_iff ok_or_Inr_iff not_less split: option.splits)

lemma check_claims_Inr:
  "check_claims x clock cfg payload = Inr u \<longleftrightarrow>
     check_iss x cfg payload = Inr () \<and> check_aud x cfg payload = Inr () \<and> check_times x clock cfg payload = Inr ()"
  by (auto simp: check_claims_def res_bind_Inr_iff)

definition key_accepts :: "'v crates \<Rightarrow> 'v parsed_jwt \<Rightarrow> jwk \<Rightarrow> bool" where
  "key_accepts x p k \<longleftrightarrow>
     (jk_alg k = [] \<or> eq_ignore_ascii_case (jk_alg k) (jh_alg (pj_header p)))
     \<and> verify_signature x k (jh_alg (pj_header p))
          (as_bytes (pj_header_b64 p @ ''.'' @ pj_payload_b64 p)) (pj_signature p) = Inr True"

lemma try_keys_Inr:
  "try_keys x clock cfg p ks last_err = Inr payload \<longleftrightarrow>
     payload = pj_payload p \<and> check_claims x clock cfg payload = Inr () \<and> (\<exists>k\<in>set ks. key_accepts x p k)"
proof (induction ks arbitrary: last_err)
  case (Cons k ks)
  show ?case
  proof (cases "jk_alg k \<noteq> [] \<and> \<not> eq_ignore_ascii_case (jk_alg k) (jh_alg (pj_header p))")
    case True
    then have "\<not> key_accepts x p k" by (auto simp: key_accepts_def)
    then show ?thesis using Cons True by (simp add: Let_def)
  next
    case a: False
    then have k: "key_accepts x p k \<longleftrightarrow> verify_signature x k (jh_alg (pj_header p))
        (as_bytes (pj_header_b64 p @ ''.'' @ pj_payload_b64 p)) (pj_signature p) = Inr True"
      by (auto simp: key_accepts_def)
    show ?thesis
    proof (cases "key_accepts x p k")
      case True
      then have "try_keys x clock cfg p (k # ks) last_err
          = res_bind (check_claims x clock cfg (pj_payload p)) (\<lambda>_. Inr (pj_payload p))"
        using a unfolding k by (auto simp: Let_def)
      with True show ?thesis by (auto simp: res_bind_Inr_iff simp del: try_keys.simps)
    next
      case False
      then have s: "verify_signature x k (jh_alg (pj_header p))
          (as_bytes (pj_header_b64 p @ ''.'' @ pj_payload_b64 p)) (pj_signature p) \<noteq> Inr True" unfolding k .
      obtain e where e: "try_keys x clock cfg p (k # ks) last_err = try_keys x clock cfg p ks (Some e)"
      proof (cases "verify_signature x k (jh_alg (pj_header p))
          (as_bytes (pj_header_b64 p @ ''.'' @ pj_payload_b64 p)) (pj_signature p)")
        case (Inl e)
        then have "try_keys x clock cfg p (k # ks) last_err = try_keys x clock cfg p ks (Some e)"
          using a by (auto simp: Let_def)
        then show ?thesis by (rule that)
      next
        case (Inr b)
        then have "try_keys x clock cfg p (k # ks) last_err = try_keys x clock cfg p ks (Some SignatureMismatch)"
          using a s by (cases b) (auto simp: Let_def)
        then show ?thesis by (rule that)
      qed
      show ?thesis unfolding e Cons.IH using False by auto
    qed
  qed
qed (auto split: option.splits)

lemma verify_token_Inr:
  "verify_token x clock v token = Inr payload \<longleftrightarrow>
     (\<exists>p keys k. parse_jwt x token = Inr p \<and> payload = pj_payload p
        \<and> jh_alg (pj_header p) \<in> set SUPPORTED_ALGS \<and> ov_keys v = Some keys \<and> k \<in> set keys
        \<and> (case jh_kid (pj_header p) of Some kid \<Rightarrow> jk_kid k = kid | None \<Rightarrow> True)
        \<and> key_accepts x p k \<and> check_claims x clock (ov_cfg v) payload = Inr ())"
proof
  assume "verify_token x clock v token = Inr payload"
  then obtain p where p: "parse_jwt x token = Inr p"
    and r: "(let alg = jh_alg (pj_header p) in
       if eq_ignore_ascii_case alg ''none'' then Inl AlgNone
       else if alg \<notin> set SUPPORTED_ALGS then Inl AlgUnsupported
       else case ov_keys v of
           None \<Rightarrow> Inl NoKeys
         | Some keys \<Rightarrow>
             let candidates = filter (\<lambda>k. case jh_kid (pj_header p) of
                                            Some kid \<Rightarrow> jk_kid k = kid | None \<Rightarrow> True) keys
             in if candidates = [] then Inl NoSuchKid
                else try_keys x clock (ov_cfg v) p candidates None) = Inr payload"
    by (auto simp: verify_token_def res_bind_Inr_iff)
  from r obtain keys where keys: "jh_alg (pj_header p) \<in> set SUPPORTED_ALGS" "ov_keys v = Some keys"
    and t: "try_keys x clock (ov_cfg v) p
        (filter (\<lambda>k. case jh_kid (pj_header p) of Some kid \<Rightarrow> jk_kid k = kid | None \<Rightarrow> True) keys) None = Inr payload"
    by (auto simp: Let_def split: if_splits option.splits)
  from t obtain k where "payload = pj_payload p" "check_claims x clock (ov_cfg v) payload = Inr ()" "k \<in> set keys"
      "case jh_kid (pj_header p) of Some kid \<Rightarrow> jk_kid k = kid | None \<Rightarrow> True" "key_accepts x p k"
    unfolding try_keys_Inr by auto
  with p keys show "\<exists>p keys k. parse_jwt x token = Inr p \<and> payload = pj_payload p
        \<and> jh_alg (pj_header p) \<in> set SUPPORTED_ALGS \<and> ov_keys v = Some keys \<and> k \<in> set keys
        \<and> (case jh_kid (pj_header p) of Some kid \<Rightarrow> jk_kid k = kid | None \<Rightarrow> True)
        \<and> key_accepts x p k \<and> check_claims x clock (ov_cfg v) payload = Inr ()"
    by blast
next
  assume "\<exists>p keys k. parse_jwt x token = Inr p \<and> payload = pj_payload p
        \<and> jh_alg (pj_header p) \<in> set SUPPORTED_ALGS \<and> ov_keys v = Some keys \<and> k \<in> set keys
        \<and> (case jh_kid (pj_header p) of Some kid \<Rightarrow> jk_kid k = kid | None \<Rightarrow> True)
        \<and> key_accepts x p k \<and> check_claims x clock (ov_cfg v) payload = Inr ()"
  then obtain p keys k where h: "parse_jwt x token = Inr p" "payload = pj_payload p"
      "jh_alg (pj_header p) \<in> set SUPPORTED_ALGS" "ov_keys v = Some keys" "k \<in> set keys"
      "case jh_kid (pj_header p) of Some kid \<Rightarrow> jk_kid k = kid | None \<Rightarrow> True"
      "key_accepts x p k" "check_claims x clock (ov_cfg v) payload = Inr ()" by blast
  let ?c = "filter (\<lambda>k. case jh_kid (pj_header p) of Some kid \<Rightarrow> jk_kid k = kid | None \<Rightarrow> True) keys"
  have k: "k \<in> set ?c" using h by simp
  have "try_keys x clock (ov_cfg v) p ?c None = Inr payload"
    unfolding try_keys_Inr using k h by blast
  moreover have "(?c = []) = False" using k by (metis empty_iff list.set(1))
  moreover have "verify_token x clock v token
      = (if ?c = [] then Inl NoSuchKid else try_keys x clock (ov_cfg v) p ?c None)"
    using h supported_not_none [OF h(3)] by (simp add: verify_token_def Let_def)
  ultimately show "verify_token x clock v token = Inr payload" by (simp only: if_False)
qed

lemma remember_keeps [simp]:
  "ov_cfg (fst (remember_subject x clock token run_id v)) = ov_cfg v"
  "ov_keys (fst (remember_subject x clock token run_id v)) = ov_keys v"
  by (simp_all add: remember_subject_def split: sum.splits)

lemma verify_token_cong:
  "ov_cfg v = ov_cfg v' \<Longrightarrow> ov_keys v = ov_keys v' \<Longrightarrow> verify_token x clock v token = verify_token x clock v' token"
  unfolding verify_token_def by (simp only:)

section \<open>Properties\<close>


end
