(* ===== verification/Auth.thy ===== *)
theory Auth
  imports Oidc Rust_Net Const_Time
begin

text \<open>
  Authentication on the server: the freshness window, the credentials of the token method and
  the provider of \<open>common/src/security.rs\<close>, the security context of \<open>server/src/guard.rs\<close>, the
  check of a work connection in \<open>server/src/serve.rs\<close> and of a VirtualNet registration in
  \<open>server/src/vnet.rs\<close>. MD5 is an argument, as are the clock and what the identity provider
  answers; the tables behind the locks are passed along.
\<close>

section \<open>Freshness and shared secrets\<close>

type_synonym md5_fn = "bytes \<Rightarrow> bytes"

datatype auth_error =
    StaleTimestamp | TokenMismatch | ProofMismatch | OidcRefused oidc_error | OidcDown

definition check_freshness :: "system_time \<Rightarrow> i64 \<Rightarrow> u64 \<Rightarrow> auth_error + unit" where
  "check_freshness clock ts skew =
     (if skew = 0 then Inr ()
      else
        let now = (unix_secs clock :: i64);
            diff = saturating_abs_i64 (saturating_sub_i64 now ts)
        in if sint diff > sint (skew :: i64) then Inl StaleTimestamp else Inr ())"

definition auth_key :: "md5_fn \<Rightarrow> string \<Rightarrow> i64 \<Rightarrow> string" where
  "auth_key md5 token ts = concat (map hex_byte (md5 (as_bytes token @ as_bytes (show_i64 ts))))"

definition verify_shared_secret_proof ::
  "md5_fn \<Rightarrow> system_time \<Rightarrow> string \<Rightarrow> string \<Rightarrow> i64 \<Rightarrow> u64 \<Rightarrow> auth_error + unit" where
  "verify_shared_secret_proof md5 clock secret given ts skew =
     res_bind (check_freshness clock ts skew) (\<lambda>_.
       if \<not> constant_time_eq (auth_key md5 secret ts) given then Inl ProofMismatch else Inr ())"

section \<open>Configuration\<close>

datatype auth_method = MethodToken | MethodOidc

record server_auth_config =
  sa_method :: auth_method
  sa_token :: string
  sa_scopes :: "string list"
  sa_oidc :: oidc_config

definition default_scopes :: "string list" where
  "default_scopes = [''HeartBeats'', ''NewWorkConns'']"

datatype auth_config_error = IssuerNotSet | UnknownScope string

fun check_scopes :: "string list \<Rightarrow> auth_config_error + unit" where
  "check_scopes [] = Inr ()"
| "check_scopes (s # ss) =
     (if s \<noteq> ''HeartBeats'' \<and> s \<noteq> ''NewWorkConns'' then Inl (UnknownScope s) else check_scopes ss)"

definition auth_validate :: "server_auth_config \<Rightarrow> auth_config_error + unit" where
  "auth_validate cfg =
     (if sa_method cfg = MethodOidc \<and> trim (oc_issuer (sa_oidc cfg)) = [] then Inl IssuerNotSet
      else check_scopes (sa_scopes cfg))"

definition check_heartbeats :: "server_auth_config \<Rightarrow> bool" where
  "check_heartbeats cfg \<longleftrightarrow> sa_method cfg = MethodOidc \<and> list_ex (\<lambda>s. s = ''HeartBeats'') (sa_scopes cfg)"

definition check_new_work_conns :: "server_auth_config \<Rightarrow> bool" where
  "check_new_work_conns cfg \<longleftrightarrow>
     sa_method cfg = MethodOidc \<and> list_ex (\<lambda>s. s = ''NewWorkConns'') (sa_scopes cfg)"

section \<open>The provider\<close>

datatype auth_provider = TokenAuth string | OidcAuth oidc_verifier | OidcUnavailable

fun provider_method :: "auth_provider \<Rightarrow> auth_method" where
  "provider_method (TokenAuth _) = MethodToken"
| "provider_method (OidcAuth _) = MethodOidc"
| "provider_method OidcUnavailable = MethodOidc"

fun provider_verify_login ::
  "md5_fn \<Rightarrow> 'v crates \<Rightarrow> system_time \<Rightarrow> string \<Rightarrow> i64 \<Rightarrow> string \<Rightarrow> u64 \<Rightarrow> auth_provider
     \<Rightarrow> auth_provider \<times> (auth_error + string)"
where
  "provider_verify_login md5 x clock cred ts run_id skew p =
     (case check_freshness clock ts skew of
        Inl e \<Rightarrow> (p, Inl e)
      | Inr _ \<Rightarrow>
          (case p of
             TokenAuth secret \<Rightarrow>
               if secret = [] then (p, Inr [])
               else if \<not> constant_time_eq (auth_key md5 secret ts) cred then (p, Inl TokenMismatch)
               else (p, Inr [])
           | OidcAuth v \<Rightarrow>
               (case remember_subject x clock cred run_id v of
                  (v', Inl e) \<Rightarrow> (OidcAuth v', Inl (OidcRefused e))
                | (v', Inr sub) \<Rightarrow> (OidcAuth v', Inr sub))
           | OidcUnavailable \<Rightarrow> (p, Inl OidcDown)))"

fun provider_verify_followup ::
  "'v crates \<Rightarrow> system_time \<Rightarrow> string \<Rightarrow> string \<Rightarrow> auth_provider \<Rightarrow> auth_error + unit" where
  "provider_verify_followup x clock cred run_id (TokenAuth _) = Inr ()"
| "provider_verify_followup x clock cred run_id (OidcAuth v) =
     (case verify_post_login x clock v cred run_id of Inl e \<Rightarrow> Inl (OidcRefused e) | Inr _ \<Rightarrow> Inr ())"
| "provider_verify_followup x clock cred run_id OidcUnavailable = Inl OidcDown"

fun provider_forget :: "string \<Rightarrow> auth_provider \<Rightarrow> auth_provider" where
  "provider_forget run_id (OidcAuth v) = OidcAuth (oidc_forget run_id v)"
| "provider_forget run_id p = p"

fun provider_control_key :: "string \<Rightarrow> auth_provider \<Rightarrow> string" where
  "provider_control_key login_key (TokenAuth secret) = secret"
| "provider_control_key login_key (OidcAuth _) = login_key"
| "provider_control_key login_key OidcUnavailable = login_key"

fun provider_secret :: "auth_provider \<Rightarrow> string" where
  "provider_secret (TokenAuth t) = t"
| "provider_secret _ = []"

definition from_server_config :: "server_auth_config \<Rightarrow> oidc_error + auth_provider \<times> bool" where
  "from_server_config cfg =
     (case sa_method cfg of
        MethodToken \<Rightarrow> Inr (TokenAuth (sa_token cfg), False)
      | MethodOidc \<Rightarrow> res_bind (oidc_new (sa_oidc cfg)) (\<lambda>v. Inr (OidcAuth v, True)))"

section \<open>The security context\<close>

record sec_ctx =
  sc_auth :: auth_provider
  sc_cfg :: server_auth_config
  sc_skew :: u64

text \<open>\<open>fetched\<close> is the key set that the identity provider serves, if it could be had.\<close>

definition refresh_oidc :: "jwk list option \<Rightarrow> sec_ctx \<Rightarrow> sec_ctx \<times> bool" where
  "refresh_oidc fetched ctx =
     (case sc_auth ctx of
        OidcAuth _ \<Rightarrow> (ctx, True)
      | TokenAuth _ \<Rightarrow> (ctx, True)
      | OidcUnavailable \<Rightarrow>
          (case from_server_config (sc_cfg ctx) of
             Inl _ \<Rightarrow> (ctx, False)
           | Inr (p, needs_refresh) \<Rightarrow>
               if \<not> needs_refresh then (ctx, True)
               else (case p of
                  OidcAuth v \<Rightarrow>
                    (case fetched of
                       None \<Rightarrow> (ctx, False)
                     | Some keys \<Rightarrow>
                         if keys = [] then (ctx, False)
                         else (ctx\<lparr>sc_auth := OidcAuth (v\<lparr>ov_keys := Some keys\<rparr>)\<rparr>, True))
                | _ \<Rightarrow> (ctx, True))))"

definition sec_verify_login ::
  "md5_fn \<Rightarrow> 'v crates \<Rightarrow> system_time \<Rightarrow> string \<Rightarrow> i64 \<Rightarrow> string \<Rightarrow> sec_ctx
     \<Rightarrow> sec_ctx \<times> (auth_error + string)" where
  "sec_verify_login md5 x clock cred ts run_id ctx =
     (let (p, res) = provider_verify_login md5 x clock cred ts run_id (sc_skew ctx) (sc_auth ctx)
      in (ctx\<lparr>sc_auth := p\<rparr>, res))"

definition sec_verify_followup ::
  "'v crates \<Rightarrow> system_time \<Rightarrow> string \<Rightarrow> string \<Rightarrow> sec_ctx \<Rightarrow> auth_error + unit" where
  "sec_verify_followup x clock key run_id ctx = provider_verify_followup x clock key run_id (sc_auth ctx)"

section \<open>Work connections and VirtualNet registrations\<close>

text \<open>The client a work connection names: the address its control connection came from, and
  whether it declared that its work connections carry a credential.\<close>

record work_owner =
  wo_peer_ip :: ip_addr
  wo_work_conn_cred :: bool

datatype work_refusal =
    FollowupRefused auth_error | SourceDiffers | BadCredential auth_error | CredentialMissing

definition work_conn_auth ::
  "md5_fn \<Rightarrow> 'v crates \<Rightarrow> system_time \<Rightarrow> sec_ctx \<Rightarrow> work_owner \<Rightarrow> ip_addr \<Rightarrow> string \<Rightarrow> i64 \<Rightarrow> string
     \<Rightarrow> work_refusal + unit" where
  "work_conn_auth md5 x clock ctx client peer key ts run_id =
     (if provider_method (sc_auth ctx) = MethodOidc then
        (if check_new_work_conns (sc_cfg ctx) then
           (case sec_verify_followup x clock key run_id ctx of
              Inl e \<Rightarrow> Inl (FollowupRefused e) | Inr _ \<Rightarrow> Inr ())
         else Inr ())
      else
        let token = provider_secret (sc_auth ctx) in
        if token = [] then
          (if peer \<noteq> wo_peer_ip client then Inl SourceDiffers else Inr ())
        else if key \<noteq> [] then
          (case snd (sec_verify_login md5 x clock key ts run_id ctx) of
             Inl e \<Rightarrow> Inl (BadCredential e) | Inr _ \<Rightarrow> Inr ())
        else if wo_work_conn_cred client then Inl CredentialMissing
        else if peer \<noteq> wo_peer_ip client then Inl SourceDiffers
        else Inr ())"

text \<open>A VirtualNet registration is authenticated under the name it gives itself.\<close>

datatype vnet_refusal = ClientEmpty | VnetLoginRefused auth_error

definition vnet_auth ::
  "md5_fn \<Rightarrow> 'v crates \<Rightarrow> system_time \<Rightarrow> string \<Rightarrow> string \<Rightarrow> i64 \<Rightarrow> sec_ctx
     \<Rightarrow> sec_ctx \<times> (vnet_refusal + unit)" where
  "vnet_auth md5 x clock client token ts ctx =
     (if trim client = [] then (ctx, Inl ClientEmpty)
      else case sec_verify_login md5 x clock token ts client ctx of
          (ctx', Inl e) \<Rightarrow> (ctx', Inl (VnetLoginRefused e))
        | (ctx', Inr _) \<Rightarrow> (ctx', Inr ()))"

section \<open>Lemmas\<close>

definition is_fresh :: "system_time \<Rightarrow> i64 \<Rightarrow> u64 \<Rightarrow> bool" where
  "is_fresh clock ts skew \<longleftrightarrow>
     skew = 0 \<or> skew = 2 ^ 63 - 1
     \<or> unat skew < 2 ^ 63 \<and> \<bar>sint (unix_secs clock) - sint ts\<bar> \<le> int (unat skew)"

lemma saturated_diff:
  "sint (saturating_abs_i64 (saturating_sub_i64 a b)) = min (2 ^ 63 - 1) \<bar>sint a - sint b\<bar>"
  using sint_i64_bounds [of a] sint_i64_bounds [of b]
  by (simp add: saturating_abs_i64_def saturating_sub_i64_def sint_clamp_i64)

lemma check_freshness_Inr: "check_freshness clock ts skew = Inr u \<longleftrightarrow> is_fresh clock ts skew"
proof -
  let ?d = "\<bar>sint (unix_secs clock) - sint ts\<bar>"
  have eq: "skew = 2 ^ 63 - 1 \<longleftrightarrow> unat skew = 2 ^ 63 - 1" by (simp add: word_unat_eq_iff)
  have "check_freshness clock ts skew = Inr u \<longleftrightarrow> skew = 0 \<or> min (2 ^ 63 - 1) ?d \<le> sint skew"
    unfolding check_freshness_def Let_def saturated_diff by (simp only: not_less [symmetric]) simp
  also have "\<dots> \<longleftrightarrow> is_fresh clock ts skew"
  proof (cases "unat skew < 2 ^ 63")
    case True
    then have "min (2 ^ 63 - 1) ?d \<le> sint skew \<longleftrightarrow> unat skew = 2 ^ 63 - 1 \<or> ?d \<le> int (unat skew)"
      unfolding sint_u64 [of skew] by (auto simp: min_def simp del: of_nat_unat)
    then show ?thesis unfolding is_fresh_def eq using True by (simp del: of_nat_unat)
  next
    case False
    then have "sint skew < 0" unfolding sint_u64 [of skew]
      using unsigned_less [of skew, where 'a = nat] by (simp del: of_nat_unat)
    then have "\<not> min (2 ^ 63 - 1) ?d \<le> sint skew" by simp
    moreover have "skew \<noteq> 0" "unat skew \<noteq> 2 ^ 63 - 1" using False by auto
    ultimately show ?thesis unfolding is_fresh_def eq using False by simp
  qed
  finally show ?thesis .
qed

lemma auth_key_eq: "constant_time_eq (auth_key md5 secret ts) cred \<longleftrightarrow> cred = auth_key md5 secret ts"
  by (auto simp: constant_time_eq_iff)

lemma verify_login_token:
  "snd (provider_verify_login md5 x clock cred ts run_id skew (TokenAuth secret)) = Inr s \<longleftrightarrow>
     s = [] \<and> is_fresh clock ts skew \<and> (secret = [] \<or> cred = auth_key md5 secret ts)"
  using check_freshness_Inr [of clock ts skew "()"]
  by (auto simp: auth_key_eq split: sum.splits unit.splits)

lemma verify_login_oidc:
  assumes "is_fresh clock ts skew"
    and "res_bind (verify_token x clock v cred) (subject_of x) = Inr sub" "run_id \<noteq> []"
  shows "provider_verify_login md5 x clock cred ts run_id skew (OidcAuth v)
    = (OidcAuth (v\<lparr>ov_subjects := fmupd run_id sub (ov_subjects v)\<rparr>), Inr sub)"
  using assms check_freshness_Inr [of clock ts skew "()"] by (simp add: remember_subject_def)

lemma followup_exact:
  assumes "res_bind (verify_token x clock v cred) (subject_of x) = Inr sub" "run_id \<noteq> []"
  shows "verify_post_login x clock v cred run_id
    = (case fmlookup (ov_subjects v) run_id of
         None \<Rightarrow> Inl NoSession | Some bound \<Rightarrow> if bound = sub then Inr sub else Inl SubOfOther)"
  using assms by (simp add: verify_post_login_def split: option.splits)

section \<open>Properties\<close>

text \<open>C24: credentials of the token method are accepted exactly when they are right and fresh. A
  login, and a proof over a shared secret, pass when the key is the MD5 over secret and time
  stamp (or, for a login, the server has no token) and the stamp is within the window of the
  server's clock in either direction; a window of 0 admits every stamp, and one of \<open>2 ^ 63\<close> or
  more none. No difference of clocks overflows.\<close>

theorem credentials_exact:
  "(snd (provider_verify_login md5 x clock cred ts run_id skew (TokenAuth secret)) = Inr [] \<longleftrightarrow>
      is_fresh clock ts skew \<and> (secret = [] \<or> cred = auth_key md5 secret ts))
   \<and> (verify_shared_secret_proof md5 clock secret cred ts skew = Inr () \<longleftrightarrow>
      is_fresh clock ts skew \<and> cred = auth_key md5 secret ts)
   \<and> (check_freshness clock ts skew = Inr () \<longleftrightarrow>
        skew = 0 \<or> skew = 2 ^ 63 - 1
        \<or> unat skew < 2 ^ 63 \<and> \<bar>sint (unix_secs clock) - sint ts\<bar> \<le> int (unat skew))"
proof (intro conjI)
  show "snd (provider_verify_login md5 x clock cred ts run_id skew (TokenAuth secret)) = Inr [] \<longleftrightarrow>
      is_fresh clock ts skew \<and> (secret = [] \<or> cred = auth_key md5 secret ts)"
    unfolding verify_login_token by simp
  show "verify_shared_secret_proof md5 clock secret cred ts skew = Inr () \<longleftrightarrow>
      is_fresh clock ts skew \<and> cred = auth_key md5 secret ts"
    by (auto simp: verify_shared_secret_proof_def res_bind_Inr_iff check_freshness_Inr auth_key_eq)
  show "check_freshness clock ts skew = Inr () \<longleftrightarrow>
        skew = 0 \<or> skew = 2 ^ 63 - 1
        \<or> unat skew < 2 ^ 63 \<and> \<bar>sint (unix_secs clock) - sint ts\<bar> \<le> int (unat skew)"
    unfolding check_freshness_Inr is_fresh_def ..
qed


text \<open>A VirtualNet registration takes over the identity of any session. With OIDC and work
  connections that are checked, let a session \<open>r\<close> be bound to the subject of its own login, and
  let a user with another, valid token register with the VirtualNet under the client name \<open>r\<close>:
  from then on a work connection for \<open>r\<close> with that user's token is accepted, and the token of
  the session's own client is refused.\<close>

theorem vnet_takes_over_session:
  assumes "sc_auth ctx = OidcAuth v" "check_new_work_conns (sc_cfg ctx)"
    and "fmlookup (ov_subjects v) r = Some owner" "trim r \<noteq> []" "r \<noteq> []"
    and "res_bind (verify_token x clock v owners_token) (subject_of x) = Inr owner"
    and "res_bind (verify_token x clock v other_token) (subject_of x) = Inr other" "other \<noteq> owner"
    and "is_fresh clock ts (sc_skew ctx)"
  shows "\<exists>ctx'. vnet_auth md5 x clock r other_token ts ctx = (ctx', Inr ())
    \<and> work_conn_auth md5 x clock ctx client peer owners_token ts' r = Inr ()
    \<and> work_conn_auth md5 x clock ctx' client peer other_token ts' r = Inr ()
    \<and> work_conn_auth md5 x clock ctx' client peer owners_token ts' r
        = Inl (FollowupRefused (OidcRefused SubOfOther))"
proof -
  define v' where "v' = v\<lparr>ov_subjects := fmupd r other (ov_subjects v)\<rparr>"
  define ctx' where "ctx' = ctx\<lparr>sc_auth := OidcAuth v'\<rparr>"
  have vt: "verify_token x clock v' t = verify_token x clock v t" for t
    by (rule verify_token_cong) (simp_all add: v'_def)
  have reg: "vnet_auth md5 x clock r other_token ts ctx = (ctx', Inr ())"
    using assms(1,4) verify_login_oidc [OF assms(9,7,5), of md5]
    by (simp add: vnet_auth_def sec_verify_login_def ctx'_def v'_def)
  have before: "verify_post_login x clock v owners_token r = Inr owner"
    using followup_exact [OF assms(6,5)] assms(3) by simp
  have own: "verify_post_login x clock v' owners_token r = Inl SubOfOther"
    using followup_exact [of x clock v' owners_token owner r] assms(5,6,8) vt by (simp add: v'_def)
  have oth: "verify_post_login x clock v' other_token r = Inr other"
    using followup_exact [of x clock v' other_token other r] assms(5,7) vt by (simp add: v'_def)
  have "work_conn_auth md5 x clock ctx client peer owners_token ts' r = Inr ()"
    "work_conn_auth md5 x clock ctx' client peer other_token ts' r = Inr ()"
    "work_conn_auth md5 x clock ctx' client peer owners_token ts' r = Inl (FollowupRefused (OidcRefused SubOfOther))"
    using before own oth assms(1,2) by (simp_all add: work_conn_auth_def sec_verify_followup_def ctx'_def)
  with reg show ?thesis by blast
qed

text \<open>An instance: base64 and JSON read as plain text, every signature right.\<close>

definition demo_crates :: "bytes crates" where
  "demo_crates =
     \<lparr>xt_no_pad = (\<lambda>s. Some (as_bytes s)), xt_padded = (\<lambda>_. None),
      xt_header = (\<lambda>_. Some \<lparr>jh_alg = ''RS256'', jh_kid = None\<rparr>), xt_payload = Some,
      xt_json = \<lparr>js_get = (\<lambda>v key. if key = ''sub'' then Some v else None),
                 js_str = (\<lambda>v. Some (map char_of_byte v)), js_array = (\<lambda>_. None), js_i64 = (\<lambda>_. None)\<rparr>,
      xt_verify = (\<lambda>_ _ _ _. True)\<rparr>"

definition demo_verifier :: oidc_verifier where
  "demo_verifier =
     \<lparr>ov_cfg = \<lparr>oc_issuer = ''i'', oc_audience = [], oc_skip_expiry = True, oc_skip_issuer = True\<rparr>,
      ov_keys = Some [\<lparr>jk_kty = ''RSA'', jk_kid = [], jk_alg = [], jk_n = [], jk_e = [], jk_crv = [],
                       jk_x = [], jk_y = []\<rparr>],
      ov_subjects = fmupd ''r'' ''u'' fmempty\<rparr>"

definition demo_ctx :: sec_ctx where
  "demo_ctx =
     \<lparr>sc_auth = OidcAuth demo_verifier,
      sc_cfg = \<lparr>sa_method = MethodOidc, sa_token = [], sa_scopes = default_scopes,
                sa_oidc = ov_cfg demo_verifier\<rparr>,
      sc_skew = 300\<rparr>"

lemma demo_sub:
  assumes "c = CHR ''u'' \<or> c = CHR ''w''"
  shows "res_bind (verify_token demo_crates 0 demo_verifier (''h.'' @ c # ''.s'')) (subject_of demo_crates) = Inr [c]"
proof -
  have t: "trim (''h.'' @ c # ''.s'') = ''h.'' @ c # ''.s''"
    by (rule trim_tight) (simp add: tight_def graphic_def)
  have "parse_jwt demo_crates (''h.'' @ c # ''.s'') =
      Inr \<lparr>pj_header = \<lparr>jh_alg = ''RS256'', jh_kid = None\<rparr>, pj_header_b64 = ''h'', pj_payload_b64 = [c],
           pj_payload = as_bytes [c], pj_signature = as_bytes ''s''\<rparr>"
    using assms unfolding parse_jwt_def t by (auto simp: str_strip_prefix_def demo_crates_def b64url_def)
  then have "verify_token demo_crates 0 demo_verifier (''h.'' @ c # ''.s'') = Inr (as_bytes [c])"
    unfolding verify_token_Inr check_claims_Inr check_iss_Inr check_aud_Inr check_times_Inr
    by (auto simp: demo_verifier_def SUPPORTED_ALGS_def key_accepts_def verify_signature_def jwk_to_ring_key_def
        pick_algorithm_def demo_crates_def b64url_def to_ascii_uppercase_def ascii_upper_def Let_def)
  then show ?thesis using assms by (auto simp: subject_of_def demo_crates_def as_bytes_def)
qed

theorem vnet_takes_over_session_witness:
  "\<exists>ctx'. vnet_auth (\<lambda>_. []) demo_crates 0 ''r'' ''h.w.s'' 0 demo_ctx = (ctx', Inr ())
    \<and> work_conn_auth (\<lambda>_. []) demo_crates 0 ctx' \<lparr>wo_peer_ip = V4 1, wo_work_conn_cred = True\<rparr> (V4 9) ''h.w.s'' 0 ''r''
        = Inr ()"
proof -
  have t: "trim ''r'' = ''r''" by (rule trim_tight) (simp add: tight_def graphic_def)
  have a: "sc_auth demo_ctx = OidcAuth demo_verifier" "check_new_work_conns (sc_cfg demo_ctx)"
    "fmlookup (ov_subjects demo_verifier) ''r'' = Some ''u''" "trim ''r'' \<noteq> []" "''r'' \<noteq> []"
    unfolding t by (simp_all add: demo_ctx_def check_new_work_conns_def default_scopes_def demo_verifier_def)
  have s: "res_bind (verify_token demo_crates 0 demo_verifier ''h.u.s'') (subject_of demo_crates) = Inr ''u''"
    "res_bind (verify_token demo_crates 0 demo_verifier ''h.w.s'') (subject_of demo_crates) = Inr ''w''" "''w'' \<noteq> ''u''"
    using demo_sub [of "CHR ''u''"] demo_sub [of "CHR ''w''"] by simp_all
  have f: "is_fresh 0 0 (sc_skew demo_ctx)" by (simp add: is_fresh_def demo_ctx_def unix_secs_def)
  show ?thesis
    using vnet_takes_over_session [OF a s f, of "\<lambda>_. []" "\<lparr>wo_peer_ip = V4 1, wo_work_conn_cred = True\<rparr>" "V4 9" 0]
    by blast
qed

end
