(* ===== verification/Rbac.thy ===== *)
theory Rbac
  imports Rust_Std
begin

text \<open>
  Authorisation: the roles of \<open>common/src/security.rs\<close> with their port ranges, and the
  \<open>allowPorts\<close> list of \<open>common/src/config.rs\<close>.
\<close>

section \<open>Port ranges of a role\<close>

record port_range =
  pr_lo :: u16
  pr_hi :: u16

datatype rbac_error =
    LowNotNumber | HighNotNumber | PortNotNumber | LowAboveHigh
  | RoleWithoutName | NoDefaultRole | NoRoleMatches
  | TypeNotAllowed | PortNotAllowed | VisitorsNotAllowed | TooManyProxies

definition role_port_range_parse :: "string \<Rightarrow> rbac_error + port_range" where
  "role_port_range_parse s0 =
     (let s = trim s0 in
      res_bind
        (case split_once CHR ''-'' s of
           Some (a, b) \<Rightarrow>
             res_bind (ok_or LowNotNumber (parse_u16 (trim a))) (\<lambda>lo.
             res_bind (ok_or HighNotNumber (parse_u16 (trim b))) (\<lambda>hi. Inr (lo, hi)))
         | None \<Rightarrow> res_bind (ok_or PortNotNumber (parse_u16 s)) (\<lambda>v. Inr (v, v)))
        (\<lambda>(lo, hi). if lo > hi then Inl LowAboveHigh else Inr \<lparr>pr_lo = lo, pr_hi = hi\<rparr>))"

definition role_port_range_contains :: "port_range \<Rightarrow> u16 \<Rightarrow> bool" where
  "role_port_range_contains r port \<longleftrightarrow> port \<ge> pr_lo r \<and> port \<le> pr_hi r"

section \<open>Roles\<close>

record role_config =
  rc_name :: string
  rc_users :: "string list"
  rc_types :: "string list"
  rc_port_range :: "string option"
  rc_manage :: bool
  rc_visitors :: bool
  rc_max_proxies :: nat

record rbac_config =
  rb_roles :: "role_config list"
  rb_default_role :: string
  rb_deny_unknown :: bool

record role =
  ro_name :: string
  ro_users :: "string list"
  ro_types :: "string list"
  ro_port_range :: "port_range option"
  ro_manage :: bool
  ro_visitors :: bool
  ro_max_proxies :: nat

record compiled_rbac =
  cr_roles :: "role list"
  cr_default_role :: string
  cr_deny_unknown :: bool

definition compile_role :: "role_config \<Rightarrow> rbac_error + role" where
  "compile_role r =
     (if trim (rc_name r) = [] then Inl RoleWithoutName
      else res_bind
        (case rc_port_range r of
           Some s \<Rightarrow> if trim s \<noteq> [] then res_bind (role_port_range_parse s) (\<lambda>p. Inr (Some p)) else Inr None
         | None \<Rightarrow> Inr None)
        (\<lambda>range. Inr \<lparr>ro_name = rc_name r, ro_users = rc_users r,
                      ro_types = map to_ascii_lowercase (rc_types r), ro_port_range = range,
                      ro_manage = rc_manage r, ro_visitors = rc_visitors r,
                      ro_max_proxies = rc_max_proxies r\<rparr>))"

fun compile_roles :: "role_config list \<Rightarrow> rbac_error + role list" where
  "compile_roles [] = Inr []"
| "compile_roles (r # rs) =
     res_bind (compile_role r) (\<lambda>c. res_bind (compile_roles rs) (\<lambda>cs. Inr (c # cs)))"

definition rbac_compile :: "rbac_config \<Rightarrow> rbac_error + compiled_rbac" where
  "rbac_compile cfg =
     res_bind (compile_roles (rb_roles cfg)) (\<lambda>roles.
       Inr \<lparr>cr_roles = roles, cr_default_role = rb_default_role cfg,
            cr_deny_unknown = rb_deny_unknown cfg\<rparr>)"

definition role_unrestricted :: role where
  "role_unrestricted =
     \<lparr>ro_name = ''unrestricted'', ro_users = [''*''], ro_types = [], ro_port_range = None,
      ro_manage = True, ro_visitors = True, ro_max_proxies = 0\<rparr>"

definition role_matches_user :: "role \<Rightarrow> string \<Rightarrow> bool" where
  "role_matches_user r user \<longleftrightarrow> list_ex (\<lambda>u. u = ''*'' \<or> u = user) (ro_users r)"

definition role_allow_proxy_type :: "role \<Rightarrow> string \<Rightarrow> bool" where
  "role_allow_proxy_type r ty \<longleftrightarrow>
     ro_types r = [] \<or> list_ex (\<lambda>t. eq_ignore_ascii_case t ty) (ro_types r)"

definition role_allow_port :: "role \<Rightarrow> u16 \<Rightarrow> bool" where
  "role_allow_port r port \<longleftrightarrow>
     (case ro_port_range r of Some p \<Rightarrow> role_port_range_contains p port | None \<Rightarrow> True)"

definition rbac_is_disabled :: "compiled_rbac \<Rightarrow> bool" where
  "rbac_is_disabled c \<longleftrightarrow> cr_roles c = []"

definition role_for :: "compiled_rbac \<Rightarrow> string \<Rightarrow> rbac_error + role" where
  "role_for c user =
     (if cr_roles c = [] then Inr role_unrestricted
      else case find (\<lambda>r. role_matches_user r user) (cr_roles c) of
          Some r \<Rightarrow> Inr r
        | None \<Rightarrow>
            if cr_default_role c \<noteq> [] then
              (case find (\<lambda>r. ro_name r = cr_default_role c) (cr_roles c) of
                 Some r \<Rightarrow> Inr r
               | None \<Rightarrow> Inl NoDefaultRole)
            else if cr_deny_unknown c then Inl NoRoleMatches
            else Inr role_unrestricted)"

definition SUPPORTED_VISITOR_TYPES :: "string list" where
  "SUPPORTED_VISITOR_TYPES = [''stcp'', ''xtcp'', ''sudp'']"

definition is_visitor_type :: "string \<Rightarrow> bool" where
  "is_visitor_type ty \<longleftrightarrow>
     (let t = to_ascii_lowercase (trim ty) in list_ex (\<lambda>v. v = t) SUPPORTED_VISITOR_TYPES)"

definition check_proxy :: "role \<Rightarrow> string \<Rightarrow> u16 \<Rightarrow> nat \<Rightarrow> rbac_error + unit" where
  "check_proxy r ty port used_proxies =
     (let ty_l = to_ascii_lowercase ty in
      if \<not> role_allow_proxy_type r ty_l then Inl TypeNotAllowed
      else if (ty_l = ''tcp'' \<or> ty_l = ''udp'') \<and> port \<noteq> 0 \<and> \<not> role_allow_port r port then Inl PortNotAllowed
      else if \<not> ro_visitors r \<and> is_visitor_type ty_l then Inl VisitorsNotAllowed
      else if ro_max_proxies r > 0 \<and> used_proxies \<ge> ro_max_proxies r then Inl TooManyProxies
      else Inr ())"

section \<open>The list of allowed ports\<close>

record ports_range =
  ps_start :: u16
  ps_end :: u16

definition ports_range_single :: "u16 \<Rightarrow> ports_range" where
  "ports_range_single p = \<lparr>ps_start = p, ps_end = p\<rparr>"

definition ports_range_new :: "u16 \<Rightarrow> u16 \<Rightarrow> ports_range" where
  "ports_range_new a b =
     (if a \<le> b then \<lparr>ps_start = a, ps_end = b\<rparr> else \<lparr>ps_start = b, ps_end = a\<rparr>)"

definition ports_range_contains :: "ports_range \<Rightarrow> u16 \<Rightarrow> bool" where
  "ports_range_contains r port \<longleftrightarrow> ps_start r \<le> port \<and> port \<le> ps_end r"

definition ports_range_fmt :: "ports_range \<Rightarrow> string" where
  "ports_range_fmt r =
     (if ps_start r = ps_end r then show_nat (unat (ps_start r))
      else show_nat (unat (ps_start r)) @ ''-'' @ show_nat (unat (ps_end r)))"

datatype ports_error = PortsNotNumber | PortsReversed | PortsParts

fun port_items_loop :: "string list \<Rightarrow> ports_range list \<Rightarrow> ports_error + ports_range list" where
  "port_items_loop [] out = Inr out"
| "port_items_loop (i # items) out =
     (let num = (\<lambda>t. ok_or PortsNotNumber (parse_u16 (trim t))) in
      case split_on CHR ''-'' (trim i) of
        [a] \<Rightarrow> res_bind (num a) (\<lambda>v. port_items_loop items (out @ [ports_range_single v]))
      | [x, y] \<Rightarrow>
          res_bind (num x) (\<lambda>a. res_bind (num y) (\<lambda>b.
            if b < a then Inl PortsReversed
            else port_items_loop items (out @ [ports_range_new a b])))
      | _ \<Rightarrow> Inl PortsParts)"

definition parse_port_ranges :: "string \<Rightarrow> ports_error + ports_range list" where
  "parse_port_ranges s =
     (let trimmed = trim s in
      if trimmed = [] then Inr [] else port_items_loop (split_on CHR '','' trimmed) [])"

definition format_port_ranges :: "ports_range list \<Rightarrow> string" where
  "format_port_ranges rs = join_with '','' (map ports_range_fmt rs)"

definition port_allowed :: "ports_range list \<Rightarrow> u16 \<Rightarrow> bool" where
  "port_allowed allow port \<longleftrightarrow> allow = [] \<or> list_ex (\<lambda>r. ports_range_contains r port) allow"


section \<open>Lemmas\<close>

definition ports_range_ok :: "ports_range \<Rightarrow> bool" where
  "ports_range_ok r \<longleftrightarrow> ps_start r \<le> ps_end r"

lemma show_nat_no: "(of_char c :: nat) < 48 \<Longrightarrow> c \<notin> set (show_nat n)"
  by (rule show_nat_no_low)

lemma parse_port_show: "ok_or e (parse_u16 (trim (show_nat (unat p)))) = Inr p"
  by (simp add: parse_show_nat)

lemma graphic_range: "list_all graphic (ports_range_fmt r)"
  by (simp add: ports_range_fmt_def graphic_show_nat) (simp add: graphic_def)

lemma comma_range: "CHR '','' \<notin> set (ports_range_fmt r)"
  by (auto simp: ports_range_fmt_def dest: show_nat_no [THEN notE, rotated])

lemma port_items_fmt:
  assumes "list_all ports_range_ok rs"
  shows "port_items_loop (map ports_range_fmt rs) out = Inr (out @ rs)"
  using assms
proof (induction rs arbitrary: out)
  case (Cons r rs)
  have trim: "trim (ports_range_fmt r) = ports_range_fmt r"
    by (rule trim_tight, rule tight_list_all, rule graphic_range)
  have dash: "CHR ''-'' \<notin> set (show_nat n)" for n by (rule show_nat_no) simp
  show ?case
  proof (cases "ps_start r = ps_end r")
    case True
    then have "split_on CHR ''-'' (ports_range_fmt r) = [show_nat (unat (ps_start r))]"
      using dash by (simp add: ports_range_fmt_def split_on_free)
    moreover have "ports_range_single (ps_start r) = r" using True by (simp add: ports_range_single_def)
    ultimately show ?thesis using Cons trim by (simp add: parse_show_nat)
  next
    case False
    then have "split_on CHR ''-'' (ports_range_fmt r) = [show_nat (unat (ps_start r)), show_nat (unat (ps_end r))]"
      using dash by (simp add: ports_range_fmt_def split_on_append_sep split_on_free)
    moreover have "ports_range_new (ps_start r) (ps_end r) = r" "\<not> ps_end r < ps_start r"
      using Cons.prems by (simp_all add: ports_range_new_def ports_range_ok_def not_less)
    ultimately show ?thesis using Cons trim by (simp add: parse_show_nat)
  qed
qed simp

lemma port_items_ok:
  "port_items_loop items out = Inr rs \<Longrightarrow> list_all ports_range_ok out \<Longrightarrow> list_all ports_range_ok rs"
proof (induction items arbitrary: out)
  case (Cons i items)
  have step: "list_all ports_range_ok (out @ [ports_range_single a])" "list_all ports_range_ok (out @ [ports_range_new a b])"
    for a b using Cons.prems(2) by (simp_all add: list_all_iff) (auto simp: ports_range_ok_def ports_range_single_def ports_range_new_def)
  from Cons.prems(1) obtain r where "port_items_loop items (out @ [r]) = Inr rs" "list_all ports_range_ok (out @ [r])"
    by (auto simp: res_bind_Inr_iff Let_def split: list.splits if_splits intro: that step)
  then show ?case by (rule Cons.IH)
qed simp

section \<open>Properties\<close>

text \<open>C33: the list of allowed ports can be printed and read back. A list of ranges that are in
  order, printed the way the server shows it, parses to itself; whatever parses has its ranges
  in order; and a port is admitted when the list is empty or one of its ranges holds it.\<close>

theorem port_list_roundtrip:
  "(list_all ports_range_ok rs \<longrightarrow> parse_port_ranges (format_port_ranges rs) = Inr rs)
   \<and> (parse_port_ranges s = Inr rs' \<longrightarrow> list_all ports_range_ok rs')
   \<and> (port_allowed rs port \<longleftrightarrow> rs = [] \<or> (\<exists>r. r \<in> set rs \<and> ps_start r \<le> port \<and> port \<le> ps_end r))"
proof (intro conjI impI)
  assume ok: "list_all ports_range_ok rs"
  show "parse_port_ranges (format_port_ranges rs) = Inr rs"
  proof (cases rs)
    case Nil
    then show ?thesis by (simp add: parse_port_ranges_def format_port_ranges_def trim_tight tight_def)
  next
    case (Cons r rest)
    have "list_all graphic (format_port_ranges rs)"
      unfolding format_port_ranges_def
      by (rule list_all_join) (use graphic_range in \<open>simp_all add: list.pred_map o_def list.pred_set\<close>, simp add: graphic_def)
    then have t: "trim (format_port_ranges rs) = format_port_ranges rs" by (intro trim_tight tight_list_all)
    have s: "split_on CHR '','' (format_port_ranges rs) = map ports_range_fmt rs"
      unfolding format_port_ranges_def by (rule split_on_join) (use comma_range Cons in auto)
    have "format_port_ranges rs \<noteq> []"
      using s Cons by (metis list.discI list.map(2) list.sel(1) map_is_Nil_conv split_on.simps(1) ports_range_fmt_def
          show_nat_nonempty append_is_Nil_conv)
    then show ?thesis using port_items_fmt [OF ok, of "[]"] t s by (simp add: parse_port_ranges_def Let_def)
  qed
next
  assume "parse_port_ranges s = Inr rs'"
  then show "list_all ports_range_ok rs'"
    by (auto simp: parse_port_ranges_def Let_def split: if_splits dest: port_items_ok)
next
  show "port_allowed rs port \<longleftrightarrow> rs = [] \<or> (\<exists>r. r \<in> set rs \<and> ps_start r \<le> port \<and> port \<le> ps_end r)"
    by (auto simp: port_allowed_def list_ex_iff ports_range_contains_def)
qed

theorem port_list_roundtrip_witness:
  "parse_port_ranges (format_port_ranges [\<lparr>ps_start = 22, ps_end = 22\<rparr>, \<lparr>ps_start = 6000, ps_end = 6010\<rparr>])
     = Inr [\<lparr>ps_start = 22, ps_end = 22\<rparr>, \<lparr>ps_start = 6000, ps_end = 6010\<rparr>]"
  using port_list_roundtrip [of "[\<lparr>ps_start = 22, ps_end = 22\<rparr>, \<lparr>ps_start = 6000, ps_end = 6010\<rparr>]"]
  by (auto simp: ports_range_ok_def)

end
