(* ===== verification/Pool.thy ===== *)
theory Pool
  imports Quotas "HOL-Library.Multiset"
begin

text \<open>
  The work connection pool of a client (\<open>server/src/pool.rs\<close>) and \<open>admit_user\<close> of
  \<open>server/src/serve.rs\<close>: users that wait for a work connection, work connections that wait for a
  user, and the quotas both hold. A connection is its number; a relay that is running keeps the
  user and the work connection it was paired from, and with them their permits, until it ends
  (\<open>bridge\<close> takes both by value and moves only the streams out of them).
\<close>

section \<open>State\<close>

record work_item =
  wi_id :: nat
  wi_at :: instant
  wi_permit :: "permit option"

text \<open>\<open>pu_slot\<close> is the \<open>ConnSlot\<close>: the global permit and the client's.\<close>

record pending_user =
  pu_id :: nat
  pu_at :: instant
  pu_slot :: "(permit \<times> permit) option"
  pu_permit :: "permit option"

record 's pool =
  pl_work :: "work_item list"
  pl_users :: "pending_user list"
  pl_idle_timeout :: duration
  pl_user_timeout :: duration
  pl_global_limit :: "'s limit"
  pl_conn_limit :: "'s limit"
  pl_backlog_limit :: "'s limit"
  pl_idle_limit :: "'s limit"
  pl_suspended :: bool
  pl_stopped :: bool
  pl_notified :: bool
  pl_requests :: nat

definition idle_cap :: "nat \<Rightarrow> nat \<Rightarrow> nat" where
  "idle_cap backlog_max max_pool_count =
     (if backlog_max = 0 \<and> max_pool_count = 0 then 0
      else if backlog_max = 0 then max_pool_count
      else if max_pool_count = 0 then backlog_max
      else min backlog_max max_pool_count)"

definition pool_new ::
  "'s semaphore \<Rightarrow> duration \<Rightarrow> duration \<Rightarrow> nat \<Rightarrow> nat \<Rightarrow> nat \<Rightarrow> nat \<Rightarrow> 's pool" where
  "pool_new sm idle_timeout user_timeout max_total max_conns max_pending max_pool_count =
     \<lparr>pl_work = [], pl_users = [], pl_idle_timeout = idle_timeout, pl_user_timeout = user_timeout,
      pl_global_limit = limit_new sm max_total, pl_conn_limit = limit_new sm max_conns,
      pl_backlog_limit = limit_new sm max_pending,
      pl_idle_limit = limit_new sm (idle_cap max_pending max_pool_count),
      pl_suspended = False, pl_stopped = False, pl_notified = False, pl_requests = 0\<rparr>"

section \<open>Permits\<close>

definition drop_work :: "'s semaphore \<Rightarrow> work_item \<Rightarrow> 's pool \<Rightarrow> 's pool" where
  "drop_work sm w p =
     (case wi_permit w of
        None \<Rightarrow> p | Some q \<Rightarrow> p\<lparr>pl_idle_limit := permit_drop sm q (pl_idle_limit p)\<rparr>)"

definition drop_conn_slot :: "'s semaphore \<Rightarrow> (permit \<times> permit) option \<Rightarrow> 's pool \<Rightarrow> 's pool" where
  "drop_conn_slot sm slot p =
     (case slot of
        None \<Rightarrow> p
      | Some (g, c) \<Rightarrow>
          p\<lparr>pl_global_limit := permit_drop sm g (pl_global_limit p),
            pl_conn_limit := permit_drop sm c (pl_conn_limit p)\<rparr>)"

definition drop_user :: "'s semaphore \<Rightarrow> pending_user \<Rightarrow> 's pool \<Rightarrow> 's pool" where
  "drop_user sm u p =
     (let p1 = drop_conn_slot sm (pu_slot u) p in
      case pu_permit u of
        None \<Rightarrow> p1 | Some q \<Rightarrow> p1\<lparr>pl_backlog_limit := permit_drop sm q (pl_backlog_limit p1)\<rparr>)"

definition conn_slot_acquire :: "'s semaphore \<Rightarrow> 's pool \<Rightarrow> 's pool \<times> (permit \<times> permit) option" where
  "conn_slot_acquire sm p =
     (case limit_try_acquire sm (pl_global_limit p) of
        (g, None) \<Rightarrow> (p\<lparr>pl_global_limit := g\<rparr>, None)
      | (g, Some a) \<Rightarrow>
          (case limit_try_acquire sm (pl_conn_limit p) of
             (c, Some b) \<Rightarrow> (p\<lparr>pl_global_limit := g, pl_conn_limit := c\<rparr>, Some (a, b))
           | (c, None) \<Rightarrow> (p\<lparr>pl_global_limit := permit_drop sm a g, pl_conn_limit := c\<rparr>, None)))"

section \<open>Operations\<close>

text \<open>\<open>PoolState::reap\<close>: from the front of each queue, those that have waited too long.\<close>

definition reap :: "'s semaphore \<Rightarrow> instant \<Rightarrow> 's pool \<Rightarrow> 's pool" where
  "reap sm now p =
     (let old_work = takeWhile (\<lambda>w. now - wi_at w > pl_idle_timeout p) (pl_work p);
          old_users = takeWhile (\<lambda>u. now - pu_at u > pl_user_timeout p) (pl_users p);
          p1 = fold (drop_work sm) old_work (p\<lparr>pl_work := drop (length old_work) (pl_work p)\<rparr>)
      in fold (drop_user sm) old_users (p1\<lparr>pl_users := drop (length old_users) (pl_users p1)\<rparr>))"

definition request_work_conn :: "'s pool \<Rightarrow> 's pool" where
  "request_work_conn p = (if pl_suspended p then p else p\<lparr>pl_requests := pl_requests p + 1\<rparr>)"

text \<open>One attempt of \<open>acquire_work_conn_within\<close>; it is made again after each notification until the
  deadline, with a request to the client before each wait.\<close>

definition acquire_attempt :: "'s pool \<Rightarrow> 's pool \<times> work_item option" where
  "acquire_attempt p =
     (if pl_suspended p \<or> pl_stopped p then (p, None)
      else case pl_work p of
          w # ws \<Rightarrow> (p\<lparr>pl_work := ws\<rparr>, Some w)
        | [] \<Rightarrow> (request_work_conn p, None))"

datatype submit = Paired pending_user work_item | Queued | Full pending_user

definition submit_user :: "'s semaphore \<Rightarrow> instant \<Rightarrow> pending_user \<Rightarrow> 's pool \<Rightarrow> 's pool \<times> submit" where
  "submit_user sm now user p0 =
     (if pl_suspended p0 \<or> pl_stopped p0 then (p0, Full user)
      else
        let p = reap sm now p0 in
        case pl_work p of
          w # ws \<Rightarrow> (p\<lparr>pl_work := ws\<rparr>, Paired user w)
        | [] \<Rightarrow>
            (case limit_try_acquire sm (pl_backlog_limit p) of
               (l, None) \<Rightarrow> (p\<lparr>pl_backlog_limit := l\<rparr>, Full user)
             | (l, Some q) \<Rightarrow>
                 (p\<lparr>pl_backlog_limit := l, pl_users := pl_users p @ [user\<lparr>pu_permit := Some q\<rparr>]\<rparr>, Queued)))"

definition submit_work ::
  "'s semaphore \<Rightarrow> instant \<Rightarrow> work_item \<Rightarrow> 's pool \<Rightarrow> 's pool \<times> (pending_user \<times> work_item) option" where
  "submit_work sm now w p0 =
     (let p = reap sm now p0 in
      case pl_users p of
        u # us \<Rightarrow> (p\<lparr>pl_users := us\<rparr>, Some (u, w))
      | [] \<Rightarrow>
          (case limit_try_acquire sm (pl_idle_limit p) of
             (l, Some q) \<Rightarrow>
               (p\<lparr>pl_idle_limit := l, pl_work := pl_work p @ [w\<lparr>wi_permit := Some q\<rparr>], pl_notified := True\<rparr>, None)
           | (l, None) \<Rightarrow> (p\<lparr>pl_idle_limit := l\<rparr>, None)))"

text \<open>\<open>admit_user\<close>; the pair, if any, is what \<open>spawn_bridge\<close> starts to relay. A user that is
  turned away is dropped.\<close>

definition admit_user ::
  "'s semaphore \<Rightarrow> instant \<Rightarrow> pending_user \<Rightarrow> 's pool \<Rightarrow> 's pool \<times> (pending_user \<times> work_item) option" where
  "admit_user sm now user p =
     (if pu_slot user = None then (drop_user sm user p, None)
      else case submit_user sm now user p of
          (p1, Paired u w) \<Rightarrow> (p1, Some (u, w))
        | (p1, Queued) \<Rightarrow> (request_work_conn p1, None)
        | (p1, Full u) \<Rightarrow> (drop_user sm u p1, None))"

definition pool_stop :: "'s semaphore \<Rightarrow> 's pool \<Rightarrow> 's pool" where
  "pool_stop sm p =
     (let p1 = fold (drop_work sm) (pl_work p) (p\<lparr>pl_stopped := True, pl_work := []\<rparr>) in p1)"

definition pool_backlog :: "'s pool \<Rightarrow> nat" where
  "pool_backlog p = length (pl_users p)"

definition idle_work_conns :: "'s pool \<Rightarrow> nat" where
  "idle_work_conns p = length (pl_work p)"

section \<open>Batch requests\<close>

record batch_state =
  bs_batch :: nat
  bs_last_ms :: u64

text \<open>\<open>take_batch_request\<close>; \<open>backlog\<close> users wait and the clock says \<open>now\<close> milliseconds. The casts to
  \<open>u32\<close> keep the low bits.\<close>

definition take_batch_request :: "u64 \<Rightarrow> nat \<Rightarrow> batch_state \<Rightarrow> batch_state \<times> u32 option" where
  "take_batch_request now backlog b =
     (if bs_batch b < 2 then (b, None)
      else if backlog < 2 then (b, None)
      else
        let b' = b\<lparr>bs_last_ms := now\<rparr> in
        if (if now \<ge> bs_last_ms b then now - bs_last_ms b else 0) < 250 then (b', None)
        else (b', Some (max 2 (min 256 (min (of_nat (bs_batch b)) (of_nat backlog))))))"

section \<open>Runs\<close>

text \<open>A client with the relays that are running and the work connections handed to virtual hosts,
  visitors and UDP proxies.\<close>

record 's pool_world =
  qw_pool :: "'s pool"
  qw_relays :: "(pending_user \<times> work_item) list"
  qw_taken :: "work_item list"

datatype pool_op =
    UserArrives nat instant
  | WorkArrives nat instant
  | TakeWork
  | RelayEnds nat
  | TakenEnds nat
  | SetSuspended bool
  | StopClient

definition remove_nth :: "nat \<Rightarrow> 'a list \<Rightarrow> 'a list" where
  "remove_nth i xs = take i xs @ drop (Suc i) xs"

definition paired_with :: "'s pool \<times> (pending_user \<times> work_item) option \<Rightarrow> 's pool_world \<Rightarrow> 's pool_world" where
  "paired_with r w =
     w\<lparr>qw_pool := fst r, qw_relays := (case snd r of None \<Rightarrow> qw_relays w | Some pr \<Rightarrow> pr # qw_relays w)\<rparr>"

fun pool_step :: "'s semaphore \<Rightarrow> 's pool_world \<Rightarrow> pool_op \<Rightarrow> 's pool_world" where
  "pool_step sm w (UserArrives i now) =
     (case conn_slot_acquire sm (qw_pool w) of
        (p, slot) \<Rightarrow>
          paired_with (admit_user sm now \<lparr>pu_id = i, pu_at = now, pu_slot = slot, pu_permit = None\<rparr> p) w)"
| "pool_step sm w (WorkArrives i now) =
     paired_with (submit_work sm now \<lparr>wi_id = i, wi_at = now, wi_permit = None\<rparr> (qw_pool w)) w"
| "pool_step sm w TakeWork =
     (case acquire_attempt (qw_pool w) of
        (p, None) \<Rightarrow> w\<lparr>qw_pool := p\<rparr>
      | (p, Some i) \<Rightarrow> w\<lparr>qw_pool := p, qw_taken := i # qw_taken w\<rparr>)"
| "pool_step sm w (RelayEnds i) =
     (if i < length (qw_relays w)
      then w\<lparr>qw_pool := drop_work sm (snd (qw_relays w ! i)) (drop_user sm (fst (qw_relays w ! i)) (qw_pool w)),
             qw_relays := remove_nth i (qw_relays w)\<rparr>
      else w)"
| "pool_step sm w (TakenEnds i) =
     (if i < length (qw_taken w)
      then w\<lparr>qw_pool := drop_work sm (qw_taken w ! i) (qw_pool w), qw_taken := remove_nth i (qw_taken w)\<rparr>
      else w)"
| "pool_step sm w (SetSuspended b) = w\<lparr>qw_pool := (qw_pool w)\<lparr>pl_suspended := b\<rparr>\<rparr>"
| "pool_step sm w StopClient = w\<lparr>qw_pool := pool_stop sm (qw_pool w)\<rparr>"

definition pool_run :: "'s semaphore \<Rightarrow> 's pool \<Rightarrow> pool_op list \<Rightarrow> 's pool_world" where
  "pool_run sm p ops = foldl (pool_step sm) \<lparr>qw_pool = p, qw_relays = [], qw_taken = []\<rparr> ops"

section \<open>Lemmas: permits that are out\<close>

definition permits_out :: "'s semaphore \<Rightarrow> 's limit \<Rightarrow> nat \<Rightarrow> permit multiset \<Rightarrow> bool" where
  "permits_out sm l m ps \<longleftrightarrow> limit_held sm l m (size ps) \<and> (\<forall>p\<in>#ps. p = Unlimited \<longleftrightarrow> m = 0)"

lemma permits_out_new: "sem_ok sm \<Longrightarrow> permits_out sm (limit_new sm m) m {#}"
  by (simp add: permits_out_def limit_held_new)

lemma permits_out_acquire:
  "sem_ok sm \<Longrightarrow> permits_out sm l m ps \<Longrightarrow> limit_try_acquire sm l = (l', Some p) \<Longrightarrow>
     permits_out sm l' m (add_mset p ps)"
  using limit_held_acquire [of sm l m "size ps" l' p] by (auto simp: permits_out_def)

lemma permits_out_refuse:
  "sem_ok sm \<Longrightarrow> permits_out sm l m ps \<Longrightarrow> limit_try_acquire sm l = (l', None) \<Longrightarrow>
     l' = l \<and> m > 0 \<and> size ps = m"
  using limit_held_refuse [of sm l m "size ps" l'] by (auto simp: permits_out_def)

lemma permits_out_drop:
  "sem_ok sm \<Longrightarrow> permits_out sm l m (add_mset p ps) \<Longrightarrow> permits_out sm (permit_drop sm p l) m ps"
  using limit_held_drop [of sm l m "size ps" p] by (auto simp: permits_out_def)

lemma permits_out_used: "permits_out sm l m ps \<Longrightarrow> m > 0 \<Longrightarrow> limit_used sm l = size ps \<and> size ps \<le> m"
  by (auto simp: permits_out_def limit_held_def limit_used_def split: option.splits)

definition opt_mset :: "'a option \<Rightarrow> 'a multiset" where
  "opt_mset x = (case x of None \<Rightarrow> {#} | Some y \<Rightarrow> {#y#})"

lemma opt_mset_simps [simp]: "opt_mset None = {#}" "opt_mset (Some y) = {#y#}"
  by (simp_all add: opt_mset_def)

definition all_permits :: "('a \<Rightarrow> permit option) \<Rightarrow> 'a multiset \<Rightarrow> permit multiset" where
  "all_permits f xs = \<Sum>\<^sub># (image_mset (\<lambda>x. opt_mset (f x)) xs)"

lemma all_permits_simps [simp]:
  "all_permits f {#} = {#}"
  "all_permits f (add_mset x xs) = opt_mset (f x) + all_permits f xs"
  "all_permits f (xs + ys) = all_permits f xs + all_permits f ys"
  by (simp_all add: all_permits_def)

lemma size_all_permits: "size (all_permits f xs) = size (filter_mset (\<lambda>x. f x \<noteq> None) xs)"
proof (induction xs)
  case (add x xs)
  then show ?case by (cases "f x") simp_all
qed simp

text \<open>The four quotas of a pool against the users and work connections that are alive.\<close>

record caps4 =
  cp_global :: nat
  cp_conn :: nat
  cp_backlog :: nat
  cp_idle :: nat

definition quotas_ok ::
  "'s semaphore \<Rightarrow> caps4 \<Rightarrow> 's pool \<Rightarrow> pending_user multiset \<Rightarrow> work_item multiset \<Rightarrow> bool" where
  "quotas_ok sm m p us ws \<longleftrightarrow>
     permits_out sm (pl_global_limit p) (cp_global m) (all_permits (\<lambda>u. map_option fst (pu_slot u)) us)
     \<and> permits_out sm (pl_conn_limit p) (cp_conn m) (all_permits (\<lambda>u. map_option snd (pu_slot u)) us)
     \<and> permits_out sm (pl_backlog_limit p) (cp_backlog m) (all_permits pu_permit us)
     \<and> permits_out sm (pl_idle_limit p) (cp_idle m) (all_permits wi_permit ws)"

lemma quotas_ok_queues [simp]:
  "quotas_ok sm m (p\<lparr>pl_work := a\<rparr>) us ws = quotas_ok sm m p us ws"
  "quotas_ok sm m (p\<lparr>pl_users := b\<rparr>) us ws = quotas_ok sm m p us ws"
  "quotas_ok sm m (p\<lparr>pl_suspended := x\<rparr>) us ws = quotas_ok sm m p us ws"
  "quotas_ok sm m (p\<lparr>pl_stopped := x\<rparr>) us ws = quotas_ok sm m p us ws"
  "quotas_ok sm m (p\<lparr>pl_notified := x\<rparr>) us ws = quotas_ok sm m p us ws"
  "quotas_ok sm m (p\<lparr>pl_requests := n\<rparr>) us ws = quotas_ok sm m p us ws"
  by (simp_all add: quotas_ok_def)

lemma quotas_ok_drop_user:
  assumes "sem_ok sm" "quotas_ok sm m p (add_mset u us) ws"
  shows "quotas_ok sm m (drop_user sm u p) us ws"
  using assms
  by (cases "pu_slot u"; cases "pu_permit u")
     (auto simp: quotas_ok_def drop_user_def drop_conn_slot_def Let_def intro: permits_out_drop)

lemma quotas_ok_drop_work:
  assumes "sem_ok sm" "quotas_ok sm m p us (add_mset w ws)"
  shows "quotas_ok sm m (drop_work sm w p) us ws"
  using assms by (cases "wi_permit w") (auto simp: quotas_ok_def drop_work_def intro: permits_out_drop)

lemma drop_keeps [simp]:
  "pl_work (drop_work sm w p) = pl_work p" "pl_users (drop_work sm w p) = pl_users p"
  "pl_work (drop_user sm u p) = pl_work p" "pl_users (drop_user sm u p) = pl_users p"
  "pl_suspended (drop_work sm w p) = pl_suspended p" "pl_suspended (drop_user sm u p) = pl_suspended p"
  "pl_stopped (drop_work sm w p) = pl_stopped p" "pl_stopped (drop_user sm u p) = pl_stopped p"
  by (simp_all add: drop_work_def drop_user_def drop_conn_slot_def Let_def split: option.splits)

lemma fold_drop_work_keeps [simp]:
  "pl_work (fold (drop_work sm) xs p) = pl_work p" "pl_users (fold (drop_work sm) xs p) = pl_users p"
  by (induction xs arbitrary: p) auto

lemma fold_drop_user_keeps [simp]:
  "pl_work (fold (drop_user sm) xs p) = pl_work p" "pl_users (fold (drop_user sm) xs p) = pl_users p"
  by (induction xs arbitrary: p) auto

lemma quotas_ok_fold_work:
  "sem_ok sm \<Longrightarrow> quotas_ok sm m p us (mset xs + ws) \<Longrightarrow> quotas_ok sm m (fold (drop_work sm) xs p) us ws"
  by (induction xs arbitrary: p) (auto intro: quotas_ok_drop_work)

lemma quotas_ok_fold_user:
  "sem_ok sm \<Longrightarrow> quotas_ok sm m p (mset xs + us) ws \<Longrightarrow> quotas_ok sm m (fold (drop_user sm) xs p) us ws"
  by (induction xs arbitrary: p) (auto intro: quotas_ok_drop_user)

lemma mset_takeWhile_drop: "mset xs = mset (takeWhile P xs) + mset (drop (length (takeWhile P xs)) xs)"
  by (metis dropWhile_eq_drop mset_append takeWhile_dropWhile_id)

lemma quotas_ok_reap:
  assumes "sem_ok sm" "quotas_ok sm m p (mset (pl_users p) + us) (mset (pl_work p) + ws)"
  shows "quotas_ok sm m (reap sm now p) (mset (pl_users (reap sm now p)) + us) (mset (pl_work (reap sm now p)) + ws)"
proof -
  define ow where "ow = takeWhile (\<lambda>w. now - wi_at w > pl_idle_timeout p) (pl_work p)"
  define ou where "ou = takeWhile (\<lambda>u. now - pu_at u > pl_user_timeout p) (pl_users p)"
  define dw where "dw = drop (length ow) (pl_work p)"
  define du where "du = drop (length ou) (pl_users p)"
  define p1 where "p1 = fold (drop_work sm) ow (p\<lparr>pl_work := dw\<rparr>)"
  have w: "mset (pl_work p) = mset ow + mset dw" and u: "mset (pl_users p) = mset ou + mset du"
    unfolding ow_def ou_def dw_def du_def by (rule mset_takeWhile_drop)+
  have r: "reap sm now p = fold (drop_user sm) ou (p1\<lparr>pl_users := du\<rparr>)"
    by (simp add: reap_def Let_def p1_def du_def dw_def ow_def [symmetric] ou_def [symmetric])
  have "quotas_ok sm m p (mset ou + (mset du + us)) (mset ow + (mset dw + ws))"
    using assms(2) unfolding w u by (simp add: ac_simps)
  then have "quotas_ok sm m p1 (mset ou + (mset du + us)) (mset dw + ws)"
    unfolding p1_def by (intro quotas_ok_fold_work [OF assms(1)]) simp
  then have "quotas_ok sm m (reap sm now p) (mset du + us) (mset dw + ws)"
    unfolding r by (intro quotas_ok_fold_user [OF assms(1)]) simp
  moreover have "pl_users (reap sm now p) = du" "pl_work (reap sm now p) = dw"
    unfolding r by (simp_all add: p1_def)
  ultimately show ?thesis by simp
qed

lemma quotas_ok_conn_slot:
  assumes "sem_ok sm" "quotas_ok sm m p us ws" "conn_slot_acquire sm p = (p', slot)"
  shows "quotas_ok sm m p' (add_mset \<lparr>pu_id = i, pu_at = t, pu_slot = slot, pu_permit = None\<rparr> us) ws"
proof -
  obtain g r where g: "limit_try_acquire sm (pl_global_limit p) = (g, r)" by fastforce
  show ?thesis
  proof (cases r)
    case None
    then have "g = pl_global_limit p" using permits_out_refuse [OF assms(1)] assms(2) g by (auto simp: quotas_ok_def)
    then show ?thesis using assms(2,3) g None by (auto simp: conn_slot_acquire_def quotas_ok_def)
  next
    case (Some a)
    obtain c s where c: "limit_try_acquire sm (pl_conn_limit p) = (c, s)" by fastforce
    have ga: "permits_out sm g (cp_global m) (add_mset a (all_permits (\<lambda>u. map_option fst (pu_slot u)) us))"
      using permits_out_acquire [OF assms(1)] assms(2) g Some by (auto simp: quotas_ok_def)
    show ?thesis
    proof (cases s)
      case None
      then have "c = pl_conn_limit p" using permits_out_refuse [OF assms(1)] assms(2) c by (auto simp: quotas_ok_def)
      then show ?thesis using assms(2,3) g c Some None permits_out_drop [OF assms(1) ga]
        by (auto simp: conn_slot_acquire_def quotas_ok_def)
    next
      case (Some b)
      have "permits_out sm c (cp_conn m) (add_mset b (all_permits (\<lambda>u. map_option snd (pu_slot u)) us))"
        using permits_out_acquire [OF assms(1)] assms(2) c Some by (auto simp: quotas_ok_def)
      then show ?thesis using assms(2,3) g c \<open>r = Some a\<close> Some ga
        by (auto simp: conn_slot_acquire_def quotas_ok_def)
    qed
  qed
qed

lemma pu_permit_None: "pu_permit u = None \<Longrightarrow> u\<lparr>pu_permit := None\<rparr> = u" by simp

lemma conn_slot_keeps:
  "conn_slot_acquire sm p = (p', slot) \<Longrightarrow>
     pl_work p' = pl_work p \<and> pl_users p' = pl_users p \<and> pl_suspended p' = pl_suspended p \<and> pl_stopped p' = pl_stopped p"
  by (auto simp: conn_slot_acquire_def split: prod.splits option.splits)

section \<open>The invariant of a client's pool\<close>

definition pool_ok :: "'s semaphore \<Rightarrow> caps4 \<Rightarrow> 's pool_world \<Rightarrow> bool" where
  "pool_ok sm m w \<longleftrightarrow>
     quotas_ok sm m (qw_pool w)
       (mset (pl_users (qw_pool w)) + mset (map fst (qw_relays w)))
       (mset (pl_work (qw_pool w)) + (mset (map snd (qw_relays w)) + mset (qw_taken w)))
     \<and> (pl_users (qw_pool w) = [] \<or> pl_work (qw_pool w) = [])
     \<and> (\<forall>u\<in>set (pl_users (qw_pool w)). pu_permit u \<noteq> None \<and> pu_slot u \<noteq> None)
     \<and> (\<forall>r\<in>set (qw_relays w). pu_slot (fst r) \<noteq> None)
     \<and> (\<forall>i\<in>set (pl_work (qw_pool w)) \<union> set (qw_taken w). wi_permit i \<noteq> None)"

lemma reap_subset: "set (pl_users (reap sm now p)) \<subseteq> set (pl_users p)" "set (pl_work (reap sm now p)) \<subseteq> set (pl_work p)"
  by (auto simp: reap_def Let_def dest: in_set_dropD)

lemma reap_flags [simp]: "pl_suspended (reap sm now p) = pl_suspended p" "pl_stopped (reap sm now p) = pl_stopped p"
proof -
  have w: "pl_suspended (fold (drop_work sm) xs q) = pl_suspended q \<and> pl_stopped (fold (drop_work sm) xs q) = pl_stopped q"
    for xs and q :: "'a pool" by (induction xs arbitrary: q) auto
  have u: "pl_suspended (fold (drop_user sm) xs q) = pl_suspended q \<and> pl_stopped (fold (drop_user sm) xs q) = pl_stopped q"
    for xs and q :: "'a pool" by (induction xs arbitrary: q) auto
  show "pl_suspended (reap sm now p) = pl_suspended p" "pl_stopped (reap sm now p) = pl_stopped p"
    by (simp_all add: reap_def Let_def w u)
qed

lemma one_queue_reap:
  "pl_users p = [] \<or> pl_work p = [] \<Longrightarrow> pl_users (reap sm now p) = [] \<or> pl_work (reap sm now p) = []"
  by (auto simp: reap_def Let_def)

text \<open>The part of the invariant that speaks of the queues alone.\<close>

definition queues_ok :: "'s pool \<Rightarrow> bool" where
  "queues_ok p \<longleftrightarrow>
     (pl_users p = [] \<or> pl_work p = [])
     \<and> (\<forall>u\<in>set (pl_users p). pu_permit u \<noteq> None \<and> pu_slot u \<noteq> None)
     \<and> (\<forall>i\<in>set (pl_work p). wi_permit i \<noteq> None)"

lemma queues_ok_reap: "queues_ok p \<Longrightarrow> queues_ok (reap sm now p)"
  using reap_subset [of sm now p] one_queue_reap [of p sm now] unfolding queues_ok_def by blast

lemma queues_ok_limits [simp]:
  "queues_ok (p\<lparr>pl_requests := n\<rparr>) = queues_ok p" "queues_ok (p\<lparr>pl_backlog_limit := l\<rparr>) = queues_ok p"
  "queues_ok (p\<lparr>pl_idle_limit := l\<rparr>) = queues_ok p" "queues_ok (drop_user sm u p) = queues_ok p"
  "queues_ok (drop_work sm v p) = queues_ok p" "queues_ok (p\<lparr>pl_suspended := b\<rparr>) = queues_ok p"
  by (simp_all add: queues_ok_def)

definition paired_ok ::
  "'s semaphore \<Rightarrow> caps4 \<Rightarrow> pending_user multiset \<Rightarrow> work_item multiset
     \<Rightarrow> 's pool \<times> (pending_user \<times> work_item) option \<Rightarrow> bool" where
  "paired_ok sm m R W r \<longleftrightarrow>
     queues_ok (fst r)
     \<and> (case snd r of
          None \<Rightarrow> quotas_ok sm m (fst r) (mset (pl_users (fst r)) + R) (mset (pl_work (fst r)) + W)
        | Some (u, v) \<Rightarrow> pu_slot u \<noteq> None
            \<and> quotas_ok sm m (fst r) (add_mset u (mset (pl_users (fst r)) + R)) (add_mset v (mset (pl_work (fst r)) + W)))"

lemma paired_ok_admit:
  assumes "sem_ok sm" "queues_ok p" "pu_permit u = None"
    and "quotas_ok sm m p (add_mset u (mset (pl_users p) + R)) (mset (pl_work p) + W)"
  shows "paired_ok sm m R W (admit_user sm now u p)"
proof (cases "pu_slot u = None")
  case True
  then show ?thesis using assms quotas_ok_drop_user [OF assms(1,4)] by (simp add: admit_user_def paired_ok_def)
next
  case slot: False
  let ?p = "reap sm now p"
  show ?thesis
  proof (cases "pl_suspended p \<or> pl_stopped p")
    case True
    then show ?thesis using slot assms quotas_ok_drop_user [OF assms(1,4)]
      by (simp add: admit_user_def submit_user_def paired_ok_def)
  next
    case False
    have q: "queues_ok ?p" by (rule queues_ok_reap [OF assms(2)])
    have r: "quotas_ok sm m ?p (add_mset u (mset (pl_users ?p) + R)) (mset (pl_work ?p) + W)"
      using quotas_ok_reap [OF assms(1), of m p "add_mset u R" W now] assms(4) by simp
    show ?thesis
    proof (cases "pl_work ?p")
      case (Cons v vs)
      then have "queues_ok (?p\<lparr>pl_work := vs\<rparr>)" using q by (auto simp: queues_ok_def)
      then show ?thesis using slot False Cons r by (auto simp: admit_user_def submit_user_def Let_def paired_ok_def)
    next
      case Nil
      obtain l s where l: "limit_try_acquire sm (pl_backlog_limit ?p) = (l, s)" by fastforce
      show ?thesis
      proof (cases s)
        case None
        then have same: "?p\<lparr>pl_backlog_limit := l\<rparr> = ?p"
          using permits_out_refuse [OF assms(1)] r l by (auto simp: quotas_ok_def)
        then show ?thesis using slot False Nil l None q quotas_ok_drop_user [OF assms(1) r]
          by (auto simp: admit_user_def submit_user_def Let_def paired_ok_def)
      next
        case (Some k)
        let ?u = "u\<lparr>pu_permit := Some k\<rparr>"
        let ?q = "?p\<lparr>pl_backlog_limit := l, pl_users := pl_users ?p @ [?u]\<rparr>"
        have "permits_out sm l (cp_backlog m) (add_mset k (all_permits pu_permit (mset (pl_users ?p) + R)))"
          using permits_out_acquire [OF assms(1)] r l Some assms(3) by (auto simp: quotas_ok_def)
        then have "quotas_ok sm m ?q (add_mset ?u (mset (pl_users ?p) + R)) (mset (pl_work ?p) + W)"
          using r by (simp add: quotas_ok_def)
        moreover have "queues_ok ?q" using q Nil slot by (auto simp: queues_ok_def)
        ultimately show ?thesis using slot False Nil l Some
          by (auto simp: admit_user_def submit_user_def Let_def paired_ok_def request_work_conn_def)
      qed
    qed
  qed
qed

lemma paired_ok_work:
  assumes "sem_ok sm" "queues_ok p" "wi_permit v = None"
    and "quotas_ok sm m p (mset (pl_users p) + R) (mset (pl_work p) + W)"
  shows "paired_ok sm m R W (submit_work sm now v p)"
proof -
  let ?p = "reap sm now p"
  have q: "queues_ok ?p" by (rule queues_ok_reap [OF assms(2)])
  have r: "quotas_ok sm m ?p (mset (pl_users ?p) + R) (mset (pl_work ?p) + W)"
    by (rule quotas_ok_reap [OF assms(1,4)])
  show ?thesis
  proof (cases "pl_users ?p")
    case (Cons u us)
    then have "queues_ok (?p\<lparr>pl_users := us\<rparr>)" "pu_slot u \<noteq> None" using q by (auto simp: queues_ok_def)
    moreover have "quotas_ok sm m ?p (add_mset u (mset us + R)) (add_mset v (mset (pl_work ?p) + W))"
      using r Cons assms(3) by (simp add: quotas_ok_def)
    ultimately show ?thesis using Cons by (simp add: submit_work_def Let_def paired_ok_def)
  next
    case Nil
    obtain l s where l: "limit_try_acquire sm (pl_idle_limit ?p) = (l, s)" by fastforce
    show ?thesis
    proof (cases s)
      case None
      then have same: "?p\<lparr>pl_idle_limit := l\<rparr> = ?p"
        using permits_out_refuse [OF assms(1)] r l by (auto simp: quotas_ok_def)
      then show ?thesis using Nil l None q r by (simp add: submit_work_def Let_def paired_ok_def)
    next
      case (Some k)
      let ?v = "v\<lparr>wi_permit := Some k\<rparr>"
      let ?q = "?p\<lparr>pl_idle_limit := l, pl_work := pl_work ?p @ [?v], pl_notified := True\<rparr>"
      have "permits_out sm l (cp_idle m) (add_mset k (all_permits wi_permit (mset (pl_work ?p) + W)))"
        using permits_out_acquire [OF assms(1)] r l Some by (auto simp: quotas_ok_def)
      then have "quotas_ok sm m ?q (mset (pl_users ?p) + R) (add_mset ?v (mset (pl_work ?p) + W))"
        using r by (simp add: quotas_ok_def)
      moreover have "queues_ok ?q" using q Nil by (auto simp: queues_ok_def)
      ultimately show ?thesis using Nil l Some by (simp add: submit_work_def Let_def paired_ok_def)
    qed
  qed
qed

lemma pool_ok_iff:
  "pool_ok sm m w \<longleftrightarrow>
     quotas_ok sm m (qw_pool w)
       (mset (pl_users (qw_pool w)) + mset (map fst (qw_relays w)))
       (mset (pl_work (qw_pool w)) + (mset (map snd (qw_relays w)) + mset (qw_taken w)))
     \<and> queues_ok (qw_pool w)
     \<and> (\<forall>r\<in>set (qw_relays w). pu_slot (fst r) \<noteq> None) \<and> (\<forall>i\<in>set (qw_taken w). wi_permit i \<noteq> None)"
  by (auto simp: pool_ok_def queues_ok_def)

lemma pool_ok_paired:
  assumes "paired_ok sm m (mset (map fst (qw_relays w))) (mset (map snd (qw_relays w)) + mset (qw_taken w)) r"
    and "\<forall>r\<in>set (qw_relays w). pu_slot (fst r) \<noteq> None" "\<forall>i\<in>set (qw_taken w). wi_permit i \<noteq> None"
  shows "pool_ok sm m (paired_with r w)"
  using assms by (cases "snd r") (auto simp: pool_ok_iff paired_with_def paired_ok_def split: prod.splits)

lemma mset_remove_nth: "i < length xs \<Longrightarrow> mset xs = add_mset (xs ! i) (mset (remove_nth i xs))"
  unfolding remove_nth_def by (metis append_take_drop_id Cons_nth_drop_Suc mset.simps(2) mset_append union_mset_add_mset_right)

lemma set_remove_nth: "set (remove_nth i xs) \<subseteq> set xs"
  by (auto simp: remove_nth_def dest: in_set_takeD in_set_dropD)

lemma map_remove_nth: "map f (remove_nth i xs) = remove_nth i (map f xs)"
  by (simp add: remove_nth_def take_map drop_map)

lemma pool_ok_step:
  assumes "sem_ok sm" "pool_ok sm m w"
  shows "pool_ok sm m (pool_step sm w op)"
proof -
  let ?R = "mset (map fst (qw_relays w))" and ?W = "mset (map snd (qw_relays w)) + mset (qw_taken w)" and ?p = "qw_pool w"
  have h: "quotas_ok sm m ?p (mset (pl_users ?p) + ?R) (mset (pl_work ?p) + ?W)" "queues_ok ?p"
    "\<forall>r\<in>set (qw_relays w). pu_slot (fst r) \<noteq> None" "\<forall>i\<in>set (qw_taken w). wi_permit i \<noteq> None"
    using assms(2) by (simp_all add: pool_ok_iff)
  show ?thesis
  proof (cases op)
    case (UserArrives i now)
    obtain p slot where s: "conn_slot_acquire sm ?p = (p, slot)" by fastforce
    let ?u = "\<lparr>pu_id = i, pu_at = now, pu_slot = slot, pu_permit = None\<rparr>"
    have k: "pl_work p = pl_work ?p" "pl_users p = pl_users ?p" using conn_slot_keeps [OF s] by simp_all
    have "quotas_ok sm m p (add_mset ?u (mset (pl_users p) + ?R)) (mset (pl_work p) + ?W)"
      using quotas_ok_conn_slot [OF assms(1) h(1) s] by (simp add: k)
    moreover have "queues_ok p" using h(2) by (simp add: queues_ok_def k)
    ultimately have "paired_ok sm m ?R ?W (admit_user sm now ?u p)" by (intro paired_ok_admit [OF assms(1)]) simp_all
    then show ?thesis using pool_ok_paired h(3,4) by (simp add: UserArrives s)
  next
    case (WorkArrives i now)
    have "paired_ok sm m ?R ?W (submit_work sm now \<lparr>wi_id = i, wi_at = now, wi_permit = None\<rparr> ?p)"
      by (rule paired_ok_work [OF assms(1) h(2) _ h(1)]) simp
    from pool_ok_paired [OF this h(3,4)] show ?thesis by (simp add: WorkArrives)
  next
    case TakeWork
    show ?thesis
    proof (cases "pl_suspended ?p \<or> pl_stopped ?p")
      case True
      then show ?thesis using assms(2) by (simp add: TakeWork acquire_attempt_def)
    next
      case False
      then show ?thesis using h
        by (cases "pl_work ?p") (auto simp: TakeWork acquire_attempt_def pool_ok_iff request_work_conn_def queues_ok_def)
    qed
  next
    case (RelayEnds i)
    show ?thesis
    proof (cases "i < length (qw_relays w)")
      case True
      let ?r = "qw_relays w ! i" and ?rs = "remove_nth i (qw_relays w)"
      have "?R = add_mset (fst ?r) (mset (map fst ?rs))" "mset (map snd (qw_relays w)) = add_mset (snd ?r) (mset (map snd ?rs))"
        using mset_remove_nth [of i "map fst (qw_relays w)"] mset_remove_nth [of i "map snd (qw_relays w)"] True
        by (simp_all add: map_remove_nth)
      then have "quotas_ok sm m ?p (add_mset (fst ?r) (mset (pl_users ?p) + mset (map fst ?rs)))
          (add_mset (snd ?r) (mset (pl_work ?p) + (mset (map snd ?rs) + mset (qw_taken w))))"
        using h(1) by simp
      then have "quotas_ok sm m (drop_work sm (snd ?r) (drop_user sm (fst ?r) ?p))
          (mset (pl_users ?p) + mset (map fst ?rs)) (mset (pl_work ?p) + (mset (map snd ?rs) + mset (qw_taken w)))"
        using quotas_ok_drop_user [OF assms(1)] quotas_ok_drop_work [OF assms(1)] by blast
      moreover have "set ?rs \<subseteq> set (qw_relays w)" by (rule set_remove_nth)
      ultimately show ?thesis using h True by (auto simp: RelayEnds pool_ok_iff)
    qed (use assms RelayEnds in simp)
  next
    case (TakenEnds i)
    show ?thesis
    proof (cases "i < length (qw_taken w)")
      case True
      let ?v = "qw_taken w ! i" and ?vs = "remove_nth i (qw_taken w)"
      have "mset (qw_taken w) = add_mset ?v (mset ?vs)" using mset_remove_nth True by blast
      then have "quotas_ok sm m ?p (mset (pl_users ?p) + ?R)
          (add_mset ?v (mset (pl_work ?p) + (mset (map snd (qw_relays w)) + mset ?vs)))"
        using h(1) by simp
      then have "quotas_ok sm m (drop_work sm ?v ?p) (mset (pl_users ?p) + ?R)
          (mset (pl_work ?p) + (mset (map snd (qw_relays w)) + mset ?vs))"
        using quotas_ok_drop_work [OF assms(1)] by blast
      moreover have "set ?vs \<subseteq> set (qw_taken w)" by (rule set_remove_nth)
      ultimately show ?thesis using h True by (auto simp: TakenEnds pool_ok_iff)
    qed (use assms TakenEnds in simp)
  next
    case (SetSuspended b)
    then show ?thesis using h by (simp add: pool_ok_iff)
  next
    case StopClient
    have "quotas_ok sm m (fold (drop_work sm) (pl_work ?p) (?p\<lparr>pl_stopped := True, pl_work := []\<rparr>)) (mset (pl_users ?p) + ?R) ?W"
      by (rule quotas_ok_fold_work [OF assms(1)]) (use h(1) in simp)
    then show ?thesis using h by (auto simp: StopClient pool_ok_iff pool_stop_def queues_ok_def)
  qed
qed

lemma pool_ok_run:
  assumes "sem_ok sm"
  shows "pool_ok sm \<lparr>cp_global = g, cp_conn = c, cp_backlog = b, cp_idle = idle_cap b k\<rparr>
    (pool_run sm (pool_new sm ti tu g c b k) ops)"
proof -
  let ?m = "\<lparr>cp_global = g, cp_conn = c, cp_backlog = b, cp_idle = idle_cap b k\<rparr>"
  have "pool_ok sm ?m w \<Longrightarrow> pool_ok sm ?m (foldl (pool_step sm) w ops)" for w
    by (induction ops arbitrary: w) (use pool_ok_step [OF assms] in auto)
  moreover have "pool_ok sm ?m \<lparr>qw_pool = pool_new sm ti tu g c b k, qw_relays = [], qw_taken = []\<rparr>"
    using permits_out_new [OF assms] by (simp add: pool_ok_iff quotas_ok_def pool_new_def queues_ok_def)
  ultimately show ?thesis by (simp add: pool_run_def)
qed

section \<open>Properties\<close>

definition demo_pool_ops :: "pool_op list" where
  "demo_pool_ops = [UserArrives 1 0, WorkArrives 2 0, WorkArrives 3 0, UserArrives 4 1, UserArrives 5 1]"



text \<open>Relays use up the quota of the queue. Once as many relays are running whose users had to
  wait as the queue may hold users, the next user is turned away although nobody is waiting and
  the quotas of connections are not used up; it stays so until one of those relays ends.\<close>

theorem queue_quota_held_by_relays:
  assumes "sem_ok sm" "pool_run sm (pool_new sm ti tu g c b k) ops = w" "b > 0"
    and "pl_users (qw_pool w) = []" "pl_work (qw_pool w) = []"
    and "length (filter (\<lambda>r. pu_permit (fst r) \<noteq> None) (qw_relays w)) = b"
  shows "\<exists>p'. submit_user sm now u (qw_pool w) = (p', Full u) \<and> pl_users p' = []"
proof -
  let ?m = "\<lparr>cp_global = g, cp_conn = c, cp_backlog = b, cp_idle = idle_cap b k\<rparr>" and ?p = "qw_pool w"
  have r: "reap sm now ?p = ?p" using assms(4,5) by (simp add: reap_def)
  have "pool_ok sm ?m w" using pool_ok_run [OF assms(1)] assms(2) by blast
  then have "permits_out sm (pl_backlog_limit ?p) b (all_permits pu_permit (mset (map fst (qw_relays w))))"
    using assms(4) by (simp add: pool_ok_def quotas_ok_def)
  moreover have "size (all_permits pu_permit (mset (map fst (qw_relays w)))) = b"
    using assms(6) by (simp add: size_all_permits filter_map o_def flip: mset_filter mset_map)
  ultimately have "limit_held sm (pl_backlog_limit ?p) b b" by (simp add: permits_out_def)
  then have "snd (limit_try_acquire sm (pl_backlog_limit ?p)) = None"
    using quota.refused_iff [OF limit_quota [OF assms(1)]] assms(3) by blast
  then show ?thesis using assms(4,5) r
    by (auto simp: submit_user_def Let_def split: prod.splits)
qed

theorem queue_quota_held_by_relays_witness:
  "\<exists>p'. submit_user counter_sem 9 \<lparr>pu_id = 3, pu_at = 9, pu_slot = None, pu_permit = None\<rparr>
      (qw_pool (pool_run counter_sem (pool_new counter_sem 60 10 0 0 1 0) [UserArrives 1 0, WorkArrives 2 0]))
    = (p', Full \<lparr>pu_id = 3, pu_at = 9, pu_slot = None, pu_permit = None\<rparr>) \<and> pl_users p' = []"
  by (rule queue_quota_held_by_relays [OF counter_sem_ok refl]) code_simp+

section \<open>Batch requests under load\<close>

primrec batch_calls :: "batch_state \<Rightarrow> (u64 \<times> nat) list \<Rightarrow> u32 option list" where
  "batch_calls b [] = []"
| "batch_calls b (c # cs) =
     (case take_batch_request (fst c) (snd c) b of (b', r) \<Rightarrow> r # batch_calls b' cs)"

fun close_calls :: "u64 \<Rightarrow> (u64 \<times> nat) list \<Rightarrow> bool" where
  "close_calls prev [] = True"
| "close_calls prev (c # cs) \<longleftrightarrow> prev \<le> fst c \<and> fst c - prev < 250 \<and> snd c \<ge> 2 \<and> close_calls (fst c) cs"

text \<open>Batch requests starve under load. While users keep arriving less than a quarter of a
  second apart, however many of them wait and for however long this lasts, no batch is asked for:
  the time of the last batch is overwritten by every call, also by one that asks for nothing.\<close>

theorem batch_requests_starve:
  assumes "close_calls (bs_last_ms b) cs" "bs_batch b \<ge> 2"
  shows "batch_calls b cs = replicate (length cs) None"
  using assms
proof (induction cs arbitrary: b)
  case (Cons c cs)
  have "take_batch_request (fst c) (snd c) b = (b\<lparr>bs_last_ms := fst c\<rparr>, None)"
    using Cons.prems by (simp add: take_batch_request_def Let_def)
  then show ?case using Cons.prems Cons.IH [of "b\<lparr>bs_last_ms := fst c\<rparr>"] by simp
qed simp

theorem batch_requests_starve_witness:
  "batch_calls \<lparr>bs_batch = 32, bs_last_ms = 1000\<rparr> [(1200, 5), (1400, 9), (1600, 14), (1849, 20)] = [None, None, None, None]"
  using batch_requests_starve [of "\<lparr>bs_batch = 32, bs_last_ms = 1000\<rparr>" "[(1200, 5), (1400, 9), (1600, 14), (1849, 20)]"]
  by simp

lemma batch_request_bounds:
  "take_batch_request now n b = (b', Some r) \<Longrightarrow> 2 \<le> r \<and> r \<le> 256"
  by (auto simp: take_batch_request_def Let_def split: if_splits)

end
