(* ===== verification/Vhost.thy ===== *)
theory Vhost
  imports Client_Ref Rust_Std "HOL-Library.Sublist"
begin

text \<open>
  The routing table of the virtual hosts (\<open>server/src/vhost.rs\<close>): which proxy an HTTP request, a
  TLS hello or a CONNECT request for a domain, a path and a user goes to. Clients are compared by
  address. The two maps have the routes of a domain in the order of registration.
\<close>

section \<open>Data\<close>

datatype vhost_kind = VhHttp | VhHttps | VhTcpMux

fun vhost_kind_label :: "vhost_kind \<Rightarrow> string" where
  "vhost_kind_label VhHttp = ''http''"
| "vhost_kind_label VhHttps = ''https''"
| "vhost_kind_label VhTcpMux = ''tcpmux''"

record vhost_route =
  vr_proxy :: string
  vr_client :: client_ref
  vr_domain :: string
  vr_locations :: "string list"
  vr_http_user :: string
  vr_http_pwd :: string
  vr_route_user :: string
  vr_rewrite_host :: string
  vr_req_headers :: "(string, string) fmap"
  vr_resp_headers :: "(string, string) fmap"
  vr_kind :: vhost_kind

record vhost_table =
  vt_exact :: "(string, vhost_route list) fmap"
  vt_wildcard :: "(string, vhost_route list) fmap"

definition vhost_empty :: vhost_table where
  "vhost_empty = \<lparr>vt_exact = fmempty, vt_wildcard = fmempty\<rparr>"

section \<open>Operations\<close>

text \<open>\<open>max_by_key\<close> gives the last of several maxima.\<close>

fun longest :: "string list \<Rightarrow> string option" where
  "longest [] = None"
| "longest (x # xs) =
     (case longest xs of
        None \<Rightarrow> Some x
      | Some y \<Rightarrow> if length x \<le> length y then Some y else Some x)"

definition match_location :: "vhost_route \<Rightarrow> string \<Rightarrow> string option" where
  "match_location r path = longest (filter (\<lambda>loc. prefix loc path) (vr_locations r))"

definition same_owner :: "vhost_route \<Rightarrow> vhost_route \<Rightarrow> bool" where
  "same_owner a b \<longleftrightarrow> cr_ptr (vr_client a) = cr_ptr (vr_client b)"

datatype vhost_error = DomainTaken string

definition conflicts :: "vhost_route \<Rightarrow> vhost_route \<Rightarrow> bool" where
  "conflicts route existing \<longleftrightarrow>
     (let same_proxy = same_owner existing route \<and> vr_proxy existing = vr_proxy route;
          duplicate = list_ex (\<lambda>a. list_ex (\<lambda>b. a = b) (vr_locations route)) (vr_locations existing);
          same_scope = vr_route_user existing = vr_route_user route;
          cross_owner = \<not> same_owner existing route
      in \<not> same_proxy \<and> duplicate \<and> (cross_owner \<or> same_scope))"

definition routes_register :: "vhost_route \<Rightarrow> vhost_route list \<Rightarrow> vhost_error + vhost_route list" where
  "routes_register route rs =
     (if list_ex (conflicts route) rs then Inl (DomainTaken (vr_domain route))
      else Inr (filter (\<lambda>r. \<not> (same_owner r route \<and> vr_proxy r = vr_proxy route)) rs @ [route]))"

definition fm_list :: "('k, 'v list) fmap \<Rightarrow> 'k \<Rightarrow> 'v list" where
  "fm_list m k = (case fmlookup m k of None \<Rightarrow> [] | Some xs \<Rightarrow> xs)"

definition vhost_register :: "vhost_route \<Rightarrow> vhost_table \<Rightarrow> vhost_table \<times> (vhost_error + unit)" where
  "vhost_register route t =
     (case str_strip_prefix ''*.'' (vr_domain route) of
        Some sfx \<Rightarrow>
          (case routes_register route (fm_list (vt_wildcard t) sfx) of
             Inl e \<Rightarrow> (t, Inl e)
           | Inr rs \<Rightarrow> (t\<lparr>vt_wildcard := fmupd sfx rs (vt_wildcard t)\<rparr>, Inr ()))
      | None \<Rightarrow>
          (case routes_register route (fm_list (vt_exact t) (vr_domain route)) of
             Inl e \<Rightarrow> (t, Inl e)
           | Inr rs \<Rightarrow> (t\<lparr>vt_exact := fmupd (vr_domain route) rs (vt_exact t)\<rparr>, Inr ())))"

text \<open>What is left of a map of lists when only some routes are kept and empty lists are dropped.\<close>

definition keep_routes ::
  "(vhost_route \<Rightarrow> bool) \<Rightarrow> (string, vhost_route list) fmap \<Rightarrow> (string, vhost_route list) fmap" where
  "keep_routes P m = fm_retain (\<lambda>_ rs. rs \<noteq> []) (fmmap (filter P) m)"

definition has_route :: "(vhost_route \<Rightarrow> bool) \<Rightarrow> (string, vhost_route list) fmap \<Rightarrow> bool" where
  "has_route P m \<longleftrightarrow> fBex (fmran m) (\<lambda>rs. list_ex P rs)"

definition vhost_remove_proxy :: "client_ref \<Rightarrow> string \<Rightarrow> vhost_table \<Rightarrow> vhost_table \<times> bool" where
  "vhost_remove_proxy client proxy_name t =
     (let mine = (\<lambda>r. cr_ptr (vr_client r) = cr_ptr client \<and> vr_proxy r = proxy_name)
      in (t\<lparr>vt_exact := keep_routes (\<lambda>r. \<not> mine r) (vt_exact t),
            vt_wildcard := keep_routes (\<lambda>r. \<not> mine r) (vt_wildcard t)\<rparr>,
          has_route mine (vt_exact t) \<or> has_route mine (vt_wildcard t)))"

definition vhost_unregister_client :: "client_ref \<Rightarrow> vhost_table \<Rightarrow> vhost_table" where
  "vhost_unregister_client client t =
     (let other = (\<lambda>r. cr_ptr (vr_client r) \<noteq> cr_ptr client)
      in t\<lparr>vt_exact := keep_routes other (vt_exact t), vt_wildcard := keep_routes other (vt_wildcard t)\<rparr>)"

section \<open>Lookup\<close>

fun matched ::
  "vhost_kind \<Rightarrow> string \<Rightarrow> string option \<Rightarrow> bool \<Rightarrow> vhost_route list
     \<Rightarrow> (vhost_route \<times> string) option \<Rightarrow> (vhost_route \<times> string) option"
where
  "matched kind path auth_user exact_user [] best = best"
| "matched kind path auth_user exact_user (r # rs) best =
     (let wanted = (case auth_user of None \<Rightarrow> [] | Some u \<Rightarrow> u);
          skip = vr_kind r \<noteq> kind
            \<or> (if exact_user then vr_route_user r = [] \<or> vr_route_user r \<noteq> wanted else vr_route_user r \<noteq> []);
          best' =
            (if skip then best
             else case match_location r path of
                 None \<Rightarrow> best
               | Some loc \<Rightarrow>
                   if (case best of None \<Rightarrow> True | Some (_, chosen) \<Rightarrow> length loc > length chosen)
                   then Some (r, loc) else best)
      in matched kind path auth_user exact_user rs best')"

definition in_table ::
  "vhost_kind \<Rightarrow> string \<Rightarrow> string option \<Rightarrow> vhost_route list option \<Rightarrow> (vhost_route \<times> string) option" where
  "in_table kind path auth_user rs =
     (case rs of
        None \<Rightarrow> None
      | Some rs \<Rightarrow>
          (case matched kind path auth_user True rs None of
             Some hit \<Rightarrow> Some hit
           | None \<Rightarrow> matched kind path auth_user False rs None))"

text \<open>The suffixes of a host with at least two labels, the longest first.\<close>

definition wildcard_suffixes :: "string \<Rightarrow> string list" where
  "wildcard_suffixes host =
     (let labels = split_on CHR ''.'' host
      in map (\<lambda>i. join_with ''.'' (drop i labels)) [1..<length labels - 1])"

fun first_hit :: "('a \<Rightarrow> 'b option) \<Rightarrow> 'a list \<Rightarrow> 'b option" where
  "first_hit f [] = None"
| "first_hit f (x # xs) = (case f x of Some y \<Rightarrow> Some y | None \<Rightarrow> first_hit f xs)"

definition clean_host :: "string \<Rightarrow> string" where
  "clean_host host = to_ascii_lowercase (trim_end_matches CHR ''.'' (trim host))"

definition vhost_lookup ::
  "vhost_table \<Rightarrow> string \<Rightarrow> string \<Rightarrow> string option \<Rightarrow> vhost_kind \<Rightarrow> (vhost_route \<times> string) option" where
  "vhost_lookup t host0 path auth_user kind =
     (let host = clean_host host0 in
      case in_table kind path auth_user (fmlookup (vt_exact t) host) of
        Some hit \<Rightarrow> Some hit
      | None \<Rightarrow>
          (case first_hit (\<lambda>s. in_table kind path auth_user (fmlookup (vt_wildcard t) s)) (wildcard_suffixes host) of
             Some hit \<Rightarrow> Some hit
           | None \<Rightarrow> in_table kind path auth_user (fmlookup (vt_exact t) ''*'')))"

text \<open>The domain of a CONNECT request.\<close>

definition canonical_host :: "string \<Rightarrow> string" where
  "canonical_host authority =
     (let a = trim authority;
          a = (case str_strip_prefix ''http://'' a of
                 Some rest \<Rightarrow> rest
               | None \<Rightarrow> (case str_strip_prefix ''https://'' a of Some rest \<Rightarrow> rest | None \<Rightarrow> a));
          a = trim (takeWhile (\<lambda>c. c \<noteq> CHR ''/'') a);
          host = (case str_strip_prefix ''['' a of
                    Some rest \<Rightarrow> takeWhile (\<lambda>c. c \<noteq> CHR '']'') rest
                  | None \<Rightarrow>
                      (case split_once CHR '':'' (rev a) of Some (_, h) \<Rightarrow> rev h | None \<Rightarrow> a))
      in clean_host host)"

section \<open>Lemmas: the longest prefix\<close>

lemma longest_Some: "longest xs = Some y \<Longrightarrow> y \<in> set xs \<and> (\<forall>x\<in>set xs. length x \<le> length y)"
proof (induction xs arbitrary: y)
  case (Cons x xs)
  show ?case
  proof (cases "longest xs")
    case None
    then have "xs = []" by (cases xs) (auto split: option.splits if_splits)
    then show ?thesis using Cons.prems by simp
  next
    case (Some z)
    then show ?thesis using Cons.IH [OF Some] Cons.prems by (auto split: if_splits)
  qed
qed simp

lemma longest_None [simp]: "longest xs = None \<longleftrightarrow> xs = []"
  by (cases xs) (auto split: option.splits)

lemma prefix_same_length: "prefix a p \<Longrightarrow> prefix b p \<Longrightarrow> length a = length b \<Longrightarrow> a = b"
  by (auto simp: prefix_def append_eq_append_conv2)

lemma match_location_Some:
  "match_location r path = Some loc \<Longrightarrow>
     loc \<in> set (vr_locations r) \<and> prefix loc path
     \<and> (\<forall>l\<in>set (vr_locations r). prefix l path \<longrightarrow> length l \<le> length loc)"
  by (auto simp: match_location_def dest: longest_Some)

lemma match_location_None:
  "match_location r path = None \<longleftrightarrow> (\<forall>l\<in>set (vr_locations r). \<not> prefix l path)"
  by (auto simp: match_location_def filter_empty_conv)

section \<open>Lemmas: what wins in the list of a domain\<close>

definition in_scope :: "string option \<Rightarrow> bool \<Rightarrow> vhost_route \<Rightarrow> bool" where
  "in_scope auth_user exact_user r \<longleftrightarrow>
     (if exact_user then vr_route_user r \<noteq> [] \<and> auth_user = Some (vr_route_user r) else vr_route_user r = [])"

definition hits ::
  "vhost_kind \<Rightarrow> string \<Rightarrow> string option \<Rightarrow> bool \<Rightarrow> vhost_route \<Rightarrow> string \<Rightarrow> bool" where
  "hits kind path auth_user exact_user r loc \<longleftrightarrow>
     vr_kind r = kind \<and> in_scope auth_user exact_user r \<and> loc \<in> set (vr_locations r) \<and> prefix loc path"

text \<open>The route that must win: of those for the user of the request, or else of those for any user,
  the one with the longest prefix of the path.\<close>

definition wins ::
  "vhost_kind \<Rightarrow> string \<Rightarrow> string option \<Rightarrow> vhost_route list \<Rightarrow> vhost_route \<Rightarrow> string \<Rightarrow> bool" where
  "wins kind path auth_user rs r loc \<longleftrightarrow>
     r \<in> set rs
     \<and> (\<exists>ex. hits kind path auth_user ex r loc
          \<and> (\<forall>r'\<in>set rs. \<forall>l. hits kind path auth_user ex r' l \<longrightarrow> length l \<le> length loc)
          \<and> (ex \<or> (\<forall>r'\<in>set rs. \<forall>l. \<not> hits kind path auth_user True r' l)))"

lemma in_scope_skip:
  "(if ex then vr_route_user r = [] \<or> vr_route_user r \<noteq> (case u of None \<Rightarrow> [] | Some v \<Rightarrow> v) else vr_route_user r \<noteq> [])
     \<longleftrightarrow> \<not> in_scope u ex r"
  by (auto simp: in_scope_def split: option.splits)

lemma matched_Cons:
  "matched kind path u ex (r # rs) best =
     matched kind path u ex rs
       (if vr_kind r \<noteq> kind \<or> \<not> in_scope u ex r then best
        else case match_location r path of
            None \<Rightarrow> best
          | Some loc \<Rightarrow>
              if (case best of None \<Rightarrow> True | Some (_, chosen) \<Rightarrow> length loc > length chosen)
              then Some (r, loc) else best)"
  unfolding matched.simps Let_def in_scope_skip ..

declare matched.simps(2) [simp del] matched_Cons [simp]

lemma matched_None:
  "matched kind path u ex rs best = None \<longleftrightarrow> best = None \<and> (\<forall>r\<in>set rs. \<forall>l. \<not> hits kind path u ex r l)"
proof (induction rs arbitrary: best)
  case (Cons r rs)
  show ?case
  proof (cases "vr_kind r = kind \<and> in_scope u ex r")
    case False
    then show ?thesis by (auto simp: Cons.IH hits_def)
  next
    case True
    show ?thesis
    proof (cases "match_location r path")
      case None
      then have "\<forall>l. \<not> hits kind path u ex r l" by (auto simp: hits_def match_location_None)
      then show ?thesis using True None by (auto simp: Cons.IH)
    next
      case (Some loc)
      then have "hits kind path u ex r loc" using True match_location_Some [OF Some] by (simp add: hits_def)
      then show ?thesis using True Some by (auto simp: Cons.IH split: option.splits)
    qed
  qed
qed simp

definition next_best ::
  "vhost_kind \<Rightarrow> string \<Rightarrow> string option \<Rightarrow> bool \<Rightarrow> vhost_route
     \<Rightarrow> (vhost_route \<times> string) option \<Rightarrow> (vhost_route \<times> string) option" where
  "next_best kind path u ex r best =
     (if vr_kind r \<noteq> kind \<or> \<not> in_scope u ex r then best
      else case match_location r path of
          None \<Rightarrow> best
        | Some loc \<Rightarrow>
            if (case best of None \<Rightarrow> True | Some (_, chosen) \<Rightarrow> length loc > length chosen)
            then Some (r, loc) else best)"

lemma next_best_cases:
  obtains (keep) "next_best kind path u ex r best = best"
      "\<And>l. hits kind path u ex r l \<Longrightarrow> \<exists>b. best = Some b \<and> length l \<le> length (snd b)"
  | (take) l0 where "next_best kind path u ex r best = Some (r, l0)" "hits kind path u ex r l0"
      "\<And>l. hits kind path u ex r l \<Longrightarrow> length l \<le> length l0"
      "\<And>b. best = Some b \<Longrightarrow> length (snd b) \<le> length l0"
proof (cases "vr_kind r = kind \<and> in_scope u ex r \<and> match_location r path \<noteq> None")
  case False
  then have "\<not> hits kind path u ex r l" for l by (auto simp: hits_def match_location_None)
  moreover have "next_best kind path u ex r best = best"
    using False by (auto simp: next_best_def)
  ultimately show ?thesis using keep by blast
next
  case True
  then obtain l0 where l0: "match_location r path = Some l0" by blast
  have h: "hits kind path u ex r l0" using True match_location_Some [OF l0] by (simp add: hits_def)
  have m: "length l \<le> length l0" if "hits kind path u ex r l" for l
    using that match_location_Some [OF l0] by (simp add: hits_def)
  show ?thesis
  proof (cases "\<exists>b. best = Some b \<and> length l0 \<le> length (snd b)")
    case True
    then obtain b where b: "best = Some b" "length l0 \<le> length (snd b)" by blast
    have "next_best kind path u ex r best = best"
      using \<open>vr_kind r = kind \<and> _\<close> l0 b by (auto simp: next_best_def split: prod.splits)
    then show ?thesis using keep b m le_trans by blast
  next
    case False
    have "next_best kind path u ex r best = Some (r, l0)"
      using \<open>vr_kind r = kind \<and> _\<close> l0 False by (cases best) (auto simp: next_best_def split: prod.splits)
    then show ?thesis using take h m False by (meson nat_le_linear)
  qed
qed

lemma matched_step: "matched kind path u ex (r # rs) best = matched kind path u ex rs (next_best kind path u ex r best)"
  unfolding next_best_def by (rule matched_Cons)

lemma matched_Some:
  assumes "matched kind path u ex rs best = Some (r, loc)"
  shows "(best = Some (r, loc) \<or> r \<in> set rs \<and> hits kind path u ex r loc)
    \<and> (\<forall>r'\<in>set rs. \<forall>l. hits kind path u ex r' l \<longrightarrow> length l \<le> length loc)
    \<and> (\<forall>b. best = Some b \<longrightarrow> length (snd b) \<le> length loc)"
  using assms
proof (induction rs arbitrary: best)
  case (Cons x rs)
  note IH = Cons.IH [OF Cons.prems [unfolded matched_step]]
  show ?case
  proof (cases kind path u ex x best rule: next_best_cases)
    case keep
    have "length l \<le> length loc" if h: "hits kind path u ex x l" for l
    proof -
      obtain b where b: "best = Some b" "length l \<le> length (snd b)" using keep(2) [OF h] by blast
      have "length (snd b) \<le> length loc" using IH b(1) unfolding keep(1) by blast
      then show ?thesis using b(2) by simp
    qed
    then show ?thesis using IH unfolding keep(1) by auto
  next
    case (take l0)
    have le: "length l0 \<le> length loc" using IH unfolding take(1) by simp
    have "length l \<le> length loc" if "hits kind path u ex x l" for l
      using take(3) [OF that] le by simp
    moreover have "length (snd b) \<le> length loc" if "best = Some b" for b
      using take(4) [OF that] le by simp
    moreover have "(r = x \<and> loc = l0) \<or> r \<in> set rs \<and> hits kind path u ex r loc"
      using IH unfolding take(1) by simp blast
    ultimately show ?thesis using IH take(2) by auto
  qed
qed simp

lemma in_table_None:
  "in_table kind path u (Some rs) = None \<longleftrightarrow> (\<forall>r l. \<not> wins kind path u rs r l)"
proof
  assume "in_table kind path u (Some rs) = None"
  then show "\<forall>r l. \<not> wins kind path u rs r l"
    unfolding wins_def in_table_def by (auto simp: matched_None split: option.splits) (metis (full_types))
next
  assume w: "\<forall>r l. \<not> wins kind path u rs r l"
  show "in_table kind path u (Some rs) = None"
  proof (rule ccontr)
    assume "in_table kind path u (Some rs) \<noteq> None"
    then consider r l where "matched kind path u True rs None = Some (r, l)"
      | r l where "matched kind path u True rs None = None" "matched kind path u False rs None = Some (r, l)"
      by (auto simp: in_table_def split: option.splits)
    then show False
    proof cases
      case 1
      then show False using matched_Some [OF 1] w unfolding wins_def by blast
    next
      case 2
      then show False using matched_Some [OF 2(2)] w unfolding wins_def matched_None by blast
    qed
  qed
qed

lemma in_table_wins: "in_table kind path u (Some rs) = Some (r, l) \<Longrightarrow> wins kind path u rs r l"
  unfolding wins_def
  by (auto simp: in_table_def matched_None split: option.splits dest!: matched_Some)

lemma in_table_Nil [simp]: "in_table kind path u (Some []) = None"
  by (simp add: in_table_def)

lemma in_table_fm_list: "in_table kind path u (fmlookup m k) = in_table kind path u (Some (fm_list m k))"
  by (cases "fmlookup m k") (simp_all add: fm_list_def in_table_def)

section \<open>The invariant of the table\<close>

text \<open>Two routes of one domain are different proxies, and share a location only if they belong to
  one client and are told apart by the user.\<close>

definition same_proxy :: "vhost_route \<Rightarrow> vhost_route \<Rightarrow> bool" where
  "same_proxy a b \<longleftrightarrow> same_owner a b \<and> vr_proxy a = vr_proxy b"

definition apart :: "vhost_route \<Rightarrow> vhost_route \<Rightarrow> bool" where
  "apart a b \<longleftrightarrow> \<not> same_proxy a b
     \<and> (set (vr_locations a) \<inter> set (vr_locations b) = {} \<or> same_owner a b \<and> vr_route_user a \<noteq> vr_route_user b)"

lemma apart_sym: "apart a b \<Longrightarrow> apart b a"
  by (auto simp: apart_def same_proxy_def same_owner_def)

lemma conflicts_apart: "\<not> same_proxy r route \<Longrightarrow> \<not> conflicts route r \<longleftrightarrow> apart r route"
  by (auto simp: conflicts_def apart_def same_proxy_def Let_def list_ex_iff)

definition routes_ok :: "vhost_route list \<Rightarrow> bool" where
  "routes_ok rs \<longleftrightarrow> sorted_wrt apart rs"

lemma routes_ok_apart: "routes_ok rs \<Longrightarrow> a \<in> set rs \<Longrightarrow> b \<in> set rs \<Longrightarrow> a = b \<or> apart a b"
  unfolding routes_ok_def in_set_conv_nth sorted_wrt_iff_nth_less
  by (metis apart_sym linorder_neqE_nat)

lemma routes_ok_filter: "routes_ok rs \<Longrightarrow> routes_ok (filter P rs)"
  unfolding routes_ok_def by (induction rs) auto

lemma routes_register_ok:
  assumes "routes_ok rs" "routes_register route rs = Inr rs'"
  shows "routes_ok rs'"
proof -
  let ?keep = "filter (\<lambda>r. \<not> (same_owner r route \<and> vr_proxy r = vr_proxy route)) rs"
  have rs': "rs' = ?keep @ [route]" and c: "\<forall>r\<in>set rs. \<not> conflicts route r"
    using assms(2) by (auto simp: routes_register_def list_ex_iff split: if_splits)
  have "apart r route" if "r \<in> set ?keep" for r
    using that c by (simp add: conflicts_apart [symmetric] same_proxy_def)
  then show ?thesis using routes_ok_filter [OF assms(1)] unfolding rs' routes_ok_def
    by (simp add: sorted_wrt_append)
qed

definition table_ok :: "vhost_table \<Rightarrow> bool" where
  "table_ok t \<longleftrightarrow> (\<forall>d. routes_ok (fm_list (vt_exact t) d) \<and> routes_ok (fm_list (vt_wildcard t) d))"

lemma fm_list_upd: "fm_list (fmupd k xs m) d = (if d = k then xs else fm_list m d)"
  by (simp add: fm_list_def)

lemma fm_list_keep: "fm_list (keep_routes P m) d = filter P (fm_list m d)"
  by (auto simp: fm_list_def keep_routes_def split: option.splits if_splits)

datatype vhost_op =
    VhRegister vhost_route
  | VhRemoveProxy client_ref string
  | VhUnregister client_ref

fun vhost_step :: "vhost_table \<Rightarrow> vhost_op \<Rightarrow> vhost_table" where
  "vhost_step t (VhRegister r) = fst (vhost_register r t)"
| "vhost_step t (VhRemoveProxy c n) = fst (vhost_remove_proxy c n t)"
| "vhost_step t (VhUnregister c) = vhost_unregister_client c t"

definition vhost_run :: "vhost_op list \<Rightarrow> vhost_table" where
  "vhost_run ops = foldl vhost_step vhost_empty ops"

lemma vhost_register_cases:
  obtains (refused) e where "vhost_register r t = (t, Inl e)"
  | (wild) sfx rs where "vhost_register r t = (t\<lparr>vt_wildcard := fmupd sfx rs (vt_wildcard t)\<rparr>, Inr ())"
      "routes_register r (fm_list (vt_wildcard t) sfx) = Inr rs"
  | (exact) rs where "vhost_register r t = (t\<lparr>vt_exact := fmupd (vr_domain r) rs (vt_exact t)\<rparr>, Inr ())"
      "routes_register r (fm_list (vt_exact t) (vr_domain r)) = Inr rs"
proof (cases "str_strip_prefix ''*.'' (vr_domain r)")
  case None
  then show ?thesis
    by (cases "routes_register r (fm_list (vt_exact t) (vr_domain r))")
      (use refused exact in \<open>auto simp: vhost_register_def\<close>)
next
  case (Some sfx)
  then show ?thesis
    by (cases "routes_register r (fm_list (vt_wildcard t) sfx)")
      (use refused wild in \<open>auto simp: vhost_register_def\<close>)
qed

lemma table_ok_step: "table_ok t \<Longrightarrow> table_ok (vhost_step t op)"
proof (cases op)
  case (VhRegister r)
  assume "table_ok t"
  then show ?thesis unfolding VhRegister
    by (cases r t rule: vhost_register_cases)
      (auto simp: table_ok_def fm_list_upd dest: routes_register_ok [rotated])
qed (auto simp: table_ok_def vhost_remove_proxy_def vhost_unregister_client_def Let_def fm_list_keep
      intro: routes_ok_filter)

lemma table_ok_run: "table_ok (vhost_run ops)"
proof -
  have "table_ok t \<Longrightarrow> table_ok (foldl vhost_step t ops)" for t
    by (induction ops arbitrary: t) (auto intro: table_ok_step)
  moreover have "table_ok vhost_empty" by (simp add: table_ok_def vhost_empty_def fm_list_def routes_ok_def)
  ultimately show ?thesis by (simp add: vhost_run_def)
qed

lemma wins_unique:
  assumes "routes_ok rs" "wins kind path u rs r l" "wins kind path u rs r' l'"
  shows "r = r' \<and> l = l'"
proof -
  obtain ex where ex: "r \<in> set rs" "hits kind path u ex r l"
    "\<And>x m. x \<in> set rs \<Longrightarrow> hits kind path u ex x m \<Longrightarrow> length m \<le> length l"
    "ex \<or> (\<forall>x\<in>set rs. \<forall>m. \<not> hits kind path u True x m)"
    using assms(2) unfolding wins_def by blast
  obtain ex' where ex': "r' \<in> set rs" "hits kind path u ex' r' l'"
    "\<And>x m. x \<in> set rs \<Longrightarrow> hits kind path u ex' x m \<Longrightarrow> length m \<le> length l'"
    "ex' \<or> (\<forall>x\<in>set rs. \<forall>m. \<not> hits kind path u True x m)"
    using assms(3) unfolding wins_def by blast
  have "ex = ex'" using ex ex' by (cases ex; cases ex') auto
  then have "length l = length l'" using ex ex' by (simp add: le_antisym)
  then have l: "l = l'" using ex(2) ex'(2) prefix_same_length unfolding hits_def by blast
  have "vr_route_user r = vr_route_user r'"
    using ex(2) ex'(2) \<open>ex = ex'\<close> by (auto simp: hits_def in_scope_def split: if_splits)
  moreover have "l \<in> set (vr_locations r) \<inter> set (vr_locations r')" using ex(2) ex'(2) l by (simp add: hits_def)
  ultimately have "\<not> apart r r'" by (auto simp: apart_def)
  then show ?thesis using routes_ok_apart [OF assms(1) ex(1) ex'(1)] l by blast
qed

lemma in_table_iff:
  assumes "routes_ok rs"
  shows "in_table kind path u (Some rs) = Some (r, l) \<longleftrightarrow> wins kind path u rs r l"
proof
  assume w: "wins kind path u rs r l"
  then obtain p where p: "in_table kind path u (Some rs) = Some p" using in_table_None by fastforce
  then have "wins kind path u rs (fst p) (snd p)" by (intro in_table_wins) simp
  from wins_unique [OF assms w this] show "in_table kind path u (Some rs) = Some (r, l)" using p by simp
qed (rule in_table_wins)

section \<open>Lemmas: lookup as a search\<close>

lemma first_hit_Some:
  "first_hit f xs = Some y \<longleftrightarrow> (\<exists>pre x post. xs = pre @ x # post \<and> f x = Some y \<and> (\<forall>z\<in>set pre. f z = None))"
proof (induction xs)
  case (Cons a xs)
  show ?case
  proof (cases "f a")
    case None
    have "(\<exists>pre x post. a # xs = pre @ x # post \<and> f x = Some y \<and> (\<forall>z\<in>set pre. f z = None))
      \<longleftrightarrow> (\<exists>pre x post. xs = pre @ x # post \<and> f x = Some y \<and> (\<forall>z\<in>set pre. f z = None))" (is "?l \<longleftrightarrow> ?r")
    proof
      assume ?l
      then obtain pre x post where p: "a # xs = pre @ x # post" "f x = Some y" "\<forall>z\<in>set pre. f z = None" by blast
      then show ?r using None by (cases pre) auto
    next
      assume ?r
      then obtain pre x post where p: "xs = pre @ x # post" "f x = Some y" "\<forall>z\<in>set pre. f z = None" by blast
      then show ?l using None by (intro exI [of _ "a # pre"]) auto
    qed
    then show ?thesis using Cons.IH None by simp
  next
    case (Some b)
    have "b = y" if "a # xs = pre @ x # post" "f x = Some y" "\<forall>z\<in>set pre. f z = None" for pre x post
      using that Some by (cases pre) auto
    moreover have "\<exists>pre x post. a # xs = pre @ x # post \<and> f x = Some y \<and> (\<forall>z\<in>set pre. f z = None)" if "b = y"
      using that Some by (intro exI [of _ "[]"] exI [of _ a] exI [of _ xs]) simp
    ultimately show ?thesis using Some by auto
  qed
qed simp

lemma first_hit_append:
  "first_hit f (xs @ ys) = (case first_hit f xs of Some y \<Rightarrow> Some y | None \<Rightarrow> first_hit f ys)"
  by (induction xs) (auto split: option.splits)

lemma first_hit_map: "first_hit f (map g xs) = first_hit (\<lambda>x. f (g x)) xs"
  by (induction xs) (auto split: option.splits)

text \<open>The lists of routes that are searched, in this order.\<close>

definition candidates :: "vhost_table \<Rightarrow> string \<Rightarrow> vhost_route list list" where
  "candidates t h =
     fm_list (vt_exact t) h # map (fm_list (vt_wildcard t)) (wildcard_suffixes h) @ [fm_list (vt_exact t) ''*'']"

lemma vhost_lookup_search:
  "vhost_lookup t host path u kind = first_hit (\<lambda>rs. in_table kind path u (Some rs)) (candidates t (clean_host host))"
  by (simp add: vhost_lookup_def candidates_def in_table_fm_list first_hit_append first_hit_map Let_def
      cong: option.case_cong split: option.splits)

lemma candidates_ok: "table_ok t \<Longrightarrow> rs \<in> set (candidates t h) \<Longrightarrow> routes_ok rs"
  by (auto simp: candidates_def table_ok_def)

section \<open>Properties\<close>

text \<open>C5: a request goes to the best route. In every table that registrations and removals can
  build, lookup searches the exact domain, then the wildcard domains from the longest suffix to
  the shortest with two labels, then the route for every domain; in the first of these that has a
  route for the request, it takes, among the routes for the user of the request or, if there is
  none, among those for any user, the one with the longest prefix of the path. There is only one
  such route, so the order of registration does not matter.\<close>

theorem vhost_lookup_exact:
  assumes "vhost_run ops = t"
  shows "vhost_lookup t host path u kind = Some (r, loc) \<longleftrightarrow>
    (\<exists>pre rs post. candidates t (clean_host host) = pre @ rs # post
       \<and> wins kind path u rs r loc
       \<and> (\<forall>q\<in>set pre. \<forall>r' l'. \<not> wins kind path u q r' l'))"
proof -
  have ok: "routes_ok rs" if "candidates t (clean_host host) = pre @ rs # post" for pre rs post
    using candidates_ok [of t rs "clean_host host"] table_ok_run [of ops] assms that by simp
  show ?thesis
    unfolding vhost_lookup_search first_hit_Some in_table_None
    using in_table_iff [OF ok, of _ _ _ kind path u r loc] by blast
qed

definition demo_route :: "nat \<Rightarrow> string \<Rightarrow> string list \<Rightarrow> string \<Rightarrow> vhost_kind \<Rightarrow> vhost_route" where
  "demo_route ptr name locations user kind =
     \<lparr>vr_proxy = name, vr_client = \<lparr>cr_ptr = ptr, cr_user = []\<rparr>, vr_domain = ''x.com'', vr_locations = locations,
      vr_http_user = [], vr_http_pwd = [], vr_route_user = user, vr_rewrite_host = [],
      vr_req_headers = fmempty, vr_resp_headers = fmempty, vr_kind = kind\<rparr>"

definition demo_table_ops :: "vhost_op list" where
  "demo_table_ops =
     [VhRegister (demo_route 1 ''root'' [''/''] [] VhHttp), VhRegister (demo_route 2 ''api'' [''/api''] [] VhHttp)]"

lemma demo_table:
  "vhost_run demo_table_ops =
     \<lparr>vt_exact = fmupd ''x.com'' [demo_route 1 ''root'' [''/''] [] VhHttp, demo_route 2 ''api'' [''/api''] [] VhHttp] fmempty,
      vt_wildcard = fmempty\<rparr>"
  by (simp add: vhost_run_def demo_table_ops_def vhost_empty_def vhost_register_def routes_register_def demo_route_def
      str_strip_prefix_def fm_list_def conflicts_def same_owner_def Let_def)

lemma demo_host: "clean_host ''x.com'' = ''x.com''"
proof -
  have "trim ''x.com'' = ''x.com''" by (rule trim_tight) (simp add: tight_def graphic_def)
  then show ?thesis by (simp add: clean_host_def trim_end_matches_def to_ascii_lowercase_def ascii_lower_def Let_def)
qed

theorem vhost_lookup_exact_witness:
  "\<exists>pre rs post. candidates (vhost_run demo_table_ops) (clean_host ''x.com'') = pre @ rs # post
     \<and> wins VhHttp ''/api/v1'' None rs (demo_route 2 ''api'' [''/api''] [] VhHttp) ''/api''
     \<and> (\<forall>q\<in>set pre. \<forall>r' l'. \<not> wins VhHttp ''/api/v1'' None q r' l')"
proof -
  have "vhost_lookup (vhost_run demo_table_ops) ''x.com'' ''/api/v1'' None VhHttp
      = Some (demo_route 2 ''api'' [''/api''] [] VhHttp, ''/api'')"
    unfolding demo_table
    by (simp add: vhost_lookup_def demo_host in_table_def in_scope_def match_location_def demo_route_def Let_def)
  then show ?thesis using vhost_lookup_exact [OF refl] by blast
qed



text \<open>A tenant can take over the requests of a user all the same. If nobody has the empty location
  of a domain and no route of it is for a given user, any client may register the empty location
  for that user: the empty string is not the location \<open>/\<close>, so there is no conflict; from then on
  every request of that user for the domain, whatever its path, goes to this client, because
  routes for the user come before those for any user however short their location is.\<close>

theorem vhost_user_parasite:
  assumes "vhost_run ops = t" "clean_host d = d" "str_strip_prefix ''*.'' d = None"
    and "\<forall>r\<in>set (fm_list (vt_exact t) d). [] \<notin> set (vr_locations r) \<and> vr_route_user r \<noteq> user"
    and "user \<noteq> []" "vr_domain evil = d" "vr_locations evil = [[]]" "vr_route_user evil = user" "vr_kind evil = kind"
  shows "\<exists>t'. vhost_register evil t = (t', Inr ()) \<and> vhost_lookup t' d path (Some user) kind = Some (evil, [])"
proof -
  let ?rs = "fm_list (vt_exact t) d"
  let ?rs' = "filter (\<lambda>r. \<not> (same_owner r evil \<and> vr_proxy r = vr_proxy evil)) ?rs @ [evil]"
  let ?t' = "t\<lparr>vt_exact := fmupd d ?rs' (vt_exact t)\<rparr>"
  have "\<not> list_ex (conflicts evil) ?rs"
    using assms(4) by (auto simp: list_ex_iff conflicts_def Let_def assms(7))
  then have r: "vhost_register evil t = (?t', Inr ())"
    using assms(3,6) by (simp add: vhost_register_def routes_register_def)
  have ok: "routes_ok ?rs'" using routes_register_ok [of ?rs evil ?rs'] table_ok_run [of ops] assms(1)
      \<open>\<not> list_ex (conflicts evil) ?rs\<close> by (simp add: table_ok_def routes_register_def)
  have "hits kind path (Some user) True evil []" using assms by (simp add: hits_def in_scope_def)
  moreover have "length l \<le> length []" if "x \<in> set ?rs'" "hits kind path (Some user) True x l" for x l
    using that assms(4,7) by (auto simp: hits_def in_scope_def)
  ultimately have "wins kind path (Some user) ?rs' evil []" unfolding wins_def by auto
  then have "in_table kind path (Some user) (Some ?rs') = Some (evil, [])" using in_table_iff [OF ok] by blast
  then show ?thesis unfolding r vhost_lookup_search assms(2)
    by (intro exI [of _ ?t']) (simp add: candidates_def fm_list_upd)
qed

theorem vhost_user_parasite_witness:
  "\<exists>t'. vhost_register (demo_route 3 ''evil'' [[]] ''alice'' VhHttp) (vhost_run demo_table_ops) = (t', Inr ())
     \<and> vhost_lookup t' ''x.com'' ''/api/secret'' (Some ''alice'') VhHttp
         = Some (demo_route 3 ''evil'' [[]] ''alice'' VhHttp, [])"
  by (rule vhost_user_parasite [OF refl demo_host])
    (simp_all add: demo_table fm_list_def, simp_all add: demo_route_def str_strip_prefix_def)

text \<open>One client cannot have HTTP and HTTPS on one domain. Once a proxy of a client holds a location
  of a domain, another proxy of the same client with this location is refused even though the
  kinds differ and a request of one kind never goes to a route of the other.\<close>

theorem vhost_kinds_exclude:
  assumes "vhost_run ops = t" "r \<in> set (fm_list (vt_exact t) d)" "loc \<in> set (vr_locations r)" "vr_kind r = VhHttp"
    and "vr_domain q = d" "str_strip_prefix ''*.'' d = None" "loc \<in> set (vr_locations q)" "vr_kind q = VhHttps"
    and "same_owner r q" "vr_proxy r \<noteq> vr_proxy q" "vr_route_user r = vr_route_user q"
  shows "vhost_register q t = (t, Inl (DomainTaken d))
    \<and> (\<forall>host path u r' l. vhost_lookup t host path u VhHttps = Some (r', l) \<longrightarrow> r' \<noteq> r)"
proof (intro conjI allI impI)
  have "list_ex (conflicts q) (fm_list (vt_exact t) d)"
    using assms by (auto simp: list_ex_iff conflicts_def Let_def intro!: bexI [of _ r])
  then show "vhost_register q t = (t, Inl (DomainTaken d))"
    using assms(5,6) by (simp add: vhost_register_def routes_register_def)
next
  fix host path u r' l assume "vhost_lookup t host path u VhHttps = Some (r', l)"
  then obtain rs where "in_table VhHttps path u (Some rs) = Some (r', l)"
    unfolding vhost_lookup_search first_hit_Some by blast
  from in_table_wins [OF this] show "r' \<noteq> r" using assms(4) by (auto simp: wins_def hits_def)
qed

theorem vhost_kinds_exclude_witness:
  "vhost_register (demo_route 1 ''secure'' [''/''] [] VhHttps) (vhost_run demo_table_ops)
     = (vhost_run demo_table_ops, Inl (DomainTaken ''x.com''))"
proof -
  let ?r = "demo_route 1 ''root'' [''/''] [] VhHttp" and ?q = "demo_route 1 ''secure'' [''/''] [] VhHttps"
  have "?r \<in> set (fm_list (vt_exact (vhost_run demo_table_ops)) ''x.com'')" by (simp add: demo_table fm_list_def)
  from conjunct1 [OF vhost_kinds_exclude [OF refl this, of "''/''" ?q]] show ?thesis
    by (simp add: demo_route_def same_owner_def str_strip_prefix_def)
qed

end
