(* ===== verification/Visitors.thy ===== *)
theory Visitors
  imports Auth Client_Ref
begin

text \<open>
  Private proxies (\<open>server/src/visitor.rs\<close>) and the admission of a visitor
  (\<open>handle_visitor\<close> in \<open>server/src/serve.rs\<close> up to the pairing with a work connection). The reply
  to the visitor is part of the result: the empty string is a success.
\<close>

section \<open>The table\<close>

record visitor_entry =
  ve_proxy :: string
  ve_secret :: string
  ve_allow_users :: "string list"
  ve_provider_user :: string
  ve_client :: client_ref
  ve_type :: string

type_synonym visitor_table = "(string, visitor_entry) fmap"

definition check_sign :: "md5_fn \<Rightarrow> system_time \<Rightarrow> visitor_entry \<Rightarrow> string \<Rightarrow> i64 \<Rightarrow> u64 \<Rightarrow> bool" where
  "check_sign md5 clock e sign_key ts skew \<longleftrightarrow>
     verify_shared_secret_proof md5 clock (ve_secret e) sign_key ts skew = Inr ()"

definition check_user :: "visitor_entry \<Rightarrow> string \<Rightarrow> bool" where
  "check_user e visitor_user =
     (if ve_allow_users e = [] then ve_provider_user e = visitor_user
      else if visitor_user = [] then False
      else list_ex (\<lambda>u. u = ''*'' \<or> u = visitor_user) (ve_allow_users e))"

datatype visitor_error = Repeated string

definition visitor_register :: "visitor_entry \<Rightarrow> visitor_table \<Rightarrow> visitor_table \<times> (visitor_error + unit)" where
  "visitor_register e t =
     (if fmlookup t (ve_proxy e) \<noteq> None then (t, Inl (Repeated (ve_proxy e)))
      else (fmupd (ve_proxy e) e t, Inr ()))"

definition visitor_get :: "string \<Rightarrow> visitor_table \<Rightarrow> visitor_entry option" where
  "visitor_get name t = fmlookup t name"

definition visitor_remove :: "client_ref \<Rightarrow> string \<Rightarrow> visitor_table \<Rightarrow> visitor_table \<times> visitor_entry option" where
  "visitor_remove client name t =
     (case fmlookup t name of
        Some e \<Rightarrow> if cr_ptr (ve_client e) = cr_ptr client then (fmdrop name t, Some e) else (t, None)
      | None \<Rightarrow> (t, None))"

definition visitor_unregister_client :: "client_ref \<Rightarrow> visitor_table \<Rightarrow> visitor_table" where
  "visitor_unregister_client client t = fm_retain (\<lambda>_ e. cr_ptr (ve_client e) \<noteq> cr_ptr client) t"

section \<open>Admission\<close>

record visitor_msg =
  vm_run_id :: string
  vm_proxy :: string
  vm_sign_key :: string
  vm_timestamp :: i64

datatype visitor_refusal = NoSuchSession | NoSuchProxy | BadSign | UserNotAllowed | NoSlot

definition error_to_client :: "bool \<Rightarrow> string \<Rightarrow> string \<Rightarrow> string" where
  "error_to_client detailed summary detail = (if detailed then detail else summary)"

text \<open>\<open>sessions\<close> are the users of the clients that are online, by run id; \<open>slot\<close> says whether the
  quotas of connections have room. The result is the reply and, for a success, the entry whose
  client is then asked for a work connection.\<close>

definition handle_visitor ::
  "md5_fn \<Rightarrow> system_time \<Rightarrow> u64 \<Rightarrow> bool \<Rightarrow> (string, string) fmap \<Rightarrow> visitor_table \<Rightarrow> (visitor_entry \<Rightarrow> bool)
     \<Rightarrow> visitor_msg \<Rightarrow> string \<times> (visitor_refusal + visitor_entry)" where
  "handle_visitor md5 clock skew detailed sessions t slot m =
     (case fmlookup sessions (vm_run_id m) of
        None \<Rightarrow> (''visitor connection failed'', Inl NoSuchSession)
      | Some visitor_user \<Rightarrow>
          (case visitor_get (vm_proxy m) t of
             None \<Rightarrow> (''visitor connection failed'', Inl NoSuchProxy)
           | Some e \<Rightarrow>
               if \<not> check_sign md5 clock e (vm_sign_key m) (vm_timestamp m) skew
               then (''visitor connection failed'', Inl BadSign)
               else if \<not> check_user e visitor_user
               then (error_to_client detailed ''visitor connection failed''
                       (''visitor connection of ['' @ vm_proxy m @ ''] user not allowed''), Inl UserNotAllowed)
               else if \<not> slot e then (''server is busy: too many active connections'', Inl NoSlot)
               else ([], Inr e)))"

section \<open>Properties\<close>

lemma check_sign_iff:
  "check_sign md5 clock e key ts skew \<longleftrightarrow> is_fresh clock ts skew \<and> key = auth_key md5 (ve_secret e) ts"
  by (auto simp: check_sign_def verify_shared_secret_proof_def res_bind_Inr_iff check_freshness_Inr auth_key_eq)

text \<open>C7: a visitor is admitted to a private proxy exactly when it names a session that is online, the
  proxy is registered, it shows the MD5 of the secret and a fresh time stamp, its user is the
  provider's own (no list) or, with a list, has a name that is listed or the list has a star,
  and the quotas have room. Whoever does not know the secret gets one and the same reply, whether
  the session, the proxy or the key is wrong, and whatever the server is configured to reveal.\<close>

theorem visitor_admission_exact:
  "(snd (handle_visitor md5 clock skew detailed sessions t slot m) = Inr e \<longleftrightarrow>
      (\<exists>user. fmlookup sessions (vm_run_id m) = Some user
         \<and> (if ve_allow_users e = [] then user = ve_provider_user e
            else user \<noteq> [] \<and> (''*'' \<in> set (ve_allow_users e) \<or> user \<in> set (ve_allow_users e))))
      \<and> fmlookup t (vm_proxy m) = Some e
      \<and> is_fresh clock (vm_timestamp m) skew
      \<and> vm_sign_key m = auth_key md5 (ve_secret e) (vm_timestamp m)
      \<and> slot e)
   \<and> (fst (handle_visitor md5 clock skew detailed sessions t slot m) = ''visitor connection failed''
      \<or> (\<exists>e. fmlookup t (vm_proxy m) = Some e
          \<and> vm_sign_key m = auth_key md5 (ve_secret e) (vm_timestamp m)))"
proof
  show "snd (handle_visitor md5 clock skew detailed sessions t slot m) = Inr e \<longleftrightarrow>
      (\<exists>user. fmlookup sessions (vm_run_id m) = Some user
         \<and> (if ve_allow_users e = [] then user = ve_provider_user e
            else user \<noteq> [] \<and> (''*'' \<in> set (ve_allow_users e) \<or> user \<in> set (ve_allow_users e))))
      \<and> fmlookup t (vm_proxy m) = Some e
      \<and> is_fresh clock (vm_timestamp m) skew
      \<and> vm_sign_key m = auth_key md5 (ve_secret e) (vm_timestamp m)
      \<and> slot e"
    by (cases "fmlookup sessions (vm_run_id m)"; cases "fmlookup t (vm_proxy m)")
      (auto simp: handle_visitor_def visitor_get_def check_sign_iff check_user_def list_ex_iff)
  show "fst (handle_visitor md5 clock skew detailed sessions t slot m) = ''visitor connection failed''
      \<or> (\<exists>e. fmlookup t (vm_proxy m) = Some e
          \<and> vm_sign_key m = auth_key md5 (ve_secret e) (vm_timestamp m))"
    by (cases "fmlookup sessions (vm_run_id m)"; cases "fmlookup t (vm_proxy m)")
      (auto simp: handle_visitor_def visitor_get_def check_sign_iff)
qed

end
