(* ===== verification/Registration.thy ===== *)
theory Registration
  imports Ports Vhost Visitors Rbac Quotas "HOL-Library.List_Lexorder" "HOL-Library.Char_ord"
begin

text \<open>
  Registering and closing proxies: \<open>register_proxy\<close>, \<open>close_proxy_by_name\<close>, the \<open>NewProxy\<close> and
  \<open>CloseProxy\<close> branches of the control loop in \<open>server/src/serve.rs\<close>, the proxy table of
  \<open>ClientState\<close> in \<open>server/src/pool.rs\<close> and \<open>cleanup_client\<close> of \<open>registry.rs\<close>. A proxy takes
  a place of its client's quota and, by its type, a public port, routes of virtual hosts or a
  name for visitors; this is where \<open>Quotas\<close>, \<open>Ports\<close>, \<open>Vhost\<close>, \<open>Visitors\<close> and \<open>Rbac\<close> meet. The
  operating system's answer to a bind is an argument, HTTP plugins are left out.
\<close>

section \<open>Names and messages\<close>

definition add_user_prefix :: "string \<Rightarrow> string \<Rightarrow> string" where
  "add_user_prefix user name = (if user = [] then name else user @ ''.'' @ name)"

definition strip_user_prefix :: "string \<Rightarrow> string \<Rightarrow> string" where
  "strip_user_prefix user name =
     (if user = [] then name
      else case str_strip_prefix user name of
          Some rest \<Rightarrow> (case str_strip_prefix ''.'' rest of Some n \<Rightarrow> n | None \<Rightarrow> name)
        | None \<Rightarrow> name)"

definition canonical_wire_name :: "string \<Rightarrow> string \<Rightarrow> string" where
  "canonical_wire_name user name = add_user_prefix user (strip_user_prefix user name)"

record new_proxy =
  np_name :: string
  np_type :: string
  np_enc :: bool
  np_comp :: bool
  np_bandwidth :: string
  np_bandwidth_mode :: string
  np_group :: string
  np_group_key :: string
  np_metas :: "(string, string) fmap"
  np_annotations :: "(string, string) fmap"
  np_port :: u16
  np_domains :: "string list"
  np_subdomain :: string
  np_locations :: "string list"
  np_http_user :: string
  np_http_pwd :: string
  np_host_rewrite :: string
  np_headers :: "(string, string) fmap"
  np_resp_headers :: "(string, string) fmap"
  np_route_user :: string
  np_multiplexer :: string
  np_sk :: string
  np_allow_users :: "string list"

text \<open>The fingerprint of a registration.\<close>

definition sig_map :: "(string, string) fmap \<Rightarrow> string" where
  "sig_map m = join_with ''&'' (map (\<lambda>k. k @ ''='' @ the (fmlookup m k)) (sorted_list_of_fset (fmdom m)))"

definition sig_vec :: "string list \<Rightarrow> string" where
  "sig_vec v = join_with '','' (sort v)"

definition show_bool :: "bool \<Rightarrow> string" where
  "show_bool b = (if b then ''true'' else ''false'')"

definition sig_fields :: "new_proxy \<Rightarrow> string list" where
  "sig_fields m =
     [''name='' @ np_name m, ''type='' @ np_type m, ''enc='' @ show_bool (np_enc m),
      ''comp='' @ show_bool (np_comp m), ''bw='' @ np_bandwidth m, ''bwmode='' @ np_bandwidth_mode m,
      ''group='' @ np_group m, ''gkey='' @ np_group_key m, ''metas='' @ sig_map (np_metas m),
      ''ann='' @ sig_map (np_annotations m), ''port='' @ show_nat (unat (np_port m)),
      ''domains='' @ sig_vec (np_domains m), ''sub='' @ np_subdomain m,
      ''locations='' @ sig_vec (np_locations m), ''http_user='' @ np_http_user m,
      ''http_pwd='' @ np_http_pwd m, ''host='' @ np_host_rewrite m, ''headers='' @ sig_map (np_headers m),
      ''resp_headers='' @ sig_map (np_resp_headers m), ''route_user='' @ np_route_user m,
      ''mux='' @ np_multiplexer m, ''sk='' @ np_sk m, ''allow='' @ sig_vec (np_allow_users m)]"

definition proxy_signature :: "new_proxy \<Rightarrow> string" where
  "proxy_signature m = join_with [CHR 0x00] (sig_fields m)"

section \<open>The proxy table of a client\<close>

record proxy_entry =
  pe_slot :: permit
  pe_port :: "u16 option"
  pe_enc :: bool
  pe_comp :: bool
  pe_type :: string
  pe_remote :: string
  pe_signature :: string
  pe_epoch :: u64

record 's client_tab =
  ct_ref :: client_ref
  ct_proxies :: "(string, proxy_entry) fmap"
  ct_limit :: "'s limit"
  ct_resumed :: bool
  ct_epoch :: u64

definition reserve_proxy :: "'s semaphore \<Rightarrow> 's client_tab \<Rightarrow> 's client_tab \<times> permit option" where
  "reserve_proxy sm ct = (let (l, p) = limit_try_acquire sm (ct_limit ct) in (ct\<lparr>ct_limit := l\<rparr>, p))"

text \<open>An entry that is overwritten drops its permit.\<close>

definition drop_entry :: "'s semaphore \<Rightarrow> proxy_entry option \<Rightarrow> 's client_tab \<Rightarrow> 's client_tab" where
  "drop_entry sm e ct =
     (case e of None \<Rightarrow> ct | Some e \<Rightarrow> ct\<lparr>ct_limit := permit_drop sm (pe_slot e) (ct_limit ct)\<rparr>)"

definition add_proxy ::
  "'s semaphore \<Rightarrow> string \<Rightarrow> u16 option \<Rightarrow> permit \<Rightarrow> 's client_tab \<Rightarrow> 's client_tab" where
  "add_proxy sm name port slot ct =
     drop_entry sm (fmlookup (ct_proxies ct) name)
       (ct\<lparr>ct_proxies := fmupd name
            \<lparr>pe_slot = slot, pe_port = port, pe_enc = False, pe_comp = False, pe_type = [],
             pe_remote = [], pe_signature = [], pe_epoch = 0\<rparr> (ct_proxies ct)\<rparr>)"

definition update_entry :: "string \<Rightarrow> (proxy_entry \<Rightarrow> proxy_entry) \<Rightarrow> 's client_tab \<Rightarrow> 's client_tab" where
  "update_entry name f ct =
     (case fmlookup (ct_proxies ct) name of
        None \<Rightarrow> ct | Some e \<Rightarrow> ct\<lparr>ct_proxies := fmupd name (f e) (ct_proxies ct)\<rparr>)"

definition set_proxy_type :: "string \<Rightarrow> string \<Rightarrow> 's client_tab \<Rightarrow> 's client_tab" where
  "set_proxy_type name ty ct = update_entry name (\<lambda>e. e\<lparr>pe_type := ty\<rparr>) ct"

definition set_proxy_flags :: "string \<Rightarrow> bool \<Rightarrow> bool \<Rightarrow> 's client_tab \<Rightarrow> 's client_tab" where
  "set_proxy_flags name enc cmp ct = update_entry name (\<lambda>e. e\<lparr>pe_enc := enc, pe_comp := cmp\<rparr>) ct"

definition set_proxy_registration :: "string \<Rightarrow> string \<Rightarrow> string \<Rightarrow> 's client_tab \<Rightarrow> 's client_tab" where
  "set_proxy_registration name addr sg ct =
     update_entry name (\<lambda>e. e\<lparr>pe_remote := addr, pe_signature := sg, pe_epoch := ct_epoch ct\<rparr>) ct"

definition reusable_proxy :: "string \<Rightarrow> string \<Rightarrow> 's client_tab \<Rightarrow> string option" where
  "reusable_proxy name sg ct =
     (case fmlookup (ct_proxies ct) name of
        None \<Rightarrow> None | Some e \<Rightarrow> if pe_signature e = sg then Some (pe_remote e) else None)"

definition has_proxy :: "string \<Rightarrow> 's client_tab \<Rightarrow> bool" where
  "has_proxy name ct \<longleftrightarrow> fmlookup (ct_proxies ct) name \<noteq> None"

definition proxy_flags :: "string \<Rightarrow> 's client_tab \<Rightarrow> bool \<times> bool" where
  "proxy_flags name ct =
     (case fmlookup (ct_proxies ct) name of None \<Rightarrow> (False, False) | Some e \<Rightarrow> (pe_enc e, pe_comp e))"

definition proxy_type_of :: "string \<Rightarrow> 's client_tab \<Rightarrow> string" where
  "proxy_type_of name ct = (case fmlookup (ct_proxies ct) name of None \<Rightarrow> [] | Some e \<Rightarrow> pe_type e)"

definition proxy_count :: "'s client_tab \<Rightarrow> nat" where
  "proxy_count ct = fm_len (ct_proxies ct)"

definition ports_used :: "'s client_tab \<Rightarrow> nat" where
  "ports_used ct = fm_len (fm_retain (\<lambda>_ e. pe_port e \<noteq> None) (ct_proxies ct))"

definition proxy_names :: "'s client_tab \<Rightarrow> string list" where
  "proxy_names ct = sorted_list_of_fset (fmdom (ct_proxies ct))"

definition stop_proxy :: "'s semaphore \<Rightarrow> string \<Rightarrow> 's client_tab \<Rightarrow> 's client_tab \<times> u16 option" where
  "stop_proxy sm name ct =
     (case fmlookup (ct_proxies ct) name of
        None \<Rightarrow> (ct, None)
      | Some e \<Rightarrow> (drop_entry sm (Some e) (ct\<lparr>ct_proxies := fmdrop name (ct_proxies ct)\<rparr>), pe_port e))"

definition finish_resume :: "'s client_tab \<Rightarrow> 's client_tab" where
  "finish_resume ct = ct\<lparr>ct_resumed := False\<rparr>"

definition stale_proxies :: "'s client_tab \<Rightarrow> string list" where
  "stale_proxies ct =
     sorted_list_of_fset (fmdom (fm_retain (\<lambda>_ e. pe_epoch e \<noteq> ct_epoch ct) (ct_proxies ct)))"

section \<open>The server\<close>

text \<open>\<open>rc_proxy_host\<close> is \<open>effective_proxy_bind_addr\<close>. Clients are found by their address.\<close>

record reg_config =
  rc_allow :: "ports_range list"
  rc_max_ports :: int
  rc_http_port :: "u16 option"
  rc_https_port :: "u16 option"
  rc_tcpmux_port :: "u16 option"
  rc_subdomain_host :: string
  rc_proxy_host :: string

record 's reg_world =
  rw_ports :: ports
  rw_vhosts :: "vhost_table option"
  rw_visitors :: visitor_table
  rw_clients :: "nat \<Rightarrow> 's client_tab"
  rw_active :: int

definition upd_client :: "nat \<Rightarrow> ('s client_tab \<Rightarrow> 's client_tab) \<Rightarrow> 's reg_world \<Rightarrow> 's reg_world" where
  "upd_client c f w = w\<lparr>rw_clients := (rw_clients w)(c := f (rw_clients w c))\<rparr>"

datatype bind_result = ResolveFailed | BindRefused | Bound nat

type_synonym bind_fn = "string \<Rightarrow> u16 \<Rightarrow> bind_result"

datatype reg_error =
    NameEmpty | ProxyLimit | PortNotPublic | TooManyPorts | UnknownType string | SecretMissing
  | VisitorTaken visitor_error | PortZero | PortRefused port_refusal | NotResolved | BindFailed | UdpJoined
  | NoVhostPort | BadMultiplexer string | NoVhostTable | NoSubdomainHost | NoDomains
  | VhostTaken vhost_error | RoleRefused rbac_error

definition close_proxy_by_name ::
  "'s semaphore \<Rightarrow> run_ids \<Rightarrow> nat \<Rightarrow> string \<Rightarrow> 's reg_world \<Rightarrow> 's reg_world \<times> bool" where
  "close_proxy_by_name sm rid c name w =
     (let ref = ct_ref (rw_clients w c);
          w1 = w\<lparr>rw_visitors := fst (visitor_remove ref name (rw_visitors w)),
                 rw_vhosts := map_option (\<lambda>t. fst (vhost_remove_proxy ref name t)) (rw_vhosts w)\<rparr>
      in if \<not> has_proxy name (rw_clients w1 c) then (w1, False)
         else
           let (ct, port) = stop_proxy sm name (rw_clients w1 c);
               w2 = (upd_client c (\<lambda>_. ct) w1)\<lparr>rw_active := rw_active w1 - 1\<rparr>
           in (case port of
                 None \<Rightarrow> w2
               | Some p \<Rightarrow> w2\<lparr>rw_ports := fst (release_port rid (rw_ports w2) p ref name)\<rparr>, True))"

text \<open>The \<open>CloseProxy\<close> branch of the control loop.\<close>

definition close_proxy :: "'s semaphore \<Rightarrow> run_ids \<Rightarrow> nat \<Rightarrow> string \<Rightarrow> 's reg_world \<Rightarrow> 's reg_world" where
  "close_proxy sm rid c name w =
     (let ref = ct_ref (rw_clients w c);
          w1 = w\<lparr>rw_visitors := fst (visitor_remove ref name (rw_visitors w)),
                 rw_vhosts := map_option (\<lambda>t. fst (vhost_remove_proxy ref name t)) (rw_vhosts w)\<rparr>;
          (ct, port) = stop_proxy sm name (rw_clients w1 c);
          w2 = upd_client c (\<lambda>_. ct) w1
      in case port of
           None \<Rightarrow> w2
         | Some p \<Rightarrow> w2\<lparr>rw_active := rw_active w2 - 1, rw_ports := fst (release_port rid (rw_ports w2) p ref name)\<rparr>)"

text \<open>What every type does once it has its resources.\<close>

definition record_proxy ::
  "'s semaphore \<Rightarrow> nat \<Rightarrow> new_proxy \<Rightarrow> u16 option \<Rightarrow> permit \<Rightarrow> 's reg_world \<Rightarrow> 's reg_world" where
  "record_proxy sm c m port slot w =
     upd_client c (\<lambda>ct. set_proxy_type (np_name m) (np_type m)
       (set_proxy_flags (np_name m) (np_enc m) (np_comp m) (add_proxy sm (np_name m) port slot ct))) w"

definition register_visitor_proxy ::
  "'s semaphore \<Rightarrow> nat \<Rightarrow> new_proxy \<Rightarrow> string \<Rightarrow> permit \<Rightarrow> 's reg_world \<Rightarrow> 's reg_world \<times> (reg_error + string)" where
  "register_visitor_proxy sm c m kind slot w =
     (if np_sk m = [] then (w, Inl SecretMissing)
      else
        let ref = ct_ref (rw_clients w c) in
        case visitor_register
               \<lparr>ve_proxy = np_name m, ve_secret = np_sk m, ve_allow_users = np_allow_users m,
                ve_provider_user = cr_user ref, ve_client = ref, ve_type = kind\<rparr> (rw_visitors w) of
          (_, Inl e) \<Rightarrow> (w, Inl (VisitorTaken e))
        | (t, Inr _) \<Rightarrow> (record_proxy sm c m None slot (w\<lparr>rw_visitors := t\<rparr>), Inr []))"

definition register_tcp ::
  "'s semaphore \<Rightarrow> run_ids \<Rightarrow> bind_fn \<Rightarrow> reg_config \<Rightarrow> nat \<Rightarrow> new_proxy \<Rightarrow> permit \<Rightarrow> 's reg_world
     \<Rightarrow> 's reg_world \<times> (reg_error + string)" where
  "register_tcp sm rid bind cfg c m slot w =
     (if np_port m = 0 then (w, Inl PortZero)
      else
        let ref = ct_ref (rw_clients w c);
            addr = rc_proxy_host cfg @ '':'' @ show_nat (unat (np_port m))
        in case reserve_port rid (rw_ports w) (np_port m) (np_group m) (np_group_key m) (np_name m) ref of
             (st, Inl e) \<Rightarrow> (w\<lparr>rw_ports := st\<rparr>, Inl (PortRefused e))
           | (st, Inr Joined) \<Rightarrow>
               (record_proxy sm c m (Some (np_port m)) slot (w\<lparr>rw_ports := st\<rparr>), Inr addr)
           | (st, Inr Fresh) \<Rightarrow>
               (case bind ''tcp'' (np_port m) of
                  ResolveFailed \<Rightarrow> (w\<lparr>rw_ports := st\<rparr>, Inl NotResolved)
                | BindRefused \<Rightarrow>
                    (w\<lparr>rw_ports := fst (release_port rid st (np_port m) ref (np_name m))\<rparr>, Inl BindFailed)
                | Bound h \<Rightarrow>
                    (record_proxy sm c m (Some (np_port m)) slot (w\<lparr>rw_ports := attach_listener st (np_port m) h\<rparr>),
                     Inr addr)))"

definition register_udp ::
  "'s semaphore \<Rightarrow> run_ids \<Rightarrow> bind_fn \<Rightarrow> reg_config \<Rightarrow> nat \<Rightarrow> new_proxy \<Rightarrow> permit \<Rightarrow> 's reg_world
     \<Rightarrow> 's reg_world \<times> (reg_error + string)" where
  "register_udp sm rid bind cfg c m slot w =
     (if np_port m = 0 then (w, Inl PortZero)
      else
        let ref = ct_ref (rw_clients w c);
            addr = rc_proxy_host cfg @ '':'' @ show_nat (unat (np_port m)) @ ''/udp''
        in case reserve_port rid (rw_ports w) (np_port m) (np_group m) (np_group_key m) (np_name m) ref of
             (st, Inl e) \<Rightarrow> (w\<lparr>rw_ports := st\<rparr>, Inl (PortRefused e))
           | (st, Inr Joined) \<Rightarrow>
               (w\<lparr>rw_ports := fst (release_port rid st (np_port m) ref (np_name m))\<rparr>, Inl UdpJoined)
           | (st, Inr Fresh) \<Rightarrow>
               (case bind ''udp'' (np_port m) of
                  Bound h \<Rightarrow>
                    (record_proxy sm c m (Some (np_port m)) slot (w\<lparr>rw_ports := attach_listener st (np_port m) h\<rparr>),
                     Inr addr)
                | _ \<Rightarrow>
                    (w\<lparr>rw_ports := fst (release_port rid st (np_port m) ref (np_name m))\<rparr>, Inl BindFailed)))"

text \<open>The routes of the domains one by one; the first refusal ends the loop.\<close>

fun register_domains :: "vhost_route \<Rightarrow> string list \<Rightarrow> vhost_table \<Rightarrow> vhost_table \<times> (vhost_error + unit)" where
  "register_domains route [] t = (t, Inr ())"
| "register_domains route (d # ds) t =
     (case vhost_register (route\<lparr>vr_domain := d\<rparr>) t of
        (t', Inl e) \<Rightarrow> (t', Inl e)
      | (t', Inr _) \<Rightarrow> register_domains route ds t')"

definition vhost_domains :: "reg_config \<Rightarrow> new_proxy \<Rightarrow> reg_error + string list" where
  "vhost_domains cfg m =
     (let custom = filter (\<lambda>d. d \<noteq> []) (map (\<lambda>d. to_ascii_lowercase (trim d)) (np_domains m)) in
      if np_subdomain m \<noteq> [] \<and> rc_subdomain_host cfg = [] then Inl NoSubdomainHost
      else
        let ds = custom @ (if np_subdomain m \<noteq> []
                           then [to_ascii_lowercase (trim (np_subdomain m)) @ ''.''
                                 @ to_ascii_lowercase (trim (rc_subdomain_host cfg))]
                           else [])
        in if ds = [] then Inl NoDomains else Inr ds)"

definition vhost_locations :: "vhost_kind \<Rightarrow> new_proxy \<Rightarrow> string list" where
  "vhost_locations kind m =
     sort_key (\<lambda>a. - int (length a))
       (if kind = VhTcpMux then [[]] else if np_locations m = [] then [''/''] else np_locations m)"

definition route_of_proxy :: "client_ref \<Rightarrow> vhost_kind \<Rightarrow> new_proxy \<Rightarrow> vhost_route" where
  "route_of_proxy ref kind m =
     \<lparr>vr_proxy = np_name m, vr_client = ref, vr_domain = [], vr_locations = vhost_locations kind m,
      vr_http_user = np_http_user m, vr_http_pwd = np_http_pwd m, vr_route_user = np_route_user m,
      vr_rewrite_host = np_host_rewrite m, vr_req_headers = np_headers m, vr_resp_headers = np_resp_headers m,
      vr_kind = kind\<rparr>"

fun vhost_port_of :: "reg_config \<Rightarrow> vhost_kind \<Rightarrow> u16 option" where
  "vhost_port_of cfg VhHttp = rc_http_port cfg"
| "vhost_port_of cfg VhHttps = rc_https_port cfg"
| "vhost_port_of cfg VhTcpMux = rc_tcpmux_port cfg"

definition register_vhost ::
  "'s semaphore \<Rightarrow> reg_config \<Rightarrow> nat \<Rightarrow> new_proxy \<Rightarrow> vhost_kind \<Rightarrow> permit \<Rightarrow> 's reg_world
     \<Rightarrow> 's reg_world \<times> (reg_error + string)" where
  "register_vhost sm cfg c m kind slot w =
     (case vhost_port_of cfg kind of
        None \<Rightarrow> (w, Inl NoVhostPort)
      | Some vport \<Rightarrow>
          if kind = VhTcpMux \<and> np_multiplexer m \<noteq> ''httpconnect'' then (w, Inl (BadMultiplexer (np_multiplexer m)))
          else (case rw_vhosts w of
              None \<Rightarrow> (w, Inl NoVhostTable)
            | Some t \<Rightarrow>
                (case vhost_domains cfg m of
                   Inl e \<Rightarrow> (w, Inl e)
                 | Inr ds \<Rightarrow>
                     (case register_domains (route_of_proxy (ct_ref (rw_clients w c)) kind m) ds t of
                        (t', Inl e) \<Rightarrow> (w\<lparr>rw_vhosts := Some t'\<rparr>, Inl (VhostTaken e))
                      | (t', Inr _) \<Rightarrow>
                          (record_proxy sm c m None slot (w\<lparr>rw_vhosts := Some t'\<rparr>),
                           Inr (join_with '','' (map (\<lambda>d. d @ '':'' @ show_nat (unat vport)) ds)))))))"

definition register_by_type ::
  "'s semaphore \<Rightarrow> run_ids \<Rightarrow> bind_fn \<Rightarrow> reg_config \<Rightarrow> nat \<Rightarrow> new_proxy \<Rightarrow> permit \<Rightarrow> 's reg_world
     \<Rightarrow> 's reg_world \<times> (reg_error + string)" where
  "register_by_type sm rid bind cfg c m slot w =
     (let ty = np_type m in
      if ty = ''tcp'' then register_tcp sm rid bind cfg c m slot w
      else if ty = ''udp'' then register_udp sm rid bind cfg c m slot w
      else if ty = ''http'' then register_vhost sm cfg c m VhHttp slot w
      else if ty = ''https'' then register_vhost sm cfg c m VhHttps slot w
      else if ty = ''tcpmux'' then register_vhost sm cfg c m VhTcpMux slot w
      else if ty = ''stcp'' \<or> ty = ''xtcp'' \<or> ty = ''sudp'' then register_visitor_proxy sm c m ty slot w
      else (w, Inl (UnknownType ty)))"

definition ports_error_of :: "reg_config \<Rightarrow> new_proxy \<Rightarrow> 's client_tab \<Rightarrow> reg_error option" where
  "ports_error_of cfg m ct =
     (if (np_type m = ''tcp'' \<or> np_type m = ''udp'') \<and> np_port m \<noteq> 0 then
        (if \<not> port_allowed (rc_allow cfg) (np_port m) then Some PortNotPublic
         else if rc_max_ports cfg > 0 \<and> int (ports_used ct) + 1 > rc_max_ports cfg then Some TooManyPorts
         else None)
      else None)"

text \<open>A slot that no proxy takes over is dropped.\<close>

definition drop_slot_of :: "'s semaphore \<Rightarrow> nat \<Rightarrow> permit \<Rightarrow> 's reg_world \<Rightarrow> 's reg_world" where
  "drop_slot_of sm c slot w = upd_client c (\<lambda>ct. ct\<lparr>ct_limit := permit_drop sm slot (ct_limit ct)\<rparr>) w"

definition register_new ::
  "'s semaphore \<Rightarrow> run_ids \<Rightarrow> bind_fn \<Rightarrow> reg_config \<Rightarrow> nat \<Rightarrow> new_proxy \<Rightarrow> 's reg_world
     \<Rightarrow> 's reg_world \<times> (reg_error + string)" where
  "register_new sm rid bind cfg c m w =
     (case reserve_proxy sm (rw_clients w c) of
        (ct, None) \<Rightarrow> (upd_client c (\<lambda>_. ct) w, Inl ProxyLimit)
      | (ct, Some slot) \<Rightarrow>
          (let w1 = upd_client c (\<lambda>_. ct) w in
           case ports_error_of cfg m ct of
             Some e \<Rightarrow> (drop_slot_of sm c slot w1, Inl e)
           | None \<Rightarrow>
               (case register_by_type sm rid bind cfg c m slot w1 of
                  (w2, Inl e) \<Rightarrow> (drop_slot_of sm c slot w2, Inl e)
                | (w2, Inr addr) \<Rightarrow>
                    (upd_client c (set_proxy_registration (np_name m) addr (proxy_signature m)) w2, Inr addr))))"

text \<open>The flag of the result says that a registration of the session before a resume was taken over.\<close>

definition register_proxy ::
  "'s semaphore \<Rightarrow> run_ids \<Rightarrow> bind_fn \<Rightarrow> reg_config \<Rightarrow> nat \<Rightarrow> new_proxy \<Rightarrow> 's reg_world
     \<Rightarrow> 's reg_world \<times> (reg_error + string \<times> bool)" where
  "register_proxy sm rid bind cfg c m w =
     (if np_name m = [] then (w, Inl NameEmpty)
      else
        let sg = proxy_signature m; ct = rw_clients w c in
        (case (if ct_resumed ct then reusable_proxy (np_name m) sg ct else None) of
          Some addr \<Rightarrow> (upd_client c (set_proxy_registration (np_name m) addr sg) w, Inr (addr, True))
        | None \<Rightarrow>
            let w1 = (if has_proxy (np_name m) ct then fst (close_proxy_by_name sm rid c (np_name m) w) else w)
            in (case register_new sm rid bind cfg c m w1 of
                 (w2, Inl e) \<Rightarrow> (w2, Inl e)
               | (w2, Inr addr) \<Rightarrow> (w2, Inr (addr, False)))))"

text \<open>The \<open>NewProxy\<close> branch of the control loop.\<close>

definition handle_new_proxy ::
  "'s semaphore \<Rightarrow> run_ids \<Rightarrow> bind_fn \<Rightarrow> reg_config \<Rightarrow> role \<Rightarrow> nat \<Rightarrow> new_proxy \<Rightarrow> 's reg_world
     \<Rightarrow> 's reg_world \<times> (reg_error + string)" where
  "handle_new_proxy sm rid bind cfg rl c m0 w =
     (let m = m0\<lparr>np_name := canonical_wire_name (cr_user (ct_ref (rw_clients w c))) (np_name m0)\<rparr> in
      case check_proxy rl (np_type m) (np_port m) (proxy_count (rw_clients w c)) of
        Inl e \<Rightarrow> (w, Inl (RoleRefused e))
      | Inr _ \<Rightarrow>
          (case register_proxy sm rid bind cfg c m w of
             (w1, Inl e) \<Rightarrow> (w1, Inl e)
           | (w1, Inr (addr, adopted)) \<Rightarrow>
               (if adopted then w1 else w1\<lparr>rw_active := rw_active w1 + 1\<rparr>, Inr addr)))"

text \<open>\<open>cleanup_client\<close>: the end of a client that is not suspended.\<close>

definition clean_client :: "'s semaphore \<Rightarrow> run_ids \<Rightarrow> nat \<Rightarrow> 's reg_world \<Rightarrow> 's reg_world" where
  "clean_client sm rid c w =
     (let ct = rw_clients w c; ref = ct_ref ct;
          ct' = fold (\<lambda>n. drop_entry sm (fmlookup (ct_proxies ct) n)) (proxy_names ct) (ct\<lparr>ct_proxies := fmempty\<rparr>)
      in (upd_client c (\<lambda>_. ct') w)
           \<lparr>rw_active := rw_active w - int (proxy_count ct),
            rw_vhosts := map_option (vhost_unregister_client ref) (rw_vhosts w),
            rw_visitors := visitor_unregister_client ref (rw_visitors w),
            rw_ports := fst (release_ports_of rid (rw_ports w) ref)\<rparr>)"

text \<open>The client takes up its session again; later it names the proxies it still wants, or the grace
  period ends and those it has not registered again are closed.\<close>

definition resume_client :: "nat \<Rightarrow> 's reg_world \<Rightarrow> 's reg_world" where
  "resume_client c w = upd_client c (\<lambda>ct. ct\<lparr>ct_resumed := True, ct_epoch := ct_epoch ct + 1\<rparr>) w"

definition close_all :: "'s semaphore \<Rightarrow> run_ids \<Rightarrow> nat \<Rightarrow> string list \<Rightarrow> 's reg_world \<Rightarrow> 's reg_world" where
  "close_all sm rid c names w = fold (\<lambda>n w. fst (close_proxy_by_name sm rid c n w)) names w"

definition commit_resume :: "'s semaphore \<Rightarrow> run_ids \<Rightarrow> nat \<Rightarrow> string list \<Rightarrow> 's reg_world \<Rightarrow> 's reg_world" where
  "commit_resume sm rid c wanted w =
     upd_client c finish_resume
       (close_all sm rid c (filter (\<lambda>n. n \<notin> set wanted) (proxy_names (rw_clients w c))) w)"

definition grace_expired :: "'s semaphore \<Rightarrow> run_ids \<Rightarrow> nat \<Rightarrow> 's reg_world \<Rightarrow> 's reg_world" where
  "grace_expired sm rid c w =
     (if ct_resumed (rw_clients w c)
      then upd_client c finish_resume (close_all sm rid c (stale_proxies (rw_clients w c)) w) else w)"

end
