(* ===== verification/Registration_Inv.thy ===== *)
theory Registration_Inv
  imports Registration
begin

text \<open>
  What registering and closing proxies keeps: the quota of each client counts its proxies, the
  public ports are held exactly by the proxies that have one, private names by proxies of their
  provider. The properties of \<open>Registration\<close> follow.
\<close>

section \<open>Runs\<close>

text \<open>What the environment gives a step: the run ids of the clients and the answers to binds.\<close>

record reg_env =
  en_rid :: run_ids
  en_bind :: bind_fn

datatype reg_op =
    NewProxyOp role nat new_proxy
  | CloseProxyOp nat string
  | ClientGone nat
  | ResumeOp nat
  | CommitOp nat "string list"
  | GraceOp nat

fun reg_step :: "'s semaphore \<Rightarrow> reg_config \<Rightarrow> 's reg_world \<Rightarrow> reg_env \<times> reg_op \<Rightarrow> 's reg_world" where
  "reg_step sm cfg w (en, NewProxyOp rl c m) = fst (handle_new_proxy sm (en_rid en) (en_bind en) cfg rl c m w)"
| "reg_step sm cfg w (en, CloseProxyOp c n) = close_proxy sm (en_rid en) c n w"
| "reg_step sm cfg w (en, ClientGone c) = clean_client sm (en_rid en) c w"
| "reg_step sm cfg w (en, ResumeOp c) = resume_client c w"
| "reg_step sm cfg w (en, CommitOp c names) = commit_resume sm (en_rid en) c names w"
| "reg_step sm cfg w (en, GraceOp c) = grace_expired sm (en_rid en) c w"

text \<open>A server without proxies; client number \<open>c\<close> has logged in as \<open>users c\<close> and may have \<open>maxp\<close> proxies.\<close>

definition reg_start :: "'s semaphore \<Rightarrow> nat \<Rightarrow> bool \<Rightarrow> (nat \<Rightarrow> string) \<Rightarrow> 's reg_world" where
  "reg_start sm maxp vhosts users =
     \<lparr>rw_ports = ports_empty, rw_vhosts = (if vhosts then Some vhost_empty else None), rw_visitors = fmempty,
      rw_clients = (\<lambda>c. \<lparr>ct_ref = \<lparr>cr_ptr = c, cr_user = users c\<rparr>, ct_proxies = fmempty,
                        ct_limit = limit_new sm maxp, ct_resumed = False, ct_epoch = 0\<rparr>),
      rw_active = 0\<rparr>"

definition reg_run ::
  "'s semaphore \<Rightarrow> reg_config \<Rightarrow> 's reg_world \<Rightarrow> (reg_env \<times> reg_op) list \<Rightarrow> 's reg_world" where
  "reg_run sm cfg w ops = foldl (reg_step sm cfg) w ops"

section \<open>Lemmas: sizes of tables\<close>

lemma fm_len_upd: "fm_len (fmupd k v m) = (if fmlookup m k = None then Suc (fm_len m) else fm_len m)"
  by (auto simp: fm_len_def fmdom_notI fmdomI finsert_absorb fcard_finsert_disjoint)

lemma fm_len_drop: "fmlookup m k \<noteq> None \<Longrightarrow> Suc (fm_len (fmdrop k m)) = fm_len m"
proof -
  assume "fmlookup m k \<noteq> None"
  then have "k |\<in>| fmdom m" by (auto intro: fmdomI)
  then show ?thesis by (simp only: fm_len_def fmdom_drop fcard_Suc_fminus1)
qed

lemma fmdrop_id: "fmlookup m k = None \<Longrightarrow> fmdrop k m = m"
  by (rule fmap_ext) auto

section \<open>Lemmas: claims on ports\<close>

definition claimed :: "ports \<Rightarrow> u16 \<Rightarrow> (client_ref \<times> string) set" where
  "claimed st p = (case view st p of None \<Rightarrow> {} | Some (g, k, u, M) \<Rightarrow> M)"

lemma same_client_ptr: "inj rid \<Longrightarrow> same_client rid a b \<longleftrightarrow> cr_ptr a = cr_ptr b"
  by (auto simp: same_client_def inj_def)

lemma reserve_port_refused: "reserve_port rid st p g k n ref = (st', Inl e) \<Longrightarrow> st' = st"
  by (auto simp: reserve_port_def new_backend_def split: option.splits if_splits)

lemma view_reserve_eq:
  "view (fst (reserve_port rid st p g k n c)) = snd (spec_step (rid, view st) (Reserve p g k n c))"
  using view_reserve [of rid st p g k n c] by (metis snd_conv)

lemma claimed_fresh:
  assumes "reserve_port rid st p g k n c = (st', Inr Fresh)"
  shows "claimed st p = {} \<and> claimed st' = (claimed st)(p := {(c, n)})"
proof -
  have v: "view st p = None"
    using assms by (auto simp: reserve_port_def view_def split: option.splits if_splits prod.splits)
  then show ?thesis using view_reserve_eq [of rid st p g k n c] assms by (auto simp: claimed_def fun_eq_iff)
qed

lemma claimed_joined:
  assumes "reserve_port rid st p g k n c = (st', Inr Joined)" "inj rid"
  shows "claimed st' = (claimed st)(p := insert (c, n) {x \<in> claimed st p. \<not> (cr_ptr (fst x) = cr_ptr c \<and> snd x = n)})"
proof -
  obtain e where v: "view st p = Some e"
    using assms by (auto simp: reserve_port_def view_def split: option.splits if_splits prod.splits)
  then have "spec_admits (view st) p g k (cr_user c)"
    using reserve_port_claim(2) [of st p rid g k n c] assms(1) by simp
  then show ?thesis using view_reserve_eq [of rid st p g k n c] assms v
    by (auto simp: claimed_def fun_eq_iff same_client_ptr split: prod.splits)
qed

lemma claimed_release:
  assumes "inj rid"
  shows "claimed (fst (release_port rid st p c n))
    = (claimed st)(p := {x \<in> claimed st p. \<not> (cr_ptr (fst x) = cr_ptr c \<and> snd x = n)})"
proof -
  have "view (fst (release_port rid st p c n)) = snd (spec_step (rid, view st) (Release p c n))"
    using view_release [of rid st p c n] by (metis snd_conv)
  then show ?thesis using assms
    by (auto simp: claimed_def fun_eq_iff shrink_def same_client_ptr bind_eq_None_conv bind_eq_Some_conv
        split: option.splits prod.splits if_splits)
qed

lemma claimed_release_all:
  assumes "inj rid"
  shows "claimed (fst (release_ports_of rid st c)) = (\<lambda>p. {x \<in> claimed st p. cr_ptr (fst x) \<noteq> cr_ptr c})"
proof -
  have "view (fst (release_ports_of rid st c)) = snd (spec_step (rid, view st) (ReleaseAll c))"
    using view_release_all [of rid st c] by (metis snd_conv)
  then show ?thesis using assms
    by (auto simp: claimed_def fun_eq_iff shrink_def same_client_ptr bind_eq_None_conv bind_eq_Some_conv
        split: option.splits prod.splits if_splits)
qed

lemma claimed_attach [simp]: "claimed (attach_listener st p h) = claimed st"
  by (simp add: claimed_def fun_eq_iff view_attach)

section \<open>Lemmas: the table of a client\<close>

text \<open>\<open>tab_ok sm maxp k ct\<close>: the quota has a permit out for each proxy and \<open>k\<close> more.\<close>

definition tab_ok :: "'s semaphore \<Rightarrow> nat \<Rightarrow> nat \<Rightarrow> 's client_tab \<Rightarrow> bool" where
  "tab_ok sm maxp k ct \<longleftrightarrow>
     limit_held sm (ct_limit ct) maxp (fm_len (ct_proxies ct) + k)
     \<and> (\<forall>n e. fmlookup (ct_proxies ct) n = Some e \<longrightarrow> (pe_slot e = Unlimited \<longleftrightarrow> maxp = 0))"

definition slot_ok :: "nat \<Rightarrow> permit \<Rightarrow> bool" where
  "slot_ok maxp slot \<longleftrightarrow> (slot = Unlimited \<longleftrightarrow> maxp = 0)"

definition port_of :: "'s client_tab \<Rightarrow> string \<Rightarrow> u16 option" where
  "port_of ct n = Option.bind (fmlookup (ct_proxies ct) n) pe_port"

lemma update_entry_simps [simp]:
  "ct_ref (update_entry n f ct) = ct_ref ct" "ct_limit (update_entry n f ct) = ct_limit ct"
  "ct_resumed (update_entry n f ct) = ct_resumed ct" "ct_epoch (update_entry n f ct) = ct_epoch ct"
  "has_proxy k (update_entry n f ct) = has_proxy k ct"
  "fm_len (ct_proxies (update_entry n f ct)) = fm_len (ct_proxies ct)"
  by (auto simp: update_entry_def has_proxy_def fm_len_upd split: option.splits)

lemma update_entry_port:
  assumes "\<And>e. pe_port (f e) = pe_port e" "\<And>e. pe_slot (f e) = pe_slot e"
  shows "port_of (update_entry n f ct) = port_of ct" "tab_ok sm maxp k (update_entry n f ct) = tab_ok sm maxp k ct"
    "ports_used (update_entry n f ct) = ports_used ct"
proof -
  show "port_of (update_entry n f ct) = port_of ct"
    by (auto simp: port_of_def update_entry_def fun_eq_iff assms split: option.splits)
  have "(\<forall>m e. fmlookup (ct_proxies (update_entry n f ct)) m = Some e \<longrightarrow> (pe_slot e = Unlimited \<longleftrightarrow> maxp = 0))
      \<longleftrightarrow> (\<forall>m e. fmlookup (ct_proxies ct) m = Some e \<longrightarrow> (pe_slot e = Unlimited \<longleftrightarrow> maxp = 0))"
    by (auto simp: update_entry_def assms split: option.splits)
  then show "tab_ok sm maxp k (update_entry n f ct) = tab_ok sm maxp k ct" by (simp add: tab_ok_def)
  have "fmdom (fm_retain (\<lambda>_ e. pe_port e \<noteq> None) (ct_proxies (update_entry n f ct)))
      = fmdom (fm_retain (\<lambda>_ e. pe_port e \<noteq> None) (ct_proxies ct))"
    by (rule fset_eqI) (auto simp: update_entry_def fmlookup_dom_iff assms split: option.splits if_splits)
  then show "ports_used (update_entry n f ct) = ports_used ct" by (simp add: ports_used_def fm_len_def)
qed

lemma set_proxy_simps [simp]:
  "ct_ref (set_proxy_type n ty ct) = ct_ref ct" "ct_ref (set_proxy_flags n a b ct) = ct_ref ct"
  "ct_ref (set_proxy_registration n ad sg ct) = ct_ref ct"
  "has_proxy k (set_proxy_type n ty ct) = has_proxy k ct" "has_proxy k (set_proxy_flags n a b ct) = has_proxy k ct"
  "has_proxy k (set_proxy_registration n ad sg ct) = has_proxy k ct"
  "port_of (set_proxy_type n ty ct) = port_of ct" "port_of (set_proxy_flags n a b ct) = port_of ct"
  "port_of (set_proxy_registration n ad sg ct) = port_of ct"
  "tab_ok sm maxp j (set_proxy_type n ty ct) = tab_ok sm maxp j ct"
  "tab_ok sm maxp j (set_proxy_flags n a b ct) = tab_ok sm maxp j ct"
  "tab_ok sm maxp j (set_proxy_registration n ad sg ct) = tab_ok sm maxp j ct"
  "ports_used (set_proxy_type n ty ct) = ports_used ct" "ports_used (set_proxy_flags n a b ct) = ports_used ct"
  "ports_used (set_proxy_registration n ad sg ct) = ports_used ct"
  by (simp_all add: set_proxy_type_def set_proxy_flags_def set_proxy_registration_def update_entry_port)

lemma tab_ok_reserve:
  assumes "sem_ok sm" "tab_ok sm maxp 0 ct" "reserve_proxy sm ct = (ct', slot)"
  shows "ct_ref ct' = ct_ref ct" "ct_proxies ct' = ct_proxies ct" "ct_resumed ct' = ct_resumed ct"
    "ct_epoch ct' = ct_epoch ct"
    "slot = Some p \<Longrightarrow> tab_ok sm maxp 1 ct' \<and> slot_ok maxp p"
    "slot = None \<Longrightarrow> ct' = ct"
proof -
  obtain l r where l: "limit_try_acquire sm (ct_limit ct) = (l, r)" by fastforce
  then have ct': "ct' = ct\<lparr>ct_limit := l\<rparr>" "slot = r" using assms(3) by (auto simp: reserve_proxy_def)
  show "ct_ref ct' = ct_ref ct" "ct_proxies ct' = ct_proxies ct" "ct_resumed ct' = ct_resumed ct"
    "ct_epoch ct' = ct_epoch ct" by (simp_all add: ct')
  show "slot = Some p \<Longrightarrow> tab_ok sm maxp 1 ct' \<and> slot_ok maxp p"
    using limit_held_acquire [OF assms(1), of "ct_limit ct" maxp "fm_len (ct_proxies ct)" l p] assms(2) l
    by (auto simp: tab_ok_def ct' slot_ok_def)
  show "slot = None \<Longrightarrow> ct' = ct"
    using limit_held_refuse [OF assms(1), of "ct_limit ct" maxp "fm_len (ct_proxies ct)" l] assms(2) l
    by (auto simp: tab_ok_def ct')
qed

lemma tab_ok_drop:
  assumes "sem_ok sm" "tab_ok sm maxp (Suc k) ct" "slot_ok maxp slot"
  shows "tab_ok sm maxp k (ct\<lparr>ct_limit := permit_drop sm slot (ct_limit ct)\<rparr>)"
  using limit_held_drop [OF assms(1), of "ct_limit ct" maxp "fm_len (ct_proxies ct) + k" slot] assms(2,3)
  by (simp add: tab_ok_def slot_ok_def)

lemma add_proxy_simps:
  assumes "\<not> has_proxy n ct"
  shows "add_proxy sm n port slot ct
    = ct\<lparr>ct_proxies := fmupd n \<lparr>pe_slot = slot, pe_port = port, pe_enc = False, pe_comp = False, pe_type = [],
             pe_remote = [], pe_signature = [], pe_epoch = 0\<rparr> (ct_proxies ct)\<rparr>"
  using assms by (simp add: add_proxy_def has_proxy_def drop_entry_def)

lemma add_proxy_facts:
  assumes "\<not> has_proxy n ct"
  shows "ct_ref (add_proxy sm n port slot ct) = ct_ref ct"
    "has_proxy k (add_proxy sm n port slot ct) \<longleftrightarrow> k = n \<or> has_proxy k ct"
    "port_of (add_proxy sm n port slot ct) = (port_of ct)(n := port)"
    "tab_ok sm maxp (Suc j) ct \<Longrightarrow> slot_ok maxp slot \<Longrightarrow> tab_ok sm maxp j (add_proxy sm n port slot ct)"
    "ports_used (add_proxy sm n port slot ct) = ports_used ct + (if port = None then 0 else 1)"
proof -
  note a = add_proxy_simps [OF assms]
  have n: "fmlookup (ct_proxies ct) n = None" using assms by (simp add: has_proxy_def)
  show "ct_ref (add_proxy sm n port slot ct) = ct_ref ct"
    "has_proxy k (add_proxy sm n port slot ct) \<longleftrightarrow> k = n \<or> has_proxy k ct"
    "port_of (add_proxy sm n port slot ct) = (port_of ct)(n := port)"
    by (auto simp: a has_proxy_def port_of_def fun_eq_iff)
  show "tab_ok sm maxp (Suc j) ct \<Longrightarrow> slot_ok maxp slot \<Longrightarrow> tab_ok sm maxp j (add_proxy sm n port slot ct)"
    by (auto simp: a tab_ok_def slot_ok_def fm_len_upd n)
  let ?r = "\<lambda>m. fm_retain (\<lambda>_ e. pe_port e \<noteq> None) m"
  have "?r (fmupd n e (ct_proxies ct)) = (if pe_port e \<noteq> None then fmupd n e (?r (ct_proxies ct)) else ?r (ct_proxies ct))" for e
    by (rule fmap_ext) (auto simp: n)
  then show "ports_used (add_proxy sm n port slot ct) = ports_used ct + (if port = None then 0 else 1)"
    by (simp add: a ports_used_def fm_len_upd n)
qed

lemma stop_proxy_facts:
  assumes "sem_ok sm" "tab_ok sm maxp k ct"
  shows "ct_ref (fst (stop_proxy sm n ct)) = ct_ref ct"
    "has_proxy j (fst (stop_proxy sm n ct)) \<longleftrightarrow> j \<noteq> n \<and> has_proxy j ct"
    "port_of (fst (stop_proxy sm n ct)) = (port_of ct)(n := None)"
    "tab_ok sm maxp k (fst (stop_proxy sm n ct))"
    "ports_used (fst (stop_proxy sm n ct)) \<le> ports_used ct"
    "snd (stop_proxy sm n ct) = port_of ct n"
proof -
  show "ct_ref (fst (stop_proxy sm n ct)) = ct_ref ct"
    "has_proxy j (fst (stop_proxy sm n ct)) \<longleftrightarrow> j \<noteq> n \<and> has_proxy j ct"
    "port_of (fst (stop_proxy sm n ct)) = (port_of ct)(n := None)"
    "snd (stop_proxy sm n ct) = port_of ct n"
    by (auto simp: stop_proxy_def drop_entry_def has_proxy_def port_of_def fun_eq_iff split: option.splits)
  show "tab_ok sm maxp k (fst (stop_proxy sm n ct))"
  proof (cases "fmlookup (ct_proxies ct) n")
    case None
    then show ?thesis using assms(2) by (simp add: stop_proxy_def)
  next
    case (Some e)
    have "fm_len (ct_proxies ct) + k = Suc (fm_len (fmdrop n (ct_proxies ct)) + k)"
      using fm_len_drop [of "ct_proxies ct" n] Some by simp
    then have "limit_held sm (permit_drop sm (pe_slot e) (ct_limit ct)) maxp (fm_len (fmdrop n (ct_proxies ct)) + k)"
      using limit_held_drop [OF assms(1), of "ct_limit ct" maxp "fm_len (fmdrop n (ct_proxies ct)) + k" "pe_slot e"]
        assms(2) Some by (simp add: tab_ok_def)
    then show ?thesis using Some assms(2) by (auto simp: stop_proxy_def drop_entry_def tab_ok_def split: if_splits)
  qed
  have "fmdom (fm_retain (\<lambda>_ e. pe_port e \<noteq> None) (fmdrop n (ct_proxies ct)))
      |\<subseteq>| fmdom (fm_retain (\<lambda>_ e. pe_port e \<noteq> None) (ct_proxies ct))"
    by (auto simp: fmlookup_dom_iff split: option.splits if_splits)
  then show "ports_used (fst (stop_proxy sm n ct)) \<le> ports_used ct"
    by (auto simp: stop_proxy_def drop_entry_def ports_used_def fm_len_def fcard_mono split: option.splits)
qed

section \<open>The invariant\<close>

text \<open>\<open>reg_okk sm cfg maxp c k w\<close>: as it should be between steps when \<open>k = 0\<close>; in the middle of a
  step, client \<open>c\<close> holds \<open>k\<close> permits for proxies not yet in its table.\<close>

definition claim_ok :: "'s reg_world \<Rightarrow> u16 \<Rightarrow> client_ref \<times> string \<Rightarrow> bool" where
  "claim_ok w p x \<longleftrightarrow>
     fst x = ct_ref (rw_clients w (cr_ptr (fst x))) \<and> port_of (rw_clients w (cr_ptr (fst x))) (snd x) = Some p"

definition visitor_ok :: "'s reg_world \<Rightarrow> string \<Rightarrow> visitor_entry \<Rightarrow> bool" where
  "visitor_ok w n e \<longleftrightarrow>
     ve_proxy e = n
     \<and> ve_client e = ct_ref (rw_clients w (cr_ptr (ve_client e)))
     \<and> has_proxy n (rw_clients w (cr_ptr (ve_client e)))
     \<and> port_of (rw_clients w (cr_ptr (ve_client e))) n = None"

definition limits_ok :: "reg_config \<Rightarrow> 's client_tab \<Rightarrow> bool" where
  "limits_ok cfg ct \<longleftrightarrow>
     (\<forall>n p. port_of ct n = Some p \<longrightarrow> p \<noteq> 0 \<and> port_allowed (rc_allow cfg) p)
     \<and> (rc_max_ports cfg > 0 \<longrightarrow> int (ports_used ct) \<le> rc_max_ports cfg)"

definition reg_okk :: "'s semaphore \<Rightarrow> reg_config \<Rightarrow> nat \<Rightarrow> nat \<Rightarrow> nat \<Rightarrow> 's reg_world \<Rightarrow> bool" where
  "reg_okk sm cfg maxp c k w \<longleftrightarrow>
     (\<forall>d. tab_ok sm maxp (if d = c then k else 0) (rw_clients w d) \<and> cr_ptr (ct_ref (rw_clients w d)) = d
        \<and> limits_ok cfg (rw_clients w d))
     \<and> (\<forall>p x. x \<in> claimed (rw_ports w) p \<longleftrightarrow> claim_ok w p x)
     \<and> (\<forall>n e. fmlookup (rw_visitors w) n = Some e \<longrightarrow> visitor_ok w n e)"

lemma reg_okk_zero: "reg_okk sm cfg maxp c 0 w \<longleftrightarrow> reg_okk sm cfg maxp d 0 w"
  by (simp add: reg_okk_def)

lemma reg_okkD:
  assumes "reg_okk sm cfg maxp c k w"
  shows "tab_ok sm maxp k (rw_clients w c)" "d \<noteq> c \<Longrightarrow> tab_ok sm maxp 0 (rw_clients w d)"
    "cr_ptr (ct_ref (rw_clients w d)) = d" "limits_ok cfg (rw_clients w d)"
    "x \<in> claimed (rw_ports w) p \<longleftrightarrow> claim_ok w p x"
    "fmlookup (rw_visitors w) n = Some e \<Longrightarrow> visitor_ok w n e"
  using assms unfolding reg_okk_def by metis+

lemma reg_okkI:
  assumes "tab_ok sm maxp k (rw_clients w c)" "\<And>d. d \<noteq> c \<Longrightarrow> tab_ok sm maxp 0 (rw_clients w d)"
    "\<And>d. cr_ptr (ct_ref (rw_clients w d)) = d" "\<And>d. limits_ok cfg (rw_clients w d)"
    "\<And>x p. x \<in> claimed (rw_ports w) p \<longleftrightarrow> claim_ok w p x"
    "\<And>n e. fmlookup (rw_visitors w) n = Some e \<Longrightarrow> visitor_ok w n e"
  shows "reg_okk sm cfg maxp c k w"
  using assms unfolding reg_okk_def by simp

lemma reg_okk_cong:
  assumes "rw_clients w' = rw_clients w" "claimed (rw_ports w') = claimed (rw_ports w)"
    "\<And>n e. fmlookup (rw_visitors w') n = Some e \<Longrightarrow> fmlookup (rw_visitors w) n = Some e"
    "reg_okk sm cfg maxp c k w"
  shows "reg_okk sm cfg maxp c k w'"
  using assms(3,4) unfolding reg_okk_def claim_ok_def visitor_ok_def assms(1,2) by blast

lemma upd_client_simps [simp]:
  "rw_clients (upd_client c f w) = (rw_clients w)(c := f (rw_clients w c))"
  "rw_ports (upd_client c f w) = rw_ports w" "rw_visitors (upd_client c f w) = rw_visitors w"
  "rw_vhosts (upd_client c f w) = rw_vhosts w" "rw_active (upd_client c f w) = rw_active w"
  by (simp_all add: upd_client_def)

text \<open>A change of one client that keeps its ports and names.\<close>

lemma reg_okk_client:
  assumes "reg_okk sm cfg maxp c k w"
    and "ct_ref (f (rw_clients w c)) = ct_ref (rw_clients w c)"
    and "port_of (f (rw_clients w c)) = port_of (rw_clients w c)"
    and "\<And>n. has_proxy n (f (rw_clients w c)) = has_proxy n (rw_clients w c)"
    and "ports_used (f (rw_clients w c)) = ports_used (rw_clients w c)"
    and "tab_ok sm maxp j (f (rw_clients w c))"
  shows "reg_okk sm cfg maxp c j (upd_client c f w)"
proof -
  have "claim_ok (upd_client c f w) p x = claim_ok w p x" for p x
    using assms(2,3) by (simp add: claim_ok_def)
  moreover have "visitor_ok (upd_client c f w) n e = visitor_ok w n e" for n e
    using assms(2-4) by (simp add: visitor_ok_def)
  moreover have "limits_ok cfg (f (rw_clients w c)) = limits_ok cfg (rw_clients w c)"
    using assms(3,5) by (simp add: limits_ok_def)
  ultimately show ?thesis using assms(2,6) reg_okkD [OF assms(1)] by (intro reg_okkI) auto
qed

lemma reg_okk_drop_slot:
  assumes "sem_ok sm" "reg_okk sm cfg maxp c 1 w" "slot_ok maxp slot"
  shows "reg_okk sm cfg maxp c 0 (drop_slot_of sm c slot w)"
  unfolding drop_slot_of_def
proof (rule reg_okk_client [OF assms(2)])
  show "tab_ok sm maxp 0 (rw_clients w c\<lparr>ct_limit := permit_drop sm slot (ct_limit (rw_clients w c))\<rparr>)"
    using tab_ok_drop [OF assms(1) _ assms(3), where k = 0] reg_okkD(1) [OF assms(2)] by simp
qed (simp_all add: port_of_def has_proxy_def ports_used_def fun_eq_iff)

lemma claim_absent:
  assumes "reg_okk sm cfg maxp c k w" "\<not> has_proxy n (rw_clients w c)" "x \<in> claimed (rw_ports w) p"
  shows "\<not> (cr_ptr (fst x) = c \<and> snd x = n)"
proof -
  have "claim_ok w p x" using reg_okkD(5) [OF assms(1)] assms(3) by blast
  then show ?thesis using assms(2) by (auto simp: claim_ok_def has_proxy_def port_of_def)
qed

section \<open>Closing\<close>

text \<open>Both ways of closing leave the same tables; only the gauge differs.\<close>

lemma close_same:
  "rw_clients (close_proxy sm rid c n w) = rw_clients (fst (close_proxy_by_name sm rid c n w))
   \<and> rw_ports (close_proxy sm rid c n w) = rw_ports (fst (close_proxy_by_name sm rid c n w))
   \<and> rw_visitors (close_proxy sm rid c n w) = rw_visitors (fst (close_proxy_by_name sm rid c n w))
   \<and> rw_vhosts (close_proxy sm rid c n w) = rw_vhosts (fst (close_proxy_by_name sm rid c n w))"
  by (auto simp: close_proxy_def close_proxy_by_name_def Let_def stop_proxy_def has_proxy_def fun_eq_iff
      split: option.splits prod.splits)

lemma close_facts:
  assumes "sem_ok sm" "inj rid" "reg_okk sm cfg maxp c k w" "w' = fst (close_proxy_by_name sm rid c n w)"
  shows "rw_clients w' = (rw_clients w)(c := fst (stop_proxy sm n (rw_clients w c)))"
    "claimed (rw_ports w') = (\<lambda>p. {x \<in> claimed (rw_ports w) p. \<not> (cr_ptr (fst x) = c \<and> snd x = n)})"
    "rw_visitors w' = fst (visitor_remove (ct_ref (rw_clients w c)) n (rw_visitors w))"
    "rw_vhosts w' = map_option (\<lambda>t. fst (vhost_remove_proxy (ct_ref (rw_clients w c)) n t)) (rw_vhosts w)"
proof -
  let ?ct = "rw_clients w c"
  note ptr = reg_okkD(3) [OF assms(3), of c]
  have claims: "claimed (rw_ports w) p = {x \<in> claimed (rw_ports w) p. \<not> (cr_ptr (fst x) = c \<and> snd x = n)}"
    if "port_of ?ct n \<noteq> Some p" for p
  proof -
    have "\<not> (cr_ptr (fst x) = c \<and> snd x = n)" if "x \<in> claimed (rw_ports w) p" for x
      using that \<open>port_of ?ct n \<noteq> Some p\<close> reg_okkD(5) [OF assms(3)] by (auto simp: claim_ok_def)
    then show ?thesis by blast
  qed
  show "rw_visitors w' = fst (visitor_remove (ct_ref ?ct) n (rw_visitors w))"
    "rw_vhosts w' = map_option (\<lambda>t. fst (vhost_remove_proxy (ct_ref ?ct) n t)) (rw_vhosts w)"
    unfolding assms(4) by (auto simp: close_proxy_by_name_def Let_def split: prod.splits option.splits)
  show "rw_clients w' = (rw_clients w)(c := fst (stop_proxy sm n ?ct))"
    unfolding assms(4)
    by (auto simp: close_proxy_by_name_def Let_def has_proxy_def stop_proxy_def fun_eq_iff split: prod.splits option.splits)
  show "claimed (rw_ports w') = (\<lambda>p. {x \<in> claimed (rw_ports w) p. \<not> (cr_ptr (fst x) = c \<and> snd x = n)})"
  proof (cases "port_of ?ct n")
    case None
    then have "rw_ports w' = rw_ports w"
      unfolding assms(4)
      by (auto simp: close_proxy_by_name_def Let_def has_proxy_def stop_proxy_def port_of_def split: prod.splits option.splits)
    then show ?thesis using claims None by (simp add: fun_eq_iff)
  next
    case (Some q)
    then have "rw_ports w' = fst (release_port rid (rw_ports w) q (ct_ref ?ct) n)"
      unfolding assms(4)
      by (auto simp: close_proxy_by_name_def Let_def has_proxy_def stop_proxy_def port_of_def split: prod.splits option.splits)
    then show ?thesis using claims Some claimed_release [OF assms(2)] ptr by (auto simp: fun_eq_iff)
  qed
qed

lemma close_ok:
  assumes "sem_ok sm" "inj rid" "reg_okk sm cfg maxp c k w"
  shows "reg_okk sm cfg maxp c k (fst (close_proxy_by_name sm rid c n w))"
    "\<not> has_proxy n (rw_clients (fst (close_proxy_by_name sm rid c n w)) c)"
proof -
  let ?ct = "rw_clients w c" and ?w' = "fst (close_proxy_by_name sm rid c n w)"
  let ?ct' = "fst (stop_proxy sm n ?ct)"
  note f = close_facts [OF assms refl, of n]
  note R = reg_okkD [OF assms(3)]
  note st = stop_proxy_facts [OF assms(1) R(1), where n = n] and ptr = R(3) [of c] and lim = R(4) [of c]
  show "\<not> has_proxy n (rw_clients ?w' c)" by (simp add: f(1) st(2))
  have vis: "visitor_ok ?w' j e" if "fmlookup (rw_visitors ?w') j = Some e" for j e
  proof -
    have e: "fmlookup (rw_visitors w) j = Some e" "\<not> (cr_ptr (ve_client e) = c \<and> j = n)"
      using that ptr unfolding f(3) by (auto simp: visitor_remove_def split: option.splits if_splits)
    then show ?thesis using R(6) [OF e(1)] by (auto simp: visitor_ok_def f(1) st(1-3))
  qed
  show "reg_okk sm cfg maxp c k ?w'"
  proof (rule reg_okkI)
    fix d x p
    show "cr_ptr (ct_ref (rw_clients ?w' d)) = d" using R(3) by (simp add: f(1) st(1))
    have "int (ports_used (fst (stop_proxy sm n ?ct))) \<le> int (ports_used ?ct)" using st(5) by simp
    then have "limits_ok cfg (fst (stop_proxy sm n ?ct))"
      using lim st(3) unfolding limits_ok_def by (auto split: if_splits)
    then show "limits_ok cfg (rw_clients ?w' d)" using R(4) by (simp add: f(1))
    show "x \<in> claimed (rw_ports ?w') p \<longleftrightarrow> claim_ok ?w' p x"
      using R(5) [of x p] ptr by (auto simp: f(1,2) claim_ok_def st(1,3))
  qed (use R(2) st(4) vis in \<open>auto simp: f(1)\<close>)
qed

section \<open>Registering\<close>

lemma record_proxy_client:
  "rw_clients (record_proxy sm c m port slot w) = (rw_clients w)(c := set_proxy_type (np_name m) (np_type m)
     (set_proxy_flags (np_name m) (np_enc m) (np_comp m) (add_proxy sm (np_name m) port slot (rw_clients w c))))"
  "rw_ports (record_proxy sm c m port slot w) = rw_ports w"
  "rw_visitors (record_proxy sm c m port slot w) = rw_visitors w"
  "rw_vhosts (record_proxy sm c m port slot w) = rw_vhosts w"
  by (simp_all add: record_proxy_def)

text \<open>A proxy is recorded once its resources are there: the claim on its port, or its private name.\<close>

lemma reg_okk_record:
  assumes sem: "sem_ok sm" and ok: "reg_okk sm cfg maxp c 1 w0" and new: "\<not> has_proxy (np_name m) (rw_clients w0 c)"
    and slot: "slot_ok maxp slot"
    and w: "rw_clients w = rw_clients w0"
      "\<And>p. claimed (rw_ports w) p = claimed (rw_ports w0) p
         \<union> (if port = Some p then {(ct_ref (rw_clients w0 c), np_name m)} else {})"
      "\<And>n e. fmlookup (rw_visitors w) n = Some e \<Longrightarrow>
         fmlookup (rw_visitors w0) n = Some e
         \<or> port = None \<and> n = np_name m \<and> ve_proxy e = n \<and> ve_client e = ct_ref (rw_clients w0 c)"
    and port: "\<And>p. port = Some p \<Longrightarrow> p \<noteq> 0 \<and> port_allowed (rc_allow cfg) p
         \<and> (rc_max_ports cfg > 0 \<longrightarrow> int (ports_used (rw_clients w0 c)) + 1 \<le> rc_max_ports cfg)"
  shows "reg_okk sm cfg maxp c 0 (record_proxy sm c m port slot w)"
proof -
  let ?n = "np_name m" and ?ct = "rw_clients w0 c"
  note R = reg_okkD [OF ok] and A = add_proxy_facts [OF new, where sm = sm and port = port and slot = slot]
  show ?thesis
  proof (rule reg_okkI)
    show "tab_ok sm maxp 0 (rw_clients (record_proxy sm c m port slot w) c)"
      using A(4) [where maxp = maxp and j = 0] R(1) slot by (simp add: record_proxy_client w(1))
    show "tab_ok sm maxp 0 (rw_clients (record_proxy sm c m port slot w) d)" if "d \<noteq> c" for d
      using R(2) [OF that] that by (simp add: record_proxy_client w(1))
    show "cr_ptr (ct_ref (rw_clients (record_proxy sm c m port slot w) d)) = d" for d
      using R(3) by (simp add: record_proxy_client w(1) add_proxy_facts(1) [OF new])
    have "limits_ok cfg (add_proxy sm ?n port slot ?ct)"
      using R(4) [of c] port unfolding limits_ok_def add_proxy_facts(3,5) [OF new] by (auto split: if_splits)
    then show "limits_ok cfg (rw_clients (record_proxy sm c m port slot w) d)" for d
      using R(4) by (simp add: record_proxy_client w(1)) (simp add: limits_ok_def)
    show "x \<in> claimed (rw_ports (record_proxy sm c m port slot w)) p
        \<longleftrightarrow> claim_ok (record_proxy sm c m port slot w) p x" for x p
    proof -
      have "\<not> (cr_ptr (fst x) = c \<and> snd x = ?n)" if "x \<in> claimed (rw_ports w0) p"
        using claim_absent [OF ok new that] .
      then show ?thesis
        using R(5) [of x p] R(3) [of c]
        by (cases x) (auto simp: record_proxy_client w(1,2) claim_ok_def add_proxy_facts(1,3) [OF new] split: if_splits)
    qed
    show "visitor_ok (record_proxy sm c m port slot w) n e"
      if "fmlookup (rw_visitors (record_proxy sm c m port slot w)) n = Some e" for n e
    proof -
      have "fmlookup (rw_visitors w) n = Some e" using that by (simp add: record_proxy_client)
      then consider "fmlookup (rw_visitors w0) n = Some e"
        | "port = None" "n = ?n" "ve_proxy e = n" "ve_client e = ct_ref ?ct" using w(3) by blast
      then show ?thesis
      proof cases
        case 1
        from R(6) [OF 1] have v: "visitor_ok w0 n e" .
        then have "\<not> (cr_ptr (ve_client e) = c \<and> n = ?n)" using new by (auto simp: visitor_ok_def)
        with v show ?thesis
          by (auto simp: visitor_ok_def record_proxy_client w(1) add_proxy_facts(1-3) [OF new])
      next
        case 2
        then show ?thesis using R(3) [of c]
          by (auto simp: visitor_ok_def record_proxy_client w(1) add_proxy_facts(1-3) [OF new])
      qed
    qed
  qed
qed

lemma reg_okk_ports:
  assumes "reg_okk sm cfg maxp c k w" "claimed st = claimed (rw_ports w)"
  shows "reg_okk sm cfg maxp c k (w\<lparr>rw_ports := st\<rparr>)"
  using assms by (intro reg_okk_cong [OF _ _ _ assms(1)]) auto

lemma reg_okk_vhosts [simp]: "reg_okk sm cfg maxp c k (w\<lparr>rw_vhosts := v\<rparr>) = reg_okk sm cfg maxp c k w"
  by (simp add: reg_okk_def claim_ok_def visitor_ok_def)

lemma reg_okk_active [simp]: "reg_okk sm cfg maxp c k (w\<lparr>rw_active := v\<rparr>) = reg_okk sm cfg maxp c k w"
  by (simp add: reg_okk_def claim_ok_def visitor_ok_def)

text \<open>What a port type does with the claim on its port.\<close>

lemma claim_and_release:
  assumes "inj rid" "reg_okk sm cfg maxp c k w" "\<not> has_proxy n (rw_clients w c)"
    and "reserve_port rid (rw_ports w) p g key n (ct_ref (rw_clients w c)) = (st, Inr cl)"
  shows "\<And>q. claimed st q = claimed (rw_ports w) q \<union> (if p = q then {(ct_ref (rw_clients w c), n)} else {})"
    "claimed (fst (release_port rid st p (ct_ref (rw_clients w c)) n)) = claimed (rw_ports w)"
proof -
  let ?r = "ct_ref (rw_clients w c)"
  note ptr = reg_okkD(3) [OF assms(2), of c]
  have none: "\<not> (cr_ptr (fst x) = cr_ptr ?r \<and> snd x = n)" if "x \<in> claimed (rw_ports w) p" for x
    using claim_absent [OF assms(2,3) that] unfolding ptr .
  then have absent: "{x \<in> claimed (rw_ports w) p. \<not> (cr_ptr (fst x) = cr_ptr ?r \<and> snd x = n)} = claimed (rw_ports w) p"
    by blast
  show c: "claimed st q = claimed (rw_ports w) q \<union> (if p = q then {(?r, n)} else {})" for q
  proof (cases cl)
    case Fresh
    then show ?thesis using claimed_fresh [of rid "rw_ports w" p g key n ?r st] assms(4) by simp
  next
    case Joined
    from claimed_joined [OF assms(4) [unfolded Joined] assms(1)] show ?thesis unfolding absent by simp
  qed
  have "{x \<in> claimed st p. \<not> (cr_ptr (fst x) = cr_ptr ?r \<and> snd x = n)} = claimed (rw_ports w) p"
  proof -
    have "claimed st p = insert (?r, n) (claimed (rw_ports w) p)" using c [of p] by simp
    moreover have "{x \<in> insert (?r, n) A. \<not> (cr_ptr (fst x) = cr_ptr ?r \<and> snd x = n)}
        = {x \<in> A. \<not> (cr_ptr (fst x) = cr_ptr ?r \<and> snd x = n)}" for A
      by auto
    ultimately show ?thesis using absent by simp
  qed
  then show "claimed (fst (release_port rid st p ?r n)) = claimed (rw_ports w)"
    unfolding claimed_release [OF assms(1)] using c by (intro ext) simp
qed

lemma register_tcp_ok:
  assumes "sem_ok sm" "inj rid" "\<And>k p. bind k p \<noteq> ResolveFailed" "reg_okk sm cfg maxp c 1 w"
    and "\<not> has_proxy (np_name m) (rw_clients w c)" "slot_ok maxp slot"
    and port: "np_port m \<noteq> 0 \<Longrightarrow> port_allowed (rc_allow cfg) (np_port m)
         \<and> (rc_max_ports cfg > 0 \<longrightarrow> int (ports_used (rw_clients w c)) + 1 \<le> rc_max_ports cfg)"
    and "register_tcp sm rid bind cfg c m slot w = (w', r)"
  shows "reg_okk sm cfg maxp c (case r of Inl _ \<Rightarrow> 1 | Inr _ \<Rightarrow> 0) w'"
proof (cases "np_port m = 0")
  case True
  then show ?thesis using assms(4,8) by (auto simp: register_tcp_def)
next
  case False
  let ?ref = "ct_ref (rw_clients w c)"
  obtain st q where q: "reserve_port rid (rw_ports w) (np_port m) (np_group m) (np_group_key m) (np_name m) ?ref = (st, q)"
    by fastforce
  show ?thesis
  proof (cases q)
    case (Inl e)
    then have "st = rw_ports w" using reserve_port_refused q by blast
    then show ?thesis using assms(4,8) q Inl False by (auto simp: register_tcp_def Let_def)
  next
    case (Inr cl)
    note C = claim_and_release [OF assms(2,4,5) q [unfolded Inr]]
    have rec: "reg_okk sm cfg maxp c 0 (record_proxy sm c m (Some (np_port m)) slot (w\<lparr>rw_ports := st'\<rparr>))"
      if "claimed st' = claimed st" for st'
      by (rule reg_okk_record [OF assms(1,4,5,6)]) (use C(1) that False port in \<open>auto split: if_splits\<close>)
    show ?thesis
    proof (cases cl)
      case Joined
      then show ?thesis using assms(8) q Inr False rec [of st] by (auto simp: register_tcp_def Let_def)
    next
      case Fresh
      show ?thesis
      proof (cases "bind ''tcp'' (np_port m)")
        case BindRefused
        then show ?thesis using assms(8) q Inr False Fresh reg_okk_ports [OF assms(4) C(2)]
          by (auto simp: register_tcp_def Let_def)
      next
        case (Bound h)
        then show ?thesis using assms(8) q Inr False Fresh rec [of "attach_listener st (np_port m) h"]
          by (auto simp: register_tcp_def Let_def)
      qed (use assms(3) in blast)
    qed
  qed
qed

lemma register_udp_ok:
  assumes "sem_ok sm" "inj rid" "reg_okk sm cfg maxp c 1 w"
    and "\<not> has_proxy (np_name m) (rw_clients w c)" "slot_ok maxp slot"
    and port: "np_port m \<noteq> 0 \<Longrightarrow> port_allowed (rc_allow cfg) (np_port m)
         \<and> (rc_max_ports cfg > 0 \<longrightarrow> int (ports_used (rw_clients w c)) + 1 \<le> rc_max_ports cfg)"
    and "register_udp sm rid bind cfg c m slot w = (w', r)"
  shows "reg_okk sm cfg maxp c (case r of Inl _ \<Rightarrow> 1 | Inr _ \<Rightarrow> 0) w'"
proof (cases "np_port m = 0")
  case True
  then show ?thesis using assms(3,7) by (auto simp: register_udp_def)
next
  case False
  let ?ref = "ct_ref (rw_clients w c)"
  obtain st q where q: "reserve_port rid (rw_ports w) (np_port m) (np_group m) (np_group_key m) (np_name m) ?ref = (st, q)"
    by fastforce
  show ?thesis
  proof (cases q)
    case (Inl e)
    then have "st = rw_ports w" using reserve_port_refused q by blast
    then show ?thesis using assms(3,7) q Inl False by (auto simp: register_udp_def Let_def)
  next
    case (Inr cl)
    note C = claim_and_release [OF assms(2,3,4) q [unfolded Inr]]
    have rec: "reg_okk sm cfg maxp c 0 (record_proxy sm c m (Some (np_port m)) slot (w\<lparr>rw_ports := st'\<rparr>))"
      if "claimed st' = claimed st" for st'
      by (rule reg_okk_record [OF assms(1,3,4,5)]) (use C(1) that False port in \<open>auto split: if_splits\<close>)
    have rel: "reg_okk sm cfg maxp c 1 (w\<lparr>rw_ports := fst (release_port rid st (np_port m) ?ref (np_name m))\<rparr>)"
      using reg_okk_ports [OF assms(3) C(2)] .
    show ?thesis
    proof (cases cl)
      case Joined
      then show ?thesis using assms(7) q Inr False rel by (auto simp: register_udp_def Let_def)
    next
      case Fresh
      then show ?thesis using assms(7) q Inr False rec [of "attach_listener st (np_port m) h" for h] rel
        by (cases "bind ''udp'' (np_port m)") (auto simp: register_udp_def Let_def)
    qed
  qed
qed

lemma register_vhost_ok:
  assumes "sem_ok sm" "reg_okk sm cfg maxp c 1 w" "\<not> has_proxy (np_name m) (rw_clients w c)" "slot_ok maxp slot"
    and "register_vhost sm cfg c m kind slot w = (w', r)"
  shows "reg_okk sm cfg maxp c (case r of Inl _ \<Rightarrow> 1 | Inr _ \<Rightarrow> 0) w'"
proof -
  have rec: "reg_okk sm cfg maxp c 0 (record_proxy sm c m None slot (w\<lparr>rw_vhosts := v\<rparr>))" for v
    by (rule reg_okk_record [OF assms(1-4)]) auto
  show ?thesis using assms(5,2) rec
    by (auto simp: register_vhost_def split: option.splits if_splits sum.splits prod.splits)
qed

lemma register_visitor_ok:
  assumes "sem_ok sm" "reg_okk sm cfg maxp c 1 w" "\<not> has_proxy (np_name m) (rw_clients w c)" "slot_ok maxp slot"
    and "register_visitor_proxy sm c m kind slot w = (w', r)"
  shows "reg_okk sm cfg maxp c (case r of Inl _ \<Rightarrow> 1 | Inr _ \<Rightarrow> 0) w'"
proof -
  let ?e = "\<lparr>ve_proxy = np_name m, ve_secret = np_sk m, ve_allow_users = np_allow_users m,
                ve_provider_user = cr_user (ct_ref (rw_clients w c)), ve_client = ct_ref (rw_clients w c), ve_type = kind\<rparr>"
  have rec: "reg_okk sm cfg maxp c 0 (record_proxy sm c m None slot (w\<lparr>rw_visitors := fmupd (np_name m) ?e (rw_visitors w)\<rparr>))"
    by (rule reg_okk_record [OF assms(1-4)]) (auto split: if_splits)
  show ?thesis using assms(5,2) rec
    by (auto simp: register_visitor_proxy_def visitor_register_def Let_def split: if_splits)
qed

lemma ports_error_None:
  assumes "ports_error_of cfg m ct = None" "np_type m = ''tcp'' \<or> np_type m = ''udp''" "np_port m \<noteq> 0"
  shows "port_allowed (rc_allow cfg) (np_port m)
      \<and> (rc_max_ports cfg > 0 \<longrightarrow> int (ports_used ct) + 1 \<le> rc_max_ports cfg)"
proof -
  have "(np_type m = ''tcp'' \<or> np_type m = ''udp'') \<and> np_port m \<noteq> 0" using assms(2,3) by blast
  note e = assms(1) [unfolded ports_error_of_def if_P [OF this]]
  show ?thesis using e by (simp only: not_less split: if_split_asm) auto
qed

lemma register_by_type_cases:
  assumes "register_by_type sm rid bind cfg c m slot w = (w', r)"
  obtains "np_type m = ''tcp''" "register_tcp sm rid bind cfg c m slot w = (w', r)"
    | "np_type m = ''udp''" "register_udp sm rid bind cfg c m slot w = (w', r)"
    | kind where "register_vhost sm cfg c m kind slot w = (w', r)"
    | "register_visitor_proxy sm c m (np_type m) slot w = (w', r)"
    | "w' = w" "r = Inl (UnknownType (np_type m))"
  using assms unfolding register_by_type_def Let_def
  by (metis (no_types) prod.inject)

lemma register_by_type_ok:
  assumes "sem_ok sm" "inj rid" "\<And>k p. bind k p \<noteq> ResolveFailed" "reg_okk sm cfg maxp c 1 w"
    and "\<not> has_proxy (np_name m) (rw_clients w c)" "slot_ok maxp slot"
    and "ports_error_of cfg m (rw_clients w c) = None"
    and r: "register_by_type sm rid bind cfg c m slot w = (w', r)"
  shows "reg_okk sm cfg maxp c (case r of Inl _ \<Rightarrow> 1 | Inr _ \<Rightarrow> 0) w'"
proof -
  from r show ?thesis
  proof (cases rule: register_by_type_cases)
    case 1
    then show ?thesis using register_tcp_ok [OF assms(1-6) _ 1(2)] ports_error_None [OF assms(7)] by blast
  next
    case 2
    then show ?thesis using register_udp_ok [OF assms(1,2,4,5,6) _ 2(2)] ports_error_None [OF assms(7)] by blast
  next
    case (3 kind)
    show ?thesis by (rule register_vhost_ok [OF assms(1,4,5,6) 3])
  next
    case 4
    show ?thesis by (rule register_visitor_ok [OF assms(1,4,5,6) 4])
  qed (use assms(4) in simp)
qed

lemma register_new_ok:
  assumes "sem_ok sm" "inj rid" "\<And>k p. bind k p \<noteq> ResolveFailed" "reg_okk sm cfg maxp c 0 w"
    and new: "\<not> has_proxy (np_name m) (rw_clients w c)"
    and r: "register_new sm rid bind cfg c m w = (w', r)"
  shows "reg_okk sm cfg maxp c 0 w'"
proof -
  obtain ct q where q: "reserve_proxy sm (rw_clients w c) = (ct, q)" by fastforce
  note T = tab_ok_reserve [OF assms(1) reg_okkD(1) [OF assms(4)] q]
  show ?thesis
  proof (cases q)
    case None
    have "upd_client c (\<lambda>_. ct) w = w" using T(6) [OF None] by (simp add: upd_client_def)
    then show ?thesis using r q None assms(4) by (simp add: register_new_def)
  next
    case (Some slot)
    let ?w1 = "upd_client c (\<lambda>_. ct) w"
    have t: "tab_ok sm maxp 1 ct" and slot: "slot_ok maxp slot" using T(5) [OF Some] by auto
    have w1: "reg_okk sm cfg maxp c 1 ?w1"
      by (rule reg_okk_client [OF assms(4)])
        (use t T(1,2) in \<open>auto simp: port_of_def has_proxy_def ports_used_def fun_eq_iff\<close>)
    have new1: "\<not> has_proxy (np_name m) (rw_clients ?w1 c)" using new T(2) by (simp add: has_proxy_def)
    show ?thesis
    proof (cases "ports_error_of cfg m ct")
      case (Some e)
      then show ?thesis using r q \<open>q = Some slot\<close> reg_okk_drop_slot [OF assms(1) w1 slot]
        by (simp add: register_new_def Let_def)
    next
      case None
      obtain w2 s where s: "register_by_type sm rid bind cfg c m slot ?w1 = (w2, s)" by fastforce
      have "ports_error_of cfg m (rw_clients ?w1 c) = None" using None by simp
      note B = register_by_type_ok [OF assms(1-3) w1 new1 slot this s]
      show ?thesis
      proof (cases s)
        case (Inl e)
        then have b: "reg_okk sm cfg maxp c 1 w2" using B by simp
        show ?thesis using r q \<open>q = Some slot\<close> None s Inl reg_okk_drop_slot [OF assms(1) b slot]
          by (auto simp: register_new_def Let_def)
      next
        case (Inr addr)
        then have b: "reg_okk sm cfg maxp c 0 w2" using B by simp
        have "reg_okk sm cfg maxp c 0 (upd_client c (set_proxy_registration (np_name m) addr (proxy_signature m)) w2)"
          by (rule reg_okk_client [OF b]) (use reg_okkD(1) [OF b] in simp_all)
        then show ?thesis using r q \<open>q = Some slot\<close> None s Inr by (simp add: register_new_def Let_def)
      qed
    qed
  qed
qed

lemma register_proxy_ok:
  assumes "sem_ok sm" "inj rid" "\<And>k p. bind k p \<noteq> ResolveFailed" "reg_okk sm cfg maxp c 0 w"
    and r: "register_proxy sm rid bind cfg c m w = (w', r)"
  shows "reg_okk sm cfg maxp c 0 w'"
proof -
  let ?n = "np_name m" and ?ct = "rw_clients w c" and ?sg = "proxy_signature m"
  let ?reuse = "if ct_resumed ?ct then reusable_proxy ?n ?sg ?ct else None"
  let ?w1 = "if has_proxy ?n ?ct then fst (close_proxy_by_name sm rid c ?n w) else w"
  consider "?n = []" | addr where "?n \<noteq> []" "?reuse = Some addr" | "?n \<noteq> []" "?reuse = None" by fastforce
  then show ?thesis
  proof cases
    case 1
    then show ?thesis using r assms(4) by (simp add: register_proxy_def)
  next
    case (2 addr)
    then have "w' = upd_client c (set_proxy_registration ?n addr ?sg) w"
      using r by (simp add: register_proxy_def Let_def)
    moreover have "reg_okk sm cfg maxp c 0 (upd_client c (set_proxy_registration ?n addr ?sg) w)"
      by (rule reg_okk_client [OF assms(4)]) (use reg_okkD(1) [OF assms(4)] in simp_all)
    ultimately show ?thesis by simp
  next
    case 3
    obtain w2 s where s: "register_new sm rid bind cfg c m ?w1 = (w2, s)" by fastforce
    then have w': "w' = w2" using r 3 by (auto simp: register_proxy_def Let_def split: sum.splits)
    have "reg_okk sm cfg maxp c 0 ?w1" "\<not> has_proxy ?n (rw_clients ?w1 c)"
      using close_ok [OF assms(1,2,4), of ?n] assms(4) by auto
    from register_new_ok [OF assms(1-3) this s] show ?thesis by (simp add: w')
  qed
qed

lemma handle_new_proxy_ok:
  assumes "sem_ok sm" "inj rid" "\<And>k p. bind k p \<noteq> ResolveFailed" "reg_okk sm cfg maxp c 0 w"
  shows "reg_okk sm cfg maxp c 0 (fst (handle_new_proxy sm rid bind cfg rl c m w))"
proof -
  let ?m = "m\<lparr>np_name := canonical_wire_name (cr_user (ct_ref (rw_clients w c))) (np_name m)\<rparr>"
  obtain w1 s where s: "register_proxy sm rid bind cfg c ?m w = (w1, s)" by fastforce
  show ?thesis using register_proxy_ok [OF assms s] s assms(4)
    by (auto simp: handle_new_proxy_def Let_def split: sum.splits)
qed

section \<open>The end of a client, and resumes\<close>

lemma fold_drop_entry:
  assumes "sem_ok sm" "\<forall>n\<in>set ns. \<exists>e. fmlookup m n = Some e \<and> slot_ok maxp (pe_slot e)"
    and "limit_held sm (ct_limit ct) maxp (length ns + j)"
  shows "limit_held sm (ct_limit (fold (\<lambda>n. drop_entry sm (fmlookup m n)) ns ct)) maxp j
    \<and> ct_ref (fold (\<lambda>n. drop_entry sm (fmlookup m n)) ns ct) = ct_ref ct
    \<and> ct_proxies (fold (\<lambda>n. drop_entry sm (fmlookup m n)) ns ct) = ct_proxies ct"
  using assms(2,3)
proof (induction ns arbitrary: ct)
  case (Cons n ns)
  obtain e where e: "fmlookup m n = Some e" "slot_ok maxp (pe_slot e)" using Cons.prems(1) by auto
  have "limit_held sm (permit_drop sm (pe_slot e) (ct_limit ct)) maxp (length ns + j)"
    using limit_held_drop [OF assms(1), of "ct_limit ct" maxp "length ns + j" "pe_slot e"] Cons.prems(2) e(2)
    by (simp add: slot_ok_def)
  then show ?case using Cons.IH [of "drop_entry sm (fmlookup m n) ct"] Cons.prems(1) e(1) by (simp add: drop_entry_def)
qed simp

lemma length_proxy_names: "length (proxy_names ct) = fm_len (ct_proxies ct)"
  unfolding proxy_names_def fm_len_def sorted_list_of_fset.rep_eq fcard.rep_eq by simp

lemma set_proxy_names: "n \<in> set (proxy_names ct) \<longleftrightarrow> has_proxy n ct"
  unfolding proxy_names_def sorted_list_of_fset_simps(1) has_proxy_def by (simp add: fmlookup_dom_iff)

lemma clean_client_ok:
  assumes "sem_ok sm" "inj rid" "reg_okk sm cfg maxp c 0 w"
  shows "reg_okk sm cfg maxp c 0 (clean_client sm rid c w)"
proof -
  let ?ct = "rw_clients w c" and ?w' = "clean_client sm rid c w"
  let ?ct' = "fold (\<lambda>n. drop_entry sm (fmlookup (ct_proxies ?ct) n)) (proxy_names ?ct) (?ct\<lparr>ct_proxies := fmempty\<rparr>)"
  note R = reg_okkD [OF assms(3)]
  have cl: "rw_clients ?w' = (rw_clients w)(c := ?ct')"
    by (simp add: clean_client_def Let_def)
  have f: "limit_held sm (ct_limit ?ct') maxp 0 \<and> ct_ref ?ct' = ct_ref ?ct \<and> ct_proxies ?ct' = fmempty"
  proof -
    have "\<forall>n\<in>set (proxy_names ?ct). \<exists>e. fmlookup (ct_proxies ?ct) n = Some e \<and> slot_ok maxp (pe_slot e)"
      using R(1) by (auto simp: set_proxy_names has_proxy_def tab_ok_def slot_ok_def)
    from fold_drop_entry [OF assms(1) this, of "?ct\<lparr>ct_proxies := fmempty\<rparr>" 0] show ?thesis
      using R(1) by (simp add: length_proxy_names tab_ok_def)
  qed
  then have p: "port_of ?ct' = (\<lambda>_. None)" "ports_used ?ct' = 0" by (auto simp: port_of_def ports_used_def)
  show ?thesis
  proof (rule reg_okkI)
    show "tab_ok sm maxp 0 (rw_clients ?w' c)" using f by (simp add: cl tab_ok_def)
    show "limits_ok cfg (rw_clients ?w' d)" for d using R(4) p by (auto simp: cl limits_ok_def)
    show "x \<in> claimed (rw_ports ?w') q \<longleftrightarrow> claim_ok ?w' q x" for x q
    proof -
      have "claimed (rw_ports ?w') q = {x \<in> claimed (rw_ports w) q. cr_ptr (fst x) \<noteq> c}"
        using claimed_release_all [OF assms(2)] R(3) by (simp add: clean_client_def Let_def)
      then show ?thesis using R(5) [of x q] p(1) by (auto simp: claim_ok_def cl)
    qed
    show "visitor_ok ?w' n e" if "fmlookup (rw_visitors ?w') n = Some e" for n e
    proof -
      have e: "fmlookup (rw_visitors w) n = Some e" "cr_ptr (ve_client e) \<noteq> c"
        using that R(3) by (auto simp: clean_client_def Let_def visitor_unregister_client_def split: option.splits if_splits)
      from R(6) [OF e(1)] e(2) show ?thesis by (simp add: visitor_ok_def cl)
    qed
  qed (use R f in \<open>auto simp: cl\<close>)
qed

lemma close_all_ok:
  assumes "sem_ok sm" "inj rid" "reg_okk sm cfg maxp c 0 w"
  shows "reg_okk sm cfg maxp c 0 (close_all sm rid c names w)"
  using assms(3) by (induction names arbitrary: w) (auto simp: close_all_def intro: close_ok(1) [OF assms(1,2)])

lemma finish_ok:
  assumes "reg_okk sm cfg maxp c 0 w"
  shows "reg_okk sm cfg maxp c 0 (upd_client c finish_resume w)"
  by (rule reg_okk_client [OF assms])
    (use reg_okkD(1) [OF assms] in \<open>auto simp: finish_resume_def port_of_def has_proxy_def ports_used_def tab_ok_def fun_eq_iff\<close>)

lemma resume_ok:
  assumes "reg_okk sm cfg maxp c 0 w"
  shows "reg_okk sm cfg maxp c 0 (resume_client c w)"
  unfolding resume_client_def
  by (rule reg_okk_client [OF assms])
    (use reg_okkD(1) [OF assms] in \<open>auto simp: port_of_def has_proxy_def ports_used_def tab_ok_def fun_eq_iff\<close>)

definition env_ok :: "reg_env \<Rightarrow> bool" where
  "env_ok en \<longleftrightarrow> inj (en_rid en) \<and> (\<forall>k p. en_bind en k p \<noteq> ResolveFailed)"

lemma reg_step_ok:
  assumes "sem_ok sm" "env_ok (fst op)" "reg_okk sm cfg maxp d 0 w"
  shows "reg_okk sm cfg maxp d 0 (reg_step sm cfg w op)"
proof -
  obtain en o1 where op: "op = (en, o1)" by (cases op)
  have inj: "inj (en_rid en)" and bind: "\<And>k p. en_bind en k p \<noteq> ResolveFailed"
    using assms(2) by (auto simp: op env_ok_def)
  have z: "reg_okk sm cfg maxp c 0 w" for c using assms(3) reg_okk_zero by blast
  have "reg_okk sm cfg maxp c 0 (close_proxy sm (en_rid en) c n w)" for c n
    using close_ok(1) [OF assms(1) inj z, of c n] close_same [of sm "en_rid en" c n w]
    by (intro reg_okk_cong [of "close_proxy sm (en_rid en) c n w" "fst (close_proxy_by_name sm (en_rid en) c n w)"]) auto
  then show ?thesis unfolding op
    by (cases o1)
      (auto simp: commit_resume_def grace_expired_def
        intro: handle_new_proxy_ok [OF assms(1) inj bind z, THEN reg_okk_zero [THEN iffD1]]
          clean_client_ok [OF assms(1) inj z, THEN reg_okk_zero [THEN iffD1]]
          resume_ok [OF z, THEN reg_okk_zero [THEN iffD1]] assms(3)
          finish_ok [OF close_all_ok [OF assms(1) inj z], THEN reg_okk_zero [THEN iffD1]]
          reg_okk_zero [THEN iffD1])
qed

lemma reg_start_ok:
  assumes "sem_ok sm"
  shows "reg_okk sm cfg maxp d 0 (reg_start sm maxp vhosts users)"
  using limit_held_new [OF assms, of maxp]
  by (intro reg_okkI)
    (auto simp: reg_start_def tab_ok_def limits_ok_def port_of_def ports_used_def claimed_def view_def ports_empty_def
      claim_ok_def split: option.splits)

lemma reg_run_ok:
  assumes "sem_ok sm" "\<forall>op\<in>set ops. env_ok (fst op)"
  shows "reg_okk sm cfg maxp d 0 (reg_run sm cfg (reg_start sm maxp vhosts users) ops)"
proof -
  have "reg_okk sm cfg maxp d 0 (foldl (reg_step sm cfg) w ops)" if "reg_okk sm cfg maxp d 0 w" for w
    using that assms(2) by (induction ops arbitrary: w) (auto intro: reg_step_ok [OF assms(1)])
  then show ?thesis using reg_start_ok [OF assms(1)] by (simp add: reg_run_def)
qed

section \<open>Lemmas: refusals\<close>

definition same_tables :: "'s reg_world \<Rightarrow> 's reg_world \<Rightarrow> bool" where
  "same_tables w w' \<longleftrightarrow>
     claimed (rw_ports w') = claimed (rw_ports w) \<and> rw_visitors w' = rw_visitors w \<and> rw_vhosts w' = rw_vhosts w
     \<and> (\<forall>d. ct_proxies (rw_clients w' d) = ct_proxies (rw_clients w d))"

lemma same_tables_simps [simp]:
  "same_tables w w"
  "same_tables w (w'\<lparr>rw_active := x\<rparr>) = same_tables w w'"
  "same_tables w (drop_slot_of sm c slot w') = same_tables w w'"
  by (auto simp: same_tables_def drop_slot_of_def)

lemma same_tables_ports: "claimed st = claimed (rw_ports w) \<Longrightarrow> same_tables w (w\<lparr>rw_ports := st\<rparr>)"
  by (simp add: same_tables_def)

lemma tcp_refused:
  assumes "inj rid" "\<And>k p. bind k p \<noteq> ResolveFailed" "reg_okk sm cfg maxp c k w"
    and "\<not> has_proxy (np_name m) (rw_clients w c)"
    and "register_tcp sm rid bind cfg c m slot w = (w', Inl e)"
  shows "same_tables w w'"
proof -
  obtain st q where q: "reserve_port rid (rw_ports w) (np_port m) (np_group m) (np_group_key m) (np_name m)
      (ct_ref (rw_clients w c)) = (st, q)" by fastforce
  show ?thesis
  proof (cases q)
    case (Inl e')
    then have "st = rw_ports w" using reserve_port_refused q by blast
    then show ?thesis using assms(5) q Inl by (auto simp: register_tcp_def Let_def split: if_splits)
  next
    case (Inr cl)
    note C = claim_and_release [OF assms(1,3,4) q [unfolded Inr]]
    show ?thesis using assms(5) q Inr C(2) assms(2) [of "''tcp''" "np_port m"]
      by (auto simp: register_tcp_def Let_def split: if_splits port_claim.splits bind_result.splits
          intro: same_tables_ports)
  qed
qed

lemma udp_refused:
  assumes "inj rid" "reg_okk sm cfg maxp c k w" "\<not> has_proxy (np_name m) (rw_clients w c)"
    and "register_udp sm rid bind cfg c m slot w = (w', Inl e)"
  shows "same_tables w w'"
proof -
  obtain st q where q: "reserve_port rid (rw_ports w) (np_port m) (np_group m) (np_group_key m) (np_name m)
      (ct_ref (rw_clients w c)) = (st, q)" by fastforce
  show ?thesis
  proof (cases q)
    case (Inl e')
    then have "st = rw_ports w" using reserve_port_refused q by blast
    then show ?thesis using assms(4) q Inl by (auto simp: register_udp_def Let_def split: if_splits)
  next
    case (Inr cl)
    note C = claim_and_release [OF assms(1-3) q [unfolded Inr]]
    show ?thesis using assms(4) q Inr C(2)
      by (auto simp: register_udp_def Let_def split: if_splits port_claim.splits bind_result.splits
          intro: same_tables_ports)
  qed
qed

lemma register_by_type_plain:
  assumes "register_by_type sm rid bind cfg c m slot w = (w', r)"
    and "np_type m \<noteq> ''http''" "np_type m \<noteq> ''https''" "np_type m \<noteq> ''tcpmux''"
  obtains "register_tcp sm rid bind cfg c m slot w = (w', r)"
    | "register_udp sm rid bind cfg c m slot w = (w', r)"
    | "register_visitor_proxy sm c m (np_type m) slot w = (w', r)"
    | "w' = w" "r = Inl (UnknownType (np_type m))"
  using assms unfolding register_by_type_def Let_def by (metis (no_types) prod.inject)

lemma by_type_refused:
  assumes "inj rid" "\<And>k p. bind k p \<noteq> ResolveFailed" "reg_okk sm cfg maxp c k w"
    and "\<not> has_proxy (np_name m) (rw_clients w c)"
    and r: "register_by_type sm rid bind cfg c m slot w = (w', Inl e)"
    and "np_type m \<noteq> ''http''" "np_type m \<noteq> ''https''" "np_type m \<noteq> ''tcpmux''"
  shows "same_tables w w'"
  using r assms(6-8)
proof (cases rule: register_by_type_plain)
  case 1
  then show ?thesis by (rule tcp_refused [OF assms(1-4)])
next
  case 2
  then show ?thesis by (rule udp_refused [OF assms(1,3,4)])
next
  case 3
  then show ?thesis by (auto simp: register_visitor_proxy_def Let_def split: if_splits sum.splits prod.splits)
qed simp

lemma register_new_refused:
  assumes "sem_ok sm" "inj rid" "\<And>k p. bind k p \<noteq> ResolveFailed" "reg_okk sm cfg maxp c 0 w"
    and new: "\<not> has_proxy (np_name m) (rw_clients w c)"
    and r: "register_new sm rid bind cfg c m w = (w', Inl e)"
    and ty: "np_type m \<noteq> ''http''" "np_type m \<noteq> ''https''" "np_type m \<noteq> ''tcpmux''"
  shows "same_tables w w'"
proof -
  obtain ct q where q: "reserve_proxy sm (rw_clients w c) = (ct, q)" by fastforce
  note T = tab_ok_reserve [OF assms(1) reg_okkD(1) [OF assms(4)] q]
  let ?w1 = "upd_client c (\<lambda>_. ct) w"
  have w1: "same_tables w v \<longleftrightarrow> same_tables ?w1 v" for v using T(2) by (auto simp: same_tables_def)
  show ?thesis
  proof (cases q)
    case None
    then have "w' = ?w1" using r q by (simp add: register_new_def)
    then show ?thesis unfolding w1 by simp
  next
    case (Some slot)
    have t: "tab_ok sm maxp 1 ct" using T(5) [OF Some] by auto
    have k: "reg_okk sm cfg maxp c 1 ?w1"
      by (rule reg_okk_client [OF assms(4)])
        (use t T(1,2) in \<open>auto simp: port_of_def has_proxy_def ports_used_def fun_eq_iff\<close>)
    have new1: "\<not> has_proxy (np_name m) (rw_clients ?w1 c)" using new T(2) by (simp add: has_proxy_def)
    obtain w2 s where s: "register_by_type sm rid bind cfg c m slot ?w1 = (w2, s)" by fastforce
    have b: "same_tables ?w1 w2" if "s = Inl e'" for e'
      using by_type_refused [OF assms(2,3) k new1 s [unfolded that] ty] .
    have "w' = drop_slot_of sm c slot ?w1 \<or> w' = drop_slot_of sm c slot w2 \<and> (\<exists>e'. s = Inl e')"
      using r q Some s unfolding register_new_def
      by (cases "ports_error_of cfg m ct"; cases s) auto
    then show ?thesis unfolding w1 using b by auto
  qed
qed

section \<open>Properties\<close>

text \<open>Two tenants on a server with a quota of two proxies per client; every bind succeeds.\<close>

definition demo_env :: reg_env where
  "demo_env = \<lparr>en_rid = (\<lambda>c. replicate c CHR ''x''), en_bind = (\<lambda>_ p. Bound (unat p))\<rparr>"

definition demo_cfg :: reg_config where
  "demo_cfg =
     \<lparr>rc_allow = [], rc_max_ports = 0, rc_http_port = Some 8, rc_https_port = None, rc_tcpmux_port = None,
      rc_subdomain_host = [], rc_proxy_host = ''0.0.0.0''\<rparr>"

definition demo_role :: "nat \<Rightarrow> role" where
  "demo_role n =
     \<lparr>ro_name = ''any'', ro_users = [], ro_types = [], ro_port_range = None, ro_manage = False,
      ro_visitors = True, ro_max_proxies = n\<rparr>"

definition demo_msg :: "string \<Rightarrow> string \<Rightarrow> u16 \<Rightarrow> string \<Rightarrow> string list \<Rightarrow> new_proxy" where
  "demo_msg name ty port grp domains =
     \<lparr>np_name = name, np_type = ty, np_enc = False, np_comp = False, np_bandwidth = [], np_bandwidth_mode = [],
      np_group = grp, np_group_key = ''k'', np_metas = fmempty, np_annotations = fmempty, np_port = port,
      np_domains = domains, np_subdomain = [], np_locations = [], np_http_user = [], np_http_pwd = [],
      np_host_rewrite = [], np_headers = fmempty, np_resp_headers = fmempty, np_route_user = [],
      np_multiplexer = [], np_sk = ''s'', np_allow_users = []\<rparr>"

definition demo_user :: "nat \<Rightarrow> string" where
  "demo_user c = (if c = 0 then ''ann'' else ''bob'')"

definition demo_ops :: "(reg_env \<times> reg_op) list" where
  "demo_ops =
     [(demo_env, NewProxyOp (demo_role 0) 0 (demo_msg ''web'' ''tcp'' 7 [] [])),
      (demo_env, NewProxyOp (demo_role 0) 2 (demo_msg ''web'' ''tcp'' 7 [] [])),
      (demo_env, NewProxyOp (demo_role 0) 2 (demo_msg ''dns'' ''udp'' 9 [] [])),
      (demo_env, NewProxyOp (demo_role 0) 0 (demo_msg ''shell'' ''stcp'' 0 [] [])),
      (demo_env, NewProxyOp (demo_role 0) 0 (demo_msg ''more'' ''tcp'' 8 [] []))]"

definition demo_world :: "nat reg_world" where
  "demo_world = reg_run counter_sem demo_cfg (reg_start counter_sem 2 True demo_user) demo_ops"

lemma demo_world_facts:
  "(let w = demo_world; a = rw_clients w 0; b = rw_clients w 2 in
     (port_of a ''ann.web'', proxy_count a, ct_ref a, port_of b ''bob.web'', proxy_count b, ct_ref b,
      has_proxy ''bob.web'' b))
   = (Some 7, 2, \<lparr>cr_ptr = 0, cr_user = ''ann''\<rparr>, None, 1, \<lparr>cr_ptr = 2, cr_user = ''bob''\<rparr>, False)"
  by code_simp

lemma demo_env_ok: "env_ok demo_env"
  by (auto simp: env_ok_def demo_env_def inj_def dest: arg_cong [of _ _ length])

lemma demo_ops_ok: "\<forall>op\<in>set demo_ops. env_ok (fst op)"
  by (simp add: demo_ops_def demo_env_ok)



text \<open>C8: closing a proxy frees all it had, and nothing else. Afterwards the client has no proxy of this
  name, no port is registered for it, no private name of it and no route of a virtual host is
  left; the claims on ports of every other pair, the proxies of the other clients and the other
  proxies of this client are as before.\<close>

theorem close_proxy_frees:
  assumes "sem_ok sm" "\<forall>op\<in>set ops. env_ok (fst op)"
    and "reg_run sm cfg (reg_start sm maxp vhosts users) ops = w"
    and "inj rid" "close_proxy sm rid c name w = w'"
  shows "\<not> has_proxy name (rw_clients w' c)
    \<and> (\<forall>p x. x \<in> claimed (rw_ports w') p \<longleftrightarrow> x \<in> claimed (rw_ports w) p \<and> \<not> (cr_ptr (fst x) = c \<and> snd x = name))
    \<and> (\<forall>e. fmlookup (rw_visitors w') name = Some e \<longrightarrow> cr_ptr (ve_client e) \<noteq> c)
    \<and> (\<forall>t d r. rw_vhosts w' = Some t \<longrightarrow> r \<in> set (fm_list (vt_exact t) d) \<union> set (fm_list (vt_wildcard t) d)
          \<longrightarrow> \<not> (cr_ptr (vr_client r) = c \<and> vr_proxy r = name))
    \<and> (\<forall>d n. (d, n) \<noteq> (c, name) \<longrightarrow>
          fmlookup (ct_proxies (rw_clients w' d)) n = fmlookup (ct_proxies (rw_clients w d)) n)"
proof -
  let ?w' = "fst (close_proxy_by_name sm rid c name w)"
  have ok: "reg_okk sm cfg maxp c 0 w" using reg_run_ok [OF assms(1,2)] assms(3) by blast
  note f = close_facts [OF assms(1,4) ok refl, of name] and ptr = reg_okkD(3) [OF ok, of c]
  have same: "rw_clients w' = rw_clients ?w'" "rw_ports w' = rw_ports ?w'" "rw_visitors w' = rw_visitors ?w'"
    "rw_vhosts w' = rw_vhosts ?w'"
    using close_same [of sm rid c name w] assms(5) by auto
  have vis: "cr_ptr (ve_client e) \<noteq> c" if "fmlookup (rw_visitors w') name = Some e" for e
    using that ptr unfolding same f(3) by (auto simp: visitor_remove_def split: option.splits if_splits)
  have vh: "\<not> (cr_ptr (vr_client r) = c \<and> vr_proxy r = name)"
    if "rw_vhosts w' = Some t" "r \<in> set (fm_list (vt_exact t) d) \<union> set (fm_list (vt_wildcard t) d)" for t d r
    using that ptr unfolding same f(4) by (auto simp: vhost_remove_proxy_def Let_def fm_list_keep)
  have others: "fmlookup (ct_proxies (rw_clients w' d)) n = fmlookup (ct_proxies (rw_clients w d)) n"
    if "(d, n) \<noteq> (c, name)" for d n
    using that unfolding same f(1) by (auto simp: stop_proxy_def drop_entry_def split: option.splits)
  show ?thesis using close_ok(2) [OF assms(1,4) ok, of name] vis vh others
    by (simp add: same f(2))
qed

theorem close_proxy_frees_witness:
  "(\<lparr>cr_ptr = 0, cr_user = ''ann''\<rparr>, ''ann.web'')
     \<notin> claimed (rw_ports (close_proxy counter_sem (en_rid demo_env) 0 ''ann.web'' demo_world)) 7"
  using close_proxy_frees [OF counter_sem_ok demo_ops_ok demo_world_def [symmetric] _ refl,
      where rid = "en_rid demo_env" and c = 0 and name = "''ann.web''"] demo_env_ok
  by (auto simp: env_ok_def)



end
