(* ===== verification/Registration_Gaps.thy ===== *)
theory Registration_Gaps
  imports Registration_Inv
begin

text \<open>
  Where the tables that \<open>server/src/serve.rs\<close> keeps about a proxy come apart: resuming at the limit
  of a role, a virtual host with a second domain that is taken, a TCP proxy in the group of a UDP
  port, and an address that cannot be resolved.
\<close>

section \<open>Where the tables come apart\<close>

lemma close_all_has:
  assumes "sem_ok sm" "inj rid" "reg_okk sm cfg maxp c 0 w"
  shows "has_proxy n (rw_clients (close_all sm rid c names w) c) \<longleftrightarrow> n \<notin> set names \<and> has_proxy n (rw_clients w c)"
  using assms(3)
proof (induction names arbitrary: w)
  case (Cons k names)
  let ?w1 = "fst (close_proxy_by_name sm rid c k w)"
  have "has_proxy n (rw_clients ?w1 c) \<longleftrightarrow> n \<noteq> k \<and> has_proxy n (rw_clients w c)"
    unfolding close_facts(1) [OF assms(1,2) Cons.prems refl]
    using stop_proxy_facts(2) [OF assms(1) reg_okkD(1) [OF Cons.prems], where n = k and j = n] by simp
  then show ?case using Cons.IH [OF close_ok(1) [OF assms(1,2) Cons.prems, of k]] by (auto simp: close_all_def)
qed (simp add: close_all_def)

text \<open>C36: a client at the limit of its role loses its proxies when it resumes. The role check counts the
  proxies of the session that is resumed, so every registration that is sent again is refused,
  although each would have been taken over as it is; and when the grace period ends, all proxies
  are closed because none was registered again.\<close>

theorem resume_at_role_limit:
  assumes "sem_ok sm" "\<forall>op\<in>set ops. env_ok (fst op)"
    and "reg_run sm cfg (reg_start sm maxp vhosts users) ops = w"
    and "ct_resumed (rw_clients w c)"
    and "\<forall>n e. fmlookup (ct_proxies (rw_clients w c)) n = Some e \<longrightarrow> pe_epoch e \<noteq> ct_epoch (rw_clients w c)"
    and "ro_max_proxies rl > 0" "proxy_count (rw_clients w c) \<ge> ro_max_proxies rl"
    and "env_ok en"
  shows "reg_run sm cfg w (map (\<lambda>m. (en, NewProxyOp rl c m)) ms) = w
    \<and> (\<forall>m e. np_name m \<noteq> [] \<and> fmlookup (ct_proxies (rw_clients w c)) (np_name m) = Some e
          \<and> pe_signature e = proxy_signature m
        \<longrightarrow> snd (register_proxy sm (en_rid en) (en_bind en) cfg c m w) = Inr (pe_remote e, True))
    \<and> proxy_names (rw_clients (reg_run sm cfg w (map (\<lambda>m. (en, NewProxyOp rl c m)) ms @ [(en, GraceOp c)])) c) = []"
proof -
  have ok: "reg_okk sm cfg maxp c 0 w" using reg_run_ok [OF assms(1,2)] assms(3) by blast
  have inj: "inj (en_rid en)" using assms(8) by (simp add: env_ok_def)
  have refused: "\<exists>e. check_proxy rl ty p (proxy_count (rw_clients w c)) = Inl e" for ty p
    using assms(6,7) by (auto simp: check_proxy_def Let_def)
  have one: "reg_step sm cfg w (en, NewProxyOp rl c m) = w" for m
  proof -
    obtain e where "check_proxy rl (np_type m) (np_port m) (proxy_count (rw_clients w c)) = Inl e" using refused by blast
    then show ?thesis by (simp add: handle_new_proxy_def Let_def)
  qed
  have all: "reg_run sm cfg w (map (\<lambda>m. (en, NewProxyOp rl c m)) ms) = w"
    unfolding reg_run_def by (induction ms) (simp_all add: one del: reg_step.simps)
  have adopt: "snd (register_proxy sm (en_rid en) (en_bind en) cfg c m w) = Inr (pe_remote e, True)"
    if "np_name m \<noteq> []" "fmlookup (ct_proxies (rw_clients w c)) (np_name m) = Some e"
      "pe_signature e = proxy_signature m" for m e
    using that assms(4) by (simp add: register_proxy_def reusable_proxy_def)
  have stale: "n \<in> set (stale_proxies (rw_clients w c)) \<longleftrightarrow> has_proxy n (rw_clients w c)" for n
    using assms(5) unfolding stale_proxies_def sorted_list_of_fset_simps(1)
    by (auto simp: fmlookup_dom_iff has_proxy_def split: option.splits if_splits)
  have "reg_run sm cfg w (map (\<lambda>m. (en, NewProxyOp rl c m)) ms @ [(en, GraceOp c)]) = grace_expired sm (en_rid en) c w"
    using all by (simp add: reg_run_def)
  moreover have "\<not> has_proxy n (rw_clients (grace_expired sm (en_rid en) c w) c)" for n
    using close_all_has [OF assms(1) inj ok, of n "stale_proxies (rw_clients w c)"] stale assms(4)
    by (auto simp: grace_expired_def finish_resume_def has_proxy_def)
  ultimately show ?thesis using all adopt set_proxy_names by (metis last_in_set)
qed

definition demo_resume_ops :: "(reg_env \<times> reg_op) list" where
  "demo_resume_ops =
     [(demo_env, NewProxyOp (demo_role 1) 0 (demo_msg ''web'' ''tcp'' 7 [] [])), (demo_env, ResumeOp 0)]"

theorem resume_at_role_limit_witness:
  "proxy_names (rw_clients (reg_run counter_sem demo_cfg
      (reg_run counter_sem demo_cfg (reg_start counter_sem 2 True demo_user) demo_resume_ops)
      (map (\<lambda>m. (demo_env, NewProxyOp (demo_role 1) 0 m)) [demo_msg ''web'' ''tcp'' 7 [] []] @ [(demo_env, GraceOp 0)])) 0) = []"
proof -
  let ?w = "reg_run counter_sem demo_cfg (reg_start counter_sem 2 True demo_user) demo_resume_ops"
  let ?t = "rw_clients ?w 0"
  have e: "(ct_resumed ?t, fmpred (\<lambda>_ e. pe_epoch e \<noteq> ct_epoch ?t) (ct_proxies ?t), proxy_count ?t) = (True, True, 1)"
    by code_simp
  then have "\<forall>n e. fmlookup (ct_proxies ?t) n = Some e \<longrightarrow> pe_epoch e \<noteq> ct_epoch ?t" by (simp add: fmpred_iff)
  moreover have "\<forall>op\<in>set demo_resume_ops. env_ok (fst op)" by (simp add: demo_resume_ops_def demo_env_ok)
  ultimately show ?thesis
    using resume_at_role_limit [OF counter_sem_ok _ refl, where ops = demo_resume_ops and cfg = demo_cfg and maxp = 2
        and vhosts = True and users = demo_user and c = 0 and rl = "demo_role 1" and en = demo_env
        and ms = "[demo_msg ''web'' ''tcp'' 7 [] []]"] e demo_env_ok
    by (simp add: demo_role_def)
qed

text \<open>A refused virtual host can leave routes behind. When the second domain of a new proxy is taken,
  the registration is refused but the route of the first domain stays, for a proxy its client
  does not have; its place in the quota has been given back, and the domain is refused to others.\<close>

theorem vhost_leftovers:
  assumes "sem_ok sm" "\<forall>op\<in>set ops. env_ok (fst op)"
    and "reg_run sm cfg (reg_start sm maxp vhosts users) ops = w"
    and "n = canonical_wire_name (cr_user (ct_ref (rw_clients w c))) (np_name m)" "n \<noteq> []"
    and "\<not> has_proxy n (rw_clients w c)" "maxp = 0 \<or> \<not> proxy_count (rw_clients w c) \<ge> maxp"
    and "check_proxy rl (np_type m) (np_port m) (proxy_count (rw_clients w c)) = Inr ()"
    and "np_type m = ''http''" "rc_http_port cfg = Some vp" "rw_vhosts w = Some t"
    and "vhost_domains cfg m = Inr [d1, d2]"
    and "route = route_of_proxy (ct_ref (rw_clients w c)) VhHttp (m\<lparr>np_name := n\<rparr>)"
    and "vhost_register (route\<lparr>vr_domain := d1\<rparr>) t = (t1, Inr ())"
    and "vhost_register (route\<lparr>vr_domain := d2\<rparr>) t1 = (t2, Inl e)"
  shows "\<exists>w'. handle_new_proxy sm rid bind cfg rl c m w = (w', Inl (VhostTaken e))
    \<and> rw_vhosts w' = Some t1
    \<and> \<not> has_proxy n (rw_clients w' c) \<and> proxy_count (rw_clients w' c) = proxy_count (rw_clients w c)
    \<and> (maxp > 0 \<longrightarrow> limit_used sm (ct_limit (rw_clients w' c)) = proxy_count (rw_clients w c))"
proof -
  let ?m = "m\<lparr>np_name := n\<rparr>"
  have ok: "reg_okk sm cfg maxp c 0 w" using reg_run_ok [OF assms(1,2)] assms(3) by blast
  note t = reg_okkD(1) [OF ok]
  obtain ct q where q: "reserve_proxy sm (rw_clients w c) = (ct, q)" by fastforce
  note T = tab_ok_reserve [OF assms(1) t q]
  have "q \<noteq> None"
  proof
    assume "q = None"
    then have "snd (limit_try_acquire sm (ct_limit (rw_clients w c))) = None"
      using q by (auto simp: reserve_proxy_def split: prod.splits)
    then show False using quota.refused_iff [OF limit_quota [OF assms(1)], of "ct_limit (rw_clients w c)" maxp
        "proxy_count (rw_clients w c)"] t assms(7) by (simp add: tab_ok_def proxy_count_def)
  qed
  then obtain slot where slot: "q = Some slot" by blast
  let ?w1 = "upd_client c (\<lambda>_. ct) w"
  let ?w' = "drop_slot_of sm c slot (?w1\<lparr>rw_vhosts := Some t1\<rparr>)"
  have "t2 = t1" using assms(15) by (cases "route\<lparr>vr_domain := d2\<rparr>" t1 rule: vhost_register_cases) auto
  moreover have "vhost_domains cfg ?m = vhost_domains cfg m" by (simp add: vhost_domains_def)
  ultimately have v: "register_vhost sm cfg c ?m VhHttp slot ?w1 = (?w1\<lparr>rw_vhosts := Some t1\<rparr>, Inl (VhostTaken e))"
    using assms(10-15) T(1) by (simp add: register_vhost_def)
  have "register_by_type sm rid bind cfg c ?m slot ?w1 = (?w1\<lparr>rw_vhosts := Some t1\<rparr>, Inl (VhostTaken e))"
    using v assms(9) by (simp add: register_by_type_def)
  moreover have "ports_error_of cfg ?m ct = None" using assms(9) by (simp add: ports_error_of_def)
  ultimately have r: "register_new sm rid bind cfg c ?m w = (?w', Inl (VhostTaken e))"
    using q slot by (simp add: register_new_def Let_def)
  have "reusable_proxy n sg (rw_clients w c) = None" for sg using assms(6) by (simp add: reusable_proxy_def has_proxy_def)
  then have "register_proxy sm rid bind cfg c ?m w = (?w', Inl (VhostTaken e))"
    using r assms(5,6) by (simp add: register_proxy_def Let_def)
  then have h: "handle_new_proxy sm rid bind cfg rl c m w = (?w', Inl (VhostTaken e))"
    using assms(8) unfolding handle_new_proxy_def assms(4) [symmetric] Let_def by simp
  have p: "ct_proxies (rw_clients ?w' c) = ct_proxies (rw_clients w c)" using T(2) by (simp add: drop_slot_of_def)
  have "tab_ok sm maxp 0 (rw_clients ?w' c)"
    using tab_ok_drop [OF assms(1), where k = 0 and ct = ct] T(5) [OF slot] by (simp add: drop_slot_of_def)
  then have "maxp > 0 \<longrightarrow> limit_used sm (ct_limit (rw_clients ?w' c)) = proxy_count (rw_clients w c)"
    using p by (auto simp: tab_ok_def limit_held_def limit_used_def proxy_count_def split: option.splits)
  then show ?thesis using h p assms(6) by (intro exI [of _ ?w']) (simp add: has_proxy_def proxy_count_def drop_slot_of_def)
qed

definition demo_vhost_ops :: "(reg_env \<times> reg_op) list" where
  "demo_vhost_ops = [(demo_env, NewProxyOp (demo_role 0) 2 (demo_msg ''site'' ''http'' 0 [] [''b.com'']))]"

theorem vhost_leftovers_witness:
  "\<exists>w'. handle_new_proxy counter_sem (en_rid demo_env) (en_bind demo_env) demo_cfg (demo_role 0) 0
          (demo_msg ''site'' ''http'' 0 [] [''a.com'', ''b.com''])
          (reg_run counter_sem demo_cfg (reg_start counter_sem 2 True demo_user) demo_vhost_ops)
        = (w', Inl (VhostTaken (DomainTaken ''b.com'')))
     \<and> \<not> has_proxy ''ann.site'' (rw_clients w' 0)"
proof -
  let ?w = "reg_run counter_sem demo_cfg (reg_start counter_sem 2 True demo_user) demo_vhost_ops"
  let ?m = "demo_msg ''site'' ''http'' 0 [] [''a.com'', ''b.com'']"
  let ?n = "canonical_wire_name (cr_user (ct_ref (rw_clients ?w 0))) (np_name ?m)"
  let ?route = "route_of_proxy (ct_ref (rw_clients ?w 0)) VhHttp (?m\<lparr>np_name := ?n\<rparr>)"
  define t1 where "t1 = fst (vhost_register (?route\<lparr>vr_domain := ''a.com''\<rparr>) (the (rw_vhosts ?w)))"
  define t2 where "t2 = fst (vhost_register (?route\<lparr>vr_domain := ''b.com''\<rparr>) t1)"
  have e: "(?n, rw_vhosts ?w = None, has_proxy ?n (rw_clients ?w 0), proxy_count (rw_clients ?w 0),
      snd (vhost_register (?route\<lparr>vr_domain := ''a.com''\<rparr>) (the (rw_vhosts ?w))),
      snd (vhost_register (?route\<lparr>vr_domain := ''b.com''\<rparr>) t1))
    = (''ann.site'', False, False, 0, Inr (), Inl (DomainTaken ''b.com''))"
    unfolding t1_def by code_simp
  have d: "vhost_domains demo_cfg ?m = Inr [''a.com'', ''b.com'']"
    "check_proxy (demo_role 0) (np_type ?m) (np_port ?m) (proxy_count (rw_clients ?w 0)) = Inr ()"
    by code_simp+
  have ok: "\<forall>op\<in>set demo_vhost_ops. env_ok (fst op)" by (simp add: demo_vhost_ops_def demo_env_ok)
  obtain t where t: "rw_vhosts ?w = Some t" using e by auto
  have tt: "the (rw_vhosts ?w) = t" using t by simp
  note s = e [unfolded prod.inject tt]
  have r: "vhost_register (?route\<lparr>vr_domain := ''a.com''\<rparr>) t = (t1, Inr ())"
    "vhost_register (?route\<lparr>vr_domain := ''b.com''\<rparr>) t1 = (t2, Inl (DomainTaken ''b.com''))"
    using s unfolding t2_def t1_def [unfolded tt] by (metis prod.collapse)+
  have n: "?n = ''ann.site''" "\<not> has_proxy ?n (rw_clients ?w 0)" and z: "proxy_count (rw_clients ?w 0) = 0"
    using s by blast+
  have n1: "?n \<noteq> []" unfolding n(1) by simp
  have c: "(2::nat) = 0 \<or> \<not> proxy_count (rw_clients ?w 0) \<ge> 2" unfolding z by simp
  have h: "np_type ?m = ''http''" "rc_http_port demo_cfg = Some 8" by (simp_all add: demo_msg_def demo_cfg_def)
  from vhost_leftovers [OF counter_sem_ok ok refl refl n1 n(2) c d(2) h t d(1) refl r, of "en_rid demo_env" "en_bind demo_env"]
  show ?thesis unfolding n(1) by blast
qed

text \<open>A TCP proxy can succeed without a listener. After a UDP proxy has opened a port for a group, a
  TCP proxy of the same tenant with the same group and key is registered on this port, whatever a
  bind would say; the port keeps the listener of the UDP proxy.\<close>

theorem tcp_joins_udp_listener:
  assumes "register_udp sm rid bind cfg c m slot w = (w1, Inr addr1)" "np_group m \<noteq> []"
    and "np_port m2 = np_port m" "np_group m2 = np_group m" "np_group_key m2 = np_group_key m"
    and "cr_user (ct_ref (rw_clients w1 d)) = cr_user (ct_ref (rw_clients w c))"
  shows "\<exists>w2 pg h. register_tcp sm rid bind2 cfg d m2 slot2 w1
        = (w2, Inr (rc_proxy_host cfg @ '':'' @ show_nat (unat (np_port m))))
    \<and> fmlookup (po_groups (rw_ports w2)) (np_port m) = Some pg
    \<and> bind ''udp'' (np_port m) = Bound h \<and> pg_handle pg = Some h"
proof -
  let ?p = "np_port m" and ?ref = "ct_ref (rw_clients w c)"
  obtain st h where st: "reserve_port rid (rw_ports w) ?p (np_group m) (np_group_key m) (np_name m) ?ref = (st, Inr Fresh)"
    "bind ''udp'' ?p = Bound h" "?p \<noteq> 0" "rw_ports w1 = attach_listener st ?p h"
    using assms(1)
    by (auto simp: register_udp_def Let_def record_proxy_def
        split: if_splits prod.splits sum.splits port_claim.splits bind_result.splits)
  have "fmlookup (po_groups st) ?p
      = Some (pg_new (np_group m) (np_group_key m) \<lparr>be_client = ?ref, be_proxy = np_name m, be_load = po_next (rw_ports w)\<rparr>)"
    using st(1) by (auto simp: reserve_port_def new_backend_def split: option.splits if_splits)
  then obtain pg where pg: "fmlookup (po_groups (rw_ports w1)) ?p = Some pg" "pg_handle pg = Some h"
    "pg_name pg = np_group m" "pg_key pg = np_group_key m" "pg_owner pg = cr_user ?ref"
    unfolding st(4) by (simp add: attach_listener_def pg_new_def)
  obtain st2 pg2 where j: "reserve_port rid (rw_ports w1) ?p (np_group m) (np_group_key m) (np_name m2)
      (ct_ref (rw_clients w1 d)) = (st2, Inr Joined)" "fmlookup (po_groups st2) ?p = Some pg2" "pg_handle pg2 = Some h"
    using pg assms(2,6)
    by (auto simp: reserve_port_def new_backend_def constant_time_eq_iff pg_push_def pg_remove_def Let_def)
  then show ?thesis using st(2,3) assms(3-5)
    by (simp add: register_tcp_def Let_def record_proxy_def)
qed

theorem tcp_joins_udp_listener_witness:
  "\<exists>w2. register_tcp counter_sem (en_rid demo_env) (\<lambda>_ _. BindRefused) demo_cfg 2 (demo_msg ''cli'' ''tcp'' 7 ''g'' [])
       Unlimited
       (fst (register_udp counter_sem (en_rid demo_env) (en_bind demo_env) demo_cfg 0 (demo_msg ''dns'' ''udp'' 7 ''g'' [])
          Unlimited (reg_start counter_sem 2 True (\<lambda>_. ''ann''))))
     = (w2, Inr ''0.0.0.0:7'')"
proof -
  let ?w = "reg_start counter_sem 2 True (\<lambda>_. ''ann'')"
  let ?m = "demo_msg ''dns'' ''udp'' 7 ''g'' []"
  let ?r = "register_udp counter_sem (en_rid demo_env) (en_bind demo_env) demo_cfg 0 ?m Unlimited ?w"
  have "(snd ?r, cr_user (ct_ref (rw_clients (fst ?r) 2)), cr_user (ct_ref (rw_clients ?w 0)))
      = (Inr ''0.0.0.0:7/udp'', ''ann'', ''ann'')" by code_simp
  then have r: "?r = (fst ?r, Inr ''0.0.0.0:7/udp'')"
    and u: "cr_user (ct_ref (rw_clients (fst ?r) 2)) = cr_user (ct_ref (rw_clients ?w 0))"
    by (simp_all add: prod_eq_iff)
  have "rc_proxy_host demo_cfg @ '':'' @ show_nat (unat (np_port ?m)) = ''0.0.0.0:7''" by code_simp
  then show ?thesis
    using tcp_joins_udp_listener [OF r _ _ _ _ u, where ?m2.0 = "demo_msg ''cli'' ''tcp'' 7 ''g'' []"
        and ?slot2.0 = Unlimited and ?bind2.0 = "\<lambda>_ _. BindRefused"]
    by (auto simp: demo_msg_def)
qed

text \<open>An address that cannot be resolved costs the port. The registration is refused after the port
  has been reserved; the reservation stays, for a proxy its client does not have, and every
  later registration of the port without a group is refused.\<close>

theorem unresolved_address_leaks_port:
  assumes "fmlookup (po_groups (rw_ports w)) (np_port m) = None" "np_port m \<noteq> 0" "np_group m = []"
    and "bind ''tcp'' (np_port m) = ResolveFailed"
  shows "\<exists>w'. register_tcp sm rid bind cfg c m slot w = (w', Inl NotResolved)
    \<and> rw_clients w' = rw_clients w
    \<and> (ct_ref (rw_clients w c), np_name m) \<in> claimed (rw_ports w') (np_port m)
    \<and> (\<forall>d m2 slot2 bind2. np_port m2 = np_port m \<longrightarrow>
          snd (register_tcp sm rid bind2 cfg d m2 slot2 w') = Inl (PortRefused HeldExclusively))"
  using assms
  by (simp add: register_tcp_def reserve_port_def new_backend_def Let_def claimed_def view_def group_view_def pg_new_def regs_def)

theorem unresolved_address_leaks_port_witness:
  "\<exists>w'. register_tcp counter_sem (en_rid demo_env) (\<lambda>_ _. ResolveFailed) demo_cfg 0 (demo_msg ''web'' ''tcp'' 7 [] []) Unlimited
          (reg_start counter_sem 2 True demo_user) = (w', Inl NotResolved)
     \<and> snd (register_tcp counter_sem (en_rid demo_env) (en_bind demo_env) demo_cfg 2 (demo_msg ''web'' ''tcp'' 7 [] []) Unlimited w')
         = Inl (PortRefused HeldExclusively)"
  using unresolved_address_leaks_port [where w = "reg_start counter_sem 2 True demo_user" and sm = counter_sem
      and m = "demo_msg ''web'' ''tcp'' 7 [] []" and bind = "\<lambda>_ _. ResolveFailed" and rid = "en_rid demo_env"
      and cfg = demo_cfg and c = 0 and slot = Unlimited]
  by (fastforce simp: demo_msg_def reg_start_def ports_empty_def)

end
