(* ===== verification/Vnet.thy ===== *)
theory Vnet
  imports Rust_Net Framing
begin

unbundle bit_operations_syntax

text \<open>
  The virtual network (\<open>common/src/vnet.rs\<close>): configuration, frames, the IPv4 header, the echo
  replies of the gateway with their checksums, subnets, the address pool and the switch. An
  \<open>Ipv4Addr\<close> is its number; \<open>u64\<close> counts of addresses are at most \<open>2 ^ 32\<close> and are naturals.
  The TUN devices and the JSON of the registration are left out.
\<close>

section \<open>Configuration\<close>

record vnet_config =
  vc_address :: string
  vc_gateway :: string
  vc_auto_assign :: bool
  vc_network :: string
  vc_subnet :: string
  vc_mtu :: u32
  vc_server_port :: u16

definition vnet_config_default :: vnet_config where
  "vnet_config_default =
     \<lparr>vc_address = [], vc_gateway = [], vc_auto_assign = False, vc_network = ''default'', vc_subnet = [],
      vc_mtu = 1400, vc_server_port = 0\<rparr>"

definition vnet_is_enabled :: "vnet_config \<Rightarrow> bool" where
  "vnet_is_enabled c \<longleftrightarrow> trim (vc_address c) \<noteq> [] \<or> vc_auto_assign c"

datatype subnet_error = SubnetAddress string | SubnetPrefix string | SubnetTooLong u8

record subnet =
  sn_net :: u32
  sn_prefix :: u8

definition subnet_mask :: "u8 \<Rightarrow> u32" where
  "subnet_mask prefix = (if prefix = 0 then 0 else push_bit (32 - unat prefix) (- 1))"

definition subnet_parse :: "string \<Rightarrow> subnet_error + subnet" where
  "subnet_parse s0 =
     (let s = trim s0;
          (addr_part, prefix_part) = (case split_once CHR ''/'' s of Some (a, b) \<Rightarrow> (a, Some b) | None \<Rightarrow> (s, None))
      in res_bind (ok_or (SubnetAddress addr_part) (parse_ipv4 (trim addr_part))) (\<lambda>addr.
         res_bind (case prefix_part of
                     Some p \<Rightarrow> ok_or (SubnetPrefix p) (parse_u8 (trim p))
                   | None \<Rightarrow> Inr 24) (\<lambda>prefix.
           if prefix > 32 then Inl (SubnetTooLong prefix)
           else Inr \<lparr>sn_net = addr AND subnet_mask prefix, sn_prefix = prefix\<rparr>)))"

definition subnet_size :: "subnet \<Rightarrow> nat" where
  "subnet_size sn = 2 ^ (32 - unat (sn_prefix sn))"

definition subnet_contains :: "subnet \<Rightarrow> u32 \<Rightarrow> bool" where
  "subnet_contains sn ip \<longleftrightarrow> ip AND subnet_mask (sn_prefix sn) = sn_net sn"

definition subnet_nth :: "subnet \<Rightarrow> nat \<Rightarrow> u32 option" where
  "subnet_nth sn i = (if i \<ge> subnet_size sn then None else Some (sn_net sn + of_nat i))"

definition subnet_network :: "subnet \<Rightarrow> u32" where
  "subnet_network sn = sn_net sn"

definition subnet_broadcast :: "subnet \<Rightarrow> u32" where
  "subnet_broadcast sn = sn_net sn + of_nat (subnet_size sn - 1)"

definition subnet_fmt :: "subnet \<Rightarrow> string" where
  "subnet_fmt sn = show_ipv4 (subnet_network sn) @ ''/'' @ show_nat (unat (sn_prefix sn))"

datatype vnet_error = BadAddress string | BadSubnet subnet_error | BadMtu u32

definition before_slash :: "string \<Rightarrow> string" where
  "before_slash s = trim (hd (split_on CHR ''/'' s))"

definition vnet_validate :: "vnet_config \<Rightarrow> vnet_error + unit" where
  "vnet_validate c =
     (if \<not> vnet_is_enabled c then Inr ()
      else if trim (vc_address c) \<noteq> [] \<and> parse_ipv4 (before_slash (vc_address c)) = None
      then Inl (BadAddress (vc_address c))
      else
        res_bind (if trim (vc_subnet c) \<noteq> []
                  then (case subnet_parse (vc_subnet c) of Inl e \<Rightarrow> Inl (BadSubnet e) | Inr _ \<Rightarrow> Inr ())
                  else Inr ()) (\<lambda>_.
          if vc_mtu c < 576 \<or> vc_mtu c > 65535 then Inl (BadMtu (vc_mtu c)) else Inr ()))"

section \<open>Frames\<close>

definition MAX_FRAME :: nat where "MAX_FRAME = 1024 * 1024"

datatype vframe_error = FrameEmpty | FrameTooLarge nat

definition vnet_encode_frame :: "bytes \<Rightarrow> vframe_error + bytes" where
  "vnet_encode_frame payload =
     (if payload = [] then Inl FrameEmpty
      else if length payload > MAX_FRAME then Inl (FrameTooLarge (length payload))
      else Inr (rev (be32 (of_nat (length payload))) @ payload))"

definition vnet_take_frame :: "bytes \<Rightarrow> (vframe_error + bytes option) \<times> bytes" where
  "vnet_take_frame buf =
     (if length buf < 4 then (Inr None, buf)
      else
        let n = unat (get32 (rev (take 4 buf))) in
        if n = 0 then (Inl FrameEmpty, buf)
        else if n > MAX_FRAME then (Inl (FrameTooLarge n), buf)
        else if length buf < 4 + n then (Inr None, buf)
        else (Inr (Some (take n (drop 4 buf))), drop (4 + n) buf))"

section \<open>IPv4 and ICMP\<close>

record ip_header =
  ih_src :: u32
  ih_dst :: u32
  ih_protocol :: u8
  ih_header_len :: nat

definition ipv4_header :: "bytes \<Rightarrow> ip_header option" where
  "ipv4_header pkt =
     (if length pkt < 20 then None
      else if drop_bit 4 (pkt ! 0) \<noteq> 4 then None
      else
        let header_len = unat (pkt ! 0 AND 0x0f) * 4 in
        if header_len < 20 \<or> length pkt < header_len then None
        else Some \<lparr>ih_src = get32 (take 4 (drop 12 pkt)), ih_dst = get32 (take 4 (drop 16 pkt)),
                   ih_protocol = pkt ! 9, ih_header_len = header_len\<rparr>)"

definition is_icmp_echo_request :: "bytes \<Rightarrow> bool" where
  "is_icmp_echo_request pkt =
     (case ipv4_header pkt of
        Some h \<Rightarrow> ih_protocol h = 1 \<and> length pkt > ih_header_len h \<and> pkt ! ih_header_len h = 8
      | None \<Rightarrow> False)"

text \<open>The sum of \<open>checksum\<close> is a \<open>u32\<close>, which wraps in a release build.\<close>

fun sum_words :: "bytes \<Rightarrow> u32" where
  "sum_words (a # b # r) = ucast (get16 [a, b]) + sum_words r"
| "sum_words [a] = ucast (get16 [a, 0])"
| "sum_words [] = 0"

lemma fold_carry_step: "unat ((s AND 0xffff) + drop_bit 16 s) = unat s mod 65536 + unat s div 65536"
  for s :: u32
proof -
  have d: "unat (drop_bit 16 s) = unat s div 65536" by (simp only: unat_drop_bit_eq) (simp add: drop_bit_eq_div)
  have "s AND 0xffff = take_bit 16 s" by (simp add: take_bit_eq_mask mask_eq_exp_minus_1)
  then have m: "unat (s AND 0xffff) = unat s mod 65536" by (simp only: unsigned_take_bit_eq) (simp add: take_bit_eq_mod)
  have "unat s < 2 ^ LENGTH(32)" by (rule unsigned_less)
  then have "unat (s AND 0xffff) + unat (drop_bit 16 s) < 2 ^ LENGTH(32)" unfolding m d by simp
  then show ?thesis unfolding m [symmetric] d [symmetric] by (rule unat_add_lem [THEN iffD1])
qed

lemma high_half: "drop_bit 16 s \<noteq> 0 \<longleftrightarrow> unat s \<ge> 65536" for s :: u32
proof -
  have "unat (drop_bit 16 s) = unat s div 65536" by (simp only: unat_drop_bit_eq) (simp add: drop_bit_eq_div)
  then have "drop_bit 16 s = 0 \<longleftrightarrow> unat s div 65536 = 0" by (simp flip: unat_eq_0)
  then show ?thesis by (simp add: div_eq_0_iff not_less)
qed

function fold_carry :: "u32 \<Rightarrow> u32" where
  "fold_carry s = (if drop_bit 16 s \<noteq> 0 then fold_carry ((s AND 0xffff) + drop_bit 16 s) else s)"
  by pat_completeness auto
termination
proof (relation "measure unat")
  fix s :: u32
  assume "drop_bit 16 s \<noteq> 0"
  then have "unat s div 65536 > 0" unfolding high_half by simp
  moreover have "unat s = unat s div 65536 * 65536 + unat s mod 65536" by simp
  ultimately have "unat s mod 65536 + unat s div 65536 < unat s" by linarith
  then show "((s AND 0xffff) + drop_bit 16 s, s) \<in> measure unat" by (simp add: fold_carry_step)
qed simp

declare fold_carry.simps [simp del]

definition checksum :: "bytes \<Rightarrow> u16" where
  "checksum data = NOT (ucast (fold_carry (sum_words data)))"

definition splice :: "nat \<Rightarrow> bytes \<Rightarrow> bytes \<Rightarrow> bytes" where
  "splice i xs out = take i out @ xs @ drop (i + length xs) out"

definition icmp_echo_reply :: "bytes \<Rightarrow> bytes option" where
  "icmp_echo_reply pkt =
     (case ipv4_header pkt of
        None \<Rightarrow> None
      | Some h \<Rightarrow>
          if ih_protocol h \<noteq> 1 \<or> ih_header_len h \<noteq> 20 then None
          else if length pkt < ih_header_len h + 8 \<or> pkt ! ih_header_len h \<noteq> 8 then None
          else
            let out1 = splice 16 (be32 (ih_src h)) (splice 12 (be32 (ih_dst h)) pkt);
                out2 = splice 10 [0, 0] out1;
                out3 = splice 10 (be16 (checksum (take (ih_header_len h) out2))) out2;
                out4 = splice (ih_header_len h) [0] out3;
                out5 = splice (ih_header_len h + 2) [0, 0] out4
            in Some (splice (ih_header_len h + 2) (be16 (checksum (drop (ih_header_len h) out5))) out5))"

section \<open>The address pool\<close>

record ip_pool =
  ip_subnet :: subnet
  ip_leased :: "(string, u32) fmap"
  ip_taken :: "u32 fset"
  ip_next :: nat

definition pool_new :: "subnet \<Rightarrow> ip_pool" where
  "pool_new sn = \<lparr>ip_subnet = sn, ip_leased = fmempty, ip_taken = {||}, ip_next = subnet_size sn - 2\<rparr>"

text \<open>The loop of \<open>acquire\<close>: the first free index from \<open>i\<close> down to 1.\<close>

fun pool_scan :: "ip_pool \<Rightarrow> nat \<Rightarrow> (nat \<times> u32) option" where
  "pool_scan p 0 = None"
| "pool_scan p (Suc k) =
     (case subnet_nth (ip_subnet p) (Suc k) of
        Some ip \<Rightarrow> if ip |\<notin>| ip_taken p then Some (Suc k, ip) else pool_scan p k
      | None \<Rightarrow> pool_scan p k)"

definition pool_acquire :: "string \<Rightarrow> ip_pool \<Rightarrow> ip_pool \<times> u32 option" where
  "pool_acquire owner p =
     (case fmlookup (ip_leased p) owner of
        Some ip \<Rightarrow> (p, Some ip)
      | None \<Rightarrow>
          (case pool_scan p (min (ip_next p) (subnet_size (ip_subnet p) - 2)) of
             None \<Rightarrow> (p, None)
           | Some (i, ip) \<Rightarrow>
               (p\<lparr>ip_leased := fmupd owner ip (ip_leased p), ip_taken := finsert ip (ip_taken p), ip_next := i - 1\<rparr>,
                Some ip)))"

definition pool_claim :: "string \<Rightarrow> u32 \<Rightarrow> ip_pool \<Rightarrow> ip_pool \<times> bool" where
  "pool_claim owner ip p =
     (if ip |\<in>| ip_taken p then (p, False)
      else
        let taken = (case fmlookup (ip_leased p) owner of
                       Some old \<Rightarrow> ip_taken p |-| {|old|} | None \<Rightarrow> ip_taken p)
        in (p\<lparr>ip_leased := fmupd owner ip (ip_leased p), ip_taken := finsert ip taken\<rparr>, True))"

definition pool_release :: "string \<Rightarrow> ip_pool \<Rightarrow> ip_pool" where
  "pool_release owner p =
     (case fmlookup (ip_leased p) owner of
        None \<Rightarrow> p
      | Some ip \<Rightarrow>
          let idx = unat (ip - sn_net (ip_subnet p));
              hi = subnet_size (ip_subnet p) - 2
          in p\<lparr>ip_leased := fmdrop owner (ip_leased p), ip_taken := ip_taken p |-| {|ip|},
               ip_next := (if idx > ip_next p \<and> idx \<le> hi then idx else ip_next p)\<rparr>)"

definition pool_get :: "string \<Rightarrow> ip_pool \<Rightarrow> u32 option" where
  "pool_get owner p = fmlookup (ip_leased p) owner"

definition leased_count :: "ip_pool \<Rightarrow> nat" where
  "leased_count p = fm_len (ip_leased p)"

section \<open>The switch\<close>

type_synonym switch = "(string, (u32, string) fmap) fmap"

definition switch_net :: "switch \<Rightarrow> string \<Rightarrow> (u32, string) fmap" where
  "switch_net s network = (case fmlookup s network of Some m \<Rightarrow> m | None \<Rightarrow> fmempty)"

definition switch_register :: "string \<Rightarrow> u32 \<Rightarrow> string \<Rightarrow> switch \<Rightarrow> switch \<times> string option" where
  "switch_register network ip client s =
     (fmupd network (fmupd ip client (switch_net s network)) s, fmlookup (switch_net s network) ip)"

definition switch_unregister :: "string \<Rightarrow> string \<Rightarrow> switch \<Rightarrow> switch" where
  "switch_unregister network client s =
     (case fmlookup s network of
        None \<Rightarrow> s | Some m \<Rightarrow> fmupd network (fm_retain (\<lambda>_ v. v \<noteq> client) m) s)"

definition switch_lookup :: "string \<Rightarrow> u32 \<Rightarrow> switch \<Rightarrow> string option" where
  "switch_lookup network dst s =
     (case fmlookup s network of None \<Rightarrow> None | Some m \<Rightarrow> fmlookup m dst)"

definition switch_len :: "string \<Rightarrow> switch \<Rightarrow> nat" where
  "switch_len network s = fm_len (switch_net s network)"

definition switch_ips_of :: "string \<Rightarrow> string \<Rightarrow> switch \<Rightarrow> u32 list" where
  "switch_ips_of network client s =
     sorted_list_of_fset (fmdom (fm_retain (\<lambda>_ o1. o1 = client) (switch_net s network)))"

section \<open>The registration line\<close>

datatype line_error = LineTooLong nat | LineEof

definition strip_crs :: "bytes \<Rightarrow> bytes" where
  "strip_crs line = rev (dropWhile (\<lambda>b. b = 13) (rev line))"

text \<open>\<open>read_json_line\<close> over the reads to come; the result holds the line, what is left in the
  buffer and the reads not made. A read of no bytes is the end of the stream.\<close>

fun read_json_line :: "nat \<Rightarrow> bytes \<Rightarrow> bytes list \<Rightarrow> line_error + bytes \<times> bytes \<times> bytes list" where
  "read_json_line maxlen buf chunks =
     (if 10 \<in> set buf then
        let i = length (takeWhile (\<lambda>b. b \<noteq> 10) buf) in Inr (strip_crs (take i buf), drop (i + 1) buf, chunks)
      else if length buf > maxlen then Inl (LineTooLong maxlen)
      else case chunks of
             [] \<Rightarrow> Inl LineEof
           | c # cs \<Rightarrow> if c = [] then Inl LineEof else read_json_line maxlen (buf @ c) cs)"

end
