(* ===== verification/Vnet_Facts.thy ===== *)
theory Vnet_Facts
  imports Vnet
begin

unbundle bit_operations_syntax

text \<open>
  What \<open>Vnet\<close> promises: frames survive any cut of the stream, the echo replies of the gateway
  are well-formed packets with valid checksums, subnets print and parse, and the address pool
  never gives an address twice and finds every free one.
\<close>

section \<open>Frames\<close>

definition vframe_ok :: "bytes \<Rightarrow> bool" where
  "vframe_ok p \<longleftrightarrow> p \<noteq> [] \<and> length p \<le> MAX_FRAME"

definition vframe_enc :: "bytes \<Rightarrow> bytes" where
  "vframe_enc p = rev (be32 (of_nat (length p))) @ p"

lemma vnet_encode_frame_ok: "vframe_ok p \<Longrightarrow> vnet_encode_frame p = Inr (vframe_enc p)"
  by (simp add: vframe_ok_def vframe_enc_def vnet_encode_frame_def)

lemma vframe_len: "vframe_ok p \<Longrightarrow> unat (of_nat (length p) :: u32) = length p"
  by (simp add: vframe_ok_def MAX_FRAME_def unat_of_nat)

interpretation vreader: frame_reader vnet_take_frame vframe_enc vframe_ok
proof
  show "vnet_take_frame [] = (Inr None, [])" by (simp add: vnet_take_frame_def)
next
  fix p rest
  assume ok: "vframe_ok p"
  then have "p \<noteq> []" "length p \<le> MAX_FRAME" by (simp_all add: vframe_ok_def)
  then show "vnet_take_frame (vframe_enc p @ rest) = (Inr (Some p), rest)"
    by (simp add: vnet_take_frame_def vframe_enc_def vframe_len [OF ok] Let_def)
next
  fix p k
  assume ok: "vframe_ok p" and k: "k < length (vframe_enc p)"
  then have p: "p \<noteq> []" "length p \<le> MAX_FRAME" by (simp_all add: vframe_ok_def)
  show "vnet_take_frame (take k (vframe_enc p)) = (Inr None, take k (vframe_enc p))"
  proof (cases "k < 4")
    case True
    then show ?thesis using k by (simp add: vnet_take_frame_def)
  next
    case False
    have t: "take k (vframe_enc p) = rev (be32 (of_nat (length p))) @ take (k - 4) p"
      using False by (simp add: vframe_enc_def)
    have "k - 4 < length p" using k False by (simp add: vframe_enc_def)
    then show ?thesis unfolding t using p
      by (simp add: vnet_take_frame_def vframe_len [OF ok] Let_def)
  qed
next
  fix p
  show "vframe_enc p \<noteq> []" by (simp add: vframe_enc_def)
qed

section \<open>Checksums\<close>

text \<open>The sum of the 16-bit words, and the sum with the carries added back in.\<close>

fun word_sum :: "bytes \<Rightarrow> nat" where
  "word_sum (a # b # r) = 256 * unat a + unat b + word_sum r"
| "word_sum [a] = 256 * unat a"
| "word_sum [] = 0"

definition carried :: "nat \<Rightarrow> nat" where
  "carried n = (if n = 0 then 0 else (n - 1) mod 65535 + 1)"

lemma unat_get16: "unat (get16 [a, b]) = 256 * unat a + unat b"
proof -
  have "unat (get16 [a, b]) = be_get [a, b] mod 2 ^ LENGTH(16)" unfolding get16_def by (rule unat_of_nat)
  then show ?thesis using byte_lt [of a] byte_lt [of b] by (simp add: be_get_def)
qed

lemma get16_pair: "(ucast (get16 [a, b]) :: u32) = of_nat (256 * unat a + unat b)"
  unfolding unat_get16 [symmetric] by (simp only: of_nat_unat)

lemma sum_words_nat: "sum_words xs = of_nat (word_sum xs)"
  by (induction xs rule: word_sum.induct) (simp_all only: sum_words.simps word_sum.simps get16_pair, simp_all)

lemma word_sum_bound: "word_sum xs \<le> 65535 * ((length xs + 1) div 2)"
proof (induction xs rule: word_sum.induct)
  case (1 a b r)
  have "256 * unat a + unat b \<le> 65535" using byte_lt [of a] byte_lt [of b] by simp
  moreover have "(length (a # b # r) + 1) div 2 = Suc ((length r + 1) div 2)" by simp
  ultimately show ?case using "1" by simp
next
  case (2 a)
  then show ?case using byte_lt [of a] by simp
qed simp

lemma unat_sum_words: "length xs \<le> 131072 \<Longrightarrow> unat (sum_words xs) = word_sum xs"
proof -
  assume "length xs \<le> 131072"
  then have "65535 * ((length xs + 1) div 2) \<le> 65535 * 65536" by (intro mult_le_mono) auto
  then have "word_sum xs < 4294967296" using word_sum_bound [of xs] by linarith
  then show ?thesis unfolding sum_words_nat by (simp add: unat_of_nat)
qed

lemma unat_fold_carry: "unat (fold_carry s) = carried (unat s)"
proof (induction s rule: fold_carry.induct)
  case (1 s)
  show ?case
  proof (cases "drop_bit 16 s \<noteq> 0")
    case True
    let ?n = "unat s" let ?m = "?n mod 65536 + ?n div 65536"
    have n: "?n \<ge> 65536" using True unfolding high_half .
    then have q: "?n div 65536 \<ge> 1" by simp
    have "?n = ?n div 65536 * 65536 + ?n mod 65536" by simp
    then have d: "?n - 1 = (?m - 1) + 65535 * (?n div 65536)" using q by linarith
    have "(?n - 1) mod 65535 = (?m - 1) mod 65535" unfolding d by simp
    moreover have "?m \<noteq> 0" using q by simp
    ultimately have "carried ?n = carried ?m" using n by (simp add: carried_def)
    then show ?thesis using True "1" [OF True] by (subst fold_carry.simps) (simp add: fold_carry_step)
  next
    case False
    then have "unat s \<le> 65535" unfolding high_half by simp
    then show ?thesis using False by (subst fold_carry.simps) (auto simp: carried_def)
  qed
qed

lemma carried_le: "carried n \<le> 65535"
  using pos_mod_bound [of 65535] by (auto simp: carried_def Suc_le_eq)

lemma unat_checksum: "unat (checksum xs) = 65535 - carried (unat (sum_words xs))"
proof -
  let ?f = "fold_carry (sum_words xs)"
  have "unat ?f < 65536" using carried_le [of "unat (sum_words xs)"] by (simp add: unat_fold_carry)
  moreover have "unat (ucast ?f :: u16) = take_bit LENGTH(16) (unat ?f)" by (rule unsigned_ucast_eq)
  ultimately have "unat (ucast ?f :: u16) = unat ?f" by (simp add: take_bit_nat_eq_self)
  moreover have "unat (NOT x) = 65535 - unat x" for x :: u16
  proof -
    have "NOT x = - 1 - x" by (simp add: not_eq_complement)
    moreover have "unat (- 1 - x) = unat (- 1 :: u16) - unat x" by (rule unat_sub) (simp add: word_order.extremum)
    moreover have "unat (- 1 :: u16) = 65535" by (simp add: unsigned_minus_1_eq_mask mask_eq_exp_minus_1)
    ultimately show ?thesis by simp
  qed
  ultimately show ?thesis by (simp add: checksum_def unat_fold_carry)
qed

lemma word_sum_append: "even (length xs) \<Longrightarrow> word_sum (xs @ ys) = word_sum xs + word_sum ys"
  by (induction xs rule: word_sum.induct) auto

lemma word_sum_be16: "word_sum (be16 c @ ys) = unat c + word_sum ys"
proof -
  obtain a b where ab: "be16 c = [a, b]" using be16_split by blast
  have "c = get16 [a, b]" using get_be(1) [of c] by (simp only: ab)
  then have "unat c = 256 * unat a + unat b" by (simp only: unat_get16)
  then show ?thesis by (simp add: ab)
qed

lemma carried_complement: "carried (n + (65535 - carried n)) = 65535"
proof (cases n)
  case (Suc m)
  define d r where "d = m div 65535" and "r = m mod 65535"
  have "m = 65535 * d + r" "r < 65535" by (simp_all add: d_def r_def)
  moreover have "carried n = r + 1" by (simp add: carried_def Suc r_def)
  ultimately have "n + (65535 - carried n) = 65535 * d + 65535" using Suc by simp
  moreover have "(65535 * d + 65534) mod 65535 = 65534" by (subst mod_mult_self4) simp
  ultimately show ?thesis by (simp add: carried_def)
qed (simp add: carried_def)

text \<open>Data whose checksum field holds the checksum computed over zeros verifies.\<close>

lemma checksum_verifies:
  assumes "even (length xs)" "length xs + length ys + 2 \<le> 131072"
  shows "checksum (xs @ be16 (checksum (xs @ [0, 0] @ ys)) @ ys) = 0"
proof -
  let ?S = "word_sum xs + word_sum ys"
  define k where "k = checksum (xs @ [0, 0] @ ys)"
  have c: "unat k = 65535 - carried ?S"
  proof -
    have "word_sum (xs @ [0, 0] @ ys) = ?S" using word_sum_append [OF assms(1), of "[0, 0] @ ys"] by simp
    moreover have "unat (sum_words (xs @ [0, 0] @ ys)) = word_sum (xs @ [0, 0] @ ys)"
      by (rule unat_sum_words) (use assms(2) in simp)
    ultimately show ?thesis by (simp only: k_def unat_checksum)
  qed
  have "unat (sum_words (xs @ be16 k @ ys)) = ?S + (65535 - carried ?S)"
    using assms by (subst unat_sum_words) (simp_all add: word_sum_append word_sum_be16 c)
  moreover have "carried (?S + (65535 - carried ?S)) = 65535" by (rule carried_complement)
  ultimately have "unat (checksum (xs @ be16 k @ ys)) = 0" by (simp add: unat_checksum)
  then show ?thesis unfolding k_def by (simp add: unat_eq_0)
qed

section \<open>Echo replies\<close>

text \<open>The fields of an IPv4 packet without options that holds an ICMP header.\<close>

lemma pkt_fields:
  assumes "length pkt \<ge> 28"
  obtains p x s d ty co u t where "pkt = p @ x @ s @ d @ [ty, co] @ u @ t"
    "length p = 10" "length x = 2" "length s = 4" "length d = 4" "length u = 2"
proof -
  have "length (take 2 (drop 20 pkt)) = 2" using assms by simp
  then obtain ty co where tc: "take 2 (drop 20 pkt) = [ty, co]" using length_two by blast
  have "pkt = take 10 pkt @ take 2 (drop 10 pkt) @ take 4 (drop 12 pkt) @ take 4 (drop 16 pkt)
      @ take 2 (drop 20 pkt) @ take 2 (drop 22 pkt) @ drop 24 pkt"
    using append_take_drop_id [of 10 pkt] append_take_drop_id [of 2 "drop 10 pkt"]
      append_take_drop_id [of 4 "drop 12 pkt"] append_take_drop_id [of 4 "drop 16 pkt"]
      append_take_drop_id [of 2 "drop 20 pkt"] append_take_drop_id [of 2 "drop 22 pkt"] by simp
  then show thesis using tc assms
    by (intro that [of "take 10 pkt" "take 2 (drop 10 pkt)" "take 4 (drop 12 pkt)" "take 4 (drop 16 pkt)"
          ty co "take 2 (drop 22 pkt)" "drop 24 pkt"]) simp_all
qed

lemma ipv4_header_fields:
  assumes "length p = 10" "length x = 2" "length s = 4" "length d = 4"
  shows "ipv4_header (p @ x @ s @ d @ r) =
    (if drop_bit 4 (p ! 0) \<noteq> 4 then None
     else let n = unat (p ! 0 AND 0x0f) * 4 in
       if n < 20 \<or> 20 + length r < n then None
       else Some \<lparr>ih_src = get32 s, ih_dst = get32 d, ih_protocol = p ! 9, ih_header_len = n\<rparr>)"
  using assms by (simp add: ipv4_header_def nth_append Let_def)

lemma be32_get32: "length s = 4 \<Longrightarrow> be32 (get32 s) = s"
proof -
  assume l: "length s = 4"
  then have "be_get s < 2 ^ LENGTH(32)" using be_get_bound [of s] by simp
  then have "unat (get32 s) = be_get s" by (simp only: get32_def unat_of_nat mod_less)
  then show ?thesis using be_put_get [of s] by (simp add: be32_def l)
qed

lemma splice_at: "length a = i \<Longrightarrow> length b = length xs \<Longrightarrow> splice i xs (a @ b @ c) = a @ xs @ c"
  by (simp add: splice_def)

lemma icmp_echo_reply_fields:
  assumes "length p = 10" "length x = 2" "length s = 4" "length d = 4" "length u = 2"
    and "icmp_echo_reply (p @ x @ s @ d @ [ty, co] @ u @ t) = Some out"
  shows "out = p @ be16 (checksum (p @ [0, 0] @ d @ s)) @ d @ s @ [0, co]
      @ be16 (checksum ([0, co] @ [0, 0] @ t)) @ t"
    and "drop_bit 4 (p ! 0) = 4" "unat (p ! 0 AND 0x0f) * 4 = 20" "p ! 9 = 1" "ty = 8"
proof -
  let ?pkt = "p @ x @ s @ d @ [ty, co] @ u @ t"
  obtain h where h: "ipv4_header ?pkt = Some h" using assms(6) by (auto simp: icmp_echo_reply_def split: option.splits)
  then have "ih_protocol h = 1" "ih_header_len h = 20" "ty = 8"
    using assms by (auto simp: icmp_echo_reply_def nth_append split: if_splits)
  with h show k: "drop_bit 4 (p ! 0) = 4" "unat (p ! 0 AND 0x0f) * 4 = 20" "p ! 9 = 1" "ty = 8"
    using ipv4_header_fields [OF assms(1-4), of "[ty, co] @ u @ t"] by (auto simp: Let_def split: if_splits)
  then have hd: "ipv4_header ?pkt = Some \<lparr>ih_src = get32 s, ih_dst = get32 d, ih_protocol = 1, ih_header_len = 20\<rparr>"
    using ipv4_header_fields [OF assms(1-4), of "[ty, co] @ u @ t"] by (simp add: Let_def)
  have n: "?pkt ! 20 = ty" using assms(1-4) by (simp add: nth_append)
  have out: "Some out = (let out1 = splice 16 (be32 (get32 s)) (splice 12 (be32 (get32 d)) ?pkt);
        out2 = splice 10 [0, 0] out1;
        out3 = splice 10 (be16 (checksum (take 20 out2))) out2;
        out4 = splice 20 [0] out3;
        out5 = splice 22 [0, 0] out4
      in Some (splice 22 (be16 (checksum (drop 20 out5))) out5))"
    using assms(6) unfolding icmp_echo_reply_def hd option.case ip_header.simps n Let_def by (simp split: if_splits)
  have e1: "splice 16 (be32 (get32 s)) (splice 12 (be32 (get32 d)) ?pkt) = p @ x @ d @ s @ [ty, co] @ u @ t"
    using splice_at [of "p @ x" 12 s d "d @ [ty, co] @ u @ t"] splice_at [of "p @ x @ d" 16 d s "[ty, co] @ u @ t"] assms(1-5)
    by (simp add: be32_get32)
  have e2: "splice 10 [0, 0] (p @ x @ r) = p @ [0, 0] @ r" "splice 10 (be16 c) (p @ [0, 0] @ r) = p @ be16 c @ r" for r c
    using splice_at [of p 10 x "[0, 0]" r] splice_at [of p 10 "[0, 0]" "be16 c" r] assms(1,2) by simp_all
  have e3: "splice 20 [0] (p @ be16 c @ d @ s @ [ty, co] @ r) = p @ be16 c @ d @ s @ [0, co] @ r"
    "splice 22 v (p @ be16 c @ d @ s @ [0, co] @ w @ t) = p @ be16 c @ d @ s @ [0, co] @ v @ t"
    if "length w = length v" for r c v w
    using splice_at [of "p @ be16 c @ d @ s" 20 "[ty]" "[0]" "co # r"]
      splice_at [of "p @ be16 c @ d @ s @ [0, co]" 22 w v t] assms(1,3,4) that by simp_all
  have e4: "take 20 (p @ [0, 0] @ d @ s @ r) = p @ [0, 0] @ d @ s" "drop 20 (p @ be16 c @ d @ s @ r) = r" for r c
    using assms(1,3,4) by simp_all
  show "out = p @ be16 (checksum (p @ [0, 0] @ d @ s)) @ d @ s @ [0, co]
      @ be16 (checksum ([0, co] @ [0, 0] @ t)) @ t"
    using out assms(5) unfolding Let_def e1 e2 e4 by (simp add: e3 e4 assms(1,3,4) del: append_Cons)
qed

lemma icmp_echo_reply_length:
  assumes "icmp_echo_reply pkt = Some out"
  shows "length pkt \<ge> 28"
proof -
  obtain h where h: "ipv4_header pkt = Some h"
    using assms by (cases "ipv4_header pkt") (simp_all add: icmp_echo_reply_def)
  have "\<not> (ih_protocol h \<noteq> 1 \<or> ih_header_len h \<noteq> 20)" by (rule notI) (use assms h in \<open>simp add: icmp_echo_reply_def\<close>)
  moreover have "\<not> (length pkt < ih_header_len h + 8 \<or> pkt ! ih_header_len h \<noteq> 8)"
    by (rule notI) (use assms h in \<open>simp add: icmp_echo_reply_def split: if_splits\<close>)
  ultimately show ?thesis by simp
qed

section \<open>Subnets\<close>

definition subnet_ok :: "subnet \<Rightarrow> bool" where
  "subnet_ok sn \<longleftrightarrow> unat (sn_prefix sn) \<le> 32 \<and> sn_net sn AND subnet_mask (sn_prefix sn) = sn_net sn"

lemma subnet_parse_ok: "subnet_parse s = Inr sn \<Longrightarrow> subnet_ok sn"
  by (auto simp: subnet_parse_def Let_def res_bind_def ok_or_def subnet_ok_def word_le_nat_alt not_less
      split: option.splits sum.splits if_splits)

lemma subnet_size_bound: "subnet_size sn \<le> 4294967296" "subnet_size sn > 0"
proof -
  have "(2::nat) ^ (32 - unat (sn_prefix sn)) \<le> 2 ^ 32" by (rule power_increasing) simp_all
  then show "subnet_size sn \<le> 4294967296" by (simp add: subnet_size_def)
qed (simp add: subnet_size_def)

lemma subnet_nth_index: "subnet_nth sn i = Some ip \<Longrightarrow> i < subnet_size sn \<and> unat (ip - sn_net sn) = i"
  using subnet_size_bound(1) [of sn] by (auto simp: subnet_nth_def unat_of_nat split: if_splits)

section \<open>The address pool\<close>

definition pool_hi :: "ip_pool \<Rightarrow> nat" where
  "pool_hi p = subnet_size (ip_subnet p) - 2"

definition free_at :: "ip_pool \<Rightarrow> nat \<Rightarrow> bool" where
  "free_at p i \<longleftrightarrow> 1 \<le> i \<and> i \<le> pool_hi p \<and> (\<exists>ip. subnet_nth (ip_subnet p) i = Some ip \<and> ip |\<notin>| ip_taken p)"

text \<open>What is taken is leased, nothing is leased twice, and no free address is above the cursor.\<close>

definition pool_ok :: "ip_pool \<Rightarrow> bool" where
  "pool_ok p \<longleftrightarrow>
     (\<forall>ip. ip |\<in>| ip_taken p \<longleftrightarrow> (\<exists>o1. pool_get o1 p = Some ip))
     \<and> (\<forall>a b ip. pool_get a p = Some ip \<and> pool_get b p = Some ip \<longrightarrow> a = b)
     \<and> (\<forall>i. free_at p i \<longrightarrow> i \<le> ip_next p)"

lemma some_owner_upd:
  "g a = None \<Longrightarrow> (\<exists>o1. (if o1 = a then Some ip else g o1) = Some q) \<longleftrightarrow> q = ip \<or> (\<exists>o1. g o1 = Some q)"
  by (metis option.distinct(1) option.inject)

lemma pool_scan_Some:
  "pool_scan p n = Some (i, ip) \<Longrightarrow>
     1 \<le> i \<and> i \<le> n \<and> subnet_nth (ip_subnet p) i = Some ip \<and> ip |\<notin>| ip_taken p
     \<and> (\<forall>j. i < j \<and> j \<le> n \<longrightarrow> \<not> free_at p j)"
proof (induction n)
  case (Suc n)
  show ?case
  proof (cases "pool_scan p (Suc n) = pool_scan p n \<and> (\<forall>a. subnet_nth (ip_subnet p) (Suc n) = Some a \<longrightarrow> a |\<in>| ip_taken p)")
    case True
    then have "\<not> free_at p (Suc n)" by (auto simp: free_at_def)
    then show ?thesis using Suc.IH Suc.prems True by (metis le_Suc_eq)
  next
    case False
    then show ?thesis using Suc.prems by (auto split: option.splits if_splits)
  qed
qed simp

lemma pool_scan_None: "pool_scan p n = None \<Longrightarrow> 1 \<le> j \<Longrightarrow> j \<le> n \<Longrightarrow> \<not> free_at p j"
proof (induction n)
  case (Suc n)
  then show ?case by (cases "j = Suc n") (auto simp: free_at_def split: option.splits if_splits)
qed simp

lemma pool_new_ok: "pool_ok (pool_new sn)"
  by (simp add: pool_ok_def pool_new_def pool_get_def free_at_def pool_hi_def)

lemma pool_acquire_Some:
  assumes ok: "pool_ok p" and new: "pool_get a p = None" and acq: "pool_acquire a p = (p', Some ip)"
  shows "pool_ok p'" "pool_get o1 p' = (if o1 = a then Some ip else pool_get o1 p)" "pool_get o1 p \<noteq> Some ip"
    "\<exists>i. 1 \<le> i \<and> i \<le> pool_hi p \<and> subnet_nth (ip_subnet p) i = Some ip"
    "ip_subnet p' = ip_subnet p"
proof -
  obtain i where i: "pool_scan p (min (ip_next p) (pool_hi p)) = Some (i, ip)"
    and p': "p' = p\<lparr>ip_leased := fmupd a ip (ip_leased p), ip_taken := finsert ip (ip_taken p), ip_next := i - 1\<rparr>"
    using new acq by (auto simp: pool_acquire_def pool_get_def pool_hi_def split: option.splits)
  note S = pool_scan_Some [OF i]
  show g: "pool_get o1 p' = (if o1 = a then Some ip else pool_get o1 p)" for o1 by (simp add: p' pool_get_def)
  show n: "pool_get o1 p \<noteq> Some ip" for o1 using ok S by (auto simp: pool_ok_def)
  have "j \<le> ip_next p'" if "free_at p' j" for j
  proof -
    have j: "free_at p j" "subnet_nth (ip_subnet p) j \<noteq> Some ip"
      using that by (auto simp: free_at_def p' pool_hi_def)
    then have "j \<le> ip_next p" "j \<le> pool_hi p" using ok by (auto simp: pool_ok_def free_at_def)
    then have "j \<le> i" using S j(1) by (meson min.boundedI not_less)
    moreover have "j \<noteq> i" using j(2) S by auto
    ultimately show ?thesis by (simp add: p')
  qed
  then show "pool_ok p'" using ok n new unfolding pool_ok_def g some_owner_upd [of "\<lambda>o1. pool_get o1 p", OF new]
    by (auto simp: p')
  show "\<exists>i. 1 \<le> i \<and> i \<le> pool_hi p \<and> subnet_nth (ip_subnet p) i = Some ip" using S by auto
  show "ip_subnet p' = ip_subnet p" by (simp add: p')
qed

text \<open>An automatic address is refused only when every address for hosts is leased.\<close>

lemma pool_acquire_None:
  assumes "pool_ok p" "pool_get a p = None"
  shows "snd (pool_acquire a p) = None \<longleftrightarrow> (\<forall>i. \<not> free_at p i)"
proof -
  have s: "pool_scan p (min (ip_next p) (pool_hi p)) = None \<longleftrightarrow> (\<forall>i. \<not> free_at p i)"
  proof
    assume n: "pool_scan p (min (ip_next p) (pool_hi p)) = None"
    show "\<forall>i. \<not> free_at p i"
    proof (intro allI notI)
      fix i assume f: "free_at p i"
      then have "1 \<le> i" "i \<le> min (ip_next p) (pool_hi p)" using assms(1) by (auto simp: pool_ok_def free_at_def)
      then show False using pool_scan_None [OF n] f by blast
    qed
  next
    assume f: "\<forall>i. \<not> free_at p i"
    show "pool_scan p (min (ip_next p) (pool_hi p)) = None"
    proof (rule ccontr)
      assume "\<not> ?thesis"
      then obtain i ip where "pool_scan p (min (ip_next p) (pool_hi p)) = Some (i, ip)" by force
      from pool_scan_Some [OF this] f show False by (auto simp: free_at_def)
    qed
  qed
  then show ?thesis using assms(2) by (auto simp: pool_acquire_def pool_get_def pool_hi_def split: option.splits)
qed

lemma pool_claim_ok:
  assumes ok: "pool_ok p" and new: "pool_get a p = None"
  shows "snd (pool_claim a ip p) \<longleftrightarrow> (\<forall>o1. pool_get o1 p \<noteq> Some ip)"
    and "snd (pool_claim a ip p) \<Longrightarrow> pool_ok (fst (pool_claim a ip p))"
    and "snd (pool_claim a ip p) \<Longrightarrow> pool_get o1 (fst (pool_claim a ip p)) = (if o1 = a then Some ip else pool_get o1 p)"
    and "\<not> snd (pool_claim a ip p) \<Longrightarrow> fst (pool_claim a ip p) = p"
    and "ip_subnet (fst (pool_claim a ip p)) = ip_subnet p"
proof -
  have n: "fmlookup (ip_leased p) a = None" using new by (simp add: pool_get_def)
  show "snd (pool_claim a ip p) \<longleftrightarrow> (\<forall>o1. pool_get o1 p \<noteq> Some ip)"
    using ok by (auto simp: pool_claim_def pool_ok_def)
  show g: "pool_get o1 (fst (pool_claim a ip p)) = (if o1 = a then Some ip else pool_get o1 p)"
    if "snd (pool_claim a ip p)" for o1
    using that by (auto simp: pool_claim_def pool_get_def split: if_splits)
  show "pool_ok (fst (pool_claim a ip p))" if c: "snd (pool_claim a ip p)"
  proof -
    have t: "ip_taken (fst (pool_claim a ip p)) = finsert ip (ip_taken p)" "ip |\<notin>| ip_taken p"
      using c n by (auto simp: pool_claim_def split: if_splits)
    have "free_at (fst (pool_claim a ip p)) i \<Longrightarrow> free_at p i" for i
      using c n by (auto simp: free_at_def pool_hi_def pool_claim_def split: if_splits)
    moreover have "ip_next (fst (pool_claim a ip p)) = ip_next p" by (simp add: pool_claim_def Let_def)
    ultimately show ?thesis using ok t(2) new
      unfolding pool_ok_def g [OF c] t(1) some_owner_upd [of "\<lambda>o1. pool_get o1 p", OF new] by auto
  qed
qed (auto simp: pool_claim_def Let_def)

lemma pool_release_ok:
  assumes ok: "pool_ok p"
  shows "pool_get o1 (pool_release a p) = (if o1 = a then None else pool_get o1 p)"
    and "pool_ok (pool_release a p)"
    and "ip_subnet (pool_release a p) = ip_subnet p"
proof -
  show g: "pool_get o1 (pool_release a p) = (if o1 = a then None else pool_get o1 p)" for o1
    by (auto simp: pool_release_def pool_get_def Let_def split: option.splits)
  show "pool_ok (pool_release a p)"
  proof (cases "pool_get a p")
    case None
    then show ?thesis using ok by (simp add: pool_release_def pool_get_def)
  next
    case (Some ip)
    let ?q = "pool_release a p"
    have q: "ip_taken ?q = ip_taken p |-| {|ip|}" "ip_subnet ?q = ip_subnet p" "pool_hi ?q = pool_hi p"
      and nx: "ip_next ?q = (let idx = unat (ip - sn_net (ip_subnet p)) in
          if idx > ip_next p \<and> idx \<le> pool_hi p then idx else ip_next p)"
      using Some by (simp_all add: pool_release_def pool_get_def pool_hi_def Let_def)
    have "i \<le> ip_next ?q" if f: "free_at ?q i" for i
    proof (cases "free_at p i")
      case True
      then have "i \<le> ip_next p" using ok by (simp add: pool_ok_def)
      then show ?thesis by (auto simp: nx Let_def)
    next
      case False
      then have "subnet_nth (ip_subnet p) i = Some ip" "i \<le> pool_hi p" using f q by (auto simp: free_at_def)
      then show ?thesis using subnet_nth_index by (auto simp: nx Let_def)
    qed
    moreover have "(\<exists>o1. (if o1 = a then None else pool_get o1 p) = Some x) \<longleftrightarrow> x \<noteq> ip \<and> (\<exists>o1. pool_get o1 p = Some x)" for x
    proof -
      have "pool_get o1 p = Some ip \<longleftrightarrow> o1 = a" for o1 using ok Some unfolding pool_ok_def by blast
      then show ?thesis by (metis option.distinct(1) option.inject)
    qed
    ultimately show ?thesis using ok unfolding pool_ok_def g q(1) by auto
  qed
qed (simp add: pool_release_def Let_def split: option.splits)

section \<open>The contract of a lease table\<close>

text \<open>What the hub relies on: an owner without a lease gets an address nobody has, from the hosts of
  the subnet unless it asked for one, and giving it back changes nothing else.\<close>

locale lease_table =
  fixes ok :: "'p \<Rightarrow> bool" and lease :: "string \<Rightarrow> 'p \<Rightarrow> u32 option" and host :: "'p \<Rightarrow> u32 \<Rightarrow> bool"
    and acquire :: "string \<Rightarrow> 'p \<Rightarrow> 'p \<times> u32 option"
    and claim :: "string \<Rightarrow> u32 \<Rightarrow> 'p \<Rightarrow> 'p \<times> bool"
    and release :: "string \<Rightarrow> 'p \<Rightarrow> 'p"
  assumes lease_inj: "ok p \<Longrightarrow> lease a p = Some ip \<Longrightarrow> lease b p = Some ip \<Longrightarrow> a = b"
    and acquire_Some: "ok p \<Longrightarrow> lease a p = None \<Longrightarrow> acquire a p = (p', Some ip) \<Longrightarrow>
        ok p' \<and> lease c p' = (if c = a then Some ip else lease c p) \<and> lease c p \<noteq> Some ip
        \<and> host p ip \<and> host p' = host p"
    and acquire_None: "acquire a p = (p', None) \<Longrightarrow> p' = p"
    and acquire_full: "ok p \<Longrightarrow> lease a p = None \<Longrightarrow>
        snd (acquire a p) = None \<longleftrightarrow> (\<forall>ip. host p ip \<longrightarrow> (\<exists>c. lease c p = Some ip))"
    and claim_iff: "ok p \<Longrightarrow> lease a p = None \<Longrightarrow> claim a ip p = (p', won) \<Longrightarrow>
        (won \<longleftrightarrow> (\<forall>c. lease c p \<noteq> Some ip)) \<and> (\<not> won \<longrightarrow> p' = p)
        \<and> (won \<longrightarrow> ok p' \<and> lease c p' = (if c = a then Some ip else lease c p) \<and> host p' = host p)"
    and release_lease: "ok p \<Longrightarrow> ok (release a p)
        \<and> lease c (release a p) = (if c = a then None else lease c p) \<and> host (release a p) = host p"
begin

text \<open>An address that is given back can be claimed again.\<close>

lemma claim_released:
  assumes "ok p" "lease a p = Some ip" "lease b (release a p) = None"
  shows "snd (claim b ip (release a p))"
proof -
  have "ok (release a p)" "\<And>c. lease c (release a p) \<noteq> Some ip"
    using release_lease [OF assms(1)] lease_inj [OF assms(1,2)] by auto
  then show ?thesis using claim_iff [OF _ assms(3), of ip "fst (claim b ip (release a p))" "snd (claim b ip (release a p))"]
    by (metis prod.collapse)
qed

text \<open>An owner that leaves makes room: the next automatic address does not fail.\<close>

lemma acquire_after_release:
  assumes "ok p" "lease a p = Some ip" "host p ip" "lease b (release a p) = None"
  shows "snd (acquire b (release a p)) \<noteq> None"
proof -
  have r: "ok (release a p)" "host (release a p) ip" "\<And>c. lease c (release a p) \<noteq> Some ip"
    using release_lease [OF assms(1)] lease_inj [OF assms(1,2)] assms(3) by auto
  then show ?thesis using acquire_full [OF r(1) assms(4)] by auto
qed

end

definition pool_host :: "ip_pool \<Rightarrow> u32 \<Rightarrow> bool" where
  "pool_host p ip \<longleftrightarrow> (\<exists>i. 1 \<le> i \<and> i \<le> pool_hi p \<and> subnet_nth (ip_subnet p) i = Some ip)"

lemma pool_host_cong: "ip_subnet p = ip_subnet q \<Longrightarrow> pool_host p = pool_host q"
  by (simp add: pool_host_def pool_hi_def fun_eq_iff)

interpretation lt: lease_table pool_ok pool_get pool_host pool_acquire pool_claim pool_release
proof
  fix p a b ip assume "pool_ok p" "pool_get a p = Some ip" "pool_get b p = Some ip"
  then show "a = b" by (auto simp: pool_ok_def)
next
  fix p p' a c ip assume a: "pool_ok p" "pool_get a p = None" "pool_acquire a p = (p', Some ip)"
  note S = pool_acquire_Some [OF a]
  show "pool_ok p' \<and> pool_get c p' = (if c = a then Some ip else pool_get c p) \<and> pool_get c p \<noteq> Some ip
      \<and> pool_host p ip \<and> pool_host p' = pool_host p"
    using S(1,3,4) S(2) [of c] pool_host_cong [OF S(5)] by (auto simp: pool_host_def)
next
  fix a p p' assume "pool_acquire a p = (p', None)"
  then show "p' = p" by (auto simp: pool_acquire_def split: option.splits)
next
  fix p a assume a: "pool_ok p" "pool_get a p = None"
  show "snd (pool_acquire a p) = None \<longleftrightarrow> (\<forall>ip. pool_host p ip \<longrightarrow> (\<exists>c. pool_get c p = Some ip))"
    unfolding pool_acquire_None [OF a] using a(1)
    by (auto simp: free_at_def pool_host_def pool_ok_def)
next
  fix p p' a c ip won assume a: "pool_ok p" "pool_get a p = None" "pool_claim a ip p = (p', won)"
  note S = pool_claim_ok [OF a(1,2), where ip = ip, unfolded a(3) fst_conv snd_conv]
  show "(won \<longleftrightarrow> (\<forall>c. pool_get c p \<noteq> Some ip)) \<and> (\<not> won \<longrightarrow> p' = p)
      \<and> (won \<longrightarrow> pool_ok p' \<and> pool_get c p' = (if c = a then Some ip else pool_get c p) \<and> pool_host p' = pool_host p)"
    using S(1,2,3,4) pool_host_cong [OF S(5)] by blast
next
  fix p a c assume a: "pool_ok p"
  show "pool_ok (pool_release a p) \<and> pool_get c (pool_release a p) = (if c = a then None else pool_get c p)
      \<and> pool_host (pool_release a p) = pool_host p"
    using pool_release_ok [OF a] pool_host_cong [of "pool_release a p" p] by blast
qed

section \<open>Properties\<close>

text \<open>Packets survive any cut of the stream. However the frames of a sequence of packets (none
  empty, none longer than 1 MiB) are divided into reads, the reader delivers these packets, in
  order, with nothing left over.\<close>

theorem vnet_frames_any_chunking:
  assumes "list_all (\<lambda>p. p \<noteq> [] \<and> length p \<le> 1024 * 1024) ps"
    and "map vnet_encode_frame ps = map Inr fs" "concat chunks = concat fs"
  shows "feed_chunks vnet_take_frame [] chunks = (Inr ps, [])"
proof (rule vreader.feed_stream)
  show ok: "list_all vframe_ok ps" using assms(1) by (simp add: vframe_ok_def MAX_FRAME_def list_all_iff)
  then have "map vnet_encode_frame ps = map (\<lambda>p. Inr (vframe_enc p)) ps"
    by (intro map_cong) (auto simp: list_all_iff vnet_encode_frame_ok)
  then have "map Inr fs = (map Inr (map vframe_enc ps) :: (vframe_error + bytes) list)" using assms(2) by simp
  then have "fs = map vframe_enc ps" by (metis inj_Inr inj_map_eq_map)
  then show "concat chunks = concat (map vframe_enc ps)" using assms(3) by simp
qed

theorem vnet_frames_any_chunking_witness:
  "feed_chunks vnet_take_frame [] [[3, 0], [0, 0, 7], [8, 9, 1, 0, 0, 0, 5]] = (Inr [[7, 8, 9], [5]], [])"
proof (rule vnet_frames_any_chunking)
  have "be32 3 = [0, 0, 0, 3]" "be32 1 = [0, 0, 0, 1]" by code_simp+
  then show "map vnet_encode_frame [[7, 8, 9], [5]] = map Inr [[3, 0, 0, 0, 7, 8, 9], [1, 0, 0, 0, 5]]"
    by (simp add: vnet_encode_frame_def MAX_FRAME_def)
qed simp_all

text \<open>C17: the gateway answers pings with valid packets. The reply to a packet of at most 64 KiB is a
  packet of the same length from the pinged address to the sender; its type is an echo reply, its
  header and its message verify against their checksums, and identifier, sequence number and data
  are those of the request.\<close>

theorem vnet_echo_reply_valid:
  assumes "icmp_echo_reply pkt = Some out" "length pkt \<le> 65536"
  shows "\<exists>h. ipv4_header pkt = Some h \<and> ipv4_header out = Some (h\<lparr>ih_src := ih_dst h, ih_dst := ih_src h\<rparr>)
    \<and> is_icmp_echo_request pkt \<and> length out = length pkt
    \<and> checksum (take 20 out) = 0 \<and> checksum (drop 20 out) = 0
    \<and> take 10 out = take 10 pkt \<and> take 2 (drop 20 out) = [0, pkt ! 21] \<and> drop 24 out = drop 24 pkt"
proof -
  obtain p x s d ty co u t where pkt: "pkt = p @ x @ s @ d @ [ty, co] @ u @ t"
    and l: "length p = 10" "length x = 2" "length s = 4" "length d = 4" "length u = 2"
    using icmp_echo_reply_length [OF assms(1)] by (rule pkt_fields)
  note F = icmp_echo_reply_fields [OF l assms(1) [unfolded pkt]]
  let ?c = "checksum (p @ [0, 0] @ d @ s)" and ?e = "checksum ([0, co] @ [0, 0] @ t)"
  have len: "length t \<le> 65536" using assms(2) by (simp add: pkt)
  have h: "ipv4_header pkt = Some \<lparr>ih_src = get32 s, ih_dst = get32 d, ih_protocol = 1, ih_header_len = 20\<rparr>"
    unfolding pkt using ipv4_header_fields [OF l(1-4), of "[ty, co] @ u @ t"] F(2-4) by (simp add: Let_def)
  have h2: "ipv4_header out = Some \<lparr>ih_src = get32 d, ih_dst = get32 s, ih_protocol = 1, ih_header_len = 20\<rparr>"
    unfolding F(1) using ipv4_header_fields [of p "be16 ?c" d s "[0, co] @ be16 ?e @ t"] F(2-4) l by (simp add: Let_def)
  have "checksum (p @ be16 ?c @ (d @ s)) = 0" by (rule checksum_verifies) (use l in simp_all)
  moreover have "take 20 out = p @ be16 ?c @ d @ s" unfolding F(1) using l by simp
  ultimately have c: "checksum (take 20 out) = 0" by simp
  have "checksum ([0, co] @ be16 ?e @ t) = 0" by (rule checksum_verifies) (use len in simp_all)
  moreover have "drop 20 out = [0, co] @ be16 ?e @ t" unfolding F(1) using l by simp
  ultimately have e: "checksum (drop 20 out) = 0" by simp
  have r: "take 10 out = p" "drop 24 out = t" "length out = length pkt" "take 2 (drop 20 out) = [0, co]"
    unfolding F(1) pkt using l by simp_all
  have q: "take 10 pkt = p" "drop 24 pkt = t" "pkt ! 21 = co" "pkt ! 20 = 8" "length pkt > 20"
    unfolding pkt using l F(5) by (simp_all add: nth_append)
  have "is_icmp_echo_request pkt" unfolding is_icmp_echo_request_def h using q(4,5) by simp
  then show ?thesis using h h2 c e r q by simp
qed

definition demo_ping :: bytes where
  "demo_ping = [69, 0, 0, 29, 0, 1, 0, 0, 64, 1, 0, 0, 0, 0, 0, 6, 0, 0, 0, 1, 8, 0, 0, 0, 0, 7, 0, 1, 255]"

theorem vnet_echo_reply_valid_witness:
  "\<exists>out. icmp_echo_reply demo_ping = Some out \<and> checksum (take 20 out) = 0 \<and> checksum (drop 20 out) = 0"
proof -
  have "icmp_echo_reply demo_ping \<noteq> None" by (simp add: demo_ping_def icmp_echo_reply_def ipv4_header_def Let_def)
  then obtain out where out: "icmp_echo_reply demo_ping = Some out" by blast
  have "length demo_ping \<le> 65536" by (simp add: demo_ping_def)
  from vnet_echo_reply_valid [OF out this] show ?thesis using out by blast
qed

end
