(* ===== verification/Vnet_Hub.thy ===== *)
theory Vnet_Hub
  imports Vnet_Facts "HOL-Library.List_Lexorder" "HOL-Library.Char_ord"
begin

text \<open>
  The hub of the virtual network (\<open>server/src/vnet.rs\<close>): who is a member, with which address,
  and where a packet goes. The members' queues (\<open>mpsc\<close> channels, whose receiver lives as long as
  the membership) are lists bounded by \<open>PEER_QUEUE\<close>; counters do not wrap. A lock section is one
  step; the reply of the gateway, which takes the lock twice, is one step too.
\<close>

section \<open>The hub\<close>

definition PEER_QUEUE :: nat where "PEER_QUEUE = 1024"

record vnet_hub =
  vh_network :: string
  vh_subnet :: subnet
  vh_gateway :: u32
  vh_mtu :: u32
  vh_pool :: ip_pool
  vh_routes :: switch
  vh_sinks :: "(string, bytes list) fmap"
  vh_owners :: "(string, u64) fmap"
  vh_generation :: u64
  vh_unroutable :: nat
  vh_full :: nat
  vh_spoofed :: nat

datatype hub_error =
    NoSubnet | HubSubnet subnet_error | SubnetTooSmall | NoGatewayAddress | BadGateway string | GatewayOutside u32

definition hub_gateway :: "vnet_config \<Rightarrow> subnet \<Rightarrow> hub_error + u32" where
  "hub_gateway cfg sn =
     (if trim (vc_gateway cfg) = [] then ok_or NoGatewayAddress (subnet_nth sn 1)
      else
        res_bind (ok_or (BadGateway (vc_gateway cfg)) (parse_ipv4 (before_slash (vc_gateway cfg)))) (\<lambda>gw.
          if \<not> subnet_contains sn gw then Inl (GatewayOutside gw) else Inr gw))"

definition hub_from_config :: "vnet_config \<Rightarrow> hub_error + vnet_hub" where
  "hub_from_config cfg =
     (let subnet_s = trim (vc_subnet cfg) in
      if subnet_s = [] then Inl NoSubnet
      else (case subnet_parse subnet_s of
          Inl e \<Rightarrow> Inl (HubSubnet e)
        | Inr sn \<Rightarrow>
            if subnet_size sn < 4 then Inl SubnetTooSmall
            else res_bind (hub_gateway cfg sn) (\<lambda>gw.
              Inr \<lparr>vh_network = vc_network cfg, vh_subnet = sn, vh_gateway = gw, vh_mtu = vc_mtu cfg,
                   vh_pool = pool_new sn, vh_routes = fmempty, vh_sinks = fmempty, vh_owners = fmempty,
                   vh_generation = 0, vh_unroutable = 0, vh_full = 0, vh_spoofed = 0\<rparr>)))"

definition gateway_ip :: "vnet_config \<Rightarrow> u32 option" where
  "gateway_ip cfg =
     (let s = trim (vc_subnet cfg) in
      if s = [] then None
      else (case subnet_parse s of
          Inl _ \<Rightarrow> None
        | Inr sn \<Rightarrow>
            if trim (vc_gateway cfg) = [] then subnet_nth sn 1 else parse_ipv4 (before_slash (vc_gateway cfg))))"

section \<open>Joining and leaving\<close>

definition leave_locked :: "string \<Rightarrow> vnet_hub \<Rightarrow> vnet_hub" where
  "leave_locked client g =
     g\<lparr>vh_routes := switch_unregister (vh_network g) client (vh_routes g),
       vh_pool := pool_release client (vh_pool g),
       vh_sinks := fmdrop client (vh_sinks g),
       vh_owners := fmdrop client (vh_owners g)\<rparr>"

datatype join_error = OutsideSubnet | IsGateway | AddressTaken | PoolEmpty

record joined =
  jn_ip :: u32
  jn_subnet :: subnet
  jn_gateway :: u32
  jn_mtu :: u32
  jn_generation :: u64

definition join_address :: "string \<Rightarrow> u32 option \<Rightarrow> vnet_hub \<Rightarrow> ip_pool \<times> (join_error + u32)" where
  "join_address client want g =
     (case want of
        Some w \<Rightarrow>
          if \<not> subnet_contains (vh_subnet g) w then (vh_pool g, Inl OutsideSubnet)
          else if w = vh_gateway g then (vh_pool g, Inl IsGateway)
          else (case pool_claim client w (vh_pool g) of
              (p, False) \<Rightarrow> (p, Inl AddressTaken)
            | (p, True) \<Rightarrow> (p, Inr w))
      | None \<Rightarrow>
          (case pool_acquire client (vh_pool g) of
             (p, None) \<Rightarrow> (p, Inl PoolEmpty)
           | (p, Some ip) \<Rightarrow> (p, Inr ip)))"

definition hub_join :: "string \<Rightarrow> u32 option \<Rightarrow> vnet_hub \<Rightarrow> vnet_hub \<times> (join_error + joined)" where
  "hub_join client want g0 =
     (let g = (if fmlookup (vh_sinks g0) client \<noteq> None then leave_locked client g0 else g0) in
      case join_address client want g of
        (p, Inl e) \<Rightarrow> (g\<lparr>vh_pool := p\<rparr>, Inl e)
      | (p, Inr ip) \<Rightarrow>
          (let generation = vh_generation g + 1 in
           (g\<lparr>vh_pool := p,
              vh_routes := fst (switch_register (vh_network g) ip client (vh_routes g)),
              vh_sinks := fmupd client [] (vh_sinks g),
              vh_generation := generation,
              vh_owners := fmupd client generation (vh_owners g)\<rparr>,
            Inr \<lparr>jn_ip = ip, jn_subnet = vh_subnet g, jn_gateway = vh_gateway g, jn_mtu = vh_mtu g,
                 jn_generation = generation\<rparr>)))"

definition hub_leave :: "string \<Rightarrow> vnet_hub \<Rightarrow> vnet_hub" where
  "hub_leave client g = leave_locked client g"

definition leave_if_current :: "string \<Rightarrow> u64 \<Rightarrow> vnet_hub \<Rightarrow> vnet_hub" where
  "leave_if_current client generation g =
     (if fmlookup (vh_owners g) client \<noteq> Some generation then g else leave_locked client g)"

section \<open>Forwarding\<close>

text \<open>\<open>try_send\<close> on the queue of a member; a full queue drops the packet.\<close>

definition try_send :: "string \<Rightarrow> bytes list \<Rightarrow> bytes \<Rightarrow> vnet_hub \<Rightarrow> vnet_hub \<times> bool" where
  "try_send client q pkt g =
     (if length q < PEER_QUEUE then (g\<lparr>vh_sinks := fmupd client (q @ [pkt]) (vh_sinks g)\<rparr>, True)
      else (g\<lparr>vh_full := vh_full g + 1\<rparr>, False))"

definition hub_deliver :: "string \<Rightarrow> bytes \<Rightarrow> vnet_hub \<Rightarrow> vnet_hub \<times> bool" where
  "hub_deliver client pkt g =
     (case fmlookup (vh_sinks g) client of None \<Rightarrow> (g, False) | Some q \<Rightarrow> try_send client q pkt g)"

fun flood :: "string list \<Rightarrow> bytes \<Rightarrow> vnet_hub \<Rightarrow> vnet_hub \<times> bool" where
  "flood [] pkt g = (g, False)"
| "flood (t # ts) pkt g =
     (let (g1, sent) = hub_deliver t pkt g; (g2, any) = flood ts pkt g1 in (g2, sent \<or> any))"

definition hub_route :: "string \<Rightarrow> bytes \<Rightarrow> vnet_hub \<Rightarrow> vnet_hub \<times> bool" where
  "hub_route sender pkt g =
     (case ipv4_header pkt of
        None \<Rightarrow> (g, False)
      | Some h \<Rightarrow>
          if \<not> list_ex (\<lambda>ip. ip = ih_src h) (switch_ips_of (vh_network g) sender (vh_routes g))
          then (g\<lparr>vh_spoofed := vh_spoofed g + 1\<rparr>, False)
          else if ih_dst h = vh_gateway g
          then (case icmp_echo_reply pkt of Some reply \<Rightarrow> hub_deliver sender reply g | None \<Rightarrow> (g, False))
          else if ih_dst h = - 1 \<or> ih_dst h = subnet_broadcast (vh_subnet g)
          then flood (filter (\<lambda>k. k \<noteq> sender) (sorted_list_of_fset (fmdom (vh_sinks g)))) pkt g
          else (case switch_lookup (vh_network g) (ih_dst h) (vh_routes g) of
              None \<Rightarrow> (g\<lparr>vh_unroutable := vh_unroutable g + 1\<rparr>, False)
            | Some owner \<Rightarrow>
                (case fmlookup (vh_sinks g) owner of
                   None \<Rightarrow> (g\<lparr>vh_unroutable := vh_unroutable g + 1\<rparr>, False)
                 | Some q \<Rightarrow> try_send owner q pkt g)))"

text \<open>The connection of a member takes the next packet from its queue.\<close>

definition hub_recv :: "string \<Rightarrow> vnet_hub \<Rightarrow> vnet_hub \<times> bytes option" where
  "hub_recv client g =
     (case fmlookup (vh_sinks g) client of
        Some (pkt # q) \<Rightarrow> (g\<lparr>vh_sinks := fmupd client q (vh_sinks g)\<rparr>, Some pkt)
      | _ \<Rightarrow> (g, None))"

definition address_of :: "string \<Rightarrow> vnet_hub \<Rightarrow> u32 option" where
  "address_of client g =
     (case switch_ips_of (vh_network g) client (vh_routes g) of [] \<Rightarrow> None | ip # _ \<Rightarrow> Some ip)"

record vnet_stats =
  vs_network :: string
  vs_subnet :: string
  vs_gateway :: string
  vs_mtu :: u32
  vs_peers :: nat
  vs_leased :: nat
  vs_unroutable :: nat
  vs_full :: nat
  vs_spoofed :: nat

definition hub_stats :: "vnet_hub \<Rightarrow> vnet_stats" where
  "hub_stats g =
     \<lparr>vs_network = vh_network g, vs_subnet = subnet_fmt (vh_subnet g), vs_gateway = show_ipv4 (vh_gateway g),
      vs_mtu = vh_mtu g, vs_peers = fm_len (vh_sinks g), vs_leased = leased_count (vh_pool g),
      vs_unroutable = vh_unroutable g, vs_full = vh_full g, vs_spoofed = vh_spoofed g\<rparr>"

datatype hub_op =
    HubJoin string "u32 option"
  | HubLeave string
  | HubLeaveIf string u64
  | HubRoute string bytes
  | HubRecv string

fun hub_step :: "vnet_hub \<Rightarrow> hub_op \<Rightarrow> vnet_hub" where
  "hub_step g (HubJoin c want) = fst (hub_join c want g)"
| "hub_step g (HubLeave c) = hub_leave c g"
| "hub_step g (HubLeaveIf c n) = leave_if_current c n g"
| "hub_step g (HubRoute c pkt) = fst (hub_route c pkt g)"
| "hub_step g (HubRecv c) = fst (hub_recv c g)"

definition hub_run :: "vnet_hub \<Rightarrow> hub_op list \<Rightarrow> vnet_hub" where
  "hub_run g ops = foldl hub_step g ops"

end
