(* ===== verification/Vnet_Hub_Inv.thy ===== *)
theory Vnet_Hub_Inv
  imports Vnet_Hub
begin

unbundle bit_operations_syntax

text \<open>
  What the hub guarantees, after any sequence of joins, departures, late cleanups, packets and
  reads: the member table, the leases and the routes agree; a packet only reaches the holder of
  its destination and only under its sender's own address; an automatic address fails only when
  all are taken. And where it falls short: the address of the gateway is not reserved.
\<close>

section \<open>Subnets\<close>

lemma and_high_mask: "x AND push_bit k (- 1) = push_bit k (drop_bit k x)" for x :: "'a::len word"
  by (rule bit_word_eqI) (auto simp: bit_simps)

lemma subnet_nth_contains:
  assumes "subnet_ok sn" "subnet_nth sn i = Some ip"
  shows "subnet_contains sn ip"
proof (cases "sn_prefix sn = 0")
  case True
  then show ?thesis using assms by (simp add: subnet_contains_def subnet_ok_def subnet_mask_def)
next
  case False
  let ?k = "32 - unat (sn_prefix sn)"
  have k: "?k < 32" "subnet_mask (sn_prefix sn) = push_bit ?k (- 1)"
    using False assms(1) by (auto simp: subnet_mask_def unat_eq_0 [symmetric])
  let ?n = "sn_net sn"
  have net: "push_bit ?k (drop_bit ?k ?n) = ?n" using assms(1) unfolding subnet_ok_def k(2) and_high_mask by simp
  have i: "i < 2 ^ ?k" "ip = ?n + of_nat i" using assms(2) by (auto simp: subnet_nth_def subnet_size_def split: if_splits)
  have "take_bit ?k ?n = 0" by (subst net [symmetric]) (simp add: take_bit_push_bit)
  moreover have tb: "take_bit ?k (of_nat i :: u32) = of_nat i"
    using i(1) by (simp add: take_bit_of_nat take_bit_nat_eq_self)
  ultimately have "?n AND of_nat i = 0"
    by (metis (no_types, lifting) and.assoc and.commute and_zero_eq take_bit_eq_mask)
  then have ior: "ip = ?n OR of_nat i" using i(2) by (simp add: disjunctive_add_eq_or)
  have "drop_bit ?k (of_nat i :: u32) = 0"
    by (subst tb [symmetric]) (rule bit_word_eqI, simp add: bit_simps)
  then have "drop_bit ?k ip = drop_bit ?k ?n" unfolding ior by (simp add: drop_bit_or)
  then show ?thesis using net unfolding subnet_contains_def k(2) and_high_mask by simp
qed

section \<open>The switch\<close>

lemma switch_lookup_net: "switch_lookup n ip s = fmlookup (switch_net s n) ip"
  by (simp add: switch_lookup_def switch_net_def split: option.splits)

lemma switch_lookup_register:
  "switch_lookup n ip (fst (switch_register n ip1 c s)) = (if ip = ip1 then Some c else switch_lookup n ip s)"
  by (auto simp: switch_lookup_def switch_register_def switch_net_def split: option.splits)

lemma switch_lookup_unregister:
  "switch_lookup n ip (switch_unregister n c s) = Some d \<longleftrightarrow> switch_lookup n ip s = Some d \<and> d \<noteq> c"
  by (auto simp: switch_lookup_def switch_unregister_def split: option.splits)

lemma set_switch_ips_of: "set (switch_ips_of n c s) = {ip. switch_lookup n ip s = Some c}"
  by (auto simp: switch_ips_of_def sorted_list_of_fset_simps fmlookup_dom_iff switch_lookup_net split: option.splits if_splits)

section \<open>The invariant of the hub\<close>

definition member_queue :: "string \<Rightarrow> vnet_hub \<Rightarrow> bytes list option" where
  "member_queue c g = fmlookup (vh_sinks g) c"

definition member_ip :: "string \<Rightarrow> vnet_hub \<Rightarrow> u32 option" where
  "member_ip c g = pool_get c (vh_pool g)"

definition owner_at :: "u32 \<Rightarrow> vnet_hub \<Rightarrow> string option" where
  "owner_at ip g = switch_lookup (vh_network g) ip (vh_routes g)"

definition hub_ok :: "vnet_hub \<Rightarrow> bool" where
  "hub_ok g \<longleftrightarrow>
     subnet_ok (vh_subnet g) \<and> ip_subnet (vh_pool g) = vh_subnet g \<and> pool_ok (vh_pool g)
     \<and> (\<forall>c. member_queue c g = None \<longleftrightarrow> member_ip c g = None)
     \<and> (\<forall>c. fmlookup (vh_owners g) c = None \<longleftrightarrow> member_queue c g = None)
     \<and> (\<forall>ip c. owner_at ip g = Some c \<longleftrightarrow> member_ip c g = Some ip)
     \<and> (\<forall>c ip. member_ip c g = Some ip \<longrightarrow> subnet_contains (vh_subnet g) ip)
     \<and> (\<forall>c q. member_queue c g = Some q \<longrightarrow> length q \<le> PEER_QUEUE)"

lemma hub_okD:
  assumes "hub_ok g"
  shows "subnet_ok (vh_subnet g)" "ip_subnet (vh_pool g) = vh_subnet g" "pool_ok (vh_pool g)"
    "member_queue c g = None \<longleftrightarrow> member_ip c g = None"
    "fmlookup (vh_owners g) c = None \<longleftrightarrow> member_queue c g = None"
    "owner_at ip g = Some c \<longleftrightarrow> member_ip c g = Some ip"
    "member_ip c g = Some ip \<Longrightarrow> subnet_contains (vh_subnet g) ip"
    "member_queue c g = Some q \<Longrightarrow> length q \<le> PEER_QUEUE"
  using assms unfolding hub_ok_def by blast+

text \<open>The parts of a hub that packets do not change.\<close>

definition same_members :: "vnet_hub \<Rightarrow> vnet_hub \<Rightarrow> bool" where
  "same_members g g' \<longleftrightarrow>
     vh_network g' = vh_network g \<and> vh_subnet g' = vh_subnet g \<and> vh_gateway g' = vh_gateway g
     \<and> vh_pool g' = vh_pool g \<and> vh_routes g' = vh_routes g \<and> vh_owners g' = vh_owners g
     \<and> vh_generation g' = vh_generation g
     \<and> (\<forall>c. member_queue c g' = None \<longleftrightarrow> member_queue c g = None)"

lemma same_members_refl [simp]: "same_members g g"
  by (simp add: same_members_def)

lemma same_members_trans: "same_members g h \<Longrightarrow> same_members h k \<Longrightarrow> same_members g k"
  by (simp add: same_members_def)

lemma same_members_ok:
  assumes "hub_ok g" "same_members g g'" "\<And>c q. member_queue c g' = Some q \<Longrightarrow> length q \<le> PEER_QUEUE"
  shows "hub_ok g'"
  using assms by (simp add: hub_ok_def same_members_def member_ip_def owner_at_def)

lemma hub_new_ok: "hub_from_config cfg = Inr g \<Longrightarrow> hub_ok g"
  using pool_new_ok
  by (auto simp: hub_from_config_def Let_def res_bind_def hub_ok_def member_queue_def member_ip_def owner_at_def
      pool_new_def pool_get_def switch_lookup_def dest: subnet_parse_ok split: sum.splits if_splits)

lemma leave_locked_facts:
  assumes "hub_ok g"
  shows "member_ip d (leave_locked c g) = (if d = c then None else member_ip d g)"
    and "member_queue d (leave_locked c g) = (if d = c then None else member_queue d g)"
    and "owner_at ip (leave_locked c g) = Some e \<longleftrightarrow> owner_at ip g = Some e \<and> e \<noteq> c"
    and "pool_ok (vh_pool (leave_locked c g))" "ip_subnet (vh_pool (leave_locked c g)) = vh_subnet g"
    and "pool_host (vh_pool (leave_locked c g)) = pool_host (vh_pool g)"
  using lt.release_lease [of "vh_pool g" c] pool_release_ok(3) [of "vh_pool g" c] assms
  by (simp_all add: hub_ok_def leave_locked_def member_ip_def member_queue_def owner_at_def switch_lookup_unregister)

lemma leave_locked_ok: "hub_ok g \<Longrightarrow> hub_ok (leave_locked c g)"
  using leave_locked_facts [of g] unfolding hub_ok_def [of "leave_locked c g"]
  by (auto simp: hub_ok_def leave_locked_def split: if_splits)

text \<open>A join of somebody who is not a member.\<close>

lemma join_address_ok:
  assumes ok: "hub_ok g" and new: "member_ip c g = None" and j: "join_address c want g = (p, r)"
  shows "r = Inl e \<Longrightarrow> p = vh_pool g"
    and "r = Inr ip \<Longrightarrow> pool_ok p \<and> ip_subnet p = vh_subnet g \<and> subnet_contains (vh_subnet g) ip
      \<and> pool_get d p = (if d = c then Some ip else member_ip d g) \<and> member_ip d g \<noteq> Some ip"
proof -
  have p: "pool_ok (vh_pool g)" "pool_get c (vh_pool g) = None" "ip_subnet (vh_pool g) = vh_subnet g" "subnet_ok (vh_subnet g)"
    using ok new by (auto simp: hub_ok_def member_ip_def)
  show "p = vh_pool g" if "r = Inl e"
    using j that lt.claim_iff [OF p(1,2)] lt.acquire_None
    by (auto simp: join_address_def split: option.splits if_splits prod.splits bool.splits)
  show "pool_ok p \<and> ip_subnet p = vh_subnet g \<and> subnet_contains (vh_subnet g) ip
      \<and> pool_get d p = (if d = c then Some ip else member_ip d g) \<and> member_ip d g \<noteq> Some ip" if r: "r = Inr ip"
  proof (cases want)
    case None
    then have a: "pool_acquire c (vh_pool g) = (p, Some ip)" using j r by (auto simp: join_address_def split: option.splits prod.splits)
    from pool_acquire_Some [OF p(1,2) a] show ?thesis
      using p(3) subnet_nth_contains [OF p(4)] by (auto simp: member_ip_def)
  next
    case (Some w)
    then have a: "pool_claim c ip (vh_pool g) = (p, True)" "subnet_contains (vh_subnet g) ip"
      using j r by (auto simp: join_address_def split: if_splits prod.splits bool.splits)
    from pool_claim_ok [OF p(1,2), of ip] a p(3) show ?thesis by (simp add: member_ip_def)
  qed
qed

lemma hub_join_cases:
  assumes ok: "hub_ok g0" and j: "hub_join c want g0 = (g', r)"
  obtains (refused) g e where "g = (if member_queue c g0 = None then g0 else leave_locked c g0)" "hub_ok g"
      "r = Inl e" "g' = g" "join_address c want g = (vh_pool g, Inl e)"
  | (accepted) g p ip where "g = (if member_queue c g0 = None then g0 else leave_locked c g0)" "hub_ok g"
      "member_ip c g = None" "join_address c want g = (p, Inr ip)"
      "r = Inr \<lparr>jn_ip = ip, jn_subnet = vh_subnet g, jn_gateway = vh_gateway g, jn_mtu = vh_mtu g,
                 jn_generation = vh_generation g + 1\<rparr>"
      "g' = g\<lparr>vh_pool := p, vh_routes := fst (switch_register (vh_network g) ip c (vh_routes g)),
              vh_sinks := fmupd c [] (vh_sinks g), vh_generation := vh_generation g + 1,
              vh_owners := fmupd c (vh_generation g + 1) (vh_owners g)\<rparr>"
proof -
  define g where "g = (if member_queue c g0 = None then g0 else leave_locked c g0)"
  have gok: "hub_ok g" using ok leave_locked_ok by (simp add: g_def)
  have new: "member_ip c g = None"
    using ok leave_locked_facts(1) [OF ok, of c c] by (auto simp: g_def hub_ok_def)
  have g: "(if fmlookup (vh_sinks g0) c \<noteq> None then leave_locked c g0 else g0) = g" by (simp add: g_def member_queue_def)
  obtain p s where pr: "join_address c want g = (p, s)" by fastforce
  note J = join_address_ok [OF gok new pr]
  note k = j [unfolded hub_join_def Let_def g pr split]
  show thesis
  proof (cases s)
    case (Inl e)
    then show thesis using k pr J(1) [OF Inl] by (intro refused [OF g_def gok]) auto
  next
    case (Inr ip)
    then show thesis using k pr by (intro accepted [OF g_def gok new]) auto
  qed
qed

lemma accepted_facts:
  assumes "hub_ok g" "member_ip c g = None" "join_address c want g = (p, Inr ip)"
    and "g' = g\<lparr>vh_pool := p, vh_routes := fst (switch_register (vh_network g) ip c (vh_routes g)),
              vh_sinks := fmupd c [] (vh_sinks g), vh_generation := n,
              vh_owners := fmupd c n (vh_owners g)\<rparr>"
  shows "member_ip d g' = (if d = c then Some ip else member_ip d g)"
    and "member_queue d g' = (if d = c then Some [] else member_queue d g)"
    and "owner_at x g' = (if x = ip then Some c else owner_at x g)"
    and "hub_ok g'"
proof -
  note J = join_address_ok(2) [OF assms(1-3) refl]
  show m: "member_ip d g' = (if d = c then Some ip else member_ip d g)" for d
    using J [of d] by (simp add: assms(4) member_ip_def)
  show q: "member_queue d g' = (if d = c then Some [] else member_queue d g)" for d
    by (simp add: assms(4) member_queue_def)
  show o: "owner_at x g' = (if x = ip then Some c else owner_at x g)" for x
    by (simp add: assms(4) owner_at_def switch_lookup_register)
  have "owner_at x g' = Some d \<longleftrightarrow> member_ip d g' = Some x" for x d
    using J [of d] assms(1,2) unfolding o m by (auto simp: hub_ok_def)
  then show "hub_ok g'" using J [of c] assms(1) q m unfolding hub_ok_def [of g']
    by (auto simp: assms(4) hub_ok_def member_queue_def)
qed

section \<open>Packets\<close>

definition room :: "string \<Rightarrow> vnet_hub \<Rightarrow> bool" where
  "room c g \<longleftrightarrow> (\<exists>q. member_queue c g = Some q \<and> length q < PEER_QUEUE)"

text \<open>Every member that has something to get and room for it gets it; nothing else changes.\<close>

definition offered :: "(string \<Rightarrow> bytes option) \<Rightarrow> vnet_hub \<Rightarrow> vnet_hub \<Rightarrow> bool" where
  "offered f g g' \<longleftrightarrow> same_members g g'
     \<and> (\<forall>d. member_queue d g' = (case (member_queue d g, f d) of
            (Some q, Some p) \<Rightarrow> Some (if length q < PEER_QUEUE then q @ [p] else q)
          | (r, _) \<Rightarrow> r))"

lemma offered_none: "vh_sinks g' = vh_sinks g \<Longrightarrow> same_members g g' \<Longrightarrow> offered (\<lambda>_. None) g g'"
  by (simp add: offered_def member_queue_def split: option.splits)

lemma offered_cong: "offered f g g' \<Longrightarrow> (\<And>d. member_queue d g \<noteq> None \<Longrightarrow> f d = f' d) \<Longrightarrow> offered f' g g'"
  unfolding offered_def by (auto split: option.splits)

lemma offered_ok:
  assumes "hub_ok g" "offered f g g'"
  shows "hub_ok g'"
proof (rule same_members_ok [OF assms(1)])
  show "same_members g g'" using assms(2) by (simp add: offered_def)
  fix c q assume "member_queue c g' = Some q"
  then show "length q \<le> PEER_QUEUE" using assms unfolding offered_def hub_ok_def
    by (auto split: option.splits if_splits)
qed

lemma hub_deliver_offered:
  assumes "hub_deliver c p g = (g', sent)"
  shows "offered (\<lambda>d. if d = c then Some p else None) g g' \<and> (sent \<longleftrightarrow> room c g) \<and> vh_spoofed g' = vh_spoofed g"
  using assms
  by (auto simp: hub_deliver_def try_send_def offered_def same_members_def room_def member_queue_def
      split: option.splits if_splits)

lemma flood_offered:
  "distinct ts \<Longrightarrow> flood ts p g = (g', sent) \<Longrightarrow>
     offered (\<lambda>d. if d \<in> set ts then Some p else None) g g' \<and> (sent \<longleftrightarrow> (\<exists>d\<in>set ts. room d g))
     \<and> vh_spoofed g' = vh_spoofed g"
proof (induction ts arbitrary: g g' sent)
  case Nil
  then show ?case by (auto intro: offered_none)
next
  case (Cons t ts)
  obtain g1 s1 where 1: "hub_deliver t p g = (g1, s1)" by fastforce
  obtain g2 s2 where 2: "flood ts p g1 = (g2, s2)" by fastforce
  note D = hub_deliver_offered [OF 1] and F = Cons.IH [OF _ 2]
  have g': "g' = g2" "sent = (s1 \<or> s2)" using Cons.prems(2) 1 2 by simp_all
  have q1: "member_queue d g1 = member_queue d g" if "d \<in> set ts" for d
    using D that Cons.prems(1) by (auto simp: offered_def split: option.splits)
  then have "s2 \<longleftrightarrow> (\<exists>d\<in>set ts. room d g)" using F Cons.prems(1) by (simp add: room_def)
  moreover have "offered (\<lambda>d. if d \<in> set (t # ts) then Some p else None) g g2"
    using D F Cons.prems(1) q1 unfolding offered_def
    by (auto intro: same_members_trans split: option.splits)
  ultimately show ?case using D F Cons.prems(1) g' by auto
qed

text \<open>What a packet means for member \<open>d\<close>: the reply of the gateway for its sender, a broadcast for
  everybody else, and otherwise the packet itself for the holder of its destination.\<close>

definition meant_for :: "vnet_hub \<Rightarrow> string \<Rightarrow> bytes \<Rightarrow> string \<Rightarrow> bytes option" where
  "meant_for g sender pkt d =
     (case ipv4_header pkt of
        None \<Rightarrow> None
      | Some h \<Rightarrow>
          if member_ip sender g \<noteq> Some (ih_src h) then None
          else if ih_dst h = vh_gateway g then (if d = sender then icmp_echo_reply pkt else None)
          else if ih_dst h = - 1 \<or> ih_dst h = subnet_broadcast (vh_subnet g)
          then (if d = sender then None else Some pkt)
          else if member_ip d g = Some (ih_dst h) then Some pkt else None)"

lemma own_address: "hub_ok g \<Longrightarrow>
  list_ex (\<lambda>ip. ip = x) (switch_ips_of (vh_network g) c (vh_routes g)) \<longleftrightarrow> member_ip c g = Some x"
  by (auto simp: list_ex_iff set_switch_ips_of hub_ok_def owner_at_def)

lemma set_members: "set (sorted_list_of_fset (fmdom (vh_sinks g))) = {d. member_queue d g \<noteq> None}"
  by (auto simp: sorted_list_of_fset_simps fmlookup_dom_iff member_queue_def)

lemma hub_route_offered:
  assumes ok: "hub_ok g" and r: "hub_route c pkt g = (g', sent)"
  shows "offered (meant_for g c pkt) g g'
    \<and> (sent \<longleftrightarrow> (\<exists>d. meant_for g c pkt d \<noteq> None \<and> room d g))
    \<and> vh_spoofed g' = vh_spoofed g + (case ipv4_header pkt of None \<Rightarrow> 0 | Some h \<Rightarrow>
          if member_ip c g = Some (ih_src h) then 0 else 1)"
proof (cases "ipv4_header pkt")
  case None
  then have "meant_for g c pkt = (\<lambda>_. None)" by (simp add: meant_for_def fun_eq_iff)
  then show ?thesis using r None by (auto simp: hub_route_def intro: offered_none)
next
  case (Some h)
  note own = own_address [OF ok]
  show ?thesis
  proof (cases "member_ip c g = Some (ih_src h)")
    case False
    then have "meant_for g c pkt = (\<lambda>_. None)" by (simp add: meant_for_def fun_eq_iff Some)
    then show ?thesis using r Some False
      by (auto simp: hub_route_def own same_members_def member_queue_def intro: offered_none)
  next
    case src: True
    consider (gateway) "ih_dst h = vh_gateway g"
      | (all) "ih_dst h \<noteq> vh_gateway g" "ih_dst h = - 1 \<or> ih_dst h = subnet_broadcast (vh_subnet g)"
      | (one) "ih_dst h \<noteq> vh_gateway g" "\<not> (ih_dst h = - 1 \<or> ih_dst h = subnet_broadcast (vh_subnet g))" by blast
    then show ?thesis
    proof cases
      case gateway
      show ?thesis
      proof (cases "icmp_echo_reply pkt")
        case None
        then have "meant_for g c pkt = (\<lambda>_. None)" using gateway src by (simp add: meant_for_def fun_eq_iff Some)
        then show ?thesis using r Some src gateway None by (auto simp: hub_route_def own intro: offered_none)
      next
        case (Some p)
        then have "hub_deliver c p g = (g', sent)" using r src gateway \<open>ipv4_header pkt = Some h\<close>
          by (simp add: hub_route_def own)
        moreover have "meant_for g c pkt = (\<lambda>d. if d = c then Some p else None)"
          using gateway src Some \<open>ipv4_header pkt = Some h\<close> by (simp add: meant_for_def fun_eq_iff)
        ultimately show ?thesis using hub_deliver_offered src \<open>ipv4_header pkt = Some h\<close> by auto
      qed
    next
      case all
      let ?ts = "filter (\<lambda>k. k \<noteq> c) (sorted_list_of_fset (fmdom (vh_sinks g)))"
      have "distinct ?ts" by (simp add: sorted_list_of_fset.rep_eq)
      moreover have "flood ?ts pkt g = (g', sent)" using r src all Some by (simp add: hub_route_def own)
      ultimately have "offered (\<lambda>d. if d \<in> set ?ts then Some pkt else None) g g' \<and> (sent \<longleftrightarrow> (\<exists>d\<in>set ?ts. room d g))
        \<and> vh_spoofed g' = vh_spoofed g" by (rule flood_offered)
      then
      have F: "offered (\<lambda>d. if d \<in> set ?ts then Some pkt else None) g g'" "sent \<longleftrightarrow> (\<exists>d\<in>set ?ts. room d g)"
        "vh_spoofed g' = vh_spoofed g" by blast+
      have m: "meant_for g c pkt d = (if d = c then None else Some pkt)" for d
        using all src by (simp add: meant_for_def Some)
      have "offered (meant_for g c pkt) g g'" by (rule offered_cong [OF F(1)]) (auto simp: m member_queue_def fmlookup_dom_iff)
      moreover have "(\<exists>d\<in>set ?ts. room d g) \<longleftrightarrow> (\<exists>d. meant_for g c pkt d \<noteq> None \<and> room d g)"
        by (auto simp: m room_def member_queue_def fmlookup_dom_iff)
      ultimately show ?thesis using F(2,3) src Some by simp
    next
      case one
      have m: "meant_for g c pkt d = (if member_ip d g = Some (ih_dst h) then Some pkt else None)" for d
        using one src by (simp add: meant_for_def Some)
      show ?thesis
      proof (cases "owner_at (ih_dst h) g")
        case None
        then have "member_ip d g \<noteq> Some (ih_dst h)" for d using hub_okD(6) [OF ok, of "ih_dst h" d] by simp
        then have "meant_for g c pkt = (\<lambda>_. None)" by (simp add: m fun_eq_iff)
        then show ?thesis using r Some src one None
          by (auto simp: hub_route_def own owner_at_def same_members_def member_queue_def intro: offered_none)
      next
        case (Some d)
        have md: "member_ip e g = Some (ih_dst h) \<longleftrightarrow> e = d" for e
          using hub_okD(6) [OF ok, of "ih_dst h" e] Some by auto
        from md [of d] have "member_queue d g \<noteq> None" using hub_okD(4) [OF ok, of d] by simp
        then obtain q where q: "member_queue d g = Some q" by blast
        have "hub_deliver d pkt g = (g', sent)" using r src one q Some \<open>ipv4_header pkt = Some h\<close>
          by (simp add: hub_route_def own owner_at_def hub_deliver_def member_queue_def)
        moreover have "meant_for g c pkt = (\<lambda>e. if e = d then Some pkt else None)" by (simp add: fun_eq_iff m md)
        ultimately show ?thesis using hub_deliver_offered src \<open>ipv4_header pkt = Some h\<close> by auto
      qed
    qed
  qed
qed

section \<open>Runs\<close>

lemma hub_join_ok: "hub_ok g \<Longrightarrow> hub_join c want g = (g', r) \<Longrightarrow> hub_ok g'"
  by (erule hub_join_cases) (auto intro: accepted_facts(4))

lemma hub_recv_ok: "hub_ok g \<Longrightarrow> hub_ok (fst (hub_recv c g))"
proof -
  assume ok: "hub_ok g"
  have s: "same_members g (fst (hub_recv c g))"
    by (auto simp: hub_recv_def same_members_def member_queue_def split: option.splits list.splits)
  have "length q \<le> PEER_QUEUE" if "member_queue d (fst (hub_recv c g)) = Some q" for d q
  proof -
    have "\<exists>q'. member_queue d g = Some q' \<and> length q \<le> length q'"
      using that by (auto simp: hub_recv_def member_queue_def split: option.splits list.splits if_splits)
    then show ?thesis using ok unfolding hub_ok_def by fastforce
  qed
  then show ?thesis by (rule same_members_ok [OF ok s])
qed

lemma hub_step_ok: "hub_ok g \<Longrightarrow> hub_ok (hub_step g op)"
proof (cases op)
  case (HubRoute c pkt)
  assume ok: "hub_ok g"
  obtain g' sent where "hub_route c pkt g = (g', sent)" by fastforce
  then show ?thesis using hub_route_offered [OF ok] offered_ok [OF ok] HubRoute by fastforce
next
  case (HubJoin c want)
  assume "hub_ok g"
  then show ?thesis using hub_join_ok [of g c want] HubJoin by (cases "hub_join c want g") auto
qed (auto simp: hub_leave_def leave_if_current_def leave_locked_ok hub_recv_ok)

lemma hub_run_ok:
  assumes "hub_from_config cfg = Inr g0"
  shows "hub_ok (hub_run g0 ops)"
proof -
  have "hub_ok g \<Longrightarrow> hub_ok (foldl hub_step g ops)" for g by (induction ops arbitrary: g) (auto intro: hub_step_ok)
  then show ?thesis using hub_new_ok [OF assms] by (simp add: hub_run_def)
qed

text \<open>The settings of a hub never change, and the generation counts the accepted joins.\<close>

lemma hub_step_settings:
  assumes "hub_ok g"
  shows "vh_gateway (hub_step g op) = vh_gateway g" "vh_subnet (hub_step g op) = vh_subnet g"
    "\<exists>n \<le> 1. vh_generation (hub_step g op) = vh_generation g + of_nat n"
proof -
  have "vh_gateway (hub_step g op) = vh_gateway g \<and> vh_subnet (hub_step g op) = vh_subnet g
      \<and> (\<exists>n \<le> 1. vh_generation (hub_step g op) = vh_generation g + of_nat n)"
  proof (cases op)
    case (HubJoin c want)
    obtain g' r where "hub_join c want g = (g', r)" by fastforce
    with assms show ?thesis
    proof (cases rule: hub_join_cases)
      case (refused h e)
      then show ?thesis using HubJoin \<open>hub_join c want g = (g', r)\<close>
        by (auto simp: leave_locked_def intro: exI [of _ 0])
    next
      case (accepted h p ip)
      then show ?thesis using HubJoin \<open>hub_join c want g = (g', r)\<close>
        by (auto simp: leave_locked_def intro: exI [of _ 1])
    qed
  next
    case (HubRoute c pkt)
    obtain g' sent where r: "hub_route c pkt g = (g', sent)" by fastforce
    then have "same_members g g'" using hub_route_offered [OF assms r] by (simp add: offered_def)
    then show ?thesis using HubRoute r by (auto simp: same_members_def intro: exI [of _ 0])
  next
    case (HubRecv c)
    then show ?thesis by (auto simp: hub_recv_def split: option.splits list.splits intro: exI [of _ 0])
  qed (auto simp: hub_leave_def leave_if_current_def leave_locked_def intro: exI [of _ 0])
  then show "vh_gateway (hub_step g op) = vh_gateway g" "vh_subnet (hub_step g op) = vh_subnet g"
    "\<exists>n \<le> 1. vh_generation (hub_step g op) = vh_generation g + of_nat n" by blast+
qed

lemma hub_run_generation:
  assumes "hub_ok g"
  shows "\<exists>n \<le> length ops. vh_generation (foldl hub_step g ops) = vh_generation g + of_nat n"
  using assms
proof (induction ops arbitrary: g)
  case (Cons op ops)
  obtain n where n: "n \<le> length ops" "vh_generation (foldl hub_step (hub_step g op) ops) = vh_generation (hub_step g op) + of_nat n"
    using Cons.IH [OF hub_step_ok [OF Cons.prems]] by blast
  obtain k where "k \<le> 1" "vh_generation (hub_step g op) = vh_generation g + of_nat k"
    using hub_step_settings(3) [OF Cons.prems] by blast
  then show ?case using n by (intro exI [of _ "n + k"]) (simp add: add.assoc add.commute)
qed simp

section \<open>Properties\<close>

text \<open>A network of eight addresses whose gateway is its highest address for hosts.\<close>

definition demo_net :: "string \<Rightarrow> vnet_config" where
  "demo_net gateway = vnet_config_default\<lparr>vc_subnet := ''0.0.0.0/29'', vc_gateway := gateway\<rparr>"

definition demo_hub :: "string \<Rightarrow> vnet_hub" where
  "demo_hub gateway = (case hub_from_config (demo_net gateway) of Inr g \<Rightarrow> g | Inl _ \<Rightarrow> undefined)"

lemma demo_hub: "hub_from_config (demo_net []) = Inr (demo_hub [])"
  "hub_from_config (demo_net ''0.0.0.6'') = Inr (demo_hub ''0.0.0.6'')"
proof -
  have "\<not> isl (hub_from_config (demo_net []))" "\<not> isl (hub_from_config (demo_net ''0.0.0.6''))" by code_simp+
  then show "hub_from_config (demo_net []) = Inr (demo_hub [])"
    "hub_from_config (demo_net ''0.0.0.6'') = Inr (demo_hub ''0.0.0.6'')"
    by (auto simp: demo_hub_def split: sum.splits)
qed

definition demo_hub_ops :: "hub_op list" where
  "demo_hub_ops = [HubJoin ''a'' None, HubJoin ''b'' (Some 2), HubLeave ''b'', HubJoin ''b'' None]"

text \<open>C16: the tables of the virtual network agree. After any sequence of joins, departures, late
  cleanups and packets: who has a queue has exactly one address, in the subnet, which nobody else
  has, and the route of the address leads to it; nobody else has a route; and no queue is longer
  than its bound.\<close>

theorem vnet_members_agree:
  assumes "hub_from_config cfg = Inr g0" "hub_run g0 ops = g"
  shows "(fmlookup (vh_sinks g) c = None \<longleftrightarrow> pool_get c (vh_pool g) = None)
    \<and> (fmlookup (vh_owners g) c = None \<longleftrightarrow> fmlookup (vh_sinks g) c = None)
    \<and> (switch_lookup (vh_network g) ip (vh_routes g) = Some c \<longleftrightarrow> pool_get c (vh_pool g) = Some ip)
    \<and> (pool_get c (vh_pool g) = Some ip \<longrightarrow> subnet_contains (vh_subnet g) ip
        \<and> (\<forall>d. pool_get d (vh_pool g) = Some ip \<longrightarrow> d = c)
        \<and> address_of c g = Some ip)
    \<and> (\<forall>q. fmlookup (vh_sinks g) c = Some q \<longrightarrow> length q \<le> 1024)"
proof -
  have ok: "hub_ok g" using hub_run_ok [OF assms(1), of ops] assms(2) by simp
  have "address_of c g = Some ip" if m: "member_ip c g = Some ip"
  proof -
    have "set (switch_ips_of (vh_network g) c (vh_routes g)) = {ip}"
    proof -
      have "switch_lookup (vh_network g) x (vh_routes g) = Some c \<longleftrightarrow> x = ip" for x
        using hub_okD(6) [OF ok, of x c] m by (auto simp: owner_at_def)
      then show ?thesis by (simp add: set_switch_ips_of)
    qed
    then obtain xs where "switch_ips_of (vh_network g) c (vh_routes g) = ip # xs"
      by (cases "switch_ips_of (vh_network g) c (vh_routes g)") (simp, metis list.set_intros(1) singletonD)
    then show ?thesis by (simp add: address_of_def)
  qed
  moreover have "d = c" if "member_ip c g = Some ip" "member_ip d g = Some ip" for d
    using lt.lease_inj [OF hub_okD(3) [OF ok], of d ip c] that by (simp add: member_ip_def)
  ultimately have 4: "member_ip c g = Some ip \<longrightarrow> subnet_contains (vh_subnet g) ip
      \<and> (\<forall>d. member_ip d g = Some ip \<longrightarrow> d = c) \<and> address_of c g = Some ip"
    using hub_okD(7) [OF ok, of c ip] by simp
  have 5: "\<forall>q. member_queue c g = Some q \<longrightarrow> length q \<le> 1024"
    using hub_okD(8) [OF ok, of c] by (simp add: PEER_QUEUE_def)
  note f = hub_okD(4) [OF ok, of c] hub_okD(5) [OF ok, of c] hub_okD(6) [OF ok, of ip c] 4 5
  show ?thesis using f [unfolded member_ip_def member_queue_def owner_at_def] by (intro conjI)
qed

theorem vnet_members_agree_witness:
  "address_of ''a'' (hub_run (demo_hub []) demo_hub_ops) = Some 6
   \<and> switch_lookup ''default'' 6 (vh_routes (hub_run (demo_hub []) demo_hub_ops)) = Some ''a''"
proof -
  let ?g = "hub_run (demo_hub []) demo_hub_ops"
  have "(pool_get ''a'' (vh_pool ?g), vh_network ?g) = (Some 6, ''default'')" by code_simp
  with vnet_members_agree [OF demo_hub(1) refl, of demo_hub_ops "''a''" 6] show ?thesis by simp
qed

text \<open>C14: forwarding is exact and under the sender's own address. A packet whose source is not the
  address of its sender goes nowhere and is counted; otherwise an echo request to the gateway is
  answered to its sender, a broadcast goes to every other member, and any other packet to the
  holder of its destination. These get it unchanged at the end of their queue if there is room;
  nothing else changes, and the result tells whether anybody got it.\<close>

theorem vnet_forwarding_exact:
  assumes "hub_from_config cfg = Inr g0" "hub_run g0 ops = g" "hub_route c pkt g = (g', sent)"
  shows "(\<forall>d. fmlookup (vh_sinks g') d = (case (fmlookup (vh_sinks g) d, meant_for g c pkt d) of
            (Some q, Some p) \<Rightarrow> Some (if length q < 1024 then q @ [p] else q)
          | (r, _) \<Rightarrow> r))
    \<and> (sent \<longleftrightarrow> (\<exists>d q. meant_for g c pkt d \<noteq> None \<and> fmlookup (vh_sinks g) d = Some q \<and> length q < 1024))
    \<and> vh_pool g' = vh_pool g \<and> vh_routes g' = vh_routes g \<and> vh_owners g' = vh_owners g
    \<and> vh_spoofed g' = vh_spoofed g + (case ipv4_header pkt of None \<Rightarrow> 0 | Some h \<Rightarrow>
          if pool_get c (vh_pool g) = Some (ih_src h) then 0 else 1)"
proof -
  have ok: "hub_ok g" using hub_run_ok [OF assms(1), of ops] assms(2) by simp
  from hub_route_offered [OF ok assms(3)] show ?thesis
    unfolding offered_def same_members_def room_def member_queue_def member_ip_def PEER_QUEUE_def by blast
qed

theorem vnet_forwarding_exact_witness:
  "\<exists>out. icmp_echo_reply demo_ping = Some out
     \<and> fmlookup (vh_sinks (fst (hub_route ''a'' demo_ping (hub_run (demo_hub []) [HubJoin ''a'' None])))) ''a'' = Some [out]"
proof -
  let ?g = "hub_run (demo_hub []) [HubJoin ''a'' None]"
  have e: "(fmlookup (vh_sinks ?g) ''a'', pool_get ''a'' (vh_pool ?g), vh_gateway ?g) = (Some [], Some 6, 1)"
    by code_simp
  have h: "ipv4_header demo_ping = Some \<lparr>ih_src = 6, ih_dst = 1, ih_protocol = 1, ih_header_len = 20\<rparr>"
    by code_simp
  have "icmp_echo_reply demo_ping \<noteq> None" by (simp add: icmp_echo_reply_def h Let_def) (simp add: demo_ping_def)
  then obtain out where out: "icmp_echo_reply demo_ping = Some out" by blast
  have "meant_for ?g ''a'' demo_ping ''a'' = Some out" using e by (simp add: meant_for_def h out member_ip_def)
  then show ?thesis
    using vnet_forwarding_exact [OF demo_hub(1) refl, where ops = "[HubJoin ''a'' None]" and c = "''a''" and pkt = demo_ping
        and g' = "fst (hub_route ''a'' demo_ping ?g)" and sent = "snd (hub_route ''a'' demo_ping ?g)"] e out by simp
qed



text \<open>The gateway's address is given away. Nothing reserves it in the pool: when the configured
  gateway is the highest address for hosts, the first client that joins without asking for an
  address gets it, and from then on no packet of another member reaches this client.\<close>

theorem vnet_gateway_leased:
  assumes "hub_from_config cfg = Inr g0" "subnet_nth (vh_subnet g0) (subnet_size (vh_subnet g0) - 2) = Some (vh_gateway g0)"
    and "hub_join c None g0 = (g1, r)"
  shows "\<exists>j. r = Inr j \<and> jn_ip j = jn_gateway j
    \<and> (\<forall>d pkt h. d \<noteq> c \<and> ipv4_header pkt = Some h \<and> ih_dst h = jn_ip j
        \<longrightarrow> fmlookup (vh_sinks (fst (hub_route d pkt g1))) c = fmlookup (vh_sinks g1) c)"
proof -
  have ok: "hub_ok g0" by (rule hub_new_ok [OF assms(1)])
  let ?n = "subnet_size (vh_subnet g0) - 2"
  have p: "vh_pool g0 = pool_new (vh_subnet g0)" "vh_sinks g0 = fmempty" and sz: "subnet_size (vh_subnet g0) \<ge> 4"
    using assms(1) by (auto simp: hub_from_config_def Let_def res_bind_def split: sum.splits if_splits)
  obtain n where n: "?n = Suc n" using sz by (cases ?n) auto
  have "snd (pool_acquire c (vh_pool g0)) = Some (vh_gateway g0)"
    using assms(2) n by (simp add: p pool_acquire_def pool_new_def)
  then have a: "join_address c None g0 = (fst (pool_acquire c (vh_pool g0)), Inr (vh_gateway g0))"
    by (auto simp: join_address_def split: prod.splits)
  have r: "r = Inr \<lparr>jn_ip = vh_gateway g0, jn_subnet = vh_subnet g0, jn_gateway = vh_gateway g0, jn_mtu = vh_mtu g0,
      jn_generation = vh_generation g0 + 1\<rparr>" and g: "vh_gateway g1 = vh_gateway g0"
    using assms(3) a by (auto simp: hub_join_def p Let_def)
  have ok1: "hub_ok g1" by (rule hub_join_ok [OF ok assms(3)])
  have "fmlookup (vh_sinks (fst (hub_route d pkt g1))) c = fmlookup (vh_sinks g1) c"
    if "d \<noteq> c" "ipv4_header pkt = Some h" "ih_dst h = vh_gateway g0" for d pkt h
  proof -
    have "meant_for g1 d pkt c = None" using that g by (simp add: meant_for_def)
    then show ?thesis using hub_route_offered [OF ok1, of d pkt "fst (hub_route d pkt g1)" "snd (hub_route d pkt g1)"]
      by (auto simp: offered_def member_queue_def split: option.splits)
  qed
  then show ?thesis using r by auto
qed

theorem vnet_gateway_leased_witness:
  "\<exists>j. snd (hub_join ''a'' None (demo_hub ''0.0.0.6'')) = Inr j \<and> jn_ip j = jn_gateway j"
proof -
  let ?g = "demo_hub ''0.0.0.6''"
  have "subnet_nth (vh_subnet ?g) (subnet_size (vh_subnet ?g) - 2) = Some (vh_gateway ?g)" by code_simp
  from vnet_gateway_leased [OF demo_hub(2) this, of "''a''" "fst (hub_join ''a'' None ?g)" "snd (hub_join ''a'' None ?g)"]
  show ?thesis by auto
qed

text \<open>A late cleanup does no harm. After a client has joined again, however much has happened in
  between, the cleanup of its earlier membership changes nothing.\<close>

theorem vnet_stale_cleanup:
  assumes "hub_from_config cfg = Inr g0" "hub_run g0 ops = g"
    and "hub_join c want g = (g1, Inr j1)" "hub_run g1 others = g2" "length others < 2 ^ 64 - 1"
    and "hub_join c want2 g2 = (g3, Inr j2)"
  shows "leave_if_current c (jn_generation j1) g3 = g3"
proof -
  have ok: "hub_ok g" using hub_run_ok [OF assms(1), of ops] assms(2) by simp
  have ok1: "hub_ok g1" by (rule hub_join_ok [OF ok assms(3)])
  have "hub_ok h \<Longrightarrow> hub_ok (foldl hub_step h others)" for h by (induction others arbitrary: h) (auto intro: hub_step_ok)
  then have ok2: "hub_ok g2" using ok1 assms(4) by (auto simp: hub_run_def)
  have gen: "jn_generation j = vh_generation k' \<and> vh_generation k' = vh_generation k + 1
      \<and> fmlookup (vh_owners k') c = Some (jn_generation j)"
    if "hub_ok k" "hub_join c w k = (k', Inr j)" for k k' w j
    using that by (cases rule: hub_join_cases) (auto simp: leave_locked_def)
  obtain n where n: "n \<le> length others" "vh_generation g2 = vh_generation g1 + of_nat n"
    using hub_run_generation [OF ok1, of others] assms(4) by (auto simp: hub_run_def)
  have "jn_generation j2 = jn_generation j1 + of_nat (Suc n)"
    using gen [OF ok assms(3)] gen [OF ok2 assms(6)] n(2) by (simp add: add.commute add.left_commute)
  moreover have "(of_nat (Suc n) :: u64) \<noteq> 0"
  proof -
    have "unat (of_nat (Suc n) :: u64) = Suc n mod 2 ^ LENGTH(64)" by (rule unat_of_nat)
    then have "unat (of_nat (Suc n) :: u64) \<noteq> 0" using n(1) assms(5) by simp
    then show ?thesis by (metis unsigned_0)
  qed
  ultimately have "jn_generation j2 \<noteq> jn_generation j1" by (metis add_cancel_right_right)
  then show ?thesis using gen [OF ok2 assms(6)] by (auto simp: leave_if_current_def)
qed

theorem vnet_stale_cleanup_witness:
  "leave_if_current ''a'' 1 (fst (hub_join ''a'' None (hub_run (fst (hub_join ''a'' None (demo_hub []))) demo_hub_ops)))
    = fst (hub_join ''a'' None (hub_run (fst (hub_join ''a'' None (demo_hub []))) demo_hub_ops))"
proof -
  let ?g = "hub_run (demo_hub []) []"
  let ?g2 = "hub_run (fst (hub_join ''a'' None ?g)) demo_hub_ops"
  have "\<not> isl (snd (hub_join ''a'' None ?g))" "\<not> isl (snd (hub_join ''a'' None ?g2))"
    "jn_generation (projr (snd (hub_join ''a'' None ?g))) = 1" by code_simp+
  then obtain j1 j2 where j: "hub_join ''a'' None ?g = (fst (hub_join ''a'' None ?g), Inr j1)" "jn_generation j1 = 1"
    "hub_join ''a'' None ?g2 = (fst (hub_join ''a'' None ?g2), Inr j2)"
    by (metis prod.collapse sum.collapse(2))
  from vnet_stale_cleanup [OF demo_hub(1) refl j(1) refl _ j(3)] show ?thesis
    by (simp add: j(2) hub_run_def demo_hub_ops_def)
qed

end
