(* ===== verification/Http_Io.thy ===== *)
theory Http_Io
  imports Rust_Std
begin

text \<open>
  Buffered reading of HTTP messages (\<open>HttpIo\<close> of \<open>common/src/http_relay.rs\<close>). The stream under a
  reader is the list of what its future reads return; an empty list, or an empty read, is the end
  of the stream.
\<close>

section \<open>The reader\<close>

definition MAX_HEAD :: nat where "MAX_HEAD = 64 * 1024"
definition MAX_BODY :: nat where "MAX_BODY = 32 * 1024 * 1024"

datatype http_error =
    HeadTooLong nat | HeadUnterminated | BodyTooLarge nat | ReadEnded nat nat
  | BadChunkSize string | ChunkedTooLarge | LineTooLong | LineEnded | EmptyHead
  | LengthRepeated nat | LengthNotDecimal string | LengthOverflow string | RelayEnded nat

record http_io =
  hi_buf :: bytes
  hi_pos :: nat
  hi_reads :: "bytes list"

definition http_io_new :: "bytes list \<Rightarrow> http_io" where
  "http_io_new reads = \<lparr>hi_buf = [], hi_pos = 0, hi_reads = reads\<rparr>"

definition with_prefill :: "bytes list \<Rightarrow> bytes \<Rightarrow> http_io" where
  "with_prefill reads pre = \<lparr>hi_buf = pre, hi_pos = 0, hi_reads = reads\<rparr>"

definition available :: "http_io \<Rightarrow> nat" where
  "available io = length (hi_buf io) - hi_pos io"

definition unread :: "http_io \<Rightarrow> bytes" where
  "unread io = drop (hi_pos io) (hi_buf io)"

definition compact :: "http_io \<Rightarrow> http_io" where
  "compact io =
     (if 0 < hi_pos io \<and> hi_pos io = length (hi_buf io) then io\<lparr>hi_buf := [], hi_pos := 0\<rparr>
      else if 64 * 1024 < hi_pos io then io\<lparr>hi_buf := drop (hi_pos io) (hi_buf io), hi_pos := 0\<rparr>
      else io)"

definition io_take :: "nat \<Rightarrow> http_io \<Rightarrow> bytes \<times> http_io" where
  "io_take n io = (take n (unread io), compact (io\<lparr>hi_pos := hi_pos io + n\<rparr>))"

definition fill :: "http_io \<Rightarrow> http_io \<times> nat" where
  "fill io =
     (case hi_reads io of
        [] \<Rightarrow> (io, 0)
      | c # cs \<Rightarrow> (io\<lparr>hi_buf := hi_buf io @ c, hi_reads := cs\<rparr>, length c))"

definition watch_closed :: "http_io \<Rightarrow> http_io \<times> bool" where
  "watch_closed io =
     (if 0 < available io then (io, False)
      else case fill io of (io', n) \<Rightarrow> (io', n = 0))"

definition take_buffered :: "http_io \<Rightarrow> bytes \<times> http_io" where
  "take_buffered io = (if available io = 0 then ([], io) else io_take (available io) io)"

definition find_subslice :: "bytes \<Rightarrow> bytes \<Rightarrow> nat option" where
  "find_subslice hay needle =
     (if needle = [] \<or> length hay < length needle then None else find_from needle 0 hay)"

section \<open>Heads and lines\<close>

definition CRLF :: bytes where "CRLF = [13, 10]"

definition head_lines :: "bytes \<Rightarrow> string list" where
  "head_lines raw = filter (\<lambda>l. l \<noteq> []) (split_on2 (CHR 13) (CHR 10) (from_utf8_lossy raw))"

lemma fill_reads: "fill io = (io', n) \<Longrightarrow> n \<noteq> 0 \<Longrightarrow> length (hi_reads io') < length (hi_reads io)"
  by (auto simp: fill_def split: list.splits)

function read_head_raw :: "http_io \<Rightarrow> (http_error + (bytes \<times> string list) option) \<times> http_io" where
  "read_head_raw io =
     (case find_subslice (unread io) (CRLF @ CRLF) of
        Some idx \<Rightarrow>
          (let head_len = idx + 4 in
           if head_len > MAX_HEAD then (Inl (HeadTooLong head_len), io)
           else case io_take head_len io of
                  (raw, io') \<Rightarrow> (Inr (Some (raw, head_lines raw)), io'))
      | None \<Rightarrow>
          (if available io \<ge> MAX_HEAD then (Inl HeadUnterminated, io)
           else case fill io of
                  (io', n) \<Rightarrow> if n = 0 then (Inr None, io') else read_head_raw io'))"
  by pat_completeness auto
termination
  by (relation "measure (\<lambda>io. length (hi_reads io))") (auto dest!: fill_reads [OF sym])

definition read_head :: "http_io \<Rightarrow> (http_error + string list option) \<times> http_io" where
  "read_head io = (case read_head_raw io of (r, io') \<Rightarrow> (map_sum id (map_option snd) r, io'))"

function read_line :: "http_io \<Rightarrow> (http_error + string) \<times> http_io" where
  "read_line io =
     (case find_subslice (unread io) CRLF of
        Some idx \<Rightarrow>
          (case io_take (idx + 2) io of
             (raw, io') \<Rightarrow> (Inr (from_utf8_lossy (take idx raw)), io'))
      | None \<Rightarrow>
          (if available io > MAX_HEAD then (Inl LineTooLong, io)
           else case fill io of
                  (io', n) \<Rightarrow> if n = 0 then (Inl LineEnded, io') else read_line io'))"
  by pat_completeness auto
termination
  by (relation "measure (\<lambda>io. length (hi_reads io))") (auto dest!: fill_reads [OF sym])

section \<open>Bodies\<close>

function read_more :: "nat \<Rightarrow> http_io \<Rightarrow> http_io \<times> bool" where
  "read_more n io =
     (if available io < n then
        (case fill io of (io', k) \<Rightarrow> if k = 0 then (io', False) else read_more n io')
      else (io, True))"
  by pat_completeness auto
termination
  by (relation "measure (\<lambda>(n, io). length (hi_reads io))") (auto dest!: fill_reads [OF sym])

definition read_n :: "nat \<Rightarrow> http_io \<Rightarrow> (http_error + bytes) \<times> http_io" where
  "read_n n io =
     (if n > MAX_BODY then (Inl (BodyTooLarge n), io)
      else case read_more n io of
             (io', False) \<Rightarrow> (Inl (ReadEnded n (available io')), io')
           | (io', True) \<Rightarrow> map_prod Inr id (io_take n io'))"

declare read_head_raw.simps [simp del] read_line.simps [simp del] read_more.simps [simp del]

text \<open>What is still to come on the stream of a reader.\<close>

definition stream :: "http_io \<Rightarrow> bytes" where
  "stream io = unread io @ concat (hi_reads io)"

definition io_ok :: "http_io \<Rightarrow> bool" where
  "io_ok io \<longleftrightarrow> hi_pos io \<le> length (hi_buf io)"

lemma unread_compact [simp]: "unread (compact io) = unread io" "hi_reads (compact io) = hi_reads io"
  by (simp_all add: unread_def compact_def)

lemma unread_take: "unread (snd (io_take n io)) = drop n (unread io)" "hi_reads (snd (io_take n io)) = hi_reads io"
  "fst (io_take n io) = take n (unread io)"
  by (simp_all add: io_take_def) (simp add: unread_def add.commute)

lemma io_ok_take: "n \<le> length (unread io) \<Longrightarrow> io_ok io \<Longrightarrow> io_ok (snd (io_take n io))"
  by (auto simp: io_take_def io_ok_def compact_def unread_def)

lemma stream_take: "n \<le> length (unread io) \<Longrightarrow> stream (snd (io_take n io)) = drop n (stream io)"
  by (simp add: stream_def unread_take)

lemma available_unread: "available io = length (unread io)"
  by (simp add: available_def unread_def)

lemma stream_fill: "io_ok io \<Longrightarrow> stream (fst (fill io)) = stream io"
  by (auto simp: fill_def stream_def unread_def io_ok_def split: list.splits)

lemma io_ok_fill: "io_ok io \<Longrightarrow> io_ok (fst (fill io))"
  by (auto simp: fill_def io_ok_def split: list.splits)

lemma stream_fill_le: "length (stream (fst (fill io))) \<le> length (stream io)"
  by (auto simp: fill_def stream_def unread_def split: list.splits)

lemma find_from_Some:
  "find_from pat i xs = Some j \<Longrightarrow>
     i \<le> j \<and> j - i < length xs \<and> take (length pat) (drop (j - i) xs) = pat"
proof (induction pat i xs rule: find_from.induct)
  case (2 pat i x xs)
  show ?case
  proof (cases "take (length pat) (x # xs) = pat")
    case True
    then show ?thesis using 2 by simp
  next
    case False
    then have j: "find_from pat (i + 1) xs = Some j" using "2.prems" by simp
    then show ?thesis using "2.IH" [OF False j] by (auto simp: Suc_diff_Suc [symmetric] Suc_le_eq)
  qed
qed simp

lemma find_subslice_Some:
  assumes "find_subslice hay needle = Some i"
  shows "i + length needle \<le> length hay" "take (length needle) (drop i hay) = needle"
proof -
  have f: "find_from needle 0 hay = Some i" "needle \<noteq> []" using assms by (auto simp: find_subslice_def split: if_splits)
  from find_from_Some [OF f(1)] show t: "take (length needle) (drop i hay) = needle" by simp
  have "length (take (length needle) (drop i hay)) = length needle" by (simp add: t)
  then have "length needle \<le> length hay - i" by (simp add: min_def split: if_splits)
  moreover have "0 < length needle" using f(2) by simp
  ultimately show "i + length needle \<le> length hay" by linarith
qed

lemma read_line_shortens: "read_line io = (Inr l, io') \<Longrightarrow> length (stream io') + 2 \<le> length (stream io)"
proof (induction io rule: read_line.induct)
  case (1 io)
  show ?case
  proof (cases "find_subslice (unread io) CRLF")
    case (Some i)
    have b: "i + 2 \<le> length (unread io)" using find_subslice_Some(1) [OF Some] by (simp add: CRLF_def)
    have "io' = snd (io_take (i + 2) io)" using "1.prems" Some by (simp add: read_line.simps [of io] split: prod.splits)
    then show ?thesis using stream_take [OF b] b by (simp add: stream_def)
  next
    case None
    obtain io1 n where f: "fill io = (io1, n)" by (cases "fill io")
    have "\<not> available io > MAX_HEAD" "n \<noteq> 0" "read_line io1 = (Inr l, io')"
      using "1.prems" None f by (auto simp: read_line.simps [of io] split: if_splits)
    with "1.IH" [OF None _ f [symmetric]] stream_fill_le [of io] f show ?thesis by simp
  qed
qed

lemma read_more_le: "length (stream (fst (read_more n io))) \<le> length (stream io)"
proof (induction n io rule: read_more.induct)
  case (1 n io)
  obtain io1 k where f: "fill io = (io1, k)" by (cases "fill io")
  then show ?case using "1.IH" [OF _ f [symmetric]] stream_fill_le [of io]
    by (cases "k = 0") (auto simp: read_more.simps [of n io])
qed

lemma stream_take_le: "length (stream (snd (io_take n io))) \<le> length (stream io)"
  by (simp add: stream_def unread_take)

lemma read_n_le: "length (stream (snd (read_n n io))) \<le> length (stream io)"
proof -
  obtain io1 b where m: "read_more n io = (io1, b)" by (cases "read_more n io")
  show ?thesis using read_more_le [of n io] stream_take_le [of n io1] m
    by (cases b) (simp_all add: read_n_def)
qed

lemma read_n_shortens: "(r, io') = read_n n io \<Longrightarrow> length (stream io') \<le> length (stream io)"
  using read_n_le [of n io] by (metis snd_conv)

subsection \<open>Chunked bodies\<close>

function read_trailers :: "bytes \<Rightarrow> http_io \<Rightarrow> (http_error + bytes) \<times> http_io" where
  "read_trailers out io =
     (case read_line io of
        (Inl e, io') \<Rightarrow> (Inl e, io')
      | (Inr trailer, io') \<Rightarrow>
          (let out' = out @ as_bytes trailer @ CRLF
           in if trailer = [] then (Inr out', io') else read_trailers out' io'))"
  by pat_completeness auto
termination
  by (relation "measure (\<lambda>(out, io). length (stream io))") (auto dest!: read_line_shortens [OF sym])

definition chunk_size_text :: "string \<Rightarrow> string" where
  "chunk_size_text line = trim (hd (split_on CHR '';'' line))"

definition saturating_add_usize :: "nat \<Rightarrow> nat \<Rightarrow> nat" where
  "saturating_add_usize a b = min (2 ^ 64 - 1) (a + b)"

function read_chunks :: "bytes \<Rightarrow> http_io \<Rightarrow> (http_error + bytes) \<times> http_io" where
  "read_chunks out io =
     (case read_line io of
        (Inl e, io1) \<Rightarrow> (Inl e, io1)
      | (Inr line, io1) \<Rightarrow>
          (case from_str_radix (2 ^ 64) 16 (chunk_size_text line) of
             None \<Rightarrow> (Inl (BadChunkSize (chunk_size_text line)), io1)
           | Some size_n \<Rightarrow>
               (let out1 = out @ as_bytes line @ CRLF in
                if size_n = 0 then read_trailers out1 io1
                else if saturating_add_usize (length out1) size_n > MAX_BODY then (Inl ChunkedTooLarge, io1)
                else case read_n size_n io1 of
                       (Inl e, io2) \<Rightarrow> (Inl e, io2)
                     | (Inr data, io2) \<Rightarrow>
                         (case read_n 2 io2 of
                            (Inl e, io3) \<Rightarrow> (Inl e, io3)
                          | (Inr crlf, io3) \<Rightarrow> read_chunks (out1 @ data @ crlf) io3))))"
  by pat_completeness auto
termination
proof (relation "measure (\<lambda>(out, io). length (stream io))", goal_cases)
  case 2
  then show ?case
    by (auto dest!: read_line_shortens [OF sym] read_n_shortens)
qed simp

declare read_trailers.simps [simp del] read_chunks.simps [simp del]

definition read_chunked :: "http_io \<Rightarrow> (http_error + bytes) \<times> http_io" where
  "read_chunked io = read_chunks [] io"

section \<open>Reading does not depend on how the stream is cut\<close>

text \<open>No read of the stream is empty, so only its end looks like one.\<close>

definition io_fine :: "http_io \<Rightarrow> bool" where
  "io_fine io \<longleftrightarrow> io_ok io \<and> [] \<notin> set (hi_reads io)"

definition at_pos :: "bytes \<Rightarrow> bytes \<Rightarrow> nat \<Rightarrow> bool" where
  "at_pos hay needle i \<longleftrightarrow> take (length needle) (drop i hay) = needle"

lemma find_from_exact:
  assumes "pat \<noteq> []"
  shows "find_from pat k xs = Some j \<longleftrightarrow>
    k \<le> j \<and> take (length pat) (drop (j - k) xs) = pat \<and> (\<forall>i<j - k. take (length pat) (drop i xs) \<noteq> pat)"
  using assms
proof (induction pat k xs rule: find_from.induct)
  case (1 pat i)
  then show ?case by auto
next
  case (2 pat k x xs)
  show ?case
  proof (cases "take (length pat) (x # xs) = pat")
    case True
    then have "\<forall>i<j - k. take (length pat) (drop i (x # xs)) \<noteq> pat \<Longrightarrow> \<not> k < j"
      by (metis drop0 zero_less_diff)
    then show ?thesis using True by auto
  next
    case False
    have "(\<forall>i<j - k. take (length pat) (drop i (x # xs)) \<noteq> pat) \<longleftrightarrow>
        (\<forall>i<j - Suc k. take (length pat) (drop i xs) \<noteq> pat)" if "k < j"
      using False that by (auto simp: less_diff_conv less_Suc_eq_0_disj drop_Cons split: nat.splits)
    moreover have "drop (j - k) (x # xs) = drop (j - Suc k) xs" if "k < j"
      using that by (metis Suc_diff_Suc drop_Suc_Cons)
    moreover have "take (length pat) (drop (j - k) (x # xs)) \<noteq> pat" if "j = k" using False that by simp
    ultimately show ?thesis using False "2.IH" [OF False "2.prems"]
      by (cases "k < j") (auto simp: Suc_le_eq)
  qed
qed

lemma find_from_None:
  assumes "pat \<noteq> []"
  shows "find_from pat k xs = None \<longleftrightarrow> (\<forall>i. take (length pat) (drop i xs) \<noteq> pat)"
proof -
  have "(\<exists>i. take (length pat) (drop i xs) = pat) \<longleftrightarrow> (\<exists>j. find_from pat k xs = Some j)"
  proof
    assume "\<exists>i. take (length pat) (drop i xs) = pat"
    then obtain i where "take (length pat) (drop i xs) = pat" "\<forall>m<i. take (length pat) (drop m xs) \<noteq> pat"
      using exists_least_iff [of "\<lambda>i. take (length pat) (drop i xs) = pat"] by blast
    then have "find_from pat k xs = Some (k + i)" by (subst find_from_exact [OF assms]) simp
    then show "\<exists>j. find_from pat k xs = Some j" ..
  next
    assume "\<exists>j. find_from pat k xs = Some j"
    then show "\<exists>i. take (length pat) (drop i xs) = pat" using find_from_exact [OF assms] by blast
  qed
  then show ?thesis by (metis not_None_eq)
qed

lemma at_pos_bound: "at_pos hay needle i \<Longrightarrow> needle \<noteq> [] \<Longrightarrow> i + length needle \<le> length hay"
proof -
  assume a: "at_pos hay needle i" "needle \<noteq> []"
  then have "length (take (length needle) (drop i hay)) = length needle" by (simp add: at_pos_def)
  then have "length needle \<le> length hay - i" by (simp add: min_def split: if_splits)
  moreover have "0 < length needle" using a(2) by simp
  ultimately show "i + length needle \<le> length hay" by linarith
qed

lemma find_subslice_exact:
  assumes "needle \<noteq> []"
  shows "find_subslice hay needle = Some i \<longleftrightarrow> at_pos hay needle i \<and> (\<forall>j<i. \<not> at_pos hay needle j)"
proof (cases "length hay < length needle")
  case True
  then have "\<not> at_pos hay needle i" using at_pos_bound [OF _ assms, of hay i] by auto
  then show ?thesis using True by (simp add: find_subslice_def)
next
  case False
  then show ?thesis using assms find_from_exact [OF assms, of 0 hay i] by (simp add: find_subslice_def at_pos_def)
qed

lemma find_subslice_None:
  assumes "needle \<noteq> []"
  shows "find_subslice hay needle = None \<longleftrightarrow> (\<forall>i. \<not> at_pos hay needle i)"
  using find_subslice_exact [OF assms, of hay] by (metis (no_types, lifting) exists_least_iff not_None_eq option.simps(3))

lemma at_pos_append:
  assumes "i + length needle \<le> length hay"
  shows "at_pos (hay @ rest) needle i \<longleftrightarrow> at_pos hay needle i"
  using assms by (simp add: at_pos_def)

text \<open>What is found in a stream is found in its buffer once all of it has arrived.\<close>

lemma find_subslice_append:
  assumes "needle \<noteq> []"
  shows "find_subslice hay needle = (case find_subslice (hay @ rest) needle of
     None \<Rightarrow> None | Some i \<Rightarrow> if i + length needle \<le> length hay then Some i else None)"
proof (cases "find_subslice (hay @ rest) needle")
  case None
  then have "\<not> at_pos hay needle i" for i
    using at_pos_append [of i needle hay rest] at_pos_bound [OF _ assms, of hay i] find_subslice_None [OF assms, of "hay @ rest"]
    by blast
  then show ?thesis using None find_subslice_None [OF assms, of hay] by simp
next
  case (Some i)
  note f = Some [unfolded find_subslice_exact [OF assms]]
  have less: "\<not> at_pos hay needle j" if "j < i" for j
    using f that at_pos_append [of j needle hay rest] at_pos_bound [OF _ assms, of hay j] by blast
  show ?thesis
  proof (cases "i + length needle \<le> length hay")
    case True
    then have "at_pos hay needle i" using f at_pos_append by blast
    then have "find_subslice hay needle = Some i" using less find_subslice_exact [OF assms, of hay i] by blast
    then show ?thesis using Some True by simp
  next
    case False
    have "\<not> at_pos hay needle j" for j
    proof (cases "j < i")
      case True
      then show ?thesis by (rule less)
    next
      case ge: False
      then show ?thesis using False at_pos_bound [OF _ assms, of hay j] by auto
    qed
    then show ?thesis using Some False find_subslice_None [OF assms, of hay] by simp
  qed
qed

lemma fill_fine:
  assumes "io_fine io" "fill io = (io', n)"
  shows "io_fine io'" "stream io' = stream io" "n = 0 \<longleftrightarrow> stream io = unread io"
    "n = 0 \<Longrightarrow> io' = io"
  using assms stream_fill [of io] io_ok_fill [of io]
  by (auto simp: io_fine_def fill_def stream_def split: list.splits)

lemma take_fine:
  assumes "io_fine io" "n \<le> length (unread io)" "io_take n io = (raw, io')"
  shows "raw = take n (stream io)" "stream io' = drop n (stream io)" "io_fine io'"
  using assms unread_take [of n io] io_ok_take [of n io] stream_take [of n io]
  by (auto simp: io_fine_def stream_def)

lemma read_head_raw_exact:
  assumes "io_fine io"
  shows "case find_subslice (stream io) (CRLF @ CRLF) of
     Some i \<Rightarrow>
       (if i + 4 \<le> MAX_HEAD
        then \<exists>io'. read_head_raw io = (Inr (Some (take (i + 4) (stream io), head_lines (take (i + 4) (stream io)))), io')
               \<and> stream io' = drop (i + 4) (stream io) \<and> io_fine io'
        else fst (read_head_raw io) \<in> {Inl (HeadTooLong (i + 4)), Inl HeadUnterminated})
   | None \<Rightarrow> fst (read_head_raw io) = (if length (stream io) < MAX_HEAD then Inr None else Inl HeadUnterminated)"
  using assms
proof (induction io rule: read_head_raw.induct)
  case (1 io)
  have ne: "CRLF @ CRLF \<noteq> []" and l4: "length (CRLF @ CRLF) = 4" by (simp_all add: CRLF_def)
  have loc: "find_subslice (unread io) (CRLF @ CRLF) = (case find_subslice (stream io) (CRLF @ CRLF) of
     None \<Rightarrow> None | Some i \<Rightarrow> if i + 4 \<le> length (unread io) then Some i else None)"
    using find_subslice_append [OF ne, of "unread io" "concat (hi_reads io)"] unfolding l4 stream_def .
  show ?case
  proof (cases "find_subslice (unread io) (CRLF @ CRLF)")
    case (Some i)
    then have s: "find_subslice (stream io) (CRLF @ CRLF) = Some i" "i + 4 \<le> length (unread io)"
      using loc by (auto split: option.splits if_splits)
    obtain raw io' where t: "io_take (i + 4) io = (raw, io')" by (cases "io_take (i + 4) io")
    show ?thesis using take_fine [OF "1.prems" s(2) t] Some s(1) t
      by (simp add: read_head_raw.simps [of io] Let_def)
  next
    case None
    obtain io1 n where f: "fill io = (io1, n)" by (cases "fill io")
    note ff = fill_fine [OF "1.prems" f]
    have big: "find_subslice (stream io) (CRLF @ CRLF) = Some i \<Longrightarrow> length (unread io) < i + 4" for i
      using loc None by (auto split: if_splits)
    show ?thesis
    proof (cases "available io \<ge> MAX_HEAD")
      case True
      then have r: "read_head_raw io = (Inl HeadUnterminated, io)" using None by (simp add: read_head_raw.simps [of io])
      have "MAX_HEAD \<le> length (stream io)" using True by (simp add: available_unread stream_def)
      then show ?thesis using r big True by (auto simp: available_unread split: option.splits)
    next
      case avail: False
      show ?thesis
      proof (cases "n = 0")
        case True
        then have "read_head_raw io = (Inr None, io)" using None avail f ff(4) by (simp add: read_head_raw.simps [of io])
        moreover have "stream io = unread io" using True ff(3) by simp
        ultimately show ?thesis using None avail by (simp add: available_unread)
      next
        case False
        then have "read_head_raw io = read_head_raw io1" using None avail f by (simp add: read_head_raw.simps [of io])
        then show ?thesis using "1.IH" [OF None avail f [symmetric] False ff(1)] unfolding ff(2) by (simp only:)
      qed
    qed
  qed
qed

lemma read_line_exact:
  assumes "io_fine io" "find_subslice (stream io) CRLF = Some i" "i < MAX_HEAD"
  shows "\<exists>io'. read_line io = (Inr (from_utf8_lossy (take i (stream io))), io')
     \<and> stream io' = drop (i + 2) (stream io) \<and> io_fine io'"
  using assms
proof (induction io rule: read_line.induct)
  case (1 io)
  have ne: "CRLF \<noteq> []" and l2: "length CRLF = 2" by (simp_all add: CRLF_def)
  have loc: "find_subslice (unread io) CRLF = (if i + 2 \<le> length (unread io) then Some i else None)"
    using find_subslice_append [OF ne, of "unread io" "concat (hi_reads io)"] l2 "1.prems"(2) by (simp add: stream_def)
  show ?case
  proof (cases "i + 2 \<le> length (unread io)")
    case True
    obtain raw io' where t: "io_take (i + 2) io = (raw, io')" by (cases "io_take (i + 2) io")
    show ?thesis using take_fine [OF "1.prems"(1) True t] loc True t
      by (simp add: read_line.simps [of io] min_def)
  next
    case False
    obtain io1 n where f: "fill io = (io1, n)" by (cases "fill io")
    note ff = fill_fine [OF "1.prems"(1) f]
    have None: "find_subslice (unread io) CRLF = None" and avail: "\<not> available io > MAX_HEAD"
      using loc False "1.prems"(3) by (auto simp: available_unread)
    have "i + 2 \<le> length (stream io)" using find_subslice_Some(1) [OF "1.prems"(2)] l2 by simp
    then have n: "n \<noteq> 0" using ff(3) False by auto
    have "read_line io = read_line io1" using None avail f n by (simp add: read_line.simps [of io])
    then show ?thesis using "1.IH" [OF None avail f [symmetric] n ff(1)] "1.prems"(2,3) ff(2) by simp
  qed
qed

lemma read_more_exact:
  assumes "io_fine io"
  shows "snd (read_more n io) = (n \<le> length (stream io))" "stream (fst (read_more n io)) = stream io"
    "io_fine (fst (read_more n io))" "snd (read_more n io) \<Longrightarrow> n \<le> length (unread (fst (read_more n io)))"
    "\<not> snd (read_more n io) \<Longrightarrow> unread (fst (read_more n io)) = stream io"
proof -
  have "snd (read_more n io) = (n \<le> length (stream io)) \<and> stream (fst (read_more n io)) = stream io
    \<and> io_fine (fst (read_more n io)) \<and> (snd (read_more n io) \<longrightarrow> n \<le> length (unread (fst (read_more n io))))
    \<and> (\<not> snd (read_more n io) \<longrightarrow> unread (fst (read_more n io)) = stream io)"
    using assms
  proof (induction n io rule: read_more.induct)
    case (1 n io)
    obtain io1 k where f: "fill io = (io1, k)" by (cases "fill io")
    note ff = fill_fine [OF "1.prems" f]
    show ?case
    proof (cases "available io < n")
      case False
      then show ?thesis using "1.prems" by (simp add: read_more.simps [of n io] available_unread stream_def)
    next
      case True
      show ?thesis
      proof (cases "k = 0")
        case k: True
        then have "io1 = io" "stream io = unread io" using ff by auto
        then show ?thesis using True f k "1.prems" by (simp add: read_more.simps [of n io] available_unread)
      next
        case False
        then show ?thesis using True f ff(2) "1.IH" [OF True f [symmetric] False ff(1)]
          by (simp add: read_more.simps [of n io])
      qed
    qed
  qed
  then show "snd (read_more n io) = (n \<le> length (stream io))" "stream (fst (read_more n io)) = stream io"
    "io_fine (fst (read_more n io))" "snd (read_more n io) \<Longrightarrow> n \<le> length (unread (fst (read_more n io)))"
    "\<not> snd (read_more n io) \<Longrightarrow> unread (fst (read_more n io)) = stream io" by auto
qed

lemma read_n_exact:
  assumes "io_fine io"
  shows "read_n n io = (Inr bs, io') \<longleftrightarrow>
     n \<le> MAX_BODY \<and> n \<le> length (stream io) \<and> read_n n io = (Inr (take n (stream io)), io') \<and> bs = take n (stream io)
     \<and> stream io' = drop n (stream io) \<and> io_fine io'"
proof -
  obtain io1 b where m: "read_more n io = (io1, b)" by (cases "read_more n io")
  note mm = read_more_exact [OF assms, of n, unfolded m fst_conv snd_conv]
  show ?thesis
  proof (cases b)
    case True
    obtain raw io2 where t: "io_take n io1 = (raw, io2)" by (cases "io_take n io1")
    show ?thesis using take_fine [OF mm(3) mm(4) [OF True] t] True m mm t by (auto simp: read_n_def)
  next
    case False
    then show ?thesis using m by (auto simp: read_n_def)
  qed
qed

lemma read_n_ok:
  assumes "io_fine io" "n \<le> MAX_BODY" "n \<le> length (stream io)"
  obtains io' where "read_n n io = (Inr (take n (stream io)), io')" "stream io' = drop n (stream io)" "io_fine io'"
proof -
  obtain io1 b where m: "read_more n io = (io1, b)" by (cases "read_more n io")
  note mm = read_more_exact [OF assms(1), of n, unfolded m fst_conv snd_conv]
  obtain raw io2 where t: "io_take n io1 = (raw, io2)" by (cases "io_take n io1")
  have b using mm(1) assms(3) by simp
  then have "read_n n io = (Inr (take n (stream io)), io2)"
    using assms(2) m t take_fine [OF mm(3) mm(4) t] mm(2) by (simp add: read_n_def)
  then show ?thesis using that take_fine [OF mm(3) mm(4) t] mm(2) \<open>b\<close> by simp
qed

end
