(* ===== verification/Http_Head.thy ===== *)
theory Http_Head
  imports Http_Io
begin

text \<open>
  The head of an HTTP message and its framing (\<open>HeadParts\<close> and the functions after it in
  \<open>common/src/http_relay.rs\<close>): reading, rewriting and writing headers, which body follows a head,
  the checks of the framing headers, and copying a body from one connection to the other.
\<close>

section \<open>Heads\<close>

record head_parts =
  hp_start :: string
  hp_headers :: "(string \<times> string) list"

definition parse_head :: "string list \<Rightarrow> http_error + head_parts" where
  "parse_head lines =
     (case lines of
        [] \<Rightarrow> Inl EmptyHead
      | start # rest \<Rightarrow>
          Inr \<lparr>hp_start = start,
               hp_headers = List.map_filter (\<lambda>l. map_option (map_prod trim trim) (split_once CHR '':'' l)) rest\<rparr>)"

definition head_get :: "head_parts \<Rightarrow> string \<Rightarrow> string option" where
  "head_get h name = map_option snd (find (\<lambda>(k, _). eq_ignore_ascii_case k name) (hp_headers h))"

definition head_get_all :: "head_parts \<Rightarrow> string \<Rightarrow> string list" where
  "head_get_all h name = map snd (filter (\<lambda>(k, _). eq_ignore_ascii_case k name) (hp_headers h))"

definition head_count :: "head_parts \<Rightarrow> string \<Rightarrow> nat" where
  "head_count h name = length (filter (\<lambda>(k, _). eq_ignore_ascii_case k name) (hp_headers h))"

definition is_digit :: "char \<Rightarrow> bool" where
  "is_digit c \<longleftrightarrow> 48 \<le> (of_char c :: nat) \<and> (of_char c :: nat) \<le> 57"

definition content_length_strict :: "head_parts \<Rightarrow> http_error + nat" where
  "content_length_strict h =
     (let vals = head_get_all h ''content-length'' in
      if vals = [] then Inr 0
      else if length vals > 1 then Inl (LengthRepeated (length vals))
      else let s = trim (hd vals) in
           if s = [] \<or> \<not> list_all is_digit s then Inl (LengthNotDecimal (hd vals))
           else ok_or (LengthOverflow s) (from_str_radix (2 ^ 64) 10 s))"

definition ALLOW_MULTI :: "string list" where
  "ALLOW_MULTI = [''set-cookie'', ''www-authenticate'', ''proxy-authenticate'', ''warning'']"

fun dedup_loop :: "string list \<Rightarrow> (string \<times> string) list \<Rightarrow> (string \<times> string) list" where
  "dedup_loop seen [] = []"
| "dedup_loop seen ((k, v) # hs) =
     (let lk = to_ascii_lowercase k in
      if List.member ALLOW_MULTI lk then (k, v) # dedup_loop seen hs
      else if List.member seen lk then dedup_loop seen hs
      else (k, v) # dedup_loop (seen @ [lk]) hs)"

definition dedup_headers :: "head_parts \<Rightarrow> head_parts \<times> nat" where
  "dedup_headers h =
     (let hs = dedup_loop [] (hp_headers h)
      in (h\<lparr>hp_headers := hs\<rparr>, length (hp_headers h) - length hs))"

definition strip_crlf :: "string \<Rightarrow> string" where
  "strip_crlf s =
     (if \<not> list_ex (\<lambda>c. c = CHR 13 \<or> c = CHR 10 \<or> c = CHR 0x00) s then s
      else filter (\<lambda>c. c \<noteq> CHR 13 \<and> c \<noteq> CHR 10 \<and> c \<noteq> CHR 0x00) s)"

fun put_header :: "string \<Rightarrow> string \<Rightarrow> (string \<times> string) list \<Rightarrow> (string \<times> string) list" where
  "put_header name v [] = [(name, v)]"
| "put_header name v ((k, w) # hs) =
     (if eq_ignore_ascii_case k name then (k, v) # hs else (k, w) # put_header name v hs)"

definition head_set :: "string \<Rightarrow> string \<Rightarrow> head_parts \<Rightarrow> head_parts" where
  "head_set name value h = h\<lparr>hp_headers := put_header (strip_crlf name) (strip_crlf value) (hp_headers h)\<rparr>"

definition head_remove :: "string \<Rightarrow> head_parts \<Rightarrow> head_parts" where
  "head_remove name h = h\<lparr>hp_headers := filter (\<lambda>(k, _). \<not> eq_ignore_ascii_case k name) (hp_headers h)\<rparr>"

definition start_token :: "head_parts \<Rightarrow> nat \<Rightarrow> string option" where
  "start_token h n = nth_opt (split_whitespace (hp_start h)) n"

definition header_line :: "string \<times> string \<Rightarrow> string" where
  "header_line kv = strip_crlf (fst kv) @ '': '' @ strip_crlf (snd kv) @ [CHR 13, CHR 10]"

definition head_to_bytes :: "head_parts \<Rightarrow> bytes" where
  "head_to_bytes h =
     as_bytes (strip_crlf (hp_start h) @ [CHR 13, CHR 10] @ concat (map header_line (hp_headers h)) @ [CHR 13, CHR 10])"

section \<open>Keep-alive and framing\<close>

definition connection_has :: "string \<Rightarrow> string \<Rightarrow> bool" where
  "connection_has t conn \<longleftrightarrow> list_ex (\<lambda>x. trim x = t) (split_on CHR '','' conn)"

definition wants_keep_alive :: "head_parts \<Rightarrow> bool" where
  "wants_keep_alive h =
     (let conn = (case head_get h ''connection'' of Some v \<Rightarrow> to_ascii_lowercase v | None \<Rightarrow> []) in
      if connection_has ''close'' conn then False
      else if str_contains (to_ascii_uppercase (hp_start h)) ''HTTP/1.0'' then connection_has ''keep-alive'' conn
      else True)"

definition body_length :: "head_parts \<Rightarrow> nat option" where
  "body_length h =
     (case head_get h ''content-length'' of
        None \<Rightarrow> None
      | Some v \<Rightarrow> from_str_radix (2 ^ 64) 10 (trim v))"

definition te_tokens :: "string \<Rightarrow> string list" where
  "te_tokens raw = filter (\<lambda>s. s \<noteq> []) (map (\<lambda>s. to_ascii_lowercase (trim s)) (split_on CHR '','' raw))"

definition transfer_encoding_tokens :: "head_parts \<Rightarrow> string list option" where
  "transfer_encoding_tokens h =
     (case head_get h ''transfer-encoding'' of
        None \<Rightarrow> None
      | Some raw \<Rightarrow> (let toks = te_tokens raw in if toks = [] then None else Some toks))"

definition plain_chunked :: "string list \<Rightarrow> bool" where
  "plain_chunked toks \<longleftrightarrow> last toks = ''chunked'' \<and> list_all (\<lambda>s. s = ''identity'') (butlast toks)"

definition is_chunked :: "head_parts \<Rightarrow> bool" where
  "is_chunked h =
     (case transfer_encoding_tokens h of Some t \<Rightarrow> plain_chunked t | None \<Rightarrow> False)"

definition transfer_encoding_is_unsupported :: "head_parts \<Rightarrow> bool" where
  "transfer_encoding_is_unsupported h =
     (case transfer_encoding_tokens h of None \<Rightarrow> False | Some toks \<Rightarrow> \<not> plain_chunked toks)"

definition has_no_body :: "head_parts \<Rightarrow> bool" where
  "has_no_body h =
     (if take 5 (to_ascii_uppercase (hp_start h)) = ''HTTP/'' then
        (case Option.bind (start_token h 1) (from_str_radix (2 ^ 16) 10) of
           Some c \<Rightarrow> (100 \<le> c \<and> c < 200) \<or> c = 204 \<or> c = 304
         | None \<Rightarrow> False)
      else False)"

definition wants_upgrade :: "head_parts \<Rightarrow> bool" where
  "wants_upgrade h =
     (if head_get h ''upgrade'' = None then False
      else case head_get h ''connection'' of
             None \<Rightarrow> False
           | Some v \<Rightarrow> list_ex (\<lambda>t. eq_ignore_ascii_case (trim t) ''upgrade'') (split_on CHR '','' v))"

definition HOP_BY_HOP :: "string list" where
  "HOP_BY_HOP = [''connection'', ''keep-alive'', ''proxy-authenticate'', ''proxy-authorization'',
     ''proxy-connection'', ''te'', ''trailer'', ''upgrade'']"

definition connection_tokens :: "head_parts \<Rightarrow> string list" where
  "connection_tokens h =
     (case head_get h ''connection'' of
        None \<Rightarrow> []
      | Some v \<Rightarrow> filter (\<lambda>t. t \<noteq> []) (map trim (split_on CHR '','' v)))"

datatype framing_error = LengthAndEncoding | RepeatedLength | EncodingUnsupported

definition validate_request_framing :: "head_parts \<Rightarrow> framing_error + unit" where
  "validate_request_framing h =
     (let has_te = head_get h ''transfer-encoding'' \<noteq> None; cl_count = head_count h ''content-length'' in
      if has_te \<and> cl_count > 0 then Inl LengthAndEncoding
      else if cl_count > 1 then Inl RepeatedLength
      else if transfer_encoding_is_unsupported h then Inl EncodingUnsupported
      else Inr ())"

definition validate_response_framing :: "head_parts \<Rightarrow> framing_error + unit" where
  "validate_response_framing h =
     (if has_no_body h then Inr ()
      else
        let has_te = head_get h ''transfer-encoding'' \<noteq> None; cl_count = head_count h ''content-length'' in
        if has_te \<and> cl_count > 0 then Inl LengthAndEncoding
        else if cl_count > 1 then Inl RepeatedLength
        else if transfer_encoding_is_unsupported h then Inl EncodingUnsupported
        else Inr ())"

definition strip_hop_by_hop :: "head_parts \<Rightarrow> head_parts" where
  "strip_hop_by_hop h = fold head_remove (HOP_BY_HOP @ connection_tokens h) h"

section \<open>Copying bodies\<close>

text \<open>
  Each function returns what it has written downstream, its result and the reader. The test for an
  empty chunk only makes \<open>relay_fixed\<close> total: no chunk of a well-formed reader is empty there.
\<close>

function relay_fixed :: "nat \<Rightarrow> http_io \<Rightarrow> bytes \<times> (http_error + unit) \<times> http_io" where
  "relay_fixed remaining up =
     (if remaining = 0 then ([], Inr (), up)
      else
        let want = min remaining (64 * 1024);
            (up1, n) = (if available up = 0 then fill up else (up, 1))
        in if n = 0 then ([], Inl (RelayEnded remaining), up1)
           else
             let k = min (available up1) want;
                 (chunk, up2) = io_take k up1
             in if chunk = [] then ([], Inl (RelayEnded remaining), up2)
                else case relay_fixed (remaining - length chunk) up2 of
                       (w, r, up3) \<Rightarrow> (chunk @ w, r, up3))"
  by pat_completeness auto
termination
  by (relation "measure (\<lambda>(remaining, up). remaining)") auto

function relay_until_eof :: "http_io \<Rightarrow> bytes \<times> http_io" where
  "relay_until_eof up =
     (if available up > 0 then
        (case io_take (available up) up of
           (chunk, up1) \<Rightarrow> (case relay_until_eof up1 of (w, up2) \<Rightarrow> (chunk @ w, up2)))
      else case fill up of
             (up1, n) \<Rightarrow> if n = 0 then ([], up1) else relay_until_eof up1)"
  by pat_completeness auto
termination
proof (relation "measures [\<lambda>up. length (hi_reads up), \<lambda>up. available up]", goal_cases)
  case (2 up chunk up1)
  then have "up1 = snd (io_take (available up) up)" by (metis snd_conv)
  then show ?case using 2(1) unread_take [of "available up" up] by (simp add: available_unread)
qed (auto dest!: fill_reads [OF sym])

declare relay_fixed.simps [simp del] relay_until_eof.simps [simp del]

definition relay_chunked :: "http_io \<Rightarrow> bytes \<times> (http_error + unit) \<times> http_io" where
  "relay_chunked up =
     (case read_chunked up of
        (Inl e, up') \<Rightarrow> ([], Inl e, up')
      | (Inr raw, up') \<Rightarrow> (raw, Inr (), up'))"

definition relay_body :: "http_io \<Rightarrow> head_parts \<Rightarrow> bytes \<times> (http_error + unit) \<times> http_io" where
  "relay_body up h =
     (if has_no_body h then ([], Inr (), up)
      else if is_chunked h then relay_chunked up
      else case body_length h of
             Some n \<Rightarrow> if n > 0 then relay_fixed n up else ([], Inr (), up)
           | None \<Rightarrow> (case relay_until_eof up of (w, up') \<Rightarrow> (w, Inr (), up')))"

definition relay_request_body :: "http_io \<Rightarrow> head_parts \<Rightarrow> bytes \<times> (http_error + unit) \<times> http_io" where
  "relay_request_body up h =
     (if is_chunked h then relay_chunked up
      else case body_length h of
             Some n \<Rightarrow> if n > 0 then relay_fixed n up else ([], Inr (), up)
           | None \<Rightarrow> ([], Inr (), up))"

end
