(* ===== verification/Http_Forward.thy ===== *)
theory Http_Forward
  imports Http_Head Vhost Rust_Net Const_Time Sni
begin

text \<open>
  What the server does with the requests of a visitor of an HTTP or tcpmux port (\<open>handle_http\<close>,
  \<open>handle_tcpmux\<close> and their helpers in \<open>server/src/vhost.rs\<close>): the checks, the route, the request as
  it is sent to the work connection, the response as it is sent back. Base64 decoding is a
  parameter; what the work connections do is a list with one entry per request that gets that far.
\<close>

type_synonym base64_fn = "bytes \<Rightarrow> bytes option"

section \<open>Paths and credentials\<close>

definition has_dot_segment :: "string \<Rightarrow> bool" where
  "has_dot_segment path =
     list_ex (\<lambda>seg.
        if seg = [] then False
        else let decoded = replace_all ''%2E'' ''.'' (replace_all ''%2e'' ''.'' seg)
             in decoded = ''.'' \<or> decoded = ''..'')
       (split_any (\<lambda>c. c = CHR ''/'' \<or> c = CHR 0x5C \<or> c = CHR ''?'' \<or> c = CHR ''#'') path)"

definition basic_credentials :: "base64_fn \<Rightarrow> string \<Rightarrow> string option" where
  "basic_credentials b64 raw =
     (case split_once CHR '' '' raw of
        None \<Rightarrow> None
      | Some (scheme, value) \<Rightarrow>
          if \<not> eq_ignore_ascii_case scheme ''basic'' then None
          else Option.bind (b64 (as_bytes (trim value))) from_utf8)"

definition basic_auth_user :: "base64_fn \<Rightarrow> head_parts \<Rightarrow> string option" where
  "basic_auth_user b64 h =
     Option.bind (head_get h ''authorization'')
       (\<lambda>raw. map_option (\<lambda>text. hd (split_on CHR '':'' text)) (basic_credentials b64 raw))"

definition proxy_authorization :: "base64_fn \<Rightarrow> head_parts \<Rightarrow> string option \<times> string option" where
  "proxy_authorization b64 h =
     (case head_get h ''proxy-authorization'' of
        None \<Rightarrow> (None, None)
      | Some raw \<Rightarrow>
          (case basic_credentials b64 raw of
             None \<Rightarrow> (None, None)
           | Some text \<Rightarrow>
               (case split_once CHR '':'' text of
                  Some (u, p) \<Rightarrow> (Some u, Some p)
                | None \<Rightarrow> (Some text, Some []))))"

text \<open>The second half of the check of a route with a password decodes the header again.\<close>

definition given_credentials :: "base64_fn \<Rightarrow> head_parts \<Rightarrow> string" where
  "given_credentials b64 h =
     (let raw = (case head_get h ''authorization'' of Some v \<Rightarrow> v | None \<Rightarrow> []) in
      case split_once CHR '' '' raw of
        None \<Rightarrow> []
      | Some (_, v) \<Rightarrow>
          (case Option.bind (b64 (as_bytes (trim v))) from_utf8 of Some t \<Rightarrow> t | None \<Rightarrow> []))"

definition http_auth_ok :: "base64_fn \<Rightarrow> vhost_route \<Rightarrow> string option \<Rightarrow> head_parts \<Rightarrow> bool" where
  "http_auth_ok b64 route auth_user h =
     (if vr_http_user route = [] then True
      else case auth_user of
             None \<Rightarrow> False
           | Some u \<Rightarrow>
               if vr_http_pwd route = [] then constant_time_eq u (vr_http_user route)
               else constant_time_eq u (vr_http_user route)
                    \<and> constant_time_eq (given_credentials b64 h)
                        (vr_http_user route @ '':'' @ vr_http_pwd route))"

section \<open>Responses of the server\<close>

definition crlf :: string where "crlf = [CHR 13, CHR 10]"

definition custom_response :: "string \<Rightarrow> string \<Rightarrow> bytes \<Rightarrow> bytes" where
  "custom_response status content_type body =
     as_bytes (''HTTP/1.1 '' @ status @ crlf
       @ ''Content-Type: '' @ content_type @ crlf
       @ ''Content-Length: '' @ show_nat (length body) @ crlf
       @ ''Connection: close'' @ crlf @ crlf) @ body"

definition simple_response :: "string \<Rightarrow> bytes \<Rightarrow> bytes" where
  "simple_response status body = custom_response status ''text/plain; charset=utf-8'' body"

text \<open>Why the server answers itself; the texts of the bodies are not modelled.\<close>

datatype refusal =
    DotSegment | NoHttpRoute | ConnectUnsupported | Unauthorized | ConnectWithBody
  | EncodingAndLength | LengthTwice | BadEncoding | BadContentLength
  | NoWorkConnection | UpstreamSilent | UpstreamClosed | BadResponseFraming
  | NoMuxRoute | ProxyAuthRequired

fun refusal_status :: "refusal \<Rightarrow> nat" where
  "refusal_status DotSegment = 400"
| "refusal_status NoHttpRoute = 404"
| "refusal_status ConnectUnsupported = 405"
| "refusal_status Unauthorized = 401"
| "refusal_status ConnectWithBody = 400"
| "refusal_status EncodingAndLength = 400"
| "refusal_status LengthTwice = 400"
| "refusal_status BadEncoding = 400"
| "refusal_status BadContentLength = 400"
| "refusal_status NoWorkConnection = 502"
| "refusal_status UpstreamSilent = 502"
| "refusal_status UpstreamClosed = 502"
| "refusal_status BadResponseFraming = 502"
| "refusal_status NoMuxRoute = 404"
| "refusal_status ProxyAuthRequired = 407"

section \<open>A request\<close>

definition request_method :: "head_parts \<Rightarrow> string" where
  "request_method h = (case start_token h 0 of Some m \<Rightarrow> m | None \<Rightarrow> [])"

definition is_connect :: "head_parts \<Rightarrow> bool" where
  "is_connect h = eq_ignore_ascii_case (request_method h) ''CONNECT''"

definition request_path :: "head_parts \<Rightarrow> string" where
  "request_path h = (if is_connect h then ''/'' else case start_token h 1 of Some p \<Rightarrow> p | None \<Rightarrow> ''/'')"

definition request_host :: "head_parts \<Rightarrow> string" where
  "request_host h =
     (let from_header = (case head_get h ''host'' of Some v \<Rightarrow> canonical_host v | None \<Rightarrow> []) in
      if is_connect h then
        (let authority = canonical_host (case start_token h 1 of Some t \<Rightarrow> t | None \<Rightarrow> [])
         in if authority = [] then from_header else authority)
      else from_header)"

definition strip_expect :: "head_parts \<Rightarrow> head_parts \<times> bool" where
  "strip_expect h =
     (case head_get h ''expect'' of
        None \<Rightarrow> (h, False)
      | Some v \<Rightarrow>
          if eq_ignore_ascii_case v ''100-continue'' then (head_remove ''expect'' h, True) else (h, False))"

definition connect_has_body :: "head_parts \<Rightarrow> bool" where
  "connect_has_body h \<longleftrightarrow>
     (let cl_count = head_count h ''content-length'';
          bad_cl = (if cl_count = 0 then False
                    else if cl_count = 1 then content_length_strict h \<noteq> Inr 0
                    else True)
      in bad_cl \<or> head_get h ''transfer-encoding'' \<noteq> None)"

definition check_framing :: "head_parts \<Rightarrow> refusal option" where
  "check_framing h =
     (let has_te = head_get h ''transfer-encoding'' \<noteq> None; cl_count = head_count h ''content-length'' in
      if has_te \<and> cl_count > 0 then Some EncodingAndLength
      else if cl_count > 1 then Some LengthTwice
      else if transfer_encoding_is_unsupported h then Some BadEncoding
      else None)"

text \<open>The body of a request: an error of the stream, a refusal, or the bytes.\<close>

definition read_request_body :: "head_parts \<Rightarrow> http_io \<Rightarrow> (http_error + refusal + bytes) \<times> http_io" where
  "read_request_body h io =
     (if is_connect h then (Inr (Inr []), io)
      else if head_get h ''transfer-encoding'' \<noteq> None then
        (if is_chunked h then map_prod (map_sum id Inr) id (read_chunked io) else (Inr (Inr []), io))
      else if head_count h ''content-length'' > 0 then
        (case content_length_strict h of
           Inl _ \<Rightarrow> (Inr (Inl BadContentLength), io)
         | Inr n \<Rightarrow> if n > 0 then map_prod (map_sum id Inr) id (read_n n io) else (Inr (Inr []), io))
      else (Inr (Inr []), io))"

definition set_route_headers :: "(string \<times> string) list \<Rightarrow> head_parts \<Rightarrow> head_parts" where
  "set_route_headers kvs h =
     fold (\<lambda>(k, _). head_remove k) (filter (\<lambda>(_, v). v = []) kvs)
       (fold (\<lambda>(k, v). if v = [] then id else head_set k v) kvs h)"

text \<open>The order of a hash map is an argument.\<close>

definition rewrite_request :: "vhost_route \<Rightarrow> (string \<times> string) list \<Rightarrow> ip_addr \<Rightarrow> head_parts \<Rightarrow> head_parts" where
  "rewrite_request route hdrs peer h =
     (let h = strip_hop_by_hop h;
          h = fst (dedup_headers h);
          h = (if vr_rewrite_host route \<noteq> [] then head_set ''host'' (vr_rewrite_host route) h else h);
          forwarded = (case head_get h ''x-forwarded-for'' of
                         Some prev \<Rightarrow> prev @ '', '' @ show_ip peer
                       | None \<Rightarrow> show_ip peer);
          h = head_set ''x-forwarded-for'' forwarded h;
          h = head_set ''x-real-ip'' (show_ip peer) h
      in set_route_headers hdrs h)"

text \<open>The verdict on a request that has been read up to the end of its head.\<close>

datatype verdict =
    Fails http_error
  | Refuses refusal
  | Forwards vhost_route head_parts bytes

definition judge_request ::
  "base64_fn \<Rightarrow> vhost_table \<Rightarrow> ip_addr \<Rightarrow> (vhost_route \<Rightarrow> (string \<times> string) list) \<Rightarrow> head_parts \<Rightarrow> http_io
     \<Rightarrow> verdict \<times> http_io" where
  "judge_request b64 table peer order req io =
     (let auth_user = basic_auth_user b64 req; path = request_path req in
      if has_dot_segment path then (Refuses DotSegment, io)
      else
       (case vhost_lookup table (request_host req) path auth_user VhHttp of
          None \<Rightarrow> (Refuses (if is_connect req then ConnectUnsupported else NoHttpRoute), io)
        | Some (route, _) \<Rightarrow>
            (if \<not> http_auth_ok b64 route auth_user req then (Refuses Unauthorized, io)
             else if is_connect req \<and> connect_has_body req then (Refuses ConnectWithBody, io)
             else
              (let req1 = (if is_connect req
                           then head_remove ''trailer'' (head_remove ''transfer-encoding'' (head_remove ''content-length'' req))
                           else req)
               in (case check_framing req1 of
                     Some r \<Rightarrow> (Refuses r, io)
                   | None \<Rightarrow>
                       (case read_request_body req1 io of
                          (Inl e, io1) \<Rightarrow> (Fails e, io1)
                        | (Inr (Inl r), io1) \<Rightarrow> (Refuses r, io1)
                        | (Inr (Inr body), io1) \<Rightarrow>
                            (Forwards route (rewrite_request route (order route) peer req1) body, io1)))))))"

section \<open>The response\<close>

definition response_code :: "head_parts \<Rightarrow> nat" where
  "response_code h =
     (case Option.bind (start_token h 1) (from_str_radix (2 ^ 32) 10) of Some c \<Rightarrow> c | None \<Rightarrow> 200)"

definition response_no_body :: "string \<Rightarrow> head_parts \<Rightarrow> bool" where
  "response_no_body method h \<longleftrightarrow>
     (let code = response_code h in (100 \<le> code \<and> code < 200) \<or> code = 204 \<or> code = 304 \<or> method = ''HEAD'')"

definition response_framed :: "string \<Rightarrow> head_parts \<Rightarrow> bool" where
  "response_framed method h \<longleftrightarrow>
     (if response_no_body method h then True
      else if head_get h ''transfer-encoding'' \<noteq> None then is_chunked h
      else head_get h ''content-length'' \<noteq> None)"

definition response_length :: "string \<Rightarrow> nat" where
  "response_length cl = (case from_str_radix (2 ^ 64) 10 (trim cl) of Some n \<Rightarrow> n | None \<Rightarrow> 0)"

definition rewrite_response :: "(string \<times> string) list \<Rightarrow> bool \<Rightarrow> head_parts \<Rightarrow> head_parts" where
  "rewrite_response hdrs keep_alive h =
     fold (\<lambda>(k, v). if v = [] then id else head_set k v) hdrs
       (head_set ''connection'' (if keep_alive then ''keep-alive'' else ''close'') h)"

text \<open>The bytes of the body, whether the connection to the visitor must end, and the reader.\<close>

definition relay_response_body ::
  "string \<Rightarrow> bool \<Rightarrow> head_parts \<Rightarrow> head_parts \<Rightarrow> http_io \<Rightarrow> bytes \<times> (http_error + bool) \<times> http_io" where
  "relay_response_body method chunked no_body_head h up =
     (if response_no_body method no_body_head then ([], Inr False, up)
      else
       (case head_get h ''transfer-encoding'' of
          Some _ \<Rightarrow>
            (if chunked then (case relay_chunked up of (w, r, up') \<Rightarrow> (w, map_sum id (\<lambda>_. False) r, up'))
             else (case head_get h ''content-length'' of
                     Some cl \<Rightarrow> (case relay_fixed (response_length cl) up of (w, r, up') \<Rightarrow> (w, map_sum id (\<lambda>_. False) r, up'))
                   | None \<Rightarrow> (case relay_until_eof up of (w, up') \<Rightarrow> (w, Inr True, up'))))
        | None \<Rightarrow>
            (case head_get h ''content-length'' of
               Some cl \<Rightarrow> (case relay_fixed (response_length cl) up of (w, r, up') \<Rightarrow> (w, map_sum id (\<lambda>_. False) r, up'))
             | None \<Rightarrow> (case relay_until_eof up of (w, up') \<Rightarrow> (w, Inr True, up')))))"

datatype visitor_out = Continue100 | Answer refusal | Relayed bytes

datatype ended = Finished | Failed http_error | Tunnel | OutOfUpstreams

datatype upstream = NoWorkConn | SilentUpstream | Replies "bytes list"

text \<open>What is sent to the visitor for one response; \<open>Inr True\<close> when the next request is awaited.\<close>

definition relay_response ::
  "bool \<Rightarrow> string \<Rightarrow> (string \<times> string) list \<Rightarrow> bytes list \<Rightarrow> visitor_out list \<times> (http_error + bool)" where
  "relay_response visitor_keep_alive method hdrs replies =
     (case read_head (http_io_new replies) of
        (Inl e, _) \<Rightarrow> ([], Inl e)
      | (Inr None, _) \<Rightarrow> ([Answer UpstreamClosed], Inr False)
      | (Inr (Some lines), up) \<Rightarrow>
          (case parse_head lines of
             Inl e \<Rightarrow> ([], Inl e)
           | Inr resp0 \<Rightarrow>
               (if validate_response_framing resp0 \<noteq> Inr () then ([Answer BadResponseFraming], Inr False)
                else
                 (let resp = strip_hop_by_hop resp0 in
                  if start_token resp 1 = None then ([], Inr False)
                  else
                   (let chunked = is_chunked resp;
                        keep_alive = visitor_keep_alive \<and> response_framed method resp;
                        resp' = rewrite_response hdrs keep_alive resp
                    in (case relay_response_body method chunked resp resp' up of
                          (w, Inl e, _) \<Rightarrow> ([Relayed (head_to_bytes resp' @ w)], Inl e)
                        | (w, Inr must_end, _) \<Rightarrow>
                            ([Relayed (head_to_bytes resp' @ w)], Inr (keep_alive \<and> \<not> must_end))))))))"

section \<open>The loop over the requests of a visitor\<close>

record http_env =
  he_b64 :: base64_fn
  he_table :: vhost_table
  he_peer :: ip_addr
  he_req_order :: "vhost_route \<Rightarrow> (string \<times> string) list"
  he_resp_order :: "vhost_route \<Rightarrow> (string \<times> string) list"

text \<open>What the visitor gets, what each upstream gets, and how it ended.\<close>

type_synonym http_trace = "visitor_out list \<times> (vhost_route \<times> bytes) list \<times> ended"

definition trace_add :: "visitor_out list \<Rightarrow> (vhost_route \<times> bytes) list \<Rightarrow> http_trace \<Rightarrow> http_trace" where
  "trace_add out sent t = (case t of (o', s', e) \<Rightarrow> (out @ o', sent @ s', e))"

fun handle_http :: "http_env \<Rightarrow> upstream list \<Rightarrow> http_io \<Rightarrow> http_trace" where
  "handle_http env ups io =
     (case read_head io of
        (Inl e, _) \<Rightarrow> ([], [], Failed e)
      | (Inr None, _) \<Rightarrow> ([], [], Finished)
      | (Inr (Some lines), io1) \<Rightarrow>
          (case parse_head lines of
             Inl e \<Rightarrow> ([], [], Failed e)
           | Inr req0 \<Rightarrow>
               (let (req, expects) = strip_expect req0;
                    cont = (if expects then [Continue100] else [])
                in (case judge_request (he_b64 env) (he_table env) (he_peer env) (he_req_order env) req io1 of
                      (Fails e, _) \<Rightarrow> (cont, [], Failed e)
                    | (Refuses r, _) \<Rightarrow> (cont @ [Answer r], [], Finished)
                    | (Forwards route req' body, io2) \<Rightarrow>
                        (case ups of
                           [] \<Rightarrow> (cont, [], OutOfUpstreams)
                         | NoWorkConn # _ \<Rightarrow> (cont @ [Answer NoWorkConnection], [], Finished)
                         | u # ups' \<Rightarrow>
                             (if is_connect req then
                                (cont, [(route, head_to_bytes req' @ fst (take_buffered io2))], Tunnel)
                              else
                               (case u of
                                  Replies replies \<Rightarrow>
                                    (case relay_response (wants_keep_alive req) (request_method req)
                                            (he_resp_order env route) replies of
                                       (w, Inl e) \<Rightarrow> (cont @ w, [(route, head_to_bytes req' @ body)], Failed e)
                                     | (w, Inr again) \<Rightarrow>
                                         trace_add (cont @ w) [(route, head_to_bytes req' @ body)]
                                           (if again then handle_http env ups' io2 else ([], [], Finished)))
                                | _ \<Rightarrow> (cont @ [Answer UpstreamSilent], [(route, head_to_bytes req' @ body)], Finished)))))))) "

declare handle_http.simps [simp del]

section \<open>tcpmux\<close>

definition CONNECT_OK :: bytes where
  "CONNECT_OK = as_bytes (''HTTP/1.1 200 OK'' @ crlf @ ''Content-Length: 0'' @ crlf @ crlf)"

datatype mux_outcome =
    MuxClosed
  | MuxFails http_error
  | MuxRefuses refusal
  | MuxNoWorkConn
  | MuxTunnel vhost_route (to_visitor: bytes) (to_service: bytes)

definition mux_auth_ok :: "vhost_route \<Rightarrow> string option \<Rightarrow> string option \<Rightarrow> bool" where
  "mux_auth_ok route user pwd =
     (if vr_http_user route = [] then True
      else case (user, pwd) of
             (Some u, Some p) \<Rightarrow> constant_time_eq u (vr_http_user route) \<and> constant_time_eq p (vr_http_pwd route)
           | _ \<Rightarrow> False)"

definition handle_tcpmux ::
  "base64_fn \<Rightarrow> vhost_table \<Rightarrow> bool \<Rightarrow> bool \<Rightarrow> http_io \<Rightarrow> mux_outcome" where
  "handle_tcpmux b64 table passthrough work io =
     (case read_head_raw io of
        (Inl e, _) \<Rightarrow> MuxFails e
      | (Inr None, _) \<Rightarrow> MuxClosed
      | (Inr (Some (raw, lines)), io1) \<Rightarrow>
          (case parse_head lines of
             Inl e \<Rightarrow> MuxFails e
           | Inr h \<Rightarrow>
               (if \<not> eq_ignore_ascii_case (request_method h) ''CONNECT'' then MuxClosed
                else
                 (let host = canonical_host (case start_token h 1 of Some t \<Rightarrow> t | None \<Rightarrow> []);
                      (user, pwd) = proxy_authorization b64 h
                  in (case vhost_lookup table host [] user VhTcpMux of
                        None \<Rightarrow> MuxRefuses NoMuxRoute
                      | Some (route, _) \<Rightarrow>
                          (if \<not> mux_auth_ok route user pwd then MuxRefuses ProxyAuthRequired
                           else if \<not> work then MuxNoWorkConn
                           else MuxTunnel route
                                  (if passthrough then [] else CONNECT_OK)
                                  ((if passthrough then raw else []) @ fst (take_buffered io1))))))))"

section \<open>HTTPS\<close>

text \<open>A TLS connection is routed by the name in its hello, which is sent on as it was read.\<close>

datatype https_outcome =
    HttpsFails sni_error
  | HttpsClosed
  | HttpsNoWorkConn
  | HttpsTunnel vhost_route bytes

definition handle_https :: "vhost_table \<Rightarrow> bool \<Rightarrow> bytes \<Rightarrow> https_outcome" where
  "handle_https table work visitor =
     (case sniff_client_hello visitor of
        Inl e \<Rightarrow> HttpsFails e
      | Inr ((None, _), _) \<Rightarrow> HttpsClosed
      | Inr ((Some sni, hello), _) \<Rightarrow>
          (case vhost_lookup table sni ''/'' None VhHttps of
             None \<Rightarrow> HttpsClosed
           | Some (route, _) \<Rightarrow> if work then HttpsTunnel route hello else HttpsNoWorkConn))"

end
