(* ===== verification/Http_Framing.thy ===== *)
theory Http_Framing
  imports Http_Forward
begin

text \<open>
  Request smuggling: the bytes the relay sends to a service must be one request for the service
  too. The service is a receiver that follows RFC 9112 to the letter and rejects what the RFC lets
  it reject; it is written here without any function of the relay but splitting and case folding.
\<close>

section \<open>A receiver after RFC 9112\<close>

text \<open>A line ends with CR LF; a CR or LF alone is rejected.\<close>

fun cut_line :: "bytes \<Rightarrow> (bytes \<times> bytes) option" where
  "cut_line [] = None"
| "cut_line (b # bs) =
     (if b = 10 then None
      else if b = 13 then (case bs of c # r \<Rightarrow> if c = 10 then Some ([], r) else None | [] \<Rightarrow> None)
      else map_option (map_prod (\<lambda>l. b # l) id) (cut_line bs))"

lemma cut_line_shortens: "cut_line bs = Some (l, r) \<Longrightarrow> length l + length r + 2 = length bs"
proof (induction bs arbitrary: l)
  case (Cons b bs)
  consider "b \<noteq> 10" "b = 13" | "b \<noteq> 10" "b \<noteq> 13" using Cons.prems by (auto split: if_splits)
  then show ?case
  proof cases
    case 1
    then show ?thesis using Cons.prems by (cases bs) (simp_all split: if_splits)
  next
    case 2
    then obtain l' where "cut_line bs = Some (l', r)" "l = b # l'" using Cons.prems by auto
    then show ?thesis using Cons.IH by simp
  qed
qed simp

definition tchar :: "char \<Rightarrow> bool" where
  "tchar c \<longleftrightarrow> graphic c \<and> c \<notin> set ''(),/:;<=>?@[]{}'' \<and> c \<noteq> CHR 0x22 \<and> c \<noteq> CHR 0x5C \<and> c \<noteq> CHR 0x7F"

definition token :: "string \<Rightarrow> bool" where
  "token s \<longleftrightarrow> s \<noteq> [] \<and> list_all tchar s"

definition is_ows :: "char \<Rightarrow> bool" where
  "is_ows c \<longleftrightarrow> c = CHR '' '' \<or> c = CHR 9"

definition ows_strip :: "string \<Rightarrow> string" where
  "ows_strip s = rev (dropWhile is_ows (rev (dropWhile is_ows s)))"

function recv_fields :: "bytes \<Rightarrow> ((string \<times> string) list \<times> bytes) option" where
  "recv_fields bs =
     (case cut_line bs of
        None \<Rightarrow> None
      | Some (l, r) \<Rightarrow>
          (if l = [] then Some ([], r)
           else case split_once CHR '':'' (str_of l) of
                  None \<Rightarrow> None
                | Some (k, v) \<Rightarrow>
                    (if \<not> token k then None
                     else map_option (map_prod (\<lambda>fs. (k, ows_strip v) # fs) id) (recv_fields r))))"
  by pat_completeness auto
termination
  by (relation "measure length") (auto dest: cut_line_shortens)

declare recv_fields.simps [simp del]

datatype framing = ByLength nat | ByChunks

definition field_values :: "string \<Rightarrow> (string \<times> string) list \<Rightarrow> string list" where
  "field_values name fs = map snd (filter (\<lambda>(k, _). to_ascii_lowercase k = name) fs)"

text \<open>RFC 9112, 6.3: a transfer encoding wins over a length; its last coding must be chunked.\<close>

definition recv_framing :: "(string \<times> string) list \<Rightarrow> framing option" where
  "recv_framing fs =
     (let tes = field_values ''transfer-encoding'' fs; cls = field_values ''content-length'' fs in
      if tes \<noteq> [] then
        (let codings = filter (\<lambda>s. s \<noteq> []) (map (\<lambda>s. to_ascii_lowercase (ows_strip s)) (concat (map (split_on CHR '','') tes)))
         in if codings \<noteq> [] \<and> last codings = ''chunked'' then Some ByChunks else None)
      else if cls = [] then Some (ByLength 0)
      else if list_all (\<lambda>s. s = hd cls) cls \<and> hd cls \<noteq> [] \<and> list_all is_digit (hd cls)
      then map_option ByLength (digits_val 10 0 (hd cls)) else None)"

text \<open>Chunks; \<open>P\<close> is what is accepted as a line. The result is the raw body and what follows.\<close>

function recv_trailers :: "(bytes \<Rightarrow> bool) \<Rightarrow> bytes \<Rightarrow> (bytes \<times> bytes) option" where
  "recv_trailers P bs =
     (case cut_line bs of
        None \<Rightarrow> None
      | Some (l, r) \<Rightarrow>
          (if l = [] then Some (CRLF, r)
           else if \<not> P l then None
           else map_option (map_prod (\<lambda>raw. l @ CRLF @ raw) id) (recv_trailers P r)))"
  by pat_completeness auto
termination
  by (relation "measure (\<lambda>(P, bs). length bs)") (auto dest: cut_line_shortens)

definition recv_size :: "bytes \<Rightarrow> nat option" where
  "recv_size l =
     (let digits = takeWhile (\<lambda>c. c \<noteq> CHR '';'') (str_of l)
      in if digits = [] then None else digits_val 16 0 digits)"

function recv_chunks :: "(bytes \<Rightarrow> bool) \<Rightarrow> bytes \<Rightarrow> (bytes \<times> bytes) option" where
  "recv_chunks P bs =
     (case cut_line bs of
        None \<Rightarrow> None
      | Some (l, r) \<Rightarrow>
          (if \<not> P l then None
           else case recv_size l of
             None \<Rightarrow> None
           | Some n \<Rightarrow>
               (if n = 0 then map_option (map_prod (\<lambda>raw. l @ CRLF @ raw) id) (recv_trailers P r)
                else if take 2 (drop n r) \<noteq> CRLF then None
                else map_option (map_prod (\<lambda>raw. l @ CRLF @ take (n + 2) r @ raw) id) (recv_chunks P (drop (n + 2) r)))))"
  by pat_completeness auto
termination
  by (relation "measure (\<lambda>(P, bs). length bs)") (auto dest: cut_line_shortens)

declare recv_trailers.simps [simp del] recv_chunks.simps [simp del]

text \<open>One request: its first line, its body and the bytes of the next request.\<close>

definition receive :: "bytes \<Rightarrow> (string \<times> bytes \<times> bytes) option" where
  "receive bs =
     (case cut_line bs of
        None \<Rightarrow> None
      | Some (start, r) \<Rightarrow>
          (if start = [] then None
           else case recv_fields r of
             None \<Rightarrow> None
           | Some (fs, r') \<Rightarrow>
               (case recv_framing fs of
                  None \<Rightarrow> None
                | Some (ByLength n) \<Rightarrow> if length r' < n then None else Some (str_of start, take n r', drop n r')
                | Some ByChunks \<Rightarrow> map_option (\<lambda>(raw, rest). (str_of start, raw, rest)) (recv_chunks (\<lambda>_. True) r'))))"

section \<open>The head as the receiver reads it\<close>

definition ctl_free :: "string \<Rightarrow> bool" where
  "ctl_free s \<longleftrightarrow> CHR 13 \<notin> set s \<and> CHR 10 \<notin> set s \<and> CHR 0x00 \<notin> set s"

lemma strip_crlf_filter: "strip_crlf s = filter (\<lambda>c. c \<noteq> CHR 13 \<and> c \<noteq> CHR 10 \<and> c \<noteq> CHR 0x00) s"
proof (cases "list_ex (\<lambda>c. c = CHR 13 \<or> c = CHR 10 \<or> c = CHR 0x00) s")
  case False
  then have "\<forall>c\<in>set s. c \<noteq> CHR 13 \<and> c \<noteq> CHR 10 \<and> c \<noteq> CHR 0x00" by (auto simp: list_ex_iff)
  then show ?thesis using False by (simp add: strip_crlf_def filter_id_conv)
qed (simp add: strip_crlf_def)

lemma ctl_free_strip [simp]: "ctl_free (strip_crlf s)"
  by (simp add: strip_crlf_filter ctl_free_def)

lemma strip_ctl_free [simp]: "ctl_free s \<Longrightarrow> strip_crlf s = s"
  by (auto simp: strip_crlf_filter ctl_free_def filter_id_conv)

lemma byte_of_eq: "byte_of c = of_nat n \<longleftrightarrow> c = char_of n" if "n < 256"
proof
  assume "byte_of c = of_nat n"
  then have "char_of_byte (byte_of c) = char_of_byte (of_nat n)" by (rule arg_cong)
  moreover have "unat (of_nat n :: u8) = n" using that by (simp add: unat_of_nat)
  ultimately show "c = char_of n" by (metis char_of_byte_def char_of_byte_of)
qed (use that in \<open>simp add: byte_of_def\<close>)

lemma byte_of_crlf: "byte_of c = 13 \<longleftrightarrow> c = CHR 13" "byte_of c = 10 \<longleftrightarrow> c = CHR 10"
  using byte_of_eq [of 13 c] byte_of_eq [of 10 c] by (simp_all add: char_of_def bit_0)

lemma as_bytes_Cons [simp]: "as_bytes (c # s) = byte_of c # as_bytes s"
  by (simp add: as_bytes_def)

lemma cut_line_plain:
  "CHR 13 \<notin> set s \<Longrightarrow> CHR 10 \<notin> set s \<Longrightarrow> cut_line (as_bytes s @ 13 # 10 # r) = Some (as_bytes s, r)"
  by (induction s) (auto simp: byte_of_crlf)

lemma as_bytes_crlf: "as_bytes [CHR 13, CHR 10] = [13, 10]"
  using byte_of_crlf [of "CHR 13"] byte_of_crlf [of "CHR 10"] by simp

definition seen_field :: "string \<times> string \<Rightarrow> string \<times> string" where
  "seen_field kv = (strip_crlf (fst kv), ows_strip ('' '' @ strip_crlf (snd kv)))"

lemma recv_fields_head:
  assumes "\<forall>kv\<in>set hs. CHR '':'' \<notin> set (fst kv)"
  shows "recv_fields (as_bytes (concat (map header_line hs)) @ 13 # 10 # r) =
    (if list_all (\<lambda>kv. token (strip_crlf (fst kv))) hs then Some (map seen_field hs, r) else None)"
  using assms
proof (induction hs)
  case Nil
  show ?case by (simp add: recv_fields.simps [of "13 # 10 # r"])
next
  case (Cons kv hs)
  let ?l = "strip_crlf (fst kv) @ '': '' @ strip_crlf (snd kv)"
  let ?r = "as_bytes (concat (map header_line hs)) @ 13 # 10 # r"
  have "CHR 13 \<notin> set ?l" "CHR 10 \<notin> set ?l"
    using ctl_free_strip [of "fst kv"] ctl_free_strip [of "snd kv"] unfolding ctl_free_def by auto
  then have "cut_line (as_bytes ?l @ 13 # 10 # ?r) = Some (as_bytes ?l, ?r)" by (rule cut_line_plain)
  moreover have "as_bytes (concat (map header_line (kv # hs))) @ 13 # 10 # r = as_bytes ?l @ 13 # 10 # ?r"
    using as_bytes_crlf by (simp add: header_line_def)
  moreover have "split_once CHR '':'' ?l = Some (strip_crlf (fst kv), '' '' @ strip_crlf (snd kv))"
    using Cons.prems split_once_sep [of "CHR '':''" "strip_crlf (fst kv)"] by (simp add: strip_crlf_filter)
  moreover have "as_bytes ?l \<noteq> []" by simp
  ultimately show ?case
    using Cons by (subst recv_fields.simps) (simp only: option.case prod.case str_of_as_bytes if_False, auto simp: seen_field_def)
qed

lemma receive_head:
  assumes "\<forall>kv\<in>set (hp_headers h). CHR '':'' \<notin> set (fst kv)" "strip_crlf (hp_start h) \<noteq> []"
  shows "receive (head_to_bytes h @ bs) =
    (if \<not> list_all (\<lambda>kv. token (strip_crlf (fst kv))) (hp_headers h) then None
     else case recv_framing (map seen_field (hp_headers h)) of
            None \<Rightarrow> None
          | Some (ByLength n) \<Rightarrow> if length bs < n then None else Some (strip_crlf (hp_start h), take n bs, drop n bs)
          | Some ByChunks \<Rightarrow> map_option (\<lambda>(raw, rest). (strip_crlf (hp_start h), raw, rest)) (recv_chunks (\<lambda>_. True) bs))"
proof -
  let ?s = "strip_crlf (hp_start h)"
  let ?r = "as_bytes (concat (map header_line (hp_headers h))) @ 13 # 10 # bs"
  have "head_to_bytes h @ bs = as_bytes ?s @ 13 # 10 # ?r"
    using as_bytes_crlf by (simp add: head_to_bytes_def)
  moreover have "cut_line (as_bytes ?s @ 13 # 10 # ?r) = Some (as_bytes ?s, ?r)"
    using ctl_free_strip [of "hp_start h"] by (intro cut_line_plain) (auto simp: ctl_free_def)
  ultimately show ?thesis
    using assms(2) recv_fields_head [OF assms(1), of bs]
    by (simp add: receive_def split: option.splits framing.splits)
qed

section \<open>What rewriting does to the framing headers\<close>

lemma head_get_values: "head_get h n = (case head_get_all h n of [] \<Rightarrow> None | v # _ \<Rightarrow> Some v)"
proof -
  have "find P xs = (case filter P xs of [] \<Rightarrow> None | x # _ \<Rightarrow> Some x)" for P :: "string \<times> string \<Rightarrow> bool" and xs
    by (induction xs) auto
  then show ?thesis unfolding head_get_def head_get_all_def by (simp split: list.splits)
qed

lemma head_count_values: "head_count h n = length (head_get_all h n)"
  by (simp add: head_count_def head_get_all_def)

lemma head_remove_other:
  "\<not> eq_ignore_ascii_case m n \<Longrightarrow> head_get_all (head_remove m h) n = head_get_all h n"
  unfolding head_get_all_def head_remove_def eq_ignore_ascii_case_def
  by (auto simp: filter_filter intro!: arg_cong [of _ _ "map snd"] filter_cong)

lemma put_header_other:
  "\<not> eq_ignore_ascii_case m n \<Longrightarrow>
     filter (\<lambda>(k, _). eq_ignore_ascii_case k n) (put_header m v hs) = filter (\<lambda>(k, _). eq_ignore_ascii_case k n) hs"
  by (induction m v hs rule: put_header.induct) (auto simp: eq_ignore_ascii_case_def)

lemma head_set_other:
  "\<not> eq_ignore_ascii_case (strip_crlf m) n \<Longrightarrow> head_get_all (head_set m v h) n = head_get_all h n"
  by (simp add: head_get_all_def head_set_def put_header_other)

lemma dedup_loop_values:
  assumes "to_ascii_lowercase n \<notin> set ALLOW_MULTI"
  shows "filter (\<lambda>(k, _). eq_ignore_ascii_case k n) (dedup_loop seen hs) =
    (if to_ascii_lowercase n \<in> set seen then [] else take 1 (filter (\<lambda>(k, _). eq_ignore_ascii_case k n) hs))"
  using assms
proof (induction seen hs rule: dedup_loop.induct)
  case (2 seen k v hs)
  let ?lk = "to_ascii_lowercase k"
  consider "?lk \<in> set ALLOW_MULTI" | "?lk \<notin> set ALLOW_MULTI" "?lk \<in> set seen"
    | "?lk \<notin> set ALLOW_MULTI" "?lk \<notin> set seen" by blast
  then show ?case
  proof cases
    case 1
    then have "?lk \<noteq> to_ascii_lowercase n" using 2(4) by auto
    then show ?thesis using 1 2(1) [OF refl _ 2(4)] by (simp add: eq_ignore_ascii_case_def Let_def)
  next
    case 2
    then show ?thesis using "2.IH"(2) [OF refl _ _ \<open>to_ascii_lowercase n \<notin> set ALLOW_MULTI\<close>]
      by (auto simp: eq_ignore_ascii_case_def Let_def)
  next
    case 3
    then show ?thesis using "2.IH"(3) [OF refl _ _ \<open>to_ascii_lowercase n \<notin> set ALLOW_MULTI\<close>]
      by (auto simp: eq_ignore_ascii_case_def Let_def)
  qed
qed simp

lemma dedup_values:
  "to_ascii_lowercase n \<notin> set ALLOW_MULTI \<Longrightarrow> head_get_all (fst (dedup_headers h)) n = take 1 (head_get_all h n)"
  by (simp add: head_get_all_def dedup_headers_def Let_def dedup_loop_values take_map)

lemma fold_remove_other:
  "\<forall>m\<in>set ms. \<not> eq_ignore_ascii_case m n \<Longrightarrow> head_get_all (fold head_remove ms h) n = head_get_all h n"
  by (induction ms arbitrary: h) (simp_all add: head_remove_other)

lemma route_headers_other:
  assumes "\<forall>(k, v)\<in>set kvs. \<not> eq_ignore_ascii_case k n \<and> \<not> eq_ignore_ascii_case (strip_crlf k) n"
  shows "head_get_all (set_route_headers kvs h) n = head_get_all h n"
proof -
  have 1: "\<forall>(k, v)\<in>set xs. \<not> eq_ignore_ascii_case k n \<Longrightarrow>
      head_get_all (fold (\<lambda>(k, _). head_remove k) xs g) n = head_get_all g n"
    for xs :: "(string \<times> string) list" and g
    by (induction xs arbitrary: g) (auto simp: head_remove_other)
  have 2: "\<forall>(k, v)\<in>set xs. \<not> eq_ignore_ascii_case (strip_crlf k) n \<Longrightarrow>
      head_get_all (fold (\<lambda>(k, v). if v = [] then id else head_set k v) xs g) n = head_get_all g n" for xs g
    by (induction xs arbitrary: g) (auto simp: head_set_other)
  have a1: "\<forall>(k, v)\<in>set (filter (\<lambda>(_, v). v = []) kvs). \<not> eq_ignore_ascii_case k n"
    and a2: "\<forall>(k, v)\<in>set kvs. \<not> eq_ignore_ascii_case (strip_crlf k) n"
    using assms by auto
  show ?thesis unfolding set_route_headers_def 1 [OF a1] by (rule 2 [OF a2])
qed

definition framing_name :: "string \<Rightarrow> bool" where
  "framing_name n \<longleftrightarrow> n = ''content-length'' \<or> n = ''transfer-encoding''"

definition unframed :: "string \<Rightarrow> bool" where
  "unframed k \<longleftrightarrow> \<not> framing_name (to_ascii_lowercase k)"

lemma framing_name_lower: "framing_name n \<Longrightarrow> to_ascii_lowercase n = n"
  by (auto simp: framing_name_def to_ascii_lowercase_def ascii_lower_def)

lemma unframed_neq: "unframed k \<Longrightarrow> framing_name n \<Longrightarrow> \<not> eq_ignore_ascii_case k n"
  by (metis eq_ignore_ascii_case_def framing_name_lower unframed_def)

lemma hop_unframed: "\<forall>m\<in>set HOP_BY_HOP. unframed m"
  unfolding HOP_BY_HOP_def unframed_def framing_name_def by code_simp

lemma own_unframed: "unframed ''host''" "unframed ''x-forwarded-for''" "unframed ''x-real-ip''" "unframed ''expect''"
  unfolding unframed_def framing_name_def by code_simp+

lemma own_ctl_free: "ctl_free ''host''" "ctl_free ''x-forwarded-for''" "ctl_free ''x-real-ip''"
  unfolding ctl_free_def by code_simp+

text \<open>After the rewriting, a framing header has the first of the values it had before.\<close>

lemma rewrite_values:
  assumes n: "framing_name n"
    and conn: "\<forall>t\<in>set (connection_tokens h). unframed t"
    and hdrs: "\<forall>(k, v)\<in>set hdrs. unframed k \<and> ctl_free k"
  shows "head_get_all (rewrite_request route hdrs peer h) n = take 1 (head_get_all h n)"
proof -
  have multi: "to_ascii_lowercase n \<notin> set ALLOW_MULTI"
    using n framing_name_lower [OF n] by (auto simp: framing_name_def ALLOW_MULTI_def)
  have own: "\<not> eq_ignore_ascii_case (strip_crlf m) n" if "m \<in> {''host'', ''x-forwarded-for'', ''x-real-ip''}" for m
    using that own_unframed own_ctl_free unframed_neq [OF _ n] by auto
  have hop: "head_get_all (strip_hop_by_hop h) n = head_get_all h n"
    unfolding strip_hop_by_hop_def using hop_unframed conn unframed_neq [OF _ n]
    by (intro fold_remove_other) auto
  have route: "\<forall>(k, v)\<in>set hdrs. \<not> eq_ignore_ascii_case k n \<and> \<not> eq_ignore_ascii_case (strip_crlf k) n"
    using hdrs unframed_neq [OF _ n] by fastforce
  show ?thesis
    unfolding rewrite_request_def Let_def
    by (simp add: route_headers_other [OF route] head_set_other own dedup_values [OF multi] hop)
qed

text \<open>Names without control characters stay that way.\<close>

definition clean_names :: "head_parts \<Rightarrow> bool" where
  "clean_names h \<longleftrightarrow> (\<forall>kv\<in>set (hp_headers h). ctl_free (fst kv) \<and> CHR '':'' \<notin> set (fst kv))"

lemma clean_remove: "clean_names h \<Longrightarrow> clean_names (head_remove m h)"
  by (auto simp: clean_names_def head_remove_def)

lemma clean_put:
  "kv \<in> set (put_header m v hs) \<Longrightarrow> fst kv = m \<or> fst kv \<in> fst ` set hs"
  by (induction m v hs rule: put_header.induct) (auto split: if_splits)

lemma clean_set: "clean_names h \<Longrightarrow> CHR '':'' \<notin> set m \<Longrightarrow> clean_names (head_set m v h)"
  unfolding clean_names_def head_set_def
  by (auto dest!: clean_put simp: strip_crlf_filter) (auto simp: ctl_free_def)

lemma clean_dedup: "clean_names h \<Longrightarrow> clean_names (fst (dedup_headers h))"
proof -
  have "set (dedup_loop seen hs) \<subseteq> set hs" for seen hs
    by (induction seen hs rule: dedup_loop.induct) (auto simp: Let_def split: if_splits)
  then show "clean_names h \<Longrightarrow> clean_names (fst (dedup_headers h))"
    by (auto simp: clean_names_def dedup_headers_def Let_def)
qed

lemma clean_fold_remove: "clean_names h \<Longrightarrow> clean_names (fold head_remove ms h)"
  by (induction ms arbitrary: h) (simp_all add: clean_remove)

lemma clean_route_headers:
  assumes "clean_names h" "\<forall>(k, v)\<in>set kvs. CHR '':'' \<notin> set k"
  shows "clean_names (set_route_headers kvs h)"
proof -
  have 1: "clean_names g \<Longrightarrow> clean_names (fold (\<lambda>(k, _). head_remove k) xs g)" for xs :: "(string \<times> string) list" and g
    by (induction xs arbitrary: g) (auto simp: clean_remove)
  have 2: "\<forall>(k, v)\<in>set xs. CHR '':'' \<notin> set k \<Longrightarrow> clean_names g \<Longrightarrow>
      clean_names (fold (\<lambda>(k, v). if v = [] then id else head_set k v) xs g)" for xs g
    by (induction xs arbitrary: g) (auto simp: clean_set)
  show ?thesis unfolding set_route_headers_def using assms by (intro 1 2)
qed

lemma clean_rewrite:
  assumes "clean_names h" "\<forall>(k, v)\<in>set hdrs. CHR '':'' \<notin> set k"
  shows "clean_names (rewrite_request route hdrs peer h)"
  unfolding rewrite_request_def Let_def strip_hop_by_hop_def
  by (intro clean_route_headers assms(2) clean_set)
    (auto intro!: clean_dedup clean_fold_remove clean_set assms(1))

end
