(* ===== verification/Http_Safety.thy ===== *)
theory Http_Safety
  imports Http_Framing
begin

text \<open>
  The lemmas that show that the relay and a receiver agree on where a request ends: lines, trimmed
  values, chunks, the framing headers after the rewriting.
\<close>

section \<open>Trimming twice\<close>

lemma ws_head_extend: "ws_head ys > 0 \<Longrightarrow> ws_head (ys @ zs) > 0"
proof (cases ys)
  case (Cons a r)
  assume "ws_head ys > 0"
  then show ?thesis unfolding Cons
    by (cases r; cases "tl r") (auto simp: ws_head_def nth_append split: if_splits)
qed (simp add: ws_head_def)

lemma trim_codes_stop: "ws [] = 0 \<Longrightarrow> ws (trim_codes ws bs) = 0"
  by (induction ws bs rule: trim_codes.induct) (metis neq0_conv trim_codes.simps)

lemma trim_codes_id: "ws bs = 0 \<Longrightarrow> trim_codes ws bs = bs"
  by (simp add: trim_codes.simps [of ws bs])

lemma trim_codes_suffix: "suffix (trim_codes ws bs) bs"
proof (induction ws bs rule: trim_codes.induct)
  case (1 ws bs)
  show ?case
  proof (cases "0 < ws bs \<and> bs \<noteq> []")
    case True
    then have "suffix (trim_codes ws bs) (drop (ws bs) bs)" using 1 by (simp add: trim_codes.simps [of ws bs])
    then show ?thesis using suffix_drop suffix_order.trans by blast
  next
    case False
    then show ?thesis by (subst trim_codes.simps) auto
  qed
qed

lemma trim_idem [simp]: "trim (trim s) = trim s"
proof -
  define z where "z = trim_codes ws_head (map of_char s)"
  define y where "y = rev (trim_codes ws_last (rev z))"
  have t: "trim s = map char_of y" by (simp add: trim_def y_def z_def)
  obtain tl where tl: "z = y @ tl"
    using trim_codes_suffix [of ws_last "rev z"] unfolding suffix_def y_def by (metis rev_append rev_rev_ident)
  obtain hd' where hd': "map of_char s = hd' @ z"
    using trim_codes_suffix [of ws_head "map of_char s"] unfolding suffix_def z_def by blast
  have "\<forall>c\<in>set (map of_char s :: nat list). c < 256" using char_code_lt by auto
  then have "\<forall>c\<in>set y. c < 256" unfolding hd' tl by simp
  then have codes: "map of_char (map char_of y) = y" by (simp add: map_idI)
  have "ws_head z = 0" unfolding z_def by (rule trim_codes_stop) (simp add: ws_head_def)
  then have "ws_head y = 0" using ws_head_extend [of y tl] tl by (cases "ws_head y = 0") simp_all
  moreover have "ws_last (rev y) = 0"
    unfolding y_def rev_rev_ident by (rule trim_codes_stop) (simp add: ws_last_def ws_head_def)
  ultimately have "no_edge_ws (map char_of y)" unfolding no_edge_ws_def codes by simp
  then show ?thesis unfolding t by (rule trim_id)
qed

section \<open>Lines keep their ends\<close>

fun pair_free :: "'a \<Rightarrow> 'a \<Rightarrow> 'a list \<Rightarrow> bool" where
  "pair_free a b [] \<longleftrightarrow> True"
| "pair_free a b [x] \<longleftrightarrow> True"
| "pair_free a b (x # y # r) \<longleftrightarrow> \<not> (x = a \<and> y = b) \<and> pair_free a b (y # r)"

lemma pair_free_append:
  "pair_free a b xs \<Longrightarrow> pair_free a b ys \<Longrightarrow> \<not> (xs \<noteq> [] \<and> ys \<noteq> [] \<and> last xs = a \<and> hd ys = b) \<Longrightarrow>
     pair_free a b (xs @ ys)"
proof (induction a b xs rule: pair_free.induct)
  case (2 a b x)
  then show ?case by (cases ys) auto
qed auto

lemma pair_free_parts: "pair_free a b (xs @ ys) \<Longrightarrow> pair_free a b xs \<and> pair_free a b ys"
proof (induction a b xs rule: pair_free.induct)
  case (2 a b x)
  then show ?case by (cases ys) auto
qed auto

lemma pair_free_take: "pair_free a b xs \<Longrightarrow> pair_free a b (take n xs)"
  and pair_free_drop: "pair_free a b xs \<Longrightarrow> pair_free a b (drop n xs)"
  using pair_free_parts [of a b "take n xs" "drop n xs"] by simp_all

lemma pair_free_map:
  "(\<And>x. x \<in> set xs \<Longrightarrow> f x = c \<longleftrightarrow> x = a) \<Longrightarrow> (\<And>x. x \<in> set xs \<Longrightarrow> f x = d \<longleftrightarrow> x = b) \<Longrightarrow>
     pair_free c d (map f xs) = pair_free a b xs"
  by (induction a b xs rule: pair_free.induct) auto

lemma pair_free_not_at: "(\<And>j. \<not> at_pos xs CRLF j) \<Longrightarrow> pair_free 13 10 xs"
proof (induction "13::u8" "10::u8" xs rule: pair_free.induct)
  case (3 x y r)
  have "\<not> at_pos (y # r) CRLF j" for j using 3(2) [of "Suc j"] by (simp add: at_pos_def)
  moreover have "\<not> (x = 13 \<and> y = 10)" using 3(2) [of 0] by (auto simp: at_pos_def CRLF_def)
  ultimately show ?case using 3(1) by simp
qed auto

lemma pair_free_line: "find_subslice hay CRLF = Some i \<Longrightarrow> pair_free 13 10 (take i hay)"
proof (rule pair_free_not_at)
  fix j
  assume f: "find_subslice hay CRLF = Some i"
  have ne: "CRLF \<noteq> []" and l2: "length CRLF = 2" by (simp_all add: CRLF_def)
  note x = f [unfolded find_subslice_exact [OF ne]]
  show "\<not> at_pos (take i hay) CRLF j"
  proof
    assume a: "at_pos (take i hay) CRLF j"
    then have j: "j + 2 \<le> length (take i hay)" using at_pos_bound [OF a ne] l2 by simp
    then have "at_pos hay CRLF j"
      using a at_pos_append [of j CRLF "take i hay" "drop i hay"] l2 by simp
    then show False using x j by auto
  qed
qed

lemma utf8_step_last:
  assumes "bs \<noteq> []" "utf8_step bs = (n, True)" "last (take n bs) < 128"
  shows "n = 1"
proof -
  have c: "utf8_class (byte_at bs 0) (byte_at bs 1) (byte_at bs 2) (byte_at bs 3) = (n, True)"
    using assms(2) by (simp add: utf8_step_def)
  note k = utf8_class_cont [OF c]
  have n: "0 < n" "n \<le> length bs" using utf8_step_pos [of bs] utf8_step_append(2) [OF assms(1,2)] assms(2) by auto
  have "take n bs \<noteq> []" using n(1) assms(1) by simp
  then have l: "last (take n bs) = byte_at bs (n - 1)"
    using n last_conv_nth [of "take n bs"] less_le_trans [of "n - 1" n "length bs"]
    by (simp add: byte_at_def min_absorb2)
  show ?thesis
  proof (rule ccontr)
    assume "n \<noteq> 1"
    then consider "n = 2" | "n = 3" | "n = 4" using n k by linarith
    then have "is_cont_code (byte_at bs (n - 1))" using k by cases auto
    then show False using assms(3) l by (simp add: is_cont_code_def)
  qed
qed

lemma hd_utf8_lossy: "bs \<noteq> [] \<Longrightarrow> hd (utf8_lossy bs) = hd bs \<or> hd (utf8_lossy bs) = 239"
  using utf8_step_pos [of bs] by (subst (1 2) utf8_lossy.simps) (cases bs; auto simp: take_Cons' )

lemma pair_free_lossy: "pair_free 13 10 bs \<Longrightarrow> pair_free 13 10 (utf8_lossy bs)"
proof (induction bs rule: utf8_lossy.induct)
  case (1 bs)
  show ?case
  proof (cases "bs = []")
    case True
    then show ?thesis by (simp add: utf8_lossy.simps)
  next
    case False
    obtain n valid where st: "utf8_step bs = (n, valid)" by (cases "utf8_step bs")
    have IH: "pair_free 13 10 (utf8_lossy (drop n bs))"
      using "1.IH" [OF False] pair_free_drop [OF "1.prems"] st by simp
    let ?p = "if valid then take n bs else [239, 191, 189]"
    have p: "pair_free 13 10 ?p" using pair_free_take [OF "1.prems"] by simp
    have "\<not> (?p \<noteq> [] \<and> utf8_lossy (drop n bs) \<noteq> [] \<and> last ?p = 13 \<and> hd (utf8_lossy (drop n bs)) = 10)"
    proof
      assume a: "?p \<noteq> [] \<and> utf8_lossy (drop n bs) \<noteq> [] \<and> last ?p = 13 \<and> hd (utf8_lossy (drop n bs)) = 10"
      then have v: "valid" by (auto split: if_splits)
      then have n1: "n = 1" using utf8_step_last [OF False] st a by auto
      have d: "drop n bs \<noteq> []" using a utf8_lossy.simps [of "[]"] by auto
      then have "hd (drop n bs) = 10" using hd_utf8_lossy [OF d] a by auto
      moreover have "hd bs = 13" using a v n1 False by (cases bs) auto
      ultimately have "\<not> pair_free 13 10 bs" using n1 d by (cases bs; cases "tl bs") auto
      then show False using "1.prems" by simp
    qed
    then have "pair_free 13 10 (?p @ utf8_lossy (drop n bs))" by (rule pair_free_append [OF p IH])
    then show ?thesis using False st by (cases valid) (simp_all add: utf8_lossy.simps [of bs])
  qed
qed

lemma utf8_lossy_lt: "\<forall>b\<in>set bs. b < 256 \<Longrightarrow> \<forall>b\<in>set (utf8_lossy bs). b < 256"
proof (induction bs rule: utf8_lossy.induct)
  case (1 bs)
  show ?case
  proof (cases "bs = []")
    case False
    have "\<forall>b\<in>set (drop (fst (utf8_step bs)) bs). b < 256" "\<forall>b\<in>set (take (fst (utf8_step bs)) bs). b < 256"
      using "1.prems" set_drop_subset set_take_subset by fast+
    then show ?thesis using "1.IH" [OF False] False by (subst utf8_lossy.simps) (auto simp: ball_Un)
  qed (simp add: utf8_lossy.simps)
qed

lemma pair_free_decoded: "pair_free 13 10 bs \<Longrightarrow> pair_free 13 10 (as_bytes (from_utf8_lossy bs))"
proof -
  assume a: "pair_free 13 10 bs"
  let ?y = "utf8_lossy (map unat bs)"
  have lt: "\<forall>b\<in>set ?y. b < 256" by (rule utf8_lossy_lt) (auto simp: byte_lt)
  have "pair_free 13 10 (map unat bs)"
    using a by (subst pair_free_map [of _ unat 13 13 10 10]) (auto simp: word_unat_eq_iff)
  then have y: "pair_free 13 10 ?y" by (rule pair_free_lossy)
  have "byte_of (char_of b) = of_nat n \<longleftrightarrow> b = n" if "b < 256" "n < 256" for b n :: nat
  proof -
    have "(of_char (char_of b :: char) :: nat) = b" "(of_char (char_of n :: char) :: nat) = n" using that by simp_all
    then have "(char_of b :: char) = char_of n \<longleftrightarrow> b = n" by metis
    then show ?thesis using byte_of_eq [of n "char_of b"] that by simp
  qed
  from this [of _ 13] this [of _ 10] show ?thesis
    using y lt unfolding from_utf8_lossy_def as_bytes_def map_map
    by (subst pair_free_map [of ?y _ 13 13 10 10]) auto
qed

lemma read_line_pair_free: "read_line io = (Inr l, io') \<Longrightarrow> pair_free 13 10 (as_bytes l)"
proof (induction io rule: read_line.induct)
  case (1 io)
  show ?case
  proof (cases "find_subslice (unread io) CRLF")
    case (Some i)
    then have "l = from_utf8_lossy (take i (unread io))"
      using "1.prems" unread_take(3) [of "i + 2" io]
      by (simp add: read_line.simps [of io] split: prod.splits)
    then show ?thesis using pair_free_decoded [OF pair_free_line [OF Some]] by simp
  next
    case None
    obtain io1 n where f: "fill io = (io1, n)" by (cases "fill io")
    have "\<not> available io > MAX_HEAD" "n \<noteq> 0" "read_line io1 = (Inr l, io')"
      using "1.prems" None f by (auto simp: read_line.simps [of io] split: if_splits)
    with "1.IH" [OF None _ f [symmetric]] show ?thesis by simp
  qed
qed

lemma cut_line_pair_free:
  "pair_free 13 10 l \<Longrightarrow> cut_line (l @ 13 # 10 # r) = None \<or> cut_line (l @ 13 # 10 # r) = Some (l, r)"
proof (induction l)
  case (Cons b l)
  have p: "pair_free 13 10 l" using pair_free_drop [OF Cons.prems, of 1] by simp
  have "\<not> (b = 13 \<and> l \<noteq> [] \<and> hd l = 10)" using Cons.prems by (cases l) auto
  then show ?case using Cons.IH [OF p] by (cases l) auto
qed simp

section \<open>Chunks\<close>

lemma read_more_avail: "read_more n io = (io', True) \<Longrightarrow> n \<le> available io'"
proof (induction n io rule: read_more.induct)
  case (1 n io)
  obtain io1 k where f: "fill io = (io1, k)" by (cases "fill io")
  show ?case
  proof (cases "available io < n")
    case True
    then have "k \<noteq> 0" "read_more n io1 = (io', True)"
      using "1.prems" f by (auto simp: read_more.simps [of n io] split: if_splits)
    then show ?thesis using "1.IH" [OF True f [symmetric]] by simp
  next
    case False
    then show ?thesis using "1.prems" by (simp add: read_more.simps [of n io])
  qed
qed

lemma read_n_length: "read_n n io = (Inr bs, io') \<Longrightarrow> length bs = n"
proof -
  assume a: "read_n n io = (Inr bs, io')"
  obtain io1 b where m: "read_more n io = (io1, b)" by (cases "read_more n io")
  have b: "b = True" and bs: "bs = fst (io_take n io1)" using a m by (cases "io_take n io1"; auto simp: read_n_def split: if_splits bool.splits)+
  then show ?thesis using read_more_avail [of n io io1] m by (simp add: unread_take(3) available_unread)
qed

lemma hd_split_on: "hd (split_on c xs) = takeWhile (\<lambda>x. x \<noteq> c) xs"
  by (induction xs) auto

lemma hex_digit_facts:
  assumes "to_digit 16 c = Some d"
  shows "graphic c" "c \<noteq> CHR ''+''" "c \<noteq> CHR ''-''"
proof -
  have n: "48 \<le> (of_char c :: nat)" "(of_char c :: nat) < 128"
    using assms by (auto simp: to_digit_def Let_def split: if_splits)
  then show "graphic c" by (simp add: graphic_def)
  show "c \<noteq> CHR ''+''" "c \<noteq> CHR ''-''" using n by auto
qed

lemma digits_val_all: "digits_val r a s = Some v \<Longrightarrow> list_all (\<lambda>c. to_digit r c \<noteq> None) s"
  by (induction s arbitrary: a) (auto split: option.splits)

text \<open>A size after the RFC is read as the same number, if it fits.\<close>

lemma recv_size_agrees:
  assumes "recv_size (as_bytes l) = Some n"
  shows "from_str_radix (2 ^ 64) 16 (chunk_size_text l) = (if n < 2 ^ 64 then Some n else None)"
proof -
  let ?d = "takeWhile (\<lambda>c. c \<noteq> CHR '';'') l"
  have d: "?d \<noteq> []" "digits_val 16 0 ?d = Some n" using assms by (auto simp: recv_size_def Let_def split: if_splits)
  have all: "list_all (\<lambda>c. to_digit 16 c \<noteq> None) ?d" by (rule digits_val_all [OF d(2)])
  then have g: "list_all graphic ?d" using hex_digit_facts(1) by (auto simp: list_all_iff)
  have t: "chunk_size_text l = ?d" unfolding chunk_size_text_def hd_split_on by (rule trim_tight [OF tight_list_all [OF g]])
  obtain c cs where c: "?d = c # cs" using d(1) by (cases ?d) auto
  have "c \<noteq> CHR ''+''" "c \<noteq> CHR ''-''" using all hex_digit_facts(2,3) unfolding c by auto
  then show ?thesis unfolding t using d(2) c by (simp add: from_str_radix_def)
qed

lemma trailers_agree:
  "read_trailers out io = (Inr res, io') \<Longrightarrow>
     \<exists>raw. res = out @ raw \<and> (\<forall>rest. recv_trailers P (raw @ rest) \<in> {None, Some (raw, rest)})"
proof (induction out io rule: read_trailers.induct)
  case (1 out io)
  obtain r io1 where l: "read_line io = (r, io1)" by (cases "read_line io")
  obtain t where t: "r = Inr t" using "1.prems" l by (cases r) (auto simp: read_trailers.simps [of out io])
  note pf = read_line_pair_free [OF l [unfolded t]]
  show ?case
  proof (cases "t = []")
    case True
    then have "res = out @ CRLF" using "1.prems" l t by (simp add: read_trailers.simps [of out io] Let_def)
    moreover have "recv_trailers P (CRLF @ rest) = Some (CRLF, rest)" for rest
      by (simp add: recv_trailers.simps [of P "13 # 10 # rest"] CRLF_def)
    ultimately show ?thesis by blast
  next
    case False
    let ?o = "out @ as_bytes t @ CRLF"
    have "read_trailers ?o io1 = (Inr res, io')"
      using "1.prems" l t False by (simp add: read_trailers.simps [of out io] Let_def)
    then obtain raw where raw: "res = ?o @ raw" "\<forall>rest. recv_trailers P (raw @ rest) \<in> {None, Some (raw, rest)}"
      using "1.IH" [OF l [symmetric] t refl False] by blast
    have "recv_trailers P ((as_bytes t @ CRLF @ raw) @ rest) \<in> {None, Some (as_bytes t @ CRLF @ raw, rest)}" for rest
      using cut_line_pair_free [OF pf, of "raw @ rest"] raw(2) [rule_format, of rest] False
      by (subst recv_trailers.simps) (auto simp: CRLF_def)
    then show ?thesis using raw(1) by (intro exI [of _ "as_bytes t @ CRLF @ raw"]) simp
  qed
qed

text \<open>Whatever the relay accepts as a chunked body, the receiver rejects it or ends it at the same place.\<close>

lemma chunks_agree:
  "read_chunks out io = (Inr res, io') \<Longrightarrow>
     \<exists>raw. res = out @ raw \<and> (\<forall>rest. recv_chunks P (raw @ rest) \<in> {None, Some (raw, rest)})"
proof (induction out io rule: read_chunks.induct)
  case (1 out io)
  obtain r io1 where l: "read_line io = (r, io1)" by (cases "read_line io")
  obtain t where t: "r = Inr t" using "1.prems" l by (cases r) (auto simp: read_chunks.simps [of out io])
  note pf = read_line_pair_free [OF l [unfolded t]]
  obtain n where n: "from_str_radix (2 ^ 64) 16 (chunk_size_text t) = Some n"
    using "1.prems" l t by (cases "from_str_radix (2 ^ 64) 16 (chunk_size_text t)") (auto simp: read_chunks.simps [of out io])
  have size_n: "recv_size (as_bytes t) = Some m \<Longrightarrow> m = n" for m
    using recv_size_agrees [of t m] n by (auto split: if_splits)
  let ?o = "out @ as_bytes t @ CRLF"
  show ?case
  proof (cases "n = 0")
    case True
    then have "read_trailers ?o io1 = (Inr res, io')"
      using "1.prems" l t n by (simp add: read_chunks.simps [of out io] Let_def)
    then obtain raw where raw: "res = ?o @ raw" "\<forall>rest. recv_trailers P (raw @ rest) \<in> {None, Some (raw, rest)}"
      using trailers_agree by blast
    have "recv_chunks P ((as_bytes t @ CRLF @ raw) @ rest) \<in> {None, Some (as_bytes t @ CRLF @ raw, rest)}" for rest
      using cut_line_pair_free [OF pf, of "raw @ rest"] raw(2) [rule_format, of rest] size_n True
      by (subst recv_chunks.simps) (auto simp: CRLF_def split: option.splits)
    then show ?thesis using raw(1) by (intro exI [of _ "as_bytes t @ CRLF @ raw"]) simp
  next
    case False
    obtain d io2 where rd: "read_n n io1 = (d, io2)" by (cases "read_n n io1")
    have big: "\<not> saturating_add_usize (length ?o) n > MAX_BODY" and "\<exists>data. d = Inr data"
      using "1.prems" l t n False rd by (auto simp: read_chunks.simps [of out io] Let_def split: if_splits sum.splits)
    then obtain data where d: "d = Inr data" by blast
    obtain c io3 where rc: "read_n 2 io2 = (c, io3)" by (cases "read_n 2 io2")
    have "\<exists>crlf. c = Inr crlf"
      using "1.prems" l t n False rd d rc big by (auto simp: read_chunks.simps [of out io] Let_def split: if_splits sum.splits)
    then obtain e where c: "c = Inr e" by blast
    have "read_chunks (?o @ data @ e) io3 = (Inr res, io')"
      using "1.prems" l t n False rd d rc c big by (simp add: read_chunks.simps [of out io] Let_def)
    then obtain raw where raw: "res = (?o @ data @ e) @ raw"
        "\<forall>rest. recv_chunks P (raw @ rest) \<in> {None, Some (raw, rest)}"
      using "1.IH" [OF l [symmetric] t n refl False big rd [symmetric] d rc [symmetric] c] by blast
    have len: "length data = n" "length e = 2" using read_n_length rd d rc c by blast+
    let ?raw = "as_bytes t @ CRLF @ data @ e @ raw"
    have "recv_chunks P (?raw @ rest) \<in> {None, Some (?raw, rest)}" for rest
      using cut_line_pair_free [OF pf, of "data @ e @ raw @ rest"] raw(2) [rule_format, of rest] size_n len False
      by (subst recv_chunks.simps) (auto simp: CRLF_def split: option.splits)
    then show ?thesis using raw(1) by (intro exI [of _ ?raw]) simp
  qed
qed

section \<open>Trimming keeps what is printed\<close>

lemma ws_head_codes: "x \<in> set (take (ws_head bs) bs) \<Longrightarrow> x < 33 \<or> 128 \<le> x"
proof (cases bs)
  case (Cons a r)
  assume x: "x \<in> set (take (ws_head bs) bs)"
  show ?thesis using x unfolding Cons
    by (cases r; cases "tl r") (auto simp: ws_head_def numeral_2_eq_2 numeral_3_eq_3 split: if_splits)
qed simp

lemma ws_last_codes:
  assumes "x \<in> set (take (ws_last rbs) rbs)"
  shows "x < 33 \<or> 128 \<le> x"
proof -
  have h: "ws_head (rev (take k rbs)) = k \<Longrightarrow> x \<in> set (take k rbs) \<Longrightarrow> x < 33 \<or> 128 \<le> x" for k
    using ws_head_codes [of x "rev (take k rbs)"] by simp
  have "ws_last rbs = 0 \<or> (ws_last rbs = 1 \<and> ws_head (take 1 rbs) = 1) \<or> (ws_last rbs \<in> {2, 3} \<and> ws_head (rev (take (ws_last rbs) rbs)) = ws_last rbs)"
    by (simp add: ws_last_def)
  moreover have "rev (take 1 rbs) = take 1 rbs" by (cases rbs) auto
  ultimately show ?thesis using assms h [of "ws_last rbs"] by auto
qed

lemma trim_codes_keeps:
  "(\<And>bs x. x \<in> set (take (ws bs) bs) \<Longrightarrow> x < 33 \<or> 128 \<le> x) \<Longrightarrow> c \<in> set bs \<Longrightarrow> 33 \<le> c \<Longrightarrow> c < 128 \<Longrightarrow>
     c \<in> set (trim_codes ws bs)"
proof (induction ws bs rule: trim_codes.induct)
  case (1 ws bs)
  show ?case
  proof (cases "0 < ws bs \<and> bs \<noteq> []")
    case True
    have "c \<notin> set (take (ws bs) bs)" using 1(2) [of c bs] 1(4,5) by auto
    then have "c \<in> set (drop (ws bs) bs)" using 1(3) by (metis Un_iff append_take_drop_id set_append)
    then show ?thesis using 1(1) [OF True 1(2)] 1(4,5) True by (simp add: trim_codes.simps [of ws bs])
  next
    case False
    then show ?thesis using 1(3) by (subst trim_codes.simps) auto
  qed
qed

lemma trim_keeps: "graphic c \<Longrightarrow> c \<in> set s \<Longrightarrow> c \<in> set (trim s)"
proof -
  assume g: "graphic c" and "c \<in> set s"
  then have "of_char c \<in> set (map of_char s :: nat list)" by simp
  then have "of_char c \<in> set (rev (trim_codes ws_last (rev (trim_codes ws_head (map of_char s :: nat list)))))"
    using g by (auto simp: graphic_def intro!: trim_codes_keeps dest: ws_head_codes ws_last_codes)
  then have "char_of (of_char c :: nat) \<in> set (trim s)" unfolding trim_def by (metis image_eqI set_map)
  then show "c \<in> set (trim s)" by simp
qed

lemma set_trim: "set (trim s) \<subseteq> set s"
proof -
  have "set (rev (trim_codes ws_last (rev (trim_codes ws_head (map of_char s :: nat list))))) \<subseteq> set (map of_char s)"
    using set_mono_suffix [OF trim_codes_suffix [of ws_last]] set_mono_suffix [OF trim_codes_suffix [of ws_head]]
    by (metis (no_types, lifting) set_rev subset_trans)
  then have "set (trim s) \<subseteq> char_of ` set (map of_char s :: nat list)" unfolding trim_def by (simp add: image_mono)
  then show ?thesis by (auto simp: image_image)
qed

lemma split_on_pieces: "c \<in> set xs \<Longrightarrow> c \<noteq> s \<Longrightarrow> \<exists>p\<in>set (split_on s xs). c \<in> set p"
proof (induction xs)
  case (Cons x xs)
  obtain p ps where p: "split_on s xs = p # ps" by (cases "split_on s xs") auto
  then show ?case using Cons by (auto split: if_splits)
qed simp

lemma set_split_on: "p \<in> set (split_on s xs) \<Longrightarrow> set p \<subseteq> set xs"
proof (induction xs arbitrary: p)
  case (Cons x xs)
  obtain q qs where q: "split_on s xs = q # qs" by (cases "split_on s xs") auto
  have "set q \<subseteq> set xs" "r \<in> set qs \<Longrightarrow> set r \<subseteq> set xs" for r using Cons.IH q by auto
  then show ?case using Cons.prems q by (fastforce split: if_splits)
qed simp

lemma te_tokens_empty: "te_tokens v = [] \<Longrightarrow> c \<in> set v \<Longrightarrow> c \<noteq> CHR '','' \<Longrightarrow> \<not> graphic c"
proof
  assume t: "te_tokens v = []" and c: "c \<in> set v" "c \<noteq> CHR '',''" and g: "graphic c"
  obtain p where p: "p \<in> set (split_on CHR '','' v)" "c \<in> set p" using split_on_pieces c by metis
  have "trim p = []" using t p(1) by (auto simp: te_tokens_def filter_empty_conv to_ascii_lowercase_def)
  then show False using trim_keeps [OF g p(2)] by simp
qed

lemma ows_strip_id: "list_all graphic s \<Longrightarrow> ows_strip ('' '' @ s) = s"
proof -
  have g: "graphic c \<Longrightarrow> \<not> is_ows c" for c by (auto simp: graphic_def is_ows_def)
  assume a: "list_all graphic s"
  show ?thesis
  proof (cases s rule: rev_cases)
    case Nil
    then show ?thesis by (simp add: ows_strip_def is_ows_def)
  next
    case (snoc ys y)
    obtain x xs where x: "s = x # xs" using snoc by (metis append_is_Nil_conv list.exhaust list.simps(3))
    have "x \<in> set s" using x by simp
    moreover have "y \<in> set s" using snoc by simp
    ultimately have "\<not> is_ows x" "\<not> is_ows y" using a g by (auto simp: list_all_iff)
    then have "dropWhile is_ows ('' '' @ s) = s" unfolding x by (simp add: is_ows_def)
    then show ?thesis using snoc \<open>\<not> is_ows y\<close> by (simp add: ows_strip_def)
  qed
qed

lemma set_ows_strip: "set (ows_strip s) \<subseteq> set s"
  unfolding ows_strip_def by (metis (no_types, lifting) set_dropWhileD set_rev subsetI)

lemma is_digit_graphic: "is_digit c \<Longrightarrow> graphic c \<and> c \<noteq> CHR ''+'' \<and> c \<noteq> CHR ''-''"
  by (auto simp: is_digit_def graphic_def)

section \<open>A forwarded request is one request\<close>

lemma recv_chunked_values:
  assumes "field_values ''transfer-encoding'' fs \<noteq> []"
  shows "recv_framing fs = None \<or> recv_framing fs = Some ByChunks"
  using assms by (simp add: recv_framing_def Let_def)

lemma seen_values:
  assumes "clean_names h" "framing_name n"
  shows "field_values n (map seen_field (hp_headers h)) = map (\<lambda>v. ows_strip ('' '' @ strip_crlf v)) (head_get_all h n)"
proof -
  have "filter (\<lambda>(k, _). to_ascii_lowercase k = n) (map seen_field hs) =
      map seen_field (filter (\<lambda>(k, _). eq_ignore_ascii_case k n) hs)" if "\<forall>kv\<in>set hs. ctl_free (fst kv)" for hs
    using that framing_name_lower [OF assms(2)]
    by (induction hs) (auto simp: seen_field_def eq_ignore_ascii_case_def)
  then show ?thesis using assms(1)
    by (simp add: field_values_def head_get_all_def clean_names_def comp_def seen_field_def)
qed

lemma parse_head_facts:
  assumes "parse_head lines = Inr h"
  shows "\<forall>kv\<in>set (hp_headers h). CHR '':'' \<notin> set (fst kv) \<and> trim (snd kv) = snd kv" "hp_start h \<in> set lines"
proof -
  have "split_once c l = Some (k, v) \<Longrightarrow> c \<notin> set k" for c :: char and l k v
    by (induction l arbitrary: k) (auto split: if_splits)
  then show "\<forall>kv\<in>set (hp_headers h). CHR '':'' \<notin> set (fst kv) \<and> trim (snd kv) = snd kv"
    using assms set_trim by (auto simp: parse_head_def List.map_filter_def split: list.splits) blast
  show "hp_start h \<in> set lines" using assms by (auto simp: parse_head_def split: list.splits)
qed

lemma read_head_lines: "read_head io = (Inr (Some lines), io') \<Longrightarrow> [] \<notin> set lines"
proof -
  have "read_head_raw io = (Inr (Some (raw, lines)), io') \<Longrightarrow> lines = head_lines raw" for raw
  proof (induction io rule: read_head_raw.induct)
    case (1 io)
    show ?case
    proof (cases "find_subslice (unread io) (CRLF @ CRLF)")
      case None
      obtain io1 n where f: "fill io = (io1, n)" by (cases "fill io")
      have "\<not> available io \<ge> MAX_HEAD" "n \<noteq> 0" "read_head_raw io1 = (Inr (Some (raw, lines)), io')"
        using "1.prems" None f by (auto simp: read_head_raw.simps [of io] split: if_splits)
      with "1.IH" [OF None _ f [symmetric]] show ?thesis by simp
    next
      case (Some i)
      then show ?thesis using "1.prems" by (auto simp: read_head_raw.simps [of io] Let_def split: if_splits prod.splits)
    qed
  qed
  moreover assume "read_head io = (Inr (Some lines), io')"
  then obtain raw where "read_head_raw io = (Inr (Some (raw, lines)), io')"
    by (cases "read_head_raw io"; cases "fst (read_head_raw io)") (auto simp: read_head_def)
  ultimately show ?thesis by (auto simp: head_lines_def)
qed

lemma rewrite_start [simp]: "hp_start (rewrite_request route hdrs peer h) = hp_start h"
proof -
  have 1: "hp_start (fold head_remove ms g) = hp_start g" for ms g
    by (induction ms arbitrary: g) (simp_all add: head_remove_def)
  have 2: "hp_start (fold (\<lambda>(k, _). head_remove k) xs g) = hp_start g" for xs :: "(string \<times> string) list" and g
    by (induction xs arbitrary: g) (auto simp: head_remove_def)
  have 3: "hp_start (fold (\<lambda>(k, v). if v = [] then id else head_set k v) xs g) = hp_start g" for xs g
    by (induction xs arbitrary: g) (auto simp: head_set_def)
  show ?thesis
    by (simp add: rewrite_request_def set_route_headers_def strip_hop_by_hop_def dedup_headers_def Let_def 1 2 3 head_set_def)
qed

lemma content_length_facts:
  assumes "content_length_strict h = Inr n" "head_get_all h ''content-length'' = [v]" "trim v = v"
  shows "v \<noteq> [] \<and> list_all is_digit v \<and> digits_val 10 0 v = Some n"
proof -
  have v: "v \<noteq> []" "list_all is_digit v" "from_str_radix (2 ^ 64) 10 v = Some n"
    using assms by (auto simp: content_length_strict_def Let_def ok_or_Inr_iff split: if_splits)
  obtain c cs where c: "v = c # cs" using v(1) by (cases v) auto
  then have "c \<noteq> CHR ''+''" "c \<noteq> CHR ''-''" using v(2) is_digit_graphic by auto
  then show ?thesis using v c by (auto simp: from_str_radix_def split: option.splits if_splits)
qed

text \<open>The body the relay has read is the one the receiver takes, or the receiver rejects the request.\<close>

lemma body_agrees:
  assumes vals: "\<And>n. framing_name n \<Longrightarrow> field_values n fs = map (\<lambda>v. ows_strip ('' '' @ strip_crlf v)) (take 1 (head_get_all req n))"
    and tr: "\<forall>kv\<in>set (hp_headers req). trim (snd kv) = snd kv"
    and cf: "check_framing req = None" and nc: "\<not> is_connect req"
    and rb: "read_request_body req io = (Inr (Inr body), io')"
  shows "head_get req ''transfer-encoding'' = None \<Longrightarrow> recv_framing fs = Some (ByLength (length body))"
    and "head_get req ''transfer-encoding'' \<noteq> None \<Longrightarrow> recv_framing fs = None
      \<or> recv_framing fs = Some ByChunks \<and> (\<forall>rest. recv_chunks P (body @ rest) \<in> {None, Some (body, rest)})"
proof -
  let ?te = "head_get_all req ''transfer-encoding''" and ?cl = "head_get_all req ''content-length''"
  have names: "framing_name ''transfer-encoding''" "framing_name ''content-length''" by (simp_all add: framing_name_def)
  note te_vals = vals [OF names(1)] and cl_vals = vals [OF names(2)]
  have tr_all: "v \<in> set (head_get_all req n) \<Longrightarrow> trim v = v" for v n using tr by (auto simp: head_get_all_def)
  {
    assume none: "head_get req ''transfer-encoding'' = None"
    then have te: "?te = []" by (auto simp: head_get_values split: list.splits)
    have "length ?cl \<le> 1" using cf by (auto simp: check_framing_def Let_def head_count_values split: if_splits)
    then consider "?cl = []" | v where "?cl = [v]" by (cases ?cl) auto
    then show "recv_framing fs = Some (ByLength (length body))"
    proof cases
      case 1
      then have "body = []" using rb nc none by (simp add: read_request_body_def head_count_values)
      then show ?thesis using te_vals cl_vals te 1 by (simp add: recv_framing_def)
    next
      case 2
      then obtain n where n: "content_length_strict req = Inr n"
        using rb nc none by (cases "content_length_strict req") (auto simp: read_request_body_def head_count_values)
      have tv: "trim v = v" using tr_all [of v "''content-length''"] 2 by simp
      note v = content_length_facts [OF n 2 tv]
      have g: "list_all graphic v" using v is_digit_graphic by (auto simp: list_all_iff)
      have "ctl_free v" using g by (auto simp: ctl_free_def list_all_iff graphic_def)
      then have "field_values ''content-length'' fs = [v]" using cl_vals 2 ows_strip_id [OF g] by simp
      then have f: "recv_framing fs = Some (ByLength n)" using te_vals te v by (simp add: recv_framing_def)
      have "length body = n"
      proof (cases "n > 0")
        case True
        then obtain r where r: "read_n n io = (r, io')" "map_sum id Inr r = (Inr (Inr body) :: http_error + refusal + bytes)"
          using rb nc none n 2 by (cases "read_n n io") (auto simp: read_request_body_def head_count_values)
        then have "r = Inr body" by (cases r) auto
        then show ?thesis using read_n_length r(1) by blast
      next
        case False
        then show ?thesis using rb nc none n 2 by (auto simp: read_request_body_def head_count_values)
      qed
      then show ?thesis using f by simp
    qed
  }
  assume some: "head_get req ''transfer-encoding'' \<noteq> None"
  then obtain v vs where te: "?te = v # vs" by (cases ?te) (auto simp: head_get_values)
  have fv: "field_values ''transfer-encoding'' fs = [ows_strip ('' '' @ strip_crlf v)]" using te_vals te by simp
  show "recv_framing fs = None \<or> recv_framing fs = Some ByChunks \<and> (\<forall>rest. recv_chunks P (body @ rest) \<in> {None, Some (body, rest)})"
  proof (cases "is_chunked req")
    case True
    then obtain r where r: "read_chunked io = (r, io')" "map_sum id Inr r = (Inr (Inr body) :: http_error + refusal + bytes)"
      using rb nc some by (cases "read_chunked io") (auto simp: read_request_body_def)
    then have "r = Inr body" by (cases r) auto
    then have "\<forall>rest. recv_chunks P (body @ rest) \<in> {None, Some (body, rest)}"
      using chunks_agree [of "[]" io body io' P] r(1) by (auto simp: read_chunked_def)
    moreover have "recv_framing fs = None \<or> recv_framing fs = Some ByChunks"
      by (rule recv_chunked_values) (simp add: fv)
    ultimately show ?thesis by blast
  next
    case False
    have get: "head_get req ''transfer-encoding'' = Some v" using te by (simp add: head_get_values)
    have toks: "transfer_encoding_tokens req = (if te_tokens v = [] then None else Some (te_tokens v))"
      by (simp add: transfer_encoding_tokens_def get Let_def)
    have "\<not> transfer_encoding_is_unsupported req" using cf by (simp add: check_framing_def Let_def split: if_splits)
    then have "te_tokens v = []" using False toks
      by (cases "te_tokens v = []") (simp_all add: is_chunked_def transfer_encoding_is_unsupported_def)
    then have ng: "c \<in> set v \<Longrightarrow> c \<noteq> CHR '','' \<Longrightarrow> \<not> graphic c" for c by (rule te_tokens_empty)
    have "recv_framing fs = None"
    proof (rule ccontr)
      define w where "w = ows_strip ('' '' @ strip_crlf v)"
      define cs where "cs = map (\<lambda>s. to_ascii_lowercase (ows_strip s)) (split_on CHR '','' w)"
      assume "recv_framing fs \<noteq> None"
      then have "filter (\<lambda>s. s \<noteq> []) cs \<noteq> [] \<and> last (filter (\<lambda>s. s \<noteq> []) cs) = ''chunked''"
        unfolding recv_framing_def Let_def fv w_def [symmetric] cs_def by (simp split: if_splits)
      then have "''chunked'' \<in> set (filter (\<lambda>s. s \<noteq> []) cs)" by (metis last_in_set)
      then obtain p where p: "p \<in> set (split_on CHR '','' (ows_strip ('' '' @ strip_crlf v)))"
          "to_ascii_lowercase (ows_strip p) = ''chunked''"
        unfolding cs_def w_def by auto
      have "length (ows_strip p) = length ''chunked''" using p(2) by (metis length_map to_ascii_lowercase_def)
      then obtain c cs where c: "ows_strip p = c # cs" by (cases "ows_strip p") auto
      then have low: "ascii_lower c = CHR ''c''" using p(2) by (simp add: to_ascii_lowercase_def)
      then have g: "graphic c" "c \<noteq> CHR '',''" by (auto simp: ascii_lower_def graphic_def Let_def split: if_splits)
      have "c \<in> set p" using c set_ows_strip [of p] by auto
      then have "c \<in> set (ows_strip ('' '' @ strip_crlf v))" using set_split_on [OF p(1)] by auto
      then have "c \<in> set ('' '' @ strip_crlf v)" using set_ows_strip by blast
      moreover have "c \<noteq> CHR '' ''" using g(1) by (auto simp: graphic_def)
      ultimately have "c \<in> set v" by (auto simp: strip_crlf_filter)
      then show False using ng g by blast
    qed
    then show ?thesis by blast
  qed
qed

text \<open>Facts about the request without its \<open>Expect\<close> header.\<close>

lemma strip_expect_facts:
  "hp_start (fst (strip_expect h)) = hp_start h" "set (hp_headers (fst (strip_expect h))) \<subseteq> set (hp_headers h)"
  "framing_name n \<Longrightarrow> head_get_all (fst (strip_expect h)) n = head_get_all h n"
  using head_remove_other [OF unframed_neq [OF own_unframed(4)]]
  by (auto simp: strip_expect_def head_remove_def split: option.splits)

lemma forwards_cases:
  assumes "judge_request b64 table peer order req io = (Forwards route req' body, io')" "\<not> is_connect req"
  shows "check_framing req = None" "read_request_body req io = (Inr (Inr body), io')"
    "req' = rewrite_request route (order route) peer req"
  using assms by (auto simp: judge_request_def Let_def split: if_splits option.splits sum.splits prod.splits)

section \<open>A well-formed chunked body is read as it is\<close>

lemma ascii_lossy: "\<forall>b\<in>set bs. b < 128 \<Longrightarrow> as_bytes (from_utf8_lossy bs) = bs"
proof -
  assume "\<forall>b\<in>set bs. b < (128 :: u8)"
  then have "list_all is_ascii (str_of bs)"
    by (auto simp: str_of_def list_all_iff is_ascii_def char_of_byte_def word_less_nat_alt)
  then have "valid_str (str_of bs)" by (rule valid_str_ascii)
  then show ?thesis using from_utf8_lossy_as_bytes [of "str_of bs"] by simp
qed

text \<open>Lines of ASCII characters that are not too long.\<close>

definition plain_line :: "bytes \<Rightarrow> bool" where
  "plain_line l \<longleftrightarrow> (\<forall>b\<in>set l. b < 128) \<and> length l < MAX_HEAD"

lemma cut_line_find: "cut_line bs = Some (l, r) \<Longrightarrow> bs = l @ CRLF @ r \<and> find_subslice bs CRLF = Some (length l)"
proof -
  assume a: "cut_line bs = Some (l, r)"
  have ne: "CRLF \<noteq> []" and l2: "length CRLF = 2" by (simp_all add: CRLF_def)
  have "bs = l @ CRLF @ r \<and> 10 \<notin> set l" using a
  proof (induction bs arbitrary: l)
    case (Cons b bs)
    then show ?case by (cases bs) (auto simp: CRLF_def split: if_splits)
  qed simp
  then have bs: "bs = l @ CRLF @ r" and no: "10 \<notin> set l" by auto
  have "\<not> at_pos bs CRLF j" if "j < length l" for j
  proof
    assume at: "at_pos bs CRLF j"
    then have "take 2 (drop j bs) = [13, 10]" by (simp add: at_pos_def CRLF_def numeral_2_eq_2)
    then have n: "take 2 (drop j bs) ! 1 = 10" by simp
    have "j + 2 \<le> length bs" using at_pos_bound [OF at ne] l2 by simp
    then have "bs ! (j + 1) = 10" using n by simp
    moreover have "j + 1 = length l \<or> j + 1 < length l" using that by auto
    ultimately show False using no unfolding bs by (auto simp: nth_append CRLF_def in_set_conv_nth)
  qed
  moreover have "at_pos bs CRLF (length l)" unfolding bs by (simp add: at_pos_def)
  ultimately show ?thesis using bs find_subslice_exact [OF ne] by auto
qed

lemma read_plain_line:
  assumes "io_fine io" "cut_line (stream io) = Some (l, r)" "plain_line l"
  obtains io' where "read_line io = (Inr (from_utf8_lossy l), io')" "stream io' = r" "io_fine io'"
    "as_bytes (from_utf8_lossy l) = l"
proof -
  note c = cut_line_find [OF assms(2)]
  have c1: "stream io = l @ CRLF @ r" and c2: "find_subslice (stream io) CRLF = Some (length l)" using c by auto
  have "length l < MAX_HEAD" using assms(3) by (simp add: plain_line_def)
  from read_line_exact [OF assms(1) c2 this] obtain io' where
    "read_line io = (Inr (from_utf8_lossy (take (length l) (stream io))), io')"
    "stream io' = drop (length l + 2) (stream io)" "io_fine io'" by blast
  moreover have "take (length l) (stream io) = l" "drop (length l + 2) (stream io) = r" unfolding c1 by (simp_all add: CRLF_def)
  moreover have "as_bytes (from_utf8_lossy l) = l" using assms(3) by (intro ascii_lossy) (simp add: plain_line_def)
  ultimately show ?thesis using that by simp
qed

lemma trailers_verbatim:
  "io_fine io \<Longrightarrow> recv_trailers plain_line (stream io) = Some (raw, rest) \<Longrightarrow>
     \<exists>io'. read_trailers out io = (Inr (out @ raw), io') \<and> stream io' = rest \<and> io_fine io'"
proof (induction out io arbitrary: raw rule: read_trailers.induct)
  case (1 out io)
  obtain l r where c: "cut_line (stream io) = Some (l, r)"
    using "1.prems"(2) by (cases "cut_line (stream io)") (auto simp: recv_trailers.simps [of plain_line "stream io"])
  have "l = [] \<or> plain_line l" using "1.prems"(2) c
    by (auto simp: recv_trailers.simps [of plain_line "stream io"] split: if_splits)
  then have "plain_line l" by (auto simp: plain_line_def MAX_HEAD_def)
  then obtain io1 where rl: "read_line io = (Inr (from_utf8_lossy l), io1)" "stream io1 = r" "io_fine io1"
      "as_bytes (from_utf8_lossy l) = l" using read_plain_line [OF "1.prems"(1) c] by blast
  have nil: "from_utf8_lossy l = [] \<longleftrightarrow> l = []" using rl(4) by (metis as_bytes_Nil(2))
  show ?case
  proof (cases "l = []")
    case True
    then have "raw = CRLF" "r = rest" using "1.prems"(2) c by (simp_all add: recv_trailers.simps [of plain_line "stream io"])
    moreover have "read_trailers out io = (Inr (out @ CRLF), io1)"
      using rl(1) nil rl(4) True by (simp add: read_trailers.simps [of out io] Let_def)
    ultimately show ?thesis using rl by blast
  next
    case False
    then obtain raw' where r': "recv_trailers plain_line r = Some (raw', rest)" "raw = l @ CRLF @ raw'"
      using "1.prems"(2) c by (auto simp: recv_trailers.simps [of plain_line "stream io"] split: if_splits)
    obtain io' where "read_trailers (out @ l @ CRLF) io1 = (Inr ((out @ l @ CRLF) @ raw'), io')" "stream io' = rest" "io_fine io'"
      using "1.IH" [OF rl(1) [symmetric] refl refl _ rl(3)] r'(1) rl(2,4) nil False by auto
    then show ?thesis using rl(1,4) nil False r'(2) by (simp add: read_trailers.simps [of out io] Let_def)
  qed
qed

lemma chunks_verbatim:
  "io_fine io \<Longrightarrow> recv_chunks plain_line (stream io) = Some (raw, rest) \<Longrightarrow> length (out @ raw) \<le> MAX_BODY \<Longrightarrow>
     \<exists>io'. read_chunks out io = (Inr (out @ raw), io') \<and> stream io' = rest \<and> io_fine io'"
proof (induction out io arbitrary: raw rule: read_chunks.induct)
  case (1 out io)
  note rs = recv_chunks.simps [of plain_line "stream io"]
  obtain l r where c: "cut_line (stream io) = Some (l, r)"
    using "1.prems"(2) by (cases "cut_line (stream io)") (auto simp: rs)
  have pl: "plain_line l" using "1.prems"(2) c by (auto simp: rs split: if_splits)
  then obtain io1 where rl: "read_line io = (Inr (from_utf8_lossy l), io1)" "stream io1 = r" "io_fine io1"
      "as_bytes (from_utf8_lossy l) = l" using read_plain_line [OF "1.prems"(1) c] by blast
  obtain n where n: "recv_size l = Some n" using "1.prems"(2) c pl by (cases "recv_size l") (auto simp: rs)
  have MB: "MAX_BODY < 2 ^ 64 - 1" by (simp add: MAX_BODY_def)
  show ?case
  proof (cases "n = 0")
    case True
    have s: "from_str_radix (2 ^ 64) 16 (chunk_size_text (from_utf8_lossy l)) = Some 0"
      using recv_size_agrees [of "from_utf8_lossy l" n] rl(4) n True by simp
    obtain raw' where r': "recv_trailers plain_line r = Some (raw', rest)" "raw = l @ CRLF @ raw'"
      using "1.prems"(2) c pl n True by (auto simp: rs)
    obtain io' where "read_trailers (out @ l @ CRLF) io1 = (Inr ((out @ l @ CRLF) @ raw'), io')" "stream io' = rest" "io_fine io'"
      using trailers_verbatim [OF rl(3)] r'(1) rl(2) by blast
    then show ?thesis using rl(1,4) s r'(2) by (simp add: read_chunks.simps [of out io] Let_def)
  next
    case False
    then obtain raw' where t2: "take 2 (drop n r) = CRLF" and r': "recv_chunks plain_line (drop (n + 2) r) = Some (raw', rest)"
        "raw = l @ CRLF @ take (n + 2) r @ raw'"
      using "1.prems"(2) c pl n by (auto simp: rs split: if_splits)
    have "length (take 2 (drop n r)) = 2" using t2 by (simp add: CRLF_def)
    then have len: "n + 2 \<le> length r" by (simp add: min_def split: if_splits)
    have size_le: "length (out @ l @ CRLF) + n \<le> MAX_BODY"
      using "1.prems"(3) r'(2) len by simp
    then have s: "from_str_radix (2 ^ 64) 16 (chunk_size_text (from_utf8_lossy l)) = Some n"
      using recv_size_agrees [of "from_utf8_lossy l" n] rl(4) n MB by simp
    have sat: "\<not> saturating_add_usize (length (out @ l @ CRLF)) n > MAX_BODY"
      using size_le by (simp add: saturating_add_usize_def)
    obtain io2 where r1: "read_n n io1 = (Inr (take n r), io2)" "stream io2 = drop n r" "io_fine io2"
      using read_n_ok [OF rl(3), of n] size_le len rl(2) by auto
    obtain io3 where r2: "read_n 2 io2 = (Inr CRLF, io3)" "stream io3 = drop (n + 2) r" "io_fine io3"
    proof (rule read_n_ok [OF r1(3), of 2])
      show "2 \<le> MAX_BODY" by (simp add: MAX_BODY_def)
      show "2 \<le> length (stream io2)" using len r1(2) by simp
    qed (use r1(2) t2 in \<open>auto simp: drop_drop add.commute\<close>)
    have tk: "take (n + 2) r = take n r @ CRLF" by (simp only: take_add t2)
    have l': "length ((out @ l @ CRLF @ take n r @ CRLF) @ raw') \<le> MAX_BODY"
      using "1.prems"(3) len unfolding r'(2) tk by (simp add: CRLF_def)
    obtain io' where "read_chunks (out @ l @ CRLF @ take n r @ CRLF) io3 = (Inr ((out @ l @ CRLF @ take n r @ CRLF) @ raw'), io')"
        "stream io' = rest" "io_fine io'"
      using "1.IH" [OF rl(1) [symmetric] refl s refl False _ r1(1) [symmetric] refl r2(1) [symmetric] refl r2(3)]
        sat rl(4) r'(1) r2(2) l' by auto
    then show ?thesis using rl(1,4) s sat False r1(1) r2(1) r'(2) tk by (simp add: read_chunks.simps [of out io] Let_def)
  qed
qed

end
