(* ===== verification/Http_Gaps.thy ===== *)
theory Http_Gaps
  imports Http_Safety
begin

text \<open>
  Requests and responses on which the relay and its peers do not agree: a name or a request line
  that is changed after it has been checked, a framing header that is removed with the hop-by-hop
  headers, a length of a response that is not a number, an interim response.
\<close>

section \<open>Headers used in the examples\<close>

definition hop_free :: "string \<Rightarrow> bool" where
  "hop_free k \<longleftrightarrow> to_ascii_lowercase k \<notin> set HOP_BY_HOP"

lemma judge_forwards:
  assumes "\<not> has_dot_segment (request_path req)" "\<not> is_connect req"
    and "vhost_lookup table (request_host req) (request_path req) None VhHttp = Some (route, loc)"
    and "head_get req ''authorization'' = None" "vr_http_user route = []"
    and "check_framing req = None" "read_request_body req io = (Inr (Inr body), io')"
  shows "judge_request b64 table peer order req io = (Forwards route (rewrite_request route (order route) peer req) body, io')"
  using assms by (simp add: judge_request_def basic_auth_user_def http_auth_ok_def Let_def)

lemmas head_eval = eq_ignore_ascii_case_def to_ascii_lowercase_def ascii_lower_code head_get_values head_get_all_def

text \<open>The example header, as the relay and as the receiver read it.\<close>

definition nul_encoding :: string where
  "nul_encoding = ''Transfer-'' @ CHR 0x00 # ''Encoding''"

definition smuggling_head :: "nat \<Rightarrow> head_parts" where
  "smuggling_head n =
     \<lparr>hp_start = ''POST / HTTP/1.1'',
      hp_headers = [(''Host'', ''a''), (nul_encoding, ''chunked''), (''Content-Length'', show_nat n)]\<rparr>"

definition zero_chunk :: bytes where
  "zero_chunk = as_bytes ''0'' @ CRLF @ CRLF"

lemma rewrite_stripped:
  assumes "vr_rewrite_host route = []" "strip_hop_by_hop h = g" "head_get g ''x-forwarded-for'' = None"
    "list_all (\<lambda>(k, _). \<not> eq_ignore_ascii_case k ''x-forwarded-for'' \<and> \<not> eq_ignore_ascii_case k ''x-real-ip'') (hp_headers g)"
    "dedup_loop [] (hp_headers g) = hp_headers g"
  shows "rewrite_request route [] peer h =
    g\<lparr>hp_headers := hp_headers g @ [(''x-forwarded-for'', strip_crlf (show_ip peer)), (''x-real-ip'', strip_crlf (show_ip peer))]\<rparr>"
proof -
  have put: "list_all (\<lambda>(k, _). \<not> eq_ignore_ascii_case k m) hs \<Longrightarrow> put_header m v hs = hs @ [(m, v)]" for m v hs
    by (induction m v hs rule: put_header.induct) auto
  have dd: "fst (dedup_headers g) = g" by (simp add: dedup_headers_def Let_def assms(5))
  have n: "ctl_free ''x-forwarded-for''" "ctl_free ''x-real-ip''" by (rule own_ctl_free)+
  have a: "list_all (\<lambda>(k, _). \<not> eq_ignore_ascii_case k ''x-forwarded-for'') (hp_headers g)"
    "list_all (\<lambda>(k, _). \<not> eq_ignore_ascii_case k ''x-real-ip'') (hp_headers g @ [(''x-forwarded-for'', strip_crlf (show_ip peer))])"
    using assms(4) by (auto simp: list_all_iff head_eval)
  show ?thesis
    unfolding rewrite_request_def Let_def assms(2) dd set_route_headers_def head_set_def
    using assms(1,3) put [OF a(1)] put [OF a(2)] n by simp
qed

lemma strip_nothing:
  assumes "head_get h ''connection'' = None" "list_all (\<lambda>(k, _). hop_free k) (hp_headers h)"
  shows "strip_hop_by_hop h = h"
proof -
  have rm: "list_all (\<lambda>(k, _). \<not> eq_ignore_ascii_case k m) (hp_headers g) \<Longrightarrow> head_remove m g = g" for m and g :: head_parts
    by (simp add: head_remove_def filter_id_conv list_all_iff)
  have hop: "m \<in> set HOP_BY_HOP \<Longrightarrow> to_ascii_lowercase m = m" for m
    unfolding HOP_BY_HOP_def by (auto simp: to_ascii_lowercase_def ascii_lower_code)
  have "m \<in> set HOP_BY_HOP \<Longrightarrow> head_remove m h = h" for m
    using assms(2) hop by (intro rm) (auto simp: list_all_iff hop_free_def eq_ignore_ascii_case_def)
  then have "fold head_remove ms h = h" if "set ms \<subseteq> set HOP_BY_HOP" for ms
    using that by (induction ms) auto
  then show ?thesis by (simp add: strip_hop_by_hop_def connection_tokens_def assms(1))
qed

lemma graphic_plain: "list_all graphic s \<Longrightarrow> ctl_free s"
  by (auto simp: ctl_free_def list_all_iff graphic_def)

lemma recv_zero_chunk: "P (as_bytes ''0'') \<Longrightarrow> recv_chunks P (zero_chunk @ inner) = Some (zero_chunk, inner)"
proof -
  assume "P (as_bytes ''0'')"
  moreover have "cut_line (zero_chunk @ inner) = Some (as_bytes ''0'', CRLF @ inner)"
    using cut_line_plain [of "''0''" "CRLF @ inner"] unfolding zero_chunk_def CRLF_def by simp
  moreover have "recv_size (as_bytes ''0'') = Some 0" by code_simp
  moreover have "recv_trailers P (CRLF @ inner) = Some (CRLF, inner)"
    by (simp add: recv_trailers.simps [of _ "13 # 10 # inner"] CRLF_def)
  ultimately show ?thesis
    by (subst recv_chunks.simps) (simp only: option.case prod.case if_True simp_thms, simp add: zero_chunk_def)
qed

section \<open>A second request inside the first\<close>

definition encoding_stripped :: string where "encoding_stripped = ''Transfer-Encoding''"

lemma strip_nul_encoding: "strip_crlf nul_encoding = encoding_stripped"
  by code_simp

lemma strip_show_nat [simp]: "strip_crlf (show_nat n) = show_nat n"
  by (rule strip_ctl_free [OF graphic_plain [OF graphic_show_nat]])

lemma digits_show_nat: "list_all is_digit (show_nat n)"
proof -
  have "c \<in> set (show_nat n) \<Longrightarrow> is_digit c" for c
    using show_nat_chars [of c n] by (auto simp: is_digit_def digit_char_code)
  then show ?thesis by (simp add: list_all_iff)
qed

lemma content_length_show:
  assumes "head_get_all h ''content-length'' = [show_nat n]" "n < 2 ^ 64"
  shows "content_length_strict h = Inr n"
  using assms digits_show_nat [of n] from_str_radix_show_nat [of n "2 ^ 64"]
  by (simp add: content_length_strict_def Let_def)

lemma smuggling_head_facts:
  "head_get (smuggling_head n) ''transfer-encoding'' = None" "head_get_all (smuggling_head n) ''content-length'' = [show_nat n]"
  "head_get (smuggling_head n) ''connection'' = None" "head_get (smuggling_head n) ''x-forwarded-for'' = None"
  "head_get (smuggling_head n) ''authorization'' = None" "head_get (smuggling_head n) ''host'' = Some ''a''"
  "list_all (\<lambda>(k, _). \<not> eq_ignore_ascii_case k ''x-forwarded-for'' \<and> \<not> eq_ignore_ascii_case k ''x-real-ip'') (hp_headers (smuggling_head n))"
  "list_all (\<lambda>(k, _). hop_free k) (hp_headers (smuggling_head n))"
  "dedup_loop [] (hp_headers (smuggling_head n)) = hp_headers (smuggling_head n)"
  by (simp_all add: smuggling_head_def nul_encoding_def head_eval hop_free_def HOP_BY_HOP_def ALLOW_MULTI_def Let_def)

lemma post_start:
  "split_whitespace ''POST / HTTP/1.1'' = [''POST'', ''/'', ''HTTP/1.1'']" "\<not> has_dot_segment ''/''"
  "canonical_host ''a'' = ''a''" "\<not> eq_ignore_ascii_case ''POST'' ''CONNECT''"
  by code_simp+

lemma smuggling_request:
  "request_path (smuggling_head n) = ''/''" "\<not> is_connect (smuggling_head n)" "request_host (smuggling_head n) = ''a''"
proof -
  have st: "hp_start (smuggling_head n) = ''POST / HTTP/1.1''" by (simp add: smuggling_head_def)
  show c: "\<not> is_connect (smuggling_head n)"
    using post_start by (simp add: is_connect_def request_method_def start_token_def nth_opt_def st)
  show "request_path (smuggling_head n) = ''/''"
    using c post_start by (simp add: request_path_def start_token_def nth_opt_def st)
  show "request_host (smuggling_head n) = ''a''"
    using c post_start smuggling_head_facts(6) by (simp add: request_host_def)
qed

text \<open>C37: any bytes can be smuggled. The name \<open>Transfer-NUL-Encoding\<close> is not a framing header when the
  request is checked, and is one when it has been written without its NUL: the relay takes the body
  by its length, and the receiver ends it at the first empty chunk and takes the rest, which
  is chosen by the visitor, for the next request of the connection.\<close>

theorem nul_in_name_smuggles:
  assumes "vhost_lookup table ''a'' ''/'' None VhHttp = Some (route, loc)"
    and "vr_http_user route = []" "vr_rewrite_host route = []" "order route = []"
    and "io_fine io" "stream io = zero_chunk @ inner" "length (zero_chunk @ inner) \<le> MAX_BODY"
  shows "\<exists>req' io'. judge_request b64 table peer order (smuggling_head (length (zero_chunk @ inner))) io
      = (Forwards route req' (zero_chunk @ inner), io')
    \<and> receive (head_to_bytes req' @ (zero_chunk @ inner)) = Some (''POST / HTTP/1.1'', zero_chunk, inner)"
proof -
  define n where "n = length (zero_chunk @ inner)"
  let ?h = "smuggling_head n"
  let ?x = "[(''x-forwarded-for'', strip_crlf (show_ip peer)), (''x-real-ip'', strip_crlf (show_ip peer))]"
  note hf = smuggling_head_facts [of n]
  have n: "n \<le> MAX_BODY" "n > 0" "n < 2 ^ 64" using assms(7) by (simp_all add: n_def zero_chunk_def MAX_BODY_def)
  obtain io' where rn: "read_n n io = (Inr (zero_chunk @ inner), io')"
    using read_n_ok [OF assms(5) n(1)] assms(6) by (metis n_def order_refl take_all)
  have cf: "check_framing ?h = None"
    using hf(1,2) by (simp add: check_framing_def Let_def head_count_values transfer_encoding_is_unsupported_def transfer_encoding_tokens_def)
  have rb: "read_request_body ?h io = (Inr (Inr (zero_chunk @ inner)), io')"
    using smuggling_request(2) hf(1,2) content_length_show [OF hf(2) n(3)] n(2) rn
    by (simp add: read_request_body_def head_count_values)
  have j: "judge_request b64 table peer order ?h io =
      (Forwards route (rewrite_request route [] peer ?h) (zero_chunk @ inner), io')"
    using judge_forwards [OF _ smuggling_request(2) _ hf(5) assms(2) cf rb, where order = order] assms(1,4)
    by (simp add: smuggling_request post_start)
  have r: "rewrite_request route [] peer ?h = ?h\<lparr>hp_headers := hp_headers ?h @ ?x\<rparr>"
    by (rule rewrite_stripped [OF assms(3) strip_nothing [OF hf(3,8)] hf(4,7,9)])
  let ?r = "rewrite_request route [] peer ?h"
  have colon: "\<forall>kv\<in>set (hp_headers ?r). CHR '':'' \<notin> set (fst kv)"
    unfolding r by (auto simp: smuggling_head_def nul_encoding_def)
  have start: "strip_crlf (hp_start ?r) = ''POST / HTTP/1.1''"
    unfolding r by (simp add: smuggling_head_def) code_simp
  have names: "map (\<lambda>kv. strip_crlf (fst kv)) (hp_headers ?r)
      = [''Host'', encoding_stripped, ''Content-Length'', ''x-forwarded-for'', ''x-real-ip'']"
    using strip_nul_encoding unfolding r strip_crlf_filter by (simp add: smuggling_head_def)
  have tok: "list_all (\<lambda>kv. token (strip_crlf (fst kv))) (hp_headers ?r)"
  proof -
    have "list_all token [''Host'', encoding_stripped, ''Content-Length'', ''x-forwarded-for'', ''x-real-ip'']" by code_simp
    then show ?thesis unfolding names [symmetric] by (simp add: list_all_iff)
  qed
  have te: "field_values ''transfer-encoding'' (map seen_field (hp_headers ?r)) = [''chunked'']"
    using strip_nul_encoding unfolding r strip_crlf_filter
    by (simp add: smuggling_head_def seen_field_def field_values_def encoding_stripped_def to_ascii_lowercase_def ascii_lower_code strip_crlf_filter ows_strip_def is_ows_def)
  have "recv_framing (map seen_field (hp_headers ?r)) = Some ByChunks"
    unfolding recv_framing_def Let_def te by code_simp
  then have "receive (head_to_bytes ?r @ (zero_chunk @ inner)) = Some (''POST / HTTP/1.1'', zero_chunk, inner)"
    using receive_head [OF colon, of "zero_chunk @ inner"] tok start recv_zero_chunk [of "\<lambda>_. True"] by simp
  then show ?thesis using j n_def by blast
qed

text \<open>The header \<open>Connection\<close> can name \<open>Content-Length\<close>, which is then removed after the body has been read.\<close>

definition naming_head :: "nat \<Rightarrow> head_parts" where
  "naming_head n =
     \<lparr>hp_start = ''POST / HTTP/1.1'',
      hp_headers = [(''Host'', ''a''), (''Connection'', ''content-length''), (''Content-Length'', show_nat n)]\<rparr>"

definition host_only :: "string \<Rightarrow> head_parts" where
  "host_only start = \<lparr>hp_start = start, hp_headers = [(''Host'', ''a'')]\<rparr>"

lemma naming_head_facts:
  "head_get (naming_head n) ''transfer-encoding'' = None" "head_get_all (naming_head n) ''content-length'' = [show_nat n]"
  "head_get (naming_head n) ''authorization'' = None" "head_get (naming_head n) ''host'' = Some ''a''"
  "strip_hop_by_hop (naming_head n) = host_only ''POST / HTTP/1.1''"
proof -
  show "head_get (naming_head n) ''transfer-encoding'' = None" "head_get_all (naming_head n) ''content-length'' = [show_nat n]"
    "head_get (naming_head n) ''authorization'' = None" "head_get (naming_head n) ''host'' = Some ''a''"
    by (simp_all add: naming_head_def head_eval)
  have "connection_tokens (naming_head n) = [''content-length'']"
  proof -
    have "map trim (split_on CHR '','' ''content-length'') = [''content-length'']" by code_simp
    then show ?thesis by (simp add: connection_tokens_def naming_head_def head_eval)
  qed
  then show "strip_hop_by_hop (naming_head n) = host_only ''POST / HTTP/1.1''"
    by (simp add: strip_hop_by_hop_def HOP_BY_HOP_def head_remove_def naming_head_def host_only_def head_eval)
qed

lemma host_only_facts:
  "head_get (host_only s) ''x-forwarded-for'' = None" "head_get (host_only s) ''connection'' = None"
  "list_all (\<lambda>(k, _). \<not> eq_ignore_ascii_case k ''x-forwarded-for'' \<and> \<not> eq_ignore_ascii_case k ''x-real-ip'') (hp_headers (host_only s))"
  "dedup_loop [] (hp_headers (host_only s)) = hp_headers (host_only s)" "list_all (\<lambda>(k, _). hop_free k) (hp_headers (host_only s))"
  by (simp_all add: host_only_def head_eval hop_free_def HOP_BY_HOP_def ALLOW_MULTI_def Let_def)

lemma receive_host_only:
  assumes "vr_rewrite_host route = []" "strip_hop_by_hop h = host_only s" "strip_crlf s = s'" "s' \<noteq> []"
  shows "receive (head_to_bytes (rewrite_request route [] peer h) @ bs) = Some (s', [], bs)"
proof -
  let ?x = "[(''x-forwarded-for'', strip_crlf (show_ip peer)), (''x-real-ip'', strip_crlf (show_ip peer))]"
  let ?r = "rewrite_request route [] peer h"
  have r: "?r = (host_only s)\<lparr>hp_headers := hp_headers (host_only s) @ ?x\<rparr>"
    by (rule rewrite_stripped [OF assms(1,2) host_only_facts(1,3,4)])
  have colon: "\<forall>kv\<in>set (hp_headers ?r). CHR '':'' \<notin> set (fst kv)" unfolding r by (auto simp: host_only_def)
  have names: "map (\<lambda>kv. strip_crlf (fst kv)) (hp_headers ?r) = [''Host'', ''x-forwarded-for'', ''x-real-ip'']"
    unfolding r strip_crlf_filter by (simp add: host_only_def)
  have "list_all token [''Host'', ''x-forwarded-for'', ''x-real-ip'']" by code_simp
  then have tok: "list_all (\<lambda>kv. token (strip_crlf (fst kv))) (hp_headers ?r)"
    unfolding names [symmetric] by (simp add: list_all_iff)
  have "field_values n (map seen_field (hp_headers ?r)) = []" if "framing_name n" for n
    using that unfolding r strip_crlf_filter
    by (auto simp: host_only_def seen_field_def field_values_def framing_name_def to_ascii_lowercase_def ascii_lower_code
        strip_crlf_filter)
  then have "recv_framing (map seen_field (hp_headers ?r)) = Some (ByLength 0)"
    by (simp add: recv_framing_def framing_name_def)
  moreover have "hp_start ?r = s" unfolding r by (simp add: host_only_def)
  ultimately show ?thesis using receive_head [OF colon, of bs] tok assms(3,4) by simp
qed

text \<open>The header \<open>Connection: content-length\<close> has the same effect. The body is read by its length, then
  the length is removed as a header that \<open>Connection\<close> names, and the receiver takes the whole body for
  the next request.\<close>

theorem connection_names_length:
  assumes "vhost_lookup table ''a'' ''/'' None VhHttp = Some (route, loc)"
    and "vr_http_user route = []" "vr_rewrite_host route = []" "order route = []"
    and "io_fine io" "stream io = inner" "inner \<noteq> []" "length inner \<le> MAX_BODY"
  shows "\<exists>req' io'. judge_request b64 table peer order (naming_head (length inner)) io = (Forwards route req' inner, io')
    \<and> receive (head_to_bytes req' @ inner) = Some (''POST / HTTP/1.1'', [], inner)"
proof -
  define n where "n = length inner"
  let ?h = "naming_head n"
  note hf = naming_head_facts [of n]
  have n: "n \<le> MAX_BODY" "n > 0" "n < 2 ^ 64" using assms(7,8) by (simp_all add: n_def MAX_BODY_def)
  obtain io' where rn: "read_n n io = (Inr inner, io')"
    using read_n_ok [OF assms(5) n(1)] assms(6) by (metis n_def order_refl take_all)
  have st: "hp_start ?h = ''POST / HTTP/1.1''" by (simp add: naming_head_def)
  have c: "\<not> is_connect ?h"
    using post_start by (simp add: is_connect_def request_method_def start_token_def nth_opt_def st)
  have path: "request_path ?h = ''/''" "request_host ?h = ''a''"
    using c post_start hf(4) by (simp_all add: request_path_def request_host_def start_token_def nth_opt_def st)
  have cf: "check_framing ?h = None"
    using hf(1,2) by (simp add: check_framing_def Let_def head_count_values transfer_encoding_is_unsupported_def transfer_encoding_tokens_def)
  have rb: "read_request_body ?h io = (Inr (Inr inner), io')"
    using c hf(1,2) content_length_show [OF hf(2) n(3)] n(2) rn
    by (simp add: read_request_body_def head_count_values)
  have "judge_request b64 table peer order ?h io = (Forwards route (rewrite_request route [] peer ?h) inner, io')"
    using judge_forwards [OF _ c _ hf(3) assms(2) cf rb, where order = order] assms(1,4) by (simp add: path post_start)
  moreover have "strip_crlf ''POST / HTTP/1.1'' = ''POST / HTTP/1.1''" by code_simp
  ultimately show ?thesis
    using receive_host_only [OF assms(3) hf(5), of "''POST / HTTP/1.1''" peer inner] n_def by auto
qed

text \<open>The check for dot segments sees the request line before its control characters are removed.\<close>

definition dotted_head :: head_parts where
  "dotted_head = host_only (''GET /a/.'' @ CHR 0x00 # ''./b HTTP/1.1'')"

text \<open>A request line with a NUL passes the check for dot segments and reaches the service with a dot
  segment, whatever location it was routed by.\<close>

theorem nul_hides_dot_segment:
  assumes "vhost_lookup table ''a'' (''/a/.'' @ CHR 0x00 # ''./b'') None VhHttp = Some (route, loc)"
    and "vr_http_user route = []" "vr_rewrite_host route = []" "order route = []"
  shows "\<exists>req'. judge_request b64 table peer order dotted_head io = (Forwards route req' [], io)
    \<and> receive (head_to_bytes req') = Some (''GET /a/../b HTTP/1.1'', [], [])
    \<and> has_dot_segment ''/a/../b''"
proof -
  let ?h = dotted_head
  have w: "split_whitespace (hp_start ?h) = [''GET'', ''/a/.'' @ CHR 0x00 # ''./b'', ''HTTP/1.1'']"
    "\<not> has_dot_segment (''/a/.'' @ CHR 0x00 # ''./b'')" "\<not> eq_ignore_ascii_case ''GET'' ''CONNECT''"
    "strip_crlf (hp_start ?h) = ''GET /a/../b HTTP/1.1''" "has_dot_segment ''/a/../b''"
    by code_simp+
  have hf: "head_get ?h ''transfer-encoding'' = None" "head_get_all ?h ''content-length'' = []"
    "head_get ?h ''authorization'' = None" "head_get ?h ''host'' = Some ''a''"
    by (simp_all add: dotted_head_def host_only_def head_eval)
  have c: "\<not> is_connect ?h"
    using w by (simp add: is_connect_def request_method_def start_token_def nth_opt_def)
  have path: "request_path ?h = ''/a/.'' @ CHR 0x00 # ''./b''" "request_host ?h = ''a''"
    using c w post_start hf(4) by (simp_all add: request_path_def request_host_def start_token_def nth_opt_def)
  have cf: "check_framing ?h = None"
    using hf(1,2) by (simp add: check_framing_def Let_def head_count_values transfer_encoding_is_unsupported_def transfer_encoding_tokens_def)
  have rb: "read_request_body ?h io = (Inr (Inr []), io)"
    using c hf(1,2) by (simp add: read_request_body_def head_count_values)
  have "judge_request b64 table peer order ?h io = (Forwards route (rewrite_request route [] peer ?h) [], io)"
    using judge_forwards [OF _ c _ hf(3) assms(2) cf rb, where order = order] assms(1,4) w by (simp add: path)
  moreover have "strip_hop_by_hop ?h = host_only (hp_start ?h)"
    using strip_nothing host_only_facts by (simp add: dotted_head_def) (simp add: host_only_def)
  ultimately show ?thesis
    using receive_host_only [OF assms(3), of ?h "hp_start ?h" "''GET /a/../b HTTP/1.1''" peer "[]"] w by auto
qed


section \<open>Responses\<close>

lemma find_subslice_extend: "needle \<noteq> [] \<Longrightarrow> find_subslice hay needle = Some i \<Longrightarrow> find_subslice (hay @ rest) needle = Some i"
  using find_subslice_append [of needle hay rest] by (auto split: option.splits if_splits)

text \<open>Searching a text is searching its bytes, which is how the examples are evaluated.\<close>

lemma find_from_as_bytes: "find_from (as_bytes p) i (as_bytes s) = find_from p i s"
proof (induction p i s rule: find_from.induct)
  case (2 pat i x xs)
  have "take (length pat) (as_bytes (x # xs)) = as_bytes (take (length pat) (x # xs))" by (simp only: as_bytes_def take_map)
  then show ?case using 2 by simp
qed simp

lemma find_subslice_text:
  "find_subslice (as_bytes s) (CRLF @ CRLF) = (if length s < 4 then None else find_from (crlf @ crlf) 0 s)"
proof -
  have c: "CRLF @ CRLF = as_bytes (crlf @ crlf)" using as_bytes_crlf by (simp add: CRLF_def crlf_def)
  show ?thesis unfolding c find_subslice_def find_from_as_bytes by (simp add: crlf_def)
qed

lemma is_ascii_code [code]: "is_ascii (Char b0 b1 b2 b3 b4 b5 b6 b7) \<longleftrightarrow> \<not> b7"
  by (cases b0; cases b1; cases b2; cases b3; cases b4; cases b5; cases b6; cases b7) (simp_all add: is_ascii_def)

lemma head_lines_text:
  "list_all is_ascii s \<Longrightarrow> head_lines (as_bytes s) = filter (\<lambda>l. l \<noteq> []) (split_on2 (CHR 13) (CHR 10) s)"
  by (simp add: head_lines_def from_utf8_lossy_as_bytes valid_str_ascii)

lemma io_new: "reply \<noteq> [] \<Longrightarrow> io_fine (http_io_new [reply])" "stream (http_io_new [reply]) = reply"
  by (simp_all add: io_fine_def io_ok_def http_io_new_def stream_def unread_def)

lemma read_head_reply:
  assumes "find_subslice head (CRLF @ CRLF) = Some i" "length head = i + 4" "i + 4 \<le> MAX_HEAD"
  obtains up where "read_head (http_io_new [head @ rest]) = (Inr (Some (head_lines head)), up)" "stream up = rest" "io_fine up"
proof -
  have ne: "CRLF @ CRLF \<noteq> []" by (simp add: CRLF_def)
  have "head @ rest \<noteq> []" using assms(2) by auto
  note new = io_new(1) [OF this] io_new(2) [of "head @ rest"]
  have f: "find_subslice (stream (http_io_new [head @ rest])) (CRLF @ CRLF) = Some i"
    unfolding new(2) by (rule find_subslice_extend [OF ne assms(1)])
  have "take (i + 4) (head @ rest) = head" "drop (i + 4) (head @ rest) = rest" using assms(2) by simp_all
  with read_head_raw_exact [OF new(1), unfolded f] assms(3) obtain up where
    "read_head_raw (http_io_new [head @ rest]) = (Inr (Some (head, head_lines head)), up)" "stream up = rest" "io_fine up"
    unfolding new(2) by auto
  then show ?thesis using that by (simp add: read_head_def)
qed

definition early_hints :: string where
  "early_hints = ''HTTP/1.1 103 Early Hints'' @ crlf @ crlf"

lemma early_hints_facts:
  "find_subslice (as_bytes early_hints) (CRLF @ CRLF) = Some 24" "length (as_bytes early_hints) = 28"
  "head_lines (as_bytes early_hints) = [''HTTP/1.1 103 Early Hints'']"
proof -
  have e: "length early_hints = 28 \<and> find_from (crlf @ crlf) 0 early_hints = Some 24 \<and> list_all is_ascii early_hints
    \<and> filter (\<lambda>l. l \<noteq> []) (split_on2 (CHR 13) (CHR 10) early_hints) = [''HTTP/1.1 103 Early Hints'']"
    by code_simp
  then show "find_subslice (as_bytes early_hints) (CRLF @ CRLF) = Some 24" "length (as_bytes early_hints) = 28"
    "head_lines (as_bytes early_hints) = [''HTTP/1.1 103 Early Hints'']"
    by (simp_all only: find_subslice_text head_lines_text length_as_bytes) simp
qed

lemma code_103: "103 < b \<Longrightarrow> from_str_radix b 10 ''103'' = Some 103"
  by (simp add: from_str_radix_def to_digit_def)

text \<open>An interim response ends the exchange. When a service answers with 103 Early Hints, the visitor gets
  this head and nothing of the final response, whatever it is, and the relay waits for the next request.\<close>

theorem interim_response_is_final:
  "relay_response True ''GET'' [] [as_bytes early_hints @ final] =
     ([Relayed (as_bytes (''HTTP/1.1 103 Early Hints'' @ crlf @ ''connection: keep-alive'' @ crlf @ crlf))], Inr True)"
proof -
  let ?h = "\<lparr>hp_start = ''HTTP/1.1 103 Early Hints'', hp_headers = []\<rparr>"
  obtain up where up: "read_head (http_io_new [as_bytes early_hints @ final]) = (Inr (Some [''HTTP/1.1 103 Early Hints'']), up)"
    using read_head_reply [OF early_hints_facts(1), of final] early_hints_facts(2,3) by (auto simp: MAX_HEAD_def)
  have w: "split_whitespace ''HTTP/1.1 103 Early Hints'' = [''HTTP/1.1'', ''103'', ''Early'', ''Hints'']"
    "take 5 (to_ascii_uppercase ''HTTP/1.1 103 Early Hints'') = ''HTTP/''" by code_simp+
  have t: "start_token ?h (Suc 0) = Some ''103''" by (simp add: start_token_def nth_opt_def w)
  have p: "parse_head [''HTTP/1.1 103 Early Hints''] = Inr ?h" by (simp add: parse_head_def List.map_filter_def)
  have v: "validate_response_framing ?h = Inr ()"
    by (simp add: validate_response_framing_def has_no_body_def t w code_103)
  have s: "strip_hop_by_hop ?h = ?h" by (rule strip_nothing) (simp_all add: head_eval)
  have nb: "response_no_body ''GET'' ?h"
    by (simp add: response_no_body_def response_code_def t code_103 Let_def)
  have b: "head_to_bytes (rewrite_response [] True ?h) =
      as_bytes (''HTTP/1.1 103 Early Hints'' @ crlf @ ''connection: keep-alive'' @ crlf @ crlf)"
    by code_simp
  show ?thesis
    unfolding relay_response_def up
    using b by (simp add: p v s t response_framed_def nb relay_response_body_def Let_def)
qed

definition odd_length :: string where
  "odd_length = ''HTTP/1.1 200 OK'' @ crlf @ ''Content-Length: 2, 2'' @ crlf @ crlf"

lemma odd_length_facts:
  "find_subslice (as_bytes odd_length) (CRLF @ CRLF) = Some 37" "length (as_bytes odd_length) = 41"
  "head_lines (as_bytes odd_length) = [''HTTP/1.1 200 OK'', ''Content-Length: 2, 2'']"
proof -
  have e: "length odd_length = 41 \<and> find_from (crlf @ crlf) 0 odd_length = Some 37 \<and> list_all is_ascii odd_length
    \<and> filter (\<lambda>l. l \<noteq> []) (split_on2 (CHR 13) (CHR 10) odd_length) = [''HTTP/1.1 200 OK'', ''Content-Length: 2, 2'']"
    by code_simp
  then show "find_subslice (as_bytes odd_length) (CRLF @ CRLF) = Some 37" "length (as_bytes odd_length) = 41"
    "head_lines (as_bytes odd_length) = [''HTTP/1.1 200 OK'', ''Content-Length: 2, 2'']"
    by (simp_all only: find_subslice_text head_lines_text length_as_bytes) simp
qed

text \<open>A length that is not a number is read as 0. The head is sent on with the length \<open>2, 2\<close> and
  with keep-alive, none of the body follows, and what the visitor reads as the body is the next response.\<close>

theorem unread_body_kept_alive:
  "relay_response True ''GET'' [] [as_bytes odd_length @ as_bytes ''hi''] =
     ([Relayed (as_bytes (''HTTP/1.1 200 OK'' @ crlf @ ''Content-Length: 2, 2'' @ crlf @ ''connection: keep-alive'' @ crlf @ crlf))], Inr True)"
proof -
  let ?h = "\<lparr>hp_start = ''HTTP/1.1 200 OK'', hp_headers = [(''Content-Length'', ''2, 2'')]\<rparr>"
  obtain up where up: "read_head (http_io_new [as_bytes odd_length @ as_bytes ''hi'']) = (Inr (Some [''HTTP/1.1 200 OK'', ''Content-Length: 2, 2'']), up)"
    using read_head_reply [OF odd_length_facts(1), of "as_bytes ''hi''"] odd_length_facts(2,3) by (auto simp: MAX_HEAD_def)
  have w: "split_whitespace ''HTTP/1.1 200 OK'' = [''HTTP/1.1'', ''200'', ''OK'']" "trim ''2, 2'' = ''2, 2''"
    "take 5 (to_ascii_uppercase ''HTTP/1.1 200 OK'') = ''HTTP/''" by code_simp+
  have n: "200 < b \<Longrightarrow> from_str_radix b 10 ''200'' = Some 200" "from_str_radix b 10 ''2, 2'' = None" for b
    by (simp_all add: from_str_radix_def to_digit_def)
  have t: "start_token ?h (Suc 0) = Some ''200''" by (simp add: start_token_def nth_opt_def w)
  have p: "parse_head [''HTTP/1.1 200 OK'', ''Content-Length: 2, 2''] = Inr ?h" by code_simp
  have g: "head_get ?h ''transfer-encoding'' = None" "head_get ?h ''content-length'' = Some ''2, 2''" "head_count ?h ''content-length'' = 1"
    by (simp_all add: head_eval head_count_def)
  have v: "validate_response_framing ?h = Inr ()"
    by (simp add: validate_response_framing_def has_no_body_def t w n g transfer_encoding_is_unsupported_def transfer_encoding_tokens_def)
  have s: "strip_hop_by_hop ?h = ?h" by (rule strip_nothing) (simp_all add: head_eval hop_free_def HOP_BY_HOP_def)
  have nb: "\<not> response_no_body ''GET'' ?h"
    by (simp add: response_no_body_def response_code_def t n Let_def)
  have r: "rewrite_response [] True ?h = ?h\<lparr>hp_headers := [(''Content-Length'', ''2, 2''), (''connection'', ''keep-alive'')]\<rparr>"
    by code_simp
  have g': "head_get (rewrite_response [] True ?h) ''transfer-encoding'' = None" "head_get (rewrite_response [] True ?h) ''content-length'' = Some ''2, 2''"
    unfolding r by (simp_all add: head_eval)
  have b: "head_to_bytes (rewrite_response [] True ?h) =
      as_bytes (''HTTP/1.1 200 OK'' @ crlf @ ''Content-Length: 2, 2'' @ crlf @ ''connection: keep-alive'' @ crlf @ crlf)"
    unfolding r by code_simp
  have "relay_response_body ''GET'' (is_chunked ?h) ?h (rewrite_response [] True ?h) up = ([], Inr False, up)"
    by (simp add: relay_response_body_def nb g' response_length_def w n relay_fixed.simps [of 0])
  then show ?thesis
    unfolding relay_response_def up
    using b by (simp add: p v s t response_framed_def nb g Let_def)
qed

section \<open>Concrete requests\<close>

definition gap_route :: vhost_route where
  "gap_route = demo_route 1 ''root'' [''/''] [] VhHttp"

definition gap_table :: vhost_table where
  "gap_table = \<lparr>vt_exact = fmupd ''a'' [gap_route] fmempty, vt_wildcard = fmempty\<rparr>"

lemma gap_lookup: "vhost_lookup gap_table ''a'' (CHR ''/'' # p) None VhHttp = Some (gap_route, ''/'')"
proof -
  have "clean_host ''a'' = ''a''" by code_simp
  then show ?thesis
    by (simp add: vhost_lookup_def in_table_def in_scope_def match_location_def gap_table_def gap_route_def demo_route_def Let_def)
qed

lemma gap_route_plain: "vr_http_user gap_route = []" "vr_rewrite_host gap_route = []"
  by (simp_all add: gap_route_def demo_route_def)

theorem nul_in_name_smuggles_witness:
  "\<exists>req' io'. judge_request (\<lambda>_. None) gap_table (V4 0) (\<lambda>_. []) (smuggling_head (length (zero_chunk @ as_bytes ''GET /x'')))
      (http_io_new [zero_chunk @ as_bytes ''GET /x'']) = (Forwards gap_route req' (zero_chunk @ as_bytes ''GET /x''), io')
    \<and> receive (head_to_bytes req' @ (zero_chunk @ as_bytes ''GET /x'')) = Some (''POST / HTTP/1.1'', zero_chunk, as_bytes ''GET /x'')"
  by (rule nul_in_name_smuggles [OF gap_lookup gap_route_plain])
    (simp_all add: io_new zero_chunk_def CRLF_def MAX_BODY_def)

theorem connection_names_length_witness:
  "\<exists>req' io'. judge_request (\<lambda>_. None) gap_table (V4 0) (\<lambda>_. []) (naming_head (length (as_bytes ''GET /x'')))
      (http_io_new [as_bytes ''GET /x'']) = (Forwards gap_route req' (as_bytes ''GET /x''), io')
    \<and> receive (head_to_bytes req' @ as_bytes ''GET /x'') = Some (''POST / HTTP/1.1'', [], as_bytes ''GET /x'')"
  by (rule connection_names_length [OF gap_lookup gap_route_plain])
    (simp_all add: io_new MAX_BODY_def)

theorem nul_hides_dot_segment_witness:
  "\<exists>req'. judge_request (\<lambda>_. None) gap_table (V4 0) (\<lambda>_. []) dotted_head (http_io_new []) = (Forwards gap_route req' [], http_io_new [])
    \<and> receive (head_to_bytes req') = Some (''GET /a/../b HTTP/1.1'', [], []) \<and> has_dot_segment ''/a/../b''"
  using nul_hides_dot_segment [of gap_table gap_route "''/''" "\<lambda>_. []" "\<lambda>_. None" "V4 0" "http_io_new []"]
    gap_lookup [of "''a/.'' @ CHR 0x00 # ''./b''"] gap_route_plain by simp

text \<open>A plain request.\<close>

definition plain_text :: string where
  "plain_text = ''GET / HTTP/1.1'' @ crlf @ ''Host: a'' @ crlf @ crlf"

lemma plain_request:
  obtains io where "read_head (http_io_new [as_bytes plain_text]) = (Inr (Some [''GET / HTTP/1.1'', ''Host: a'']), io)"
    "parse_head [''GET / HTTP/1.1'', ''Host: a''] = Inr (host_only ''GET / HTTP/1.1'')"
    "judge_request b64 gap_table peer (\<lambda>_. []) (host_only ''GET / HTTP/1.1'') io =
       (Forwards gap_route (rewrite_request gap_route [] peer (host_only ''GET / HTTP/1.1'')) [], io)"
proof -
  have e: "length plain_text = 27 \<and> find_from (crlf @ crlf) 0 plain_text = Some 23 \<and> list_all is_ascii plain_text
    \<and> filter (\<lambda>l. l \<noteq> []) (split_on2 (CHR 13) (CHR 10) plain_text) = [''GET / HTTP/1.1'', ''Host: a'']"
    by code_simp
  then have f: "find_subslice (as_bytes plain_text) (CRLF @ CRLF) = Some 23" "length (as_bytes plain_text) = 23 + 4"
    "head_lines (as_bytes plain_text) = [''GET / HTTP/1.1'', ''Host: a'']"
    by (simp_all only: find_subslice_text head_lines_text length_as_bytes) simp_all
  obtain io where io: "read_head (http_io_new [as_bytes plain_text]) = (Inr (Some [''GET / HTTP/1.1'', ''Host: a'']), io)"
    using read_head_reply [OF f(1,2), of "[]"] f(3) by (auto simp: MAX_HEAD_def)
  have p: "parse_head [''GET / HTTP/1.1'', ''Host: a''] = Inr (host_only ''GET / HTTP/1.1'')" by code_simp
  let ?h = "host_only ''GET / HTTP/1.1''"
  have w: "split_whitespace (hp_start ?h) = [''GET'', ''/'', ''HTTP/1.1'']" "\<not> eq_ignore_ascii_case ''GET'' ''CONNECT''"
    by code_simp+
  have hf: "head_get ?h ''transfer-encoding'' = None" "head_get_all ?h ''content-length'' = []"
    "head_get ?h ''authorization'' = None" "head_get ?h ''host'' = Some ''a''"
    by (simp_all add: host_only_def head_eval)
  have c: "\<not> is_connect ?h" using w by (simp add: is_connect_def request_method_def start_token_def nth_opt_def)
  have path: "request_path ?h = ''/''" "request_host ?h = ''a''"
    using c w post_start hf(4) by (simp_all add: request_path_def request_host_def start_token_def nth_opt_def)
  have cf: "check_framing ?h = None"
    using hf(1,2) by (simp add: check_framing_def Let_def head_count_values transfer_encoding_is_unsupported_def transfer_encoding_tokens_def)
  have rb: "read_request_body ?h io = (Inr (Inr []), io)"
    using c hf(1,2) by (simp add: read_request_body_def head_count_values)
  have "judge_request b64 gap_table peer (\<lambda>_. []) ?h io = (Forwards gap_route (rewrite_request gap_route [] peer ?h) [], io)"
    using judge_forwards [OF _ c _ hf(3) gap_route_plain(1) cf rb, where order = "\<lambda>_. []" and table = gap_table] gap_lookup [of "[]"]
    by (simp add: path post_start)
  then show ?thesis using that io p by blast
qed

text \<open>C4: no request smuggling. When a request is forwarded, a receiver after RFC 9112 that reads what is
  sent, with anything after it, either rejects it or finds exactly this request: its first line,
  the body that was sent with it, and then what follows. It does find it when the names are tokens
  and there is no transfer encoding. The hypotheses are that the names and the first line have no
  CR, LF or NUL, that \<open>Connection\<close> does not name a framing header, and that the configured headers are
  not framing headers.\<close>

theorem forwarded_request_is_one:
  assumes "read_head io0 = (Inr (Some lines), io)" "parse_head lines = Inr req0"
    and "judge_request b64 table peer order (fst (strip_expect req0)) io = (Forwards route req' body, io')"
    and "\<not> is_connect req0" "ctl_free (hp_start req0)"
    and "\<forall>kv\<in>set (hp_headers req0). ctl_free (fst kv)"
    and "\<forall>t\<in>set (connection_tokens (fst (strip_expect req0))). unframed t"
    and "\<forall>(k, v)\<in>set (order route). unframed k \<and> ctl_free k \<and> CHR '':'' \<notin> set k"
  shows "receive (head_to_bytes req' @ body @ rest) \<in> {None, Some (hp_start req0, body, rest)}
    \<and> (list_all (\<lambda>kv. token (fst kv)) (hp_headers req') \<and> head_get req0 ''transfer-encoding'' = None \<longrightarrow>
       receive (head_to_bytes req' @ body @ rest) = Some (hp_start req0, body, rest))"
proof -
  define req where "req = fst (strip_expect req0)"
  note se = strip_expect_facts [where h = req0, folded req_def]
  have nc: "\<not> is_connect req" using assms(4) se(1) by (simp add: is_connect_def request_method_def start_token_def)
  note j = forwards_cases [OF assms(3) [folded req_def] nc]
  note pf = parse_head_facts [OF assms(2)]
  have clean: "clean_names req" using assms(6) pf(1) se(2) by (auto simp: clean_names_def)
  have clean': "clean_names req'" unfolding j(3) by (rule clean_rewrite [OF clean]) (use assms(8) in auto)
  have start: "hp_start req' = hp_start req0" "strip_crlf (hp_start req') = hp_start req0" "hp_start req0 \<noteq> []"
    using j(3) se(1) assms(5) pf(2) read_head_lines [OF assms(1)] by auto
  have vals: "field_values n (map seen_field (hp_headers req')) =
      map (\<lambda>v. ows_strip ('' '' @ strip_crlf v)) (take 1 (head_get_all req n))" if "framing_name n" for n
  proof -
    have "\<forall>(k, v)\<in>set (order route). unframed k \<and> ctl_free k" using assms(8) by auto
    then have "head_get_all req' n = take 1 (head_get_all req n)"
      unfolding j(3) by (rule rewrite_values [OF that assms(7) [folded req_def]])
    then show ?thesis using seen_values [OF clean' that] by simp
  qed
  have tr: "\<forall>kv\<in>set (hp_headers req). trim (snd kv) = snd kv" using pf(1) se(2) by blast
  note ba1 = body_agrees(1) [OF vals tr j(1) nc j(2)]
    and ba2 = body_agrees(2) [OF vals tr j(1) nc j(2), where P = "\<lambda>_. True"]
  have te: "head_get req ''transfer-encoding'' = head_get req0 ''transfer-encoding''"
    by (simp add: head_get_values se(3) framing_name_def)
  have names: "strip_crlf (fst kv) = fst kv" if "kv \<in> set (hp_headers req')" for kv
    using clean' that by (simp add: clean_names_def)
  have tok: "list_all (\<lambda>kv. token (strip_crlf (fst kv))) (hp_headers req') = list_all (\<lambda>kv. token (fst kv)) (hp_headers req')"
    using names by (intro list_all_cong) auto
  have colon: "\<forall>kv\<in>set (hp_headers req'). CHR '':'' \<notin> set (fst kv)" using clean' by (simp add: clean_names_def)
  note rc = receive_head [OF colon, of "body @ rest"]
  show ?thesis
  proof (cases "head_get req0 ''transfer-encoding'' = None")
    case True
    then have "recv_framing (map seen_field (hp_headers req')) = Some (ByLength (length body))" using ba1 te by simp
    then show ?thesis using rc start tok True by simp
  next
    case False
    then show ?thesis using ba2 te rc start tok by (auto split: option.splits)
  qed
qed

theorem forwarded_request_is_one_witness:
  "receive (head_to_bytes (rewrite_request gap_route [] (V4 0) (host_only ''GET / HTTP/1.1'')) @ [] @ [1, 2])
     = Some (''GET / HTTP/1.1'', [], [1, 2])"
proof -
  let ?h = "host_only ''GET / HTTP/1.1''"
  let ?q = "rewrite_request gap_route [] (V4 0) ?h"
  obtain io where r: "read_head (http_io_new [as_bytes plain_text]) = (Inr (Some [''GET / HTTP/1.1'', ''Host: a'']), io)"
      "parse_head [''GET / HTTP/1.1'', ''Host: a''] = Inr ?h"
      "judge_request (\<lambda>_. None) gap_table (V4 0) (\<lambda>_. []) ?h io = (Forwards gap_route ?q [], io)"
    using plain_request .
  have e: "fst (strip_expect ?h) = ?h" by (simp add: strip_expect_def host_only_def head_eval)
  have r3: "judge_request (\<lambda>_. None) gap_table (V4 0) (\<lambda>_. []) (fst (strip_expect ?h)) io = (Forwards gap_route ?q [], io)"
    unfolding e by (rule r(3))
  have "split_whitespace (hp_start ?h) = [''GET'', ''/'', ''HTTP/1.1'']" "\<not> eq_ignore_ascii_case ''GET'' ''CONNECT''"
    by code_simp+
  then have c: "\<not> is_connect ?h" by (simp add: is_connect_def request_method_def start_token_def nth_opt_def)
  have n: "connection_tokens (fst (strip_expect ?h)) = []" unfolding e by (simp add: connection_tokens_def host_only_facts)
  have cl: "ctl_free (hp_start ?h)" "\<forall>kv\<in>set (hp_headers ?h). ctl_free (fst kv)"
    by (simp_all add: host_only_def ctl_free_def)
  have q: "?q = ?h\<lparr>hp_headers := hp_headers ?h @
      [(''x-forwarded-for'', strip_crlf (show_ip (V4 0))), (''x-real-ip'', strip_crlf (show_ip (V4 0)))]\<rparr>"
    by (rule rewrite_stripped [OF gap_route_plain(2) strip_nothing [OF host_only_facts(2,5)] host_only_facts(1,3,4)])
  have "list_all token [''Host'', ''x-forwarded-for'', ''x-real-ip'']" by code_simp
  then have t: "list_all (\<lambda>kv. token (fst kv)) (hp_headers ?q)" unfolding q by (simp add: host_only_def)
  have te: "head_get ?h ''transfer-encoding'' = None" by (simp add: host_only_def head_eval)
  have "hp_start ?h = ''GET / HTTP/1.1''" by (simp add: host_only_def)
  then show ?thesis
    using conjunct2 [OF forwarded_request_is_one [OF r(1,2) r3 c cl, of "[1, 2]"]] n t te by simp
qed

text \<open>C18: a chunked body that follows the grammar of RFC 9112, with ASCII lines of bounded length and at
  most 32 MiB in all, is read as it is, however the stream is cut, and nothing after it is touched.\<close>

theorem chunked_body_verbatim:
  assumes "io_fine io" "recv_chunks plain_line (stream io) = Some (raw, rest)" "length raw \<le> MAX_BODY"
  shows "fst (read_chunked io) = Inr raw \<and> stream (snd (read_chunked io)) = rest"
  using chunks_verbatim [OF assms(1,2), of "[]"] assms(3) by (auto simp: read_chunked_def)

theorem chunked_body_verbatim_witness:
  "fst (read_chunked (http_io_new [zero_chunk @ [7]])) = Inr zero_chunk
    \<and> stream (snd (read_chunked (http_io_new [zero_chunk @ [7]]))) = [7]"
proof (rule chunked_body_verbatim)
  have p: "plain_line (as_bytes ''0'')"
  proof -
    have "as_bytes ''0'' = [48]" by code_simp
    then show ?thesis by (simp add: plain_line_def MAX_HEAD_def)
  qed
  have "zero_chunk \<noteq> []" by (simp add: zero_chunk_def CRLF_def)
  then show "io_fine (http_io_new [zero_chunk @ [7]])" by (intro io_new) simp
  show "recv_chunks plain_line (stream (http_io_new [zero_chunk @ [7]])) = Some (zero_chunk, [7])"
    unfolding io_new by (rule recv_zero_chunk [of plain_line, OF p])
  show "length zero_chunk \<le> MAX_BODY" by (simp add: zero_chunk_def CRLF_def MAX_BODY_def)
qed

text \<open>The head of a message is read the same however the stream is cut into reads: the same bytes, the
  same lines, and the same bytes left to read, whenever the head is at most 64 KiB.\<close>

theorem head_any_cut:
  assumes "io_fine a" "io_fine b" "stream a = stream b"
    and "find_subslice (stream a) (CRLF @ CRLF) = Some i" "i + 4 \<le> MAX_HEAD"
  shows "fst (read_head_raw a) = fst (read_head_raw b)
    \<and> fst (read_head_raw a) = Inr (Some (take (i + 4) (stream a), head_lines (take (i + 4) (stream a))))
    \<and> stream (snd (read_head_raw a)) = drop (i + 4) (stream a)
    \<and> stream (snd (read_head_raw b)) = drop (i + 4) (stream a)"
  using read_head_raw_exact [OF assms(1)] read_head_raw_exact [OF assms(2)] assms(3-5) by auto

theorem head_any_cut_witness:
  "fst (read_head_raw (http_io_new [[65], [13, 10, 13], [10, 66]])) = Inr (Some ([65, 13, 10, 13, 10], head_lines [65, 13, 10, 13, 10]))
    \<and> stream (snd (read_head_raw (http_io_new [[65], [13, 10, 13], [10, 66]]))) = [66]"
proof -
  let ?a = "http_io_new [[65], [13, 10, 13], [10, 66]]" and ?b = "http_io_new [[65, 13, 10, 13, 10, 66]]"
  have f: "io_fine ?a" "io_fine ?b" "stream ?a = [65, 13, 10, 13, 10, 66]" "stream ?b = [65, 13, 10, 13, 10, 66]"
    by (simp_all add: io_fine_def io_ok_def http_io_new_def stream_def unread_def)
  have "find_subslice [65, 13, 10, 13, 10, 66] (CRLF @ CRLF) = Some 1" by code_simp
  then have "find_subslice (stream ?a) (CRLF @ CRLF) = Some 1" "stream ?a = stream ?b" "1 + 4 \<le> MAX_HEAD"
    using f by (simp_all add: MAX_HEAD_def)
  from head_any_cut [OF f(1,2) this(2,1,3), THEN conjunct2] f(3) show ?thesis by simp
qed

end
