(* ===== verification/Kcp.thy ===== *)
theory Kcp
  imports Rust_Net "HOL-Library.Signed_Division"
begin

text \<open>
  The KCP transport (\<open>common/src/frp/kcp.rs\<close>): segments and their encoding, the state machine of one
  session with its send and receive queues, timers and retransmissions, and the table of sessions of
  a listener. Sequence numbers and clocks are 32-bit words that wrap around; arithmetic wraps as
  it does in a release build.
\<close>

unbundle bit_operations_syntax

section \<open>Constants and segments\<close>

definition RTO_NDL :: u32 where "RTO_NDL = 30"
definition RTO_MIN :: u32 where "RTO_MIN = 100"
definition RTO_DEF :: u32 where "RTO_DEF = 200"
definition RTO_MAX :: u32 where "RTO_MAX = 60000"
definition CMD_PUSH :: u8 where "CMD_PUSH = 81"
definition CMD_ACK :: u8 where "CMD_ACK = 82"
definition CMD_WASK :: u8 where "CMD_WASK = 83"
definition CMD_WINS :: u8 where "CMD_WINS = 84"
definition ASK_SEND :: u32 where "ASK_SEND = 1"
definition ASK_TELL :: u32 where "ASK_TELL = 2"
definition WND_SND :: u32 where "WND_SND = 32"
definition WND_RCV :: u32 where "WND_RCV = 128"
definition MTU_DEF :: nat where "MTU_DEF = 1400"
definition KCP_INTERVAL :: u32 where "KCP_INTERVAL = 10"
definition KCP_HEADER :: nat where "KCP_HEADER = 24"
definition FASTACK_LIMIT :: u32 where "FASTACK_LIMIT = 5"
definition THRESH_INIT :: u32 where "THRESH_INIT = 2"
definition THRESH_MIN :: u32 where "THRESH_MIN = 2"
definition PROBE_INIT :: u32 where "PROBE_INIT = 7000"
definition PROBE_LIMIT :: u32 where "PROBE_LIMIT = 120000"
definition MAX_RECV_MSG :: nat where "MAX_RECV_MSG = 64 * 1024"
definition DEADLINK :: u32 where "DEADLINK = 20"

record seg =
  sg_conv :: u32
  sg_cmd :: u8
  sg_frg :: u8
  sg_wnd :: u16
  sg_ts :: u32
  sg_sn :: u32
  sg_una :: u32
  sg_data :: bytes
  sg_resendts :: u32
  sg_rto :: u32
  sg_fastack :: u32
  sg_xmit :: u32

definition seg_new :: "bytes \<Rightarrow> seg" where
  "seg_new data =
     \<lparr>sg_conv = 0, sg_cmd = 0, sg_frg = 0, sg_wnd = 0, sg_ts = 0, sg_sn = 0, sg_una = 0, sg_data = data,
      sg_resendts = 0, sg_rto = 0, sg_fastack = 0, sg_xmit = 0\<rparr>"

definition le16 :: "u16 \<Rightarrow> bytes" where "le16 x = rev (be16 x)"
definition le32 :: "u32 \<Rightarrow> bytes" where "le32 x = rev (be32 x)"
definition get_le16 :: "bytes \<Rightarrow> u16" where "get_le16 bs = get16 (rev bs)"
definition get_le32 :: "bytes \<Rightarrow> u32" where "get_le32 bs = get32 (rev bs)"

definition seg_encode :: "seg \<Rightarrow> bytes" where
  "seg_encode s =
     le32 (sg_conv s) @ [sg_cmd s] @ [sg_frg s] @ le16 (sg_wnd s) @ le32 (sg_ts s) @ le32 (sg_sn s)
       @ le32 (sg_una s) @ le32 (of_nat (length (sg_data s))) @ sg_data s"

datatype kcp_error = TooShort | Truncated | SegTooLarge nat | WrongConv | Dead

definition field :: "bytes \<Rightarrow> nat \<Rightarrow> nat \<Rightarrow> bytes" where
  "field pkt i n = take n (drop i pkt)"

definition seg_head :: "bytes \<Rightarrow> seg" where
  "seg_head pkt =
     \<lparr>sg_conv = get_le32 (field pkt 0 4), sg_cmd = pkt ! 4, sg_frg = pkt ! 5, sg_wnd = get_le16 (field pkt 6 2),
      sg_ts = get_le32 (field pkt 8 4), sg_sn = get_le32 (field pkt 12 4), sg_una = get_le32 (field pkt 16 4),
      sg_data = field pkt 24 (unat (get_le32 (field pkt 20 4))),
      sg_resendts = 0, sg_rto = 0, sg_fastack = 0, sg_xmit = 0\<rparr>"

text \<open>The argument is what is left of the datagram at the index \<open>i\<close> of the loop.\<close>

function decode_from :: "bytes \<Rightarrow> kcp_error + seg list" where
  "decode_from pkt =
     (if length pkt < KCP_HEADER then Inr []
      else
       (let len = unat (get_le32 (field pkt 20 4)) in
        if length pkt - KCP_HEADER < len then Inl Truncated
        else if len > MTU_DEF then Inl (SegTooLarge len)
        else case decode_from (drop (KCP_HEADER + len) pkt) of
               Inl e \<Rightarrow> Inl e
             | Inr segs \<Rightarrow> Inr (seg_head pkt # segs)))"
  by pat_completeness auto
termination
  by (relation "measure length") (auto simp: KCP_HEADER_def)

declare decode_from.simps [simp del]

definition decode_segs :: "bytes \<Rightarrow> kcp_error + seg list" where
  "decode_segs pkt =
     (case decode_from pkt of
        Inl e \<Rightarrow> Inl e
      | Inr segs \<Rightarrow> if segs = [] then Inl TooShort else Inr segs)"

section \<open>A session\<close>

record kcp =
  kc_conv :: u32
  kc_mss :: nat
  kc_snd_una :: u32
  kc_snd_nxt :: u32
  kc_rcv_nxt :: u32
  kc_ssthresh :: u32
  kc_rttval :: u32
  kc_srtt :: u32
  kc_rto :: u32
  kc_minrto :: u32
  kc_snd_wnd :: u32
  kc_rcv_wnd :: u32
  kc_rmt_wnd :: u32
  kc_cwnd :: u32
  kc_probe :: u32
  kc_interval :: u32
  kc_ts_flush :: u32
  kc_nodelay :: bool
  kc_updated :: bool
  kc_ts_probe :: u32
  kc_probe_wait :: u32
  kc_incr :: u32
  kc_current :: u32
  kc_fastresend :: u32
  kc_snd_queue :: "seg list"
  kc_rcv_queue :: "seg list"
  kc_snd_buf :: "seg list"
  kc_rcv_buf :: "seg list"
  kc_acklist :: "(u32 \<times> u32) list"
  kc_out :: "bytes list"
  kc_dead :: bool

definition kcp_new :: "u32 \<Rightarrow> nat \<Rightarrow> kcp" where
  "kcp_new conv mtu0 =
     (let mtu = (if mtu0 = 0 then MTU_DEF else mtu0) in
      \<lparr>kc_conv = conv, kc_mss = mtu - KCP_HEADER, kc_snd_una = 0, kc_snd_nxt = 0, kc_rcv_nxt = 0,
       kc_ssthresh = THRESH_INIT, kc_rttval = 0, kc_srtt = 0, kc_rto = RTO_DEF, kc_minrto = RTO_MIN,
       kc_snd_wnd = WND_SND, kc_rcv_wnd = WND_RCV, kc_rmt_wnd = WND_RCV, kc_cwnd = 0, kc_probe = 0,
       kc_interval = KCP_INTERVAL, kc_ts_flush = KCP_INTERVAL, kc_nodelay = False, kc_updated = False,
       kc_ts_probe = 0, kc_probe_wait = 0, kc_incr = 0, kc_current = 0, kc_fastresend = 0,
       kc_snd_queue = [], kc_rcv_queue = [], kc_snd_buf = [], kc_rcv_buf = [], kc_acklist = [], kc_out = [],
       kc_dead = False\<rparr>)"

definition set_nodelay :: "bool \<Rightarrow> u32 \<Rightarrow> u32 \<Rightarrow> kcp \<Rightarrow> kcp" where
  "set_nodelay nodelay interval fastresend k =
     (let k = k\<lparr>kc_nodelay := nodelay, kc_minrto := (if nodelay then RTO_NDL else RTO_MIN)\<rparr>;
          iv = max 1 (min 5000 interval);
          k = (if interval > 0 then k\<lparr>kc_interval := iv, kc_ts_flush := iv\<rparr> else k)
      in k\<lparr>kc_fastresend := fastresend, kc_incr := 0\<rparr>)"

definition waitsnd :: "kcp \<Rightarrow> nat" where
  "waitsnd k = length (kc_snd_buf k) + length (kc_snd_queue k)"

definition queued_bytes :: "kcp \<Rightarrow> nat" where
  "queued_bytes k = sum_list (map (\<lambda>s. length (sg_data s)) (kc_rcv_queue k))"

text \<open>\<open>chunks\<close> of a positive size.\<close>

function chunks_of :: "nat \<Rightarrow> 'a list \<Rightarrow> 'a list list" where
  "chunks_of n xs = (if xs = [] \<or> n = 0 then [] else take n xs # chunks_of n (drop n xs))"
  by pat_completeness auto
termination
  by (relation "measure (\<lambda>(n, xs). length xs)") auto

declare chunks_of.simps [simp del]

definition fragments :: "nat \<Rightarrow> bytes \<Rightarrow> seg list" where
  "fragments mss buf =
     (let cs = chunks_of mss buf; count = of_nat (length cs) :: u8
      in map (\<lambda>(i, c). (seg_new c)\<lparr>sg_frg := count - 1 - of_nat i\<rparr>) (enumerate 0 cs))"

definition kcp_send :: "bytes \<Rightarrow> kcp \<Rightarrow> kcp \<times> nat" where
  "kcp_send buf k =
     (if buf = [] then (k, 0)
      else let count = (length buf + kc_mss k - 1) div kc_mss k in
           if count > 255 then (k, 0)
           else (k\<lparr>kc_snd_queue := kc_snd_queue k @ fragments (kc_mss k) buf\<rparr>, length buf))"

section \<open>Receiving\<close>

text \<open>The first message of a queue, up to the fragment with number 0.\<close>

fun first_message :: "seg list \<Rightarrow> (bytes \<times> seg list) option" where
  "first_message [] = None"
| "first_message (s # ss) =
     (if sg_frg s = 0 then Some (sg_data s, ss)
      else map_option (map_prod (\<lambda>d. sg_data s @ d) id) (first_message ss))"

definition kcp_recv :: "kcp \<Rightarrow> kcp \<times> bytes option" where
  "kcp_recv k =
     (case first_message (kc_rcv_queue k) of
        None \<Rightarrow> (k, None)
      | Some (msg, rest) \<Rightarrow>
          if length msg > MAX_RECV_MSG then (k\<lparr>kc_rcv_queue := [], kc_rcv_buf := []\<rparr>, None)
          else (k\<lparr>kc_rcv_queue := rest\<rparr>, Some msg))"

text \<open>\<open>v as i32\<close> of a difference of sequence numbers.\<close>

definition i32_from :: "u32 \<Rightarrow> int" where
  "i32_from v = sint v"

definition update_rtt :: "u32 \<Rightarrow> kcp \<Rightarrow> kcp" where
  "update_rtt rtt k =
     (let k =
        (if kc_srtt k = 0 then k\<lparr>kc_srtt := rtt, kc_rttval := rtt div 2\<rparr>
         else
          (let delta = sint rtt - sint (kc_srtt k);
               d = \<bar>delta\<bar>
           in k\<lparr>kc_srtt := of_int (sint (kc_srtt k) + delta sdiv 8),
                kc_rttval := of_int (sint (kc_rttval k) + (d - sint (kc_rttval k)) sdiv 4)\<rparr>));
          rto = kc_srtt k + max (kc_rttval k * 4) (kc_interval k)
      in k\<lparr>kc_rto := min (max rto (kc_minrto k)) RTO_MAX\<rparr>)"

definition wnd_unused :: "kcp \<Rightarrow> u32" where
  "wnd_unused k =
     (let queued = of_nat (length (kc_rcv_queue k)) :: u32
      in if queued \<le> kc_rcv_wnd k then kc_rcv_wnd k - queued else 0)"

fun bump_fastack :: "u32 \<Rightarrow> seg list \<Rightarrow> seg list" where
  "bump_fastack sn [] = []"
| "bump_fastack sn (s # ss) =
     (if i32_from (sg_sn s - sn) > 0 then s\<lparr>sg_fastack := sg_fastack s + 1\<rparr> # bump_fastack sn ss else s # ss)"

fun remove_sn :: "u32 \<Rightarrow> seg list \<Rightarrow> seg list" where
  "remove_sn sn [] = []"
| "remove_sn sn (s # ss) = (if sg_sn s = sn then ss else s # remove_sn sn ss)"

fun insert_seg :: "seg \<Rightarrow> seg list \<Rightarrow> seg list" where
  "insert_seg new [] = [new]"
| "insert_seg new (s # ss) =
     (if i32_from (sg_sn s - sg_sn new) > 0 then new # s # ss else s # insert_seg new ss)"

text \<open>The loop that moves what is next in order to the queue.\<close>

fun move_ready :: "nat \<Rightarrow> u32 \<Rightarrow> seg list \<Rightarrow> seg list \<Rightarrow> u32 \<times> seg list \<times> seg list" where
  "move_ready wnd nxt queue [] = (nxt, queue, [])"
| "move_ready wnd nxt queue (s # buf) =
     (if sg_sn s \<noteq> nxt \<or> length queue \<ge> wnd then (nxt, queue, s # buf)
      else move_ready wnd (nxt + 1) (queue @ [s]) buf)"

definition handle_push :: "seg \<Rightarrow> kcp \<Rightarrow> kcp" where
  "handle_push s k =
     (let sn = sg_sn s in
      if i32_from (sn - (kc_rcv_nxt k + kc_rcv_wnd k)) < 0 \<and> i32_from (sn - kc_rcv_nxt k) \<ge> 0 then
       (let k = k\<lparr>kc_acklist := kc_acklist k @ [(sn, sg_ts s)]\<rparr>;
            buf = (if list_ex (\<lambda>x. sg_sn x = sn) (kc_rcv_buf k) then kc_rcv_buf k
                   else insert_seg (s\<lparr>sg_resendts := 0\<rparr>) (kc_rcv_buf k));
            (nxt, queue, buf') = move_ready (unat (kc_rcv_wnd k)) (kc_rcv_nxt k) (kc_rcv_queue k) buf
        in k\<lparr>kc_rcv_nxt := nxt, kc_rcv_queue := queue, kc_rcv_buf := buf'\<rparr>)
      else k)"

definition handle_ack :: "seg \<Rightarrow> kcp \<Rightarrow> kcp" where
  "handle_ack s k =
     (let rtt = kc_current k - sg_ts s;
          k = (if rtt < 0x80000000 then update_rtt rtt k else k)
      in k\<lparr>kc_snd_buf := bump_fastack (sg_sn s) (remove_sn (sg_sn s) (kc_snd_buf k))\<rparr>)"

definition handle_seg :: "seg \<Rightarrow> kcp \<Rightarrow> kcp" where
  "handle_seg s k =
     (let k = k\<lparr>kc_rmt_wnd := ucast (sg_wnd s),
               kc_snd_buf := filter (\<lambda>x. i32_from (sg_sn x - sg_una s) \<ge> 0) (kc_snd_buf k)\<rparr>;
          k = (if i32_from (sg_una s - kc_snd_una k) > 0 then k\<lparr>kc_snd_una := sg_una s\<rparr> else k)
      in if sg_cmd s = CMD_ACK then handle_ack s k
         else if sg_cmd s = CMD_PUSH then handle_push s k
         else if sg_cmd s = CMD_WASK then k\<lparr>kc_probe := kc_probe k OR ASK_TELL\<rparr>
         else k)"

fun handle_segs :: "seg list \<Rightarrow> kcp \<Rightarrow> kcp \<times> (kcp_error + unit)" where
  "handle_segs [] k = (k, Inr ())"
| "handle_segs (s # ss) k =
     (if sg_conv s \<noteq> kc_conv k then (k, Inl WrongConv) else handle_segs ss (handle_seg s k))"

definition kcp_input :: "bytes \<Rightarrow> kcp \<Rightarrow> kcp \<times> (kcp_error + unit)" where
  "kcp_input pkt k =
     (case decode_segs pkt of Inl e \<Rightarrow> (k, Inl e) | Inr segs \<Rightarrow> handle_segs segs k)"


section \<open>Flushing\<close>

definition emit :: "seg \<Rightarrow> kcp \<Rightarrow> kcp" where
  "emit s k = k\<lparr>kc_out := kc_out k @ [seg_encode s]\<rparr>"

text \<open>The segment without data that an acknowledgement, a probe or a window report is.\<close>

definition control_seg :: "u8 \<Rightarrow> u32 \<Rightarrow> u32 \<Rightarrow> kcp \<Rightarrow> seg" where
  "control_seg cmd ts sn k =
     (seg_new [])\<lparr>sg_conv := kc_conv k, sg_cmd := cmd, sg_wnd := ucast (wnd_unused k), sg_ts := ts,
                  sg_sn := sn, sg_una := kc_rcv_nxt k\<rparr>"

fun emit_acks :: "(u32 \<times> u32) list \<Rightarrow> kcp \<Rightarrow> kcp" where
  "emit_acks [] k = k"
| "emit_acks ((sn, ts) # acks) k = emit_acks acks (emit (control_seg CMD_ACK ts sn k) k)"

definition flush_acks :: "kcp \<Rightarrow> kcp" where
  "flush_acks k = emit_acks (kc_acklist k) (k\<lparr>kc_acklist := []\<rparr>)"

definition flush_probe :: "kcp \<Rightarrow> kcp" where
  "flush_probe k0 =
     (let cur = kc_current k0;
          k = (if kc_rmt_wnd k0 = 0 then
                 (if kc_probe_wait k0 = 0 then
                    k0\<lparr>kc_probe_wait := PROBE_INIT, kc_ts_probe := cur + PROBE_INIT\<rparr>
                  else if i32_from (cur - kc_ts_probe k0) \<ge> 0 then
                    (let w = min (kc_probe_wait k0 + kc_probe_wait k0 div 2) PROBE_LIMIT
                     in k0\<lparr>kc_probe_wait := w, kc_ts_probe := cur + w, kc_probe := kc_probe k0 OR ASK_SEND\<rparr>)
                  else k0)
               else k0\<lparr>kc_ts_probe := 0, kc_probe_wait := 0\<rparr>);
          k1 = (if kc_probe k AND ASK_SEND \<noteq> 0 then emit (control_seg CMD_WASK 0 0 k) k else k);
          k2 = (if kc_probe k AND ASK_TELL \<noteq> 0 then emit (control_seg CMD_WINS 0 0 k1) k1 else k1)
      in k2\<lparr>kc_probe := 0\<rparr>)"

definition flush_cwnd :: "kcp \<Rightarrow> kcp" where
  "flush_cwnd k =
     (if kc_nodelay k then k
      else if kc_cwnd k < kc_ssthresh k then
        k\<lparr>kc_cwnd := kc_cwnd k + 1, kc_incr := kc_incr k + of_nat (kc_mss k)\<rparr>
      else
        (let incr = of_nat (kc_mss k * kc_mss k) div max (kc_incr k) 1 + of_nat (kc_mss k) div 16
         in k\<lparr>kc_incr := 0, kc_cwnd := min (kc_cwnd k + max incr 1) (max (kc_rmt_wnd k) 1 * 2)\<rparr>))"

text \<open>The loop that moves segments of the send queue into the send buffer, below \<open>max_sn\<close>.\<close>

fun push_segs :: "(u32 \<Rightarrow> seg \<Rightarrow> seg) \<Rightarrow> u32 \<Rightarrow> u32 \<Rightarrow> seg list \<Rightarrow> seg list \<Rightarrow> u32 \<times> seg list \<times> seg list" where
  "push_segs prep max_sn nxt buf [] = (nxt, buf, [])"
| "push_segs prep max_sn nxt buf (s # q) =
     (if i32_from (nxt - max_sn) < 0 then push_segs prep max_sn (nxt + 1) (buf @ [prep nxt s]) q
      else (nxt, buf, s # q))"

definition flush_queue :: "kcp \<Rightarrow> kcp" where
  "flush_queue k =
     (let max_sn = kc_snd_una k + min (kc_snd_wnd k) (kc_rmt_wnd k);
          prep = (\<lambda>nxt s. s\<lparr>sg_conv := kc_conv k, sg_cmd := CMD_PUSH, sg_wnd := ucast (wnd_unused k),
                            sg_ts := kc_current k, sg_sn := nxt, sg_una := kc_rcv_nxt k,
                            sg_resendts := kc_current k, sg_rto := kc_rto k, sg_fastack := 0, sg_xmit := 0\<rparr>);
          (nxt, buf, q) = push_segs prep max_sn (kc_snd_nxt k) (kc_snd_buf k) (kc_snd_queue k)
      in k\<lparr>kc_snd_nxt := nxt, kc_snd_buf := buf, kc_snd_queue := q\<rparr>)"

text \<open>What the retransmission loop decides for one segment: send it now, and whether it is a
  retransmission (\<open>change\<close>) or has been sent too often (\<open>lost\<close>).\<close>

record resend =
  rs_seg :: seg
  rs_send :: bool
  rs_change :: bool
  rs_lost :: bool

definition resend_seg :: "kcp \<Rightarrow> seg \<Rightarrow> resend" where
  "resend_seg k s =
     (let cur = kc_current k; rx = kc_rto k;
          rtomin = (if kc_nodelay k then 0 else drop_bit 3 rx);
          limit = (if kc_fastresend k > 0 then kc_fastresend k else - 1);
          stamp = (\<lambda>s. s\<lparr>sg_ts := cur, sg_wnd := ucast (wnd_unused k), sg_una := kc_rcv_nxt k\<rparr>)
      in if sg_xmit s = 0 then
           \<lparr>rs_seg = stamp (s\<lparr>sg_xmit := sg_xmit s + 1, sg_rto := rx, sg_resendts := cur + rx + rtomin\<rparr>),
            rs_send = True, rs_change = False, rs_lost = False\<rparr>
         else if i32_from (cur - sg_resendts s) \<ge> 0 then
           (let rto = sg_rto s + (if kc_nodelay k then sg_rto s div 2 else max (sg_rto s) rx);
                xmit = sg_xmit s + 1
            in \<lparr>rs_seg = stamp (s\<lparr>sg_rto := rto, sg_xmit := xmit, sg_resendts := cur + rto\<rparr>),
                rs_send = True, rs_change = True, rs_lost = (xmit \<ge> DEADLINK)\<rparr>)
         else if sg_fastack s \<ge> limit then
           \<lparr>rs_seg = stamp (s\<lparr>sg_fastack := 0, sg_rto := rx, sg_resendts := cur + rx, sg_xmit := sg_xmit s + 1\<rparr>),
            rs_send = True, rs_change = True, rs_lost = False\<rparr>
         else \<lparr>rs_seg = s, rs_send = False, rs_change = False, rs_lost = False\<rparr>)"

fun emit_all :: "seg list \<Rightarrow> kcp \<Rightarrow> kcp" where
  "emit_all [] k = k"
| "emit_all (s # ss) k = emit_all ss (emit s k)"

definition flush_resend :: "kcp \<Rightarrow> kcp" where
  "flush_resend k0 =
     (let rs = map (resend_seg k0) (kc_snd_buf k0);
          k = emit_all (map rs_seg (filter rs_send rs)) (k0\<lparr>kc_snd_buf := map rs_seg rs\<rparr>);
          k = (if list_ex rs_change rs \<and> \<not> kc_nodelay k then
                 (let th = max ((kc_snd_nxt k - kc_snd_una k) div 2) THRESH_MIN;
                      cw = th + max (kc_fastresend k) 1
                  in k\<lparr>kc_ssthresh := th, kc_cwnd := cw, kc_incr := cw * of_nat (kc_mss k)\<rparr>)
               else k)
      in if list_ex rs_lost rs then
           k\<lparr>kc_ssthresh := THRESH_MIN, kc_cwnd := 1, kc_incr := of_nat (kc_mss k), kc_dead := True\<rparr>
         else k)"

definition kcp_flush :: "kcp \<Rightarrow> kcp" where
  "kcp_flush k = flush_resend (flush_queue (flush_cwnd (flush_probe (flush_acks k))))"

definition kcp_update :: "u32 \<Rightarrow> kcp \<Rightarrow> kcp" where
  "kcp_update cur k0 =
     (let k = k0\<lparr>kc_current := cur\<rparr>;
          k = (if kc_updated k then k else k\<lparr>kc_updated := True, kc_ts_flush := cur\<rparr>);
          slap = cur - kc_ts_flush k;
          (k, slap) = (if slap \<ge> 0x80000000 then (k\<lparr>kc_ts_flush := cur\<rparr>, 0) else (k, slap))
      in if slap \<ge> kc_interval k \<or> slap \<ge> 10000 then kcp_flush (k\<lparr>kc_ts_flush := cur\<rparr>) else k)"

definition flush_now :: "u32 \<Rightarrow> kcp \<Rightarrow> kcp" where
  "flush_now cur k = kcp_flush (k\<lparr>kc_current := cur\<rparr>)"

end
