(* ===== verification/Kcp_Drive.thy ===== *)
theory Kcp_Drive
  imports Kcp
begin

text \<open>
  What runs a KCP session (\<open>common/src/frp/kcp.rs\<close>): the loop of \<open>KcpStream::drive\<close> with its choice
  among the candidate addresses of the peer, the reader side of the stream, and the table of
  sessions of \<open>KcpListener\<close>. Times are nanoseconds.
\<close>

section \<open>The driving loop\<close>

definition READ_BUF :: nat where "READ_BUF = 2048"
definition CANDIDATE_SWITCH :: nat where "CANDIDATE_SWITCH = 400 * 10 ^ 6"

definition ms_since :: "nat \<Rightarrow> nat \<Rightarrow> u32" where
  "ms_since start now = of_nat ((now - start) div 10 ^ 6)"

record drive =
  dv_kcp :: kcp
  dv_cands :: "socket_addr list"
  dv_peer :: socket_addr
  dv_idx :: nat
  dv_locked :: bool
  dv_last_switch :: nat
  dv_start :: nat
  dv_ended :: bool

definition fallback_addr :: socket_addr where
  "fallback_addr = \<lparr>sa_ip = V4 0x7F000001, sa_port = 0\<rparr>"

definition drive_new :: "nat \<Rightarrow> socket_addr list \<Rightarrow> u32 \<Rightarrow> bytes option \<Rightarrow> drive" where
  "drive_new now cands conv first =
     (let k = set_nodelay True KCP_INTERVAL FASTACK_LIMIT (kcp_new conv MTU_DEF);
          k = (case first of None \<Rightarrow> k | Some pkt \<Rightarrow> fst (kcp_input pkt k))
      in \<lparr>dv_kcp = k, dv_cands = cands, dv_peer = (case cands of [] \<Rightarrow> fallback_addr | c # _ \<Rightarrow> c),
          dv_idx = 0, dv_locked = False, dv_last_switch = now, dv_start = now, dv_ended = False\<rparr>)"

text \<open>\<open>pump\<close> sends what is queued; the socket accepts \<open>n\<close> datagrams before it fails, and the one it
  fails on is lost.\<close>

definition pump :: "nat \<Rightarrow> drive \<Rightarrow> drive \<times> (socket_addr \<times> bytes) list" where
  "pump n d =
     (d\<lparr>dv_kcp := (dv_kcp d)\<lparr>kc_out := drop (Suc n) (kc_out (dv_kcp d))\<rparr>\<rparr>,
      map (Pair (dv_peer d)) (take n (kc_out (dv_kcp d))))"

lemma first_message_shorter:
  "first_message q = Some (m, rest) \<Longrightarrow> length rest < length q"
proof (induction q arbitrary: m rest)
  case (Cons s q)
  then show ?case
    by (cases "sg_frg s = 0") (auto simp: less_Suc_eq)
qed simp

text \<open>\<open>while let Some(msg) = kcp.recv()\<close>.\<close>

function recv_all :: "kcp \<Rightarrow> kcp \<times> bytes list" where
  "recv_all k =
     (case kcp_recv k of
        (k', None) \<Rightarrow> (k', [])
      | (k', Some m) \<Rightarrow> map_prod id (Cons m) (recv_all k'))"
  by pat_completeness auto
termination
  by (relation "measure (\<lambda>k. length (kc_rcv_queue k))")
    (auto simp: kcp_recv_def split: option.splits if_splits dest!: first_message_shorter)

declare recv_all.simps [simp del]

datatype drive_event = App_Data bytes | Packet socket_addr bytes | Tick | Reader_Gone

text \<open>A branch of the \<open>select!\<close>: the new state, what is given to the application, and whether the code
  goes on to the end of the loop body (\<open>continue\<close> and \<open>return\<close> do not).\<close>

fun position_of :: "'a \<Rightarrow> 'a list \<Rightarrow> nat option" where
  "position_of x [] = None"
| "position_of x (y # ys) = (if x = y then Some 0 else map_option Suc (position_of x ys))"

definition accept_source :: "socket_addr \<Rightarrow> drive \<Rightarrow> drive option" where
  "accept_source from d =
     (if dv_locked d then (if from \<noteq> dv_peer d then None else Some d)
      else case position_of from (dv_cands d) of
             Some i \<Rightarrow> Some (d\<lparr>dv_peer := from, dv_idx := i, dv_locked := True\<rparr>)
           | None \<Rightarrow> None)"

definition switch_candidate :: "nat \<Rightarrow> drive \<Rightarrow> drive" where
  "switch_candidate now d =
     (if \<not> dv_locked d \<and> length (dv_cands d) > 1 \<and> now - dv_last_switch d \<ge> CANDIDATE_SWITCH then
       (let i = (dv_idx d + 1) mod length (dv_cands d)
        in d\<lparr>dv_idx := i, dv_peer := dv_cands d ! i, dv_last_switch := now\<rparr>)
      else d)"

definition drive_branch :: "nat \<Rightarrow> drive_event \<Rightarrow> drive \<Rightarrow> drive \<times> bytes list \<times> bool" where
  "drive_branch now e d =
     (case e of
        App_Data data \<Rightarrow>
          (case kcp_send data (dv_kcp d) of (k, n) \<Rightarrow> (d\<lparr>dv_kcp := k\<rparr>, [], n \<noteq> 0))
      | Packet from data \<Rightarrow>
          (case accept_source from d of
             None \<Rightarrow> (d, [], False)
           | Some d \<Rightarrow>
               (case kcp_input data (dv_kcp d) of
                  (k, Inl err) \<Rightarrow> (d\<lparr>dv_kcp := k\<rparr>, [], False)
                | (k, Inr _) \<Rightarrow> (case recv_all k of (k, ms) \<Rightarrow> (d\<lparr>dv_kcp := k\<rparr>, ms, True))))
      | Tick \<Rightarrow>
          (let k = kcp_update (ms_since (dv_start d) now) (dv_kcp d) in
           if kc_dead k then (d\<lparr>dv_kcp := k, dv_ended := True\<rparr>, [], False)
           else (switch_candidate now (d\<lparr>dv_kcp := k\<rparr>), [], True))
      | Reader_Gone \<Rightarrow> (d\<lparr>dv_ended := True\<rparr>, [], False))"

text \<open>One round of the loop: \<open>n1\<close> and \<open>n2\<close> are the datagrams the socket accepts at its two pumps.\<close>

definition drive_step ::
  "nat \<Rightarrow> nat \<Rightarrow> nat \<Rightarrow> drive_event \<Rightarrow> drive \<Rightarrow> drive \<times> (socket_addr \<times> bytes) list \<times> bytes list" where
  "drive_step n1 n2 now e d0 =
     (if dv_ended d0 then (d0, [], [])
      else case pump n1 d0 of (d, out1) \<Rightarrow>
      case drive_branch now e d of (d, ms1, go_on) \<Rightarrow>
      if \<not> go_on then (d, out1, ms1)
      else let d = d\<lparr>dv_kcp := kcp_update (ms_since (dv_start d) now) (dv_kcp d)\<rparr> in
      case pump n2 d of (d, out2) \<Rightarrow>
      case recv_all (dv_kcp d) of (k, ms2) \<Rightarrow>
        (d\<lparr>dv_kcp := k\<rparr>, out1 @ out2, ms1 @ ms2))"

section \<open>The stream\<close>

text \<open>\<open>poll_read\<close> with room for \<open>n\<close> bytes: the first argument is what is left of the last message, the
  second the messages that wait in the channel. \<open>None\<close> is \<open>Pending\<close>; the channel can be closed.\<close>

definition poll_read :: "nat \<Rightarrow> bool \<Rightarrow> bytes \<Rightarrow> bytes list \<Rightarrow> (bytes \<times> bytes \<times> bytes list) option" where
  "poll_read n closed pending chan =
     (if n = 0 then Some ([], pending, chan)
      else if pending \<noteq> [] then Some (take n pending, drop n pending, chan)
      else case chan of
             m # ms \<Rightarrow> Some (take n m, drop n m, ms)
           | [] \<Rightarrow> if closed then Some ([], [], []) else None)"

text \<open>\<open>poll_write\<close> hands the bytes to the driver and reports them all written.\<close>

definition poll_write :: "bool \<Rightarrow> bytes \<Rightarrow> bytes list \<Rightarrow> (bytes list \<times> nat) option" where
  "poll_write driver_gone buf chan = (if driver_gone then None else Some (chan @ [buf], length buf))"

definition conv_from_sid :: "(bytes \<Rightarrow> bytes) \<Rightarrow> bytes \<Rightarrow> u32" where
  "conv_from_sid sha256 sid = get32 (take 4 (sha256 sid))"

section \<open>The listener\<close>

definition MAX_KCP_SESSIONS :: nat where "MAX_KCP_SESSIONS = 1024"
definition MIN_KCP_SESSIONS :: nat where "MIN_KCP_SESSIONS = 64"

text \<open>A session is named by the number under which \<open>accept\<close> made it; \<open>ls_gone\<close> are those whose driving
  task has ended, so that sending to their queue fails; \<open>ls_inbox\<close> holds what was put in the queues.\<close>

record listener =
  ls_sessions :: "socket_addr \<rightharpoonup> nat"
  ls_max :: nat
  ls_next :: nat
  ls_addr :: "nat \<rightharpoonup> socket_addr"
  ls_gone :: "nat set"
  ls_inbox :: "(nat \<times> bytes) list"

definition listener_bind :: listener where
  "listener_bind =
     \<lparr>ls_sessions = Map.empty, ls_max = MAX_KCP_SESSIONS, ls_next = 0, ls_addr = Map.empty, ls_gone = {},
      ls_inbox = []\<rparr>"

definition with_max_sessions :: "nat \<Rightarrow> listener \<Rightarrow> listener" where
  "with_max_sessions n l = l\<lparr>ls_max := (if n < MIN_KCP_SESSIONS then MIN_KCP_SESSIONS else n)\<rparr>"

text \<open>One datagram of \<open>accept\<close>: the session it starts, with its conversation number and first
  datagram.\<close>

definition accept_datagram :: "socket_addr \<Rightarrow> bytes \<Rightarrow> listener \<Rightarrow> listener \<times> (nat \<times> u32 \<times> bytes) option" where
  "accept_datagram from pkt0 l =
     (let pkt = take READ_BUF pkt0 in
      if length pkt < KCP_HEADER then (l, None)
      else case ls_sessions l from of
             Some sid \<Rightarrow>
               if sid \<in> ls_gone l then (l\<lparr>ls_sessions := (ls_sessions l)(from := None)\<rparr>, None)
               else (l\<lparr>ls_inbox := ls_inbox l @ [(sid, pkt)]\<rparr>, None)
           | None \<Rightarrow>
               if card (dom (ls_sessions l)) \<ge> ls_max l then (l, None)
               else (l\<lparr>ls_sessions := (ls_sessions l)(from \<mapsto> ls_next l), ls_next := Suc (ls_next l),
                       ls_addr := (ls_addr l)(ls_next l \<mapsto> from)\<rparr>,
                     Some (ls_next l, get_le32 (take 4 pkt), pkt)))"

text \<open>The driving task of a session ends; the stream of a session is dropped, which runs \<open>on_drop\<close>.\<close>

definition driver_ends :: "nat \<Rightarrow> listener \<Rightarrow> listener" where
  "driver_ends sid l = l\<lparr>ls_gone := insert sid (ls_gone l)\<rparr>"

definition drop_stream :: "nat \<Rightarrow> listener \<Rightarrow> listener" where
  "drop_stream sid l =
     (case ls_addr l sid of
        None \<Rightarrow> l
      | Some from \<Rightarrow> l\<lparr>ls_sessions := (ls_sessions l)(from := None), ls_addr := (ls_addr l)(sid := None),
                       ls_gone := insert sid (ls_gone l)\<rparr>)"

datatype listener_event = Datagram socket_addr bytes | Driver_Ends nat | Drop_Stream nat

definition listener_step :: "listener_event \<Rightarrow> listener \<Rightarrow> listener" where
  "listener_step e l =
     (case e of
        Datagram from pkt \<Rightarrow> fst (accept_datagram from pkt l)
      | Driver_Ends sid \<Rightarrow> driver_ends sid l
      | Drop_Stream sid \<Rightarrow> drop_stream sid l)"

definition listener_run :: "listener_event list \<Rightarrow> listener \<Rightarrow> listener" where
  "listener_run es l = fold listener_step es l"

end
