(* ===== verification/Kcp_Facts.thy ===== *)
theory Kcp_Facts
  imports Kcp_Drive
begin

text \<open>Lemmas on KCP: the codec of segments, signed differences of sequence numbers, cutting a
  message into fragments, and what one session holds whatever datagrams arrive.\<close>

unbundle bit_operations_syntax

section \<open>The codec\<close>

lemma le_length [simp]: "length (le16 x) = 2" "length (le32 y) = 4"
  by (simp_all add: le16_def le32_def)

lemma get_le [simp]: "get_le16 (le16 x) = x" "get_le32 (le32 y) = y"
  by (simp_all add: le16_def le32_def get_le16_def get_le32_def)

text \<open>A segment as it arrives: the sender's bookkeeping does not travel.\<close>

definition wire_seg :: "seg \<Rightarrow> seg" where
  "wire_seg s = s\<lparr>sg_resendts := 0, sg_rto := 0, sg_fastack := 0, sg_xmit := 0\<rparr>"

lemma wire_seg_simps [simp]:
  "sg_conv (wire_seg s) = sg_conv s" "sg_cmd (wire_seg s) = sg_cmd s" "sg_frg (wire_seg s) = sg_frg s"
  "sg_wnd (wire_seg s) = sg_wnd s" "sg_sn (wire_seg s) = sg_sn s" "sg_una (wire_seg s) = sg_una s"
  "sg_ts (wire_seg s) = sg_ts s" "sg_data (wire_seg s) = sg_data s"
  by (simp_all add: wire_seg_def)

lemma seg_encode_length: "length (seg_encode s) = KCP_HEADER + length (sg_data s)"
  by (simp add: seg_encode_def KCP_HEADER_def)

lemma data_length_word:
  assumes "length d \<le> 1400"
  shows "unat (of_nat (length d) :: u32) = length d"
  using assms by (simp add: unsigned_of_nat take_bit_nat_eq_self)

lemma seg_fields:
  assumes "length (sg_data s) \<le> 1400"
  shows "field (seg_encode s @ r) 20 4 = le32 (of_nat (length (sg_data s)))"
    and "seg_head (seg_encode s @ r) = wire_seg s"
proof -
  let ?e = "seg_encode s @ r"
  have e: "?e = le32 (sg_conv s) @ [sg_cmd s] @ [sg_frg s] @ le16 (sg_wnd s) @ le32 (sg_ts s)
      @ le32 (sg_sn s) @ le32 (sg_una s) @ le32 (of_nat (length (sg_data s))) @ sg_data s @ r"
    by (simp add: seg_encode_def)
  show f20: "field ?e 20 4 = le32 (of_nat (length (sg_data s)))"
    unfolding e field_def by simp
  have "field ?e 0 4 = le32 (sg_conv s)" "?e ! 4 = sg_cmd s" "?e ! 5 = sg_frg s"
    "field ?e 6 2 = le16 (sg_wnd s)" "field ?e 8 4 = le32 (sg_ts s)" "field ?e 12 4 = le32 (sg_sn s)"
    "field ?e 16 4 = le32 (sg_una s)"
    unfolding e field_def by (simp_all add: nth_append)
  moreover have "field ?e 24 (length (sg_data s)) = sg_data s"
    unfolding e field_def by simp
  ultimately show "seg_head ?e = wire_seg s"
    by (simp add: seg_head_def f20 data_length_word assms wire_seg_def)
qed

lemma decode_from_encode:
  assumes "length (sg_data s) \<le> 1400"
  shows "decode_from (seg_encode s @ r) =
    (case decode_from r of Inl e \<Rightarrow> Inl e | Inr segs \<Rightarrow> Inr (wire_seg s # segs))"
proof -
  let ?e = "seg_encode s @ r"
  have "unat (get_le32 (field ?e 20 4)) = length (sg_data s)"
    using assms seg_fields(1) [OF assms] by (simp add: data_length_word)
  moreover have "length ?e = KCP_HEADER + length (sg_data s) + length r"
    by (simp add: seg_encode_length)
  moreover have "drop (KCP_HEADER + length (sg_data s)) ?e = r"
    by (simp add: seg_encode_length)
  ultimately show ?thesis
    using assms seg_fields(2) [OF assms, of r]
    by (simp add: decode_from.simps [of ?e] MTU_DEF_def split: sum.split)
qed

lemma decode_from_short: "length r < KCP_HEADER \<Longrightarrow> decode_from r = Inr []"
  by (subst decode_from.simps) simp

lemma decode_from_concat:
  "\<forall>s \<in> set ss. length (sg_data s) \<le> 1400 \<Longrightarrow> length r < KCP_HEADER \<Longrightarrow>
    decode_from (concat (map seg_encode ss) @ r) = Inr (map wire_seg ss)"
  by (induction ss) (simp_all add: decode_from_encode decode_from_short)

lemma decode_segs_concat:
  "ss \<noteq> [] \<Longrightarrow> \<forall>s \<in> set ss. length (sg_data s) \<le> 1400 \<Longrightarrow> length r < KCP_HEADER \<Longrightarrow>
    decode_segs (concat (map seg_encode ss) @ r) = Inr (map wire_seg ss)"
  by (simp add: decode_segs_def decode_from_concat)

lemma decode_segs_one:
  "length (sg_data s) \<le> 1400 \<Longrightarrow> decode_segs (seg_encode s) = Inr [wire_seg s]"
  using decode_segs_concat [of "[s]" "[]"] by (simp add: KCP_HEADER_def)

lemma decode_from_data:
  "decode_from pkt = Inr segs \<Longrightarrow> s \<in> set segs \<Longrightarrow> length (sg_data s) \<le> 1400"
proof (induction pkt arbitrary: segs s rule: decode_from.induct)
  case (1 pkt)
  let ?len = "unat (get_le32 (field pkt 20 4))"
  show ?case
  proof (cases "length pkt < KCP_HEADER")
    case True
    with 1 show ?thesis by (simp add: decode_from_short)
  next
    case False
    with "1.prems" (1) have l: "\<not> length pkt - KCP_HEADER < ?len" "?len \<le> MTU_DEF"
      by (simp_all add: decode_from.simps [of pkt] Let_def split: if_splits)
    then obtain tl where tl: "decode_from (drop (KCP_HEADER + ?len) pkt) = Inr tl" "segs = seg_head pkt # tl"
      using "1.prems" (1) False
      by (auto simp: decode_from.simps [of pkt] Let_def split: if_splits sum.splits)
    have "length (sg_data (seg_head pkt)) \<le> ?len"
      by (simp add: seg_head_def field_def)
    then show ?thesis
      using tl l "1.IH" [OF False refl l(1) _ tl(1)] "1.prems" (2) by (auto simp: MTU_DEF_def)
  qed
qed

lemma decode_segs_data:
  "decode_segs pkt = Inr segs \<Longrightarrow> s \<in> set segs \<Longrightarrow> length (sg_data s) \<le> 1400"
  by (auto simp: decode_segs_def split: sum.splits if_splits dest: decode_from_data)

section \<open>Differences of sequence numbers\<close>

lemma i32_diff:
  assumes "unat a < 2 ^ 31" "unat b < 2 ^ 31"
  shows "i32_from (a - b) = int (unat a) - int (unat b)"
proof -
  have *: "a - b = word_of_int (int (unat a) - int (unat b))"
    by simp
  let ?k = "int (unat a) - int (unat b)"
  have "- (2 ^ 31) \<le> int m - int n \<and> int m - int n < 2 ^ 31" if "m < 2 ^ 31" "n < 2 ^ 31" for m n :: nat
    using that by simp
  from this [OF assms] have "- (2 ^ 31) \<le> ?k" "?k < 2 ^ 31" by blast+
  then have "signed_take_bit 31 ?k = ?k"
    by (rule signed_take_bit_int_eq_self)
  then have "sint (a - b) = ?k"
    unfolding * signed_of_int by simp
  then show ?thesis by (simp add: i32_from_def)
qed

lemma unat_Suc_word:
  fixes w :: u32
  assumes "unat w < 2 ^ 31"
  shows "unat (w + 1) = Suc (unat w)"
  using assms by (simp add: unat_word_ariths)

section \<open>Messages and fragments\<close>

text \<open>What matters of a segment in a queue: its fragment number and its data.\<close>

definition key :: "seg \<Rightarrow> u8 \<times> bytes" where
  "key s = (sg_frg s, sg_data s)"

fun first_msg :: "(u8 \<times> bytes) list \<Rightarrow> (bytes \<times> (u8 \<times> bytes) list) option" where
  "first_msg [] = None"
| "first_msg ((f, d) # ks) = (if f = 0 then Some (d, ks) else map_option (map_prod (\<lambda>x. d @ x) id) (first_msg ks))"

lemma first_message_key:
  "map_option (map_prod id (map key)) (first_message q) = first_msg (map key q)"
proof (induction q)
  case (Cons s q)
  then show ?case
    by (cases "first_message q"; cases "first_msg (map key q)") (auto simp: key_def [of s])
qed simp

definition frags :: "bytes \<Rightarrow> (u8 \<times> bytes) list" where
  "frags m = map key (fragments 1376 m)"

lemma chunks_of_Cons: "xs \<noteq> [] \<Longrightarrow> 0 < n \<Longrightarrow> chunks_of n xs = take n xs # chunks_of n (drop n xs)"
  by (subst chunks_of.simps) simp

lemma chunks_of_Nil [simp]: "chunks_of n [] = []"
  by (subst chunks_of.simps) simp

lemma concat_chunks_of: "0 < n \<Longrightarrow> concat (chunks_of n xs) = xs"
proof (induction n xs rule: chunks_of.induct)
  case (1 n xs)
  then show ?case by (cases "xs = []") (simp_all add: chunks_of_Cons)
qed

lemma length_chunks_of: "0 < n \<Longrightarrow> length (chunks_of n xs) = (length xs + n - 1) div n"
proof (induction n xs rule: chunks_of.induct)
  case (1 n xs)
  show ?case
  proof (cases "xs = []")
    case False
    then have "length (chunks_of n xs) = Suc ((length xs - n + n - 1) div n)"
      using 1 by (simp add: chunks_of_Cons)
    also have "\<dots> = (length xs + n - 1) div n"
    proof (cases "n \<le> length xs")
      case True
      have "(length xs + n - 1) div n = (length xs - n + n - 1 + n) div n"
        using True 1(2) by simp
      also have "\<dots> = Suc ((length xs - n + n - 1) div n)"
        using 1(2) by (subst div_add_self2) simp_all
      finally show ?thesis by simp
    next
      case False: False
      have "(length xs + n - 1) div n = (length xs - 1 + n) div n"
        using \<open>xs \<noteq> []\<close> by (cases xs) simp_all
      also have "\<dots> = Suc ((length xs - 1) div n)"
        using 1(2) by (simp add: div_add_self2)
      finally show ?thesis using False 1(2) by simp
    qed
    finally show ?thesis .
  qed (use 1 in simp)
qed

lemma chunks_of_bound: "c \<in> set (chunks_of n xs) \<Longrightarrow> c \<noteq> [] \<and> length c \<le> n"
proof (induction n xs rule: chunks_of.induct)
  case (1 n xs)
  then show ?case
    by (cases "xs = [] \<or> n = 0") (auto simp: chunks_of_Cons chunks_of.simps [of 0])
qed


definition well_cut :: "(u8 \<times> bytes) list \<Rightarrow> bool" where
  "well_cut fs \<longleftrightarrow> fs \<noteq> [] \<and> fst (last fs) = 0 \<and> (\<forall>f \<in> set (butlast fs). fst f \<noteq> 0)"

lemma first_msg_append:
  "\<forall>f \<in> set fs. fst f \<noteq> 0 \<Longrightarrow>
    first_msg (fs @ ks) = map_option (map_prod (\<lambda>x. concat (map snd fs) @ x) id) (first_msg ks)"
proof (induction fs)
  case (Cons f fs)
  then show ?case by (cases f; cases "first_msg ks") auto
qed (cases "first_msg ks"; auto)

lemma first_msg_well_cut:
  assumes "well_cut fs"
  shows "first_msg (fs @ rest) = Some (concat (map snd fs), rest)"
proof -
  have fs: "fs = butlast fs @ [(0, snd (last fs))]"
    using assms by (metis append_butlast_last_id prod.collapse well_cut_def)
  have "first_msg (butlast fs @ (0, snd (last fs)) # rest)
      = Some (concat (map snd (butlast fs)) @ snd (last fs), rest)"
    using assms by (subst first_msg_append) (simp_all add: well_cut_def)
  then show ?thesis
    by (subst (1 2) fs) simp
qed

lemma first_msg_none: "\<forall>f \<in> set fs. fst f \<noteq> 0 \<Longrightarrow> first_msg fs = None"
  using first_msg_append [of fs "[]"] by simp

lemma first_msg_partial:
  assumes "well_cut fs" "j < length fs"
  shows "first_msg (take j fs) = None"
proof (rule first_msg_none)
  have "take j fs = take j (butlast fs)"
    using assms by (simp add: take_butlast)
  then show "\<forall>f \<in> set (take j fs). fst f \<noteq> 0"
    using assms by (auto simp: well_cut_def dest: in_set_takeD)
qed

lemma map_key_fragments:
  "map key (fragments n m) =
     map (\<lambda>(i, c). (of_nat (length (chunks_of n m)) - 1 - of_nat i, c)) (enumerate 0 (chunks_of n m))"
  by (simp add: fragments_def Let_def key_def seg_new_def split_def)

lemma frags_count:
  fixes n i :: nat
  assumes "i < n" "n \<le> 255"
  shows "(of_nat n - 1 - of_nat i :: u8) = 0 \<longleftrightarrow> i = n - 1"
proof -
  obtain d where n: "n = Suc (i + d)"
    using assms(1) less_iff_Suc_add by blast
  have "(of_nat n - 1 - of_nat i :: u8) = of_nat d"
    by (simp add: n)
  moreover have "unat (of_nat d :: u8) = d"
    using assms(2) n by (simp add: unsigned_of_nat take_bit_nat_eq_self)
  moreover have "unat (of_nat d :: u8) = 0 \<longleftrightarrow> (of_nat d :: u8) = 0"
    by (simp add: unsigned_eq_0_iff)
  ultimately have "(of_nat n - 1 - of_nat i :: u8) = 0 \<longleftrightarrow> d = 0"
    by metis
  then show ?thesis by (simp add: n)
qed

lemma frags_length: "length (frags m) = (length m + 1375) div 1376"
  by (simp add: frags_def map_key_fragments length_chunks_of)

lemma frags_concat: "concat (map snd (frags m)) = m"
proof -
  have "map snd (frags m) = chunks_of 1376 m"
    by (simp add: frags_def map_key_fragments split_def o_def)
  then show ?thesis by (simp add: concat_chunks_of)
qed


lemma frags_well_cut:
  assumes "m \<noteq> []" "(length m + 1375) div 1376 \<le> 255"
  shows "well_cut (frags m)"
proof -
  let ?n = "length (frags m)"
  have n: "0 < ?n" "?n \<le> 255"
    using assms by (simp_all add: frags_length div_greater_zero_iff Suc_leI)
  have nth: "fst (frags m ! i) = of_nat ?n - 1 - of_nat i" if "i < ?n" for i
    using that by (simp add: frags_def map_key_fragments nth_enumerate_eq)
  show ?thesis
    unfolding well_cut_def
  proof (intro conjI ballI)
    show "frags m \<noteq> []" using n by auto
    show "fst (last (frags m)) = 0"
      using n nth [of "?n - 1"] frags_count [of "?n - 1" ?n] \<open>frags m \<noteq> []\<close> by (simp add: last_conv_nth)
    fix f assume "f \<in> set (butlast (frags m))"
    then obtain i where "i < ?n - 1" "f = frags m ! i"
      by (auto simp: in_set_conv_nth nth_butlast)
    then show "fst f \<noteq> 0"
      using n nth [of i] frags_count [of i ?n] by simp
  qed
qed

text \<open>A message the receiver accepts: not empty and at most 64 KiB.\<close>

definition fit_msg :: "bytes \<Rightarrow> bool" where
  "fit_msg m \<longleftrightarrow> m \<noteq> [] \<and> length m \<le> MAX_RECV_MSG"

lemma fit_msg_frags:
  assumes "fit_msg m"
  shows "well_cut (frags m)" and "length (frags m) \<le> 48" and "0 < length (frags m)"
proof -
  have "length m + 1375 \<le> 66911"
    using assms by (simp add: fit_msg_def MAX_RECV_MSG_def)
  then have "(length m + 1375) div 1376 \<le> 66911 div 1376"
    by (rule div_le_mono)
  then have "(length m + 1375) div 1376 \<le> 48" by simp
  then show "well_cut (frags m)" "length (frags m) \<le> 48"
    using assms by (auto simp: fit_msg_def frags_length intro!: frags_well_cut)
  then show "0 < length (frags m)"
    by (auto simp: well_cut_def)
qed

definition stream :: "bytes list \<Rightarrow> (u8 \<times> bytes) list" where
  "stream ms = concat (map frags ms)"

lemma stream_simps [simp]:
  "stream [] = []" "stream (m # ms) = frags m @ stream ms" "stream (ms @ ns) = stream ms @ stream ns"
  by (simp_all add: stream_def)

text \<open>What \<open>recv_all\<close> takes from a queue that holds the start of a stream of messages.\<close>

lemma recv_all_none: "first_msg (map key (kc_rcv_queue k)) = None \<Longrightarrow> recv_all k = (k, [])"
proof -
  assume "first_msg (map key (kc_rcv_queue k)) = None"
  then have "first_message (kc_rcv_queue k) = None"
    using first_message_key [of "kc_rcv_queue k"] by (metis map_option_is_None)
  then have "kcp_recv k = (k, None)"
    by (simp add: kcp_recv_def)
  then show ?thesis
    by (subst recv_all.simps) simp
qed

lemma kcp_recv_some:
  assumes "first_msg (map key (kc_rcv_queue k)) = Some (m, ks)" "length m \<le> MAX_RECV_MSG"
  obtains q where "kcp_recv k = (k\<lparr>kc_rcv_queue := q\<rparr>, Some m)" "map key q = ks"
proof -
  from assms(1) obtain q where "first_message (kc_rcv_queue k) = Some (m, q)" "map key q = ks"
    using first_message_key [of "kc_rcv_queue k"] by (auto simp: map_prod_def)
  with assms(2) that show ?thesis by (simp add: kcp_recv_def)
qed

lemma recv_all_stream:
  assumes "list_all fit_msg ms" "map key (kc_rcv_queue k) = take j (stream ms)"
  shows "\<exists>q out ms'. recv_all k = (k\<lparr>kc_rcv_queue := q\<rparr>, out) \<and> ms = out @ ms'
    \<and> map key (kc_rcv_queue k) = stream out @ map key q
    \<and> length q \<le> 47 \<and> first_msg (map key q) = None"
  using assms
proof (induction ms arbitrary: k j)
  case Nil
  then have "recv_all k = (k, [])" by (intro recv_all_none) simp
  moreover have "k\<lparr>kc_rcv_queue := kc_rcv_queue k\<rparr> = k" by simp
  moreover have "kc_rcv_queue k = []" using Nil by simp
  ultimately show ?case by (intro exI [of _ "[]"]) simp
next
  case (Cons m ms)
  have m: "fit_msg m" using Cons by simp
  show ?case
  proof (cases "j < length (frags m)")
    case True
    then have q: "map key (kc_rcv_queue k) = take j (frags m)"
      using Cons.prems by simp
    then have "recv_all k = (k, [])"
      using first_msg_partial [OF fit_msg_frags(1) [OF m] True] by (intro recv_all_none) simp
    moreover have "length (kc_rcv_queue k) \<le> 47"
      using arg_cong [OF q, of length] True fit_msg_frags(2) [OF m] by simp
    moreover have "first_msg (map key (kc_rcv_queue k)) = None"
      using first_msg_partial [OF fit_msg_frags(1) [OF m] True] q by simp
    ultimately show ?thesis
      by (intro exI [of _ "kc_rcv_queue k"] exI [of _ "[]"] exI [of _ "m # ms"]) simp
  next
    case False
    then have q: "map key (kc_rcv_queue k) = frags m @ take (j - length (frags m)) (stream ms)"
      using Cons.prems by simp
    then have "first_msg (map key (kc_rcv_queue k)) = Some (m, take (j - length (frags m)) (stream ms))"
      by (simp add: first_msg_well_cut fit_msg_frags m frags_concat)
    then obtain q1 where q1: "kcp_recv k = (k\<lparr>kc_rcv_queue := q1\<rparr>, Some m)"
        "map key q1 = take (j - length (frags m)) (stream ms)"
      using m by (auto simp: fit_msg_def elim: kcp_recv_some)
    let ?k = "k\<lparr>kc_rcv_queue := q1\<rparr>"
    have "map key (kc_rcv_queue ?k) = take (j - length (frags m)) (stream ms)" "list_all fit_msg ms"
      using q1 Cons.prems by simp_all
    from Cons.IH [OF this(2,1)] obtain q2 out ms' where r: "recv_all ?k = (?k\<lparr>kc_rcv_queue := q2\<rparr>, out)" "ms = out @ ms'"
        "map key q1 = stream out @ map key q2" "length q2 \<le> 47"
        "first_msg (map key q2) = None"
      by auto
    have "recv_all k = (k\<lparr>kc_rcv_queue := q2\<rparr>, m # out)"
      using q1(1) r(1) by (subst recv_all.simps) simp
    then show ?thesis
      using r q q1 by (intro exI [of _ q2] exI [of _ "m # out"] exI [of _ ms']) auto
  qed
qed

end
