(* ===== verification/Kcp_Ends.thy ===== *)
theory Kcp_Ends
  imports Kcp_Facts "HOL-Library.Sublist"
begin

text \<open>
  The two ends of a KCP session. \<open>S\<close> is the stream of fragments one end sends, in order; the number of
  a segment is its position in \<open>S\<close>. The predicates state what holds of the sender, of the receiver,
  between them and of every datagram on the way; the lemmas show that the operations of \<open>Kcp\<close> keep
  them, whatever is lost, repeated or overtaken.
\<close>

unbundle bit_operations_syntax

section \<open>The invariant\<close>

abbreviation num :: "seg \<Rightarrow> nat" where "num s \<equiv> unat (sg_sn s)"
abbreviation nxt :: "kcp \<Rightarrow> nat" where "nxt k \<equiv> unat (kc_rcv_nxt k)"
abbreviation sent_to :: "kcp \<Rightarrow> nat" where "sent_to k \<equiv> unat (kc_snd_nxt k)"

definition fits :: "(u8 \<times> bytes) list \<Rightarrow> seg \<Rightarrow> bool" where
  "fits S s \<longleftrightarrow> num s < length S \<and> key s = S ! num s"

definition has :: "kcp \<Rightarrow> nat \<Rightarrow> bool" where
  "has k i \<longleftrightarrow> i < nxt k \<or> i \<in> num ` set (kc_rcv_buf k)"

definition seg_ok :: "u32 \<Rightarrow> (u8 \<times> bytes) list \<Rightarrow> kcp \<Rightarrow> seg \<Rightarrow> bool" where
  "seg_ok c S k s \<longleftrightarrow>
     sg_conv s = c \<and> length (sg_data s) \<le> 1400
     \<and> (sg_cmd s = CMD_PUSH \<longrightarrow> fits S s \<and> num s < sent_to k)
     \<and> unat (sg_una s) \<le> nxt k
     \<and> (sg_cmd s = CMD_ACK \<longrightarrow> has k (num s))"

definition dgram_ok :: "u32 \<Rightarrow> (u8 \<times> bytes) list \<Rightarrow> kcp \<Rightarrow> bytes \<Rightarrow> bool" where
  "dgram_ok c S k d \<longleftrightarrow> (\<exists>s. d = seg_encode s \<and> seg_ok c S k s)"

definition stream_ok :: "(u8 \<times> bytes) list \<Rightarrow> bool" where
  "stream_ok S \<longleftrightarrow> length S < 2 ^ 30 \<and> (\<forall>f \<in> set S. length (snd f) \<le> 1376)"

definition sender_ok :: "u32 \<Rightarrow> (u8 \<times> bytes) list \<Rightarrow> kcp \<Rightarrow> bool" where
  "sender_ok c S k \<longleftrightarrow>
     kc_conv k = c \<and> kc_mss k = 1376 \<and> kc_snd_wnd k = 32
     \<and> sent_to k \<le> length S \<and> unat (kc_snd_una k) \<le> sent_to k \<and> sent_to k \<le> unat (kc_snd_una k) + 32
     \<and> map key (kc_snd_queue k) = drop (sent_to k) S
     \<and> (\<forall>s \<in> set (kc_snd_buf k). fits S s \<and> num s < sent_to k \<and> sg_conv s = c \<and> sg_cmd s = CMD_PUSH)"

definition acks_ok :: "kcp \<Rightarrow> bool" where
  "acks_ok k \<longleftrightarrow> (\<forall>(w, t) \<in> set (kc_acklist k). has k (unat w))"

definition receiver_ok :: "(u8 \<times> bytes) list \<Rightarrow> kcp \<Rightarrow> bool" where
  "receiver_ok S k \<longleftrightarrow>
     kc_rcv_wnd k = 128 \<and> nxt k \<le> length S
     \<and> (\<forall>s \<in> set (kc_rcv_buf k). fits S s \<and> nxt k < num s)
     \<and> sorted_wrt (\<lambda>s t. num s < num t) (kc_rcv_buf k)"

definition link_ok :: "kcp \<Rightarrow> kcp \<Rightarrow> bool" where
  "link_ok kx ky \<longleftrightarrow>
     unat (kc_snd_una kx) \<le> nxt ky \<and> nxt ky \<le> sent_to kx
     \<and> (\<forall>s \<in> set (kc_rcv_buf ky). num s < sent_to kx)
     \<and> (\<forall>i < sent_to kx. has ky i \<or> i \<in> num ` set (kc_snd_buf kx))"

definition queue_ok :: "bytes list \<Rightarrow> bytes list \<Rightarrow> kcp \<Rightarrow> bool" where
  "queue_ok sent got k \<longleftrightarrow> prefix got sent \<and> stream got @ map key (kc_rcv_queue k) = take (nxt k) (stream sent)"

definition later :: "kcp \<Rightarrow> kcp \<Rightarrow> bool" where
  "later k k' \<longleftrightarrow> nxt k \<le> nxt k' \<and> sent_to k \<le> sent_to k' \<and> (\<forall>i. has k i \<longrightarrow> has k' i)"

lemma later_refl [simp]: "later k k" by (simp add: later_def)

lemma fits_append: "fits S s \<Longrightarrow> fits (S @ T) s"
  by (auto simp: fits_def nth_append)

lemma seg_ok_later: "seg_ok c S k s \<Longrightarrow> later k k' \<Longrightarrow> seg_ok c (S @ T) k' s"
  by (auto simp: seg_ok_def later_def fits_append)

lemma dgram_ok_later: "dgram_ok c S k d \<Longrightarrow> later k k' \<Longrightarrow> dgram_ok c (S @ T) k' d"
  by (auto simp: dgram_ok_def dest: seg_ok_later)

lemma seg_ok_later0: "seg_ok c S k s \<Longrightarrow> later k k' \<Longrightarrow> seg_ok c S k' s"
  using seg_ok_later [of c S k s k' "[]"] by simp

lemma dgram_okI: "seg_ok c S k s \<Longrightarrow> dgram_ok c S k (seg_encode s)"
  by (auto simp: dgram_ok_def)

lemma dgram_ok_later0: "dgram_ok c S k d \<Longrightarrow> later k k' \<Longrightarrow> dgram_ok c S k' d"
  using dgram_ok_later [of c S k d k' "[]"] by simp

lemma stream_ok_data: "stream_ok S \<Longrightarrow> fits S s \<Longrightarrow> length (sg_data s) \<le> 1376"
proof -
  assume "stream_ok S" "fits S s"
  then have "length (snd (key s)) \<le> 1376"
    by (metis fits_def nth_mem stream_ok_def)
  then show ?thesis by (simp add: key_def)
qed

section \<open>Sending\<close>

lemma kcp_send_cases:
  obtains "kcp_send m k = (k, 0)" | "m \<noteq> []" "(length m + kc_mss k - 1) div kc_mss k \<le> 255"
    "kcp_send m k = (k\<lparr>kc_snd_queue := kc_snd_queue k @ fragments (kc_mss k) m\<rparr>, length m)"
proof (cases "m = [] \<or> (length m + kc_mss k - 1) div kc_mss k > 255")
  case True
  then have "kcp_send m k = (k, 0)" by (auto simp: kcp_send_def)
  then show ?thesis by (rule that(1))
next
  case False
  then show ?thesis by (intro that(2)) (simp_all add: kcp_send_def)
qed

lemma sender_send:
  assumes "sender_ok c S k"
  shows "sender_ok c (S @ frags m) (k\<lparr>kc_snd_queue := kc_snd_queue k @ fragments (kc_mss k) m\<rparr>)"
  using assms unfolding sender_ok_def by (simp add: frags_def fits_append)

section \<open>Flushing\<close>

text \<open>A step that changes nothing but what is to be emitted, and timers.\<close>

definition emits :: "kcp \<Rightarrow> kcp \<Rightarrow> seg list \<Rightarrow> bool" where
  "emits k k' ss \<longleftrightarrow>
     kc_out k' = kc_out k @ map seg_encode ss
     \<and> kc_conv k' = kc_conv k \<and> kc_mss k' = kc_mss k \<and> kc_snd_wnd k' = kc_snd_wnd k
     \<and> kc_snd_una k' = kc_snd_una k \<and> kc_snd_nxt k' = kc_snd_nxt k \<and> kc_snd_queue k' = kc_snd_queue k
     \<and> kc_snd_buf k' = kc_snd_buf k \<and> kc_rcv_wnd k' = kc_rcv_wnd k \<and> kc_rcv_nxt k' = kc_rcv_nxt k
     \<and> kc_rcv_queue k' = kc_rcv_queue k \<and> kc_rcv_buf k' = kc_rcv_buf k"

lemma emits_trans: "emits k k' ss \<Longrightarrow> emits k' k'' ts \<Longrightarrow> emits k k'' (ss @ ts)"
  by (simp add: emits_def)

lemma emit_acks_emits:
  "emits k (emit_acks as k) (map (\<lambda>(w, t). control_seg CMD_ACK t w k) as)
    \<and> kc_acklist (emit_acks as k) = kc_acklist k"
proof (induction as arbitrary: k)
  case (Cons a as)
  obtain w t where a: "a = (w, t)" by fastforce
  let ?k = "emit (control_seg CMD_ACK t w k) k"
  have "emits k ?k [control_seg CMD_ACK t w k]" by (simp add: emits_def emit_def)
  moreover have "control_seg CMD_ACK t' w' ?k = control_seg CMD_ACK t' w' k" for t' w'
    by (simp add: control_seg_def emit_def wnd_unused_def Let_def)
  ultimately show ?case
    using Cons.IH [of ?k] emits_trans by (fastforce simp: a emit_def)
qed (simp add: emits_def)

lemma flush_acks_emits:
  "emits k (flush_acks k) (map (\<lambda>(w, t). control_seg CMD_ACK t w k) (kc_acklist k))
    \<and> kc_acklist (flush_acks k) = []"
proof -
  have "control_seg CMD_ACK t w (k\<lparr>kc_acklist := []\<rparr>) = control_seg CMD_ACK t w k" for w t
    by (simp add: control_seg_def wnd_unused_def Let_def)
  then show ?thesis
    using emit_acks_emits [of "k\<lparr>kc_acklist := []\<rparr>" "kc_acklist k"] by (simp add: flush_acks_def emits_def)
qed

lemma flush_probe_emits:
  "\<exists>ss. emits k (flush_probe k) ss \<and> kc_acklist (flush_probe k) = kc_acklist k
    \<and> (\<forall>s \<in> set ss. sg_conv s = kc_conv k \<and> sg_data s = [] \<and> sg_una s = kc_rcv_nxt k
        \<and> sg_cmd s \<noteq> CMD_ACK \<and> sg_cmd s \<noteq> CMD_PUSH)"
proof -
  define k1 where "k1 = (if kc_rmt_wnd k = 0 then
                 (if kc_probe_wait k = 0 then
                    k\<lparr>kc_probe_wait := PROBE_INIT, kc_ts_probe := kc_current k + PROBE_INIT\<rparr>
                  else if i32_from (kc_current k - kc_ts_probe k) \<ge> 0 then
                    (let w = min (kc_probe_wait k + kc_probe_wait k div 2) PROBE_LIMIT
                     in k\<lparr>kc_probe_wait := w, kc_ts_probe := kc_current k + w, kc_probe := kc_probe k OR ASK_SEND\<rparr>)
                  else k)
               else k\<lparr>kc_ts_probe := 0, kc_probe_wait := 0\<rparr>)"
  have k1: "emits k k1 []" "kc_acklist k1 = kc_acklist k"
    by (simp_all add: k1_def emits_def Let_def)
  define k2 where "k2 = (if kc_probe k1 AND ASK_SEND \<noteq> 0 then emit (control_seg CMD_WASK 0 0 k1) k1 else k1)"
  define k3 where "k3 = (if kc_probe k1 AND ASK_TELL \<noteq> 0 then emit (control_seg CMD_WINS 0 0 k2) k2 else k2)"
  have k3: "flush_probe k = k3\<lparr>kc_probe := 0\<rparr>"
    by (simp add: flush_probe_def k1_def k2_def k3_def Let_def)
  have cmds: "CMD_WASK \<noteq> CMD_ACK" "CMD_WASK \<noteq> CMD_PUSH" "CMD_WINS \<noteq> CMD_ACK" "CMD_WINS \<noteq> CMD_PUSH"
    by (simp_all add: CMD_WASK_def CMD_ACK_def CMD_PUSH_def CMD_WINS_def)
  let ?s2 = "if kc_probe k1 AND ASK_SEND \<noteq> 0 then [control_seg CMD_WASK 0 0 k1] else []"
  let ?s3 = "if kc_probe k1 AND ASK_TELL \<noteq> 0 then [control_seg CMD_WINS 0 0 k2] else []"
  have "emits k1 k2 ?s2" "emits k2 (k3\<lparr>kc_probe := 0\<rparr>) ?s3" "kc_acklist k3 = kc_acklist k"
    by (simp_all add: k2_def k3_def emits_def emit_def k1)
  then have "emits k (flush_probe k) (?s2 @ ?s3)" "kc_acklist (flush_probe k) = kc_acklist k"
    using k1 emits_trans [of k k1 "[]" k2 ?s2] emits_trans [of k k2 ?s2 "k3\<lparr>kc_probe := 0\<rparr>" ?s3]
    by (simp_all only: k3 append_Nil) simp_all
  moreover have "\<forall>s \<in> set (?s2 @ ?s3). sg_conv s = kc_conv k \<and> sg_data s = [] \<and> sg_una s = kc_rcv_nxt k
        \<and> sg_cmd s \<noteq> CMD_ACK \<and> sg_cmd s \<noteq> CMD_PUSH"
    using k1(1) cmds by (simp add: control_seg_def seg_new_def k2_def emit_def emits_def)
  ultimately show ?thesis by blast
qed

lemma flush_cwnd_emits: "emits k (flush_cwnd k) [] \<and> kc_acklist (flush_cwnd k) = kc_acklist k"
  by (simp add: flush_cwnd_def emits_def Let_def)


text \<open>The loop that fills the send buffer.\<close>

lemma push_segs_spec:
  assumes "push_segs prep max_sn n0 buf q = (n', buf', q')"
    and "unat n0 + length q < 2 ^ 31" "unat max_sn < 2 ^ 31"
  shows "\<exists>m. m \<le> length q \<and> unat n' = unat n0 + m \<and> unat n' \<le> max (unat n0) (unat max_sn) \<and> q' = drop m q
    \<and> buf' = buf @ map (\<lambda>i. prep (of_nat (unat n0 + i)) (q ! i)) [0..<m]"
  using assms
proof (induction q arbitrary: n0 buf)
  case Nil
  then show ?case by simp
next
  case (Cons s q)
  show ?case
  proof (cases "i32_from (n0 - max_sn) < 0")
    case False
    then show ?thesis using Cons.prems by (intro exI [of _ 0]) simp
  next
    case True
    then have lt: "unat n0 < unat max_sn"
      using i32_diff [of n0 max_sn] Cons.prems by (simp add: word_less_nat_alt [symmetric] word_less_def)
    have n1: "unat (n0 + 1) = Suc (unat n0)"
      using Cons.prems by (intro unat_Suc_word) simp
    have rec: "push_segs prep max_sn (n0 + 1) (buf @ [prep n0 s]) q = (n', buf', q')"
      using Cons.prems(1) True by simp
    have "unat (n0 + 1) + length q < 2 ^ 31"
      using Cons.prems n1 by simp
    from Cons.IH [OF rec this Cons.prems(3)]
    obtain m where m: "m \<le> length q" "unat n' = Suc (unat n0) + m" "unat n' \<le> unat max_sn" "q' = drop m q"
        "buf' = (buf @ [prep n0 s]) @ map (\<lambda>i. prep (of_nat (Suc (unat n0) + i)) (q ! i)) [0..<m]"
      using n1 lt by auto
    have "[0..<Suc m] = 0 # map Suc [0..<m]"
      by (simp add: map_Suc_upt upt_conv_Cons del: upt_Suc)
    then have "buf' = buf @ map (\<lambda>i. prep (of_nat (unat n0 + i)) ((s # q) ! i)) [0..<Suc m]"
      by (simp add: m(5) ac_simps del: upt_Suc)
    then show ?thesis
      using m by (intro exI [of _ "Suc m"]) simp
  qed
qed

lemma flush_queue_spec:
  assumes "sender_ok c S k" "stream_ok S"
  defines "k' \<equiv> flush_queue k"
  shows "sender_ok c S k'" and "sent_to k \<le> sent_to k'"
    and "num ` set (kc_snd_buf k') = num ` set (kc_snd_buf k) \<union> {sent_to k ..< sent_to k'}"
    and "kc_snd_una k' = kc_snd_una k" "kc_rcv_wnd k' = kc_rcv_wnd k" "kc_rcv_nxt k' = kc_rcv_nxt k"
      "kc_rcv_queue k' = kc_rcv_queue k" "kc_rcv_buf k' = kc_rcv_buf k" "kc_acklist k' = kc_acklist k"
      "kc_out k' = kc_out k"
proof -
  define max_sn where "max_sn = kc_snd_una k + min (kc_snd_wnd k) (kc_rmt_wnd k)"
  define prep where "prep = (\<lambda>nxt (s :: seg). s\<lparr>sg_conv := kc_conv k, sg_cmd := CMD_PUSH, sg_wnd := ucast (wnd_unused k),
                            sg_ts := kc_current k, sg_sn := nxt, sg_una := kc_rcv_nxt k,
                            sg_resendts := kc_current k, sg_rto := kc_rto k, sg_fastack := 0, sg_xmit := 0\<rparr>)"
  obtain n' buf' q' where p: "push_segs prep max_sn (kc_snd_nxt k) (kc_snd_buf k) (kc_snd_queue k) = (n', buf', q')"
    by (metis prod_cases3)
  have k': "k' = k\<lparr>kc_snd_nxt := n', kc_snd_buf := buf', kc_snd_queue := q'\<rparr>"
    using p by (simp add: k'_def flush_queue_def prep_def max_sn_def)
  note s = assms(1) [unfolded sender_ok_def]
  have len: "length (kc_snd_queue k) = length S - sent_to k"
    using s by (metis length_map length_drop)
  show "kc_snd_una k' = kc_snd_una k" "kc_rcv_wnd k' = kc_rcv_wnd k" "kc_rcv_nxt k' = kc_rcv_nxt k"
      "kc_rcv_queue k' = kc_rcv_queue k" "kc_rcv_buf k' = kc_rcv_buf k" "kc_acklist k' = kc_acklist k"
      "kc_out k' = kc_out k"
    by (simp_all add: k')
  have una: "unat (kc_snd_una k) < 2 ^ 30" and S30: "length S < 2 ^ 30"
    using s assms(2) by (auto simp: stream_ok_def)
  have mn: "unat (min (kc_snd_wnd k) (kc_rmt_wnd k)) \<le> 32"
    using s by (simp add: min_def word_le_nat_alt)
  then have max: "unat max_sn = unat (kc_snd_una k) + unat (min (kc_snd_wnd k) (kc_rmt_wnd k))"
    unfolding max_sn_def using una by (subst unat_add_lem [THEN iffD1]) simp_all
  have "unat (kc_snd_nxt k) + length (kc_snd_queue k) < 2 ^ 31" "unat max_sn < 2 ^ 31"
    using len s S30 una mn max by simp_all
  from push_segs_spec [OF p this] obtain m where m: "m \<le> length (kc_snd_queue k)" "unat n' = sent_to k + m"
      "unat n' \<le> max (sent_to k) (unat max_sn)" "q' = drop m (kc_snd_queue k)"
      "buf' = kc_snd_buf k @ map (\<lambda>i. prep (of_nat (sent_to k + i)) (kc_snd_queue k ! i)) [0..<m]"
    by blast
  have num: "num (prep (of_nat (sent_to k + i)) x) = sent_to k + i" if "i < m" for i x
    using that m(1) len S30 by (simp add: prep_def unsigned_of_nat take_bit_nat_eq_self del: of_nat_add)
  have new: "fits S (prep (of_nat (sent_to k + i)) (kc_snd_queue k ! i))" if "i < m" for i
  proof -
    have i: "i < length (kc_snd_queue k)" using that m(1) by simp
    then have "key (kc_snd_queue k ! i) = S ! (sent_to k + i)"
      using s by (metis nth_drop nth_map)
    moreover have "key (prep w x) = key x" for w x by (simp add: prep_def key_def)
    ultimately show ?thesis
      using num [OF that] i len by (simp add: fits_def)
  qed
  show "sent_to k \<le> sent_to k'" using m by (simp add: k')
  have "num ` set (kc_snd_buf k') = num ` set (kc_snd_buf k) \<union> (\<lambda>i. sent_to k + i) ` {0..<m}"
    using num by (simp add: k' m(5) image_Un image_image)
  then show "num ` set (kc_snd_buf k') = num ` set (kc_snd_buf k) \<union> {sent_to k ..< sent_to k'}"
    using m(2) by (simp add: k' add.commute)
  have buf: "fits S x \<and> num x < unat n' \<and> sg_conv x = c \<and> sg_cmd x = CMD_PUSH" if xb: "x \<in> set buf'" for x
  proof (cases "x \<in> set (kc_snd_buf k)")
    case True
    then show ?thesis using s m(2) by fastforce
  next
    case False
    then obtain i where i: "i < m" "x = prep (of_nat (sent_to k + i)) (kc_snd_queue k ! i)"
      using xb by (auto simp only: m(5) set_append set_map set_upt atLeastLessThan_iff Un_iff image_iff)
    show ?thesis
      using new [OF i(1)] num [OF i(1), of "kc_snd_queue k ! i"] i m(2) s by (simp add: prep_def)
  qed
  have "unat n' \<le> length S" "unat (kc_snd_una k) \<le> unat n'" "unat n' \<le> unat (kc_snd_una k) + 32"
  proof -
    have sl: "sent_to k \<le> length S" "unat (kc_snd_una k) \<le> sent_to k" "sent_to k \<le> unat (kc_snd_una k) + 32"
      using s by blast+
    have "unat n' \<le> sent_to k \<or> unat n' \<le> unat max_sn"
      using m(3) by (simp only: le_max_iff_disj)
    then show "unat n' \<le> length S" "unat (kc_snd_una k) \<le> unat n'" "unat n' \<le> unat (kc_snd_una k) + 32"
      using sl m(1,2) len max mn by linarith+
  qed
  moreover have "map key q' = drop (unat n') S"
    using s m(2,4) by (metis drop_drop drop_map add.commute)
  ultimately show "sender_ok c S k'"
    using s buf by (simp add: sender_ok_def k')
qed


lemma emit_all_emits: "emits k (emit_all ss k) ss \<and> kc_acklist (emit_all ss k) = kc_acklist k"
proof (induction ss arbitrary: k)
  case (Cons s ss)
  have "emits k (emit s k) [s]" "kc_acklist (emit s k) = kc_acklist k" by (simp_all add: emits_def emit_def)
  then show ?case
    using Cons.IH [of "emit s k"] emits_trans by fastforce
qed (simp add: emits_def)

lemma resend_seg_facts:
  "sg_sn (rs_seg (resend_seg k s)) = sg_sn s" "key (rs_seg (resend_seg k s)) = key s"
  "sg_conv (rs_seg (resend_seg k s)) = sg_conv s" "sg_cmd (rs_seg (resend_seg k s)) = sg_cmd s"
  "rs_send (resend_seg k s) \<Longrightarrow> sg_una (rs_seg (resend_seg k s)) = kc_rcv_nxt k"
  by (auto simp: resend_seg_def Let_def key_def split: if_splits)

lemma flush_resend_emits:
  "emits (k\<lparr>kc_snd_buf := map (rs_seg \<circ> resend_seg k) (kc_snd_buf k)\<rparr>) (flush_resend k)
      (map rs_seg (filter rs_send (map (resend_seg k) (kc_snd_buf k))))
    \<and> kc_acklist (flush_resend k) = kc_acklist k"
proof -
  let ?rs = "map (resend_seg k) (kc_snd_buf k)" and ?k0 = "k\<lparr>kc_snd_buf := map rs_seg (map (resend_seg k) (kc_snd_buf k))\<rparr>"
  define K where "K = emit_all (map rs_seg (filter rs_send ?rs)) ?k0"
  have K: "emits ?k0 K (map rs_seg (filter rs_send ?rs))" "kc_acklist K = kc_acklist k"
    using emit_all_emits [of ?k0 "map rs_seg (filter rs_send ?rs)"] by (simp_all add: K_def)
  have "flush_resend k =
     (let k = (if list_ex rs_change ?rs \<and> \<not> kc_nodelay K then
                 (let th = max ((kc_snd_nxt K - kc_snd_una K) div 2) THRESH_MIN;
                      cw = th + max (kc_fastresend K) 1
                  in K\<lparr>kc_ssthresh := th, kc_cwnd := cw, kc_incr := cw * of_nat (kc_mss K)\<rparr>)
               else K)
      in if list_ex rs_lost ?rs then
           k\<lparr>kc_ssthresh := THRESH_MIN, kc_cwnd := 1, kc_incr := of_nat (kc_mss k), kc_dead := True\<rparr>
         else k)"
    by (simp only: flush_resend_def Let_def K_def)
  then have "emits ?k0 (flush_resend k) (map rs_seg (filter rs_send ?rs)) \<and> kc_acklist (flush_resend k) = kc_acklist k"
    using K by (simp only: emits_def) (simp add: Let_def)
  then show ?thesis by (simp only: map_map)
qed


lemma seg_ok_control:
  "kc_conv k = c \<Longrightarrow> cmd \<noteq> CMD_PUSH \<Longrightarrow> (cmd = CMD_ACK \<longrightarrow> has k (unat w)) \<Longrightarrow>
    seg_ok c S k (control_seg cmd t w k)"
  by (simp add: seg_ok_def control_seg_def seg_new_def)

text \<open>What a step of an end keeps: \<open>steps c S k k'\<close> collects it for the sender's steps.\<close>

definition steps :: "u32 \<Rightarrow> (u8 \<times> bytes) list \<Rightarrow> kcp \<Rightarrow> kcp \<Rightarrow> bool" where
  "steps c S k k' \<longleftrightarrow>
     sender_ok c S k' \<and> acks_ok k' \<and> (\<forall>d \<in> set (kc_out k'). dgram_ok c S k' d)
     \<and> sent_to k \<le> sent_to k'
     \<and> num ` set (kc_snd_buf k) \<union> {sent_to k ..< sent_to k'} \<subseteq> num ` set (kc_snd_buf k')
     \<and> kc_snd_una k' = kc_snd_una k \<and> kc_rcv_wnd k' = kc_rcv_wnd k \<and> kc_rcv_nxt k' = kc_rcv_nxt k
     \<and> kc_rcv_queue k' = kc_rcv_queue k \<and> kc_rcv_buf k' = kc_rcv_buf k"

lemma stepsD: 
  assumes "steps c S k k'"
  shows "sender_ok c S k'" "acks_ok k'" "\<forall>d \<in> set (kc_out k'). dgram_ok c S k' d" "later k k'"
  using assms by (simp_all add: steps_def later_def has_def)

lemma steps_trans: "steps c S k k' \<Longrightarrow> steps c S k' k'' \<Longrightarrow> steps c S k k''"
proof -
  assume a: "steps c S k k'" "steps c S k' k''"
  then have "{sent_to k ..< sent_to k''} = {sent_to k ..< sent_to k'} \<union> {sent_to k' ..< sent_to k''}"
    by (auto simp: steps_def)
  moreover have "num ` set (kc_snd_buf k) \<union> {sent_to k ..< sent_to k'} \<subseteq> num ` set (kc_snd_buf k')"
      "num ` set (kc_snd_buf k') \<union> {sent_to k' ..< sent_to k''} \<subseteq> num ` set (kc_snd_buf k'')"
    using a by (simp_all only: steps_def)
  ultimately have "num ` set (kc_snd_buf k) \<union> {sent_to k ..< sent_to k''} \<subseteq> num ` set (kc_snd_buf k'')"
    by (simp only:) blast
  then show ?thesis
    using a unfolding steps_def by (elim conjE) (intro conjI, simp_all)
qed

lemma emits_steps:
  assumes "emits k k' ss" "sender_ok c S k" "acks_ok k'" "\<forall>d \<in> set (kc_out k). dgram_ok c S k d"
    "\<forall>s \<in> set ss. seg_ok c S k s"
  shows "steps c S k k'"
proof -
  have "later k k'" using assms(1) by (simp add: emits_def later_def has_def)
  then have "\<forall>d \<in> set (kc_out k) \<union> seg_encode ` set ss. dgram_ok c S k' d"
    using assms(4,5) by (auto intro: dgram_ok_later0 seg_ok_later0 dgram_okI)
  moreover have "set (kc_out k') = set (kc_out k) \<union> seg_encode ` set ss"
    using assms(1) by (simp add: emits_def)
  ultimately have "\<forall>d \<in> set (kc_out k'). dgram_ok c S k' d" by simp
  then show ?thesis
    using assms(1-3) by (simp add: steps_def emits_def sender_ok_def)
qed

lemma acks_ok_Nil: "kc_acklist k = [] \<Longrightarrow> acks_ok k"
  by (simp add: acks_ok_def)

text \<open>What the sender's lemmas start from.\<close>

definition ready :: "u32 \<Rightarrow> (u8 \<times> bytes) list \<Rightarrow> kcp \<Rightarrow> bool" where
  "ready c S k \<longleftrightarrow> sender_ok c S k \<and> acks_ok k \<and> (\<forall>d \<in> set (kc_out k). dgram_ok c S k d)"

lemma steps_ready: "steps c S k k' \<Longrightarrow> ready c S k'"
  by (simp add: ready_def steps_def)

lemma emits_ready:
  assumes "emits k k' ss" "ready c S k" "kc_acklist k' = []" "\<forall>s \<in> set ss. seg_ok c S k s"
  shows "steps c S k k' \<and> kc_acklist k' = []"
  using assms emits_steps acks_ok_Nil unfolding ready_def by blast

lemma flush_acks_steps:
  assumes "ready c S k"
  shows "steps c S k (flush_acks k) \<and> kc_acklist (flush_acks k) = []"
proof (rule emits_ready)
  have "kc_conv k = c" using assms by (simp add: sender_ok_def ready_def)
  then show "\<forall>s \<in> set (map (\<lambda>(w, t). control_seg CMD_ACK t w k) (kc_acklist k)). seg_ok c S k s"
    using assms by (auto simp: ready_def acks_ok_def CMD_ACK_def CMD_PUSH_def intro!: seg_ok_control)
qed (use flush_acks_emits [of k] assms in simp_all)

lemma flush_probe_steps:
  assumes "ready c S k" "kc_acklist k = []"
  shows "steps c S k (flush_probe k) \<and> kc_acklist (flush_probe k) = []"
proof -
  obtain ss where ss: "emits k (flush_probe k) ss" "kc_acklist (flush_probe k) = kc_acklist k"
      "\<forall>s \<in> set ss. sg_conv s = kc_conv k \<and> sg_data s = [] \<and> sg_una s = kc_rcv_nxt k
        \<and> sg_cmd s \<noteq> CMD_ACK \<and> sg_cmd s \<noteq> CMD_PUSH"
    using flush_probe_emits [of k] by blast
  have "kc_conv k = c" using assms by (simp add: sender_ok_def ready_def)
  then have "\<forall>s \<in> set ss. seg_ok c S k s"
    using ss(3) by (simp add: seg_ok_def)
  then show ?thesis
    using emits_ready [OF ss(1) assms(1)] ss(2) assms(2) by simp
qed

lemma flush_cwnd_steps:
  assumes "ready c S k" "kc_acklist k = []"
  shows "steps c S k (flush_cwnd k) \<and> kc_acklist (flush_cwnd k) = []"
  using flush_cwnd_emits [of k] assms by (intro emits_ready [of k _ "[]"]) simp_all

lemma flush_queue_steps:
  assumes "ready c S k" "kc_acklist k = []" "stream_ok S"
  shows "steps c S k (flush_queue k) \<and> kc_acklist (flush_queue k) = []"
proof -
  have s: "sender_ok c S k" using assms(1) by (simp add: ready_def)
  note f = flush_queue_spec [OF s assms(3)]
  have "later k (flush_queue k)" using f(2,6,8) by (simp add: later_def has_def)
  then have "\<forall>d \<in> set (kc_out (flush_queue k)). dgram_ok c S (flush_queue k) d"
    using assms(1) f(10) by (auto simp: ready_def intro: dgram_ok_later0)
  then show ?thesis
    using f(1,2) f(4-9) assms(2) f(3) by (simp add: steps_def acks_ok_Nil)
qed

lemma flush_resend_steps:
  assumes "ready c S k" "kc_acklist k = []" "stream_ok S"
  shows "steps c S k (flush_resend k) \<and> kc_acklist (flush_resend k) = []"
proof -
  let ?k = "k\<lparr>kc_snd_buf := map (rs_seg \<circ> resend_seg k) (kc_snd_buf k)\<rparr>"
  have s: "sender_ok c S k" and out: "\<forall>d \<in> set (kc_out k). dgram_ok c S k d"
    using assms(1) by (simp_all add: ready_def)
  have buf: "fits S x \<and> num x < sent_to k \<and> sg_conv x = c \<and> sg_cmd x = CMD_PUSH"
    if "x \<in> set (kc_snd_buf k)" for x
    using s that by (simp add: sender_ok_def)
  have fits: "fits S (rs_seg (resend_seg k x)) = fits S x" for x
    by (simp add: fits_def resend_seg_facts)
  have "\<forall>x \<in> set (kc_snd_buf ?k). fits S x \<and> num x < sent_to k \<and> sg_conv x = c \<and> sg_cmd x = CMD_PUSH"
    using buf by (simp add: fits resend_seg_facts)
  then have "sender_ok c S ?k"
    using s by (simp add: sender_ok_def)
  moreover have "later k ?k" by (simp add: later_def has_def)
  then have "\<forall>d \<in> set (kc_out ?k). dgram_ok c S ?k d"
    using out by (auto intro: dgram_ok_later0)
  ultimately have r: "ready c S ?k"
    using assms(2) by (simp add: ready_def acks_ok_Nil)
  have "seg_ok c S ?k x"
    if x: "x \<in> set (map rs_seg (filter rs_send (map (resend_seg k) (kc_snd_buf k))))" for x
  proof -
    obtain y where y: "y \<in> set (kc_snd_buf k)" "rs_send (resend_seg k y)" "x = rs_seg (resend_seg k y)"
      using x by auto
    have "length (sg_data x) \<le> 1376"
      using buf [OF y(1)] fits [of y] y(3) assms(3) stream_ok_data by metis
    then show ?thesis
      using buf [OF y(1)] y fits [of y] by (simp add: seg_ok_def resend_seg_facts CMD_PUSH_def CMD_ACK_def)
  qed
  then have "steps c S ?k (flush_resend k) \<and> kc_acklist (flush_resend k) = []"
    using flush_resend_emits [of k] assms(2) r by (intro emits_ready) auto
  moreover have "num ` set (kc_snd_buf ?k) = num ` set (kc_snd_buf k)"
    by (auto simp: image_image resend_seg_facts)
  ultimately show ?thesis by (simp add: steps_def)
qed

lemma flush_steps:
  assumes "ready c S k" "stream_ok S"
  shows "steps c S k (kcp_flush k)"
proof -
  note s1 = flush_acks_steps [OF assms(1)]
  note s2 = flush_probe_steps [OF s1 [THEN conjunct1, THEN steps_ready] s1 [THEN conjunct2]]
  note s3 = flush_cwnd_steps [OF s2 [THEN conjunct1, THEN steps_ready] s2 [THEN conjunct2]]
  note s4 = flush_queue_steps [OF s3 [THEN conjunct1, THEN steps_ready] s3 [THEN conjunct2] assms(2)]
  note s5 = flush_resend_steps [OF s4 [THEN conjunct1, THEN steps_ready] s4 [THEN conjunct2] assms(2)]
  show ?thesis
    unfolding kcp_flush_def
    by (rule steps_trans [OF s1 [THEN conjunct1] steps_trans [OF s2 [THEN conjunct1]
          steps_trans [OF s3 [THEN conjunct1] steps_trans [OF s4 [THEN conjunct1] s5 [THEN conjunct1]]]]])
qed

lemma steps_timers:
  "ready c S k \<Longrightarrow> emits k k' [] \<Longrightarrow> kc_acklist k' = kc_acklist k \<Longrightarrow> steps c S k k'"
  by (rule emits_steps) (auto simp: ready_def acks_ok_def emits_def has_def)

lemma update_steps:
  assumes "ready c S k" "stream_ok S"
  shows "steps c S k (kcp_update cur k)"
proof -
  define k1 where "k1 = (if kc_updated k then k\<lparr>kc_current := cur\<rparr>
      else k\<lparr>kc_current := cur, kc_updated := True, kc_ts_flush := cur\<rparr>)"
  define k2 where "k2 = (if cur - kc_ts_flush k1 \<ge> 0x80000000 then k1\<lparr>kc_ts_flush := cur\<rparr> else k1)"
  have k: "emits k k2 []" "kc_acklist k2 = kc_acklist k"
    "emits k (k2\<lparr>kc_ts_flush := cur\<rparr>) []" "kc_acklist (k2\<lparr>kc_ts_flush := cur\<rparr>) = kc_acklist k"
    by (simp_all add: k1_def k2_def emits_def)
  have "kcp_update cur k = k2 \<or> kcp_update cur k = kcp_flush (k2\<lparr>kc_ts_flush := cur\<rparr>)"
    by (simp add: kcp_update_def k1_def k2_def Let_def)
  then show ?thesis
  proof
    assume "kcp_update cur k = k2"
    then show ?thesis using steps_timers [OF assms(1) k(1,2)] by simp
  next
    assume u: "kcp_update cur k = kcp_flush (k2\<lparr>kc_ts_flush := cur\<rparr>)"
    note s = steps_timers [OF assms(1) k(3,4)]
    show ?thesis
      unfolding u by (rule steps_trans [OF s flush_steps [OF steps_ready [OF s] assms(2)]])
  qed
qed


section \<open>Receiving\<close>

abbreviation in_order :: "seg list \<Rightarrow> bool" where "in_order \<equiv> sorted_wrt (\<lambda>s t. num s < num t)"

lemma insert_seg_set: "set (insert_seg s b) = insert s (set b)"
  by (induction b) auto

lemma insert_seg_order:
  assumes "in_order b" "num s < 2 ^ 31" "\<forall>x \<in> set b. num x < 2 ^ 31 \<and> num x \<noteq> num s"
  shows "in_order (insert_seg s b)"
  using assms
proof (induction b)
  case (Cons x b)
  have "i32_from (sg_sn x - sg_sn s) > 0 \<longleftrightarrow> num x > num s"
    using Cons.prems i32_diff [of "sg_sn x" "sg_sn s"] by (simp add: word_less_nat_alt [symmetric] word_less_def)
  then show ?case
    using Cons by (auto simp: insert_seg_set)
qed simp

lemma move_ready_spec:
  assumes "move_ready w n q buf = (n', q', buf')" "in_order buf"
    "\<forall>x \<in> set buf. fits S x \<and> unat n \<le> num x \<and> num x < B"
    "base @ map key q = take (unat n) S" "length S < 2 ^ 30" "unat n \<le> B"
  shows "base @ map key q' = take (unat n') S \<and> unat n \<le> unat n' \<and> unat n' \<le> B
    \<and> length q' = length q + (unat n' - unat n)
    \<and> in_order buf' \<and> (\<forall>x \<in> set buf'. fits S x \<and> unat n' \<le> num x \<and> num x < B)
    \<and> set buf' \<subseteq> set buf \<and> (\<forall>x \<in> set buf. x \<in> set buf' \<or> num x < unat n')
    \<and> (length q' < w \<longrightarrow> (\<forall>x \<in> set buf'. unat n' < num x))"
  using assms
proof (induction w n q buf rule: move_ready.induct)
  case (1 w n q)
  then show ?case by simp
next
  case (2 w n q s buf)
  show ?case
  proof (cases "sg_sn s \<noteq> n \<or> length q \<ge> w")
    case True
    then have r: "n' = n" "q' = q" "buf' = s # buf" using "2.prems"(1) by simp_all
    have "unat n < num x" if "sg_sn s \<noteq> n" "x \<in> set (s # buf)" for x
    proof -
      have "unat n < num s"
        using "2.prems"(3) that(1) by (metis le_neq_implies_less list.set_intros(1) unsigned_word_eqI)
      then show ?thesis using "2.prems"(2) that(2) by auto
    qed
    then show ?thesis using "2.prems" True r by auto
  next
    case False
    then have s: "sg_sn s = n" and rec: "move_ready w (n + 1) (q @ [s]) buf = (n', q', buf')"
      using "2.prems"(1) by simp_all
    have fs: "fits S s" and b: "num s < B" using "2.prems"(3) by simp_all
    then have lt: "unat n < length S" and ky: "key s = S ! unat n" by (simp_all add: fits_def s)
    have n1: "unat (n + 1) = Suc (unat n)"
      using lt "2.prems"(5) by (intro unat_Suc_word) simp
    have base: "base @ map key (q @ [s]) = take (unat (n + 1)) S"
      using "2.prems"(4) lt by (simp add: n1 ky take_Suc_conv_app_nth)
    have buf: "\<forall>x \<in> set buf. fits S x \<and> unat (n + 1) \<le> num x \<and> num x < B"
      using "2.prems"(2,3) by (auto simp: n1 s)
    have "in_order buf" "unat (n + 1) \<le> B" using "2.prems"(2) b by (simp_all add: n1 s)
    note ih = "2.IH" [OF False rec this(1) buf base "2.prems"(5) this(2)]
    then show ?thesis by (auto simp: n1 s)
  qed
qed

lemma push_window:
  assumes "unat a < 2 ^ 30" "unat n < 2 ^ 30" "w = (128 :: u32)"
  shows "i32_from (a - (n + w)) < 0 \<and> i32_from (a - n) \<ge> 0 \<longleftrightarrow> unat n \<le> unat a \<and> unat a < unat n + 128"
proof -
  have *: "unat (n + w) = unat n + 128"
    using assms by (subst unat_add_lem [THEN iffD1]) simp_all
  have "i32_from (a - (n + w)) = int (unat a) - int (unat (n + w))"
    using assms * by (intro i32_diff) simp_all
  moreover have "i32_from (a - n) = int (unat a) - int (unat n)"
    using assms by (intro i32_diff) simp_all
  moreover have "int x - int (y + 128) < 0 \<and> int x - int y \<ge> 0 \<longleftrightarrow> y \<le> x \<and> x < y + 128" for x y
    by auto
  ultimately show ?thesis by (metis *)
qed

definition put_seg :: "seg \<Rightarrow> seg list \<Rightarrow> seg list" where
  "put_seg s b = (if list_ex (\<lambda>x. sg_sn x = sg_sn s) b then b else insert_seg (s\<lparr>sg_resendts := 0\<rparr>) b)"

lemma put_seg_num: "num ` set (put_seg s b) = insert (num s) (num ` set b)"
proof (cases "list_ex (\<lambda>x. sg_sn x = sg_sn s) b")
  case True
  then have "num s \<in> num ` set b" by (auto simp: list_ex_iff) (metis imageI)
  then show ?thesis using True by (simp add: put_seg_def insert_absorb)
qed (simp add: put_seg_def insert_seg_set)

lemma put_seg_in: "x \<in> set (put_seg s b) \<Longrightarrow> x \<in> set b \<or> (sg_sn x = sg_sn s \<and> key x = key s)"
  by (auto simp: put_seg_def insert_seg_set key_def split: if_splits)

lemma put_seg_order:
  assumes "in_order b" "num s < 2 ^ 31" "\<forall>x \<in> set b. num x < 2 ^ 31"
  shows "in_order (put_seg s b)"
proof (cases "list_ex (\<lambda>x. sg_sn x = sg_sn s) b")
  case False
  then have "\<forall>x \<in> set b. num x \<noteq> num s"
    by (auto simp: list_ex_iff word_unat_eq_iff)
  then show ?thesis
    using False assms by (auto simp: put_seg_def intro!: insert_seg_order)
qed (use assms in \<open>simp add: put_seg_def\<close>)

lemma handle_push_in:
  assumes "i32_from (sg_sn s - (kc_rcv_nxt k + kc_rcv_wnd k)) < 0" "i32_from (sg_sn s - kc_rcv_nxt k) \<ge> 0"
    "move_ready (unat (kc_rcv_wnd k)) (kc_rcv_nxt k) (kc_rcv_queue k) (put_seg s (kc_rcv_buf k)) = (n', q', buf')"
  shows "handle_push s k = k\<lparr>kc_acklist := kc_acklist k @ [(sg_sn s, sg_ts s)], kc_rcv_nxt := n',
      kc_rcv_queue := q', kc_rcv_buf := buf'\<rparr>"
  using assms
  by (cases "list_ex (\<lambda>x. sg_sn x = sg_sn s) (kc_rcv_buf k)") (simp_all add: handle_push_def put_seg_def Let_def)

text \<open>The lemmas of the receiver speak of a datagram of the peer \<open>ky\<close>, which sends the stream \<open>T\<close>.\<close>

lemma push_receiver_in:
  assumes "receiver_ok T k" "length T < 2 ^ 30" "link_ok ky k" "sent_to ky \<le> unat (kc_snd_una ky) + 32"
    and "acks_ok k" "length (kc_rcv_queue k) \<le> 47"
    and "base @ map key (kc_rcv_queue k) = take (nxt k) T"
    and "fits T s" "num s < sent_to ky" "sent_to ky \<le> length T"
    and "nxt k \<le> num s" "num s < nxt k + 128"
  defines "k' \<equiv> handle_push s k"
  shows "receiver_ok T k' \<and> link_ok ky k' \<and> acks_ok k' \<and> later k k'
    \<and> base @ map key (kc_rcv_queue k') = take (nxt k') T"
proof -
  have r: "kc_rcv_wnd k = 128" "nxt k \<le> length T" "\<forall>x \<in> set (kc_rcv_buf k). fits T x \<and> nxt k < num x"
      "in_order (kc_rcv_buf k)"
    using assms(1) by (simp_all add: receiver_ok_def)
  have l: "unat (kc_snd_una ky) \<le> nxt k" "nxt k \<le> sent_to ky" "\<forall>x \<in> set (kc_rcv_buf k). num x < sent_to ky"
      "\<forall>i < sent_to ky. has k i \<or> i \<in> num ` set (kc_snd_buf ky)"
    using assms(3) by (simp_all add: link_ok_def)
  have s30: "num s < 2 ^ 30" using assms(9,10,2) by linarith
  have win: "i32_from (sg_sn s - (kc_rcv_nxt k + kc_rcv_wnd k)) < 0 \<and> i32_from (sg_sn s - kc_rcv_nxt k) \<ge> 0"
    using push_window [OF s30 _ r(1), of "kc_rcv_nxt k"] r(2) assms(2,11,12) by simp
  obtain n' q' buf' where mv:
    "move_ready (unat (kc_rcv_wnd k)) (kc_rcv_nxt k) (kc_rcv_queue k) (put_seg s (kc_rcv_buf k)) = (n', q', buf')"
    by (metis prod_cases3)
  note k' = handle_push_in [OF win [THEN conjunct1] win [THEN conjunct2] mv, folded k'_def]
  have bok: "\<forall>x \<in> set (put_seg s (kc_rcv_buf k)). fits T x \<and> nxt k \<le> num x \<and> num x < sent_to ky"
  proof
    fix x assume "x \<in> set (put_seg s (kc_rcv_buf k))"
    from put_seg_in [OF this] show "fits T x \<and> nxt k \<le> num x \<and> num x < sent_to ky"
    proof
      assume "x \<in> set (kc_rcv_buf k)"
      then show ?thesis using r(3) l(3) by (simp add: less_imp_le)
    next
      assume "sg_sn x = sg_sn s \<and> key x = key s"
      then show ?thesis using assms(8,9,11) by (simp add: fits_def)
    qed
  qed
  have bord: "in_order (put_seg s (kc_rcv_buf k))"
  proof (rule put_seg_order [OF r(4)])
    show "num s < 2 ^ 31" using s30 by simp
    show "\<forall>x \<in> set (kc_rcv_buf k). num x < 2 ^ 31"
      using l(3) assms(2,10) by fastforce
  qed
  note mm = move_ready_spec [OF mv bord bok assms(7) assms(2) l(2)]
  then have m: "base @ map key q' = take (unat n') T" "nxt k \<le> unat n'" "unat n' \<le> sent_to ky"
      "length q' = length (kc_rcv_queue k) + (unat n' - nxt k)" "in_order buf'"
    by blast+
  have m6: "\<forall>x \<in> set buf'. fits T x \<and> unat n' \<le> num x \<and> num x < sent_to ky"
    and m7: "\<forall>x \<in> set (put_seg s (kc_rcv_buf k)). x \<in> set buf' \<or> num x < unat n'"
    using mm by blast+
  have "unat n' - nxt k \<le> 32" using l(1) m(3) assms(4) by linarith
  then have "length q' < unat (kc_rcv_wnd k)" using m(4) assms(6) r(1) by simp
  then have strict: "\<forall>x \<in> set buf'. unat n' < num x" using mm by blast
  have has': "has k' i" if "has k i \<or> i = num s" for i
  proof (cases "i < unat n'")
    case False
    then have "i \<in> num ` set (put_seg s (kc_rcv_buf k))"
      using that m(2) unfolding has_def put_seg_num by auto
    then show ?thesis using m7 False by (auto simp: has_def k')
  qed (simp add: has_def k')
  have "receiver_ok T k'"
    using r(1) m(3,5) m6 strict assms(10) by (simp add: receiver_ok_def k')
  moreover have "unat (kc_snd_una ky) \<le> unat n'" using l(1) m(2) by linarith
  then have "link_ok ky k'"
    using l(4) m(3) m6 has' unfolding link_ok_def by (auto simp: k')
  moreover have "\<forall>(w, t) \<in> set (kc_acklist k). has k' (unat w)" "has k' (num s)"
    using assms(5) has' by (auto simp: acks_ok_def)
  then have "acks_ok k'"
    by (simp add: acks_ok_def) (simp add: k' has_def)
  moreover have "sent_to k \<le> sent_to k'" "nxt k \<le> nxt k'" using m(2) by (simp_all add: k')
  then have "later k k'"
    using has' by (simp add: later_def)
  moreover have "base @ map key (kc_rcv_queue k') = take (nxt k') T"
    using m(1) by (simp add: k')
  ultimately show ?thesis by blast
qed

lemma push_receiver:
  assumes "receiver_ok T k" "length T < 2 ^ 30" "link_ok ky k" "sent_to ky \<le> unat (kc_snd_una ky) + 32"
    and "acks_ok k" "length (kc_rcv_queue k) \<le> 47"
    and "base @ map key (kc_rcv_queue k) = take (nxt k) T"
    and "fits T s" "num s < sent_to ky" "sent_to ky \<le> length T"
  defines "k' \<equiv> handle_push s k"
  shows "receiver_ok T k' \<and> link_ok ky k' \<and> acks_ok k' \<and> later k k'
    \<and> base @ map key (kc_rcv_queue k') = take (nxt k') T"
proof (cases "nxt k \<le> num s \<and> num s < nxt k + 128")
  case True
  then show ?thesis using push_receiver_in [OF assms(1-10)] by (simp add: k'_def)
next
  case False
  have "num s < 2 ^ 30" "nxt k < 2 ^ 30" "kc_rcv_wnd k = 128"
    using assms(1,2,9,10) by (simp_all add: receiver_ok_def)
  from push_window [OF this] have "k' = k"
    using False by (auto simp: k'_def handle_push_def)
  then show ?thesis using assms(1,3,5,7) by simp
qed

section \<open>Acknowledgements\<close>

lemma bump_fastack_facts:
  "map sg_sn (bump_fastack w b) = map sg_sn b" "map key (bump_fastack w b) = map key b"
  "map sg_conv (bump_fastack w b) = map sg_conv b" "map sg_cmd (bump_fastack w b) = map sg_cmd b"
  by (induction b) (simp_all add: key_def)

lemma bump_fastack_in:
  "x \<in> set (bump_fastack w b) \<Longrightarrow> \<exists>y \<in> set b. sg_sn x = sg_sn y \<and> key x = key y \<and> sg_conv x = sg_conv y \<and> sg_cmd x = sg_cmd y"
  by (induction b) (auto simp: key_def split: if_splits)

lemma remove_sn_set: "set (remove_sn w b) \<subseteq> set b" "x \<in> set b \<Longrightarrow> sg_sn x \<noteq> w \<Longrightarrow> x \<in> set (remove_sn w b)"
  by (induction b) auto

lemma update_rtt_emits: "emits k (update_rtt r k) [] \<and> kc_acklist (update_rtt r k) = kc_acklist k"
  by (simp add: update_rtt_def emits_def Let_def)

lemma handle_push_other:
  "handle_push s (k\<lparr>kc_rmt_wnd := a, kc_snd_buf := b, kc_snd_una := u\<rparr>)
     = (handle_push s k)\<lparr>kc_rmt_wnd := a, kc_snd_buf := b, kc_snd_una := u\<rparr>"
  by (simp add: handle_push_def Let_def split_def)

lemma handle_push_other2:
  "handle_push s (k\<lparr>kc_rmt_wnd := a, kc_snd_buf := b\<rparr>)
     = (handle_push s k)\<lparr>kc_rmt_wnd := a, kc_snd_buf := b\<rparr>"
  by (simp add: handle_push_def Let_def split_def)

lemma handle_push_kept:
  "kc_snd_una (handle_push s k) = kc_snd_una k" "kc_snd_buf (handle_push s k) = kc_snd_buf k"
  "kc_conv (handle_push s k) = kc_conv k" "kc_mss (handle_push s k) = kc_mss k"
  "kc_snd_wnd (handle_push s k) = kc_snd_wnd k" "kc_snd_nxt (handle_push s k) = kc_snd_nxt k"
  "kc_snd_queue (handle_push s k) = kc_snd_queue k" "kc_out (handle_push s k) = kc_out k"
  by (simp_all add: handle_push_def Let_def split_def)

lemma handle_ack_facts:
  "kc_snd_buf (handle_ack s k) = bump_fastack (sg_sn s) (remove_sn (sg_sn s) (kc_snd_buf k))"
  "kc_conv (handle_ack s k) = kc_conv k" "kc_mss (handle_ack s k) = kc_mss k"
  "kc_snd_wnd (handle_ack s k) = kc_snd_wnd k" "kc_snd_nxt (handle_ack s k) = kc_snd_nxt k"
  "kc_snd_una (handle_ack s k) = kc_snd_una k"
  "kc_snd_queue (handle_ack s k) = kc_snd_queue k" "kc_out (handle_ack s k) = kc_out k"
  "kc_rcv_wnd (handle_ack s k) = kc_rcv_wnd k" "kc_rcv_nxt (handle_ack s k) = kc_rcv_nxt k"
  "kc_rcv_queue (handle_ack s k) = kc_rcv_queue k" "kc_rcv_buf (handle_ack s k) = kc_rcv_buf k"
  "kc_acklist (handle_ack s k) = kc_acklist k"
  using update_rtt_emits [of k "kc_current k - sg_ts s"] by (simp_all add: handle_ack_def Let_def emits_def)

text \<open>What \<open>handle_seg\<close> does to the sender's fields, and to the receiver's.\<close>

definition acked_buf :: "seg \<Rightarrow> seg list \<Rightarrow> seg list" where
  "acked_buf s b =
     (let b = filter (\<lambda>x. i32_from (sg_sn x - sg_una s) \<ge> 0) b
      in if sg_cmd s = CMD_ACK then bump_fastack (sg_sn s) (remove_sn (sg_sn s) b) else b)"

lemma handle_seg_base:
  defines "base \<equiv> \<lambda>k s. k\<lparr>kc_rmt_wnd := ucast (sg_wnd s),
        kc_snd_buf := filter (\<lambda>x. i32_from (sg_sn x - sg_una s) \<ge> 0) (kc_snd_buf k),
        kc_snd_una := (if i32_from (sg_una s - kc_snd_una k) > 0 then sg_una s else kc_snd_una k)\<rparr>"
  shows "handle_seg s k =
     (if sg_cmd s = CMD_ACK then handle_ack s (base k s)
      else if sg_cmd s = CMD_PUSH then handle_push s (base k s)
      else if sg_cmd s = CMD_WASK then (base k s)\<lparr>kc_probe := kc_probe k OR ASK_TELL\<rparr>
      else base k s)"
  by (simp add: handle_seg_def base_def Let_def)

lemma handle_seg_sender:
  "kc_conv (handle_seg s k) = kc_conv k" "kc_mss (handle_seg s k) = kc_mss k"
  "kc_snd_wnd (handle_seg s k) = kc_snd_wnd k" "kc_snd_nxt (handle_seg s k) = kc_snd_nxt k"
  "kc_snd_queue (handle_seg s k) = kc_snd_queue k" "kc_out (handle_seg s k) = kc_out k"
  "kc_snd_una (handle_seg s k) =
    (if i32_from (sg_una s - kc_snd_una k) > 0 then sg_una s else kc_snd_una k)"
  "kc_snd_buf (handle_seg s k) = acked_buf s (kc_snd_buf k)"
  unfolding handle_seg_base
  by (simp_all add: handle_ack_facts handle_push_other handle_push_other2 handle_push_kept acked_buf_def CMD_ACK_def CMD_PUSH_def)

definition received_by :: "seg \<Rightarrow> kcp \<Rightarrow> kcp" where
  "received_by s k = (if sg_cmd s = CMD_PUSH then handle_push s k else k)"

lemma handle_seg_receiver:
  "kc_rcv_wnd (handle_seg s k) = kc_rcv_wnd (received_by s k)"
  "kc_rcv_nxt (handle_seg s k) = kc_rcv_nxt (received_by s k)"
  "kc_rcv_queue (handle_seg s k) = kc_rcv_queue (received_by s k)"
  "kc_rcv_buf (handle_seg s k) = kc_rcv_buf (received_by s k)"
  "kc_acklist (handle_seg s k) = kc_acklist (received_by s k)"
  unfolding handle_seg_base
  by (simp_all add: handle_ack_facts handle_push_other handle_push_other2 received_by_def CMD_ACK_def CMD_PUSH_def)

lemma acked_buf_in:
  "x \<in> set (acked_buf s b) \<Longrightarrow> \<exists>y \<in> set b. sg_sn x = sg_sn y \<and> key x = key y \<and> sg_conv x = sg_conv y \<and> sg_cmd x = sg_cmd y"
proof -
  let ?b = "filter (\<lambda>x. i32_from (sg_sn x - sg_una s) \<ge> 0) b"
  assume x: "x \<in> set (acked_buf s b)"
  have "\<exists>y \<in> set ?b. sg_sn x = sg_sn y \<and> key x = key y \<and> sg_conv x = sg_conv y \<and> sg_cmd x = sg_cmd y"
  proof (cases "sg_cmd s = CMD_ACK")
    case True
    then have "x \<in> set (bump_fastack (sg_sn s) (remove_sn (sg_sn s) ?b))"
      using x by (simp add: acked_buf_def)
    from bump_fastack_in [OF this] show ?thesis using remove_sn_set(1) by blast
  qed (use x in \<open>auto simp: acked_buf_def\<close>)
  then show ?thesis by auto
qed

lemma acked_buf_keeps:
  assumes "y \<in> set b" "i32_from (sg_sn y - sg_una s) \<ge> 0" "sg_cmd s = CMD_ACK \<Longrightarrow> sg_sn y \<noteq> sg_sn s"
  shows "sg_sn y \<in> sg_sn ` set (acked_buf s b)"
proof -
  let ?b = "filter (\<lambda>x. i32_from (sg_sn x - sg_una s) \<ge> 0) b"
  have y: "y \<in> set ?b" using assms by simp
  show ?thesis
  proof (cases "sg_cmd s = CMD_ACK")
    case True
    have "sg_sn y \<in> sg_sn ` set (remove_sn (sg_sn s) ?b)"
      using remove_sn_set(2) [OF y assms(3) [OF True]] by simp
    moreover have "sg_sn ` set (bump_fastack w l) = sg_sn ` set l" for w l
      by (metis bump_fastack_facts(1) list.set_map)
    ultimately show ?thesis using True by (simp add: acked_buf_def)
  qed (use y in \<open>simp add: acked_buf_def\<close>)
qed

lemma ack_sender:
  assumes "sender_ok c S k" "link_ok k ky" "seg_ok c T ky s" "stream_ok S"
  shows "sender_ok c S (handle_seg s k)" "link_ok (handle_seg s k) ky"
    "sent_to (handle_seg s k) = sent_to k"
proof -
  have S30: "length S < 2 ^ 30" using assms(4) by (simp add: stream_ok_def)
  have k: "sent_to k \<le> length S" "unat (kc_snd_una k) \<le> sent_to k" "sent_to k \<le> unat (kc_snd_una k) + 32"
      "\<forall>x \<in> set (kc_snd_buf k). fits S x \<and> num x < sent_to k \<and> sg_conv x = c \<and> sg_cmd x = CMD_PUSH"
    using assms(1) by (simp_all add: sender_ok_def)
  have l: "unat (kc_snd_una k) \<le> nxt ky" "nxt ky \<le> sent_to k"
      "\<forall>x \<in> set (kc_rcv_buf ky). num x < sent_to k"
      "\<forall>i < sent_to k. has ky i \<or> i \<in> num ` set (kc_snd_buf k)"
    using assms(2) by (simp_all add: link_ok_def)
  have una: "unat (sg_una s) \<le> nxt ky" and ack: "sg_cmd s = CMD_ACK \<Longrightarrow> has ky (num s)"
    using assms(3) by (simp_all add: seg_ok_def)
  have una30: "unat (sg_una s) < 2 ^ 31" "unat (kc_snd_una k) < 2 ^ 31"
  proof -
    have "length S < 2 ^ 31" using S30 by simp
    then show "unat (sg_una s) < 2 ^ 31" "unat (kc_snd_una k) < 2 ^ 31"
      using una l(2) k(1,2) by linarith+
  qed
  let ?u = "if i32_from (sg_una s - kc_snd_una k) > 0 then sg_una s else kc_snd_una k"
  have u: "unat (kc_snd_una k) \<le> unat ?u" "unat ?u \<le> nxt ky"
    using una l(1) i32_diff [OF una30] by (simp_all add: word_le_nat_alt [symmetric] word_le_def)
  have buf: "\<forall>x \<in> set (acked_buf s (kc_snd_buf k)). fits S x \<and> num x < sent_to k \<and> sg_conv x = c \<and> sg_cmd x = CMD_PUSH"
  proof
    fix x assume "x \<in> set (acked_buf s (kc_snd_buf k))"
    then obtain y where "y \<in> set (kc_snd_buf k)" "sg_sn x = sg_sn y" "key x = key y" "sg_conv x = sg_conv y" "sg_cmd x = sg_cmd y"
      using acked_buf_in by blast
    then show "fits S x \<and> num x < sent_to k \<and> sg_conv x = c \<and> sg_cmd x = CMD_PUSH"
      using k(4) by (simp add: fits_def)
  qed
  have keep: "has ky i \<or> i \<in> num ` set (acked_buf s (kc_snd_buf k))" if i0: "i < sent_to k" for i
  proof (rule ccontr)
    assume no: "\<not> ?thesis"
    then obtain y where y: "y \<in> set (kc_snd_buf k)" "num y = i"
      using l(4) i0 by blast
    have i: "nxt ky \<le> i" using no by (simp add: has_def)
    have "num y < 2 ^ 31" using y i0 k(1) S30 by simp
    then have "i32_from (sg_sn y - sg_una s) = int (num y) - int (unat (sg_una s))"
      by (rule i32_diff [OF _ una30(1)])
    then have "i32_from (sg_sn y - sg_una s) \<ge> 0"
      using una i y(2) by linarith
    moreover have "sg_sn y \<noteq> sg_sn s" if "sg_cmd s = CMD_ACK"
      using ack [OF that] no y(2) by auto
    ultimately have "sg_sn y \<in> sg_sn ` set (acked_buf s (kc_snd_buf k))"
      using y(1) by (intro acked_buf_keeps) blast+
    then show False using no y(2) by (metis (mono_tags, lifting) image_iff)
  qed
  show "sender_ok c S (handle_seg s k)"
    using assms(1) u l(2) k(3) buf by (auto simp: sender_ok_def handle_seg_sender)
  show "link_ok (handle_seg s k) ky"
    using u l keep by (simp add: link_ok_def handle_seg_sender)
  show "sent_to (handle_seg s k) = sent_to k" by (simp add: handle_seg_sender)
qed

end
