(* ===== verification/Kcp_Net.thy ===== *)
theory Kcp_Net
  imports Kcp_Ends
begin

text \<open>
  Two KCP streams and the datagrams between them. Each end is a \<open>KcpStream\<close> with its driving loop
  (\<open>Kcp_Drive\<close>); the network may lose, repeat, delay and reorder what an end has sent. The theorems
  state that messages arrive in order and exactly once, and that nothing an end counts as
  acknowledged is missing at the other.
\<close>

section \<open>The model\<close>

datatype side = End_A | End_B

fun other :: "side \<Rightarrow> side" where
  "other End_A = End_B"
| "other End_B = End_A"

lemma other_other [simp]: "other (other x) = x" by (cases x) simp_all
lemma other_neq [simp]: "other x \<noteq> x" "x \<noteq> other x" by (cases x; simp)+

text \<open>\<open>nt_sent\<close> are the messages given to the driver of an end, \<open>nt_got\<close> those it handed to its application,
  \<open>nt_wire\<close> the datagrams it ever sent.\<close>

record net =
  nt_drive :: "side \<Rightarrow> drive"
  nt_sent :: "side \<Rightarrow> bytes list"
  nt_got :: "side \<Rightarrow> bytes list"
  nt_wire :: "side \<Rightarrow> bytes list"

definition net_start :: "(side \<Rightarrow> socket_addr) \<Rightarrow> u32 \<Rightarrow> (side \<Rightarrow> nat) \<Rightarrow> net" where
  "net_start addr conv t0 =
     \<lparr>nt_drive = (\<lambda>x. drive_new (t0 x) [addr (other x)] conv None),
      nt_sent = (\<lambda>x. []), nt_got = (\<lambda>x. []), nt_wire = (\<lambda>x. [])\<rparr>"

text \<open>What happens at an end: the application writes, the timer ticks, the \<open>i\<close>-th datagram of the other
  end arrives (never, once or again).\<close>

datatype net_kind = Put bytes | Clock | Arrive nat

record net_event =
  ev_side :: side
  ev_pump1 :: nat
  ev_pump2 :: nat
  ev_now :: nat
  ev_kind :: net_kind

definition drive_event_of :: "(side \<Rightarrow> socket_addr) \<Rightarrow> net \<Rightarrow> side \<Rightarrow> net_kind \<Rightarrow> drive_event option" where
  "drive_event_of addr t x e =
     (case e of
        Put m \<Rightarrow> Some (App_Data m)
      | Clock \<Rightarrow> Some Tick
      | Arrive i \<Rightarrow> map_option (Packet (addr (other x))) (nth_opt (nt_wire t (other x)) i))"

definition net_step :: "(side \<Rightarrow> socket_addr) \<Rightarrow> net_event \<Rightarrow> net \<Rightarrow> net" where
  "net_step addr e t =
     (let x = ev_side e in
      case drive_event_of addr t x (ev_kind e) of
        None \<Rightarrow> t
      | Some de \<Rightarrow>
         (case drive_step (ev_pump1 e) (ev_pump2 e) (ev_now e) de (nt_drive t x) of (d, out, ms) \<Rightarrow>
           t\<lparr>nt_drive := (nt_drive t)(x := d),
             nt_wire := (nt_wire t)(x := nt_wire t x @ map snd out),
             nt_got := (nt_got t)(x := nt_got t x @ ms),
             nt_sent := (case ev_kind e of
                Put m \<Rightarrow> if dv_ended (nt_drive t x) then nt_sent t else (nt_sent t)(x := nt_sent t x @ [m])
              | _ \<Rightarrow> nt_sent t)\<rparr>))"

definition net_run :: "(side \<Rightarrow> socket_addr) \<Rightarrow> net_event list \<Rightarrow> net \<Rightarrow> net" where
  "net_run addr es t = fold (net_step addr) es t"

abbreviation end_kcp :: "net \<Rightarrow> side \<Rightarrow> kcp" where
  "end_kcp t x \<equiv> dv_kcp (nt_drive t x)"

section \<open>One end\<close>

definition good :: "u32 \<Rightarrow> (u8 \<times> bytes) list \<Rightarrow> kcp \<Rightarrow> kcp \<Rightarrow> bytes list \<Rightarrow> bytes list \<Rightarrow> bool" where
  "good c S k ky sent got \<longleftrightarrow>
     ready c S k \<and> receiver_ok (stream sent) k \<and> link_ok k ky \<and> link_ok ky k \<and> queue_ok sent got k"

lemma good_steps:
  assumes "good c S k ky sent got" "steps c S k k'"
  shows "good c S k' ky sent got" "later k k'"
proof -
  have s: "sent_to k \<le> sent_to k'"
      "num ` set (kc_snd_buf k) \<union> {sent_to k ..< sent_to k'} \<subseteq> num ` set (kc_snd_buf k')"
      "kc_snd_una k' = kc_snd_una k" "kc_rcv_wnd k' = kc_rcv_wnd k" "kc_rcv_nxt k' = kc_rcv_nxt k"
      "kc_rcv_queue k' = kc_rcv_queue k" "kc_rcv_buf k' = kc_rcv_buf k"
    using assms(2) by (simp_all only: steps_def)
  have l: "link_ok k ky" "link_ok ky k" "receiver_ok (stream sent) k" "queue_ok sent got k"
    using assms(1) by (simp_all only: good_def)
  have "has ky i \<or> i \<in> num ` set (kc_snd_buf k')" if "i < sent_to k'" for i
  proof (cases "i < sent_to k")
    case True
    then have "has ky i \<or> i \<in> num ` set (kc_snd_buf k)" using l(1) by (simp only: link_ok_def)
    then show ?thesis using s(2) by blast
  next
    case False
    then have "i \<in> {sent_to k ..< sent_to k'}" using that by simp
    then show ?thesis using s(2) by blast
  qed
  then have "link_ok k' ky"
    using l(1) s(1,3) unfolding link_ok_def by (metis (no_types, lifting) order_less_le_trans order_trans)
  moreover have "link_ok ky k'" "receiver_ok (stream sent) k'" "queue_ok sent got k'"
    using l(2-4) s(4-7) by (simp_all add: link_ok_def receiver_ok_def queue_ok_def has_def)
  ultimately show "good c S k' ky sent got"
    using steps_ready [OF assms(2)] by (simp add: good_def)
  show "later k k'" by (rule stepsD(4) [OF assms(2)])
qed

lemma good_pump:
  fixes n m :: nat
  assumes "good c S k ky sent got"
  defines "k' \<equiv> k\<lparr>kc_out := drop n (kc_out k)\<rparr>"
  shows "good c S k' ky sent got" "later k k'" "\<forall>d \<in> set (take m (kc_out k)). dgram_ok c S k d"
proof -
  have r: "ready c S k" using assms by (simp add: good_def)
  show lt: "later k k'" by (simp add: k'_def later_def has_def)
  have "\<forall>d \<in> set (kc_out k'). dgram_ok c S k' d"
    using r lt by (auto simp: ready_def k'_def dest: in_set_dropD intro: dgram_ok_later0)
  moreover have "sender_ok c S k'" "acks_ok k'"
    using r by (simp_all add: ready_def k'_def sender_ok_def acks_ok_def has_def)
  ultimately have "ready c S k'" by (simp add: ready_def)
  moreover have "receiver_ok (stream sent) k'" "link_ok k' ky" "link_ok ky k'" "queue_ok sent got k'"
    using assms(1) by (simp_all add: good_def receiver_ok_def link_ok_def queue_ok_def has_def k'_def)
  ultimately show "good c S k' ky sent got" by (simp add: good_def)
  show "\<forall>d \<in> set (take m (kc_out k)). dgram_ok c S k d"
    using r by (auto simp: ready_def dest: in_set_takeD)
qed

lemma good_send:
  fixes m :: bytes
  assumes "good c S k ky sent got"
  defines "k' \<equiv> k\<lparr>kc_snd_queue := kc_snd_queue k @ fragments (kc_mss k) m\<rparr>"
  shows "good c (S @ frags m) k' ky sent got" "later k k'"
proof -
  have r: "ready c S k" using assms by (simp add: good_def)
  show lt: "later k k'" by (simp add: k'_def later_def has_def)
  have "\<forall>d \<in> set (kc_out k'). dgram_ok c (S @ frags m) k' d"
    using r dgram_ok_later [OF _ lt] by (simp add: ready_def k'_def)
  moreover have "sender_ok c (S @ frags m) k'" "acks_ok k'"
    using r sender_send [of c S k m] by (simp_all add: ready_def k'_def acks_ok_def has_def)
  ultimately have "ready c (S @ frags m) k'" by (simp add: ready_def)
  moreover have "receiver_ok (stream sent) k'" "link_ok k' ky" "link_ok ky k'" "queue_ok sent got k'"
    using assms(1) by (simp_all add: good_def receiver_ok_def link_ok_def queue_ok_def has_def k'_def)
  ultimately show "good c (S @ frags m) k' ky sent got" by (simp add: good_def)
qed

lemma good_input:
  assumes "good c S k ky sent got" "seg_ok c (stream sent) ky s" "length (kc_rcv_queue k) \<le> 47"
    and "stream_ok S" "stream_ok (stream sent)" "sender_ok c (stream sent) ky"
  defines "k' \<equiv> handle_seg s k"
  shows "good c S k' ky sent got" "later k k'"
proof -
  let ?p = "received_by s k"
  have g: "ready c S k" "receiver_ok (stream sent) k" "link_ok k ky" "link_ok ky k" "prefix got sent"
      "stream got @ map key (kc_rcv_queue k) = take (nxt k) (stream sent)"
    using assms(1) by (simp_all add: good_def queue_ok_def)
  have ry: "sender_ok c S k" "acks_ok k" "\<forall>d \<in> set (kc_out k). dgram_ok c S k d"
    using g(1) by (simp_all add: ready_def)
  have y: "sent_to ky \<le> length (stream sent)" "sent_to ky \<le> unat (kc_snd_una ky) + 32"
    using assms(6) by (simp_all add: sender_ok_def)
  have len: "length (stream sent) < 2 ^ 30" using assms(5) by (simp add: stream_ok_def)
  note a = ack_sender [OF ry(1) g(3) assms(2,4), folded k'_def]
  have p: "receiver_ok (stream sent) ?p \<and> link_ok ky ?p \<and> acks_ok ?p \<and> later k ?p
      \<and> stream got @ map key (kc_rcv_queue ?p) = take (nxt ?p) (stream sent)"
  proof (cases "sg_cmd s = CMD_PUSH")
    case True
    then have "fits (stream sent) s" "num s < sent_to ky" using assms(2) by (simp_all add: seg_ok_def)
    from push_receiver [OF g(2) len g(4) y(2) ry(2) assms(3) g(6) this y(1)] show ?thesis
      using True by (simp add: received_by_def)
  qed (use g ry in \<open>simp add: received_by_def\<close>)
  note rcv = handle_seg_receiver [of s k, folded k'_def]
  have "receiver_ok (stream sent) k'" "link_ok ky k'" "acks_ok k'" "queue_ok sent got k'"
    using p g(5) by (simp_all add: receiver_ok_def link_ok_def acks_ok_def queue_ok_def has_def rcv)
  moreover show lt: "later k k'"
    using p a(3) by (simp add: later_def has_def rcv)
  moreover have "\<forall>d \<in> set (kc_out k'). dgram_ok c S k' d"
    using ry(3) lt by (auto simp: k'_def handle_seg_sender intro: dgram_ok_later0)
  ultimately show "good c S k' ky sent got"
    using a(1,2) by (simp add: good_def ready_def)
qed

lemma good_recv:
  assumes "good c S k ky sent got" "list_all fit_msg sent" "recv_all k = (k', ms)"
  shows "good c S k' ky sent (got @ ms)" "later k k'" "length (kc_rcv_queue k') \<le> 47"
    "first_msg (map key (kc_rcv_queue k')) = None"
proof -
  have g: "prefix got sent" "stream got @ map key (kc_rcv_queue k) = take (nxt k) (stream sent)"
      "nxt k \<le> length (stream sent)"
    using assms(1) by (simp_all add: good_def queue_ok_def receiver_ok_def)
  obtain rest where rest: "sent = got @ rest" using g(1) by (auto simp: prefix_def)
  have "length (stream got) \<le> nxt k"
    using arg_cong [OF g(2), of length] g(3) by simp
  then have "map key (kc_rcv_queue k) = take (nxt k - length (stream got)) (stream rest)"
    using g(2) by (simp add: rest)
  moreover have "list_all fit_msg rest" using assms(2) by (simp add: rest)
  ultimately obtain q out rest' where r: "recv_all k = (k\<lparr>kc_rcv_queue := q\<rparr>, out)" "rest = out @ rest'"
      "map key (kc_rcv_queue k) = stream out @ map key q" "length q \<le> 47" "first_msg (map key q) = None"
    using recv_all_stream by blast
  then have k': "k' = k\<lparr>kc_rcv_queue := q\<rparr>" "ms = out" using assms(3) by simp_all
  show lt: "later k k'" by (simp add: k' later_def has_def)
  have "queue_ok sent (got @ ms) k'"
    using g(2) r(2,3) rest by (simp add: queue_ok_def k')
  moreover have "ready c S k'" "receiver_ok (stream sent) k'" "link_ok k' ky" "link_ok ky k'"
  proof -
    have "\<forall>d \<in> set (kc_out k'). dgram_ok c S k' d"
      using assms(1) lt by (auto simp: good_def ready_def k' intro: dgram_ok_later0)
    then show "ready c S k'" "receiver_ok (stream sent) k'" "link_ok k' ky" "link_ok ky k'"
      using assms(1) by (simp_all add: good_def ready_def sender_ok_def acks_ok_def receiver_ok_def link_ok_def has_def k')
  qed
  ultimately show "good c S k' ky sent (got @ ms)" by (simp add: good_def)
  show "length (kc_rcv_queue k') \<le> 47" "first_msg (map key (kc_rcv_queue k')) = None" using r by (simp_all add: k')
qed


section \<open>One round of the loop\<close>

definition drained :: "kcp \<Rightarrow> bool" where
  "drained k \<longleftrightarrow> length (kc_rcv_queue k) \<le> 47 \<and> first_msg (map key (kc_rcv_queue k)) = None"

lemma drained_cong: "kc_rcv_queue k' = kc_rcv_queue k \<Longrightarrow> drained k \<Longrightarrow> drained k'"
  by (simp add: drained_def)

lemma kcp_input_one:
  assumes "dgram_ok c T ky data" "kc_conv k = c"
  obtains s where "kcp_input data k = (handle_seg s k, Inr ())" "seg_ok c T ky s"
proof -
  obtain s where s: "data = seg_encode s" "seg_ok c T ky s"
    using assms(1) by (auto simp: dgram_ok_def)
  then have "decode_segs data = Inr [wire_seg s]"
    by (simp add: decode_segs_one seg_ok_def)
  moreover have "seg_ok c T ky (wire_seg s)"
    using s(2) by (simp add: seg_ok_def fits_def key_def)
  ultimately show ?thesis
    using that [of "wire_seg s"] assms(2) s(2) by (simp add: kcp_input_def seg_ok_def)
qed

text \<open>What an event adds to the stream of its end.\<close>

definition grown :: "(u8 \<times> bytes) list \<Rightarrow> drive_event \<Rightarrow> (u8 \<times> bytes) list" where
  "grown S e = (case e of App_Data m \<Rightarrow> S @ frags m | _ \<Rightarrow> S)"

definition event_ok :: "u32 \<Rightarrow> (u8 \<times> bytes) list \<Rightarrow> kcp \<Rightarrow> socket_addr \<Rightarrow> drive_event \<Rightarrow> bool" where
  "event_ok c T ky a e =
     (case e of App_Data m \<Rightarrow> fit_msg m | Packet from data \<Rightarrow> from = a \<and> dgram_ok c T ky data | _ \<Rightarrow> True)"

definition aims :: "socket_addr \<Rightarrow> drive \<Rightarrow> bool" where
  "aims a d \<longleftrightarrow> dv_cands d = [a] \<and> dv_peer d = a"

lemma fit_msg_send:
  assumes "fit_msg m" "kc_mss k = 1376"
  shows "kcp_send m k = (k\<lparr>kc_snd_queue := kc_snd_queue k @ fragments (kc_mss k) m\<rparr>, length m)"
  using assms fit_msg_frags(2) [OF assms(1)]
  by (simp add: kcp_send_def Let_def fit_msg_def frags_length)

lemma switch_one: "length (dv_cands d) = 1 \<Longrightarrow> switch_candidate now d = d"
  by (simp add: switch_candidate_def)

lemma accept_one:
  assumes "aims a d"
  obtains d' where "accept_source a d = Some d'" "dv_kcp d' = dv_kcp d" "aims a d'" "dv_start d' = dv_start d"
  using assms that by (cases "dv_locked d") (simp_all add: accept_source_def aims_def)

lemma branch_good:
  assumes "good c S (dv_kcp d) ky sent got" "drained (dv_kcp d)" "event_ok c (stream sent) ky a e" "aims a d"
    and "stream_ok (grown S e)" "stream_ok S" "stream_ok (stream sent)" "sender_ok c (stream sent) ky" "list_all fit_msg sent"
    and b: "drive_branch now e d = (d', ms, go)"
  shows "good c (grown S e) (dv_kcp d') ky sent (got @ ms) \<and> later (dv_kcp d) (dv_kcp d')
    \<and> drained (dv_kcp d') \<and> aims a d'"
proof (cases e)
  case (App_Data m)
  have m: "fit_msg m" using assms(3) App_Data by (simp add: event_ok_def)
  have "kc_mss (dv_kcp d) = 1376" using assms(1) by (simp add: good_def ready_def sender_ok_def)
  note s = fit_msg_send [OF m this]
  have "d' = d\<lparr>dv_kcp := (dv_kcp d)\<lparr>kc_snd_queue := kc_snd_queue (dv_kcp d) @ fragments (kc_mss (dv_kcp d)) m\<rparr>\<rparr>" "ms = []"
    using b App_Data s by (simp_all add: drive_branch_def)
  then show ?thesis
    using good_send [OF assms(1), where m = m] assms(2,4) App_Data by (simp add: grown_def drained_def aims_def)
next
  case (Packet src data)
  then have src: "src = a" and data: "dgram_ok c (stream sent) ky data"
    using assms(3) by (simp_all add: event_ok_def)
  obtain d1 where d1: "accept_source a d = Some d1" "dv_kcp d1 = dv_kcp d" "aims a d1" "dv_start d1 = dv_start d"
    using accept_one [OF assms(4)] by blast
  have conv: "kc_conv (dv_kcp d) = c" using assms(1) by (simp add: good_def ready_def sender_ok_def)
  obtain s where s: "kcp_input data (dv_kcp d) = (handle_seg s (dv_kcp d), Inr ())" "seg_ok c (stream sent) ky s"
    using kcp_input_one [OF data conv] by blast
  have len: "length (kc_rcv_queue (dv_kcp d)) \<le> 47" using assms(2) by (simp add: drained_def)
  note g1 = good_input [OF assms(1) s(2) len assms(6,7,8)]
  obtain k2 ms2 where r: "recv_all (handle_seg s (dv_kcp d)) = (k2, ms2)" by fastforce
  note g2 = good_recv [OF g1(1) assms(9) r]
  have "d' = d1\<lparr>dv_kcp := k2\<rparr>" "ms = ms2"
    using b Packet src d1 s r by (simp_all add: drive_branch_def)
  then show ?thesis
    using g1 g2 d1(3) Packet by (auto simp: grown_def drained_def aims_def later_def)
next
  case Tick
  let ?k = "kcp_update (ms_since (dv_start d) now) (dv_kcp d)"
  have r: "ready c S (dv_kcp d)" using assms(1) by (simp add: good_def)
  note st = update_steps [OF r assms(6), of "ms_since (dv_start d) now"]
  have "dv_kcp d' = ?k" "ms = []" "aims a d'"
    using b Tick assms(4) by (auto simp: drive_branch_def Let_def aims_def switch_one split: if_splits)
  moreover have "drained ?k"
    using st assms(2) by (intro drained_cong [OF _ assms(2)]) (simp add: steps_def)
  ultimately show ?thesis
    using good_steps [OF assms(1) st] Tick by (simp add: grown_def)
next
  case Reader_Gone
  then show ?thesis
    using b assms by (auto simp: drive_branch_def grown_def aims_def)
qed

lemma later_trans: "later k k' \<Longrightarrow> later k' k'' \<Longrightarrow> later k k''"
  by (simp add: later_def)

lemma pump_facts:
  assumes "pump n d = (d', out)" "good c S (dv_kcp d) ky sent got"
  shows "good c S (dv_kcp d') ky sent got" "later (dv_kcp d) (dv_kcp d')" "drained (dv_kcp d) \<Longrightarrow> drained (dv_kcp d')"
    "aims a d \<Longrightarrow> aims a d'" "dv_start d' = dv_start d" "\<forall>p \<in> set out. dgram_ok c S (dv_kcp d') (snd p)"
proof -
  have d': "d' = d\<lparr>dv_kcp := (dv_kcp d)\<lparr>kc_out := drop (Suc n) (kc_out (dv_kcp d))\<rparr>\<rparr>"
    and out: "out = map (Pair (dv_peer d)) (take n (kc_out (dv_kcp d)))"
    using assms(1) by (auto simp: pump_def)
  note g = good_pump(1,2) [OF assms(2), where n = "Suc n"] good_pump(3) [OF assms(2), where m = n]
  show "good c S (dv_kcp d') ky sent got" "later (dv_kcp d) (dv_kcp d')" using g(1,2) by (simp_all add: d')
  show "drained (dv_kcp d) \<Longrightarrow> drained (dv_kcp d')" by (simp add: d' drained_def)
  show "aims a d \<Longrightarrow> aims a d'" "dv_start d' = dv_start d" by (simp_all add: d' aims_def)
  show "\<forall>p \<in> set out. dgram_ok c S (dv_kcp d') (snd p)"
    using g(2,3) dgram_ok_later0 by (auto simp: out d')
qed

lemma grown_later: "dgram_ok c S k d \<Longrightarrow> later k k' \<Longrightarrow> dgram_ok c (grown S e) k' d"
  by (cases e) (auto simp: grown_def intro: dgram_ok_later dgram_ok_later0)

lemma drive_step_good:
  assumes "good c S (dv_kcp d) ky sent got" "drained (dv_kcp d)" "event_ok c (stream sent) ky a e" "aims a d"
    and "stream_ok (grown S e)" "stream_ok S" "stream_ok (stream sent)" "sender_ok c (stream sent) ky" "list_all fit_msg sent"
    and "\<not> dv_ended d"
    and st: "drive_step n1 n2 now e d = (d', out, ms)"
  shows "good c (grown S e) (dv_kcp d') ky sent (got @ ms) \<and> later (dv_kcp d) (dv_kcp d')
    \<and> drained (dv_kcp d') \<and> aims a d' \<and> (\<forall>p \<in> set out. dgram_ok c (grown S e) (dv_kcp d') (snd p))"
proof -
  obtain d1 out1 where p1: "pump n1 d = (d1, out1)" by fastforce
  note f1 = pump_facts [OF p1 assms(1)]
  obtain d2 ms1 go where b: "drive_branch now e d1 = (d2, ms1, go)" by (metis prod_cases3)
  note f2 = branch_good [OF f1(1) f1(3) [OF assms(2)] assms(3) f1(4) [OF assms(4)] assms(5-9) b]
  have o1: "\<forall>p \<in> set out1. dgram_ok c (grown S e) (dv_kcp d2) (snd p)"
    using f1(6) f2 by (auto intro: grown_later)
  show ?thesis
  proof (cases go)
    case False
    then have "d' = d2" "out = out1" "ms = ms1"
      using st assms(10) p1 b by (simp_all add: drive_step_def)
    then show ?thesis using f1(2) f2 o1 by (auto intro: later_trans)
  next
    case True
    let ?S = "grown S e"
    define d3 where "d3 = d2\<lparr>dv_kcp := kcp_update (ms_since (dv_start d2) now) (dv_kcp d2)\<rparr>"
    obtain d4 out2 where p2: "pump n2 d3 = (d4, out2)" by fastforce
    obtain k5 ms2 where r: "recv_all (dv_kcp d4) = (k5, ms2)" by fastforce
    have res: "d' = d4\<lparr>dv_kcp := k5\<rparr>" "out = out1 @ out2" "ms = ms1 @ ms2"
      using st assms(10) p1 b True p2 r by (simp_all add: drive_step_def d3_def Let_def)
    have g2: "good c ?S (dv_kcp d2) ky sent (got @ ms1)" "aims a d2" using f2 by simp_all
    then have "ready c ?S (dv_kcp d2)" by (simp add: good_def)
    note f3 = good_steps [OF g2(1) update_steps [OF this assms(5)]]
    have g3: "good c ?S (dv_kcp d3) ky sent (got @ ms1)" "later (dv_kcp d2) (dv_kcp d3)" "aims a d3"
      using f3 g2(2) by (simp_all add: d3_def aims_def)
    note f4 = pump_facts [OF p2 g3(1)]
    note f5 = good_recv [OF f4(1) assms(9) r]
    have l: "later (dv_kcp d2) k5" using g3(2) f4(2) f5(2) by (blast intro: later_trans)
    then have "later (dv_kcp d) k5" using f1(2) f2 by (blast intro: later_trans)
    moreover have "aims a d'" using f4(4) [OF g3(3)] by (simp add: res aims_def)
    moreover have "\<forall>p \<in> set out. dgram_ok c ?S (dv_kcp d') (snd p)"
      using o1 l f4(6) f5(2) by (auto simp: res intro: dgram_ok_later0)
    ultimately show ?thesis
      using f5 by (simp add: res drained_def)
  qed
qed

section \<open>The invariant of the net\<close>

definition net_ok :: "(side \<Rightarrow> socket_addr) \<Rightarrow> u32 \<Rightarrow> net \<Rightarrow> bool" where
  "net_ok addr c t \<longleftrightarrow> (\<forall>x.
     good c (stream (nt_sent t x)) (end_kcp t x) (end_kcp t (other x)) (nt_sent t (other x)) (nt_got t x)
     \<and> drained (end_kcp t x) \<and> aims (addr (other x)) (nt_drive t x)
     \<and> (\<forall>d \<in> set (nt_wire t x). dgram_ok c (stream (nt_sent t x)) (end_kcp t x) d)
     \<and> list_all fit_msg (nt_sent t x))"


lemma side_cases: "z = x \<or> z = other x"
  by (cases x; cases z; simp)

lemma stream_data: "f \<in> set (stream ms) \<Longrightarrow> length (snd f) \<le> 1376"
proof -
  assume "f \<in> set (stream ms)"
  then obtain m where "f \<in> set (frags m)" by (auto simp: stream_def)
  then have "snd f \<in> set (map snd (frags m))" by simp
  also have "map snd (frags m) = chunks_of 1376 m"
    by (simp add: frags_def map_key_fragments split_def o_def)
  finally show ?thesis using chunks_of_bound by blast
qed

definition short :: "bytes list \<Rightarrow> bool" where
  "short ms \<longleftrightarrow> length (stream ms) < 2 ^ 30"

lemma short_stream_ok: "short ms \<Longrightarrow> stream_ok (stream ms)"
  using stream_data by (auto simp: stream_ok_def short_def)

lemma nth_opt_in: "nth_opt xs i = Some y \<Longrightarrow> y \<in> set xs"
  by (auto simp: nth_opt_def split: if_splits)

lemma good_peer:
  assumes "good c T ky kx sent got" "link_ok ky kx'" "link_ok kx' ky"
  shows "good c T ky kx' (sent @ ms) got"
proof -
  have g: "ready c T ky" "receiver_ok (stream sent) ky" "queue_ok sent got ky"
    using assms(1) by (simp_all add: good_def)
  then have "receiver_ok (stream (sent @ ms)) ky"
    by (auto simp: receiver_ok_def fits_append)
  moreover have "queue_ok (sent @ ms) got ky"
    using g by (auto simp: queue_ok_def receiver_ok_def)
  ultimately show ?thesis using g(1) assms(2,3) by (simp add: good_def)
qed

definition put_by :: "net_event \<Rightarrow> bytes list" where
  "put_by e = (case ev_kind e of Put m \<Rightarrow> [m] | _ \<Rightarrow> [])"

lemma net_step_idle:
  assumes "dv_ended (nt_drive t (ev_side e))"
  shows "net_step addr e t = t"
  using assms by (auto simp: net_step_def Let_def drive_step_def split: option.split net_kind.split)

lemma net_step_live:
  assumes "\<not> dv_ended (nt_drive t (ev_side e))" "drive_event_of addr t (ev_side e) (ev_kind e) = Some de"
    "drive_step (ev_pump1 e) (ev_pump2 e) (ev_now e) de (nt_drive t (ev_side e)) = (d, out, ms)"
  shows "net_step addr e t =
    t\<lparr>nt_drive := (nt_drive t)(ev_side e := d),
      nt_wire := (nt_wire t)(ev_side e := nt_wire t (ev_side e) @ map snd out),
      nt_got := (nt_got t)(ev_side e := nt_got t (ev_side e) @ ms),
      nt_sent := (nt_sent t)(ev_side e := nt_sent t (ev_side e) @ put_by e)\<rparr>"
  using assms by (simp add: net_step_def Let_def put_by_def split: net_kind.split)

lemma net_step_ok:
  assumes ok: "net_ok addr c t" and put: "list_all fit_msg (put_by e)"
    and sh: "\<forall>x. short (nt_sent t x)" "\<forall>x. short (nt_sent (net_step addr e t) x)"
  shows "net_ok addr c (net_step addr e t)"
proof (cases "dv_ended (nt_drive t (ev_side e)) \<or> drive_event_of addr t (ev_side e) (ev_kind e) = None")
  case True
  then have "net_step addr e t = t"
    using net_step_idle by (auto simp: net_step_def)
  then show ?thesis using ok by simp
next
  case False
  define x where "x = ev_side e"
  define y where "y = other x"
  obtain de where de: "drive_event_of addr t x (ev_kind e) = Some de" using False by (auto simp: x_def)
  obtain d out ms where st: "drive_step (ev_pump1 e) (ev_pump2 e) (ev_now e) de (nt_drive t x) = (d, out, ms)"
    by (metis prod_cases3)
  have live: "\<not> dv_ended (nt_drive t x)" using False by (simp add: x_def)
  note t' = net_step_live [OF live [unfolded x_def] de [unfolded x_def] st [unfolded x_def], folded x_def]
  have X: "good c (stream (nt_sent t x)) (end_kcp t x) (end_kcp t y) (nt_sent t y) (nt_got t x)"
      "drained (end_kcp t x)" "aims (addr y) (nt_drive t x)"
      "\<forall>d \<in> set (nt_wire t x). dgram_ok c (stream (nt_sent t x)) (end_kcp t x) d" "list_all fit_msg (nt_sent t x)"
    and Y: "good c (stream (nt_sent t y)) (end_kcp t y) (end_kcp t x) (nt_sent t x) (nt_got t y)"
      "drained (end_kcp t y)" "aims (addr x) (nt_drive t y)"
      "\<forall>d \<in> set (nt_wire t y). dgram_ok c (stream (nt_sent t y)) (end_kcp t y) d" "list_all fit_msg (nt_sent t y)"
    using ok [unfolded net_ok_def, THEN spec, of x] ok [unfolded net_ok_def, THEN spec, of y]
    by (simp_all add: y_def)
  have ev: "event_ok c (stream (nt_sent t y)) (end_kcp t y) (addr y) de"
    and gr: "grown (stream (nt_sent t x)) de = stream (nt_sent t x @ put_by e)"
    using de put Y(4) by (auto simp: drive_event_of_def event_ok_def grown_def put_by_def y_def dest!: nth_opt_in
        split: net_kind.splits option.splits)
  have so: "stream_ok (grown (stream (nt_sent t x)) de)"
    using sh(2) [THEN spec, of x] short_stream_ok [of "nt_sent t x @ put_by e"] unfolding gr t' by simp
  have "sender_ok c (stream (nt_sent t y)) (end_kcp t y)" using Y(1) by (simp add: good_def ready_def)
  note g = drive_step_good [OF X(1,2) ev X(3) so short_stream_ok short_stream_ok this Y(5) live st,
      OF sh(1) [THEN spec] sh(1) [THEN spec], unfolded gr]
  have gx: "good c (stream (nt_sent t x @ put_by e)) (dv_kcp d) (end_kcp t y) (nt_sent t y) (nt_got t x @ ms)"
      "later (end_kcp t x) (dv_kcp d)" "drained (dv_kcp d)" "aims (addr y) d"
      "\<forall>p \<in> set out. dgram_ok c (stream (nt_sent t x @ put_by e)) (dv_kcp d) (snd p)"
    using g by blast+
  have gy: "good c (stream (nt_sent t y)) (end_kcp t y) (dv_kcp d) (nt_sent t x @ put_by e) (nt_got t y)"
    using gx(1) by (intro good_peer [OF Y(1)]) (simp_all add: good_def)
  have wx: "\<forall>w \<in> set (nt_wire t x @ map snd out). dgram_ok c (stream (nt_sent t x @ put_by e)) (dv_kcp d) w"
    using gx(5) X(4) dgram_ok_later [OF _ gx(2)] by auto
  have neq: "y \<noteq> x" "x \<noteq> y" "other x = y" "other y = x" by (simp_all add: y_def)
  show ?thesis
    unfolding net_ok_def
  proof
    fix z
    from side_cases [of z x] consider "z = x" | "z = y" by (auto simp: y_def)
    then show "good c (stream (nt_sent (net_step addr e t) z)) (end_kcp (net_step addr e t) z)
        (end_kcp (net_step addr e t) (other z)) (nt_sent (net_step addr e t) (other z)) (nt_got (net_step addr e t) z)
     \<and> drained (end_kcp (net_step addr e t) z) \<and> aims (addr (other z)) (nt_drive (net_step addr e t) z)
     \<and> (\<forall>d \<in> set (nt_wire (net_step addr e t) z).
          dgram_ok c (stream (nt_sent (net_step addr e t) z)) (end_kcp (net_step addr e t) z) d)
     \<and> list_all fit_msg (nt_sent (net_step addr e t) z)"
    proof cases
      case 1
      then show ?thesis using gx wx X(5) put by (simp add: t' neq)
    next
      case 2
      then show ?thesis using gy Y by (simp add: t' neq)
    qed
  qed
qed


lemma net_ok_start: "net_ok addr c (net_start addr c t0)"
proof -
  have "good c [] k k' [] []"
    if "k = set_nodelay True KCP_INTERVAL FASTACK_LIMIT (kcp_new c MTU_DEF)" "k' = k" for k k'
    using that
    by (simp add: good_def ready_def sender_ok_def acks_ok_def receiver_ok_def link_ok_def queue_ok_def has_def
        set_nodelay_def kcp_new_def Let_def KCP_INTERVAL_def MTU_DEF_def KCP_HEADER_def WND_SND_def WND_RCV_def)
  moreover have "drained (set_nodelay True KCP_INTERVAL FASTACK_LIMIT (kcp_new c MTU_DEF))"
    by (simp add: drained_def set_nodelay_def kcp_new_def Let_def)
  ultimately show ?thesis
    by (simp add: net_ok_def net_start_def drive_new_def Let_def aims_def)
qed

text \<open>What the ends were given, from the events alone.\<close>

definition puts :: "net_event list \<Rightarrow> bytes list" where
  "puts es = concat (map put_by es)"

lemma net_step_sent:
  "nt_sent (net_step addr e t) x = nt_sent t x \<or> nt_sent (net_step addr e t) x = nt_sent t x @ put_by e"
  by (auto simp: net_step_def Let_def put_by_def split: option.split prod.split net_kind.split)

lemma net_run_snoc: "net_run addr (es @ [e]) t = net_step addr e (net_run addr es t)"
  by (simp add: net_run_def)

lemma net_run_sent:
  "length (stream (nt_sent (net_run addr es (net_start addr c t0)) x)) \<le> length (stream (puts es))"
proof (induction es rule: rev_induct)
  case Nil
  then show ?case by (simp add: net_run_def net_start_def)
next
  case (snoc e es)
  then show ?case
    using net_step_sent [of addr e "net_run addr es (net_start addr c t0)" x]
    by (auto simp: net_run_snoc puts_def)
qed

lemma net_run_ok:
  assumes "list_all fit_msg (puts es)" "length (stream (puts es)) < 2 ^ 30"
  shows "net_ok addr c (net_run addr es (net_start addr c t0))"
  using assms
proof (induction es rule: rev_induct)
  case Nil
  then show ?case by (simp add: net_run_def net_ok_start)
next
  case (snoc e es)
  let ?t = "net_run addr es (net_start addr c t0)"
  have p: "list_all fit_msg (puts es)" "list_all fit_msg (put_by e)" "length (stream (puts es)) < 2 ^ 30"
    using snoc.prems by (simp_all add: puts_def)
  have "short (nt_sent ?t x)" for x
    using net_run_sent [of addr es c t0 x] p(3) by (simp add: short_def)
  moreover have "short (nt_sent (net_step addr e ?t) x)" for x
    using net_run_sent [of addr "es @ [e]" c t0 x] snoc.prems(2) by (simp add: short_def net_run_snoc)
  ultimately show ?case
    using net_step_ok [OF snoc.IH [OF p(1,3)] p(2)] by (simp add: net_run_snoc)
qed

section \<open>The theorems\<close>

text \<open>C3: Between two KCP streams whose applications write messages of 1 byte to 64 KiB, whatever the network loses,
  repeats, delays or reorders and whenever the timers run, each application reads a prefix of
  the messages the other wrote, in order and once each; and when the sender has nothing left that waits for
  an acknowledgement, every message has been read.\<close>

theorem kcp_exactly_once:
  fixes addr :: "side \<Rightarrow> socket_addr" and c :: u32 and t0 :: "side \<Rightarrow> nat"
  assumes "list_all fit_msg (puts es)" "length (stream (puts es)) < 2 ^ 30"
  defines "t \<equiv> net_run addr es (net_start addr c t0)"
  shows "prefix (nt_got t x) (nt_sent t (other x))
    \<and> (waitsnd (end_kcp t (other x)) = 0 \<longrightarrow> nt_got t x = nt_sent t (other x))"
proof -
  let ?k = "end_kcp t x" and ?y = "end_kcp t (other x)" and ?T = "stream (nt_sent t (other x))"
  note ok = net_run_ok [OF assms(1,2), of addr c t0, folded t_def, unfolded net_ok_def, THEN spec]
  have "good c (stream (nt_sent t x)) ?k ?y (nt_sent t (other x)) (nt_got t x)" "drained ?k"
    using ok [of x] by simp_all
  then have g: "receiver_ok ?T ?k" "link_ok ?y ?k" "queue_ok (nt_sent t (other x)) (nt_got t x) ?k"
      "first_msg (map key (kc_rcv_queue ?k)) = None"
    by (simp_all add: good_def drained_def)
  have y: "map key (kc_snd_queue ?y) = drop (sent_to ?y) ?T" "sent_to ?y \<le> length ?T"
      "list_all fit_msg (nt_sent t (other x))"
    using ok [of "other x"] by (simp_all add: good_def ready_def sender_ok_def)
  have pre: "prefix (nt_got t x) (nt_sent t (other x))" using g(3) by (simp add: queue_ok_def)
  moreover have "nt_got t x = nt_sent t (other x)" if "waitsnd ?y = 0"
  proof -
    have b: "kc_snd_buf ?y = []" "kc_snd_queue ?y = []" using that by (simp_all add: waitsnd_def)
    then have full: "sent_to ?y = length ?T" using y(1,2) by simp
    have n: "nxt ?k = length ?T"
    proof (rule ccontr)
      assume "nxt ?k \<noteq> length ?T"
      then have "nxt ?k < sent_to ?y" using g(1) full by (simp add: receiver_ok_def)
      then have "has ?k (nxt ?k)" using g(2) b(1) by (auto simp: link_ok_def)
      then show False using g(1) by (auto simp: has_def receiver_ok_def)
    qed
    obtain rest where rest: "nt_sent t (other x) = nt_got t x @ rest" using pre by (auto simp: prefix_def)
    have "map key (kc_rcv_queue ?k) = stream rest"
      using g(3) n by (simp add: queue_ok_def rest)
    moreover have "first_msg (stream rest) \<noteq> None" if "rest \<noteq> []"
      using that y(3) by (cases rest) (simp_all add: rest first_msg_well_cut fit_msg_frags)
    ultimately have "rest = []" using g(4) by auto
    then show ?thesis using rest by simp
  qed
  ultimately show ?thesis by blast
qed


theorem kcp_exactly_once_witness:
  "\<exists>addr es t0. es \<noteq> [] \<and> puts es = [[104, 105]]
    \<and> prefix (nt_got (net_run addr es (net_start addr 5 t0)) End_B) (nt_sent (net_run addr es (net_start addr 5 t0)) End_A)"
proof -
  let ?addr = "\<lambda>x. \<lparr>sa_ip = V4 (case x of End_A \<Rightarrow> 1 | End_B \<Rightarrow> 2), sa_port = 7\<rparr>"
  let ?ev = "\<lambda>x e. \<lparr>ev_side = x, ev_pump1 = 9, ev_pump2 = 9, ev_now = 20000000, ev_kind = e\<rparr>"
  let ?es = "[?ev End_A (Put [104, 105]), ?ev End_A Clock, ?ev End_B (Arrive 0), ?ev End_B (Arrive 0), ?ev End_A (Arrive 0)]"
  have p: "puts ?es = [[104, 105]]" by (simp add: puts_def put_by_def)
  then have "list_all fit_msg (puts ?es)" "length (stream (puts ?es)) < 2 ^ 30"
    by (simp_all add: fit_msg_def MAX_RECV_MSG_def frags_length)
  from kcp_exactly_once [OF this, of ?addr 5 "\<lambda>_. 0" End_B] show ?thesis
    using p by (intro exI [of _ ?addr] exI [of _ ?es] exI [of _ "\<lambda>_. 0"]) simp
qed

end
