(* ===== verification/Kcp_Gaps.thy ===== *)
theory Kcp_Gaps
  imports Kcp_Net "HOL-Library.Multiset"
begin

text \<open>More on KCP: the codec, what a peer that keeps no rule can make an end hold, the sessions of
  the listener, and where the protocol of the code does not do what it is meant to.\<close>

unbundle bit_operations_syntax

section \<open>The codec\<close>

text \<open>C29: A datagram made of KCP segments is decoded to exactly these segments (the sender's own
  timers and counters do not travel), and fewer than 24 bytes after them change nothing.\<close>

theorem kcp_codec_roundtrip:
  assumes "ss \<noteq> []" "\<forall>s \<in> set ss. length (sg_data s) \<le> MTU_DEF" "length r < KCP_HEADER"
  shows "decode_segs (concat (map seg_encode ss) @ r) = Inr (map wire_seg ss)"
  using assms by (intro decode_segs_concat) (simp_all add: MTU_DEF_def)

theorem kcp_codec_roundtrip_witness:
  "decode_segs (concat (map seg_encode [(seg_new [1, 2])\<lparr>sg_xmit := 3\<rparr>, seg_new []]) @ [7])
     = Inr [seg_new [1, 2], seg_new []]"
proof -
  have "decode_segs (concat (map seg_encode [(seg_new [1, 2])\<lparr>sg_xmit := 3\<rparr>, seg_new []]) @ [7])
     = Inr (map wire_seg [(seg_new [1, 2])\<lparr>sg_xmit := 3\<rparr>, seg_new []])"
    by (rule kcp_codec_roundtrip) (simp_all add: MTU_DEF_def KCP_HEADER_def seg_new_def)
  then show ?thesis by (simp add: wire_seg_def seg_new_def)
qed

section \<open>What a receiver can be made to hold\<close>

definition window_ok :: "u32 \<Rightarrow> seg list \<Rightarrow> bool" where
  "window_ok n b \<longleftrightarrow> distinct (map sg_sn b) \<and> (\<forall>s \<in> set b. unat (sg_sn s - n) < 128 \<and> length (sg_data s) \<le> 1400)"

lemma window_length:
  assumes "window_ok n b"
  shows "length b \<le> 128"
proof -
  have "length b = card (sg_sn ` set b)"
    using assms by (metis distinct_card length_map list.set_map window_ok_def)
  also have "\<dots> = card ((\<lambda>w. unat (w - n)) ` sg_sn ` set b)"
    by (rule card_image [symmetric]) (auto simp: inj_on_def word_unat_eq_iff [symmetric])
  also have "\<dots> \<le> card {..<128 :: nat}"
    using assms by (intro card_mono) (auto simp: window_ok_def)
  finally show ?thesis by simp
qed

lemma insert_seg_mset: "mset (insert_seg s b) = add_mset s (mset b)"
  by (induction b) auto

lemma window_insert:
  assumes "window_ok n b" "unat (sg_sn s - n) < 128" "length (sg_data s) \<le> 1400"
  shows "window_ok n (put_seg s b)"
proof (cases "list_ex (\<lambda>x. sg_sn x = sg_sn s) b")
  case False
  let ?s = "s\<lparr>sg_resendts := 0\<rparr>"
  have "mset (map sg_sn (insert_seg ?s b)) = mset (map sg_sn (?s # b))"
    by (simp add: insert_seg_mset)
  then have "distinct (map sg_sn (insert_seg ?s b)) \<longleftrightarrow> distinct (map sg_sn (?s # b))"
    by (rule mset_eq_imp_distinct_iff)
  then show ?thesis
    using False assms by (auto simp: put_seg_def window_ok_def list_ex_iff insert_seg_set)
qed (use assms in \<open>simp add: put_seg_def\<close>)

lemma window_move:
  assumes "move_ready 128 n q b = (n', q', b')" "window_ok n b" "length q \<le> 128"
    "\<forall>s \<in> set q. length (sg_data s) \<le> 1400"
  shows "window_ok n' b' \<and> length q' \<le> 128 \<and> (\<forall>s \<in> set q'. length (sg_data s) \<le> 1400)"
  using assms
proof (induction b arbitrary: n q)
  case (Cons s b)
  show ?case
  proof (cases "sg_sn s \<noteq> n \<or> length q \<ge> 128")
    case False
    have "unat (sg_sn x - (n + 1)) < 128" if x: "x \<in> set b" for x
    proof -
      have "sg_sn s \<notin> sg_sn ` set b" using Cons.prems(2) by (simp add: window_ok_def)
      then have "sg_sn x \<noteq> n" using False x by (metis imageI)
      have "unat (sg_sn x - n) < 128" using Cons.prems(2) x by (simp add: window_ok_def)
      have "sg_sn x - n \<noteq> 0" using \<open>sg_sn x \<noteq> n\<close> by simp
      then have "unat (sg_sn x - n - 1) = unat (sg_sn x - n) - 1"
        by (metis unat_minus_one)
      then show ?thesis using \<open>unat (sg_sn x - n) < 128\<close> by (simp add: diff_diff_eq)
    qed
    then have "window_ok (n + 1) b" using Cons.prems(2) by (simp add: window_ok_def)
    moreover have "move_ready 128 (n + 1) (q @ [s]) b = (n', q', b')" using Cons.prems(1) False by simp
    moreover have "length (sg_data s) \<le> 1400" using Cons.prems(2) by (simp add: window_ok_def)
    ultimately show ?thesis
      using Cons.prems(3,4) False by (intro Cons.IH [of "n + 1" "q @ [s]"]) auto
  qed (use Cons.prems in auto)
qed auto

definition holds :: "kcp \<Rightarrow> bool" where
  "holds k \<longleftrightarrow> kc_rcv_wnd k = 128 \<and> window_ok (kc_rcv_nxt k) (kc_rcv_buf k)
     \<and> length (kc_rcv_queue k) \<le> 128 \<and> (\<forall>s \<in> set (kc_rcv_queue k). length (sg_data s) \<le> 1400)"

lemma window_offset:
  fixes sn n :: u32
  assumes "i32_from (sn - (n + 128)) < 0" "i32_from (sn - n) \<ge> 0"
  shows "unat (sn - n) < 128"
proof -
  let ?d = "sn - n"
  have nn: "0 \<le> sint ?d" "sint ?d < 2 ^ 31"
    using assms(2) sint_lt [of ?d] by (simp_all add: i32_from_def)
  then have "take_bit 32 (sint ?d) = sint ?d"
    by (intro take_bit_int_eq_self) simp_all
  then have "uint (word_of_int (sint ?d) :: u32) = sint ?d"
    by (simp only: unsigned_of_int) (use nn in simp)
  then have "uint ?d = sint ?d" by simp
  then have "int (unat ?d) < int (2 ^ 31)" using nn by simp
  then have d: "unat ?d < 2 ^ 31" by (simp only: of_nat_less_iff)
  have "i32_from (?d - 128) = int (unat ?d) - int (unat (128 :: u32))"
    using d by (intro i32_diff) simp_all
  moreover have "?d - 128 = sn - (n + 128)" by simp
  ultimately have "int (unat ?d) - int 128 < 0" using assms(1) by simp
  then show ?thesis by linarith
qed

lemma handle_push_holds:
  assumes "holds k" "length (sg_data s) \<le> 1400"
  shows "holds (handle_push s k)"
proof (cases "i32_from (sg_sn s - (kc_rcv_nxt k + kc_rcv_wnd k)) < 0 \<and> i32_from (sg_sn s - kc_rcv_nxt k) \<ge> 0")
  case True
  have w: "kc_rcv_wnd k = 128" using assms by (simp add: holds_def)
  obtain n' q' b' where mv:
    "move_ready (unat (kc_rcv_wnd k)) (kc_rcv_nxt k) (kc_rcv_queue k) (put_seg s (kc_rcv_buf k)) = (n', q', b')"
    by (metis prod_cases3)
  have "window_ok (kc_rcv_nxt k) (put_seg s (kc_rcv_buf k))"
    using assms True window_offset [of "sg_sn s" "kc_rcv_nxt k"] w by (intro window_insert) (auto simp: holds_def)
  then have "window_ok n' b' \<and> length q' \<le> 128 \<and> (\<forall>s \<in> set q'. length (sg_data s) \<le> 1400)"
    using assms(1) mv w by (intro window_move [OF mv [unfolded w, simplified]]) (simp_all add: holds_def)
  then show ?thesis
    using handle_push_in [OF _ _ mv] True w by (simp add: holds_def)
qed (use assms in \<open>auto simp: handle_push_def\<close>)

lemma handle_seg_holds: "holds k \<Longrightarrow> length (sg_data s) \<le> 1400 \<Longrightarrow> holds (handle_seg s k)"
  using handle_push_holds [of k s] by (simp add: holds_def handle_seg_receiver received_by_def)

lemma handle_segs_holds:
  "holds k \<Longrightarrow> \<forall>s \<in> set ss. length (sg_data s) \<le> 1400 \<Longrightarrow> holds (fst (handle_segs ss k))"
  by (induction ss k rule: handle_segs.induct) (simp_all add: handle_seg_holds)

lemma kcp_input_holds: "holds k \<Longrightarrow> holds (fst (kcp_input pkt k))"
  by (auto simp: kcp_input_def split: sum.split intro: handle_segs_holds dest: decode_segs_data)

lemma first_message_rest: "first_message q = Some (m, rest) \<Longrightarrow> set rest \<subseteq> set q"
  by (induction q arbitrary: m rest) (fastforce split: if_splits)+

lemma kcp_recv_holds: "holds k \<Longrightarrow> holds (fst (kcp_recv k))"
  using first_message_rest first_message_shorter
  by (fastforce simp: kcp_recv_def holds_def window_ok_def split: option.split)

lemma recv_all_holds: "holds k \<Longrightarrow> holds (fst (recv_all k))"
proof (induction k rule: recv_all.induct)
  case (1 k)
  obtain k' r where r: "kcp_recv k = (k', r)" by fastforce
  then have "holds k'" using kcp_recv_holds [OF 1(2)] by simp
  then show ?case
    using 1(1) r by (subst recv_all.simps) (auto split: option.split)
qed

text \<open>C28: Whatever datagrams a peer sends, a session never holds more than 128 segments in each of its
  receive buffers, none of them longer than 1400 bytes.\<close>

theorem kcp_memory_bounded:
  "let k = fold (\<lambda>pkt k. fst (recv_all (fst (kcp_input pkt k)))) pkts
        (set_nodelay True KCP_INTERVAL FASTACK_LIMIT (kcp_new conv MTU_DEF))
   in length (kc_rcv_queue k) \<le> 128 \<and> length (kc_rcv_buf k) \<le> 128 \<and> queued_bytes k \<le> 128 * 1400
     \<and> list_all (\<lambda>s. length (sg_data s) \<le> 1400) (kc_rcv_queue k @ kc_rcv_buf k)"
proof -
  let ?step = "\<lambda>pkt k. fst (recv_all (fst (kcp_input pkt k)))"
  have fold: "holds (fold ?step pkts k)" if "holds k" for k
    using that by (induction pkts arbitrary: k) (simp_all add: recv_all_holds kcp_input_holds)
  define k where "k = fold ?step pkts (set_nodelay True KCP_INTERVAL FASTACK_LIMIT (kcp_new conv MTU_DEF))"
  have h: "holds k"
    unfolding k_def by (rule fold) (simp add: holds_def set_nodelay_def kcp_new_def Let_def window_ok_def WND_RCV_def)
  have sum: "sum_list (map (\<lambda>s. length (sg_data s)) q) \<le> length q * 1400"
    if "\<forall>s \<in> set q. length (sg_data s) \<le> 1400" for q
    using that by (induction q) auto
  have "queued_bytes k \<le> 128 * 1400"
    using sum [of "kc_rcv_queue k"] h by (simp add: holds_def queued_bytes_def)
  then show ?thesis
    using h window_length by (fold k_def) (auto simp: Let_def holds_def window_ok_def list_all_iff)
qed


section \<open>Fast retransmission\<close>

lemma bump_keeps: "s \<in> set b \<Longrightarrow> \<not> i32_from (sg_sn s - w) > 0 \<Longrightarrow> s \<in> set (bump_fastack w b)"
  by (induction b) auto

lemma handle_ack_keeps:
  assumes "s \<in> set (kc_snd_buf k)" "i32_from (sg_sn s - sg_sn a) < 0"
  shows "s \<in> set (kc_snd_buf (handle_ack a k))"
proof -
  have "sg_sn s \<noteq> sg_sn a" using assms(2) by (auto simp: i32_from_def)
  then show ?thesis
    using assms remove_sn_set(2) [of s "kc_snd_buf k" "sg_sn a"] by (simp add: handle_ack_facts bump_keeps)
qed

lemma bump_all: "\<forall>s \<in> set b. i32_from (sg_sn s - w) > 0 \<Longrightarrow> bump_fastack w b = map (\<lambda>s. s\<lparr>sg_fastack := sg_fastack s + 1\<rparr>) b"
  by (induction b) auto

lemma remove_none: "w \<notin> sg_sn ` set b \<Longrightarrow> remove_sn w b = b"
  by (induction b) auto

lemma handle_ack_bumps:
  assumes "\<forall>s \<in> set (kc_snd_buf k). i32_from (sg_sn s - sg_sn a) > 0"
  shows "kc_snd_buf (handle_ack a k) = map (\<lambda>s. s\<lparr>sg_fastack := sg_fastack s + 1\<rparr>) (kc_snd_buf k)"
proof -
  have "sg_sn a \<notin> sg_sn ` set (kc_snd_buf k)" using assms by (auto simp: i32_from_def)
  then show ?thesis using assms by (simp add: handle_ack_facts remove_none bump_all)
qed

text \<open>C39: The counter that triggers a fast retransmission counts the wrong segments: acknowledgements of
  later segments never touch a segment that was skipped, so it waits for its timeout, while each
  acknowledgement that arrives in order is counted against every segment still under way.\<close>

theorem kcp_fast_resend_inverted:
  "(\<forall>(s :: seg) (acks :: seg list) (k :: kcp). s \<in> set (kc_snd_buf k) \<longrightarrow> (\<forall>a \<in> set acks. i32_from (sg_sn s - sg_sn a) < 0)
      \<longrightarrow> s \<in> set (kc_snd_buf (fold handle_ack acks k)))
    \<and> (\<forall>(acks :: seg list) (k :: kcp). (\<forall>a \<in> set acks. \<forall>s \<in> set (kc_snd_buf k). i32_from (sg_sn s - sg_sn a) > 0)
      \<longrightarrow> kc_snd_buf (fold handle_ack acks k)
        = map (\<lambda>s. s\<lparr>sg_fastack := sg_fastack s + of_nat (length acks)\<rparr>) (kc_snd_buf k))"
proof (intro conjI allI impI)
  fix s :: seg and acks :: "seg list" and k :: kcp
  assume "s \<in> set (kc_snd_buf k)" "\<forall>a \<in> set acks. i32_from (sg_sn s - sg_sn a) < 0"
  then show "s \<in> set (kc_snd_buf (fold handle_ack acks k))"
    by (induction acks arbitrary: k) (simp_all add: handle_ack_keeps)
next
  fix acks :: "seg list" and k :: kcp
  assume "\<forall>a \<in> set acks. \<forall>s \<in> set (kc_snd_buf k). i32_from (sg_sn s - sg_sn a) > 0"
  then show "kc_snd_buf (fold handle_ack acks k)
        = map (\<lambda>s. s\<lparr>sg_fastack := sg_fastack s + of_nat (length acks)\<rparr>) (kc_snd_buf k)"
  proof (induction acks arbitrary: k)
    case (Cons a acks)
    then show ?case by (simp add: handle_ack_bumps ac_simps)
  qed simp
qed

text \<open>Three segments are under way and the first is lost: the acknowledgements of the other two leave it
  with a count of 0. Had the first been acknowledged, the others would be counted as skipped.\<close>

theorem kcp_fast_resend_inverted_witness:
  "let sg = (\<lambda>n :: u32. (seg_new [7])\<lparr>sg_cmd := CMD_PUSH, sg_sn := n, sg_xmit := 1\<rparr>);
       k = (kcp_new 5 MTU_DEF)\<lparr>kc_snd_buf := [sg 0, sg 1, sg 2]\<rparr>
   in sg 0 \<in> set (kc_snd_buf (fold handle_ack [sg 1, sg 2] k))
    \<and> kc_snd_buf (fold handle_ack [sg 0] (k\<lparr>kc_snd_buf := [sg 1, sg 2]\<rparr>)) = [(sg 1)\<lparr>sg_fastack := 1\<rparr>, (sg 2)\<lparr>sg_fastack := 1\<rparr>]"
proof -
  let ?sg = "\<lambda>n. (seg_new [7])\<lparr>sg_cmd := CMD_PUSH, sg_sn := n, sg_xmit := 1\<rparr>"
  let ?k = "(kcp_new 5 MTU_DEF)\<lparr>kc_snd_buf := [?sg 0, ?sg 1, ?sg 2]\<rparr>" and ?k2 = "(kcp_new 5 MTU_DEF)\<lparr>kc_snd_buf := [?sg 1, ?sg 2]\<rparr>"
  have "?sg 0 \<in> set (kc_snd_buf (fold handle_ack [?sg 1, ?sg 2] ?k))"
    by (rule kcp_fast_resend_inverted [THEN conjunct1, rule_format]) (auto simp: i32_from_def)
  moreover have "kc_snd_buf (fold handle_ack [?sg 0] ?k2)
      = map (\<lambda>s. s\<lparr>sg_fastack := sg_fastack s + of_nat (length [?sg 0])\<rparr>) (kc_snd_buf ?k2)"
    by (rule kcp_fast_resend_inverted [THEN conjunct2, rule_format]) (auto simp: i32_from_def)
  ultimately show ?thesis by (simp add: Let_def seg_new_def kcp_new_def)
qed

section \<open>Duplicates\<close>

text \<open>An end with nothing to send and every acknowledgement gone out.\<close>

definition idle :: "kcp \<Rightarrow> bool" where
  "idle k \<longleftrightarrow> kc_acklist k = [] \<and> kc_snd_queue k = [] \<and> kc_snd_buf k = [] \<and> kc_out k = [] \<and> kc_probe k = 0
     \<and> kc_rmt_wnd k \<noteq> 0 \<and> first_message (kc_rcv_queue k) = None"

lemma flush_idle:
  assumes "idle k"
  shows "idle (kcp_flush k)" "kc_rcv_nxt (kcp_flush k) = kc_rcv_nxt k" "kc_conv (kcp_flush k) = kc_conv k"
proof -
  define k1 where "k1 = k\<lparr>kc_acklist := [], kc_ts_probe := 0, kc_probe_wait := 0, kc_probe := 0\<rparr>"
  have 1: "flush_probe (flush_acks k) = k1"
    using assms by (simp add: flush_probe_def flush_acks_def idle_def k1_def Let_def)
  have 2: "emits k1 (flush_cwnd k1) []" "kc_acklist (flush_cwnd k1) = []" "kc_probe (flush_cwnd k1) = 0"
      "kc_rmt_wnd (flush_cwnd k1) = kc_rmt_wnd k"
    by (simp_all add: emits_def k1_def flush_cwnd_def Let_def)
  define k2 where "k2 = flush_cwnd k1"
  have "flush_queue k2 = k2"
    using 2 assms by (simp add: flush_queue_def emits_def k2_def k1_def idle_def Let_def)
  moreover have "flush_resend k2 = k2"
    using 2 assms by (simp add: flush_resend_def emits_def k2_def k1_def idle_def Let_def)
  ultimately have "kcp_flush k = k2" by (simp add: kcp_flush_def 1 k2_def)
  then show "idle (kcp_flush k)" "kc_rcv_nxt (kcp_flush k) = kc_rcv_nxt k" "kc_conv (kcp_flush k) = kc_conv k"
    using 2 assms by (simp_all add: idle_def emits_def k2_def k1_def)
qed

lemma update_idle:
  assumes "idle k"
  shows "idle (kcp_update cur k)" "kc_rcv_nxt (kcp_update cur k) = kc_rcv_nxt k" "kc_conv (kcp_update cur k) = kc_conv k"
proof -
  define k1 where "k1 = (if kc_updated k then k\<lparr>kc_current := cur\<rparr>
      else k\<lparr>kc_current := cur, kc_updated := True, kc_ts_flush := cur\<rparr>)"
  define k2 where "k2 = (if cur - kc_ts_flush k1 \<ge> 0x80000000 then k1\<lparr>kc_ts_flush := cur\<rparr> else k1)"
  have i: "idle k2" "idle (k2\<lparr>kc_ts_flush := cur\<rparr>)" "kc_rcv_nxt k2 = kc_rcv_nxt k" "kc_conv k2 = kc_conv k"
    using assms by (simp_all add: k1_def k2_def idle_def)
  have "kcp_update cur k = k2 \<or> kcp_update cur k = kcp_flush (k2\<lparr>kc_ts_flush := cur\<rparr>)"
    by (simp add: kcp_update_def k1_def k2_def Let_def)
  then show "idle (kcp_update cur k)" "kc_rcv_nxt (kcp_update cur k) = kc_rcv_nxt k" "kc_conv (kcp_update cur k) = kc_conv k"
    using i flush_idle [OF i(2)] by auto
qed

lemma recv_idle: "idle k \<Longrightarrow> recv_all k = (k, [])"
  by (subst recv_all.simps) (simp add: kcp_recv_def idle_def)


definition old_push :: "kcp \<Rightarrow> drive_event \<Rightarrow> bool" where
  "old_push k e \<longleftrightarrow> (\<exists>src s. e = Packet src (seg_encode s) \<and> sg_conv s = kc_conv k \<and> sg_cmd s = CMD_PUSH
     \<and> sg_wnd s \<noteq> 0 \<and> length (sg_data s) \<le> 1400 \<and> i32_from (sg_sn s - kc_rcv_nxt k) < 0)"

lemma input_idle:
  assumes "idle k" "sg_conv s = kc_conv k" "sg_cmd s = CMD_PUSH" "sg_wnd s \<noteq> 0" "length (sg_data s) \<le> 1400"
    "i32_from (sg_sn s - kc_rcv_nxt k) < 0"
  obtains k' where "kcp_input (seg_encode s) k = (k', Inr ())" "idle k'" "kc_rcv_nxt k' = kc_rcv_nxt k" "kc_conv k' = kc_conv k"
proof -
  let ?u = "if i32_from (sg_una s - kc_snd_una k) > 0 then sg_una s else kc_snd_una k"
  let ?k = "k\<lparr>kc_rmt_wnd := ucast (sg_wnd s), kc_snd_buf := [], kc_snd_una := ?u\<rparr>"
  have p: "handle_push (wire_seg s) k1 = k1" if "kc_rcv_nxt k1 = kc_rcv_nxt k" for k1
    using assms(6) that by (simp add: handle_push_def Let_def)
  have b: "kc_snd_buf k = []" using assms(1) by (simp add: idle_def)
  have "handle_seg (wire_seg s) k = ?k"
    using assms(3) b unfolding handle_seg_base by (simp add: CMD_PUSH_def CMD_ACK_def p)
  then have "kcp_input (seg_encode s) k = (?k, Inr ())"
    using assms(2,5) by (simp add: kcp_input_def decode_segs_one)
  moreover have "ucast (sg_wnd s) \<noteq> (0 :: u32)"
  proof -
    have "unat (sg_wnd s) < 2 ^ 32" using unsigned_less [of "sg_wnd s", where 'a = nat] by simp
    then have "unat (ucast (sg_wnd s) :: u32) = unat (sg_wnd s)"
      by (simp add: unsigned_ucast_eq take_bit_nat_eq_self)
    then show ?thesis using assms(4) by (metis unsigned_0 word_unat_eq_iff)
  qed
  then have "idle ?k" using assms(1) by (simp add: idle_def)
  ultimately show ?thesis using that [of ?k] by simp
qed

lemma pump_idle: "idle (dv_kcp d) \<Longrightarrow> pump n d = (d, [])"
  by (simp add: pump_def idle_def)

definition still :: "drive \<Rightarrow> drive \<Rightarrow> bool" where
  "still d d' \<longleftrightarrow> idle (dv_kcp d') \<and> kc_rcv_nxt (dv_kcp d') = kc_rcv_nxt (dv_kcp d) \<and> kc_conv (dv_kcp d') = kc_conv (dv_kcp d)"

lemma accept_source_kcp: "accept_source src d = Some d' \<Longrightarrow> dv_kcp d' = dv_kcp d"
  by (auto simp: accept_source_def split: if_splits option.splits)

lemma branch_still:
  assumes "idle (dv_kcp d)" "e = Tick \<or> old_push (dv_kcp d) e" "drive_branch now e d = (d', ms, go)"
  shows "still d d'" "ms = []"
proof -
  have "still d d' \<and> ms = []"
  proof (cases "e = Tick")
    case True
    note u = update_idle [OF assms(1), of "ms_since (dv_start d) now"]
    show ?thesis
      using assms(3) True u by (auto simp: drive_branch_def Let_def still_def switch_candidate_def split: if_splits)
  next
    case False
    then obtain src s where s: "e = Packet src (seg_encode s)" "sg_conv s = kc_conv (dv_kcp d)" "sg_cmd s = CMD_PUSH"
        "sg_wnd s \<noteq> 0" "length (sg_data s) \<le> 1400" "i32_from (sg_sn s - kc_rcv_nxt (dv_kcp d)) < 0"
      using assms(2) by (auto simp: old_push_def)
    obtain k' where k': "kcp_input (seg_encode s) (dv_kcp d) = (k', Inr ())" "idle k'"
        "kc_rcv_nxt k' = kc_rcv_nxt (dv_kcp d)" "kc_conv k' = kc_conv (dv_kcp d)"
      using input_idle [OF assms(1) s(2-6)] by blast
    show ?thesis
    proof (cases "accept_source src d")
      case None
      then show ?thesis using assms s(1) by (simp add: drive_branch_def still_def)
    next
      case (Some d1)
      then show ?thesis
        using assms(3) s(1) k' accept_source_kcp [OF Some]
        by (auto simp: drive_branch_def still_def recv_idle [OF k'(2)])
    qed
  qed
  then show "still d d'" "ms = []" by simp_all
qed

lemma drive_step_still:
  assumes "idle (dv_kcp d)" "e = Tick \<or> old_push (dv_kcp d) e"
  obtains d' where "drive_step n1 n2 now e d = (d', [], [])" "still d d'"
proof (cases "dv_ended d")
  case True
  then show ?thesis using that [of d] assms(1) by (simp add: drive_step_def still_def)
next
  case False
  obtain d2 ms go where b: "drive_branch now e d = (d2, ms, go)" by (metis prod_cases3)
  note f = branch_still [OF assms b]
  show ?thesis
  proof (cases go)
    case False': False
    then show ?thesis
      using that [of d2] f b False pump_idle [OF assms(1)] by (simp add: drive_step_def)
  next
    case True
    let ?k = "kcp_update (ms_since (dv_start d2) now) (dv_kcp d2)"
    have "idle (dv_kcp d2)" using f(1) by (simp add: still_def)
    note u = update_idle [OF this, of "ms_since (dv_start d2) now"]
    have "drive_step n1 n2 now e d = (d2\<lparr>dv_kcp := ?k\<rparr>, [], [])"
      using f b False True pump_idle [OF assms(1), of n1] pump_idle [of "d2\<lparr>dv_kcp := ?k\<rparr>" n2] u(1) recv_idle [OF u(1)]
      by (simp add: drive_step_def Let_def)
    then show ?thesis
      using that u f(1) by (simp add: still_def)
  qed
qed

text \<open>Rounds of the loop with their clock: what is sent and what is given to the application.\<close>

fun drive_run :: "(nat \<times> drive_event) list \<Rightarrow> drive \<Rightarrow> drive \<times> (socket_addr \<times> bytes) list \<times> bytes list" where
  "drive_run [] d = (d, [], [])"
| "drive_run ((now, e) # es) d =
     (case drive_step 99 99 now e d of (d1, out1, ms1) \<Rightarrow>
      case drive_run es d1 of (d2, out2, ms2) \<Rightarrow> (d2, out1 @ out2, ms1 @ ms2))"



section \<open>Long messages\<close>

text \<open>A message of more than 64 KiB and at most 255 fragments is taken and cut by the sender, but the
  receiver, once it has acknowledged and assembled the whole, throws its queue and its buffer
  away, with all that follows in them: the sender cannot know.\<close>

theorem kcp_long_message_lost:
  assumes "MAX_RECV_MSG < length m" "(length m + 1375) div 1376 \<le> 255" "kc_mss k = 1376"
    and "map key (kc_rcv_queue r) = frags m @ rest"
  shows "snd (kcp_send m k) = length m \<and> recv_all r = (r\<lparr>kc_rcv_queue := [], kc_rcv_buf := []\<rparr>, [])"
proof
  have m: "m \<noteq> []" using assms(1) by auto
  show "snd (kcp_send m k) = length m"
    using assms(2,3) m by (simp add: kcp_send_def Let_def)
  have "first_msg (map key (kc_rcv_queue r)) = Some (m, rest)"
    using frags_well_cut [OF m assms(2)] assms(4) by (simp add: first_msg_well_cut frags_concat)
  then obtain q where "first_message (kc_rcv_queue r) = Some (m, q)"
    using first_message_key [of "kc_rcv_queue r"] by (auto simp: map_prod_def)
  then show "recv_all r = (r\<lparr>kc_rcv_queue := [], kc_rcv_buf := []\<rparr>, [])"
    using assms(1) by (subst recv_all.simps) (simp add: kcp_recv_def)
qed

theorem kcp_long_message_lost_witness:
  "let m = replicate 70000 0; k = kcp_new 5 MTU_DEF
   in recv_all (k\<lparr>kc_rcv_queue := fragments 1376 m @ [seg_new [1]]\<rparr>) = (k\<lparr>kc_rcv_queue := [], kc_rcv_buf := []\<rparr>, [])"
proof -
  let ?m = "replicate 70000 (0 :: u8)" and ?k = "kcp_new 5 MTU_DEF"
  let ?r = "?k\<lparr>kc_rcv_queue := fragments 1376 ?m @ [seg_new [1]]\<rparr>"
  have "recv_all ?r = (?r\<lparr>kc_rcv_queue := [], kc_rcv_buf := []\<rparr>, [])"
    by (rule kcp_long_message_lost [where k = ?k and m = ?m and rest = "[key (seg_new [1])]", THEN conjunct2])
      (simp_all add: MAX_RECV_MSG_def frags_def kcp_new_def MTU_DEF_def KCP_HEADER_def)
  then show ?thesis by (simp add: Let_def)
qed

section \<open>The listener\<close>

definition table_ok :: "listener \<Rightarrow> bool" where
  "table_ok l \<longleftrightarrow> finite (dom (ls_sessions l)) \<and> card (dom (ls_sessions l)) \<le> ls_max l"

lemma accept_datagram_cases:
  fixes l :: listener
  shows "(\<exists>b i. fst (accept_datagram a pkt l) = l\<lparr>ls_sessions := if b then (ls_sessions l)(a := None) else ls_sessions l, ls_inbox := i\<rparr>)
    \<or> ls_sessions l a = None \<and> card (dom (ls_sessions l)) < ls_max l
      \<and> fst (accept_datagram a pkt l) = l\<lparr>ls_sessions := (ls_sessions l)(a \<mapsto> ls_next l), ls_next := Suc (ls_next l),
           ls_addr := (ls_addr l)(ls_next l \<mapsto> a)\<rparr>"
proof (cases "length (take READ_BUF pkt) < KCP_HEADER")
  case True
  then have "fst (accept_datagram a pkt l) = l" by (simp add: accept_datagram_def)
  then show ?thesis by (intro disjI1 exI [of _ False] exI [of _ "ls_inbox l"]) simp
next
  case False
  show ?thesis
  proof (cases "ls_sessions l a")
    case None
    show ?thesis
    proof (cases "card (dom (ls_sessions l)) \<ge> ls_max l")
      case True
      then have "fst (accept_datagram a pkt l) = l" using None by (simp add: accept_datagram_def Let_def)
      then show ?thesis by (intro disjI1 exI [of _ False] exI [of _ "ls_inbox l"]) simp
    next
      case lt: False
      then show ?thesis using None False by (intro disjI2) (simp add: accept_datagram_def Let_def)
    qed
  next
    case (Some sid)
    show ?thesis
    proof (cases "sid \<in> ls_gone l")
      case True
      then show ?thesis
        using Some False by (intro disjI1 exI [of _ True] exI [of _ "ls_inbox l"]) (simp add: accept_datagram_def Let_def)
    next
      case live: False
      then show ?thesis
        using Some False
        by (intro disjI1 exI [of _ False] exI [of _ "ls_inbox l @ [(sid, take READ_BUF pkt)]"]) (simp add: accept_datagram_def Let_def)
    qed
  qed
qed

lemma table_less: "table_ok l \<Longrightarrow> finite (dom ((ls_sessions l)(a := None))) \<and> card (dom ((ls_sessions l)(a := None))) \<le> ls_max l"
  using card_Diff1_le [of "dom (ls_sessions l)" a] by (auto simp: table_ok_def)

lemma listener_step_ok:
  assumes "table_ok l"
  shows "table_ok (listener_step e l) \<and> ls_max (listener_step e l) = ls_max l"
proof (cases e)
  case (Datagram a pkt)
  from accept_datagram_cases [of a pkt l] show ?thesis
  proof (elim disjE exE conjE)
    fix b i
    assume "fst (accept_datagram a pkt l) = l\<lparr>ls_sessions := if b then (ls_sessions l)(a := None) else ls_sessions l, ls_inbox := i\<rparr>"
    then show ?thesis
      using assms table_less [OF assms, of a] by (cases b) (simp_all add: Datagram listener_step_def table_ok_def)
  next
    assume "ls_sessions l a = None" "card (dom (ls_sessions l)) < ls_max l"
      "fst (accept_datagram a pkt l) = l\<lparr>ls_sessions := (ls_sessions l)(a \<mapsto> ls_next l), ls_next := Suc (ls_next l),
           ls_addr := (ls_addr l)(ls_next l \<mapsto> a)\<rparr>"
    then show ?thesis
      using assms by (simp add: Datagram listener_step_def table_ok_def card_insert_if)
  qed
next
  case (Drop_Stream sid)
  then show ?thesis
    using assms table_less [OF assms] by (cases "ls_addr l sid") (simp_all add: listener_step_def drop_stream_def table_ok_def)
qed (use assms in \<open>simp add: listener_step_def driver_ends_def table_ok_def\<close>)

text \<open>The table of a listener never holds more sessions than its limit, which is at least 64, whatever
  datagrams arrive and however sessions end.\<close>

theorem kcp_listener_bounded:
  "let l = listener_run es (with_max_sessions n listener_bind)
   in finite (dom (ls_sessions l)) \<and> card (dom (ls_sessions l)) \<le> max n MIN_KCP_SESSIONS"
proof -
  have run: "table_ok (listener_run es l) \<and> ls_max (listener_run es l) = ls_max l" if "table_ok l" for l
    using that by (induction es arbitrary: l) (simp_all add: listener_run_def listener_step_ok)
  have "table_ok (with_max_sessions n listener_bind)"
    by (simp add: table_ok_def with_max_sessions_def listener_bind_def)
  from run [OF this] show ?thesis
    by (auto simp: table_ok_def with_max_sessions_def Let_def)
qed

text \<open>When the stream of a session whose driving task has ended is dropped, the listener forgets the
  session of that address even if it is a newer one: the newer session is alive, but the next datagram
  from its peer starts a third session and never reaches it.\<close>

theorem kcp_old_stream_unlists_new:
  assumes "ls_sessions l a = Some sid" "ls_addr l sid = Some a" "sid \<noteq> ls_next l" "ls_next l \<notin> ls_gone l"
    and "length p1 = 24" "length p2 = 24" "length p3 = 24"
    and "finite (dom (ls_sessions l))" "card (dom (ls_sessions l)) \<le> ls_max l"
  defines "l' \<equiv> listener_run [Driver_Ends sid, Datagram a p1, Datagram a p2, Drop_Stream sid, Datagram a p3] l"
  shows "ls_sessions l' a = Some (Suc (ls_next l)) \<and> ls_next l \<notin> ls_gone l' \<and> ls_addr l' (ls_next l) = Some a
    \<and> ls_inbox l' = ls_inbox l"
proof -
  have p: "take READ_BUF p1 = p1" "take READ_BUF p2 = p2" "take READ_BUF p3 = p3"
    using assms(5-7) by (simp_all add: READ_BUF_def)
  have c: "card (dom (ls_sessions l) - {a}) < ls_max l"
    using assms(1,8,9) by (metis card_Diff1_less domI order_less_le_trans)
  then show ?thesis
    using assms(1-7) p
    by (simp add: l'_def listener_run_def listener_step_def driver_ends_def accept_datagram_def drop_stream_def
        KCP_HEADER_def Let_def not_le)
qed

theorem kcp_old_stream_unlists_new_witness:
  "let a = \<lparr>sa_ip = V4 1, sa_port = 7\<rparr>; p = replicate 24 (0 :: u8);
       l' = listener_run [Datagram a p, Driver_Ends 0, Datagram a p, Datagram a p, Drop_Stream 0, Datagram a p] listener_bind
   in ls_sessions l' a = Some 2 \<and> 1 \<notin> ls_gone l' \<and> ls_inbox l' = []"
proof -
  let ?a = "\<lparr>sa_ip = V4 1, sa_port = 7\<rparr>" and ?p = "replicate 24 (0 :: u8)"
  define l where "l = listener_run [Datagram ?a ?p] listener_bind"
  have l: "l = listener_bind\<lparr>ls_sessions := [?a \<mapsto> 0], ls_next := 1, ls_addr := [0 \<mapsto> ?a]\<rparr>"
    by (simp add: l_def listener_run_def listener_step_def accept_datagram_def listener_bind_def KCP_HEADER_def
        READ_BUF_def MAX_KCP_SESSIONS_def Let_def)
  have "listener_run [Datagram ?a ?p, Driver_Ends 0, Datagram ?a ?p, Datagram ?a ?p, Drop_Stream 0, Datagram ?a ?p] listener_bind
      = listener_run [Driver_Ends 0, Datagram ?a ?p, Datagram ?a ?p, Drop_Stream 0, Datagram ?a ?p] l"
    by (simp add: l_def listener_run_def)
  moreover have "ls_next l = 1" "ls_inbox l = []" by (simp_all add: l listener_bind_def)
  moreover have "ls_sessions l ?a = Some 0" "ls_addr l 0 = Some ?a" "0 \<noteq> ls_next l" "ls_next l \<notin> ls_gone l"
      "finite (dom (ls_sessions l))" "card (dom (ls_sessions l)) \<le> ls_max l"
    by (simp_all add: l listener_bind_def MAX_KCP_SESSIONS_def)
  note kcp_old_stream_unlists_new [OF this(1-4) _ _ _ this(5,6), of ?p ?p ?p]
  ultimately show ?thesis by (simp add: Let_def numeral_2_eq_2)
qed

end
