(* ===== verification/Ws.thy ===== *)
theory Ws
  imports Framing Rust_Net
begin

text \<open>
  The frames of the WebSocket transport (\<open>common/src/ws.rs\<close>) and the byte stream on top of them. The
  socket is a script: what its reads return, how many bytes its writes take, and what was
  written. Masking keys are drawn from a sequence. The opening handshake is in \<open>Ws_Handshake\<close>.
\<close>

unbundle bit_operations_syntax

section \<open>Constants and errors\<close>

definition FRP_WS_PATH :: string where "FRP_WS_PATH = ''/~!frp''"
definition WS_GUID :: string where "WS_GUID = ''258EAFA5-E914-47DA-95CA-C5AB0DC85B11''"
definition MAX_HANDSHAKE :: nat where "MAX_HANDSHAKE = 16 * 1024"
definition MAX_FRAME :: nat where "MAX_FRAME = 16 * 1024 * 1024"
definition MAX_CONTROL_PAYLOAD :: nat where "MAX_CONTROL_PAYLOAD = 125"
definition OP_CONT :: u8 where "OP_CONT = 0"
definition OP_TEXT :: u8 where "OP_TEXT = 1"
definition OP_BINARY :: u8 where "OP_BINARY = 2"
definition OP_CLOSE :: u8 where "OP_CLOSE = 8"
definition OP_PING :: u8 where "OP_PING = 9"
definition OP_PONG :: u8 where "OP_PONG = 10"

datatype ws_error =
    WsHeadTooLarge | WsHeadEof | WsNotGet string | WsNoUpgrade | WsNoKey | WsBadVersion string
  | WsNotSwitching nat | WsBadAccept
  | WsRsv | WsMaskedByServer | WsUnmaskedByClient | WsFrameTooLarge nat | WsControlTooLong u8 nat
  | WsUnknownOpcode u8 | WsBufferTooLarge | WsWriteZero | WsIo

definition effective_path :: "string \<Rightarrow> string" where
  "effective_path path = (if trim path = [] then FRP_WS_PATH else path)"

section \<open>Frames\<close>

definition xor_key :: "bytes \<Rightarrow> bytes \<Rightarrow> bytes" where
  "xor_key key payload = map (\<lambda>(i, b). b XOR key ! (i mod 4)) (enumerate 0 payload)"

text \<open>The payload length and the bytes of the header before the mask, or nothing while the length has not
  arrived.\<close>

definition frame_length :: "bytes \<Rightarrow> ws_error + (nat \<times> nat) option" where
  "frame_length buf =
     (let len7 = unat (buf ! 1 AND 0x7F) in
      if len7 = 126 then
        (if length buf < 4 then Inr None else Inr (Some (unat (get16 (take 2 (drop 2 buf))), 4)))
      else if len7 = 127 then
        (if length buf < 10 then Inr None
         else let v = unat (get64 (take 8 (drop 2 buf))) in
              if v > MAX_FRAME then Inl (WsFrameTooLarge v) else Inr (Some (v, 10)))
      else Inr (Some (len7, 2)))"

definition ws_take_frame :: "bool \<Rightarrow> bytes \<Rightarrow> (ws_error + (u8 \<times> bool \<times> bytes) option) \<times> bytes" where
  "ws_take_frame our_role_is_client buf =
     (if length buf < 2 then (Inr None, buf)
      else
        let b0 = buf ! 0; b1 = buf ! 1; fin = (b0 AND 0x80 \<noteq> 0) in
        if b0 AND 0x70 \<noteq> 0 then (Inl WsRsv, buf)
        else
          let opcode = b0 AND 0x0F; masked = (b1 AND 0x80 \<noteq> 0) in
          if our_role_is_client \<and> masked then (Inl WsMaskedByServer, buf)
          else if \<not> our_role_is_client \<and> \<not> masked then (Inl WsUnmaskedByClient, buf)
          else case frame_length buf of
                 Inl e \<Rightarrow> (Inl e, buf)
               | Inr None \<Rightarrow> (Inr None, buf)
               | Inr (Some (len, need)) \<Rightarrow>
                   if len > MAX_FRAME then (Inl (WsFrameTooLarge len), buf)
                   else if opcode \<in> {OP_PING, OP_PONG, OP_CLOSE} \<and> len > MAX_CONTROL_PAYLOAD
                   then (Inl (WsControlTooLong opcode len), buf)
                   else
                     let mask_len = (if masked then 4 else 0) in
                     if length buf < need + mask_len + len then (Inr None, buf)
                     else
                       let payload = take len (drop (need + mask_len) buf);
                           payload = (if masked then xor_key (take 4 (drop need buf)) payload else payload)
                       in (Inr (Some (opcode, fin, payload)), drop (need + mask_len + len) buf))"

definition build_frame :: "u8 \<Rightarrow> bytes \<Rightarrow> bool \<Rightarrow> bytes \<Rightarrow> bytes" where
  "build_frame opcode payload masked key =
     (let n = length payload; bit = (if masked then 0x80 else 0);
          head = (if n < 126 then [bit OR of_nat n]
                  else if n \<le> 65535 then (bit OR 126) # be16 (of_nat n)
                  else (bit OR 127) # be64 (of_nat n))
      in (0x80 OR opcode) # head @ (if masked then key @ xor_key key payload else payload))"

section \<open>The stream\<close>

datatype read_event = Rd bytes | RdPending | RdErr
datatype write_event = WrTake nat | WrPending | WrErr

text \<open>A read script that is used up is at its end (\<open>Rd []\<close> is an end of file too), a write script that is used up
  takes everything.\<close>

record ws_io =
  wi_reads :: "read_event list"
  wi_writes :: "write_event list"
  wi_out :: bytes
  wi_keys :: "nat \<Rightarrow> bytes"
  wi_drawn :: nat

record ws_stream =
  wx_client :: bool
  wx_rx :: bytes
  wx_raw :: bytes
  wx_tx :: bytes
  wx_off :: nat
  wx_closed :: bool

definition ws_new :: "bool \<Rightarrow> bytes \<Rightarrow> ws_stream" where
  "ws_new is_client leftover =
     \<lparr>wx_client = is_client, wx_rx = [], wx_raw = leftover, wx_tx = [], wx_off = 0, wx_closed = False\<rparr>"

datatype 'a poll = Ready 'a | Pending

definition make_frame :: "u8 \<Rightarrow> bytes \<Rightarrow> ws_stream \<Rightarrow> ws_io \<Rightarrow> bytes \<times> ws_io" where
  "make_frame opcode payload s io =
     (if wx_client s then (build_frame opcode payload True (wi_keys io (wi_drawn io)), io\<lparr>wi_drawn := Suc (wi_drawn io)\<rparr>)
      else (build_frame opcode payload False [], io))"

text \<open>The loop of \<open>poll_drain\<close> over the write script, with what is left to write.\<close>

fun drain_loop :: "write_event list \<Rightarrow> bytes \<Rightarrow> (ws_error + unit) poll \<times> write_event list \<times> bytes \<times> bytes" where
  "drain_loop ws [] = (Ready (Inr ()), ws, [], [])"
| "drain_loop [] (b # bs) = (Ready (Inr ()), [], [], b # bs)"
| "drain_loop (WrTake n # ws) (b # bs) =
     (if n = 0 then (Ready (Inl WsWriteZero), ws, b # bs, [])
      else case drain_loop ws (drop n (b # bs)) of
             (r, ws', left, out) \<Rightarrow> (r, ws', left, take n (b # bs) @ out))"
| "drain_loop (WrPending # ws) (b # bs) = (Pending, ws, b # bs, [])"
| "drain_loop (WrErr # ws) (b # bs) = (Ready (Inl WsIo), ws, b # bs, [])"

definition poll_drain :: "ws_stream \<Rightarrow> ws_io \<Rightarrow> (ws_error + unit) poll \<times> ws_stream \<times> ws_io" where
  "poll_drain s io =
     (case drain_loop (wi_writes io) (drop (wx_off s) (wx_tx s)) of
        (r, ws, left, out) \<Rightarrow>
          (r,
           (if r = Ready (Inr ()) then s\<lparr>wx_tx := [], wx_off := 0\<rparr>
            else s\<lparr>wx_off := length (wx_tx s) - length left\<rparr>),
           io\<lparr>wi_writes := ws, wi_out := wi_out io @ out\<rparr>))"

definition poll_write :: "bytes \<Rightarrow> ws_stream \<Rightarrow> ws_io \<Rightarrow> (ws_error + nat) poll \<times> ws_stream \<times> ws_io" where
  "poll_write buf s io =
     (case poll_drain s io of
        (Pending, s, io) \<Rightarrow> (Pending, s, io)
      | (Ready (Inl e), s, io) \<Rightarrow> (Ready (Inl e), s, io)
      | (Ready (Inr _), s, io) \<Rightarrow>
          (case make_frame OP_BINARY buf s io of
             (frame, io) \<Rightarrow>
               (case poll_drain (s\<lparr>wx_tx := frame, wx_off := 0\<rparr>) io of
                  (Pending, s, io) \<Rightarrow> (Pending, s, io)
                | (Ready (Inl e), s, io) \<Rightarrow> (Ready (Inl e), s, io)
                | (Ready (Inr _), s, io) \<Rightarrow> (Ready (Inr (length buf)), s, io))))"

definition ws_poll_flush :: "ws_stream \<Rightarrow> ws_io \<Rightarrow> (ws_error + unit) poll \<times> ws_stream \<times> ws_io" where
  "ws_poll_flush s io = poll_drain s io"

definition ws_poll_shutdown :: "ws_stream \<Rightarrow> ws_io \<Rightarrow> (ws_error + unit) poll \<times> ws_stream \<times> ws_io" where
  "ws_poll_shutdown s io =
     (let (s, io) = (if wx_tx s = [] then
                       (case make_frame OP_CLOSE [] s io of (f, io) \<Rightarrow> (s\<lparr>wx_tx := f, wx_off := 0\<rparr>, io))
                     else (s, io))
      in poll_drain s io)"

text \<open>One round of the loop of \<open>poll_read\<close>: it is over with a result, or goes on.\<close>

definition give :: "nat \<Rightarrow> bytes \<Rightarrow> ws_stream \<Rightarrow> bytes \<times> ws_stream" where
  "give n payload s = (take n payload, if n < length payload then s\<lparr>wx_rx := drop n payload\<rparr> else s)"

definition handle_frame ::
  "nat \<Rightarrow> u8 \<times> bool \<times> bytes \<Rightarrow> ws_stream \<Rightarrow> ws_io \<Rightarrow> (ws_error + bytes) poll option \<times> ws_stream \<times> ws_io" where
  "handle_frame n f s io =
     (case f of (opcode, _, payload) \<Rightarrow>
        if opcode = OP_BINARY \<or> opcode = OP_TEXT \<or> opcode = OP_CONT then
          (if payload = [] then (None, s, io)
           else case give n payload s of (b, s) \<Rightarrow> (Some (Ready (Inr b)), s, io))
        else if opcode = OP_PING then
          (case make_frame OP_PONG payload s io of
             (pong, io) \<Rightarrow>
               (case poll_drain (s\<lparr>wx_tx := wx_tx s @ pong\<rparr>) io of
                  (Ready (Inr _), s, io) \<Rightarrow> (None, s, io)
                | (Ready (Inl e), s, io) \<Rightarrow> (Some (Ready (Inl e)), s, io)
                | (Pending, s, io) \<Rightarrow> (Some Pending, s, io)))
        else if opcode = OP_PONG then (None, s, io)
        else if opcode = OP_CLOSE then (Some (Ready (Inr [])), s\<lparr>wx_closed := True\<rparr>, io)
        else (Some (Ready (Inl (WsUnknownOpcode opcode))), s, io))"

lemma ws_take_frame_shorter: "ws_take_frame r buf = (Inr (Some f), rest) \<Longrightarrow> length rest < length buf"
  by (auto simp: ws_take_frame_def frame_length_def Let_def split: if_splits sum.splits option.splits)

lemma poll_drain_keeps:
  "poll_drain s io = (r, s', io') \<Longrightarrow>
     wx_raw s' = wx_raw s \<and> wx_rx s' = wx_rx s \<and> wx_client s' = wx_client s \<and> wx_closed s' = wx_closed s
     \<and> wi_reads io' = wi_reads io"
  by (auto simp: poll_drain_def split: prod.splits if_splits)

lemma make_frame_keeps: "make_frame op p s io = (f, io') \<Longrightarrow> wi_reads io' = wi_reads io"
  by (auto simp: make_frame_def split: if_splits)

lemma handle_frame_keeps:
  "handle_frame n f s io = (r, s', io') \<Longrightarrow> wx_raw s' = wx_raw s \<and> wi_reads io' = wi_reads io"
  by (auto simp: handle_frame_def give_def split: prod.splits if_splits poll.splits sum.splits
      dest!: poll_drain_keeps make_frame_keeps)

function read_loop :: "nat \<Rightarrow> ws_stream \<Rightarrow> ws_io \<Rightarrow> (ws_error + bytes) poll \<times> ws_stream \<times> ws_io" where
  "read_loop n s io =
     (case ws_take_frame (wx_client s) (wx_raw s) of
        (Inl e, raw) \<Rightarrow> (Ready (Inl e), s\<lparr>wx_raw := raw\<rparr>, io)
      | (Inr (Some f), raw) \<Rightarrow>
          (case handle_frame n f (s\<lparr>wx_raw := raw\<rparr>) io of
             (Some r, s', io') \<Rightarrow> (r, s', io')
           | (None, s', io') \<Rightarrow> read_loop n s' io')
      | (Inr None, raw) \<Rightarrow>
          (case wi_reads io of
             [] \<Rightarrow> (Ready (Inr []), s\<lparr>wx_closed := True\<rparr>, io)
           | RdPending # rs \<Rightarrow> (Pending, s, io\<lparr>wi_reads := rs\<rparr>)
           | RdErr # rs \<Rightarrow> (Ready (Inl WsIo), s, io\<lparr>wi_reads := rs\<rparr>)
           | Rd c # rs \<Rightarrow>
               if c = [] then (Ready (Inr []), s\<lparr>wx_closed := True\<rparr>, io\<lparr>wi_reads := rs\<rparr>)
               else if length (wx_raw s) + length c > MAX_FRAME * 2
               then (Ready (Inl WsBufferTooLarge), s, io\<lparr>wi_reads := rs\<rparr>)
               else read_loop n (s\<lparr>wx_raw := wx_raw s @ c\<rparr>) (io\<lparr>wi_reads := rs\<rparr>)))"
  by pat_completeness auto
termination
  by (relation "measures [\<lambda>(n, s, io). length (wi_reads io), \<lambda>(n, s, io). length (wx_raw s)]")
    (auto dest!: handle_frame_keeps [OF sym] ws_take_frame_shorter [OF sym])

declare read_loop.simps [simp del]

definition ws_poll_read :: "nat \<Rightarrow> ws_stream \<Rightarrow> ws_io \<Rightarrow> (ws_error + bytes) poll \<times> ws_stream \<times> ws_io" where
  "ws_poll_read n s io =
     (if wx_rx s \<noteq> [] then (Ready (Inr (take n (wx_rx s))), s\<lparr>wx_rx := drop n (wx_rx s)\<rparr>, io)
      else if wx_closed s then (Ready (Inr []), s, io)
      else read_loop n s io)"

end
