(* ===== verification/Ws_Facts.thy ===== *)
theory Ws_Facts
  imports Ws
begin

text \<open>Lemmas on WebSocket frames, the frames of the two sides as instances of the keyed reader of \<open>Framing\<close>, and the
  properties of the byte stream over them.\<close>

unbundle bit_operations_syntax

section \<open>Bits of a frame header\<close>

lemma low7:
  fixes w :: u8
  assumes "unat w < 128"
  shows "w AND 0x7F = w" "(0x80 OR w) AND 0x7F = w" "w AND 0x80 = 0" "(0x80 OR w) AND 0x80 = 0x80"
proof -
  have w: "take_bit 7 w = w"
    using assms by (simp add: word_unat_eq_iff unsigned_take_bit_eq take_bit_nat_eq_self)
  have m: "(0x7F :: u8) = mask 7" by (simp add: mask_eq_exp_minus_1)
  show 1: "w AND 0x7F = w" using w by (simp only: m take_bit_eq_mask)
  have "(0x80 OR w) AND 0x7F = (0x80 AND 0x7F) OR (w AND 0x7F)"
    by (rule bit.conj_disj_distrib2)
  then show "(0x80 OR w) AND 0x7F = w" using 1 by simp
  have "w AND 0x80 = (w AND 0x7F) AND 0x80" using 1 by simp
  also have "\<dots> = 0" by (simp only: and.assoc) simp
  finally show 2: "w AND 0x80 = 0" .
  have "(0x80 OR w) AND 0x80 = (0x80 AND 0x80) OR (w AND 0x80)"
    by (rule bit.conj_disj_distrib2)
  then show "(0x80 OR w) AND 0x80 = 0x80" using 2 by simp
qed

lemma unat_byte: "n < 256 \<Longrightarrow> unat (of_nat n :: u8) = n"
  by (simp add: unsigned_of_nat take_bit_nat_eq_self)

text \<open>The second byte and the extended length.\<close>

definition len_byte :: "bool \<Rightarrow> nat \<Rightarrow> u8" where
  "len_byte masked n =
     (if masked then 0x80 else 0) OR (if n < 126 then of_nat n else if n \<le> 65535 then 126 else 127)"

definition len_ext :: "nat \<Rightarrow> bytes" where
  "len_ext n = (if n < 126 then [] else if n \<le> 65535 then be16 (of_nat n) else be64 (of_nat n))"

lemma build_frame_parts:
  "build_frame op p masked key =
     (0x80 OR op) # len_byte masked (length p) # len_ext (length p) @ (if masked then key @ xor_key key p else p)"
  by (simp add: build_frame_def len_byte_def len_ext_def Let_def)

lemma len_byte_bits:
  "unat (len_byte masked n AND 0x7F) = (if n < 126 then n else if n \<le> 65535 then 126 else 127)"
  "len_byte masked n AND 0x80 \<noteq> 0 \<longleftrightarrow> masked"
proof -
  define w :: u8 where "w = (if n < 126 then of_nat n else if n \<le> 65535 then 126 else 127)"
  have u: "unat w = (if n < 126 then n else if n \<le> 65535 then 126 else 127)"
    by (simp add: w_def unat_byte)
  then have "unat w < 128" by simp
  note b = low7 [OF this]
  have l: "len_byte masked n = (if masked then 0x80 else 0) OR w" by (simp add: len_byte_def w_def)
  show "unat (len_byte masked n AND 0x7F) = (if n < 126 then n else if n \<le> 65535 then 126 else 127)"
    unfolding l using b u by (cases masked) simp_all
  show "len_byte masked n AND 0x80 \<noteq> 0 \<longleftrightarrow> masked"
    unfolding l using b by (cases masked) simp_all
qed

lemma frame_length_built:
  assumes "n \<le> MAX_FRAME"
  shows "frame_length (b0 # len_byte masked n # take j (len_ext n @ r)) =
    (if j < length (len_ext n) then Inr None else Inr (Some (n, 2 + length (len_ext n))))"
proof -
  have n64: "n < 2 ^ 64" using assms by (simp add: MAX_FRAME_def)
  consider "n < 126" | "\<not> n < 126" "n \<le> 65535" | "\<not> n \<le> 65535" by linarith
  then show ?thesis
  proof cases
    case 1
    then show ?thesis by (simp add: frame_length_def len_byte_bits len_ext_def)
  next
    case 2
    obtain x y where xy: "be16 (of_nat n :: u16) = [x, y]" using be16_split by blast
    have "get16 [x, y] = (of_nat n :: u16)" using get_be(1) [of "of_nat n"] xy by simp
    moreover have "unat (of_nat n :: u16) = n" using 2 by (simp add: unsigned_of_nat take_bit_nat_eq_self)
    ultimately have "unat (get16 [x, y]) = n" by simp
    then show ?thesis
      using 2 by (cases j; cases "j - 1") (auto simp: frame_length_def len_byte_bits len_ext_def xy Let_def)
  next
    case 3
    have l: "length (be64 (of_nat n :: u64)) = 8" by simp
    have v: "unat (get64 (be64 (of_nat n :: u64))) = n"
      using n64 by (simp add: unsigned_of_nat take_bit_nat_eq_self)
    show ?thesis
    proof (cases "j < 8")
      case True
      then show ?thesis using 3 by (simp add: frame_length_def len_byte_bits len_ext_def)
    next
      case False
      then have "take 8 (take j (be64 (of_nat n :: u64) @ r)) = be64 (of_nat n)" by simp
      then show ?thesis
        using 3 False v assms by (simp add: frame_length_def len_byte_bits len_ext_def Let_def min_def)
    qed
  qed
qed

section \<open>A frame and its encoding\<close>

lemma xor_key_twice: "xor_key key (xor_key key p) = p"
  by (rule nth_equalityI) (simp_all add: xor_key_def nth_enumerate_eq xor.assoc)

lemma xor_key_length [simp]: "length (xor_key key p) = length p"
  by (simp add: xor_key_def)

text \<open>A frame to be sent: opcode, payload, mask.\<close>

definition ws_ok :: "u8 \<times> bytes \<times> bytes \<Rightarrow> bool" where
  "ws_ok f = (case f of (op, p, key) \<Rightarrow>
     op \<in> {OP_CONT, OP_TEXT, OP_BINARY, OP_CLOSE, OP_PING, OP_PONG} \<and> length key = 4 \<and> length p \<le> MAX_FRAME
     \<and> (op \<in> {OP_PING, OP_PONG, OP_CLOSE} \<longrightarrow> length p \<le> MAX_CONTROL_PAYLOAD))"

definition ws_enc :: "bool \<Rightarrow> u8 \<times> bytes \<times> bytes \<Rightarrow> bytes" where
  "ws_enc client f = (case f of (op, p, key) \<Rightarrow> build_frame op p client key)"

definition ws_val :: "u8 \<times> bytes \<times> bytes \<Rightarrow> u8 \<times> bool \<times> bytes" where
  "ws_val f = (case f of (op, p, key) \<Rightarrow> (op, True, p))"

definition ws_body :: "bool \<Rightarrow> u8 \<times> bytes \<times> bytes \<Rightarrow> bytes" where
  "ws_body client f = (case f of (op, p, key) \<Rightarrow> if client then key @ xor_key key p else p)"

lemma op_bits:
  assumes "op \<in> {OP_CONT, OP_TEXT, OP_BINARY, OP_CLOSE, OP_PING, OP_PONG}"
  shows "(0x80 OR op) AND 0x70 = 0" "(0x80 OR op) AND 0x0F = op" "(0x80 OR op) AND 0x80 \<noteq> 0"
  using assms
  by (auto simp: OP_CONT_def OP_TEXT_def OP_BINARY_def OP_CLOSE_def OP_PING_def OP_PONG_def)

lemma take_frame_short: "length b < 2 \<Longrightarrow> ws_take_frame r b = (Inr None, b)"
  by (simp add: ws_take_frame_def)

lemma take_frame_whole:
  assumes "2 \<le> length b" "b ! 0 AND 0x70 = 0" "b ! 0 AND 0x0F = op" "b ! 0 AND 0x80 \<noteq> 0"
    "b ! 1 AND 0x80 \<noteq> 0 \<longleftrightarrow> masked" "frame_length b = Inr (Some (n, need))" "n \<le> MAX_FRAME"
    "\<not> (op \<in> {OP_PING, OP_PONG, OP_CLOSE} \<and> n > MAX_CONTROL_PAYLOAD)"
    "\<not> length b < need + (if masked then 4 else 0) + n"
    "(if masked then xor_key (take 4 (drop need b)) (take n (drop (need + (if masked then 4 else 0)) b))
      else take n (drop (need + (if masked then 4 else 0)) b)) = p"
  shows "ws_take_frame (\<not> masked) b = (Inr (Some (op, True, p)), drop (need + (if masked then 4 else 0) + n) b)"
  using assms by (cases masked) (simp_all add: ws_take_frame_def Let_def)

text \<open>What \<open>ws_take_frame\<close> makes of the first \<open>k\<close> bytes of a frame and what follows it.\<close>

lemma take_frame_built:
  assumes ok: "ws_ok f" and j: "f = (op, p, key)"
    and t: "t = take j (len_ext (length p) @ ws_body client f @ r)"
  shows "ws_take_frame (\<not> client) ((0x80 OR op) # len_byte client (length p) # t) =
    (if j < length (len_ext (length p) @ ws_body client f)
     then (Inr None, (0x80 OR op) # len_byte client (length p) # t)
     else (Inr (Some (op, True, p)), drop (length (len_ext (length p) @ ws_body client f)) t))"
proof -
  let ?n = "length p" and ?b = "(0x80 OR op) # len_byte client (length p) # t"
  let ?e = "length (len_ext ?n)" and ?m = "if client then 4 else (0 :: nat)"
  have o: "op \<in> {OP_CONT, OP_TEXT, OP_BINARY, OP_CLOSE, OP_PING, OP_PONG}" "?n \<le> MAX_FRAME" "length key = 4"
      "\<not> (op \<in> {OP_PING, OP_PONG, OP_CLOSE} \<and> ?n > MAX_CONTROL_PAYLOAD)"
    using ok by (auto simp: ws_ok_def j)
  note ob = op_bits [OF o(1)]
  have fl: "frame_length ?b = (if j < ?e then Inr None else Inr (Some (?n, 2 + ?e)))"
    unfolding t by (rule frame_length_built [OF o(2)])
  have body: "length (ws_body client f) = ?m + ?n" using o(3) by (simp add: ws_body_def j)
  show ?thesis
  proof (cases "j < ?e")
    case True
    then show ?thesis
      using ob len_byte_bits(2) [of client ?n] by (simp add: ws_take_frame_def Let_def fl)
  next
    case ge: False
    have lt: "length t = min j (?e + (?m + ?n) + length r)" by (simp add: t body)
    have short: "length ?b < 2 + ?e + ?m + ?n \<longleftrightarrow> j < ?e + (?m + ?n)"
      using lt by auto
    show ?thesis
    proof (cases "j < ?e + (?m + ?n)")
      case True
      then show ?thesis
        using ob len_byte_bits(2) [of client ?n] o(2,4) ge short body
        by (auto simp add: ws_take_frame_def Let_def fl simp del: list.size)
    next
      case False
      have d: "drop ?e t = take (j - ?e) (ws_body client f @ r)"
        using ge by (simp add: t drop_take)
      have "j - ?e \<ge> length (ws_body client f)" using False body by simp
      then have d2: "drop ?e t = ws_body client f @ take (j - ?e - length (ws_body client f)) r"
        unfolding d by simp
      have p1: "take ?n (drop ?m (drop ?e t)) = (if client then xor_key key p else p)"
        unfolding d2 using o(3) by (cases client) (simp_all add: ws_body_def j)
      have p2: "client \<Longrightarrow> take 4 (drop ?e t) = key"
        unfolding d2 using o(3) by (simp add: ws_body_def j)
      have dd: "drop (2 + ?e + ?m) ?b = drop ?m (drop ?e t)" "drop (2 + ?e) ?b = drop ?e t"
          "drop (2 + ?e + ?m + ?n) ?b = drop (?e + (?m + ?n)) t"
        by (simp_all add: add.commute add.left_commute)
      have pl: "(if client then xor_key (take 4 (drop (2 + ?e) ?b)) (take ?n (drop (2 + ?e + ?m) ?b))
          else take ?n (drop (2 + ?e + ?m) ?b)) = p"
        using p1 p2 unfolding dd by (cases client) (simp_all add: xor_key_twice)
      have ns: "\<not> length ?b < 2 + ?e + ?m + ?n" using short False by simp
      have "ws_take_frame (\<not> client) ?b = (Inr (Some (op, True, p)), drop (2 + ?e + ?m + ?n) ?b)"
        using ob len_byte_bits(2) [of client ?n] o(2,4) ge fl
        by (intro take_frame_whole [OF _ _ _ _ _ _ _ _ ns pl]) simp_all
      then show ?thesis using False ge body by (simp add: dd add.assoc)
    qed
  qed
qed


lemma ws_enc_parts:
  "f = (op, p, key) \<Longrightarrow> ws_enc client f = (0x80 OR op) # len_byte client (length p) # len_ext (length p) @ ws_body client f"
  by (simp add: ws_enc_def build_frame_parts ws_body_def)

text \<open>The frames one side sends are what the reader of the other side expects.\<close>

interpretation ws_from_client: keyed_reader "ws_take_frame False" "ws_enc True" ws_val ws_ok
proof
  show "ws_take_frame False [] = (Inr None, [])" by (simp add: ws_take_frame_def)
  fix f :: "u8 \<times> bytes \<times> bytes" and rest k
  obtain op p key where f: "f = (op, p, key)" by (metis prod_cases3)
  let ?h = "len_ext (length p) @ ws_body True f"
  show "ws_enc True f \<noteq> []" by (simp add: ws_enc_parts [OF f])
  assume ok: "ws_ok f"
  have "len_ext (length p) @ ws_body True f @ rest = take (length (?h @ rest)) (len_ext (length p) @ ws_body True f @ rest)"
    by simp
  from take_frame_built [OF ok f this] show "ws_take_frame False (ws_enc True f @ rest) = (Inr (Some (ws_val f)), rest)"
    unfolding ws_enc_parts [OF f] by (simp add: ws_val_def f)
  assume k: "k < length (ws_enc True f)"
  show "ws_take_frame False (take k (ws_enc True f)) = (Inr None, take k (ws_enc True f))"
  proof (cases "k < 2")
    case False
    then obtain j where j: "k = Suc (Suc j)" by (metis One_nat_def Suc_1 less_2_cases_iff not0_implies_Suc)
    have "take j ?h = take j (len_ext (length p) @ ws_body True f @ [])" by simp
    from take_frame_built [OF ok f this] show ?thesis
      using k by (simp add: ws_enc_parts [OF f] j)
  qed (simp add: take_frame_short)
qed

interpretation ws_from_server: keyed_reader "ws_take_frame True" "ws_enc False" ws_val ws_ok
proof
  show "ws_take_frame True [] = (Inr None, [])" by (simp add: ws_take_frame_def)
  fix f :: "u8 \<times> bytes \<times> bytes" and rest k
  obtain op p key where f: "f = (op, p, key)" by (metis prod_cases3)
  let ?h = "len_ext (length p) @ ws_body False f"
  show "ws_enc False f \<noteq> []" by (simp add: ws_enc_parts [OF f])
  assume ok: "ws_ok f"
  have "len_ext (length p) @ ws_body False f @ rest = take (length (?h @ rest)) (len_ext (length p) @ ws_body False f @ rest)"
    by simp
  from take_frame_built [OF ok f this] show "ws_take_frame True (ws_enc False f @ rest) = (Inr (Some (ws_val f)), rest)"
    unfolding ws_enc_parts [OF f] by (simp add: ws_val_def f)
  assume k: "k < length (ws_enc False f)"
  show "ws_take_frame True (take k (ws_enc False f)) = (Inr None, take k (ws_enc False f))"
  proof (cases "k < 2")
    case False
    then obtain j where j: "k = Suc (Suc j)" by (metis One_nat_def Suc_1 less_2_cases_iff not0_implies_Suc)
    have "take j ?h = take j (len_ext (length p) @ ws_body False f @ [])" by simp
    from take_frame_built [OF ok f this] show ?thesis
      using k by (simp add: ws_enc_parts [OF f] j)
  qed (simp add: take_frame_short)
qed


section \<open>Reading\<close>

lemma frame_length_stable:
  "2 \<le> length b \<Longrightarrow> frame_length b = Inr (Some q) \<Longrightarrow> frame_length (b @ x) = Inr (Some q)"
proof -
  assume "2 \<le> length b" "frame_length b = Inr (Some q)"
  moreover from this(1) have "(b @ x) ! 1 = b ! 1" by (simp add: nth_append)
  ultimately show ?thesis by (auto simp: frame_length_def Let_def split: if_splits)
qed

lemma take_frame_stable:
  assumes "ws_take_frame r b = (Inr (Some f), rest)"
  shows "ws_take_frame r (b @ x) = (Inr (Some f), rest @ x)"
proof -
  have l2: "2 \<le> length b" using assms by (simp add: ws_take_frame_def split: if_splits)
  then have n: "(b @ x) ! 0 = b ! 0" "(b @ x) ! 1 = b ! 1" by (auto simp: nth_append)
  obtain len need where fl: "frame_length b = Inr (Some (len, need))"
    using assms l2 by (auto simp: ws_take_frame_def Let_def split: if_splits sum.splits option.splits)
  let ?m = "if b ! 1 AND 0x80 \<noteq> 0 then 4 else (0 :: nat)"
  have enough: "need + ?m + len \<le> length b"
    using assms l2 fl by (auto simp: ws_take_frame_def Let_def split: if_splits)
  have t: "take len (drop (need + ?m) (b @ x)) = take len (drop (need + ?m) b)"
      "drop (need + ?m + len) (b @ x) = drop (need + ?m + len) b @ x"
    using enough by simp_all
  have t4: "b ! 1 AND 0x80 \<noteq> 0 \<Longrightarrow> take 4 (drop need (b @ x)) = take 4 (drop need b)"
    using enough by simp
  show ?thesis
    using assms l2 enough t t4
    unfolding ws_take_frame_def Let_def n frame_length_stable [OF l2 fl] fl
    by (cases "b ! 1 AND 0x80 = 0") (simp_all split: if_splits)
qed

text \<open>The bytes the application is to be given for what arrives.\<close>

definition is_data :: "u8 \<Rightarrow> bool" where
  "is_data op \<longleftrightarrow> op = OP_BINARY \<or> op = OP_TEXT \<or> op = OP_CONT"

function ws_data :: "bool \<Rightarrow> bytes \<Rightarrow> bytes" where
  "ws_data r buf =
     (case ws_take_frame r buf of
        (Inr (Some (op, _, p)), rest) \<Rightarrow>
          if is_data op then p @ ws_data r rest
          else if op = OP_PING \<or> op = OP_PONG then ws_data r rest
          else []
      | _ \<Rightarrow> [])"
  by pat_completeness auto
termination
  by (relation "measure (\<lambda>(r, b). length b)") (auto dest!: ws_take_frame_shorter [OF sym])

declare ws_data.simps [simp del]

fun incoming :: "read_event list \<Rightarrow> bytes" where
  "incoming [] = []"
| "incoming (Rd c # rs) = (if c = [] then [] else c @ incoming rs)"
| "incoming (RdPending # rs) = incoming rs"
| "incoming (RdErr # rs) = []"

definition future :: "ws_stream \<Rightarrow> ws_io \<Rightarrow> bytes" where
  "future s io = wx_rx s @ (if wx_closed s then [] else ws_data (wx_client s) (wx_raw s @ incoming (wi_reads io)))"

lemma ws_data_none: "ws_take_frame r b = (Inr None, b') \<Longrightarrow> ws_data r b = []"
  by (subst ws_data.simps) simp

lemma ws_data_some:
  "ws_take_frame r b = (Inr (Some (op, fin, p)), rest) \<Longrightarrow>
    ws_data r (b @ x) = (if is_data op then p @ ws_data r (rest @ x)
       else if op = OP_PING \<or> op = OP_PONG then ws_data r (rest @ x) else [])"
  using take_frame_stable [of r b "(op, fin, p)" rest x] by (subst ws_data.simps) simp

lemma take_frame_none_same: "ws_take_frame r b = (Inr None, b') \<Longrightarrow> b' = b"
  by (auto simp: ws_take_frame_def Let_def split: if_splits sum.splits option.splits prod.splits)

lemma handle_frame_future:
  assumes "handle_frame n (op, fin, p) s io = (res, s', io')" "wx_rx s = []" "\<not> wx_closed s"
    and "\<And>x. ws_data (wx_client s) (b @ x) = (if is_data op then p @ ws_data (wx_client s) (wx_raw s @ x)
       else if op = OP_PING \<or> op = OP_PONG then ws_data (wx_client s) (wx_raw s @ x) else [])"
  shows "case res of
      None \<Rightarrow> wx_rx s' = [] \<and> \<not> wx_closed s' \<and> wx_client s' = wx_client s
        \<and> ws_data (wx_client s) (b @ incoming (wi_reads io)) = future s' io'
    | Some (Ready (Inr out)) \<Rightarrow> ws_data (wx_client s) (b @ incoming (wi_reads io)) = out @ future s' io'
    | Some Pending \<Rightarrow> ws_data (wx_client s) (b @ incoming (wi_reads io)) = future s' io'
    | Some (Ready (Inl e)) \<Rightarrow> True"
proof (cases "is_data op")
  case True
  then have d: "op = OP_BINARY \<or> op = OP_TEXT \<or> op = OP_CONT" by (simp add: is_data_def)
  show ?thesis
  proof (cases "p = []")
    case p: True
    then have "res = None" "s' = s" "io' = io" using assms(1) d by (auto simp: handle_frame_def)
    then show ?thesis using assms(2-4) True p by (simp add: future_def)
  next
    case p: False
    then have r: "res = Some (Ready (Inr (take n p)))" "io' = io"
        "s' = (if n < length p then s\<lparr>wx_rx := drop n p\<rparr> else s)"
      using assms(1) d by (auto simp: handle_frame_def give_def)
    have "take n p @ (if n < length p then drop n p else []) = p" by simp
    then show ?thesis
      using assms(2-4) True r by (auto simp: future_def simp flip: append_assoc)
  qed
next
  case nd: False
  then have d: "\<not> (op = OP_BINARY \<or> op = OP_TEXT \<or> op = OP_CONT)" by (simp add: is_data_def)
  show ?thesis
  proof (cases "op = OP_PING")
    case True
    obtain pong io1 where m: "make_frame OP_PONG p s io = (pong, io1)" by fastforce
    obtain r s2 io2 where pd: "poll_drain (s\<lparr>wx_tx := wx_tx s @ pong\<rparr>) io1 = (r, s2, io2)" by (metis prod_cases3)
    note k = poll_drain_keeps [OF pd] make_frame_keeps [OF m]
    have f: "ws_data (wx_client s) (b @ incoming (wi_reads io)) = future s2 io2"
      using assms(2-4) nd True k by (simp add: future_def)
    have "(res, s', io') = (case r of Ready (Inr _) \<Rightarrow> (None, s2, io2) | Ready (Inl e) \<Rightarrow> (Some (Ready (Inl e)), s2, io2)
        | Pending \<Rightarrow> (Some Pending, s2, io2))"
      using assms(1) d True m pd by (auto simp: handle_frame_def split: poll.splits sum.splits)
    then show ?thesis
      using f k assms(2,3) by (auto split: poll.splits sum.splits)
  next
    case np: False
    then show ?thesis
      using assms d nd by (auto simp: handle_frame_def future_def split: if_splits)
  qed
qed


definition kept :: "bytes \<Rightarrow> (ws_error + bytes) poll \<Rightarrow> ws_stream \<Rightarrow> ws_io \<Rightarrow> bool" where
  "kept all r s io =
     (case r of Ready (Inr out) \<Rightarrow> all = out @ future s io
      | Pending \<Rightarrow> all = future s io
      | Ready (Inl e) \<Rightarrow> True)"

lemma read_loop_kept:
  assumes "wx_rx s = []" "\<not> wx_closed s" "read_loop n s io = (r, s', io')"
  shows "kept (future s io) r s' io'"
  using assms
proof (induction n s io arbitrary: r s' io' rule: read_loop.induct)
  case (1 n s io)
  obtain q raw where t: "ws_take_frame (wx_client s) (wx_raw s) = (q, raw)" by fastforce
  have fut: "future s io = ws_data (wx_client s) (wx_raw s @ incoming (wi_reads io))"
    using "1.prems" by (simp add: future_def)
  consider (err) e where "q = Inl e" | (frame) f where "q = Inr (Some f)" | (none) "q = Inr None"
    by (metis not_None_eq old.sum.exhaust)
  then show ?case
  proof cases
    case err
    then have "r = Ready (Inl e)" using "1.prems"(3) t by (simp add: read_loop.simps [of n s io])
    then show ?thesis by (simp add: kept_def)
  next
    case frame
    obtain op fin p where f: "f = (op, fin, p)" by (metis prod_cases3)
    obtain res s1 io1 where h: "handle_frame n f (s\<lparr>wx_raw := raw\<rparr>) io = (res, s1, io1)" by (metis prod_cases3)
    have data: "ws_data (wx_client (s\<lparr>wx_raw := raw\<rparr>)) (wx_raw s @ x) =
        (if is_data op then p @ ws_data (wx_client (s\<lparr>wx_raw := raw\<rparr>)) (wx_raw (s\<lparr>wx_raw := raw\<rparr>) @ x)
         else if op = OP_PING \<or> op = OP_PONG
         then ws_data (wx_client (s\<lparr>wx_raw := raw\<rparr>)) (wx_raw (s\<lparr>wx_raw := raw\<rparr>) @ x) else [])" for x
      using ws_data_some [of "wx_client s" "wx_raw s" op fin p raw x] t frame f by simp
    have hf: "case res of
      None \<Rightarrow> wx_rx s1 = [] \<and> \<not> wx_closed s1 \<and> wx_client s1 = wx_client s \<and> future s io = future s1 io1
    | Some (Ready (Inr out)) \<Rightarrow> future s io = out @ future s1 io1
    | Some Pending \<Rightarrow> future s io = future s1 io1
    | Some (Ready (Inl e)) \<Rightarrow> True"
    proof -
      have cl: "wx_client (s\<lparr>wx_raw := raw\<rparr>) = wx_client s" "wx_rx (s\<lparr>wx_raw := raw\<rparr>) = []"
          "\<not> wx_closed (s\<lparr>wx_raw := raw\<rparr>)"
        using "1.prems"(1,2) by simp_all
      from handle_frame_future [OF h [unfolded f] cl(2,3) data] show ?thesis unfolding fut cl(1) .
    qed
    show ?thesis
    proof (cases res)
      case None
      have "read_loop n s1 io1 = (r, s', io')"
        using "1.prems"(3) t frame h None by (simp add: read_loop.simps [of n s io])
      then have "kept (future s1 io1) r s' io'"
        by (rule "1.IH"(2) [OF t [symmetric] frame refl h [symmetric] None refl, rotated -1]) (use None hf in simp_all)
      then show ?thesis using hf None by simp
    next
      case (Some x)
      then have "r = x" "s' = s1" "io' = io1"
        using "1.prems"(3) t frame h by (simp_all add: read_loop.simps [of n s io])
      then show ?thesis using hf Some by (auto simp: kept_def split: poll.splits sum.splits)
    qed
  next
    case none
    have same: "raw = wx_raw s" using t none take_frame_none_same by blast
    have nodata: "ws_data (wx_client s) (wx_raw s) = []" using t none by (simp add: ws_data_none)
    show ?thesis
    proof (cases "wi_reads io")
      case Nil
      then have "(r, s', io') = (Ready (Inr []), s\<lparr>wx_closed := True\<rparr>, io)"
        using "1.prems"(3) t none by (simp add: read_loop.simps [of n s io])
      then show ?thesis using Nil "1.prems"(1) nodata by (simp add: kept_def future_def)
    next
      case (Cons ev rs)
      show ?thesis
      proof (cases ev)
        case RdPending
        then have "(r, s', io') = (Pending, s, io\<lparr>wi_reads := rs\<rparr>)"
          using "1.prems"(3) t none Cons by (simp add: read_loop.simps [of n s io])
        then show ?thesis using Cons RdPending by (simp add: kept_def future_def)
      next
        case RdErr
        then have "r = Ready (Inl WsIo)"
          using "1.prems"(3) t none Cons by (simp add: read_loop.simps [of n s io])
        then show ?thesis by (simp add: kept_def)
      next
        case (Rd c)
        show ?thesis
        proof (cases "c = []")
          case True
          then have "(r, s', io') = (Ready (Inr []), s\<lparr>wx_closed := True\<rparr>, io\<lparr>wi_reads := rs\<rparr>)"
            using "1.prems"(3) t none Cons Rd by (simp add: read_loop.simps [of n s io])
          then show ?thesis using "1.prems"(1) nodata Cons Rd True by (simp add: kept_def future_def)
        next
          case c: False
          let ?s = "s\<lparr>wx_raw := wx_raw s @ c\<rparr>" and ?io = "io\<lparr>wi_reads := rs\<rparr>"
          have f2: "future s io = future ?s ?io"
            using "1.prems"(1,2) Cons Rd c by (simp add: future_def)
          show ?thesis
          proof (cases "length (wx_raw s) + length c > MAX_FRAME * 2")
            case True
            then have "r = Ready (Inl WsBufferTooLarge)"
              using "1.prems"(3) t none Cons Rd c by (simp add: read_loop.simps [of n s io])
            then show ?thesis by (simp add: kept_def)
          next
            case False
            then have "read_loop n ?s ?io = (r, s', io')"
              using "1.prems"(3) t none Cons Rd c by (simp add: read_loop.simps [of n s io])
            then have "kept (future ?s ?io) r s' io'"
              by (rule "1.IH"(1) [OF t [symmetric] none refl Cons Rd, rotated -1]) (use c False "1.prems"(1,2) in simp_all)
            then show ?thesis using f2 by simp
          qed
        qed
      qed
    qed
  qed
qed

lemma poll_read_kept:
  assumes "ws_poll_read n s io = (r, s', io')"
  shows "kept (future s io) r s' io'"
proof (cases "wx_rx s = []")
  case True
  show ?thesis
  proof (cases "wx_closed s")
    case c: True
    then show ?thesis using assms True by (auto simp: ws_poll_read_def kept_def future_def)
  next
    case False
    then show ?thesis using assms True read_loop_kept by (simp add: ws_poll_read_def)
  qed
next
  case False
  then show ?thesis using assms by (auto simp: ws_poll_read_def kept_def future_def)
qed

text \<open>Polls with room for the given numbers of bytes, up to an error.\<close>

fun read_polls :: "nat list \<Rightarrow> ws_stream \<Rightarrow> ws_io \<Rightarrow> bytes \<times> bool \<times> ws_stream \<times> ws_io" where
  "read_polls [] s io = ([], True, s, io)"
| "read_polls (n # ns) s io =
     (case ws_poll_read n s io of
        (Ready (Inl e), s, io) \<Rightarrow> ([], False, s, io)
      | (Pending, s, io) \<Rightarrow> read_polls ns s io
      | (Ready (Inr b), s, io) \<Rightarrow> (case read_polls ns s io of (bs, rest) \<Rightarrow> (b @ bs, rest)))"

lemma read_polls_kept:
  "read_polls ns s io = (bs, True, s', io') \<Longrightarrow> future s io = bs @ future s' io'"
proof (induction ns arbitrary: s io bs)
  case (Cons n ns)
  obtain r s1 io1 where p: "ws_poll_read n s io = (r, s1, io1)" by (metis prod_cases3)
  note k = poll_read_kept [OF p]
  show ?case
  proof (cases r)
    case Pending
    then show ?thesis using Cons p k by (simp add: kept_def)
  next
    case (Ready x)
    then show ?thesis
    proof (cases x)
      case (Inr b)
      then obtain cs where "read_polls ns s1 io1 = (cs, True, s', io')" "bs = b @ cs"
        using Cons.prems p Ready by (auto split: prod.splits)
      then show ?thesis using Cons.IH k Ready Inr by (simp add: kept_def)
    qed (use Cons p in simp)
  qed
qed simp

text \<open>The data of a list of frames, up to a close.\<close>

fun payloads :: "(u8 \<times> bytes \<times> bytes) list \<Rightarrow> bytes" where
  "payloads [] = []"
| "payloads ((op, p, key) # fs) =
     (if is_data op then p @ payloads fs else if op = OP_CLOSE then [] else payloads fs)"

lemma ws_take_nil: "ws_data r [] = []"
  by (rule ws_data_none [of r "[]" "[]"]) (simp add: take_frame_short)

lemma take_enc_client: "ws_ok f \<Longrightarrow> ws_take_frame (\<not> client) (ws_enc client f @ r) = (Inr (Some (ws_val f)), r)"
  using ws_from_client.take_enc ws_from_server.take_enc by (cases client) simp_all

lemma ws_data_frames:
  "list_all ws_ok fs \<Longrightarrow> ws_data (\<not> client) (concat (map (ws_enc client) fs)) = payloads fs"
proof (induction fs)
  case (Cons f fs)
  obtain op p key where f: "f = (op, p, key)" by (metis prod_cases3)
  have "op \<in> {OP_CONT, OP_TEXT, OP_BINARY, OP_CLOSE, OP_PING, OP_PONG}" using Cons.prems by (simp add: f ws_ok_def)
  moreover have "ws_take_frame (\<not> client) (ws_enc client f @ concat (map (ws_enc client) fs))
      = (Inr (Some (op, True, p)), concat (map (ws_enc client) fs))"
    using take_enc_client [of f client] Cons.prems by (simp add: f ws_val_def)
  ultimately show ?case
    using Cons by (subst ws_data.simps)
      (auto simp: f is_data_def OP_CONT_def OP_TEXT_def OP_BINARY_def OP_CLOSE_def OP_PING_def OP_PONG_def)
qed (simp add: ws_take_nil)

text \<open>C20: A stream that is given the frames of its peer in pieces of any size, between polls that find nothing,
  hands its reader exactly the payloads of the data frames, in order, whatever the sizes of the
  reader's buffers: what polls without an error have returned, what is kept for later and what is still to come
  make up the payloads; pings and pongs in between leave no trace.\<close>

theorem ws_read_exact:
  assumes "list_all ws_ok fs" "leftover @ incoming (wi_reads io) = concat (map (ws_enc (\<not> client)) fs)"
    and "read_polls ns (ws_new client leftover) io = (bs, True, s', io')"
  shows "bs @ future s' io' = payloads fs \<and> (wx_closed s' \<and> wx_rx s' = [] \<longrightarrow> bs = payloads fs)"
proof -
  have "future (ws_new client leftover) io = payloads fs"
    using ws_data_frames [OF assms(1), of "\<not> client"] assms(2) by (simp add: future_def ws_new_def)
  then have "bs @ future s' io' = payloads fs" using read_polls_kept [OF assms(3)] by simp
  then show ?thesis by (auto simp: future_def)
qed

theorem ws_read_exact_witness:
  "let fs = [(OP_BINARY, [7 :: u8], [0, 0, 0, 0])];
       io = \<lparr>wi_reads = [], wi_writes = [], wi_out = [], wi_keys = (\<lambda>_. []), wi_drawn = 0\<rparr>;
       leftover = ws_enc False (OP_BINARY, [7], [0, 0, 0, 0]);
       (bs, ok, s', io') = read_polls [5, 5] (ws_new True leftover) io
   in ok \<and> bs = [7] \<and> bs @ future s' io' = payloads fs"
proof -
  let ?f = "(OP_BINARY, [7 :: u8], [0, 0, 0, 0] :: bytes)"
  let ?io = "\<lparr>wi_reads = [], wi_writes = [], wi_out = [], wi_keys = (\<lambda>_. []), wi_drawn = 0\<rparr>"
  let ?s = "ws_new True []"
  have ok: "ws_ok ?f" by (simp add: ws_ok_def MAX_FRAME_def OP_BINARY_def OP_PING_def OP_PONG_def OP_CLOSE_def)
  have t: "ws_take_frame True (ws_enc False ?f) = (Inr (Some (OP_BINARY, True, [7])), [])"
    using take_enc_client [OF ok, of False "[]"] by (simp add: ws_val_def)
  have p1: "ws_poll_read 5 (ws_new True (ws_enc False ?f)) ?io = (Ready (Inr [7]), ?s, ?io)"
    using t by (simp add: ws_poll_read_def ws_new_def read_loop.simps handle_frame_def give_def)
  have p2: "ws_poll_read 5 ?s ?io = (Ready (Inr []), ?s\<lparr>wx_closed := True\<rparr>, ?io)"
    by (simp add: ws_poll_read_def ws_new_def read_loop.simps take_frame_short)
  have r: "read_polls [5, 5] (ws_new True (ws_enc False ?f)) ?io = ([7], True, ?s\<lparr>wx_closed := True\<rparr>, ?io)"
    by (simp add: p1 p2)
  have "[7] @ future (?s\<lparr>wx_closed := True\<rparr>) ?io = payloads [?f]"
    using ws_read_exact [OF _ _ r, of "[?f]"] ok by simp
  then show ?thesis by (simp only: Let_def r prod.case simp_thms)
qed

section \<open>Writing\<close>

lemma drain_loop_parts:
  "drain_loop ws bs = (r, ws', left, out) \<Longrightarrow> out @ left = bs \<and> (r = Ready (Inr ()) \<longrightarrow> left = [])"
proof (induction ws bs arbitrary: r ws' left out rule: drain_loop.induct)
  case (3 n ws b bs)
  show ?case
  proof (cases "n = 0")
    case False
    obtain r2 w2 l2 o2 where d: "drain_loop ws (drop n (b # bs)) = (r2, w2, l2, o2)" by (metis prod_cases4)
    then have "r = r2" "left = l2" "out = take n (b # bs) @ o2" using "3.prems" False by simp_all
    moreover have "o2 @ l2 = drop n (b # bs) \<and> (r2 = Ready (Inr ()) \<longrightarrow> l2 = [])" using "3.IH" False d by simp
    ultimately show ?thesis by (metis append.assoc append_take_drop_id)
  qed (use 3 in auto)
qed auto

lemma drain_loop_free: "drain_loop [] bs = (Ready (Inr ()), [], [], bs)"
  by (cases bs) simp_all

lemma poll_drain_free:
  "wi_writes io = [] \<Longrightarrow>
    poll_drain s io = (Ready (Inr ()), s\<lparr>wx_tx := [], wx_off := 0\<rparr>, io\<lparr>wi_out := wi_out io @ drop (wx_off s) (wx_tx s)\<rparr>)"
  by (simp add: poll_drain_def drain_loop_free)

text \<open>C40: \<open>poll_write\<close> builds a new frame each time it is called: when the socket takes a part of the first frame
  and then blocks, the caller is told that nothing was written and calls again with the same
  bytes; the rest of the first frame and a second frame go out, and the peer reads the bytes twice.\<close>

theorem ws_blocked_write_duplicates:
  assumes "0 < j" "j < length (build_frame OP_BINARY buf True (wi_keys io 0))"
    and "wi_writes io = [WrTake j, WrPending]" "wi_out io = []" "wi_drawn io = 0"
    and "length (wi_keys io 0) = 4" "length (wi_keys io 1) = 4" "length buf \<le> MAX_FRAME"
  shows "\<exists>s1 io1 s2 io2. poll_write buf (ws_new True []) io = (Pending, s1, io1)
    \<and> poll_write buf s1 io1 = (Ready (Inr (length buf)), s2, io2)
    \<and> ws_data False (wi_out io2) = buf @ buf"
proof -
  let ?f0 = "build_frame OP_BINARY buf True (wi_keys io 0)" and ?f1 = "build_frame OP_BINARY buf True (wi_keys io 1)"
  let ?s0 = "ws_new True []"
  have ne: "build_frame op p m k \<noteq> []" for op p m k by (simp add: build_frame_parts)
  obtain b bs where f0: "?f0 = b # bs" using ne by (metis neq_Nil_conv)
  have d1: "poll_drain ?s0 io = (Ready (Inr ()), ?s0, io)"
    by (simp add: poll_drain_def ws_new_def assms(4))
  let ?io0 = "io\<lparr>wi_drawn := 1\<rparr>"
  have m0: "make_frame OP_BINARY buf ?s0 io = (?f0, ?io0)" by (simp add: make_frame_def ws_new_def assms(5))
  obtain c cs where left: "drop j ?f0 = c # cs" using assms(2) by (metis drop_eq_Nil neq_Nil_conv not_le)
  let ?s1 = "?s0\<lparr>wx_tx := ?f0, wx_off := j\<rparr>" and ?io1 = "?io0\<lparr>wi_writes := [], wi_out := take j ?f0\<rparr>"
  have "drain_loop [WrTake j, WrPending] ?f0 = (Pending, [], c # cs, take j ?f0)"
    using assms(1) left f0 by simp
  moreover have "length ?f0 - length (c # cs) = j" using arg_cong [OF left, of length] assms(2) by simp
  ultimately have "poll_drain (?s0\<lparr>wx_tx := ?f0, wx_off := 0\<rparr>) ?io0 = (Pending, ?s1, ?io1)"
    using assms(3,4) by (simp add: poll_drain_def)
  then have w1: "poll_write buf ?s0 io = (Pending, ?s1, ?io1)" by (simp add: poll_write_def d1 m0)
  let ?s2 = "?s1\<lparr>wx_tx := [], wx_off := 0\<rparr>" and ?io2 = "?io1\<lparr>wi_out := ?f0\<rparr>"
  have d2: "poll_drain ?s1 ?io1 = (Ready (Inr ()), ?s2, ?io2)" by (simp add: poll_drain_free)
  have "\<exists>s2 io2. poll_write buf ?s1 ?io1 = (Ready (Inr (length buf)), s2, io2) \<and> wi_out io2 = ?f0 @ ?f1"
    unfolding poll_write_def d2 by (simp add: make_frame_def ws_new_def poll_drain_free)
  moreover have "ws_data False (?f0 @ ?f1) = buf @ buf"
    using ws_data_frames [of "[(OP_BINARY, buf, wi_keys io 0), (OP_BINARY, buf, wi_keys io 1)]" True] assms(6-8)
    by (simp add: ws_ok_def ws_enc_def is_data_def OP_BINARY_def OP_PING_def OP_PONG_def OP_CLOSE_def)
  ultimately show ?thesis using w1 by metis
qed

theorem ws_blocked_write_duplicates_witness:
  "let io = \<lparr>wi_reads = [], wi_writes = [WrTake 1, WrPending], wi_out = [], wi_keys = (\<lambda>_. [1, 2, 3, 4]), wi_drawn = 0\<rparr>
   in \<exists>s1 io1 s2 io2. poll_write [7] (ws_new True []) io = (Pending, s1, io1)
     \<and> poll_write [7] s1 io1 = (Ready (Inr 1), s2, io2) \<and> ws_data False (wi_out io2) = [7, 7]"
  using ws_blocked_write_duplicates
    [of 1 "[7]" "\<lparr>wi_reads = [], wi_writes = [WrTake 1, WrPending], wi_out = [], wi_keys = (\<lambda>_. [1, 2, 3, 4]), wi_drawn = 0\<rparr>"]
  by (simp add: build_frame_def MAX_FRAME_def)

end
