(* ===== verification/Ws_Handshake.thy ===== *)
theory Ws_Handshake
  imports Ws_Facts Http_Forward
begin

text \<open>
  The opening handshake of a WebSocket (\<open>accept\<close>, \<open>connect\<close> of \<open>common/src/ws.rs\<close>) on a scripted
  socket: the pieces its reads return, what was written, and whether writing fails. The random key is
  an argument; SHA-1 followed by base64 is the parameter \<open>digest\<close>.
\<close>

record hs_io =
  hs_reads :: "bytes list"
  hs_out :: bytes
  hs_broken :: bool

definition hs_write :: "string \<Rightarrow> hs_io \<Rightarrow> (ws_error + unit) \<times> hs_io" where
  "hs_write text io = (if hs_broken io then (Inl WsIo, io) else (Inr (), io\<lparr>hs_out := hs_out io @ as_bytes text\<rparr>))"

definition head_end_mark :: bytes where "head_end_mark = [13, 10, 13, 10]"

definition find_head_end :: "bytes \<Rightarrow> nat option" where
  "find_head_end buf = find_from head_end_mark 0 buf"

text \<open>The loop that reads the head: where the head ends, and all that was read. A read of nothing is the end of the
  stream.\<close>

fun read_handshake :: "bytes list \<Rightarrow> bytes \<Rightarrow> (ws_error + nat \<times> bytes) \<times> bytes list" where
  "read_handshake [] buf =
     (case find_head_end buf of
        Some i \<Rightarrow> (Inr (i + 4, buf), [])
      | None \<Rightarrow> (Inl (if length buf > MAX_HANDSHAKE then WsHeadTooLarge else WsHeadEof), []))"
| "read_handshake (c # cs) buf =
     (case find_head_end buf of
        Some i \<Rightarrow> (Inr (i + 4, buf), c # cs)
      | None \<Rightarrow>
          if length buf > MAX_HANDSHAKE then (Inl WsHeadTooLarge, c # cs)
          else if c = [] then (Inl WsHeadEof, cs)
          else read_handshake cs (buf @ c))"

definition parse_request_line :: "string \<Rightarrow> string \<times> string" where
  "parse_request_line head =
     (let line = (case str_lines head of [] \<Rightarrow> [] | l # _ \<Rightarrow> l); it = split_whitespace line
      in (case nth_opt it 0 of Some a \<Rightarrow> a | None \<Rightarrow> [], case nth_opt it 1 of Some b \<Rightarrow> b | None \<Rightarrow> []))"

fun find_header :: "string list \<Rightarrow> string \<Rightarrow> string option" where
  "find_header [] name = None"
| "find_header (l # ls) name =
     (case split_once (CHR '':'') l of
        Some (k, v) \<Rightarrow> if eq_ignore_ascii_case (trim k) name then Some v else find_header ls name
      | None \<Rightarrow> find_header ls name)"

definition header_value :: "string \<Rightarrow> string \<Rightarrow> string option" where
  "header_value head name = find_header (drop 1 (str_lines head)) name"

definition header_contains :: "string \<Rightarrow> string \<Rightarrow> string \<Rightarrow> bool" where
  "header_contains head name needle =
     (case header_value head name of
        Some v \<Rightarrow> str_contains (to_ascii_lowercase v) (to_ascii_lowercase needle)
      | None \<Rightarrow> False)"

definition accept_key :: "(bytes \<Rightarrow> string) \<Rightarrow> string \<Rightarrow> string" where
  "accept_key digest client_key = digest (as_bytes (trim client_key) @ as_bytes WS_GUID)"

definition respond_error :: "nat \<Rightarrow> string \<Rightarrow> hs_io \<Rightarrow> (ws_error + unit) \<times> hs_io" where
  "respond_error code reason io =
     (let body = show_nat code @ '' '' @ reason @ [CHR 10]
      in hs_write (''HTTP/1.1 '' @ show_nat code @ '' '' @ reason @ crlf
           @ ''Content-Type: text/plain; charset=utf-8'' @ crlf
           @ ''Content-Length: '' @ show_nat (length body) @ crlf
           @ ''Connection: close'' @ crlf @ crlf @ body) io)"

definition switching_response :: "string \<Rightarrow> string" where
  "switching_response accept =
     ''HTTP/1.1 101 Switching Protocols'' @ crlf @ ''Upgrade: websocket'' @ crlf @ ''Connection: Upgrade'' @ crlf
     @ ''Sec-WebSocket-Accept: '' @ accept @ crlf @ crlf"

text \<open>A refusal is answered first; when that write fails, its error is the result.\<close>

definition refuse :: "nat \<Rightarrow> string \<Rightarrow> ws_error \<Rightarrow> hs_io \<Rightarrow> (ws_error + ws_stream) \<times> hs_io" where
  "refuse code reason e io =
     (case respond_error code reason io of (Inl w, io) \<Rightarrow> (Inl w, io) | (Inr _, io) \<Rightarrow> (Inl e, io))"

definition ws_accept :: "(bytes \<Rightarrow> string) \<Rightarrow> hs_io \<Rightarrow> (ws_error + ws_stream) \<times> hs_io" where
  "ws_accept digest io =
     (case read_handshake (hs_reads io) [] of
        (Inl e, rs) \<Rightarrow> (Inl e, io\<lparr>hs_reads := rs\<rparr>)
      | (Inr (head_end, buf), rs) \<Rightarrow>
          let io = io\<lparr>hs_reads := rs\<rparr>;
              head = from_utf8_lossy (take head_end buf);
              (meth, path) = parse_request_line head
          in if meth \<noteq> ''GET'' then refuse 405 ''Method Not Allowed'' (WsNotGet meth) io
             else if \<not> header_contains head ''upgrade'' ''websocket''
             then refuse 400 ''Bad Request'' WsNoUpgrade io
             else (case header_value head ''sec-websocket-key'' of
                    None \<Rightarrow> (Inl WsNoKey, io)
                  | Some key \<Rightarrow>
                      let version = (case header_value head ''sec-websocket-version'' of Some v \<Rightarrow> v | None \<Rightarrow> [])
                      in if version \<noteq> [] \<and> trim version \<noteq> ''13''
                         then refuse 426 ''Upgrade Required'' (WsBadVersion version) io
                         else (case hs_write (switching_response (accept_key digest key)) io of
                                (Inl w, io) \<Rightarrow> (Inl w, io)
                              | (Inr _, io) \<Rightarrow> (Inr (ws_new False (drop head_end buf)), io))))"

definition connect_request :: "string \<Rightarrow> string \<Rightarrow> (string \<times> string) list \<Rightarrow> string \<Rightarrow> string" where
  "connect_request host path extra key =
     ''GET '' @ path @ '' HTTP/1.1'' @ crlf @ ''Host: '' @ host @ crlf @ ''Upgrade: websocket'' @ crlf
     @ ''Connection: Upgrade'' @ crlf @ ''Sec-WebSocket-Key: '' @ key @ crlf @ ''Sec-WebSocket-Version: 13'' @ crlf
     @ concat (map (\<lambda>(k, v). k @ '': '' @ v @ crlf) extra) @ crlf"

definition response_code :: "string \<Rightarrow> u16" where
  "response_code status =
     (case split_whitespace status of
        [] \<Rightarrow> 0
      | s # _ \<Rightarrow> (case parse_u16 s of Some c \<Rightarrow> c | None \<Rightarrow> 0))"

text \<open>\<open>connect\<close> in two steps: send the request, then read the answer.\<close>

definition check_response :: "(bytes \<Rightarrow> string) \<Rightarrow> string \<Rightarrow> hs_io \<Rightarrow> (ws_error + ws_stream) \<times> hs_io" where
  "check_response digest key io =
     (case read_handshake (hs_reads io) [] of
        (Inl e, rs) \<Rightarrow> (Inl e, io\<lparr>hs_reads := rs\<rparr>)
      | (Inr (head_end, buf), rs) \<Rightarrow>
          let io = io\<lparr>hs_reads := rs\<rparr>;
              head = from_utf8_lossy (take head_end buf);
              code = response_code (snd (parse_request_line head))
          in if code \<noteq> 101 then (Inl (WsNotSwitching (unat code)), io)
             else let got = (case header_value head ''sec-websocket-accept'' of Some v \<Rightarrow> v | None \<Rightarrow> [])
                  in if \<not> eq_ignore_ascii_case (trim got) (accept_key digest key) then (Inl WsBadAccept, io)
                     else (Inr (ws_new True (drop head_end buf)), io))"

definition ws_connect ::
  "(bytes \<Rightarrow> string) \<Rightarrow> string \<Rightarrow> string \<Rightarrow> string \<Rightarrow> (string \<times> string) list \<Rightarrow> hs_io
    \<Rightarrow> (ws_error + ws_stream) \<times> hs_io" where
  "ws_connect digest key host path extra io =
     (case hs_write (connect_request host path extra key) io of
        (Inl w, io) \<Rightarrow> (Inl w, io)
      | (Inr _, io) \<Rightarrow> check_response digest key io)"

section \<open>Heads made of lines\<close>

lemma find_head_end_exact:
  "find_head_end b = Some i \<longleftrightarrow>
     take 4 (drop i b) = head_end_mark \<and> (\<forall>j<i. take 4 (drop j b) \<noteq> head_end_mark)"
proof -
  have "length head_end_mark = 4" "head_end_mark \<noteq> []" by (simp_all add: head_end_mark_def)
  then show ?thesis using find_from_exact [of head_end_mark 0 b i] by (simp add: find_head_end_def)
qed

text \<open>A line that ends neither itself nor the head.\<close>

definition line_ok :: "string \<Rightarrow> bool" where
  "line_ok l \<longleftrightarrow> l \<noteq> [] \<and> valid_str l \<and> CHR 10 \<notin> set l \<and> CHR 13 \<notin> set l"

definition head_text :: "string list \<Rightarrow> string" where
  "head_text ls = concat (map (\<lambda>l. l @ crlf) ls) @ crlf"

lemma find_from_skip:
  "13 \<notin> set l \<Longrightarrow> find_from head_end_mark k (l @ r) = find_from head_end_mark (k + length l) r"
  by (induction l arbitrary: k) (auto simp: head_end_mark_def)

lemma find_head_lines:
  assumes "ls \<noteq> []" "\<forall>l\<in>set ls. l \<noteq> [] \<and> 13 \<notin> set l"
  shows "find_from head_end_mark k (concat (map (\<lambda>l. l @ [13, 10]) ls) @ [13, 10] @ r)
    = Some (k + length (concat (map (\<lambda>l. l @ [13, 10 :: u8]) ls)) - 2)"
  using assms
proof (induction ls arbitrary: k)
  case (Cons l ls)
  show ?case
  proof (cases ls)
    case Nil
    then show ?thesis using Cons.prems by (simp add: find_from_skip) (simp add: head_end_mark_def)
  next
    case (Cons m ms)
    then obtain c cs where m: "m = c # cs" "c \<noteq> 13" using Cons.prems(2) by (cases m) auto
    have "find_from head_end_mark k (concat (map (\<lambda>l. l @ [13, 10]) (l # ls)) @ [13, 10] @ r)
      = find_from head_end_mark (k + length l + 2) (concat (map (\<lambda>l. l @ [13, 10]) ls) @ [13, 10] @ r)"
      using Cons.prems(2) m by (simp add: find_from_skip Cons) (simp add: head_end_mark_def)
    then show ?thesis using Cons.IH [of "k + length l + 2"] Cons.prems Cons by simp
  qed
qed simp

lemma byte_of_cr: "byte_of c = 13 \<longleftrightarrow> c = CHR 13"
proof -
  have "byte_of (CHR 13) = 13" by (simp add: byte_of_def)
  then show ?thesis using as_bytes_inj [of "[c]" "[CHR 13]"] by (auto simp: as_bytes_def)
qed

lemma cr_as_bytes: "13 \<in> set (as_bytes l) \<longleftrightarrow> CHR 13 \<in> set l"
  by (induction l) (auto simp: as_bytes_def byte_of_cr eq_commute [of 13])

lemma crlf_bytes: "as_bytes crlf = [13, 10]"
  by (simp add: crlf_def as_bytes_def byte_of_def)

lemma as_bytes_head:
  "as_bytes (head_text ls) = concat (map (\<lambda>l. l @ [13, 10]) (map as_bytes ls)) @ [13, 10]"
proof -
  have "as_bytes (concat (map (\<lambda>l. l @ crlf) ls)) = concat (map (\<lambda>l. l @ [13, 10]) (map as_bytes ls))"
    by (induction ls) (simp_all add: crlf_bytes)
  then show ?thesis by (simp add: head_text_def crlf_bytes)
qed

lemma find_head_text:
  assumes "ls \<noteq> []" "list_all line_ok ls"
  shows "find_head_end (as_bytes (head_text ls) @ r) = Some (length (head_text ls) - 4)"
proof -
  let ?bs = "map as_bytes ls"
  have "\<forall>l\<in>set ?bs. l \<noteq> [] \<and> 13 \<notin> set l"
    using assms(2) by (simp add: list_all_iff line_ok_def cr_as_bytes)
  moreover have "?bs \<noteq> []" using assms(1) by simp
  moreover have "length (head_text ls) = length (concat (map (\<lambda>l. l @ [13, 10 :: u8]) ?bs)) + 2"
    using arg_cong [OF as_bytes_head [of ls], of length] by simp
  ultimately show ?thesis
    using find_head_lines [of ?bs 0 r] by (simp add: find_head_end_def as_bytes_head)
qed

lemma head_text_long: "ls \<noteq> [] \<Longrightarrow> 4 \<le> length (head_text ls)"
  by (cases ls) (simp_all add: head_text_def crlf_def)

lemma valid_head_text: "list_all line_ok ls \<Longrightarrow> valid_str (head_text ls)"
proof -
  have "valid_str crlf" by (rule valid_str_ascii) (simp add: crlf_def is_ascii_def)
  then show "list_all line_ok ls \<Longrightarrow> valid_str (head_text ls)"
    by (induction ls) (auto simp: head_text_def line_ok_def intro!: valid_str_append)
qed

lemma split_head_text:
  "list_all line_ok ls \<Longrightarrow> split_on (CHR 10) (head_text ls) = map (\<lambda>l. l @ [CHR 13]) ls @ [[CHR 13], []]"
proof (induction ls)
  case Nil
  then show ?case by (simp add: head_text_def crlf_def)
next
  case (Cons l ls)
  have "CHR 10 \<notin> set (l @ [CHR 13])" using Cons.prems by (simp add: line_ok_def)
  from split_on_append_sep [OF this, of "head_text ls"]
  show ?case using Cons by (simp add: head_text_def crlf_def)
qed

lemma lines_head_text: "list_all line_ok ls \<Longrightarrow> str_lines (head_text ls) = ls @ [[]]"
proof -
  assume ok: "list_all line_ok ls"
  have "map strip_cr (map (\<lambda>l. l @ [CHR 13]) ls) = ls" by (simp add: strip_cr_def comp_def)
  then show "str_lines (head_text ls) = ls @ [[]]"
    by (simp add: str_lines_def split_head_text [OF ok] butlast_append strip_cr_def)
qed

text \<open>A head read in pieces: the loop stops at its end, and keeps what has come after it.\<close>

lemma read_handshake_exact:
  assumes "\<And>r. find_head_end (h @ r) = Some (length h - 4)" "4 \<le> length h" "length h \<le> MAX_HANDSHAKE"
    and "[] \<notin> set cs" "buf @ concat cs = h @ rest"
  shows "\<exists>buf' cs'. read_handshake cs buf = (Inr (length h, buf'), cs') \<and> take (length h) buf' = h
    \<and> drop (length h) buf' @ concat cs' = rest"
  using assms(4,5)
proof (induction cs arbitrary: buf)
  case Nil
  then show ?case using assms(1) [of rest] assms(2) by simp
next
  case (Cons c cs)
  show ?case
  proof (cases "length h \<le> length buf")
    case True
    then obtain r where b: "buf = h @ r" "r @ concat (c # cs) = rest"
      using Cons.prems(2) by (auto simp: append_eq_append_conv2)
    then show ?thesis using assms(1) [of r] assms(2) by (simp add: b(1))
  next
    case False
    have "find_head_end buf = None"
    proof (rule ccontr)
      assume "find_head_end buf \<noteq> None"
      then obtain i where i: "take 4 (drop i buf) = head_end_mark" "\<forall>j<i. take 4 (drop j buf) \<noteq> head_end_mark"
        using find_head_end_exact by blast
      have len: "length (take 4 (drop i buf)) = 4" unfolding i(1) by (simp add: head_end_mark_def)
      then have "i + 4 \<le> length buf" by (simp add: min_def split: if_splits)
      then have "take 4 (drop i (buf @ concat (c # cs))) = head_end_mark" using i(1) by simp
      moreover have "take 4 (drop j (h @ rest)) \<noteq> head_end_mark" if "j < length h - 4" for j
        using assms(1) [of rest] that find_head_end_exact by blast
      ultimately have "length h - 4 \<le> i" using Cons.prems(2) by (metis not_le)
      then show False using len False assms(2) by simp
    qed
    moreover have "c \<noteq> []" using Cons.prems(1) by auto
    ultimately show ?thesis using False assms(3) Cons.prems Cons.IH [of "buf @ c"] by simp
  qed
qed

lemma read_head_text:
  assumes "ls \<noteq> []" "list_all line_ok ls" "length (head_text ls) \<le> MAX_HANDSHAKE"
    and "[] \<notin> set cs" "concat cs = as_bytes (head_text ls) @ rest"
  obtains n buf cs' where "read_handshake cs [] = (Inr (n, buf), cs')"
    "from_utf8_lossy (take n buf) = head_text ls" "drop n buf @ concat cs' = rest"
  using read_handshake_exact [of "as_bytes (head_text ls)" cs "[]" rest] find_head_text [OF assms(1,2)]
    head_text_long [OF assms(1)] from_utf8_lossy_as_bytes [OF valid_head_text [OF assms(2)]] assms(3-5)
  by auto

section \<open>What the two sides write and read\<close>

lemma ws_words_graphic:
  "list_all graphic w \<Longrightarrow> ws_words acc (map of_char w @ r) = ws_words (rev (map of_char w) @ acc) r"
proof (induction w arbitrary: acc)
  case (Cons c w)
  then have "ws_head (map of_char (c # w) @ r) = 0" by (simp add: graphic_def ws_head_graphic)
  then show ?case using Cons by (simp add: ws_words.simps [of acc "of_char c # _"])
qed simp

lemma split_whitespace_word:
  assumes "w \<noteq> []" "list_all graphic w"
  shows "split_whitespace (w @ CHR 32 # s) = w # split_whitespace s" "split_whitespace w = [w]"
proof -
  have sp: "ws_words acc (32 # r) = (if acc = [] then [] else [rev acc]) @ ws_words [] r" for acc r
    by (simp add: ws_words.simps [of acc "32 # r"] ws_head_def)
  have e: "ws_words acc [] = (if acc = [] then [] else [rev acc])" for acc by (simp add: ws_words.simps)
  show "split_whitespace (w @ CHR 32 # s) = w # split_whitespace s"
    using assms by (simp add: split_whitespace_def ws_words_graphic sp comp_def)
  show "split_whitespace w = [w]"
    using assms ws_words_graphic [of w "[]" "[]"] by (simp add: split_whitespace_def e comp_def)
qed

lemma find_header_line:
  assumes "CHR '':'' \<notin> set k" "tight k"
  shows "find_header ((k @ '': '' @ v) # ls) name =
    (if eq_ignore_ascii_case k name then Some (CHR 32 # v) else find_header ls name)"
  using split_once_sep [OF assms(1), of "CHR 32 # v"] by (simp add: trim_tight [OF assms(2)])

definition plain :: "string \<Rightarrow> bool" where
  "plain s \<longleftrightarrow> valid_str s \<and> CHR 10 \<notin> set s \<and> CHR 13 \<notin> set s"

lemma plain_ascii: "list_all is_ascii s \<Longrightarrow> CHR 10 \<notin> set s \<Longrightarrow> CHR 13 \<notin> set s \<Longrightarrow> plain s"
  by (simp add: plain_def valid_str_ascii)

lemma plain_append: "plain s \<Longrightarrow> plain t \<Longrightarrow> plain (s @ t)"
  by (simp add: plain_def valid_str_append)

lemma line_ok_plain: "line_ok l \<longleftrightarrow> l \<noteq> [] \<and> plain l"
  by (auto simp: line_ok_def plain_def)

lemma trim_space: "tight s \<Longrightarrow> trim (CHR 32 # s) = s"
proof -
  assume t: "tight s"
  have "trim (CHR 32 # s) = trim s"
    by (simp add: trim_def trim_codes.simps [of ws_head "32 # _"] ws_head_def)
  then show "trim (CHR 32 # s) = s" using trim_tight [OF t] by simp
qed

definition request_lines :: "string \<Rightarrow> string \<Rightarrow> (string \<times> string) list \<Rightarrow> string \<Rightarrow> string list" where
  "request_lines host path extra key =
     [''GET'' @ CHR 32 # path @ '' HTTP/1.1'', ''Host'' @ '': '' @ host, ''Upgrade'' @ '': '' @ ''websocket'',
      ''Connection'' @ '': '' @ ''Upgrade'', ''Sec-WebSocket-Key'' @ '': '' @ key,
      ''Sec-WebSocket-Version'' @ '': '' @ ''13''] @ map (\<lambda>(k, v). k @ '': '' @ v) extra"

definition response_lines :: "string \<Rightarrow> string list" where
  "response_lines accept =
     [''HTTP/1.1'' @ CHR 32 # ''101'' @ CHR 32 # ''Switching Protocols'', ''Upgrade'' @ '': '' @ ''websocket'',
      ''Connection'' @ '': '' @ ''Upgrade'', ''Sec-WebSocket-Accept'' @ '': '' @ accept]"

lemma request_text: "connect_request host path extra key = head_text (request_lines host path extra key)"
proof -
  have "concat (map (\<lambda>(k, v). k @ '': '' @ v @ crlf) extra) = concat (map (\<lambda>l. l @ crlf) (map (\<lambda>(k, v). k @ '': '' @ v) extra))"
    by (induction extra) auto
  then show ?thesis by (simp add: connect_request_def head_text_def request_lines_def)
qed

lemma response_text: "switching_response accept = head_text (response_lines accept)"
  by (simp add: switching_response_def head_text_def response_lines_def)

lemma header_value_text:
  "list_all line_ok ls \<Longrightarrow> header_value (head_text ls) name = find_header (drop 1 (ls @ [[]])) name"
  by (simp add: header_value_def lines_head_text)

lemma graphic_words:
  "list_all graphic ''GET''" "list_all graphic ''HTTP/1.1''" "list_all graphic ''101''"
  by (simp_all add: graphic_def)

lemma tight_names:
  "tight ''Host''" "tight ''Upgrade''" "tight ''Connection''" "tight ''Sec-WebSocket-Key''" "tight ''Sec-WebSocket-Version''"
  "tight ''Sec-WebSocket-Accept''" "tight ''13''"
  by (simp_all add: tight_def graphic_def)

lemma lower_names:
  "to_ascii_lowercase ''Host'' = ''host''"
  "to_ascii_lowercase ''Upgrade'' = ''upgrade''"
  "to_ascii_lowercase ''Connection'' = ''connection''"
  "to_ascii_lowercase ''Sec-WebSocket-Key'' = ''sec-websocket-key''"
  "to_ascii_lowercase ''Sec-WebSocket-Version'' = ''sec-websocket-version''"
  "to_ascii_lowercase ''Sec-WebSocket-Accept'' = ''sec-websocket-accept''"
  "to_ascii_lowercase ''upgrade'' = ''upgrade''"
  "to_ascii_lowercase ''sec-websocket-key'' = ''sec-websocket-key''"
  "to_ascii_lowercase ''sec-websocket-version'' = ''sec-websocket-version''"
  "to_ascii_lowercase ''sec-websocket-accept'' = ''sec-websocket-accept''"
  "to_ascii_lowercase ''websocket'' = ''websocket''"
  "to_ascii_lowercase '' websocket'' = '' websocket''"
  by code_simp+

lemma request_head:
  assumes "list_all line_ok (request_lines host path extra key)"
  defines "h \<equiv> head_text (request_lines host path extra key)"
  shows "fst (parse_request_line h) = ''GET''" "header_contains h ''upgrade'' ''websocket''"
    "header_value h ''sec-websocket-key'' = Some (CHR 32 # key)"
    "header_value h ''sec-websocket-version'' = Some '' 13''"
proof -
  show "fst (parse_request_line h) = ''GET''"
    unfolding h_def parse_request_line_def lines_head_text [OF assms(1)]
    by (simp add: request_lines_def split_whitespace_word [OF _ graphic_words(1), simplified] nth_opt_def)
  have hv: "header_value h name = find_header (drop 1 (request_lines host path extra key @ [[]])) name" for name
    unfolding h_def by (rule header_value_text [OF assms(1)])
  note [simp] = tight_names [THEN trim_tight] eq_ignore_ascii_case_def lower_names
  show "header_value h ''sec-websocket-key'' = Some (CHR 32 # key)"
    unfolding hv request_lines_def by simp
  show "header_value h ''sec-websocket-version'' = Some '' 13''"
    unfolding hv request_lines_def by simp
  have "header_value h ''upgrade'' = Some '' websocket''"
    unfolding hv request_lines_def by simp
  then show "header_contains h ''upgrade'' ''websocket''"
    by (simp add: header_contains_def str_contains_def lower_names)
qed

lemma response_head:
  assumes "list_all line_ok (response_lines accept)"
  defines "h \<equiv> head_text (response_lines accept)"
  shows "response_code (snd (parse_request_line h)) = 101"
    "header_value h ''sec-websocket-accept'' = Some (CHR 32 # accept)"
proof -
  have "snd (parse_request_line h) = ''101''"
    unfolding h_def parse_request_line_def lines_head_text [OF assms(1)]
    by (simp add: response_lines_def split_whitespace_word [OF _ graphic_words(2), simplified]
        split_whitespace_word [OF _ graphic_words(3), simplified] nth_opt_def)
  then show "response_code (snd (parse_request_line h)) = 101"
    using split_whitespace_word(2) [OF _ graphic_words(3)]
    by (simp add: response_code_def parse_u16_def from_str_radix_def to_digit_def)
  have hv: "header_value h name = find_header (drop 1 (response_lines accept @ [[]])) name" for name
    unfolding h_def by (rule header_value_text [OF assms(1)])
  note [simp] = tight_names [THEN trim_tight] eq_ignore_ascii_case_def lower_names
  show "header_value h ''sec-websocket-accept'' = Some (CHR 32 # accept)"
    unfolding hv response_lines_def by simp
qed

section \<open>The handshake of the two sides\<close>

lemma plain_pieces:
  "plain ''GET ''" "plain '' HTTP/1.1''" "plain ''Host: ''" "plain ''Upgrade: websocket''" "plain ''Connection: Upgrade''"
  "plain ''Sec-WebSocket-Key: ''" "plain ''Sec-WebSocket-Version: 13''" "plain ''HTTP/1.1 101 Switching Protocols''"
  "plain ''Sec-WebSocket-Accept: ''" "plain '': ''"
  by (auto intro!: plain_ascii simp: is_ascii_def)

lemma request_ok:
  assumes "plain host" "plain path" "plain key" "\<forall>(k, v)\<in>set extra. plain k \<and> plain v"
  shows "list_all line_ok (request_lines host path extra key)"
proof -
  have "list_all line_ok (map (\<lambda>(k, v). k @ '': '' @ v) extra)"
    using assms(4) plain_append plain_pieces(10) by (auto simp: list_all_iff line_ok_plain simp del: append.simps)
  moreover have "plain (''GET '' @ path @ '' HTTP/1.1'')" "plain (''Host: '' @ host)" "plain (''Sec-WebSocket-Key: '' @ key)"
    using assms(1-3) by (blast intro: plain_append plain_pieces)+
  ultimately show ?thesis using plain_pieces by (simp add: request_lines_def line_ok_plain)
qed

lemma response_ok: "plain accept \<Longrightarrow> list_all line_ok (response_lines accept)"
  using plain_append [OF plain_pieces(9)] plain_pieces by (simp add: response_lines_def line_ok_plain)

lemma lines_not_nil [simp]: "request_lines host path extra key \<noteq> []" "response_lines accept \<noteq> []"
  by (simp_all add: request_lines_def response_lines_def)

lemma accept_request:
  assumes "list_all line_ok (request_lines host path extra key)" "tight key" "\<not> hs_broken io"
    and "length (connect_request host path extra key) \<le> MAX_HANDSHAKE"
    and "[] \<notin> set (hs_reads io)" "concat (hs_reads io) = as_bytes (connect_request host path extra key) @ rest"
  shows "\<exists>raw rs. ws_accept digest io = (Inr (ws_new False raw),
      io\<lparr>hs_reads := rs, hs_out := hs_out io @ as_bytes (switching_response (accept_key digest key))\<rparr>)
    \<and> raw @ concat rs = rest"
proof -
  obtain n buf rs where r: "read_handshake (hs_reads io) [] = (Inr (n, buf), rs)"
    "from_utf8_lossy (take n buf) = head_text (request_lines host path extra key)" "drop n buf @ concat rs = rest"
    using read_head_text [OF _ assms(1) _ assms(5)] assms(4,6) unfolding request_text by (metis lines_not_nil(1))
  note h = request_head [OF assms(1)]
  have k: "accept_key digest (CHR 32 # key) = accept_key digest key"
    by (simp add: accept_key_def trim_space [OF assms(2)] trim_tight [OF assms(2)])
  have v: "trim '' 13'' = ''13''" by (rule trim_space) (rule tight_names)
  have "ws_accept digest io = (Inr (ws_new False (drop n buf)),
      io\<lparr>hs_reads := rs, hs_out := hs_out io @ as_bytes (switching_response (accept_key digest key))\<rparr>)"
    using h v assms(3) by (simp add: ws_accept_def r(1,2) Let_def split_beta k hs_write_def)
  then show ?thesis using r(3) by blast
qed

lemma check_accept:
  assumes "plain accept" "tight accept" "length (switching_response accept) \<le> MAX_HANDSHAKE"
    and "[] \<notin> set (hs_reads io)" "concat (hs_reads io) = as_bytes (switching_response accept) @ rest"
  shows "\<exists>raw rs. check_response digest key io =
      (if eq_ignore_ascii_case accept (accept_key digest key) then Inr (ws_new True raw) else Inl WsBadAccept,
       io\<lparr>hs_reads := rs\<rparr>)
    \<and> raw @ concat rs = rest"
proof -
  note ok = response_ok [OF assms(1)]
  obtain n buf rs where r: "read_handshake (hs_reads io) [] = (Inr (n, buf), rs)"
    "from_utf8_lossy (take n buf) = head_text (response_lines accept)" "drop n buf @ concat rs = rest"
    using read_head_text [OF _ ok _ assms(4)] assms(3,5) unfolding response_text by (metis lines_not_nil(2))
  note h = response_head [OF ok]
  have "check_response digest key io =
      (if eq_ignore_ascii_case accept (accept_key digest key) then Inr (ws_new True (drop n buf)) else Inl WsBadAccept,
       io\<lparr>hs_reads := rs\<rparr>)"
    using h by (simp add: check_response_def r(1,2) Let_def trim_space [OF assms(2)])
  then show ?thesis using r(3) by blast
qed

text \<open>C19: The handshake of the two sides: a server that reads the request of \<open>connect\<close> in pieces of any size answers with
  the switching response for the key and becomes a server stream; a client that reads this answer in pieces of any size
  becomes a client stream; and whatever follows the two heads, in the same piece or later, is what the streams
  go on to read, not a byte lost or added.\<close>

theorem ws_handshake_agrees:
  assumes "plain host" "plain path" "plain key" "tight key" "\<forall>(k, v)\<in>set extra. plain k \<and> plain v"
    and "\<And>b. plain (digest b) \<and> tight (digest b)"
    and "length (connect_request host path extra key) \<le> MAX_HANDSHAKE"
    and "length (switching_response (accept_key digest key)) \<le> MAX_HANDSHAKE"
    and "\<not> hs_broken cl" "hs_out cl = []" "\<not> hs_broken sv" "hs_out sv = []"
    and "snd (hs_write (connect_request host path extra key) cl) = cl1" "[] \<notin> set (hs_reads sv)"
    and "concat (hs_reads sv) = hs_out cl1 @ frames_up"
    and "ws_accept digest sv = (res, sv1)" "[] \<notin> set (hs_reads cl)"
    and "concat (hs_reads cl) = hs_out sv1 @ frames_down"
  shows "\<exists>raw raw' cl2. res = Inr (ws_new False raw) \<and> raw @ concat (hs_reads sv1) = frames_up
    \<and> ws_connect digest key host path extra cl = (Inr (ws_new True raw'), cl2)
    \<and> raw' @ concat (hs_reads cl2) = frames_down"
proof -
  have w: "hs_write (connect_request host path extra key) cl
      = (Inr (), cl\<lparr>hs_out := as_bytes (connect_request host path extra key)\<rparr>)"
    using assms(9,10) by (simp add: hs_write_def)
  then have c1: "hs_out cl1 = as_bytes (connect_request host path extra key)" using assms(13) by auto
  have up: "concat (hs_reads sv) = as_bytes (connect_request host path extra key) @ frames_up"
    using assms(15) c1 by simp
  obtain raw rs where a: "ws_accept digest sv = (Inr (ws_new False raw),
      sv\<lparr>hs_reads := rs, hs_out := hs_out sv @ as_bytes (switching_response (accept_key digest key))\<rparr>)"
    "raw @ concat rs = frames_up"
    using accept_request [OF request_ok [OF assms(1-3,5)] assms(4,11,7,14) up] by blast
  let ?cl = "cl\<lparr>hs_out := as_bytes (connect_request host path extra key)\<rparr>"
  have sv1: "res = Inr (ws_new False raw)" "hs_reads sv1 = rs"
    "hs_out sv1 = as_bytes (switching_response (accept_key digest key))"
    using a(1) assms(12,16) by auto
  have d: "plain (accept_key digest key)" "tight (accept_key digest key)" using assms(6) by (simp_all add: accept_key_def)
  obtain raw' rs' where c: "check_response digest key ?cl = (Inr (ws_new True raw'), ?cl\<lparr>hs_reads := rs'\<rparr>)"
    "raw' @ concat rs' = frames_down"
    using check_accept [OF d assms(8), of ?cl frames_down digest key] assms(17,18) sv1(3)
    by (auto simp: eq_ignore_ascii_case_def)
  have "ws_connect digest key host path extra cl = (Inr (ws_new True raw'), ?cl\<lparr>hs_reads := rs'\<rparr>)"
    by (simp add: ws_connect_def w c(1))
  then show ?thesis using sv1 a(2) c(2) by auto
qed

theorem ws_handshake_agrees_witness:
  "let digest = (\<lambda>_ :: bytes. ''A='');
       request = connect_request ''h'' ''/'' [] ''k'';
       sv = \<lparr>hs_reads = [as_bytes request, [129]], hs_out = [], hs_broken = False\<rparr>;
       (res, sv1) = ws_accept digest sv;
       cl = \<lparr>hs_reads = [hs_out sv1 @ [7]], hs_out = [], hs_broken = False\<rparr>
   in \<exists>raw raw' cl2. res = Inr (ws_new False raw) \<and> raw @ concat (hs_reads sv1) = [129]
     \<and> ws_connect digest ''k'' ''h'' ''/'' [] cl = (Inr (ws_new True raw'), cl2)
     \<and> raw' @ concat (hs_reads cl2) = [7]"
proof -
  let ?d = "\<lambda>_ :: bytes. ''A=''" and ?r = "connect_request ''h'' ''/'' [] ''k''"
  let ?sv = "\<lparr>hs_reads = [as_bytes ?r, [129]], hs_out = [], hs_broken = False\<rparr>"
  obtain res sv1 where a: "ws_accept ?d ?sv = (res, sv1)" by fastforce
  let ?cl = "\<lparr>hs_reads = [hs_out sv1 @ [7]], hs_out = [], hs_broken = False\<rparr>"
  have p: "plain ''h''" "plain ''/''" "plain ''k''" "plain ''A=''" by (auto intro!: plain_ascii simp: is_ascii_def)
  have t: "tight ''k''" "tight ''A=''" by (simp_all add: tight_def graphic_def)
  have l: "length ?r \<le> MAX_HANDSHAKE" "length (switching_response (accept_key ?d ''k'')) \<le> MAX_HANDSHAKE" "[] \<noteq> as_bytes ?r"
    by (simp_all add: connect_request_def switching_response_def crlf_def accept_key_def MAX_HANDSHAKE_def as_bytes_def)
  have "\<exists>raw raw' cl2. res = Inr (ws_new False raw) \<and> raw @ concat (hs_reads sv1) = [129]
     \<and> ws_connect ?d ''k'' ''h'' ''/'' [] ?cl = (Inr (ws_new True raw'), cl2)
     \<and> raw' @ concat (hs_reads cl2) = [7]"
    by (rule ws_handshake_agrees [OF p(1-3) t(1) _ _ l(1,2), of "?cl" ?sv _ "[129]" res sv1 "[7]"])
      (use p t l a in \<open>auto simp: hs_write_def\<close>)
  then show ?thesis by (simp only: Let_def a prod.case)
qed

text \<open>The client refuses every switching response whose accept value does not belong to its key; but it compares without
  regard to case, so of a base64 text it checks less than the standard asks.\<close>

theorem ws_connect_checks_accept:
  assumes "plain accept" "tight accept" "length (switching_response accept) \<le> MAX_HANDSHAKE"
    and "[] \<notin> set (hs_reads io)" "concat (hs_reads io) = as_bytes (switching_response accept) @ rest"
  shows "fst (check_response digest key io) = Inl WsBadAccept
    \<longleftrightarrow> to_ascii_lowercase accept \<noteq> to_ascii_lowercase (accept_key digest key)"
  using check_accept [OF assms, of digest key] by (auto simp: eq_ignore_ascii_case_def)

theorem ws_connect_checks_accept_witness:
  "fst (check_response (\<lambda>_. ''AbC='') ''k'' \<lparr>hs_reads = [as_bytes (switching_response ''aBc='')], hs_out = [], hs_broken = False\<rparr>)
      \<noteq> Inl WsBadAccept"
proof -
  let ?io = "\<lparr>hs_reads = [as_bytes (switching_response ''aBc='')], hs_out = [], hs_broken = False\<rparr>"
  have p: "plain ''aBc=''" by (auto intro!: plain_ascii simp: is_ascii_def)
  have t: "tight ''aBc=''" by (simp add: tight_def graphic_def)
  have l: "length (switching_response ''aBc='') \<le> MAX_HANDSHAKE" "[] \<noteq> as_bytes (switching_response ''aBc='')"
    by (simp_all add: switching_response_def crlf_def MAX_HANDSHAKE_def as_bytes_def)
  have "to_ascii_lowercase ''aBc='' = to_ascii_lowercase ''AbC=''" by code_simp
  then show ?thesis
    using ws_connect_checks_accept [OF p t l(1), of ?io "[]" "\<lambda>_. ''AbC=''" "''k''"] l(2) by (simp add: accept_key_def)
qed

definition keyless_request :: string where
  "keyless_request = head_text [''GET / HTTP/1.1'', ''Upgrade'' @ '': '' @ ''websocket'']"

text \<open>A request without a key is dropped without an answer, where the other refusals are answered with an error.\<close>

theorem ws_missing_key_unanswered:
  "ws_accept digest \<lparr>hs_reads = [as_bytes keyless_request], hs_out = [], hs_broken = False\<rparr>
     = (Inl WsNoKey, \<lparr>hs_reads = [], hs_out = [], hs_broken = False\<rparr>)"
proof -
  let ?ls = "[''GET / HTTP/1.1'', ''Upgrade'' @ '': '' @ ''websocket'']"
  have ok: "list_all line_ok ?ls" by (auto simp: line_ok_def is_ascii_def intro!: valid_str_ascii)
  have l: "length (head_text ?ls) \<le> MAX_HANDSHAKE" "[] \<noteq> as_bytes keyless_request"
    by (simp_all add: head_text_def keyless_request_def crlf_def MAX_HANDSHAKE_def as_bytes_def)
  obtain n buf rs where r: "read_handshake [as_bytes keyless_request] [] = (Inr (n, buf), rs)"
    "from_utf8_lossy (take n buf) = head_text ?ls" "drop n buf @ concat rs = []"
  proof (rule read_head_text [OF _ ok l(1), of "[as_bytes keyless_request]" "[]"])
    show "concat [as_bytes keyless_request] = as_bytes (head_text ?ls) @ []" by (simp add: keyless_request_def)
  qed (use l(2) in auto)
  have "find_head_end [] = None" by (simp add: find_head_end_def)
  then have rs: "rs = []" using r(1) l(2) by (auto split: option.splits if_splits)
  have m: "fst (parse_request_line (head_text ?ls)) = ''GET''"
    unfolding parse_request_line_def lines_head_text [OF ok]
    using split_whitespace_word(1) [OF _ graphic_words(1), of "''/ HTTP/1.1''"] by (simp add: nth_opt_def)
  note hv = header_value_text [OF ok]
  note [simp] = tight_names [THEN trim_tight] eq_ignore_ascii_case_def lower_names
  have "header_value (head_text ?ls) ''upgrade'' = Some '' websocket''" unfolding hv by simp
  then have u: "header_contains (head_text ?ls) ''upgrade'' ''websocket''"
    by (simp add: header_contains_def str_contains_def)
  have k: "header_value (head_text ?ls) ''sec-websocket-key'' = None" unfolding hv by simp
  show ?thesis using m u k by (simp add: ws_accept_def r(1,2) rs Let_def split_beta del: read_handshake.simps)
qed

end
