(* ===== verification/Checked_Read.thy ===== *)
theory Checked_Read
  imports NF_Prelude
begin

text \<open>
  Reading a buffer at an index, as \<open>buf[i]\<close>, \<open>u16::from_be_bytes([buf[i], buf[i + 1]])\<close> and \<open>&buf[i..j]\<close>
  do: out of range they panic, which is an error value given by the caller, so that its
  absence is a theorem. The lemmas read at the end of a known prefix.
\<close>

definition ix :: "'e \<Rightarrow> bytes \<Rightarrow> nat \<Rightarrow> 'e + u8" where
  "ix e b i = (if i < length b then Inr (b ! i) else Inl e)"

definition u16_at :: "'e \<Rightarrow> bytes \<Rightarrow> nat \<Rightarrow> 'e + u16" where
  "u16_at e b i = res_bind (ix e b i) (\<lambda>x. res_bind (ix e b (i + 1)) (\<lambda>y. Inr (get16 [x, y])))"

definition slice :: "'e \<Rightarrow> bytes \<Rightarrow> nat \<Rightarrow> nat \<Rightarrow> 'e + bytes" where
  "slice e b i j = (if i \<le> j \<and> j \<le> length b then Inr (take (j - i) (drop i b)) else Inl e)"

lemma ix_in [simp]: "i < length b \<Longrightarrow> ix e b i = Inr (b ! i)"
  by (simp add: ix_def)

lemma u16_at_in: "i + 2 \<le> length b \<Longrightarrow> u16_at e b i = Inr (get16 (take 2 (drop i b)))"
proof -
  assume i: "i + 2 \<le> length b"
  then have "drop i b = b ! i # b ! (i + 1) # drop (i + 2) b"
    by (metis Cons_nth_drop_Suc Suc_eq_plus1 Suc_le_lessD add_2_eq_Suc' less_imp_le_nat)
  then have "take 2 (drop i b) = [b ! i, b ! (i + 1)]" by (simp add: numeral_2_eq_2)
  then show "u16_at e b i = Inr (get16 (take 2 (drop i b)))" using i by (simp add: u16_at_def)
qed

lemma slice_in [simp]: "i \<le> j \<Longrightarrow> j \<le> length b \<Longrightarrow> slice e b i j = Inr (take (j - i) (drop i b))"
  by (simp add: slice_def)

lemma u16_at_prefix [simp]: "u16_at e (p @ be16 x @ r) (length p) = Inr x"
  using u16_at_in [of "length p" "p @ be16 x @ r" e] by simp

lemma u16_at_start [simp]: "u16_at e (be16 x @ r) 0 = Inr x"
  using u16_at_prefix [of e "[]" x r] by simp

lemma slice_prefix [simp]: "n = length x \<Longrightarrow> slice e (p @ x @ r) (length p) (length p + n) = Inr x"
  by (simp add: slice_def)

end
