(* ===== verification/Sock_Addr.thy ===== *)
theory Sock_Addr
  imports Rust_Net
begin

text \<open>Printing and parsing \<open>std::net::SocketAddr\<close>: an address and a port, with the brackets of IPv6.\<close>

definition show_socket_addr :: "socket_addr \<Rightarrow> string" where
  "show_socket_addr a =
     (case sa_ip a of
        V4 ip \<Rightarrow> show_ipv4 ip @ '':'' @ show_nat (unat (sa_port a))
      | V6 ip \<Rightarrow> ''['' @ show_ipv6 ip @ '']:'' @ show_nat (unat (sa_port a)))"

text \<open>The parser of \<open>std::net::SocketAddr\<close>; a scope ident is read and dropped.\<close>

definition read_port :: "string \<Rightarrow> (u16 \<times> string) option" where
  "read_port s =
     (case s of
        c # s \<Rightarrow> if c = CHR '':'' then map_option (\<lambda>(n, r). (of_nat n, r)) (read_number 10 (length s) 65536 True s) else None
      | [] \<Rightarrow> None)"

definition read_scope :: "string \<Rightarrow> string option" where
  "read_scope s =
     (case s of
        c # r \<Rightarrow> if c = CHR ''%'' then map_option snd (read_number 10 (length r) (2 ^ 32) True r) else Some s
      | [] \<Rightarrow> Some s)"

definition read_socket_v4 :: "string \<Rightarrow> (socket_addr \<times> string) option" where
  "read_socket_v4 s =
     Option.bind (read_ipv4 s) (\<lambda>(a, s).
     Option.bind (read_port s) (\<lambda>(p, s). Some (\<lparr>sa_ip = V4 a, sa_port = p\<rparr>, s)))"

definition read_socket_v6 :: "string \<Rightarrow> (socket_addr \<times> string) option" where
  "read_socket_v6 s =
     (case s of
        c # s \<Rightarrow>
          if c = CHR ''['' then
            Option.bind (read_ipv6 s) (\<lambda>(a, s).
            Option.bind (read_scope s) (\<lambda>s.
            Option.bind (read_sep (CHR '']'') 1 s) (\<lambda>s.
            Option.bind (read_port s) (\<lambda>(p, s). Some (\<lparr>sa_ip = V6 a, sa_port = p\<rparr>, s)))))
          else None
      | [] \<Rightarrow> None)"

definition parse_socket_addr :: "string \<Rightarrow> socket_addr option" where
  "parse_socket_addr s =
     (case (case read_socket_v4 s of Some r \<Rightarrow> Some r | None \<Rightarrow> read_socket_v6 s) of
        Some (a, []) \<Rightarrow> Some a
      | _ \<Rightarrow> None)"

lemma read_port_show: "read_port ('':'' @ show_nat (unat p)) = Some (p, [])"
proof -
  have "unat p < 65536" using unsigned_less [of p, where 'a = nat] by simp
  then show ?thesis
    using read_digits_show_nat [of "[]" "unat p"] show_nat_nonempty [of "unat p"] by (simp add: read_port_def read_number_def)
qed

lemma read_ipv4_bracket: "read_ipv4 (CHR ''['' # r) = None"
  by (simp add: read_ipv4_def read_octet_def read_sep_def read_number_def to_digit_def)

lemma parse_show_socket [simp]: "parse_socket_addr (show_socket_addr a) = Some a"
proof (cases "sa_ip a")
  case (V4 ip)
  have "read_ipv4 (show_ipv4 ip @ '':'' @ show_nat (unat (sa_port a))) = Some (ip, '':'' @ show_nat (unat (sa_port a)))"
    by (intro read_ipv4_show) (simp add: colon_no_digit)
  then show ?thesis
    using V4 read_port_show [of "sa_port a"]
    by (simp add: parse_socket_addr_def read_socket_v4_def show_socket_addr_def)
next
  case (V6 ip)
  have e: "ip_end ('']:'' @ show_nat (unat (sa_port a)))"
    using list_all_show_nat [of "\<lambda>c. c \<noteq> CHR ''.''" "unat (sa_port a)"] digit_char_neq [of _ "CHR ''.''"]
    by (auto simp: ip_end_def list_all_iff)
  have "read_socket_v4 (show_socket_addr a) = None"
    using V6 by (simp add: read_socket_v4_def show_socket_addr_def read_ipv4_bracket)
  then show ?thesis
    using V6 read_port_show [of "sa_port a"] read_ipv6_show [OF e, of ip]
    by (simp add: parse_socket_addr_def read_socket_v6_def show_socket_addr_def read_scope_def read_sep_def)
qed

lemma show_socket_inj [simp]: "show_socket_addr a = show_socket_addr b \<longleftrightarrow> a = b"
  by (metis option.inject parse_show_socket)

lemma ascii_show_socket: "list_all is_ascii (show_socket_addr a)"
proof -
  note d = digit_char_ascii
  have n: "list_all is_ascii (show_nat k)" for k by (rule list_all_show_nat) (rule d)
  have "list_all is_ascii (show_ip ip)" for ip by (rule list_all_show_ip, rule d) (simp_all add: is_ascii_def)
  from this [of "sa_ip a"] n [of "unat (sa_port a)"] show ?thesis
    by (cases "sa_ip a") (simp_all add: show_socket_addr_def is_ascii_def)
qed

lemma length_show_socket: "length (show_socket_addr a) < 256"
proof -
  have p: "length (show_nat (unat (sa_port a))) \<le> 5"
  proof -
    have "unat (sa_port a) < 65536" using unsigned_less [of "sa_port a", where 'a = nat] by simp
    then show ?thesis
      by (simp add: show_nat.simps [of "unat (sa_port a)"] show_nat.simps [of "unat (sa_port a) div 10"]
          show_nat.simps [of "unat (sa_port a) div 10 div 10"] show_nat.simps [of "unat (sa_port a) div 10 div 10 div 10"]
          show_nat.simps [of "unat (sa_port a) div 10 div 10 div 10 div 10"])
  qed
  have g: "length (join_with '':'' (map show_hex gs)) \<le> 5 * length gs" if "list_all (\<lambda>g. g < 65536) gs" for gs
    using that
  proof (induction gs rule: induct_list012)
    case (2 g)
    then show ?case using length_show_hex [of g] by simp
  next
    case (3 g h gs)
    then show ?case using length_show_hex [of g] by simp
  qed simp
  have v6: "length (show_ipv6 ip) \<le> 90" for ip
  proof -
    have l: "list_all (\<lambda>g. g < 65536) (take k (v6_segments ip))" "list_all (\<lambda>g. g < 65536) (drop k (v6_segments ip))" for k
      using v6_segments_lt [of ip] by (auto simp: list_all_iff dest: in_set_takeD in_set_dropD)
    have b: "length (join_with '':'' (map show_hex (take k (v6_segments ip)))) \<le> 40"
      "length (join_with '':'' (map show_hex (drop k (v6_segments ip)))) \<le> 40" for k
      using g [OF l(1) [of k]] g [OF l(2) [of k]] by simp_all
    have h: "length (join_with '':'' (map show_hex (take x (v6_segments ip))))
        + length (join_with '':'' (map show_hex (drop y (v6_segments ip)))) \<le> 80" for x y
      using b(1) [of x] b(2) [of y] by linarith
    show ?thesis
      using length_show_ipv4 [of "ucast ip"] b(1) [of 8]
      by (auto simp: show_ipv6_def Let_def split: prod.splits intro: order_trans [OF h])
  qed
  show ?thesis
  proof (cases "sa_ip a")
    case (V4 ip)
    then show ?thesis using p length_show_ipv4 [of ip] by (simp add: show_socket_addr_def)
  next
    case (V6 ip)
    then show ?thesis using p v6 [of ip] by (simp add: show_socket_addr_def)
  qed
qed

end
