(* ===== verification/Dns.thy ===== *)
theory Dns
  imports Checked_Read Sock_Addr
begin

text \<open>
  The resolver of \<open>dnsServer\<close> (\<open>common/src/dns.rs\<close>): reading the address of the server, the query, the parser of the
  response, and the order of the queries. The datagram that comes back is an argument.
\<close>

unbundle bit_operations_syntax

datatype dns_error =
    DnsServerEmpty | DnsServerInvalid | DnsServerBadV6 | DnsBadPort | DnsNoBracket | DnsNoPort
  | DnsNameEmpty | DnsBadLabel string
  | DnsShort nat | DnsBadId u16 | DnsNotResponse | DnsRcode u16 | DnsQuestionRange | DnsHeadRange | DnsDataRange
  | DnsNameRange | DnsPointerRange | DnsBadLabelType u8 | DnsNoRecord | DnsExchange | DnsUnresolved | DnsPanicked

definition MAX_RESP :: nat where "MAX_RESP = 4096"

section \<open>Addresses\<close>

definition rsplit_once :: "char \<Rightarrow> string \<Rightarrow> (string \<times> string) option" where
  "rsplit_once c s = map_option (\<lambda>(a, b). (rev b, rev a)) (split_once c (rev s))"

definition split_host_port :: "string \<Rightarrow> dns_error + string \<times> u16" where
  "split_host_port addr =
     (case str_strip_prefix ''['' addr of
        Some rest \<Rightarrow>
          (case split_once (CHR '']'') rest of
             Some (h, tail) \<Rightarrow>
               (let p = (case str_strip_prefix '':'' tail of Some p \<Rightarrow> p | None \<Rightarrow> ''0'')
                in case parse_u16 p of Some n \<Rightarrow> Inr (h, n) | None \<Rightarrow> Inl DnsBadPort)
           | None \<Rightarrow> Inl DnsNoBracket)
      | None \<Rightarrow>
          (case rsplit_once (CHR '':'') addr of
             Some (h, p) \<Rightarrow> (case parse_u16 p of Some n \<Rightarrow> Inr (h, n) | None \<Rightarrow> Inl DnsBadPort)
           | None \<Rightarrow> Inl DnsNoPort))"

definition parse_server :: "string \<Rightarrow> dns_error + socket_addr" where
  "parse_server server =
     (let s = trim server in
      if s = [] then Inl DnsServerEmpty
      else case parse_socket_addr s of
             Some sa \<Rightarrow> Inr sa
           | None \<Rightarrow>
               (case parse_ip s of
                  Some ip \<Rightarrow> Inr \<lparr>sa_ip = ip, sa_port = 53\<rparr>
                | None \<Rightarrow>
                    (case Option.bind (str_strip_prefix ''['' s) (split_once (CHR '']'')) of
                       Some (h, tail) \<Rightarrow>
                         (case parse_ip h of
                            None \<Rightarrow> Inl DnsServerBadV6
                          | Some ip \<Rightarrow>
                              (case str_strip_prefix '':'' tail of
                                 Some p \<Rightarrow>
                                   if p \<noteq> [] then
                                     (case parse_u16 p of
                                        Some port \<Rightarrow> Inr \<lparr>sa_ip = ip, sa_port = port\<rparr>
                                      | None \<Rightarrow> Inl DnsBadPort)
                                   else Inr \<lparr>sa_ip = ip, sa_port = 53\<rparr>
                               | None \<Rightarrow> Inr \<lparr>sa_ip = ip, sa_port = 53\<rparr>))
                     | None \<Rightarrow> Inl DnsServerInvalid)))"

section \<open>The query\<close>

fun put_labels :: "string list \<Rightarrow> dns_error + bytes" where
  "put_labels [] = Inr []"
| "put_labels (l # ls) =
     (if as_bytes l = [] \<or> length (as_bytes l) > 63 then Inl (DnsBadLabel l)
      else res_bind (put_labels ls) (\<lambda>rest. Inr (of_nat (length (as_bytes l)) # as_bytes l @ rest)))"

definition build_query :: "u16 \<Rightarrow> string \<Rightarrow> u16 \<Rightarrow> dns_error + bytes" where
  "build_query ident name qtype =
     (let trimmed = trim_end_matches (CHR ''.'') name in
      if trimmed = [] then Inl DnsNameEmpty
      else res_bind (put_labels (split_on (CHR ''.'') trimmed)) (\<lambda>labels.
        Inr (be16 ident @ be16 0x0100 @ be16 1 @ be16 0 @ be16 0 @ be16 0 @ labels @ [0] @ be16 qtype @ be16 1)))"

section \<open>The response\<close>

function skip_name :: "bytes \<Rightarrow> nat \<Rightarrow> dns_error + nat" where
  "skip_name buf pos =
     (if pos \<ge> length buf then Inl DnsNameRange
      else
        let len = buf ! pos in
        if len = 0 then Inr (pos + 1)
        else if len AND 0xC0 = 0xC0 then
          (if pos + 2 > length buf then Inl DnsPointerRange else Inr (pos + 2))
        else if len AND 0xC0 \<noteq> 0 then Inl (DnsBadLabelType len)
        else skip_name buf (pos + (1 + unat len)))"
  by pat_completeness auto
termination
  by (relation "measure (\<lambda>(buf, pos). length buf - pos)") auto

declare skip_name.simps [simp del]

fun skip_questions :: "bytes \<Rightarrow> nat \<Rightarrow> nat \<Rightarrow> dns_error + nat" where
  "skip_questions buf 0 pos = Inr pos"
| "skip_questions buf (Suc n) pos =
     res_bind (skip_name buf pos) (\<lambda>pos.
       if pos + 4 > length buf then Inl DnsQuestionRange else skip_questions buf n (pos + 4))"

fun read_answers :: "bytes \<Rightarrow> u16 \<Rightarrow> nat \<Rightarrow> nat \<Rightarrow> dns_error + ip_addr list" where
  "read_answers buf qtype 0 pos = Inr []"
| "read_answers buf qtype (Suc n) pos =
     res_bind (skip_name buf pos) (\<lambda>pos.
       if pos + 10 > length buf then Inl DnsHeadRange
       else
         res_bind (u16_at DnsPanicked buf pos) (\<lambda>rtype.
         res_bind (u16_at DnsPanicked buf (pos + 8)) (\<lambda>w.
           let rdlen = unat w; pos = pos + 10 in
           if pos + rdlen > length buf then Inl DnsDataRange
           else
             res_bind (slice DnsPanicked buf pos (pos + rdlen)) (\<lambda>data.
               let here = (if rtype = qtype then
                             (if qtype = 1 \<and> rdlen = 4 then [V4 (get32 data)]
                              else if qtype = 28 \<and> rdlen = 16 then [V6 (get128 data)] else [])
                           else [])
               in res_bind (read_answers buf qtype n (pos + rdlen)) (\<lambda>out. Inr (here @ out))))))"

definition parse_response :: "bytes \<Rightarrow> u16 \<Rightarrow> string \<Rightarrow> u16 \<Rightarrow> dns_error + ip_addr list" where
  "parse_response buf ident name qtype =
     (if length buf < 12 then Inl (DnsShort (length buf))
      else
        res_bind (u16_at DnsPanicked buf 0) (\<lambda>rid.
          if rid \<noteq> ident then Inl (DnsBadId rid)
          else
            res_bind (u16_at DnsPanicked buf 2) (\<lambda>flags.
              if flags AND 0x8000 = 0 then Inl DnsNotResponse
              else if flags AND 0x000F \<noteq> 0 then Inl (DnsRcode (flags AND 0x000F))
              else
                res_bind (u16_at DnsPanicked buf 4) (\<lambda>qd.
                res_bind (u16_at DnsPanicked buf 6) (\<lambda>an.
                res_bind (skip_questions buf (unat qd) 12) (\<lambda>pos.
                res_bind (read_answers buf qtype (unat an) pos) (\<lambda>out.
                  if out = [] then Inl DnsNoRecord else Inr out)))))))"

section \<open>Resolving\<close>

text \<open>\<open>exchange\<close>: the datagram that comes back for a query, or nothing; the ids of the two queries are arguments.\<close>

definition query :: "(socket_addr \<Rightarrow> bytes \<Rightarrow> bytes option) \<Rightarrow> socket_addr \<Rightarrow> u16 \<Rightarrow> string \<Rightarrow> u16 \<Rightarrow> dns_error + ip_addr list" where
  "query exchange server ident name qtype =
     res_bind (build_query ident name qtype) (\<lambda>req.
       case exchange server req of
         None \<Rightarrow> Inl DnsExchange
       | Some reply \<Rightarrow> parse_response (take MAX_RESP reply) ident name qtype)"

definition resolve_via ::
  "(socket_addr \<Rightarrow> bytes \<Rightarrow> bytes option) \<Rightarrow> u16 \<Rightarrow> u16 \<Rightarrow> string \<Rightarrow> string \<Rightarrow> dns_error + ip_addr list" where
  "resolve_via exchange id4 id6 server name =
     res_bind (parse_server server) (\<lambda>sa.
       let addrs = (case query exchange sa id4 name 1 of Inr a \<Rightarrow> a | Inl _ \<Rightarrow> []);
           addrs = (if addrs = [] then (case query exchange sa id6 name 28 of Inr a \<Rightarrow> a | Inl _ \<Rightarrow> []) else addrs)
       in if addrs = [] then Inl DnsUnresolved else Inr addrs)"

definition resolve_addr_via ::
  "(socket_addr \<Rightarrow> bytes \<Rightarrow> bytes option) \<Rightarrow> u16 \<Rightarrow> u16 \<Rightarrow> string \<Rightarrow> string \<Rightarrow> dns_error + socket_addr" where
  "resolve_addr_via exchange id4 id6 server addr =
     (case parse_socket_addr addr of
        Some sa \<Rightarrow> Inr sa
      | None \<Rightarrow>
          res_bind (split_host_port addr) (\<lambda>(host, port).
            case parse_ip host of
              Some ip \<Rightarrow> Inr \<lparr>sa_ip = ip, sa_port = port\<rparr>
            | None \<Rightarrow>
                res_bind (resolve_via exchange id4 id6 server host) (\<lambda>ips.
                  if ips = [] then Inl DnsPanicked else Inr \<lparr>sa_ip = ips ! 0, sa_port = port\<rparr>)))"

section \<open>No panic\<close>

lemma skip_name_safe: "skip_name buf pos \<noteq> Inl DnsPanicked"
proof (induction buf pos rule: skip_name.induct)
  case (1 buf pos)
  then show ?case by (subst skip_name.simps) (auto simp: Let_def)
qed

lemma skip_questions_safe: "skip_questions buf n pos \<noteq> Inl DnsPanicked"
proof (induction n arbitrary: pos)
  case (Suc n)
  then show ?case using skip_name_safe [of buf pos] by (cases "skip_name buf pos") auto
qed simp

lemma read_answers_safe: "read_answers buf qtype n pos \<noteq> Inl DnsPanicked"
proof (induction n arbitrary: pos)
  case (Suc n)
  have b: "res_bind (read_answers buf qtype n p) (\<lambda>out. Inr (here @ out)) \<noteq> Inl DnsPanicked" for p here
    using Suc.IH [of p] by (cases "read_answers buf qtype n p") auto
  show ?case
  proof (cases "skip_name buf pos")
    case (Inl e)
    then show ?thesis using skip_name_safe [of buf pos] by auto
  next
    case (Inr p)
    show ?thesis
    proof (cases "p + 10 > length buf")
      case True
      then show ?thesis using Inr by simp
    next
      case False
      then have "u16_at DnsPanicked buf p = Inr (get16 (take 2 (drop p buf)))"
        "u16_at DnsPanicked buf (p + 8) = Inr (get16 (take 2 (drop (p + 8) buf)))"
        by (intro u16_at_in; simp)+
      then show ?thesis using Inr False b by (simp add: Let_def)
    qed
  qed
qed simp

lemma parse_response_safe: "parse_response buf ident name qtype \<noteq> Inl DnsPanicked"
proof (cases "length buf < 12")
  case False
  have q: "res_bind (skip_questions buf n 12) (\<lambda>pos. res_bind (read_answers buf qtype m pos)
      (\<lambda>out. if out = [] then Inl DnsNoRecord else Inr out)) \<noteq> Inl DnsPanicked" for n m
  proof (cases "skip_questions buf n 12")
    case (Inl e)
    then show ?thesis using skip_questions_safe [of buf n 12] by auto
  next
    case (Inr p)
    then show ?thesis using read_answers_safe [of buf qtype m p] by (cases "read_answers buf qtype m p") auto
  qed
  show ?thesis using False q by (simp add: parse_response_def u16_at_in)
qed (simp add: parse_response_def)

lemma parse_response_some: "parse_response buf ident name qtype \<noteq> Inr []"
proof -
  have r: "res_bind m (\<lambda>out. if out = [] then Inl DnsNoRecord else Inr out) \<noteq> Inr []" for m :: "dns_error + ip_addr list"
    by (cases m) auto
  then show ?thesis by (auto simp: parse_response_def res_bind_Inr_iff split: if_splits)
qed

lemma resolve_via_some: "resolve_via exchange id4 id6 server name \<noteq> Inr []"
  by (cases "parse_server server") (auto simp: resolve_via_def Let_def)

text \<open>No datagram and no text make the resolver panic: every index of the parser is in range, and the first address
  is only asked for when there is one.\<close>

theorem dns_never_panics:
  "parse_response buf ident name qtype \<noteq> Inl DnsPanicked \<and> resolve_addr_via exchange id4 id6 server addr \<noteq> Inl DnsPanicked"
proof -
  have s: "parse_server server \<noteq> Inl DnsPanicked"
    by (auto simp: parse_server_def Let_def split: option.splits prod.splits)
  have v: "resolve_via exchange id4 id6 server host \<noteq> Inl DnsPanicked" for host
    using s by (cases "parse_server server") (auto simp: resolve_via_def Let_def)
  have h: "split_host_port addr \<noteq> Inl DnsPanicked"
    by (auto simp: split_host_port_def Let_def split: option.splits prod.splits)
  have "resolve_addr_via exchange id4 id6 server addr \<noteq> Inl DnsPanicked"
  proof (cases "parse_socket_addr addr")
    case None
    show ?thesis
    proof (cases "split_host_port addr")
      case (Inl e)
      then show ?thesis using h None by (auto simp: resolve_addr_via_def)
    next
      case (Inr hp)
      obtain host port where hp: "hp = (host, port)" by fastforce
      show ?thesis
        using None Inr hp v [of host] resolve_via_some [of exchange id4 id6 server host]
        by (cases "resolve_via exchange id4 id6 server host") (auto simp: resolve_addr_via_def split: option.split)
    qed
  qed (simp add: resolve_addr_via_def)
  then show ?thesis using parse_response_safe by blast
qed

section \<open>Messages\<close>

text \<open>A name on the wire: labels, then a zero byte or a pointer.\<close>

definition wire_name :: "bytes list \<times> u16 option \<Rightarrow> bytes" where
  "wire_name n = (case n of (labels, ptr) \<Rightarrow>
     concat (map (\<lambda>l. of_nat (length l) # l) labels)
     @ (case ptr of None \<Rightarrow> [0] | Some p \<Rightarrow> [0xC0 OR ucast (drop_bit 8 p), ucast p]))"

definition label_ok :: "bytes \<Rightarrow> bool" where
  "label_ok l \<longleftrightarrow> l \<noteq> [] \<and> length l < 64"

definition name_ok :: "bytes list \<times> u16 option \<Rightarrow> bool" where
  "name_ok n \<longleftrightarrow> list_all label_ok (fst n)"

lemma label_byte:
  assumes "label_ok l"
  shows "unat (of_nat (length l) :: u8) = length l" "(of_nat (length l) :: u8) \<noteq> 0" "(of_nat (length l) :: u8) AND 0xC0 = 0"
proof -
  have l: "0 < length l" "length l < 64" using assms by (auto simp: label_ok_def)
  then show u: "unat (of_nat (length l) :: u8) = length l" by (simp add: unat_of_nat)
  then show "(of_nat (length l) :: u8) \<noteq> 0" using l by (metis less_numeral_extra(3) unat_0)
  let ?w = "of_nat (length l) :: u8"
  have m: "(0x3F :: u8) = mask 6" by (simp add: mask_eq_exp_minus_1)
  have "take_bit 6 ?w = ?w"
    using u l by (simp add: word_unat_eq_iff unsigned_take_bit_eq take_bit_nat_eq_self)
  then have "?w AND 0x3F = ?w" by (simp only: m take_bit_eq_mask)
  then have "?w AND 0xC0 = (?w AND 0x3F) AND 0xC0" by simp
  also have "\<dots> = 0" by (simp only: and.assoc) simp
  finally show "?w AND 0xC0 = 0" .
qed

lemma pointer_byte: "((0xC0 :: u8) OR x) AND 0xC0 = 0xC0" "(0xC0 :: u8) OR x \<noteq> 0"
proof -
  show a: "((0xC0 :: u8) OR x) AND 0xC0 = 0xC0" by (rule word_ao_absorbs)
  show "(0xC0 :: u8) OR x \<noteq> 0"
  proof
    assume "(0xC0 :: u8) OR x = 0"
    with a have "(0 :: u8) AND 0xC0 = 0xC0" by simp
    then show False by simp
  qed
qed

lemma wire_name_nonempty [simp]: "wire_name n \<noteq> []"
  by (auto simp: wire_name_def split: prod.split option.split)

lemma skip_wire_name:
  "list_all label_ok labels \<Longrightarrow> skip_name (pre @ wire_name (labels, ptr) @ rest) (length pre)
     = Inr (length pre + length (wire_name (labels, ptr)))"
proof (induction labels arbitrary: pre)
  case Nil
  then show ?case
    by (subst skip_name.simps)
      (auto simp: wire_name_def Let_def nth_append pointer_byte split: option.split)
next
  case (Cons l labels)
  have l: "label_ok l" using Cons.prems by simp
  let ?pre = "pre @ of_nat (length l) # l"
  have e: "pre @ wire_name (l # labels, ptr) @ rest = ?pre @ wire_name (labels, ptr) @ rest" by (simp add: wire_name_def)
  have n: "(pre @ wire_name (l # labels, ptr) @ rest) ! length pre = of_nat (length l)" by (simp add: wire_name_def)
  have b: "length pre < length (pre @ wire_name (l # labels, ptr) @ rest)" by (simp add: wire_name_def)
  have "skip_name (pre @ wire_name (l # labels, ptr) @ rest) (length pre)
      = skip_name (pre @ wire_name (l # labels, ptr) @ rest) (length ?pre)"
    by (subst skip_name.simps) (use b n label_byte [OF l] in \<open>simp add: Let_def\<close>)
  also have "\<dots> = Inr (length ?pre + length (wire_name (labels, ptr)))"
    unfolding e using Cons.IH [of ?pre] Cons.prems by simp
  finally show ?case by (simp add: wire_name_def)
qed

definition question_bytes :: "(bytes list \<times> u16 option) \<times> u16 \<times> u16 \<Rightarrow> bytes" where
  "question_bytes q = (case q of (n, ty, cl) \<Rightarrow> wire_name n @ be16 ty @ be16 cl)"

record dns_rr =
  rr_name :: "bytes list \<times> u16 option"
  rr_type :: u16
  rr_class :: u16
  rr_ttl :: u32
  rr_data :: bytes

definition rr_bytes :: "dns_rr \<Rightarrow> bytes" where
  "rr_bytes r =
     wire_name (rr_name r) @ be16 (rr_type r) @ be16 (rr_class r) @ be32 (rr_ttl r)
     @ be16 (of_nat (length (rr_data r))) @ rr_data r"

definition dns_message ::
  "u16 \<Rightarrow> u16 \<Rightarrow> ((bytes list \<times> u16 option) \<times> u16 \<times> u16) list \<Rightarrow> dns_rr list \<Rightarrow> u16 \<Rightarrow> u16 \<Rightarrow> bytes" where
  "dns_message ident flags qs rrs ns ar =
     be16 ident @ be16 flags @ be16 (of_nat (length qs)) @ be16 (of_nat (length rrs)) @ be16 ns @ be16 ar
     @ concat (map question_bytes qs) @ concat (map rr_bytes rrs)"

definition rr_addr :: "u16 \<Rightarrow> dns_rr \<Rightarrow> ip_addr list" where
  "rr_addr qtype r =
     (if rr_type r \<noteq> qtype then []
      else if qtype = 1 \<and> length (rr_data r) = 4 then [V4 (get32 (rr_data r))]
      else if qtype = 28 \<and> length (rr_data r) = 16 then [V6 (get128 (rr_data r))] else [])"

lemma skip_questions_wire:
  "list_all (\<lambda>q. name_ok (fst q)) qs \<Longrightarrow>
     skip_questions (pre @ concat (map question_bytes qs) @ rest) (length qs) (length pre)
       = Inr (length pre + length (concat (map question_bytes qs)))"
proof (induction qs arbitrary: pre)
  case (Cons q qs)
  obtain labels ptr ty cl where q: "q = ((labels, ptr), ty, cl)" by (metis prod_cases4 surj_pair)
  have "skip_name (pre @ concat (map question_bytes (q # qs)) @ rest) (length pre)
      = Inr (length pre + length (wire_name (labels, ptr)))"
    using skip_wire_name [of labels pre ptr "be16 ty @ be16 cl @ concat (map question_bytes qs) @ rest"] Cons.prems
    by (simp add: q name_ok_def question_bytes_def)
  moreover have "skip_questions ((pre @ question_bytes q) @ concat (map question_bytes qs) @ rest) (length qs)
      (length (pre @ question_bytes q)) = Inr (length (pre @ question_bytes q) + length (concat (map question_bytes qs)))"
    using Cons.IH [of "pre @ question_bytes q"] Cons.prems by simp
  moreover have "length (question_bytes q) = length (wire_name (labels, ptr)) + 4" by (simp add: q question_bytes_def)
  ultimately show ?case by (simp add: add.assoc)
qed simp

lemma read_answers_wire:
  "list_all (\<lambda>r. name_ok (rr_name r) \<and> length (rr_data r) < 65536) rrs \<Longrightarrow>
     read_answers (pre @ concat (map rr_bytes rrs) @ rest) qtype (length rrs) (length pre)
       = Inr (concat (map (rr_addr qtype) rrs))"
proof (induction rrs arbitrary: pre)
  case (Cons r rrs)
  obtain labels ptr where rn: "rr_name r = (labels, ptr)" by fastforce
  let ?n = "wire_name (labels, ptr)" and ?d = "rr_data r"
  let ?tail = "concat (map rr_bytes rrs) @ rest"
  let ?buf = "pre @ concat (map rr_bytes (r # rrs)) @ rest"
  have buf: "?buf = pre @ ?n @ be16 (rr_type r) @ be16 (rr_class r) @ be32 (rr_ttl r) @ be16 (of_nat (length ?d)) @ ?d @ ?tail"
    by (simp add: rr_bytes_def rn)
  have n: "unat (of_nat (length ?d) :: u16) = length ?d" using Cons.prems by (simp add: unat_of_nat)
  let ?p = "length pre + length ?n"
  have s: "skip_name ?buf (length pre) = Inr ?p"
    unfolding buf using Cons.prems by (intro skip_wire_name) (simp add: name_ok_def rn)
  have t: "u16_at DnsPanicked ?buf ?p = Inr (rr_type r)"
    unfolding buf
    using u16_at_prefix [of DnsPanicked "pre @ ?n" "rr_type r" "be16 (rr_class r) @ be32 (rr_ttl r) @ be16 (of_nat (length ?d)) @ ?d @ ?tail"]
    by simp
  have l: "u16_at DnsPanicked ?buf (?p + 8) = Inr (of_nat (length ?d))"
    unfolding buf
    using u16_at_prefix [of DnsPanicked "pre @ ?n @ be16 (rr_type r) @ be16 (rr_class r) @ be32 (rr_ttl r)" "of_nat (length ?d)" "?d @ ?tail"]
    by (simp add: add.assoc)
  have d: "slice DnsPanicked ?buf (?p + 10) (?p + 10 + length ?d) = Inr ?d"
    unfolding buf
    using slice_prefix [of "length ?d" ?d DnsPanicked "pre @ ?n @ be16 (rr_type r) @ be16 (rr_class r) @ be32 (rr_ttl r) @ be16 (of_nat (length ?d))" ?tail]
    by (simp add: add.assoc)
  have len: "length (rr_bytes r) = length ?n + 10 + length ?d" by (simp add: rr_bytes_def rn)
  have c: "(?p + 10 > length ?buf) = False" "(?p + 10 + length ?d > length ?buf) = False" using len by simp_all
  have next_: "read_answers ?buf qtype (length rrs) (?p + 10 + length ?d) = Inr (concat (map (rr_addr qtype) rrs))"
    using Cons.IH [of "pre @ rr_bytes r"] Cons.prems len by (simp add: add.assoc)
  have "read_answers ?buf qtype (Suc (length rrs)) (length pre) =
      Inr ((if rr_type r = qtype then
              (if qtype = 1 \<and> length ?d = 4 then [V4 (get32 ?d)]
               else if qtype = 28 \<and> length ?d = 16 then [V6 (get128 ?d)] else [])
            else []) @ concat (map (rr_addr qtype) rrs))"
    by (simp only: read_answers.simps s t l d n c Let_def res_bind_simps if_False next_)
  also have "(if rr_type r = qtype then
              (if qtype = 1 \<and> length ?d = 4 then [V4 (get32 ?d)]
               else if qtype = 28 \<and> length ?d = 16 then [V6 (get128 ?d)] else [])
            else []) = rr_addr qtype r"
    by (simp add: rr_addr_def)
  finally show ?case by (simp only: length_Cons list.map concat.simps)
qed simp

text \<open>C21: What the parser makes of a well-formed response: the addresses of the records of the type asked for, in their
  order, past questions and records of other types and names with pointers; the names of the questions and of the records
  play no part in it, and without an address the answer is an error.\<close>

theorem dns_response_exact:
  assumes "flags AND 0x8000 \<noteq> 0" "flags AND 0x000F = 0"
    and "list_all (\<lambda>q. name_ok (fst q)) qs" "length qs < 65536"
    and "list_all (\<lambda>r. name_ok (rr_name r) \<and> length (rr_data r) < 65536) rrs" "length rrs < 65536"
  shows "parse_response (dns_message ident flags qs rrs ns ar @ rest) ident name qtype =
    (if concat (map (rr_addr qtype) rrs) = [] then Inl DnsNoRecord else Inr (concat (map (rr_addr qtype) rrs)))"
proof -
  let ?q = "be16 (of_nat (length qs))" and ?a = "be16 (of_nat (length rrs))"
  let ?head = "be16 ident @ be16 flags @ ?q @ ?a @ be16 ns @ be16 ar"
  let ?qs = "concat (map question_bytes qs)" and ?rrs = "concat (map rr_bytes rrs)"
  let ?buf = "?head @ ?qs @ ?rrs @ rest"
  have buf: "dns_message ident flags qs rrs ns ar @ rest = ?buf" by (simp add: dns_message_def)
  have n: "unat (of_nat (length qs) :: u16) = length qs" "unat (of_nat (length rrs) :: u16) = length rrs"
    using assms(4,6) by (simp_all add: unat_of_nat)
  have len: "length ?head = 12" "\<not> length ?buf < 12" by simp_all
  have r0: "u16_at DnsPanicked ?buf 0 = Inr ident" by simp
  have r2: "u16_at DnsPanicked ?buf 2 = Inr flags"
    using u16_at_prefix [of DnsPanicked "be16 ident" flags "?q @ ?a @ be16 ns @ be16 ar @ ?qs @ ?rrs @ rest"] by simp
  have r4: "u16_at DnsPanicked ?buf 4 = Inr (of_nat (length qs))"
    using u16_at_prefix [of DnsPanicked "be16 ident @ be16 flags" "of_nat (length qs)" "?a @ be16 ns @ be16 ar @ ?qs @ ?rrs @ rest"]
    by simp
  have r6: "u16_at DnsPanicked ?buf 6 = Inr (of_nat (length rrs))"
    using u16_at_prefix [of DnsPanicked "be16 ident @ be16 flags @ ?q" "of_nat (length rrs)" "be16 ns @ be16 ar @ ?qs @ ?rrs @ rest"]
    by simp
  have q: "skip_questions ?buf (length qs) 12 = Inr (12 + length ?qs)"
    using skip_questions_wire [OF assms(3), of ?head "?rrs @ rest"] len(1) by simp
  have a: "read_answers ?buf qtype (length rrs) (12 + length ?qs) = Inr (concat (map (rr_addr qtype) rrs))"
  proof -
    have "length (?head @ ?qs) = 12 + length ?qs" by (simp only: length_append [of ?head] len(1))
    then show ?thesis using read_answers_wire [OF assms(5), of "?head @ ?qs" rest qtype] by (simp only: append_assoc)
  qed
  show ?thesis
    unfolding buf parse_response_def
    using assms(1,2) len(2) by (simp only: r0 r2 r4 r6 n q a res_bind_simps if_False simp_thms)
qed

theorem dns_response_exact_witness:
  "let qs = [(([[97], [98, 99]], None), 1, 1)];
       rrs = [\<lparr>rr_name = ([], Some 12), rr_type = 5, rr_class = 1, rr_ttl = 60, rr_data = [1, 97, 0]\<rparr>,
              \<lparr>rr_name = ([[122]], None), rr_type = 1, rr_class = 1, rr_ttl = 60, rr_data = [10, 0, 0, 1]\<rparr>]
   in parse_response (dns_message 7 0x8180 qs rrs 0 0 @ [9]) 7 ''a.bc'' 1 = Inr [V4 0x0A000001]"
  using dns_response_exact [of "0x8180" "[(([[97], [98, 99]], None), 1, 1)]"
      "[\<lparr>rr_name = ([], Some 12), rr_type = 5, rr_class = 1, rr_ttl = 60, rr_data = [1, 97, 0]\<rparr>,
        \<lparr>rr_name = ([[122]], None), rr_type = 1, rr_class = 1, rr_ttl = 60, rr_data = [10, 0, 0, 1]\<rparr>]" 7 0 0 "[9]" "''a.bc''" 1]
  by (simp add: Let_def name_ok_def label_ok_def rr_addr_def get32_def be_get_def)

text \<open>The query is refused exactly for an empty name or a label that is empty or longer than 63 bytes; otherwise it is a
  message with the one question asked for.\<close>

theorem dns_query_exact:
  "build_query ident name qtype =
    (let labels = split_on (CHR ''.'') (trim_end_matches (CHR ''.'') name) in
     if trim_end_matches (CHR ''.'') name = [] then Inl DnsNameEmpty
     else case filter (\<lambda>l. \<not> label_ok (as_bytes l)) labels of
            l # _ \<Rightarrow> Inl (DnsBadLabel l)
          | [] \<Rightarrow> Inr (dns_message ident 0x0100 [((map as_bytes labels, None), qtype, 1)] [] 0 0))"
proof -
  have l: "put_labels ls = (case filter (\<lambda>l. \<not> label_ok (as_bytes l)) ls of
      l # _ \<Rightarrow> Inl (DnsBadLabel l)
    | [] \<Rightarrow> Inr (concat (map (\<lambda>l. of_nat (length l) # l) (map as_bytes ls))))" for ls
    by (induction ls) (auto simp: label_ok_def split: list.splits)
  show ?thesis
    by (simp add: build_query_def l Let_def dns_message_def question_bytes_def wire_name_def split: list.split)
qed

end
