(* ===== verification/Stun.thy ===== *)
theory Stun
  imports Checked_Read Rust_Net
begin

text \<open>
  The STUN client (\<open>common/src/stun.rs\<close>): the binding request, the parser of the response, and the probe of a list
  of servers. The datagram that comes back from a server is an argument.
\<close>

unbundle bit_operations_syntax

section \<open>The codec\<close>

datatype stun_error =
    StunShort nat | StunNotResponse u16 | StunBadCookie u32 | StunBadTxn | StunLength nat | StunAttrLength
  | StunNoAddress | StunNoServer | StunFailed | StunExchange | StunPanicked

definition MAGIC_COOKIE :: u32 where "MAGIC_COOKIE = 0x2112A442"
definition BINDING_REQUEST :: u16 where "BINDING_REQUEST = 0x0001"
definition BINDING_RESPONSE :: u16 where "BINDING_RESPONSE = 0x0101"
definition ATTR_XOR_MAPPED :: u16 where "ATTR_XOR_MAPPED = 0x0020"
definition ATTR_MAPPED :: u16 where "ATTR_MAPPED = 0x0001"

definition build_binding_request :: "bytes \<Rightarrow> bytes" where
  "build_binding_request txn = be16 BINDING_REQUEST @ be16 0 @ be32 MAGIC_COOKIE @ txn"

definition xor_bytes :: "bytes \<Rightarrow> bytes \<Rightarrow> bytes" where
  "xor_bytes x y = map2 (XOR) x y"

definition parse_addr_attr :: "bytes \<Rightarrow> bytes option \<Rightarrow> stun_error + socket_addr option" where
  "parse_addr_attr data xr =
     (if length data < 4 then Inr None
      else
        res_bind (ix StunPanicked data 1) (\<lambda>family.
        res_bind (u16_at StunPanicked data 2) (\<lambda>port.
          let port = (if xr \<noteq> None then port XOR ucast (drop_bit 16 MAGIC_COOKIE) else port) in
          if family = 1 then
            (if length data < 8 then Inr None
             else res_bind (slice StunPanicked data 4 8) (\<lambda>oct.
               let oct = (if xr \<noteq> None then xor_bytes oct (be32 MAGIC_COOKIE) else oct)
               in Inr (Some \<lparr>sa_ip = V4 (get32 oct), sa_port = port\<rparr>)))
          else if family = 2 then
            (if length data < 20 then Inr None
             else res_bind (slice StunPanicked data 4 20) (\<lambda>oct.
               let oct = (case xr of Some txn \<Rightarrow> xor_bytes oct (be32 MAGIC_COOKIE @ txn) | None \<Rightarrow> oct)
               in Inr (Some \<lparr>sa_ip = V6 (get128 oct), sa_port = port\<rparr>)))
          else Inr None)))"

definition pad4 :: "nat \<Rightarrow> nat" where "pad4 n = (n + 3) div 4 * 4"

lemma pad4_ge: "n \<le> pad4 n"
  by (simp add: pad4_def)

text \<open>The loop over the attributes: \<open>end\<close> is \<open>lim\<close>.\<close>

function attr_loop ::
  "bytes \<Rightarrow> bytes \<Rightarrow> nat \<Rightarrow> nat \<Rightarrow> socket_addr option \<Rightarrow> stun_error + socket_addr" where
  "attr_loop buf txn lim pos fallback =
     (if pos + 4 \<le> lim then
        res_bind (u16_at StunPanicked buf pos) (\<lambda>atype.
        res_bind (u16_at StunPanicked buf (pos + 2)) (\<lambda>w.
          let alen = unat w; pos = pos + 4 in
          if pos + alen > lim then Inl StunAttrLength
          else
            res_bind (slice StunPanicked buf pos (pos + alen)) (\<lambda>data.
              let pos = pos + pad4 alen in
              if atype = ATTR_XOR_MAPPED then
                (case parse_addr_attr data (Some txn) of
                   Inl e \<Rightarrow> Inl e
                 | Inr (Some a) \<Rightarrow> Inr a
                 | Inr None \<Rightarrow> attr_loop buf txn lim pos fallback)
              else if atype = ATTR_MAPPED \<and> fallback = None then
                (case parse_addr_attr data None of
                   Inl e \<Rightarrow> Inl e
                 | Inr a \<Rightarrow> attr_loop buf txn lim pos a)
              else attr_loop buf txn lim pos fallback)))
      else ok_or StunNoAddress fallback)"
  by pat_completeness auto
termination
  by (relation "measure (\<lambda>(buf, txn, lim, pos, fallback). lim - pos)") auto

declare attr_loop.simps [simp del]

definition parse_binding_response :: "bytes \<Rightarrow> bytes \<Rightarrow> stun_error + socket_addr" where
  "parse_binding_response buf txn =
     (if length buf < 20 then Inl (StunShort (length buf))
      else
        res_bind (u16_at StunPanicked buf 0) (\<lambda>mtype.
          if mtype \<noteq> BINDING_RESPONSE then Inl (StunNotResponse mtype)
          else
            res_bind (u16_at StunPanicked buf 2) (\<lambda>w.
            res_bind (slice StunPanicked buf 4 8) (\<lambda>c.
              let len = unat w; cookie = get32 c in
              if cookie \<noteq> MAGIC_COOKIE then Inl (StunBadCookie cookie)
              else
                res_bind (slice StunPanicked buf 8 20) (\<lambda>t.
                  if t \<noteq> txn then Inl StunBadTxn
                  else if 20 + len > length buf then Inl (StunLength len)
                  else attr_loop buf txn (20 + len) 20 None)))))"

section \<open>The probe\<close>

text \<open>\<open>exchange\<close>: the datagram a server answers a request with, or nothing when resolving, sending or waiting fails.
  The transaction ids are drawn from a sequence.\<close>

definition probe_one :: "(string \<Rightarrow> bytes \<Rightarrow> bytes option) \<Rightarrow> bytes \<Rightarrow> string \<Rightarrow> stun_error + socket_addr" where
  "probe_one exchange txn server =
     (case exchange server (build_binding_request txn) of
        None \<Rightarrow> Inl StunExchange
      | Some reply \<Rightarrow> parse_binding_response (take 1500 reply) txn)"

fun probe_list ::
  "(string \<Rightarrow> bytes \<Rightarrow> bytes option) \<Rightarrow> (nat \<Rightarrow> bytes) \<Rightarrow> nat \<Rightarrow> string list \<Rightarrow> stun_error + socket_addr" where
  "probe_list exchange txns i [] = Inl StunFailed"
| "probe_list exchange txns i (s # ss) =
     (case probe_one exchange (txns i) s of
        Inr a \<Rightarrow> Inr a
      | Inl _ \<Rightarrow> probe_list exchange txns (i + 1) ss)"

definition server_list :: "string \<Rightarrow> string list" where
  "server_list servers = filter (\<lambda>s. s \<noteq> []) (map trim (split_on (CHR '','') servers))"

definition probe :: "(string \<Rightarrow> bytes \<Rightarrow> bytes option) \<Rightarrow> (nat \<Rightarrow> bytes) \<Rightarrow> string \<Rightarrow> stun_error + socket_addr" where
  "probe exchange txns servers =
     (if server_list servers = [] then Inl StunNoServer
      else probe_list exchange txns 0 (server_list servers))"

section \<open>No panic\<close>

lemma addr_attr_safe: "parse_addr_attr data xr \<noteq> Inl e"
  by (auto simp: parse_addr_attr_def Let_def u16_at_in)

lemma attr_loop_safe:
  "lim \<le> length buf \<Longrightarrow> attr_loop buf txn lim pos fb \<noteq> Inl StunPanicked"
proof (induction buf txn lim pos fb rule: attr_loop.induct)
  case (1 buf txn lim pos fb)
  show ?case
  proof (cases "pos + 4 \<le> lim")
    case False
    then show ?thesis by (cases fb) (simp_all add: attr_loop.simps [of buf])
  next
    case True
    then have t: "u16_at StunPanicked buf pos = Inr (get16 (take 2 (drop pos buf)))"
      "u16_at StunPanicked buf (pos + 2) = Inr (get16 (take 2 (drop (pos + 2) buf)))"
      using "1.prems" by (intro u16_at_in; simp)+
    let ?n = "unat (get16 (take 2 (drop (pos + 2) buf)))"
    show ?thesis
    proof (cases "pos + 4 + ?n > lim")
      case True
      then show ?thesis using t \<open>pos + 4 \<le> lim\<close> by (subst attr_loop.simps) simp
    next
      case False
      then have s: "slice StunPanicked buf (pos + 4) (pos + 4 + ?n) = Inr (take ?n (drop (pos + 4) buf))"
        using "1.prems" by simp
      note IH = "1.IH" [OF \<open>pos + 4 \<le> lim\<close> refl refl False refl]
      show ?thesis
        using IH t s False \<open>pos + 4 \<le> lim\<close> "1.prems" addr_attr_safe
        by (subst attr_loop.simps) (auto simp: Let_def split: sum.splits option.splits)
    qed
  qed
qed

text \<open>No datagram makes the parser index out of range, whatever the lengths in it say.\<close>

theorem stun_never_panics: "parse_binding_response buf txn \<noteq> Inl StunPanicked"
  by (auto simp: parse_binding_response_def Let_def u16_at_in attr_loop_safe)

section \<open>What a response says\<close>

text \<open>A response as a server builds it: a header and padded attributes.\<close>

definition attr_bytes :: "u16 \<times> bytes \<Rightarrow> bytes" where
  "attr_bytes a = (case a of (t, d) \<Rightarrow>
     be16 t @ be16 (of_nat (length d)) @ d @ replicate (pad4 (length d) - length d) 0)"

lemma attr_bytes_pair:
  "attr_bytes (t, d) = be16 t @ be16 (of_nat (length d)) @ d @ replicate (pad4 (length d) - length d) 0"
  by (simp add: attr_bytes_def)

definition stun_message :: "bytes \<Rightarrow> (u16 \<times> bytes) list \<Rightarrow> bytes" where
  "stun_message txn attrs =
     (let body = concat (map attr_bytes attrs)
      in be16 BINDING_RESPONSE @ be16 (of_nat (length body)) @ be32 MAGIC_COOKIE @ txn @ body)"

definition attr_addr :: "bytes option \<Rightarrow> bytes \<Rightarrow> socket_addr option" where
  "attr_addr xr d = (case parse_addr_attr d xr of Inr a \<Rightarrow> a | Inl _ \<Rightarrow> None)"

definition addrs_of :: "u16 \<Rightarrow> bytes option \<Rightarrow> (u16 \<times> bytes) list \<Rightarrow> socket_addr list" where
  "addrs_of ty xr attrs = List.map_filter (\<lambda>(t, d). if t = ty then attr_addr xr d else None) attrs"

definition first_addr :: "bytes \<Rightarrow> socket_addr option \<Rightarrow> (u16 \<times> bytes) list \<Rightarrow> socket_addr option" where
  "first_addr txn fallback attrs =
     (case addrs_of ATTR_XOR_MAPPED (Some txn) attrs of
        a # _ \<Rightarrow> Some a
      | [] \<Rightarrow> (case fallback of
                 Some a \<Rightarrow> Some a
               | None \<Rightarrow> (case addrs_of ATTR_MAPPED None attrs of a # _ \<Rightarrow> Some a | [] \<Rightarrow> None)))"

lemma parse_addr_total: "parse_addr_attr d xr = Inr (attr_addr xr d)"
  by (cases "parse_addr_attr d xr") (simp_all add: attr_addr_def addr_attr_safe)

lemma addrs_of_Cons:
  "addrs_of ty xr ((t, d) # attrs) =
     (if t = ty then (case attr_addr xr d of Some a \<Rightarrow> [a] | None \<Rightarrow> []) else []) @ addrs_of ty xr attrs"
  by (simp add: addrs_of_def List.map_filter_def split: option.split)

lemma first_addr_Cons:
  "first_addr txn fb ((t, d) # attrs) =
     (if t = ATTR_XOR_MAPPED then (case attr_addr (Some txn) d of Some a \<Rightarrow> Some a | None \<Rightarrow> first_addr txn fb attrs)
      else if t = ATTR_MAPPED \<and> fb = None then first_addr txn (attr_addr None d) attrs
      else first_addr txn fb attrs)"
  by (auto simp: first_addr_def addrs_of_Cons ATTR_XOR_MAPPED_def ATTR_MAPPED_def split: option.splits list.splits)

lemma attr_loop_attrs:
  assumes "list_all (\<lambda>(t, d). length d < 65536) attrs" "lim = length pre + length (concat (map attr_bytes attrs))"
  shows "attr_loop (pre @ concat (map attr_bytes attrs) @ rest) txn lim (length pre) fb
    = ok_or StunNoAddress (first_addr txn fb attrs)"
  using assms
proof (induction attrs arbitrary: pre fb)
  case Nil
  then show ?case by (cases fb) (simp_all add: attr_loop.simps first_addr_def addrs_of_def List.map_filter_def)
next
  case (Cons a attrs)
  obtain t d where a: "a = (t, d)" by fastforce
  let ?pad = "replicate (pad4 (length d) - length d) (0 :: u8)"
  let ?tail = "concat (map attr_bytes attrs) @ rest"
  let ?buf = "pre @ concat (map attr_bytes (a # attrs)) @ rest"
  have n: "unat (of_nat (length d) :: u16) = length d" using Cons.prems(1) by (simp add: a unat_of_nat)
  have lim: "lim = length pre + 4 + pad4 (length d) + length (concat (map attr_bytes attrs))"
    using Cons.prems(2) pad4_ge [of "length d"] by (simp add: a attr_bytes_pair)
  have buf: "?buf = pre @ be16 t @ be16 (of_nat (length d)) @ d @ ?pad @ ?tail"
    by (simp add: a attr_bytes_pair)
  have r1: "u16_at StunPanicked ?buf (length pre) = Inr t" unfolding buf by simp
  have r2: "u16_at StunPanicked ?buf (length pre + 2) = Inr (of_nat (length d))"
    unfolding buf using u16_at_prefix [of StunPanicked "pre @ be16 t" "of_nat (length d)" "d @ ?pad @ ?tail"]
    by (simp only: append_assoc length_append length_be)
  have r3: "slice StunPanicked ?buf (length pre + 4) (length pre + 4 + length d) = Inr d"
    unfolding buf using slice_prefix [of "length d" d StunPanicked "pre @ be16 t @ be16 (of_nat (length d))" "?pad @ ?tail"]
    by (simp add: add.assoc)
  let ?pre = "pre @ attr_bytes a"
  have len: "length ?pre = length pre + 4 + pad4 (length d)" using pad4_ge [of "length d"] by (simp add: a attr_bytes_pair)
  have next_: "attr_loop ?buf txn lim (length pre + 4 + pad4 (length d)) fb' = ok_or StunNoAddress (first_addr txn fb' attrs)"
    for fb' using Cons.IH [of ?pre fb'] Cons.prems(1) lim len by (simp add: add.assoc)
  have c: "(length pre + 4 \<le> lim) = True" "(length pre + 4 + length d > lim) = False"
    using lim pad4_ge [of "length d"] by auto
  have "attr_loop ?buf txn lim (length pre) fb =
     (if t = ATTR_XOR_MAPPED then
        (case attr_addr (Some txn) d of Some a \<Rightarrow> Inr a | None \<Rightarrow> ok_or StunNoAddress (first_addr txn fb attrs))
      else if t = ATTR_MAPPED \<and> fb = None then ok_or StunNoAddress (first_addr txn (attr_addr None d) attrs)
      else ok_or StunNoAddress (first_addr txn fb attrs))"
    by (subst attr_loop.simps)
      (simp only: r1 r2 r3 n c Let_def res_bind_simps if_True if_False parse_addr_total sum.case next_)
  also have "\<dots> = ok_or StunNoAddress (first_addr txn fb (a # attrs))"
    by (auto simp: a first_addr_Cons split: option.split)
  finally show ?case .
qed

text \<open>What the parser makes of a response with any attributes, and any bytes after it: the first XOR-MAPPED-ADDRESS
  that holds an address, else the first MAPPED-ADDRESS that does, wherever they stand among attributes of other
  kinds; when there is none, that is the error.\<close>

theorem stun_response_read:
  assumes "length txn = 12" "list_all (\<lambda>(t, d). length d < 65536) attrs"
    and "length (concat (map attr_bytes attrs)) < 65536"
  shows "parse_binding_response (stun_message txn attrs @ rest) txn =
    (case addrs_of ATTR_XOR_MAPPED (Some txn) attrs @ addrs_of ATTR_MAPPED None attrs of
       a # _ \<Rightarrow> Inr a
     | [] \<Rightarrow> Inl StunNoAddress)"
proof -
  let ?body = "concat (map attr_bytes attrs)"
  let ?l = "be16 (of_nat (length ?body))" and ?c = "be32 MAGIC_COOKIE"
  let ?head = "be16 BINDING_RESPONSE @ ?l @ ?c @ txn"
  let ?buf = "?head @ ?body @ rest"
  have buf: "stun_message txn attrs @ rest = ?buf" by (simp add: stun_message_def Let_def)
  have len: "length ?head = 20" using assms(1) by simp
  have n: "unat (of_nat (length ?body) :: u16) = length ?body" using assms(3) by (simp add: unat_of_nat)
  have r: "u16_at StunPanicked ?buf 0 = Inr BINDING_RESPONSE" "u16_at StunPanicked ?buf 2 = Inr (of_nat (length ?body))"
    "slice StunPanicked ?buf 4 8 = Inr ?c" "slice StunPanicked ?buf 8 20 = Inr txn"
    using u16_at_prefix [of StunPanicked "be16 BINDING_RESPONSE" "of_nat (length ?body)" "?c @ txn @ ?body @ rest"]
      slice_prefix [of 4 ?c StunPanicked "be16 BINDING_RESPONSE @ ?l" "txn @ ?body @ rest"]
      slice_prefix [of 12 txn StunPanicked "be16 BINDING_RESPONSE @ ?l @ ?c" "?body @ rest"] assms(1)
    by simp_all
  have loop: "attr_loop ?buf txn (20 + length ?body) 20 None = ok_or StunNoAddress (first_addr txn None attrs)"
    using attr_loop_attrs [OF assms(2), of "20 + length ?body" ?head rest txn None] len by simp
  have "\<not> length ?buf < 20" "\<not> 20 + length ?body > length ?buf" using len by simp_all
  then have "parse_binding_response ?buf txn = ok_or StunNoAddress (first_addr txn None attrs)"
    unfolding parse_binding_response_def by (simp only: r n Let_def res_bind_simps get_be loop if_False simp_thms)
  then show ?thesis unfolding buf by (simp add: first_addr_def split: list.split)
qed

theorem stun_response_read_witness:
  "parse_binding_response (stun_message (replicate 12 7) [(0x8022, [1, 2, 3]), (ATTR_MAPPED, [0, 1, 0, 80, 10, 0, 0, 1])] @ [9])
      (replicate 12 7)
   = Inr \<lparr>sa_ip = V4 0x0A000001, sa_port = 80\<rparr>"
proof -
  let ?attrs = "[(0x8022, [1, 2, 3]), (ATTR_MAPPED, [0, 1, 0, 80, 10, 0, 0, 1])] :: (u16 \<times> bytes) list"
  have a: "addrs_of ATTR_XOR_MAPPED (Some (replicate 12 7)) ?attrs = []"
    by (simp add: addrs_of_def List.map_filter_def ATTR_XOR_MAPPED_def ATTR_MAPPED_def)
  have "attr_addr None [0, 1, 0, 80, 10, 0, 0, 1] = Some \<lparr>sa_ip = V4 0x0A000001, sa_port = 80\<rparr>"
    by (simp add: attr_addr_def parse_addr_attr_def u16_at_def get16_def get32_def be_get_def)
  then have m: "addrs_of ATTR_MAPPED None ?attrs = [\<lparr>sa_ip = V4 0x0A000001, sa_port = 80\<rparr>]"
    by (simp add: addrs_of_def List.map_filter_def ATTR_MAPPED_def)
  show ?thesis
    using stun_response_read [of "replicate 12 7" ?attrs "[9]"] by (simp only: a m) (simp add: attr_bytes_def pad4_def)
qed

text \<open>The two forms of an address: what a server writes is what the client reads.\<close>

definition plain_addr :: "socket_addr \<Rightarrow> bytes" where
  "plain_addr a = [0, (case sa_ip a of V4 _ \<Rightarrow> 1 | V6 _ \<Rightarrow> 2)] @ be16 (sa_port a) @ ip_octets (sa_ip a)"

definition xor_addr :: "bytes \<Rightarrow> socket_addr \<Rightarrow> bytes" where
  "xor_addr txn a =
     [0, (case sa_ip a of V4 _ \<Rightarrow> 1 | V6 _ \<Rightarrow> 2)] @ be16 (sa_port a XOR ucast (drop_bit 16 MAGIC_COOKIE))
     @ xor_bytes (ip_octets (sa_ip a)) (be32 MAGIC_COOKIE @ txn)"

lemma xor_twice: "length x \<le> length y \<Longrightarrow> xor_bytes (xor_bytes x y) y = x"
proof (induction x arbitrary: y)
  case (Cons a x)
  then show ?case by (cases y) (auto simp: xor_bytes_def xor.assoc)
qed (simp add: xor_bytes_def)

lemma length_xor [simp]: "length (xor_bytes x y) = min (length x) (length y)"
  by (simp add: xor_bytes_def)

lemma xor_prefix: "length x \<le> length y \<Longrightarrow> xor_bytes x (y @ z) = xor_bytes x y"
  unfolding xor_bytes_def by (simp add: zip_append2)

lemma parse_addr_parts:
  assumes "length o4 = 4" "length o16 = 16"
  shows "parse_addr_attr ([z, 1] @ be16 p @ o4) None = Inr (Some \<lparr>sa_ip = V4 (get32 o4), sa_port = p\<rparr>)"
    "parse_addr_attr ([z, 2] @ be16 p @ o16) None = Inr (Some \<lparr>sa_ip = V6 (get128 o16), sa_port = p\<rparr>)"
    "parse_addr_attr ([z, 1] @ be16 p @ o4) (Some txn) =
      Inr (Some \<lparr>sa_ip = V4 (get32 (xor_bytes o4 (be32 MAGIC_COOKIE))), sa_port = p XOR ucast (drop_bit 16 MAGIC_COOKIE)\<rparr>)"
    "parse_addr_attr ([z, 2] @ be16 p @ o16) (Some txn) =
      Inr (Some \<lparr>sa_ip = V6 (get128 (xor_bytes o16 (be32 MAGIC_COOKIE @ txn))), sa_port = p XOR ucast (drop_bit 16 MAGIC_COOKIE)\<rparr>)"
proof -
  have p: "u16_at StunPanicked ([z, f] @ be16 p @ x) 2 = Inr p" for f x
    using u16_at_prefix [of StunPanicked "[z, f]" p x] by (simp add: numeral_2_eq_2)
  have s: "slice StunPanicked ([z, f] @ be16 p @ x) 4 (4 + length x) = Inr x" for f x
    by (simp add: slice_def)
  have i: "ix StunPanicked ([z, f] @ be16 p @ x) 1 = Inr f" for f x by simp
  have l: "length ([z, f] @ be16 p @ x) = 4 + length x" for f x by simp
  note simps = parse_addr_attr_def p i l Let_def res_bind_simps
  have s4: "slice StunPanicked ([z, f] @ be16 p @ o4) 4 8 = Inr o4" for f using s [of f o4] assms(1) by simp
  have s16: "slice StunPanicked ([z, f] @ be16 p @ o16) 4 20 = Inr o16" for f using s [of f o16] assms(2) by simp
  show "parse_addr_attr ([z, 1] @ be16 p @ o4) None = Inr (Some \<lparr>sa_ip = V4 (get32 o4), sa_port = p\<rparr>)"
    unfolding simps using assms s4 by simp
  show "parse_addr_attr ([z, 2] @ be16 p @ o16) None = Inr (Some \<lparr>sa_ip = V6 (get128 o16), sa_port = p\<rparr>)"
    unfolding simps using assms s16 by simp
  show "parse_addr_attr ([z, 1] @ be16 p @ o4) (Some txn) =
      Inr (Some \<lparr>sa_ip = V4 (get32 (xor_bytes o4 (be32 MAGIC_COOKIE))), sa_port = p XOR ucast (drop_bit 16 MAGIC_COOKIE)\<rparr>)"
    unfolding simps using assms s4 by simp
  show "parse_addr_attr ([z, 2] @ be16 p @ o16) (Some txn) =
      Inr (Some \<lparr>sa_ip = V6 (get128 (xor_bytes o16 (be32 MAGIC_COOKIE @ txn))), sa_port = p XOR ucast (drop_bit 16 MAGIC_COOKIE)\<rparr>)"
    unfolding simps using assms s16 by simp
qed

text \<open>An address of either family, written plainly or masked with the cookie and the transaction id as RFC 5389 says,
  is read back unchanged.\<close>

theorem stun_address_roundtrip:
  assumes "length txn = 12"
  shows "parse_addr_attr (xor_addr txn a) (Some txn) = Inr (Some a) \<and> parse_addr_attr (plain_addr a) None = Inr (Some a)"
proof -
  obtain ip p where a: "a = \<lparr>sa_ip = ip, sa_port = p\<rparr>" by (cases a) auto
  show ?thesis
  proof (cases ip)
    case (V4 w)
    have "xor_bytes (be32 w) (be32 MAGIC_COOKIE @ txn) = xor_bytes (be32 w) (be32 MAGIC_COOKIE)"
      by (simp add: xor_prefix)
    then show ?thesis
      using parse_addr_parts(1) [of "be32 w" "be128 0" 0 p] parse_addr_parts(3) [of "xor_bytes (be32 w) (be32 MAGIC_COOKIE)" "be128 0"]
      by (simp add: a V4 xor_addr_def plain_addr_def xor_twice xor.assoc)
  next
    case (V6 w)
    then show ?thesis
      using assms parse_addr_parts(2) [of "be32 0" "be128 w" 0 p]
        parse_addr_parts(4) [of "be32 0" "xor_bytes (be128 w) (be32 MAGIC_COOKIE @ txn)"]
      by (simp add: a xor_addr_def plain_addr_def xor_twice xor.assoc)
  qed
qed

theorem stun_address_roundtrip_witness:
  "parse_addr_attr (xor_addr (replicate 12 7) \<lparr>sa_ip = V4 5, sa_port = 80\<rparr>) (Some (replicate 12 7))
     = Inr (Some \<lparr>sa_ip = V4 5, sa_port = 80\<rparr>)"
  using stun_address_roundtrip [of "replicate 12 7" "\<lparr>sa_ip = V4 5, sa_port = 80\<rparr>"] by simp

end
