(* ===== verification/Spec2Isabelle.thy ===== *)
theory Spec2Isabelle
  imports NLink_Runtime Proxy_Protocol Wire Sni Sessions Acl Auth Rbac Pool Registration_Gaps Vnet_Hub_Inv Http_Gaps Kcp_Gaps Ws_Handshake Dns Stun
begin

text \<open>
  Verification of the protocol core of NFRP, a reverse proxy in Rust that speaks the frp wire
  protocol and an extension of its own, NLink. The repository has three crates: \<open>common\<close>
  (codecs, tokens, policies), \<open>server\<close> and \<open>client\<close>. This library models the parts that
  compute: what the sockets carry, what the tables hold and what each decision returns. Tasks,
  sockets, timers and files are left out; where the code reads a clock, a random generator or a
  third-party primitive (HMAC, SHA-256, base64), the model takes it as an argument.

  Conventions. A byte is an 8-bit word and a Rust string is the list of its UTF-8 bytes as
  characters (\<open>Rust_Std\<close>); \<open>u8\<close> to \<open>u64\<close> are words of that width, \<open>usize\<close> lengths are natural
  numbers; a struct is a record, an enum a datatype, \<open>Result\<close> a sum whose left side is an error
  datatype with one constructor per error of the code, and a method with \<open>&mut self\<close> returns the
  new state with its result. A panic (index, slice boundary, arithmetic) is a value of the error
  type, so that its absence is a theorem. \<open>Instant\<close> and \<open>SystemTime\<close> are nanosecond counts.

  Theories, from the bottom:
  \<^item> \<open>NF_Prelude\<close>: lemmas on lists, options, sums and finite maps; \<open>Framing\<close>: reading frames from
    a stream in pieces, and the interface of a frame reader; \<open>Rust_Std\<close>: what the code uses
    of the standard library's strings, integers and byte orders; \<open>Rust_Net\<close>: \<open>std::net\<close> addresses,
    their text form and parser; \<open>Codec\<close>: the interfaces of a self-delimiting codec and of an enum
    with a byte code; \<open>Expiring\<close>: the interface of a table whose entries expire.
  \<^item> \<open>NLink_Caps\<close> (\<open>common/src/nlink/mod.rs\<close>): the capability bitmap, feature sets and their
    agreement.
  \<^item> \<open>NLink_Ids\<close> and \<open>NLink_Tokens\<close> (\<open>common/src/nlink/session.rs\<close>): connection and trace ids, hex,
    identity and resume tokens, the resume registry, the table of pending tokens; \<open>Const_Time\<close> is
    the comparison they use (\<open>common/src/frp/msg.rs\<close>).
  \<^item> \<open>NLink_Frame\<close> and \<open>NLink_Commit\<close> (\<open>common/src/nlink/frame.rs\<close>, and the \<open>ResumeCommit\<close> branch of
    the loop in \<open>server/src/serve.rs\<close>): TLVs, frames, the preamble; splitting a list of proxy names
    into frames and the assembler that puts it together.
  \<^item> \<open>NLink_Policy\<close> (\<open>policy.rs\<close>), \<open>NLink_Knock\<close> (\<open>knock.rs\<close>), \<open>NLink_RateLimit\<close>
    (\<open>ratelimit.rs\<close>): the direct-or-relay decision and the probe plan, port knocking, token buckets.
  \<^item> \<open>NLink_Runtime\<close> (\<open>server/src/nlink.rs\<close>, \<open>client/src/nlink.rs\<close>, the token check of a resume in
    \<open>server/src/serve.rs\<close>): configuration, gates, the issue and check of tokens, the preamble the
    client sends.
  \<^item> \<open>Proxy_Protocol\<close> (\<open>common/src/proxy_protocol.rs\<close>), \<open>Wire\<close> (\<open>common/src/frp/wire.rs\<close> and
    \<open>take_frame\<close> of \<open>conn.rs\<close>), \<open>Sni\<close> (\<open>common/src/frp/sni.rs\<close>): the byte formats at the edges.

  \<^item> \<open>Quotas\<close> (\<open>server/src/limits.rs\<close>), \<open>Ports\<close> and \<open>Sessions\<close> (\<open>server/src/registry.rs\<close>, with the
    resume branch, the end of \<open>handle_control\<close> in \<open>server/src/serve.rs\<close> and \<open>rebind_control\<close> of
    \<open>pool.rs\<close>): quotas, the public ports with their groups of backends and the load balancer, the
    clients that are online or suspended. \<open>Sessions\<close> is a step relation over the whole server:
    logins, registrations, ends of connections, sweeps and kicks in any order.

  \<^item> \<open>Pool\<close> (\<open>server/src/pool.rs\<close> and \<open>admit_user\<close>): the users that wait for a work connection
    and the work connections that wait for a user, with the quotas they hold, for one client; runs of
    arrivals, ends and suspensions in any order.
  \<^item> \<open>Acl\<close>, \<open>Rbac\<close> (\<open>common/src/security.rs\<close>, port lists of \<open>config.rs\<close>), \<open>Oidc\<close>
    (\<open>common/src/auth/oidc.rs\<close>) and \<open>Auth\<close> (the provider of \<open>security.rs\<close>, \<open>server/src/guard.rs\<close>,
    the check of work connections in \<open>serve.rs\<close> and of registrations in \<open>vnet.rs\<close>): who may
    connect, with which credential, and what a role may register.

  \<^item> \<open>Vhost\<close> (\<open>server/src/vhost.rs\<close>): the table of routes by domain, path and user, with
    its conflicts and lookup; \<open>Visitors\<close> (\<open>server/src/visitor.rs\<close> and \<open>handle_visitor\<close> of
    \<open>serve.rs\<close>): private names and who may visit them. \<open>Client_Ref\<close> is the client these tables refer to.
  \<^item> \<open>Registration\<close> (\<open>register_proxy\<close> and its helpers, the \<open>NewProxy\<close>, \<open>CloseProxy\<close> and resume
    branches in \<open>serve.rs\<close>, the proxy table of \<open>pool.rs\<close>, \<open>cleanup_client\<close>): a proxy takes and
    frees what \<open>Quotas\<close>, \<open>Ports\<close>, \<open>Vhost\<close>, \<open>Visitors\<close> and \<open>Rbac\<close> hold. \<open>Registration_Inv\<close> shows
    that these tables agree after any run of operations, \<open>Registration_Gaps\<close> where they do not.

  \<^item> \<open>Http_Io\<close>, \<open>Http_Head\<close> (\<open>common/src/http_relay.rs\<close>) and \<open>Http_Forward\<close> (\<open>handle_http\<close>,
    \<open>handle_tcpmux\<close>, \<open>handle_https\<close> of \<open>server/src/vhost.rs\<close>): buffered reading, heads and framing, the
    life of a visitor's requests. \<open>Http_Framing\<close> has a receiver after RFC 9112, \<open>Http_Safety\<close> the lemmas
    on how it reads what is forwarded, \<open>Http_Gaps\<close> the theorems and the requests that get past the checks.

  \<^item> \<open>Kcp\<close>, \<open>Kcp_Drive\<close> (\<open>common/src/frp/kcp.rs\<close>): the reliable transport over UDP; a session with its
    windows and timers, the loop that drives it, the stream, the listener. \<open>Kcp_Facts\<close> has the codec and the
    fragments of a message, \<open>Kcp_Ends\<close> the invariant between two ends, \<open>Kcp_Net\<close> the two streams with
    a network that loses, repeats and reorders, \<open>Kcp_Gaps\<close> bounds and the cases that go wrong.

  \<^item> \<open>Ws\<close>, \<open>Ws_Handshake\<close> (\<open>common/src/ws.rs\<close>): WebSocket frames and the byte stream over them, the opening
    handshake of both sides. \<open>Ws_Facts\<close> shows what a reader gets of the frames of its peer, and the frame that is
    sent twice.

  \<^item> \<open>Dns\<close> (\<open>common/src/dns.rs\<close>), \<open>Stun\<close> (\<open>common/src/stun.rs\<close>): queries and the parsers of their responses, on
    \<open>Checked_Read\<close>, where an index out of range is an error value; \<open>Sock_Addr\<close> prints and parses an address
    with its port.

  How they interact. A connection starts with frp messages in \<open>Wire\<close> frames, or with an NLink
  preamble (\<open>NLink_Frame\<close>) whose capabilities are intersected with the server's
  (\<open>NLink_Caps\<close>, \<open>NLink_Runtime\<close>). At login the server issues a resume token; the client shows it
  in the preamble of its next connection (\<open>NLink_Tokens\<close>), and when the session is resumed it
  sends the list of proxies it still wants (\<open>NLink_Commit\<close>). Visitors of a knocked port pass
  \<open>NLink_Knock\<close>, the bytes they exchange pass \<open>NLink_RateLimit\<close>, and connections to backends or
  from load balancers carry a PROXY header or a TLS hello.

  What the lemmas show. Codecs: decoding inverts encoding, whatever follows on the stream, however
  it is cut, and no proper prefix is mistaken; parsers never index out of range. Tables: every
  operation keeps the invariant; pruning of expired entries cannot be observed; runs of
  operations satisfy the contract of the table (one-time tokens, admission by last grant,
  rate bound). Decisions: an exact characterisation of the accepting inputs.

  Bounds and fuel. Every loop terminates by a measure or by structural recursion, but for the
  doubling loop of \<open>ttl_ladder\<close>, which is a \<open>while_option\<close> shown to end for every input. The record
  loop of \<open>Sni\<close> recurses on the code's own limit of four records.

  Not modelled: f64 rounding in \<open>NLink_RateLimit\<close> (quantities are exact rationals); the answers to
  NLink control frames on a live connection; JSON (serde); cryptography (MD5, HMAC, signature
  checks are arguments); the quota of connections shared by all clients is modelled for one client.
\<close>

end
